(* ===== verification/Prelude.thy ===== *)
theory Prelude
  imports Main "HOL-Library.Word"
begin

text \<open>
  Shared vocabulary of the development: the integer types of
  \<^verbatim>\<open>coproto/Common/Defines.h\<close>, the faults by which the C++ code stops, the
  sequencing of fallible steps, and the generic lemmas on power-of-two index masks, filtered
  lists and decimal/hexadecimal printing that several components use.
\<close>

unbundle bit_operations_syntax

type_synonym u8 = "8 word"
type_synonym u32 = "32 word"
type_synonym u64 = "64 word"

section \<open>Faults and fallible steps\<close>

text \<open>
  The model is that of a build with assertions enabled: a failed \<^verbatim>\<open>assert\<close> or
  \<^verbatim>\<open>COPROTO_ASSERT\<close> stops the program with \<open>Assertion\<close>, \<^verbatim>\<open>std::terminate\<close> is
  \<open>Terminated\<close>, and an exception that escapes an operation is named by its class. A
  dereference of a pointer that no longer (or never) points to an object is \<open>Bad_Pointer\<close>.
\<close>

datatype fault =
    Assertion
  | Terminated
  | Out_Of_Range
  | Bad_Optional_Access
  | Runtime_Error
  | Bad_Alloc
  | Bad_Pointer

definition bindR :: "'e + 'a \<Rightarrow> ('a \<Rightarrow> 'e + 'b) \<Rightarrow> 'e + 'b" where
  "bindR x f = (case x of Inl e \<Rightarrow> Inl e | Inr y \<Rightarrow> f y)"

definition checkR :: "bool \<Rightarrow> 'e \<Rightarrow> 'e + 'a \<Rightarrow> 'e + 'a" where
  "checkR b e k = (if b then k else Inl e)"

named_theorems fault_simps \<open>sequencing of fallible steps\<close>

lemma bindR_Inl [simp]: "bindR (Inl e) f = Inl e"
  and bindR_Inr [simp]: "bindR (Inr y) f = f y"
  by (simp_all add: bindR_def)

lemma checkR_True [simp]: "checkR True e k = k"
  and checkR_False [simp]: "checkR False e k = Inl e"
  by (simp_all add: checkR_def)

lemma bindR_eq_Inr [fault_simps]:
  "bindR x f = Inr z \<longleftrightarrow> (\<exists>y. x = Inr y \<and> f y = Inr z)"
  by (cases x) auto

lemma checkR_eq_Inr [fault_simps]: "checkR b e k = Inr z \<longleftrightarrow> b \<and> k = Inr z"
  by (cases b) auto

lemma bindR_split:
  "P (bindR x f) \<longleftrightarrow> (\<forall>e. x = Inl e \<longrightarrow> P (Inl e)) \<and> (\<forall>y. x = Inr y \<longrightarrow> P (f y))"
  by (cases x) auto

lemma bindR_cong [fundef_cong]:
  "x = x' \<Longrightarrow> (\<And>y. x' = Inr y \<Longrightarrow> f y = f' y) \<Longrightarrow> bindR x f = bindR x' f'"
  by (cases x') auto

section \<open>Indices into power-of-two ring buffers\<close>

text \<open>
  Both ring buffers of the library keep unreduced 64-bit counters and index their storage with
  \<^verbatim>\<open>counter & (capacity - 1)\<close>. The slot of the \<open>i\<close>-th element past a counter \<open>b\<close>
  is \<open>(unat b + i) mod 2 ^ k\<close>, also when the counter itself has wrapped around \<open>2 ^ 64\<close>.
\<close>

lemma unat_mask_index:
  assumes "k \<le> 64"
  shows "unat ((b :: u64) AND mask k) = unat b mod 2 ^ k"
proof -
  have "unat (take_bit k b) = take_bit k (unat b)"
    using assms by (simp add: unsigned_take_bit_eq)
  then show ?thesis by (simp only: take_bit_eq_mask [symmetric] take_bit_eq_mod [symmetric])
qed

lemma unat_mask_index_add:
  assumes "k \<le> 64"
  shows "unat ((b + of_nat i :: u64) AND mask k) = (unat b + i) mod 2 ^ k"
proof -
  have "unat (b + of_nat i) mod 2 ^ k = (unat b + i) mod 2 ^ k"
  proof -
    have "(2::nat) ^ k dvd 2 ^ 64"
      using assms by (rule le_imp_power_dvd)
    then show ?thesis
      by (simp add: unat_word_ariths unat_of_nat mod_mod_cancel mod_add_right_eq mod_simps)
  qed
  then show ?thesis using assms by (simp add: unat_mask_index)
qed

lemma pow2_and_pred: "(2 ^ n :: u64) AND (2 ^ n - 1) = 0"
proof -
  have "(2 ^ n :: u64) AND mask n = 0"
    by (rule bit_word_eqI) (auto simp: bit_simps)
  then show ?thesis by (simp add: mask_eq_exp_minus_1)
qed

lemma unat_pow2:
  assumes "k < 64"
  shows "unat (2 ^ k :: u64) = 2 ^ k"
proof -
  have "(2::nat) ^ k < 2 ^ 64" using assms by (intro power_strict_increasing) auto
  moreover have "unat (of_nat (2 ^ k) :: u64) = 2 ^ k mod 2 ^ 64"
    by (simp only: unat_of_nat len_bit0 len_num1) simp
  ultimately show ?thesis by simp
qed

lemma mod_add_inj:
  fixes n :: nat
  assumes "i < n" and "j < n" and "(b + i) mod n = (b + j) mod n"
  shows "i = j"
  using assms
proof (induction i j rule: linorder_wlog)
  case (le i j)
  have "n dvd (b + j) - (b + i)"
    using le mod_eq_dvd_iff_nat [of "b + i" "b + j" n] by simp
  moreover have "j - i < n" using le by simp
  ultimately have "j - i = 0" using nat_dvd_not_less [of "j - i" n] by auto
  then show ?case using le by simp
next
  case (sym i j)
  then show ?case by simp
qed

section \<open>Optional entries\<close>

text \<open>The values held by a list of optional entries, in order.\<close>

fun somes :: "'a option list \<Rightarrow> 'a list" where
  "somes [] = []"
| "somes (None # xs) = somes xs"
| "somes (Some x # xs) = x # somes xs"

lemma somes_append [simp]: "somes (xs @ ys) = somes xs @ somes ys"
  by (induction xs rule: somes.induct) simp_all

lemma length_somes: "length (somes xs) \<le> length xs"
  by (induction xs rule: somes.induct) simp_all

lemma set_somes: "set (somes xs) = {x. Some x \<in> set xs}"
  by (induction xs rule: somes.induct) auto

lemma somes_eq_Nil: "somes xs = [] \<longleftrightarrow> set xs \<subseteq> {None}"
  by (induction xs rule: somes.induct) auto

text \<open>Emptying the entry at position \<open>i\<close> removes exactly its value.\<close>

lemma somes_update_None:
  assumes "i < length xs" and "xs ! i = Some x"
  shows "somes xs = somes (take i xs) @ x # somes (drop (Suc i) xs)"
    and "somes (xs[i := None]) = somes (take i xs) @ somes (drop (Suc i) xs)"
proof -
  have "xs = take i xs @ Some x # drop (Suc i) xs"
    using assms by (metis id_take_nth_drop)
  then show "somes xs = somes (take i xs) @ x # somes (drop (Suc i) xs)"
    by (metis somes_append somes.simps(3))
  show "somes (xs[i := None]) = somes (take i xs) @ somes (drop (Suc i) xs)"
    using assms(1) by (simp add: upd_conv_take_nth_drop)
qed

end
