(* ===== verification/Error_Code.thy ===== *)
theory Error_Code
  imports Prelude "HOL-Library.Char_ord"
begin

text \<open>
  Error codes and exceptions: \<^verbatim>\<open>coproto/Common/error_code.h\<close>,
  \<^verbatim>\<open>coproto/Common/error_code.cpp\<close>, \<^verbatim>\<open>coproto/Common/Exceptions.h\<close>, and the
  rethrow helper \<^verbatim>\<open>addTraceRethrow\<close> of \<^verbatim>\<open>coproto/Proto/Buffers.h\<close>. A
  \<^verbatim>\<open>std::error_code\<close> is a value and a category; it converts to \<open>true\<close> exactly when
  its value is not zero, whatever its category.
\<close>

section \<open>The code enumeration\<close>

datatype code =
    Success | Suspend | Cancel
  | Closed | RemoteClosed
  | Operation_aborted
  | IoError
  | BadBufferSize
  | SendLengthZeroMsg
  | NoAsyncSupport
  | UncaughtException
  | InvalidArguments
  | EndOfRound
  | Uninitialized
  | BadCoprotoMessageHeader
  | DEBUG_ERROR

fun code_value :: "code \<Rightarrow> int" where
  "code_value Success = 0"
| "code_value Suspend = 1"
| "code_value Cancel = 2"
| "code_value Closed = 3"
| "code_value RemoteClosed = 4"
| "code_value Operation_aborted = 5"
| "code_value IoError = 6"
| "code_value BadBufferSize = 7"
| "code_value SendLengthZeroMsg = 8"
| "code_value NoAsyncSupport = 9"
| "code_value UncaughtException = 10"
| "code_value InvalidArguments = 11"
| "code_value EndOfRound = 12"
| "code_value Uninitialized = 13"
| "code_value BadCoprotoMessageHeader = 14"
| "code_value DEBUG_ERROR = 15"

definition all_codes :: "code list" where
  "all_codes = [Success, Suspend, Cancel, Closed, RemoteClosed, Operation_aborted, IoError,
     BadBufferSize, SendLengthZeroMsg, NoAsyncSupport, UncaughtException, InvalidArguments,
     EndOfRound, Uninitialized, BadCoprotoMessageHeader, DEBUG_ERROR]"

lemma set_all_codes: "c \<in> set all_codes"
  by (cases c) (simp_all add: all_codes_def)

lemma code_value_inj [simp]: "code_value c = code_value d \<longleftrightarrow> c = d"
  by (cases c; cases d) simp_all

lemma code_value_zero [simp]: "code_value c = 0 \<longleftrightarrow> c = Success"
  by (cases c) simp_all

text \<open>Scoped enumerations are ordered by their underlying value.\<close>

instantiation code :: linorder
begin

definition less_eq_code :: "code \<Rightarrow> code \<Rightarrow> bool" where
  "less_eq_code c d \<longleftrightarrow> code_value c \<le> code_value d"

definition less_code :: "code \<Rightarrow> code \<Rightarrow> bool" where
  "less_code c d \<longleftrightarrow> code_value c < code_value d"

instance
  by standard (auto simp: less_eq_code_def less_code_def)

end

text \<open>\<^verbatim>\<open>static_cast<coproto::code>(err)\<close>: the enumerator of a value, if it has one.\<close>

definition code_of_value :: "int \<Rightarrow> code option" where
  "code_of_value v = find (\<lambda>c. code_value c = v) all_codes"

lemma code_of_value_code_value [simp]: "code_of_value (code_value c) = Some c"
  by (cases c) (simp_all add: code_of_value_def all_codes_def)

lemma code_of_value_Some: "code_of_value v = Some c \<Longrightarrow> v = code_value c"
  by (auto simp: code_of_value_def find_Some_iff)

section \<open>Error codes\<close>

datatype category = Coproto_Category | Other_Category string

record error_code =
  ec_value :: int
  ec_category :: category

definition make_error_code :: "code \<Rightarrow> error_code" where
  "make_error_code e = \<lparr>ec_value = code_value e, ec_category = Coproto_Category\<rparr>"

text \<open>The default constructed \<^verbatim>\<open>error_code\<close>, written \<^verbatim>\<open>{}\<close> in the source.\<close>

definition no_error :: error_code where
  "no_error = \<lparr>ec_value = 0, ec_category = Other_Category ''system''\<rparr>"

text \<open>\<^verbatim>\<open>error_code::operator bool\<close>.\<close>

definition is_error :: "error_code \<Rightarrow> bool" where
  "is_error ec \<longleftrightarrow> ec_value ec \<noteq> 0"

lemma is_error_make [simp]: "is_error (make_error_code c) \<longleftrightarrow> c \<noteq> Success"
  by (simp add: is_error_def make_error_code_def)

lemma is_error_no_error [simp]: "\<not> is_error no_error"
  by (simp add: is_error_def no_error_def)

lemma make_error_code_inj [simp]: "make_error_code c = make_error_code d \<longleftrightarrow> c = d"
  by (simp add: make_error_code_def)

text \<open>\<^verbatim>\<open>coprotoCodeCategory::message\<close>. The switch has no case for \<open>EndOfRound\<close>.\<close>

definition message :: "int \<Rightarrow> string" where
  "message err = (case code_of_value err of
     Some Success \<Rightarrow> ''coproto::code::success: The io operation completed successfully''
   | Some Suspend \<Rightarrow> ''coproto::code::suspend: The protocol has been suspended for some reason.''
   | Some Cancel \<Rightarrow> ''coproto::code::cancel: The operation has been canceled by the local party.''
   | Some Closed \<Rightarrow> ''coproto::code::closed: The connection has been closed by the local party.''
   | Some RemoteClosed \<Rightarrow>
       ''coproto::code::remoteClosed: The connection has been closed by the remote party.''
   | Some Operation_aborted \<Rightarrow>
       ''coproto::code::operation_aborted: The operation has been canceled by the local party.''
   | Some IoError \<Rightarrow>
       ''coproto::code::ioError: The io operation failed and the caller should abort''
   | Some BadBufferSize \<Rightarrow>
       ''coproto::code::badBufferSize: Bad buffer size. The reciever's buffer size does not match the number of bytes sent.''
   | Some SendLengthZeroMsg \<Rightarrow>
       ''coproto::code::sendLengthZeroMsg: Sending a zero length message is not allowed.''
   | Some NoAsyncSupport \<Rightarrow>
       ''coproto::code::noAsyncSupport: The requested operation for not support async sockets.''
   | Some UncaughtException \<Rightarrow>
       ''coproto::code::uncaughtException: An uncaught exception was thrown during the protocol. It can be obtained by calling getException() on the protocol object.''
   | Some InvalidArguments \<Rightarrow>
       ''coproto::code::invalidArguments: The function was called with invalid arguments''
   | Some Uninitialized \<Rightarrow> ''coproto::code::uninitialized: result was uninitialized.''
   | Some BadCoprotoMessageHeader \<Rightarrow>
       ''coproto::code::badCoprotoMessageHeader: Received a corrupted/invalid protocol message header''
   | Some DEBUG_ERROR \<Rightarrow> ''coproto::code::DEBUG_ERROR: an artificial error used for debugging.''
   | _ \<Rightarrow> ''unknown error_code of type coproto::code'')"

section \<open>Exceptions\<close>

text \<open>
  What an \<^verbatim>\<open>std::exception_ptr\<close> of the library can hold: a \<^verbatim>\<open>std::system_error\<close>, its
  subclass \<^verbatim>\<open>BadReceiveBufferSize\<close> (whose code is \<^verbatim>\<open>badBufferSize\<close>), another
  \<^verbatim>\<open>std::exception\<close> with its \<^verbatim>\<open>what()\<close> text, or a value of any other type.
\<close>

datatype exn =
    System_Error error_code string
  | BadReceiveBufferSize (mBufferSize: u64) (mReceivedSize: u64) (bad_msg: string)
  | Std_Exception string
  | Unknown_Exception

text \<open>\<^verbatim>\<open>as_error_code\<close>.\<close>

fun as_error_code :: "exn \<Rightarrow> error_code" where
  "as_error_code (System_Error ec _) = ec"
| "as_error_code (BadReceiveBufferSize _ _ _) = make_error_code BadBufferSize"
| "as_error_code (Std_Exception _) = make_error_code UncaughtException"
| "as_error_code Unknown_Exception = make_error_code UncaughtException"

fun dec_nat :: "nat \<Rightarrow> string" where
  "dec_nat n = (if n < 10 then [char_of (48 + n)] else dec_nat (n div 10) @ [char_of (48 + n mod 10)])"

declare dec_nat.simps [simp del]

text \<open>The loop of \<^verbatim>\<open>stackString\<close>: one line \<open>i file:line\<close> per frame.\<close>

fun stackLines :: "nat \<Rightarrow> (string \<times> nat) list \<Rightarrow> string" where
  "stackLines i [] = ''''"
| "stackLines i ((file, line) # st) =
     dec_nat i @ '' '' @ file @ '':'' @ dec_nat line @ [char_of (10::nat)] @ stackLines (Suc i) st"

definition stackString :: "(string \<times> nat) list \<Rightarrow> string" where
  "stackString stack = [char_of (10::nat)] @ stackLines 0 stack"

text \<open>\<^verbatim>\<open>addTraceRethrow\<close>: the exception it throws.\<close>

fun addTraceRethrow :: "exn \<Rightarrow> (string \<times> nat) list \<Rightarrow> exn" where
  "addTraceRethrow (BadReceiveBufferSize b r m) st = BadReceiveBufferSize b r (stackString st)"
| "addTraceRethrow (System_Error ec m) st = System_Error ec (stackString st)"
| "addTraceRethrow (Std_Exception w) st = Std_Exception (w @ stackString st)"
| "addTraceRethrow Unknown_Exception st = Std_Exception (''unknown exception'' @ stackString st)"

text \<open>
  Adding the call trace to an exception never changes the error code that the caller of a
  protocol obtains from it with \<^verbatim>\<open>as_error_code\<close>, and keeps the sizes of a size mismatch.
\<close>

theorem addTraceRethrow_code:
  "as_error_code (addTraceRethrow e st) = as_error_code e
   \<and> (case e of BadReceiveBufferSize b r m \<Rightarrow>
        addTraceRethrow e st = BadReceiveBufferSize b r (stackString st) | _ \<Rightarrow> True)"
  by (cases e) simp_all

text \<open>
  The message text determines the code, except that \<open>EndOfRound\<close> has no case in the
  switch and reads as unknown.
\<close>

lemma message_EndOfRound:
  "message (code_value EndOfRound) = ''unknown error_code of type coproto::code''"
  by (simp add: message_def code_of_value_def all_codes_def)

lemma message_unknown:
  "code_of_value v = None \<Longrightarrow> message v = ''unknown error_code of type coproto::code''"
  by (simp add: message_def)

end
