(* ===== verification/Session_ID.thy ===== *)
theory Session_ID
  imports Prelude "HOL-Library.Char_ord"
begin

text \<open>
  Session identifiers (\<^verbatim>\<open>coproto/Proto/SessionID.h\<close>): the two 64-bit words that name a fork
  of a socket on both ends, the child counter, the derivation of a child identifier, equality,
  hashing and printing.
\<close>

section \<open>The identifier\<close>

record session_id =
  mVal0 :: u64
  mVal1 :: u64
  mChildIdx :: u64

definition mkSessionID :: "u64 \<Rightarrow> u64 \<Rightarrow> session_id" where
  "mkSessionID v0 v1 = \<lparr>mVal0 = v0, mVal1 = v1, mChildIdx = 0\<rparr>"

definition sid_root :: session_id where
  "sid_root = mkSessionID 45234 325434"

text \<open>\<^verbatim>\<open>operator==\<close> compares the two words and ignores the child counter.\<close>

definition sid_eq :: "session_id \<Rightarrow> session_id \<Rightarrow> bool" where
  "sid_eq a b \<longleftrightarrow> mVal0 a = mVal0 b \<and> mVal1 a = mVal1 b"

text \<open>The key under which an identifier is found in the scheduler's hash map.\<close>

definition sid_key :: "session_id \<Rightarrow> u64 \<times> u64" where
  "sid_key s = (mVal0 s, mVal1 s)"

lemma sid_eq_key: "sid_eq a b \<longleftrightarrow> sid_key a = sid_key b"
  by (simp add: sid_eq_def sid_key_def)

definition sid_hash :: "session_id \<Rightarrow> u64" where
  "sid_hash s = mVal0 s"

text \<open>\<^verbatim>\<open>SessionID::random\<close> on the four words drawn from the random device.\<close>

definition sid_random :: "u32 \<Rightarrow> u32 \<Rightarrow> u32 \<Rightarrow> u32 \<Rightarrow> session_id" where
  "sid_random r0 r1 r2 r3 = mkSessionID
     (push_bit 32 (ucast r0) OR ucast r1) (push_bit 32 (ucast r2) OR ucast r3)"

section \<open>Deriving a child\<close>

definition bHash :: "u64 \<Rightarrow> u64" where
  "bHash v = v * (v - 1) * (v - 2) - 23 * v"

text \<open>
  One round: \<^verbatim>\<open>l = bHash(r + mChildIdx + 32243534) ^ l ^ 9478532833\<close>, where \<open>l\<close> is the first
  word in even rounds and the second one in odd rounds.
\<close>

definition derive_round :: "u64 \<Rightarrow> nat \<Rightarrow> u64 \<times> u64 \<Rightarrow> u64 \<times> u64" where
  "derive_round c i v =
     (if even i
      then (bHash (snd v + c + 32243534) XOR fst v XOR 9478532833, snd v)
      else (fst v, bHash (fst v + c + 32243534) XOR snd v XOR 9478532833))"

definition derive_rounds :: "u64 \<Rightarrow> u64 \<times> u64 \<Rightarrow> u64 \<times> u64" where
  "derive_rounds c v = fold (derive_round c) [0..<5] v"

text \<open>\<^verbatim>\<open>derive()\<close> returns the child and increments the counter of the parent.\<close>

definition derive :: "session_id \<Rightarrow> session_id \<times> session_id" where
  "derive s = (let v = derive_rounds (mChildIdx s) (mVal0 s, mVal1 s) in
     (mkSessionID (fst v XOR mVal0 s) (snd v XOR mVal1 s), s\<lparr>mChildIdx := mChildIdx s + 1\<rparr>))"

lemma derive_key [simp]: "sid_key (snd (derive s)) = sid_key s"
  by (simp add: derive_def Let_def sid_key_def)

lemma derive_childIdx [simp]:
  "mChildIdx (snd (derive s)) = mChildIdx s + 1"
  "mChildIdx (fst (derive s)) = 0"
  by (simp_all add: derive_def Let_def mkSessionID_def)

text \<open>Each round undoes itself, so the five rounds form a permutation of the 128-bit values.\<close>

lemma derive_round_involution [simp]: "derive_round c i (derive_round c i v) = v"
proof -
  have cancel: "h XOR (h XOR l XOR k) XOR k = l" for h l k :: u64
    by (simp add: ac_simps)
  show ?thesis
    by (cases v) (simp add: derive_round_def xor.assoc xor.left_commute)
qed

lemma fold_involution:
  assumes "\<And>i v. f i (f i v) = v"
  shows "fold f (rev is) (fold f is v) = v"
  by (induction "is" arbitrary: v) (simp_all add: assms)

lemma derive_rounds_inverse: "fold (derive_round c) (rev [0..<5]) (derive_rounds c v) = v"
  unfolding derive_rounds_def by (rule fold_involution) simp

lemma inj_derive_rounds: "inj (derive_rounds c)"
  by (rule injI) (metis derive_rounds_inverse)

text \<open>The identifier that the \<open>n\<close>-th call of \<open>derive\<close> on a fork returns.\<close>

fun derive_many :: "nat \<Rightarrow> session_id \<Rightarrow> session_id list" where
  "derive_many 0 s = []"
| "derive_many (Suc n) s = fst (derive s) # derive_many n (snd (derive s))"

lemma derive_many_nth:
  "i < n \<Longrightarrow> derive_many n s ! i = fst (derive (s\<lparr>mChildIdx := mChildIdx s + of_nat i\<rparr>))"
proof (induction n arbitrary: s i)
  case (Suc n)
  show ?case
  proof (cases i)
    case (Suc j)
    then have "derive_many (Suc n) s ! i = derive_many n (snd (derive s)) ! j" by simp
    also have "\<dots> = fst (derive ((snd (derive s))\<lparr>mChildIdx := mChildIdx (snd (derive s)) + of_nat j\<rparr>))"
      using Suc.prems Suc by (intro Suc.IH) simp
    also have "\<dots> = fst (derive (s\<lparr>mChildIdx := mChildIdx s + of_nat i\<rparr>))"
      by (simp add: derive_def Let_def Suc add.assoc)
    finally show ?thesis .
  qed simp
qed simp

text \<open>
  Two parties that hold the same session identifier with the same child counter agree on the
  whole sequence of identifiers of the forks they create, and the \<open>i\<close>-th one depends only on the
  two words and on the counter plus \<open>i\<close>, wrapping around at \<open>2 ^ 64\<close>. A fork never changes the
  identity of its parent.
\<close>

theorem derive_many_agree:
  assumes "sid_eq a b" and "mChildIdx a = mChildIdx b" and "i < n"
  shows "derive_many n a = derive_many n b
    \<and> derive_many n a ! i =
        (let v = derive_rounds (mChildIdx b + of_nat i) (mVal0 b, mVal1 b)
         in mkSessionID (fst v XOR mVal0 b) (snd v XOR mVal1 b))
    \<and> sid_eq (snd (derive a)) a"
proof -
  have "a = b" using assms(1,2) by (simp add: sid_eq_def)
  then show ?thesis
    using derive_many_nth [OF assms(3), of b] derive_key [of a]
    by (simp add: sid_eq_key) (simp add: derive_def Let_def)
qed

theorem derive_many_agree_witness:
  "derive_many 3 sid_root = derive_many 3 (sid_root\<lparr>mChildIdx := 0\<rparr>)"
  using derive_many_agree [of sid_root "sid_root\<lparr>mChildIdx := 0\<rparr>" 2 3]
  by (simp add: sid_eq_def sid_root_def mkSessionID_def)

text \<open>
  The mixing of a child identifier loses no information: for a fixed child counter the five
  rounds are a bijection of pairs of 64-bit words, undone by running them in reverse order, so two
  different parents collide only through the final feed-forward of the parent's words.
\<close>

theorem derive_rounds_bij: "bij (derive_rounds c)"
proof (rule bij_betw_byWitness)
  let ?undo = "fold (derive_round c) (rev [0..<5])"
  show "\<forall>v \<in> UNIV. ?undo (derive_rounds c v) = v"
    by (simp only: derive_rounds_inverse) simp
  show "\<forall>v \<in> UNIV. derive_rounds c (?undo v) = v"
    using fold_involution [of "derive_round c" "rev [0..<5]"] unfolding derive_rounds_def by simp
qed simp_all

section \<open>Printing\<close>

definition hex_digit :: "nat \<Rightarrow> char" where
  "hex_digit d = char_of (if d < 10 then 48 + d else 87 + d)"

definition hex_val :: "char \<Rightarrow> nat" where
  "hex_val c = (let n = of_char c in if n < 58 then n - 48 else n - 87)"

fun hex_nat :: "nat \<Rightarrow> string" where
  "hex_nat n = (if n < 16 then [hex_digit n] else hex_nat (n div 16) @ [hex_digit (n mod 16)])"

declare hex_nat.simps [simp del]

text \<open>\<^verbatim>\<open>std::setw(w)\<close> with \<^verbatim>\<open>std::setfill('0')\<close>: pad on the left, never cut.\<close>

definition setw0 :: "nat \<Rightarrow> string \<Rightarrow> string" where
  "setw0 w s = replicate (w - length s) (CHR ''0'') @ s"

text \<open>\<^verbatim>\<open>operator<<\<close> and \<^verbatim>\<open>toString\<close>: the second word first.\<close>

definition sid_toString :: "session_id \<Rightarrow> string" where
  "sid_toString s = setw0 16 (hex_nat (unat (mVal1 s))) @ setw0 16 (hex_nat (unat (mVal0 s)))"

definition hex_parse :: "string \<Rightarrow> nat" where
  "hex_parse s = foldl (\<lambda>a c. 16 * a + hex_val c) 0 s"

lemma hex_val_digit [simp]: "d < 16 \<Longrightarrow> hex_val (hex_digit d) = d"
  by (simp add: hex_val_def hex_digit_def Let_def)

lemma hex_parse_hex_nat [simp]: "hex_parse (hex_nat n) = n"
proof (induction n rule: hex_nat.induct)
  case (1 n)
  show ?case
  proof (cases "n < 16")
    case True
    then show ?thesis by (subst hex_nat.simps) (simp add: hex_parse_def)
  next
    case False
    with 1 have "hex_parse (hex_nat (n div 16)) = n div 16" by blast
    with False show ?thesis
      by (subst hex_nat.simps) (simp add: hex_parse_def)
  qed
qed

lemma hex_parse_zeros: "hex_parse (replicate k (CHR ''0'') @ s) = hex_parse s"
  by (induction k) (simp_all add: hex_parse_def hex_val_def Let_def)

lemma hex_parse_setw0 [simp]: "hex_parse (setw0 w s) = hex_parse s"
  by (simp add: setw0_def hex_parse_zeros)

lemma length_hex_nat: "n < 16 ^ k \<Longrightarrow> 0 < k \<Longrightarrow> length (hex_nat n) \<le> k"
proof (induction n arbitrary: k rule: hex_nat.induct)
  case (1 n)
  show ?case
  proof (cases "n < 16")
    case True
    with "1.prems" show ?thesis by (subst hex_nat.simps) simp
  next
    case False
    with "1.prems" obtain j where k: "k = Suc j" "0 < j"
      by (cases k; cases "k - 1") auto
    then have "n div 16 < 16 ^ j"
      using "1.prems"(1) by (simp add: less_mult_imp_div_less mult.commute)
    then have "length (hex_nat (n div 16)) \<le> j"
      using "1.IH" False k by blast
    with False k show ?thesis by (subst hex_nat.simps) simp
  qed
qed

lemma length_setw0_word [simp]: "length (setw0 16 (hex_nat (unat (w :: u64)))) = 16"
proof -
  have "unat w < 16 ^ 16" using unsigned_less [of w] by simp
  then have "length (hex_nat (unat w)) \<le> 16" by (rule length_hex_nat) simp
  then show ?thesis by (simp add: setw0_def)
qed

definition sid_parse :: "string \<Rightarrow> u64 \<times> u64" where
  "sid_parse s = (of_nat (hex_parse (drop 16 s)), of_nat (hex_parse (take 16 s)))"

text \<open>
  The printed form of a session identifier always has 32 hexadecimal digits and determines the
  identifier: parsing it gives both words back, so two identifiers print alike exactly when they
  are equal.
\<close>

theorem sid_toString_roundtrip:
  "length (sid_toString s) = 32 \<and> sid_parse (sid_toString s) = sid_key s
   \<and> (sid_toString s = sid_toString t \<longleftrightarrow> sid_eq s t)"
proof -
  have parse: "sid_parse (sid_toString s) = sid_key s" for s
    by (simp add: sid_parse_def sid_toString_def sid_key_def)
  then have "sid_toString s = sid_toString t \<Longrightarrow> sid_eq s t"
    using parse [of s] parse [of t] by (simp add: sid_eq_key)
  moreover have "sid_eq s t \<Longrightarrow> sid_toString s = sid_toString t"
    by (simp add: sid_eq_def sid_toString_def)
  ultimately have "sid_toString s = sid_toString t \<longleftrightarrow> sid_eq s t" by blast
  then show ?thesis using parse [of s] by (simp add: sid_toString_def)
qed

end
