(* ===== verification/Fifo.thy ===== *)
theory Fifo
  imports Prelude
begin

text \<open>
  The contract of a first-in-first-out queue as the socket code uses it: a queue is a pair of
  operations at the two ends that behaves like the list of its elements, except that an insertion
  may fail for lack of memory. The client lemmas are about whole sequences of operations.
\<close>

datatype 'a queue_op = Push 'a | Take

text \<open>
  A run of operations over an implementation; a \<open>Take\<close> reads the front and removes it, as every
  caller in the library does. The result is the queue and the elements taken, in order.
\<close>

fun run_ops :: "('a \<Rightarrow> 'q \<Rightarrow> fault + 'q) \<Rightarrow> ('q \<Rightarrow> fault + 'q) \<Rightarrow> ('q \<Rightarrow> fault + 'a)
    \<Rightarrow> 'a queue_op list \<Rightarrow> 'q \<Rightarrow> fault + 'q \<times> 'a list" where
  "run_ops push pop front [] q = Inr (q, [])"
| "run_ops push pop front (Push x # ops) q = bindR (push x q) (run_ops push pop front ops)"
| "run_ops push pop front (Take # ops) q = bindR (front q) (\<lambda>x. bindR (pop q) (\<lambda>q'.
     bindR (run_ops push pop front ops q') (\<lambda>(q'', xs). Inr (q'', x # xs))))"

fun spec_ops :: "'a queue_op list \<Rightarrow> 'a list \<Rightarrow> fault + 'a list \<times> 'a list" where
  "spec_ops [] xs = Inr (xs, [])"
| "spec_ops (Push x # ops) xs = spec_ops ops (xs @ [x])"
| "spec_ops (Take # ops) [] = Inl Assertion"
| "spec_ops (Take # ops) (x # xs) = bindR (spec_ops ops xs) (\<lambda>(ys, out). Inr (ys, x # out))"

fun pushed :: "'a queue_op list \<Rightarrow> 'a list" where
  "pushed [] = []"
| "pushed (Push x # ops) = x # pushed ops"
| "pushed (Take # ops) = pushed ops"

text \<open>The specification is order preserving: what went in is what came out and what is left.\<close>

lemma spec_ops_order: "spec_ops ops xs = Inr (ys, out) \<Longrightarrow> xs @ pushed ops = out @ ys"
  by (induction ops xs arbitrary: ys out rule: spec_ops.induct) (auto simp: fault_simps)

locale fifo_queue =
  fixes inv :: "'q \<Rightarrow> bool"
    and abs :: "'q \<Rightarrow> 'a list"
    and push :: "'a \<Rightarrow> 'q \<Rightarrow> fault + 'q"
    and pop :: "'q \<Rightarrow> fault + 'q"
    and front :: "'q \<Rightarrow> fault + 'a"
  assumes push_law: "inv q \<Longrightarrow> push x q = Inl Bad_Alloc
        \<or> (\<exists>q'. push x q = Inr q' \<and> inv q' \<and> abs q' = abs q @ [x])"
    and pop_law: "inv q \<Longrightarrow> abs q = x # xs \<Longrightarrow> \<exists>q'. pop q = Inr q' \<and> inv q' \<and> abs q' = xs"
    and front_law: "inv q \<Longrightarrow> abs q = x # xs \<Longrightarrow> front q = Inr x"
    and front_empty: "inv q \<Longrightarrow> abs q = [] \<Longrightarrow> front q = Inl Assertion"
begin

lemma run_refines:
  "inv q \<Longrightarrow> run_ops push pop front ops q = Inl Bad_Alloc
     \<or> (case spec_ops ops (abs q) of
          Inl e \<Rightarrow> run_ops push pop front ops q = Inl e
        | Inr (xs, out) \<Rightarrow> \<exists>q'. run_ops push pop front ops q = Inr (q', out) \<and> inv q' \<and> abs q' = xs)"
proof (induction ops arbitrary: q)
  case (Cons a ops)
  show ?case
  proof (cases a)
    case (Push x)
    from push_law [OF Cons.prems, of x] show ?thesis
    proof (elim disjE exE conjE)
      fix q' assume "push x q = Inr q'" "inv q'" "abs q' = abs q @ [x]"
      then show ?thesis using Cons.IH [of q'] Push by (auto split: sum.splits)
    qed (simp add: Push)
  next
    case Take
    show ?thesis
    proof (cases "abs q")
      case Nil
      then show ?thesis using front_empty [OF Cons.prems] Take by simp
    next
      case (Cons x xs)
      then obtain q' where "pop q = Inr q'" "inv q'" "abs q' = xs"
        using pop_law [OF Cons.prems] by blast
      then show ?thesis
        using Cons.IH [of q'] front_law [OF Cons.prems Cons] Take Cons
        by (auto split: sum.splits)
    qed
  qed
qed simp

lemma run_fifo:
  assumes "inv q" and "run_ops push pop front ops q = Inr (q', out)"
  shows "inv q' \<and> abs q @ pushed ops = out @ abs q'"
  using run_refines [OF assms(1), of ops] assms(2) spec_ops_order [of ops "abs q"]
  by (auto split: sum.splits)

end

text \<open>
  The contract of a buffer of bytes: what is put in pieces of any size is got in pieces of any other
  sizes, and more than there is cannot be got.
\<close>

datatype 'a byte_op = Put "'a list" | Get nat

fun run_bytes :: "('a list \<Rightarrow> 'b \<Rightarrow> fault + 'b) \<Rightarrow> (nat \<Rightarrow> 'b \<Rightarrow> fault + 'a list \<times> 'b)
    \<Rightarrow> 'a byte_op list \<Rightarrow> 'b \<Rightarrow> fault + 'b \<times> 'a list list" where
  "run_bytes put get [] b = Inr (b, [])"
| "run_bytes put get (Put xs # ops) b = bindR (put xs b) (run_bytes put get ops)"
| "run_bytes put get (Get n # ops) b = bindR (get n b) (\<lambda>(xs, b).
     bindR (run_bytes put get ops b) (\<lambda>(b, out). Inr (b, xs # out)))"

fun put_bytes :: "'a byte_op list \<Rightarrow> 'a list" where
  "put_bytes [] = []"
| "put_bytes (Put xs # ops) = xs @ put_bytes ops"
| "put_bytes (Get n # ops) = put_bytes ops"

fun got_sizes :: "'a byte_op list \<Rightarrow> nat list" where
  "got_sizes [] = []"
| "got_sizes (Put xs # ops) = got_sizes ops"
| "got_sizes (Get n # ops) = n # got_sizes ops"

text \<open>Whether there are always enough bytes, from \<open>k\<close> bytes on.\<close>

fun enough :: "nat \<Rightarrow> 'a byte_op list \<Rightarrow> bool" where
  "enough k [] \<longleftrightarrow> True"
| "enough k (Put xs # ops) \<longleftrightarrow> enough (k + length xs) ops"
| "enough k (Get n # ops) \<longleftrightarrow> n \<le> k \<and> enough (k - n) ops"

locale byte_fifo =
  fixes inv :: "'b \<Rightarrow> bool"
    and content :: "'b \<Rightarrow> 'a list"
    and put :: "'a list \<Rightarrow> 'b \<Rightarrow> fault + 'b"
    and get :: "nat \<Rightarrow> 'b \<Rightarrow> fault + 'a list \<times> 'b"
  assumes put_law: "inv b \<Longrightarrow> \<exists>b'. put xs b = Inr b' \<and> inv b' \<and> content b' = content b @ xs"
    and get_law: "inv b \<Longrightarrow> n \<le> length (content b) \<Longrightarrow>
        \<exists>b'. get n b = Inr (take n (content b), b') \<and> inv b' \<and> content b' = drop n (content b)"
    and get_short: "inv b \<Longrightarrow> length (content b) < n \<Longrightarrow> get n b = Inl Assertion"
begin

lemma run_bytes_ok:
  "inv b \<Longrightarrow> enough (length (content b)) ops \<Longrightarrow> \<exists>b' out. run_bytes put get ops b = Inr (b', out) \<and> inv b'
     \<and> map length out = got_sizes ops \<and> content b @ put_bytes ops = concat out @ content b'"
proof (induction ops arbitrary: b)
  case (Cons a ops)
  show ?case
  proof (cases a)
    case (Put xs)
    from put_law [OF Cons.prems(1), of xs] obtain b' where b: "put xs b = Inr b'" "inv b'" "content b' = content b @ xs" by blast
    then show ?thesis using Cons.IH [OF b(2)] Cons.prems(2) Put by auto
  next
    case (Get n)
    then have n: "n \<le> length (content b)" "enough (length (content b) - n) ops" using Cons.prems(2) by simp_all
    from get_law [OF Cons.prems(1) n(1)] obtain b' where
      b: "get n b = Inr (take n (content b), b')" "inv b'" "content b' = drop n (content b)" by blast
    from Cons.IH [OF b(2)] n(2) b(3) obtain b'' out where
      r: "run_bytes put get ops b' = Inr (b'', out)" "inv b''" "map length out = got_sizes ops"
        "drop n (content b) @ put_bytes ops = concat out @ content b''" by auto
    have "content b @ put_bytes ops = take n (content b) @ drop n (content b) @ put_bytes ops" by simp
    then show ?thesis using b r n(1) Get by simp
  qed
qed simp

lemma run_bytes_short:
  "inv b \<Longrightarrow> \<not> enough (length (content b)) ops \<Longrightarrow> run_bytes put get ops b = Inl Assertion"
proof (induction ops arbitrary: b)
  case (Cons a ops)
  show ?case
  proof (cases a)
    case (Put xs)
    from put_law [OF Cons.prems(1), of xs] obtain b' where "put xs b = Inr b'" "inv b'" "content b' = content b @ xs" by blast
    then show ?thesis using Cons.IH Cons.prems(2) Put by simp
  next
    case (Get n)
    show ?thesis
    proof (cases "n \<le> length (content b)")
      case True
      from get_law [OF Cons.prems(1) True] obtain b' where
        "get n b = Inr (take n (content b), b')" "inv b'" "content b' = drop n (content b)" by blast
      then show ?thesis using Cons.IH Cons.prems(2) Get True by simp
    next
      case False
      then show ?thesis using get_short [OF Cons.prems(1)] Get by simp
    qed
  qed
qed simp

end

end
