(* ===== verification/Block_Queue.thy ===== *)
theory Block_Queue
  imports Fifo
begin

text \<open>
  The block queue of \<^verbatim>\<open>coproto/Common/Queue.h\<close>: a chain of ring buffers of growing
  power-of-two capacity, the first of which is stored inside the queue. This theory holds the data
  structure, the operations at its two ends, its invariant, and their correctness with respect to
  the list of the stored elements. Iterators and erasure are in \<open>Queue_Erase\<close>.

  A \<^verbatim>\<open>Block*\<close> is a number (\<open>blk_id\<close>, 0 for the block inside the queue object); the chain
  of \<^verbatim>\<open>mNext\<close> pointers from \<^verbatim>\<open>mBegin\<close> to \<^verbatim>\<open>mLast\<close> is the list \<open>mBlocks\<close>. Counters
  are 64-bit words and are never reduced, as in the source. \<open>mDeleted\<close> records the blocks given
  to \<^verbatim>\<open>operator delete\<close>.
\<close>

section \<open>Blocks\<close>

record 'a block =
  blk_id :: nat
  mSizeMask :: u64
  bBegin :: u64
  bEnd :: u64
  slots :: "'a option list"

definition occupied :: "'a block \<Rightarrow> u64" where
  "occupied b = bEnd b - bBegin b"

definition blk_capacity :: "'a block \<Rightarrow> u64" where
  "blk_capacity b = mSizeMask b + 1"

definition vacant :: "'a block \<Rightarrow> u64" where
  "vacant b = blk_capacity b - occupied b"

text \<open>The slot of an unreduced counter: \<^verbatim>\<open>counter & mSizeMask\<close>.\<close>

definition slot_of :: "'a block \<Rightarrow> u64 \<Rightarrow> nat" where
  "slot_of b w = unat (w AND mSizeMask b)"

definition entry_at :: "'a block \<Rightarrow> u64 \<Rightarrow> 'a option" where
  "entry_at b w = slots b ! slot_of b w"

definition set_entry :: "'a block \<Rightarrow> u64 \<Rightarrow> 'a option \<Rightarrow> 'a block" where
  "set_entry b w e = b\<lparr>slots := (slots b)[slot_of b w := e]\<rparr>"

text \<open>
  \<^verbatim>\<open>Block(u64 capacity)\<close> checks that the capacity is a power of two. The entries of a new
  block hold no value.
\<close>

definition new_block :: "nat \<Rightarrow> u64 \<Rightarrow> fault + 'a block" where
  "new_block i cap = checkR (cap AND (cap - 1) = 0) Assertion
     (Inr \<lparr>blk_id = i, mSizeMask = cap - 1, bBegin = 0, bEnd = 0, slots = replicate (unat cap) None\<rparr>)"

section \<open>The queue\<close>

record 'a queue =
  mSize :: u64
  mBlocks :: "'a block list"
  mFresh :: nat
  mDeleted :: "nat list"

definition DefaultCapacity :: u64 where
  "DefaultCapacity = 8"

definition queue_new :: "fault + 'a queue" where
  "queue_new = bindR (new_block 0 DefaultCapacity)
     (\<lambda>b. Inr \<lparr>mSize = 0, mBlocks = [b], mFresh = 1, mDeleted = []\<rparr>)"

text \<open>
  \<^verbatim>\<open>allocateBlock(nextSize)\<close>. An entry takes at least two bytes, so a request for \<open>2 ^ 58\<close>
  entries exceeds every address space and \<^verbatim>\<open>operator new\<close> throws \<^verbatim>\<open>std::bad_alloc\<close>.
\<close>

definition allocateBlock :: "u64 \<Rightarrow> 'a queue \<Rightarrow> fault + 'a queue" where
  "allocateBlock nextSize q = checkR (nextSize < 2 ^ 58) Bad_Alloc
     (bindR (new_block (mFresh q) nextSize) (\<lambda>blk.
        Inr (q\<lparr>mBlocks := mBlocks q @ [blk], mFresh := Suc (mFresh q)\<rparr>)))"

definition allocateNext :: "'a queue \<Rightarrow> fault + 'a queue" where
  "allocateNext q = allocateBlock
     (if mBlocks q \<noteq> [] then 2 * blk_capacity (last (mBlocks q)) else DefaultCapacity) q"

text \<open>
  \<^verbatim>\<open>reserve\<close> smears the bits of \<open>capacity - 1\<close> downwards and adds one; the source stops at
  a shift by 16. \<^verbatim>\<open>Queue(u64 capacity)\<close> starts without a block and reserves.
\<close>

definition reserve_size :: "u64 \<Rightarrow> u64" where
  "reserve_size cap =
     (let v = cap - 1; v = v OR drop_bit 1 v; v = v OR drop_bit 2 v; v = v OR drop_bit 4 v;
          v = v OR drop_bit 8 v; v = v OR drop_bit 16 v
      in v + 1)"

definition reserve :: "u64 \<Rightarrow> 'a queue \<Rightarrow> fault + 'a queue" where
  "reserve cap q = (if mBlocks q = [] \<or> blk_capacity (last (mBlocks q)) < reserve_size cap
     then allocateBlock (reserve_size cap) q else Inr q)"

definition queue_with_capacity :: "u64 \<Rightarrow> fault + 'a queue" where
  "queue_with_capacity cap = reserve cap \<lparr>mSize = 0, mBlocks = [], mFresh = 1, mDeleted = []\<rparr>"

definition queue_size :: "'a queue \<Rightarrow> u64" where
  "queue_size q = mSize q"

definition queue_empty :: "'a queue \<Rightarrow> bool" where
  "queue_empty q \<longleftrightarrow> mSize q = 0"

definition queue_capacity :: "'a queue \<Rightarrow> fault + u64" where
  "queue_capacity q = (if mBlocks q = [] then Inl Bad_Pointer else Inr (blk_capacity (last (mBlocks q))))"

definition front_entry :: "'a queue \<Rightarrow> fault + 'a option" where
  "front_entry q = (case mBlocks q of [] \<Rightarrow> Inl Bad_Pointer
     | b # bs \<Rightarrow> checkR (occupied b \<noteq> 0) Assertion (Inr (entry_at b (bBegin b))))"

text \<open>\<^verbatim>\<open>optional::value()\<close>.\<close>

fun opt_value :: "'a option \<Rightarrow> fault + 'a" where
  "opt_value None = Inl Bad_Optional_Access"
| "opt_value (Some x) = Inr x"

definition queue_front :: "'a queue \<Rightarrow> fault + 'a" where
  "queue_front q = checkR (mSize q \<noteq> 0) Assertion (bindR (front_entry q) opt_value)"

definition queue_back :: "'a queue \<Rightarrow> fault + 'a" where
  "queue_back q = checkR (mSize q \<noteq> 0) Assertion
     (if mBlocks q = [] then Inl Bad_Pointer
      else let l = last (mBlocks q) in opt_value (entry_at l (bEnd l - 1)))"

text \<open>
  The loop of \<^verbatim>\<open>pop_front\<close>: step over entries without value at the front, moving to the next
  block (and deleting the old one, unless it is the block inside the queue) when one is used up.
\<close>

function drop_empty :: "'a block list \<Rightarrow> nat list \<Rightarrow> 'a block list \<times> nat list" where
  "drop_empty [] del = ([], del)"
| "drop_empty (b # bs) del =
     (if occupied b \<noteq> 0 \<and> entry_at b (bBegin b) = None
      then let b' = b\<lparr>bBegin := bBegin b + 1\<rparr>
           in if occupied b' = 0 \<and> bs \<noteq> []
              then drop_empty bs (if blk_id b \<noteq> 0 then del @ [blk_id b] else del)
              else drop_empty (b' # bs) del
      else (b # bs, del))"
  by pat_completeness auto

lemma unat_occupied_Suc:
  assumes "occupied b \<noteq> 0"
  shows "unat (occupied b) = Suc (unat (occupied (b\<lparr>bBegin := bBegin b + 1\<rparr>)))"
proof -
  have "occupied (b\<lparr>bBegin := bBegin b + 1\<rparr>) = occupied b - 1"
    by (simp add: occupied_def)
  then show ?thesis using assms by (simp add: unat_minus_one unat_gt_0)
qed

termination drop_empty
  by (relation "measure (\<lambda>(bs, del). sum_list (map (\<lambda>b. Suc (unat (occupied b))) bs))")
    (auto simp: unat_occupied_Suc)

declare drop_empty.simps(2) [simp del]

definition pop_front :: "'a queue \<Rightarrow> fault + 'a queue" where
  "pop_front q = checkR (mSize q \<noteq> 0) Assertion (bindR (front_entry q) (\<lambda>e.
     checkR (e \<noteq> None) Assertion
      (case mBlocks q of [] \<Rightarrow> Inl Bad_Pointer
       | b # bs \<Rightarrow>
          let r = drop_empty (set_entry b (bBegin b) None # bs) (mDeleted q)
          in Inr (q\<lparr>mSize := mSize q - 1, mBlocks := fst r, mDeleted := snd r\<rparr>))))"

text \<open>\<^verbatim>\<open>push_back\<close> and \<^verbatim>\<open>emplace_back\<close>.\<close>

definition construct_back :: "'a \<Rightarrow> 'a queue \<Rightarrow> 'a queue" where
  "construct_back x q = (let l = last (mBlocks q); l' = set_entry l (bEnd l) (Some x) in
     q\<lparr>mBlocks := butlast (mBlocks q) @ [l'\<lparr>bEnd := bEnd l + 1\<rparr>], mSize := mSize q + 1\<rparr>)"

definition push_back :: "'a \<Rightarrow> 'a queue \<Rightarrow> fault + 'a queue" where
  "push_back x q = (if mBlocks q = [] then Inl Bad_Pointer
     else if vacant (last (mBlocks q)) = 0
     then bindR (allocateNext q) (\<lambda>q'. Inr (construct_back x q'))
     else Inr (construct_back x q))"

text \<open>
  \<^verbatim>\<open>clear\<close>: pop until empty, then delete the last block unless it is the inner one. The loop runs
  \<^verbatim>\<open>size()\<close> times, since every pop that does not fault decrements the size.
\<close>

function pop_all :: "'a queue \<Rightarrow> fault + 'a queue" where
  "pop_all q = (if mSize q = 0 then Inr q
     else case pop_front q of Inl e \<Rightarrow> Inl e | Inr q' \<Rightarrow> pop_all q')"
  by pat_completeness auto

lemma pop_front_mSize: "pop_front q = Inr q' \<Longrightarrow> mSize q \<noteq> 0 \<and> mSize q' = mSize q - 1"
  by (auto simp: pop_front_def fault_simps Let_def split: list.splits)

termination pop_all
  by (relation "measure (\<lambda>q. unat (mSize q))")
    (auto dest!: pop_front_mSize simp: unat_minus_one unat_gt_0)

declare pop_all.simps [simp del]

definition queue_clear :: "'a queue \<Rightarrow> fault + 'a queue" where
  "queue_clear q = bindR (pop_all q) (\<lambda>q'. case mBlocks q' of [] \<Rightarrow> Inl Bad_Pointer
     | b # bs \<Rightarrow> Inr (if blk_id b \<noteq> 0
         then q'\<lparr>mBlocks := bs, mDeleted := mDeleted q' @ [blk_id b]\<rparr> else q'))"

section \<open>Entries and the stored list\<close>

definition entries :: "'a block \<Rightarrow> 'a option list" where
  "entries b = map (\<lambda>i. entry_at b (bBegin b + of_nat i)) [0..<unat (occupied b)]"

definition qlist :: "'a queue \<Rightarrow> 'a list" where
  "qlist q = somes (concat (map entries (mBlocks q)))"

text \<open>
  A block is well formed when its capacity is \<open>2 ^ k\<close> for some \<open>k\<close> small enough for the
  allocator, the storage has that many slots and at most that many are occupied.
\<close>

definition wf_block_k :: "nat \<Rightarrow> 'a block \<Rightarrow> bool" where
  "wf_block_k k b \<longleftrightarrow> k \<le> 57 \<and> mSizeMask b = mask k \<and> length (slots b) = 2 ^ k
     \<and> unat (occupied b) \<le> 2 ^ k"

definition wf_block :: "'a block \<Rightarrow> bool" where
  "wf_block b \<longleftrightarrow> (\<exists>k. wf_block_k k b)"

lemma length_entries [simp]: "length (entries b) = unat (occupied b)"
  by (simp add: entries_def)

lemma entries_nth: "i < unat (occupied b) \<Longrightarrow> entries b ! i = entry_at b (bBegin b + of_nat i)"
  by (simp add: entries_def)

lemma blk_capacity_wf:
  assumes "wf_block_k k b"
  shows "blk_capacity b = 2 ^ k" and "unat (blk_capacity b) = 2 ^ k"
proof -
  show cap: "blk_capacity b = 2 ^ k"
    using assms by (simp add: wf_block_k_def blk_capacity_def mask_eq_exp_minus_1)
  have "(2::nat) ^ k < 2 ^ 64"
    using assms by (intro power_strict_increasing) (auto simp: wf_block_k_def)
  then show "unat (blk_capacity b) = 2 ^ k"
    using assms by (simp add: cap unat_pow2 wf_block_k_def)
qed

lemma slot_of_wf:
  assumes "wf_block_k k b"
  shows "slot_of b (w + of_nat i) = (unat w + i) mod 2 ^ k"
  using assms unat_mask_index_add [of k w i] by (simp add: slot_of_def wf_block_k_def)

lemma slot_of_less:
  assumes "wf_block_k k b"
  shows "slot_of b w < length (slots b)"
  using assms slot_of_wf [OF assms, of w 0] by (simp add: wf_block_k_def)

lemma slot_of_inj:
  assumes "wf_block_k k b" and "i < 2 ^ k" and "j < 2 ^ k"
  shows "slot_of b (w + of_nat i) = slot_of b (w + of_nat j) \<longleftrightarrow> i = j"
  using mod_add_inj [OF assms(2,3), of "unat w"] by (auto simp: slot_of_wf [OF assms(1)])

lemma slot_of_set [simp]: "slot_of (set_entry b w e) v = slot_of b v"
  "slot_of (b\<lparr>bBegin := u\<rparr>) v = slot_of b v" "slot_of (b\<lparr>bEnd := u\<rparr>) v = slot_of b v"
  by (simp_all add: slot_of_def set_entry_def)

lemma occupied_set_entry [simp]: "occupied (set_entry b w e) = occupied b"
  by (simp add: occupied_def set_entry_def)

lemma set_entry_sel [simp]:
  "blk_id (set_entry b w e) = blk_id b" "bBegin (set_entry b w e) = bBegin b"
  "bEnd (set_entry b w e) = bEnd b" "mSizeMask (set_entry b w e) = mSizeMask b"
  "blk_capacity (set_entry b w e) = blk_capacity b"
  by (simp_all add: set_entry_def blk_capacity_def)

lemma wf_set_entry [simp]: "wf_block_k k (set_entry b w e) = wf_block_k k b"
  by (simp add: wf_block_k_def) (simp add: set_entry_def)

lemma entry_at_set_entry:
  assumes "wf_block_k k b"
  shows "entry_at (set_entry b w e) v = (if slot_of b v = slot_of b w then e else entry_at b v)"
  using slot_of_less [OF assms, of w] by (simp add: entry_at_def) (simp add: set_entry_def)

lemma entries_set_entry:
  assumes "wf_block_k k b" and "i < unat (occupied b)"
  shows "entries (set_entry b (bBegin b + of_nat i) e) = (entries b)[i := e]"
proof (rule nth_equalityI)
  fix j assume "j < length (entries (set_entry b (bBegin b + of_nat i) e))"
  then have j: "j < unat (occupied b)" by simp
  have "i < 2 ^ k" "j < 2 ^ k"
    using assms j by (auto simp: wf_block_k_def)
  then have "slot_of b (bBegin b + of_nat j) = slot_of b (bBegin b + of_nat i) \<longleftrightarrow> j = i"
    by (intro slot_of_inj [OF assms(1)])
  then show "entries (set_entry b (bBegin b + of_nat i) e) ! j = (entries b)[i := e] ! j"
    using j assms by (simp add: entries_nth entry_at_set_entry nth_list_update)
qed simp

lemma entries_Nil [simp]: "entries b = [] \<longleftrightarrow> occupied b = 0"
  by (simp add: entries_def unat_eq_0)

lemma entries_empty [simp]: "occupied b = 0 \<Longrightarrow> entries b = []"
  by simp

lemma entries_Cons:
  assumes "occupied b \<noteq> 0"
  shows "entries b = entry_at b (bBegin b) # entries (b\<lparr>bBegin := bBegin b + 1\<rparr>)"
proof -
  let ?b = "b\<lparr>bBegin := bBegin b + 1\<rparr>"
  have e: "entry_at ?b w = entry_at b w" for w
    by (simp add: entry_at_def)
  have "entries b = map (\<lambda>i. entry_at b (bBegin b + of_nat i)) [0..<Suc (unat (occupied ?b))]"
    using unat_occupied_Suc [OF assms] by (simp add: entries_def)
  also have "\<dots> = entry_at b (bBegin b) # map (\<lambda>i. entry_at b (bBegin b + 1 + of_nat i)) [0..<unat (occupied ?b)]"
    by (simp add: map_upt_Suc add.assoc del: upt_Suc)
  finally show ?thesis
    by (simp add: entries_def e)
qed

lemma entries_push:
  assumes "wf_block_k k b" and "unat (occupied b) < 2 ^ k"
  shows "entries (set_entry b (bEnd b) e\<lparr>bEnd := bEnd b + 1\<rparr>) = entries b @ [e]"
    and "unat (occupied (set_entry b (bEnd b) e\<lparr>bEnd := bEnd b + 1\<rparr>)) = Suc (unat (occupied b))"
    and "wf_block_k k (set_entry b (bEnd b) e\<lparr>bEnd := bEnd b + 1\<rparr>)"
proof -
  let ?b = "set_entry b (bEnd b) e\<lparr>bEnd := bEnd b + 1\<rparr>"
  let ?n = "unat (occupied b)"
  have occ: "occupied ?b = occupied b + 1"
    by (simp add: occupied_def)
  have "(2::nat) ^ k < 2 ^ 64"
    using assms(1) by (intro power_strict_increasing) (auto simp: wf_block_k_def)
  then have un: "unat (occupied b + 1) = Suc ?n"
    using assms(2) by (simp add: unat_word_ariths)
  then show "unat (occupied ?b) = Suc ?n" by (simp add: occ)
  have fin: "bEnd b = bBegin b + of_nat ?n"
    by (simp add: occupied_def)
  have "entry_at ?b (bBegin b + of_nat i) = (if i = ?n then e else entry_at b (bBegin b + of_nat i))"
    if "i \<le> ?n" for i
  proof -
    have "slot_of b (bBegin b + of_nat i) = slot_of b (bEnd b) \<longleftrightarrow> i = ?n"
      unfolding fin using that assms(2) by (intro slot_of_inj [OF assms(1)]) auto
    moreover have "entry_at ?b w = entry_at (set_entry b (bEnd b) e) w" for w
      by (simp add: entry_at_def)
    ultimately show ?thesis by (simp add: entry_at_set_entry [OF assms(1)])
  qed
  moreover from this [of ?n] have "entry_at ?b (bBegin b + occupied b) = e"
    by simp
  ultimately show "entries ?b = entries b @ [e]"
    using un by (simp add: entries_def occ)
  show "wf_block_k k ?b"
    using assms un by (simp add: wf_block_k_def occ) (simp add: set_entry_def)
qed

lemma wf_pop_slot:
  assumes "wf_block_k k b" and "occupied b \<noteq> 0"
  shows "wf_block_k k (b\<lparr>bBegin := bBegin b + 1\<rparr>)"
  using assms unat_occupied_Suc [OF assms(2)] by (simp add: wf_block_k_def)

section \<open>The invariant\<close>

text \<open>
  A non-empty chain of well-formed blocks with distinct addresses, of which only the last may be
  empty; the entry at the front holds a value; the size counts the stored elements. The blocks
  before the last one together hold no more than the capacity of the last one, which bounds the
  number of elements below \<open>2 ^ 59\<close>, so that the 64-bit size never wraps around.
\<close>

definition qinv0 :: "'a queue \<Rightarrow> bool" where
  "qinv0 q \<longleftrightarrow> mBlocks q \<noteq> [] \<and> (\<forall>b \<in> set (mBlocks q). wf_block b)
     \<and> distinct (map blk_id (mBlocks q)) \<and> (\<forall>b \<in> set (mBlocks q). blk_id b < mFresh q)
     \<and> (\<forall>b \<in> set (butlast (mBlocks q)). occupied b \<noteq> 0)
     \<and> (occupied (hd (mBlocks q)) \<noteq> 0 \<longrightarrow> hd (entries (hd (mBlocks q))) \<noteq> None)
     \<and> sum_list (map (\<lambda>b. unat (occupied b)) (butlast (mBlocks q)))
         \<le> unat (blk_capacity (last (mBlocks q)))
     \<and> unat (mSize q) = length (qlist q)"

definition qinv :: "'a queue \<Rightarrow> bool" where
  "qinv q \<longleftrightarrow> qinv0 q \<and> (mSize q \<noteq> 0 \<longrightarrow> occupied (last (mBlocks q)) \<noteq> 0)"

lemmas qinv_simps = qinv_def qinv0_def

lemma hd_entries: "occupied b \<noteq> 0 \<Longrightarrow> hd (entries b) = entry_at b (bBegin b)"
  by (simp add: entries_Cons)

lemma unat_blk_capacity_le:
  assumes "wf_block b"
  shows "unat (blk_capacity b) \<le> 2 ^ 57"
proof -
  obtain k where k: "wf_block_k k b" using assms by (auto simp: wf_block_def)
  then have "(2::nat) ^ k \<le> 2 ^ 57"
    by (intro power_increasing) (auto simp: wf_block_k_def)
  then show ?thesis using blk_capacity_wf(2) [OF k] by simp
qed

lemma occupied_le_capacity: "wf_block b \<Longrightarrow> unat (occupied b) \<le> unat (blk_capacity b)"
  by (auto simp: wf_block_def blk_capacity_wf(2) wf_block_k_def)

lemma length_concat_entries:
  "length (concat (map entries bs)) = sum_list (map (\<lambda>b. unat (occupied b)) bs)"
  by (induction bs) simp_all

lemma qinv0_last:
  assumes "qinv0 q"
  shows "wf_block (last (mBlocks q))" and "mBlocks q = butlast (mBlocks q) @ [last (mBlocks q)]"
  using assms by (auto simp: qinv0_def)

lemma qinv0_sum:
  assumes "qinv0 q"
  shows "sum_list (map (\<lambda>b. unat (occupied b)) (mBlocks q)) \<le> 2 * unat (blk_capacity (last (mBlocks q)))"
proof -
  let ?l = "last (mBlocks q)" and ?bl = "butlast (mBlocks q)"
  have "sum_list (map (\<lambda>b. unat (occupied b)) (mBlocks q))
      = sum_list (map (\<lambda>b. unat (occupied b)) ?bl) + unat (occupied ?l)"
    by (subst qinv0_last(2) [OF assms]) simp
  also have "\<dots> \<le> unat (blk_capacity ?l) + unat (blk_capacity ?l)"
    using assms occupied_le_capacity [OF qinv0_last(1) [OF assms]]
    by (intro add_mono) (auto simp: qinv0_def)
  finally show ?thesis by simp
qed

lemma qinv0_bound:
  assumes "qinv0 q"
  shows "length (qlist q) \<le> 2 ^ 58"
  using length_somes [of "concat (map entries (mBlocks q))"] qinv0_sum [OF assms]
    unat_blk_capacity_le [OF qinv0_last(1) [OF assms]]
  by (simp add: qlist_def length_concat_entries)

lemma qinv_bound: "qinv q \<Longrightarrow> length (qlist q) \<le> 2 ^ 58"
  using qinv0_bound [of q] by (simp add: qinv_def)

lemma queue_size_correct: "qinv q \<Longrightarrow> unat (queue_size q) = length (qlist q)"
  by (simp add: qinv_simps queue_size_def)

lemma mSize_zero_iff: "qinv q \<Longrightarrow> mSize q = 0 \<longleftrightarrow> qlist q = []"
  by (auto simp: qinv_simps unat_eq_zero)

lemma queue_empty_correct: "qinv q \<Longrightarrow> queue_empty q \<longleftrightarrow> qlist q = []"
  by (simp add: queue_empty_def mSize_zero_iff)

section \<open>The two ends\<close>

lemma queue_new_ok: "\<exists>q. queue_new = Inr q \<and> qinv q \<and> qlist q = []"
proof -
  have "wf_block_k 3 \<lparr>blk_id = 0, mSizeMask = 7, bBegin = 0, bEnd = 0, slots = replicate 8 (None :: 'a option)\<rparr>"
    by (simp add: wf_block_k_def occupied_def mask_eq_exp_minus_1)
  then show ?thesis
    by (auto simp: queue_new_def new_block_def DefaultCapacity_def qinv_simps wf_block_def qlist_def
        occupied_def blk_capacity_def entries_def)
qed

text \<open>The chain of an invariant queue with elements starts with an occupied block.\<close>

lemma qinv_front_block:
  assumes "qinv q" and "qlist q \<noteq> []"
  obtains b bs x where "mBlocks q = b # bs" "occupied b \<noteq> 0" "entry_at b (bBegin b) = Some x"
    "qlist q = x # somes (entries (b\<lparr>bBegin := bBegin b + 1\<rparr>) @ concat (map entries bs))"
proof -
  obtain b bs where b: "mBlocks q = b # bs"
    using assms(1) by (auto simp: qinv_simps neq_Nil_conv)
  have "mSize q \<noteq> 0" using assms by (simp add: mSize_zero_iff)
  then have occ: "occupied b \<noteq> 0"
    using assms(1) b by (cases "bs = []") (auto simp: qinv_simps)
  then obtain x where x: "entry_at b (bBegin b) = Some x"
    using assms(1) b by (auto simp: qinv_simps hd_entries)
  show thesis
    by (rule that [OF b occ x]) (simp add: qlist_def b entries_Cons [OF occ] x)
qed

lemma front_entry_correct:
  assumes "qinv q" and "qlist q = x # xs"
  shows "front_entry q = Inr (Some x)"
proof -
  have "qlist q \<noteq> []" using assms(2) by simp
  with assms(1) obtain b bs y where b: "mBlocks q = b # bs" "occupied b \<noteq> 0" "entry_at b (bBegin b) = Some y"
      and y: "qlist q = y # somes (entries (b\<lparr>bBegin := bBegin b + 1\<rparr>) @ concat (map entries bs))"
    by (rule qinv_front_block)
  then show ?thesis using assms(2) by (simp add: front_entry_def b)
qed

lemma queue_front_correct:
  assumes "qinv q" and "qlist q = x # xs"
  shows "queue_front q = Inr x"
  using assms mSize_zero_iff [OF assms(1)]
  by (simp add: queue_front_def front_entry_correct [OF assms])

lemma queue_front_empty: "qinv q \<Longrightarrow> qlist q = [] \<Longrightarrow> queue_front q = Inl Assertion"
  by (simp add: queue_front_def mSize_zero_iff)

text \<open>
  Appending: an element constructed in a vacant slot of the last block.
\<close>

lemma construct_back_correct:
  assumes inv: "qinv0 q" and vac: "vacant (last (mBlocks q)) \<noteq> 0"
  shows "qinv (construct_back x q)" and "qlist (construct_back x q) = qlist q @ [x]"
    and "queue_back (construct_back x q) = Inr x"
proof -
  let ?l = "last (mBlocks q)" and ?bl = "butlast (mBlocks q)"
  let ?l' = "set_entry ?l (bEnd ?l) (Some x)\<lparr>bEnd := bEnd ?l + 1\<rparr>"
  let ?q = "construct_back x q"
  have ne: "mBlocks q \<noteq> []" using inv by (simp add: qinv_simps)
  then have blocks: "mBlocks q = ?bl @ [?l]" by simp
  have "wf_block ?l" using inv ne by (simp add: qinv_simps)
  then obtain k where k: "wf_block_k k ?l" by (auto simp: wf_block_def)
  have "unat (occupied ?l) \<noteq> unat (blk_capacity ?l)"
    using vac by (metis right_minus_eq vacant_def word_unat_eq_iff)
  then have room: "unat (occupied ?l) < 2 ^ k"
    using occupied_le_capacity [OF \<open>wf_block ?l\<close>] by (simp add: blk_capacity_wf(2) [OF k])
  note push = entries_push [OF k room, of "Some x"]
  have mb: "mBlocks ?q = ?bl @ [?l']" and ms: "mSize ?q = mSize q + 1" and mf: "mFresh ?q = mFresh q"
    by (simp_all add: construct_back_def Let_def)
  have "qlist q = somes (concat (map entries (?bl @ [?l])))"
    using blocks by (simp add: qlist_def)
  then show list: "qlist ?q = qlist q @ [x]"
    by (simp add: qlist_def mb push(1))
  have occ': "occupied ?l' \<noteq> 0" using push(2) by (metis nat.distinct(1) unat_0)
  have cap': "blk_capacity ?l' = blk_capacity ?l" by (simp add: blk_capacity_def)
  have "length (qlist q) \<le> 2 ^ 58" by (rule qinv0_bound [OF inv])
  then have sz: "unat (mSize q + 1) = Suc (length (qlist q))"
    using inv by (simp add: qinv_simps unat_word_ariths)
  have front: "hd (entries (hd (mBlocks ?q))) \<noteq> None"
  proof (cases "?bl")
    case Nil
    then have "hd (mBlocks q) = ?l" using blocks by (metis append_Nil list.sel(1))
    then have "occupied ?l \<noteq> 0 \<Longrightarrow> hd (entries ?l) \<noteq> None"
      using inv by (simp add: qinv0_def)
    then show ?thesis
      using Nil by (cases "occupied ?l = 0") (simp_all add: mb push(1) hd_append)
  next
    case (Cons b bs)
    then have hd: "hd (mBlocks q) = b" using blocks by (metis append_Cons list.sel(1))
    moreover have "occupied b \<noteq> 0" using inv Cons by (simp add: qinv0_def)
    ultimately show ?thesis using inv Cons by (simp add: mb qinv_simps)
  qed
  have ids: "map blk_id (?bl @ [?l']) = map blk_id (mBlocks q)"
    by (subst (3) blocks) simp
  have "blk_id b < mFresh q" if "b \<in> set (?bl @ [?l'])" for b
  proof -
    have "blk_id b \<in> set (map blk_id (mBlocks q))"
      unfolding ids [symmetric] using that by (metis imageI set_map)
    then show ?thesis using inv by (auto simp: qinv_simps)
  qed
  moreover have "wf_block b" if "b \<in> set (?bl @ [?l'])" for b
    using that inv push(3) by (auto simp: qinv_simps wf_block_def dest: in_set_butlastD)
  moreover have "distinct (map blk_id (?bl @ [?l']))"
    unfolding ids using inv by (simp add: qinv_simps)
  ultimately show "qinv ?q"
    using inv front occ' sz list by (simp add: qinv_simps mb ms mf cap')
  have "entry_at ?l' (bEnd ?l) = Some x"
    using entry_at_set_entry [OF k, of "bEnd ?l" "Some x" "bEnd ?l"] by (simp add: entry_at_def)
  moreover have "mSize q + 1 \<noteq> 0" using sz by (metis nat.distinct(1) unat_0)
  ultimately show "queue_back ?q = Inr x" by (simp add: queue_back_def mb ms Let_def)
qed

text \<open>
  \<^verbatim>\<open>allocateBlock\<close> with the doubled capacity keeps everything but leaves the last block
  empty; a failure can only be that of the allocator.
\<close>

lemma new_block_pow2:
  assumes "k \<le> 57"
  obtains b where "new_block i (2 ^ k) = Inr b" "blk_id b = i" "wf_block_k k b" "occupied b = 0"
proof
  let ?b = "\<lparr>blk_id = i, mSizeMask = 2 ^ k - 1, bBegin = 0, bEnd = 0, slots = replicate (2 ^ k) None\<rparr>"
  have "unat (2 ^ k :: u64) = 2 ^ k" using assms by (intro unat_pow2) simp
  then show "new_block i (2 ^ k) = Inr ?b"
    by (simp add: new_block_def pow2_and_pred)
  show "blk_id ?b = i" "wf_block_k k ?b" "occupied ?b = 0"
    using assms by (simp_all add: wf_block_k_def occupied_def mask_eq_exp_minus_1)
qed

lemma qinv0_append_block:
  assumes "qinv0 q" and "wf_block b" and "occupied b = 0" and "blk_id b = mFresh q"
    and "occupied (last (mBlocks q)) \<noteq> 0"
    and "2 * unat (blk_capacity (last (mBlocks q))) \<le> unat (blk_capacity b)"
  shows "qinv0 (q\<lparr>mBlocks := mBlocks q @ [b], mFresh := Suc (mFresh q)\<rparr>)"
    and "qlist (q\<lparr>mBlocks := mBlocks q @ [b], mFresh := Suc (mFresh q)\<rparr>) = qlist q"
proof -
  let ?q = "q\<lparr>mBlocks := mBlocks q @ [b], mFresh := Suc (mFresh q)\<rparr>"
  show list: "qlist ?q = qlist q" using assms(3) by (simp add: qlist_def)
  have occ: "\<forall>c \<in> set (mBlocks q). occupied c \<noteq> 0"
  proof
    fix c assume "c \<in> set (mBlocks q)"
    then have "c \<in> set (butlast (mBlocks q)) \<or> c = last (mBlocks q)"
      by (metis qinv0_last(2) [OF assms(1)] UnE empty_iff empty_set set_ConsD set_append)
    then show "occupied c \<noteq> 0" using assms(1,5) by (auto simp: qinv0_def)
  qed
  have sum: "sum_list (map (\<lambda>b. unat (occupied b)) (mBlocks q)) \<le> unat (blk_capacity b)"
    using qinv0_sum [OF assms(1)] assms(6) by simp
  have "mFresh q \<notin> set (map blk_id (mBlocks q))" using assms(1) by (auto simp: qinv0_def)
  then have "distinct (map blk_id (mBlocks q @ [b]))" using assms(1,4) by (simp add: qinv0_def)
  then show "qinv0 ?q"
    using assms(1-4) occ sum list by (simp add: qinv0_def less_Suc_eq)
qed

lemma allocateNext_cases:
  fixes q :: "'a queue"
  assumes inv: "qinv0 q" and full: "vacant (last (mBlocks q)) = 0"
  shows "allocateNext q = Inl Bad_Alloc \<and> blk_capacity (last (mBlocks q)) = 2 ^ 57
    \<or> (\<exists>q'. allocateNext q = Inr q' \<and> qinv0 q' \<and> qlist q' = qlist q
          \<and> vacant (last (mBlocks q')) \<noteq> 0)"
proof -
  let ?l = "last (mBlocks q)"
  have ne: "mBlocks q \<noteq> []" using inv by (simp add: qinv0_def)
  obtain k where k: "wf_block_k k ?l"
    using qinv0_last(1) [OF inv] by (auto simp: wf_block_def)
  then have k57: "k \<le> 57" by (simp add: wf_block_k_def)
  have nxt: "2 * blk_capacity ?l = 2 ^ Suc k" by (simp add: blk_capacity_wf(1) [OF k])
  show ?thesis
  proof (cases "k = 57")
    case True
    then show ?thesis
      using ne nxt by (simp add: allocateNext_def allocateBlock_def blk_capacity_wf(1) [OF k])
  next
    case False
    then have k58: "Suc k \<le> 57" using k57 by simp
    then have "(2::nat) ^ Suc k < 2 ^ 58" by (intro power_strict_increasing) auto
    moreover have "unat (2 ^ Suc k :: u64) = 2 ^ Suc k" using k57 by (intro unat_pow2) simp
    ultimately have small: "(2 ^ Suc k :: u64) < 2 ^ 58"
      by (simp add: word_less_nat_alt unat_pow2 del: power_Suc)
    obtain b :: "'a block" where b: "new_block (mFresh q) (2 ^ Suc k) = Inr b" "blk_id b = mFresh q"
        "wf_block_k (Suc k) b" "occupied b = 0"
      using new_block_pow2 [OF k58] by blast
    let ?q = "q\<lparr>mBlocks := mBlocks q @ [b], mFresh := Suc (mFresh q)\<rparr>"
    have "allocateNext q = Inr ?q"
      using ne nxt small b(1) by (simp add: allocateNext_def allocateBlock_def del: power_Suc)
    moreover have "occupied ?l \<noteq> 0"
      using full blk_capacity_wf(2) [OF k] by (auto simp: vacant_def)
    moreover have "vacant b \<noteq> 0"
      using b(4) blk_capacity_wf(2) [OF b(3)] by (auto simp: vacant_def)
    ultimately show ?thesis
      using qinv0_append_block [OF inv, of b] b
      by (auto simp: wf_block_def blk_capacity_wf(2) [OF k] blk_capacity_wf(2) [OF b(3)])
  qed
qed

lemma push_back_cases:
  assumes inv: "qinv q"
  shows "push_back x q = Inl Bad_Alloc \<and> blk_capacity (last (mBlocks q)) = 2 ^ 57
    \<or> (\<exists>q'. push_back x q = Inr q' \<and> qinv q' \<and> qlist q' = qlist q @ [x] \<and> queue_back q' = Inr x)"
proof (cases "vacant (last (mBlocks q)) = 0")
  case True
  from inv have inv0: "qinv0 q" by (simp add: qinv_def)
  then have ne: "mBlocks q \<noteq> []" by (simp add: qinv0_def)
  from allocateNext_cases [OF inv0 True] show ?thesis
    using ne True construct_back_correct by (fastforce simp: push_back_def)
next
  case False
  then show ?thesis
    using inv construct_back_correct [of q x] by (auto simp: push_back_def qinv_simps)
qed

lemma push_back_correct:
  assumes "qinv q" and "push_back x q = Inr q'"
  shows "qinv q'" and "qlist q' = qlist q @ [x]" and "queue_back q' = Inr x"
  using push_back_cases [OF assms(1), of x] assms(2) by auto

text \<open>
  Stepping over empty entries at the front keeps the stored values, the last block's capacity and
  the shape of the chain; exactly the blocks that are left are deleted, the inner one excepted.
\<close>

definition chain_ok :: "'a block list \<Rightarrow> bool" where
  "chain_ok bs \<longleftrightarrow> bs \<noteq> [] \<and> (\<forall>b \<in> set bs. wf_block b) \<and> (\<forall>b \<in> set (butlast bs). occupied b \<noteq> 0)"

lemma chain_ok_Cons:
  "chain_ok (b # bs) \<longleftrightarrow> wf_block b \<and> (bs \<noteq> [] \<longrightarrow> occupied b \<noteq> 0 \<and> chain_ok bs)"
  by (auto simp: chain_ok_def)

definition front_ok :: "'a block list \<Rightarrow> bool" where
  "front_ok bs \<longleftrightarrow> (occupied (hd bs) \<noteq> 0 \<longrightarrow> hd (entries (hd bs)) \<noteq> None)"

definition drop_post :: "'a block list \<Rightarrow> nat list \<Rightarrow> 'a block list \<times> nat list \<Rightarrow> bool" where
  "drop_post bs del r \<longleftrightarrow> chain_ok (fst r) \<and> front_ok (fst r)
     \<and> somes (concat (map entries (fst r))) = somes (concat (map entries bs))
     \<and> (\<exists>pre. map blk_id bs = pre @ map blk_id (fst r) \<and> snd r = del @ filter (\<lambda>i. i \<noteq> 0) pre)
     \<and> blk_capacity (last (fst r)) = blk_capacity (last bs)
     \<and> sum_list (map (\<lambda>b. unat (occupied b)) (butlast (fst r)))
         \<le> sum_list (map (\<lambda>b. unat (occupied b)) (butlast bs))
     \<and> (occupied (last (fst r)) = 0 \<longrightarrow> occupied (last bs) = 0 \<or> somes (concat (map entries bs)) = [])"

lemma drop_post_advance:
  assumes "occupied b \<noteq> 0" and "entry_at b (bBegin b) = None"
    and "drop_post (b\<lparr>bBegin := bBegin b + 1\<rparr> # bs) del r"
  shows "drop_post (b # bs) del r"
  using assms unat_occupied_Suc [OF assms(1)]
  by (cases "bs = []") (auto simp: drop_post_def entries_Cons blk_capacity_def)

lemma drop_post_leave:
  assumes "occupied b \<noteq> 0" and "entry_at b (bBegin b) = None"
    and "occupied (b\<lparr>bBegin := bBegin b + 1\<rparr>) = 0" and "bs \<noteq> []"
    and "drop_post bs (if blk_id b \<noteq> 0 then del @ [blk_id b] else del) r"
  shows "drop_post (b # bs) del r"
proof -
  obtain pre where pre: "map blk_id bs = pre @ map blk_id (fst r)"
      "snd r = (if blk_id b \<noteq> 0 then del @ [blk_id b] else del) @ filter (\<lambda>i. i \<noteq> 0) pre"
    using assms(5) by (auto simp: drop_post_def)
  then have "map blk_id (b # bs) = (blk_id b # pre) @ map blk_id (fst r)
      \<and> snd r = del @ filter (\<lambda>i. i \<noteq> 0) (blk_id b # pre)"
    by simp
  then have "\<exists>pre. map blk_id (b # bs) = pre @ map blk_id (fst r) \<and> snd r = del @ filter (\<lambda>i. i \<noteq> 0) pre"
    by blast
  then show ?thesis
    using assms by (simp add: drop_post_def entries_Cons)
qed

lemma wf_block_advance: "wf_block b \<Longrightarrow> occupied b \<noteq> 0 \<Longrightarrow> wf_block (b\<lparr>bBegin := bBegin b + 1\<rparr>)"
  by (auto simp: wf_block_def dest: wf_pop_slot)

lemma drop_empty_correct: "chain_ok bs \<Longrightarrow> drop_post bs del (drop_empty bs del)"
proof (induction bs del rule: drop_empty.induct)
  case (1 del)
  then show ?case by (simp add: chain_ok_def)
next
  case (2 b bs del)
  let ?b = "b\<lparr>bBegin := bBegin b + 1\<rparr>"
  show ?case
  proof (cases "occupied b \<noteq> 0 \<and> entry_at b (bBegin b) = None")
    case False
    then show ?thesis
      using "2.prems" by (auto simp: drop_empty.simps(2) drop_post_def front_ok_def hd_entries)
  next
    case True
    show ?thesis
    proof (cases "occupied ?b = 0 \<and> bs \<noteq> []")
      case leave: True
      then have "chain_ok bs" using "2.prems" by (simp add: chain_ok_Cons)
      then show ?thesis
        using "2.IH"(1) [OF True refl leave] True leave drop_post_leave [of b bs del]
        by (simp add: drop_empty.simps(2) [of b])
    next
      case stay: False
      then have "chain_ok (?b # bs)"
        using "2.prems" True wf_block_advance [of b] by (auto simp: chain_ok_Cons)
      then have "drop_post (?b # bs) del (drop_empty (?b # bs) del)"
        using "2.IH"(2) [OF True refl stay] by blast
      then show ?thesis
        using True stay drop_post_advance [of b bs del]
        by (auto simp: drop_empty.simps(2) [of b] Let_def)
    qed
  qed
qed

lemma qinv0_chain: "qinv0 q \<Longrightarrow> chain_ok (mBlocks q) \<and> front_ok (mBlocks q)"
  by (simp add: qinv0_def chain_ok_def front_ok_def)

text \<open>Removing the first element.\<close>

lemma pop_front_step:
  assumes inv: "qinv q" and list: "qlist q = x # xs"
  obtains b bs r where "mBlocks q = b # bs"
    and "r = drop_empty (set_entry b (bBegin b) None # bs) (mDeleted q)"
    and "drop_post (set_entry b (bBegin b) None # bs) (mDeleted q) r"
    and "somes (concat (map entries (set_entry b (bBegin b) None # bs))) = xs"
    and "pop_front q = Inr (q\<lparr>mSize := mSize q - 1, mBlocks := fst r, mDeleted := snd r\<rparr>)"
proof -
  have "qlist q \<noteq> []" using list by simp
  with inv obtain b bs y where b: "mBlocks q = b # bs" "occupied b \<noteq> 0" "entry_at b (bBegin b) = Some y"
      and y: "qlist q = y # somes (entries (b\<lparr>bBegin := bBegin b + 1\<rparr>) @ concat (map entries bs))"
    by (rule qinv_front_block)
  let ?b = "set_entry b (bBegin b) None"
  have "wf_block b" using inv b by (simp add: qinv_simps)
  then obtain k where k: "wf_block_k k b" by (auto simp: wf_block_def)
  have "0 < unat (occupied b)" using b(2) by (simp add: unat_gt_0)
  then have ent: "entries ?b = None # entries (b\<lparr>bBegin := bBegin b + 1\<rparr>)"
    using entries_set_entry [OF k, of 0 None] entries_Cons [OF b(2)] by simp
  have "chain_ok (?b # bs)"
    using qinv0_chain [of q] inv b k by (auto simp: qinv_def chain_ok_Cons wf_block_def)
  then have post: "drop_post (?b # bs) (mDeleted q) (drop_empty (?b # bs) (mDeleted q))"
    by (rule drop_empty_correct)
  have fe: "front_entry q = Inr (Some x)" by (rule front_entry_correct [OF inv list])
  show thesis
    by (rule that [OF b(1) refl post])
      (use list y ent fe mSize_zero_iff [OF inv] b(1) in \<open>simp_all add: pop_front_def Let_def\<close>)
qed

lemma pop_front_correct:
  assumes inv: "qinv q" and list: "qlist q = x # xs"
  shows "\<exists>q'. pop_front q = Inr q' \<and> qinv q' \<and> qlist q' = xs"
proof -
  from inv list obtain b bs r where b: "mBlocks q = b # bs"
    and r: "r = drop_empty (set_entry b (bBegin b) None # bs) (mDeleted q)"
    and post: "drop_post (set_entry b (bBegin b) None # bs) (mDeleted q) r"
    and xs: "somes (concat (map entries (set_entry b (bBegin b) None # bs))) = xs"
    and pop: "pop_front q = Inr (q\<lparr>mSize := mSize q - 1, mBlocks := fst r, mDeleted := snd r\<rparr>)"
    by (rule pop_front_step)
  let ?q = "q\<lparr>mSize := mSize q - 1, mBlocks := fst r, mDeleted := snd r\<rparr>"
  have list': "qlist ?q = xs" using post xs by (simp add: drop_post_def qlist_def)
  have "mSize q \<noteq> 0" using mSize_zero_iff [OF inv] list by simp
  then have size': "unat (mSize q - 1) = length xs"
    using inv list by (simp add: qinv_simps unat_minus_one)
  obtain pre where pre: "map blk_id (mBlocks q) = pre @ map blk_id (fst r)"
    using post b by (auto simp: drop_post_def)
  have "blk_id c \<in> set (map blk_id (mBlocks q))" if "c \<in> set (fst r)" for c
    unfolding pre using that by simp
  then have fresh: "\<forall>c \<in> set (fst r). blk_id c < mFresh q"
    using inv by (fastforce simp: qinv_simps)
  have dist: "distinct (map blk_id (fst r))"
  proof -
    have "distinct (map blk_id (mBlocks q))" using inv by (simp add: qinv_simps)
    then show ?thesis unfolding pre by simp
  qed
  have last: "blk_capacity (last (fst r)) = blk_capacity (last (mBlocks q))"
    using post b by (cases bs) (auto simp: drop_post_def)
  have "sum_list (map (\<lambda>b. unat (occupied b)) (butlast (mBlocks q)))
      \<le> unat (blk_capacity (last (mBlocks q)))"
    using inv by (simp add: qinv_simps)
  moreover have "sum_list (map (\<lambda>b. unat (occupied b)) (butlast (fst r)))
      \<le> sum_list (map (\<lambda>b. unat (occupied b)) (butlast (mBlocks q)))"
    using post b by (cases bs) (auto simp: drop_post_def)
  ultimately have inv0: "qinv0 ?q"
    using post fresh dist last size' list'
    by (simp add: qinv0_def drop_post_def chain_ok_def front_ok_def)
  have "occupied (last (mBlocks q)) \<noteq> 0" using inv \<open>mSize q \<noteq> 0\<close> by (simp add: qinv_def)
  then have "occupied (last (fst r)) = 0 \<Longrightarrow> xs = []"
    using post b xs by (cases bs) (auto simp: drop_post_def)
  moreover have "mSize q - 1 \<noteq> 0 \<Longrightarrow> xs \<noteq> []" using size' by (auto simp: unat_eq_0)
  ultimately have "qinv ?q" using inv0 by (auto simp: qinv_def)
  then show ?thesis using pop list' by blast
qed

lemma pop_front_empty: "qinv q \<Longrightarrow> qlist q = [] \<Longrightarrow> pop_front q = Inl Assertion"
  by (simp add: pop_front_def mSize_zero_iff)

section \<open>The newest element\<close>

text \<open>
  \<^verbatim>\<open>back()\<close> reads the last slot of the last block. It holds the newest element as long as
  elements leave the queue at the front only.
\<close>

definition tail_ok :: "'a queue \<Rightarrow> bool" where
  "tail_ok q \<longleftrightarrow> (qlist q \<noteq> [] \<longrightarrow> last (concat (map entries (mBlocks q))) \<noteq> None)"

lemma last_concat_entries:
  assumes "bs \<noteq> []" and "occupied (last bs) \<noteq> 0"
  shows "last (concat (map entries bs)) = entry_at (last bs) (bEnd (last bs) - 1)"
proof -
  let ?l = "last bs"
  have ne: "entries ?l \<noteq> []" using assms(2) by simp
  have eq: "concat (map entries bs) = concat (map entries (butlast bs)) @ entries ?l"
    by (subst append_butlast_last_id [OF assms(1), symmetric]) (simp only: map_append concat_append concat.simps list.map append_Nil2)
  have "last (concat (map entries bs)) = last (entries ?l)" by (subst eq) (rule last_appendR [OF ne])
  also have "\<dots> = entries ?l ! (unat (occupied ?l) - 1)" using ne by (simp add: last_conv_nth)
  also have "\<dots> = entry_at ?l (bBegin ?l + of_nat (unat (occupied ?l) - 1))"
    using assms(2) by (intro entries_nth) (simp add: unat_gt_0)
  also have "bBegin ?l + of_nat (unat (occupied ?l) - 1) = bEnd ?l - 1"
    using assms(2) by (simp add: of_nat_diff unat_gt_0 Suc_leI occupied_def)
  finally show ?thesis .
qed

lemma queue_back_last:
  assumes inv: "qinv q" and ne: "qlist q \<noteq> []"
  shows "queue_back q = opt_value (last (concat (map entries (mBlocks q))))"
proof -
  have "mBlocks q \<noteq> []" "mSize q \<noteq> 0" using inv mSize_zero_iff [OF inv] ne by (simp_all add: qinv_simps)
  then show ?thesis
    using last_concat_entries [of "mBlocks q"] inv by (simp add: queue_back_def Let_def qinv_def)
qed

lemma opt_value_Inr: "opt_value v = Inr x \<longleftrightarrow> v = Some x"
  by (cases v) simp_all

lemma qlist_ne: "qlist q \<noteq> [] \<Longrightarrow> concat (map entries (mBlocks q)) \<noteq> []"
  unfolding qlist_def by (metis somes.simps(1))

lemma last_somes: "xs \<noteq> [] \<Longrightarrow> last xs = Some x \<Longrightarrow> last (somes xs) = x"
  by (induction xs rule: rev_induct) simp_all

lemma queue_back_correct:
  assumes "qinv q" and "tail_ok q" and "qlist q \<noteq> []"
  shows "queue_back q = Inr (last (qlist q))"
proof -
  obtain x where x: "last (concat (map entries (mBlocks q))) = Some x"
    using assms(2,3) by (auto simp: tail_ok_def)
  moreover have "concat (map entries (mBlocks q)) \<noteq> []" using assms(3) by (rule qlist_ne)
  ultimately have "last (qlist q) = x" unfolding qlist_def by (intro last_somes)
  then show ?thesis using queue_back_last [OF assms(1,3)] x by simp
qed

lemma tail_ok_push:
  assumes "qinv q" and "push_back x q = Inr q'"
  shows "tail_ok q'"
  using queue_back_last [OF push_back_correct(1) [OF assms]] push_back_correct(2,3) [OF assms]
  by (metis tail_ok_def opt_value_Inr option.distinct(1) append_is_Nil_conv not_Cons_self2)

lemma drop_empty_suffix:
  "\<exists>pre. concat (map entries bs) = pre @ concat (map entries (fst (drop_empty bs del)))"
proof (induction bs del rule: drop_empty.induct)
  case (2 b bs del)
  let ?b = "b\<lparr>bBegin := bBegin b + 1\<rparr>"
  show ?case
  proof (cases "occupied b \<noteq> 0 \<and> entry_at b (bBegin b) = None")
    case True
    show ?thesis
    proof (cases "occupied ?b = 0 \<and> bs \<noteq> []")
      case leave: True
      then obtain pre where "concat (map entries bs) = pre @ concat (map entries (fst (drop_empty (b # bs) del)))"
        using "2.IH"(1) [OF True refl leave] True by (auto simp: drop_empty.simps(2) [of b] Let_def)
      then have "concat (map entries (b # bs)) = (entries b @ pre) @ concat (map entries (fst (drop_empty (b # bs) del)))"
        by simp
      then show ?thesis by blast
    next
      case stay: False
      then obtain pre where "concat (map entries (?b # bs)) = pre @ concat (map entries (fst (drop_empty (b # bs) del)))"
        using "2.IH"(2) [OF True refl stay] True by (auto simp: drop_empty.simps(2) [of b] Let_def)
      then have "concat (map entries (b # bs)) = (entry_at b (bBegin b) # pre) @ concat (map entries (fst (drop_empty (b # bs) del)))"
        using True by (simp add: entries_Cons [of b])
      then show ?thesis by blast
    qed
  qed (auto simp: drop_empty.simps(2) [of b])
qed simp

lemma tail_ok_pop:
  assumes inv: "qinv q" and tl: "tail_ok q" and pop: "pop_front q = Inr q'"
  shows "tail_ok q'"
proof (cases "qlist q")
  case Nil
  then show ?thesis using pop mSize_zero_iff [OF inv] by (simp add: pop_front_def)
next
  case (Cons x xs)
  from inv Cons obtain b bs r where b: "mBlocks q = b # bs"
    and r: "r = drop_empty (set_entry b (bBegin b) None # bs) (mDeleted q)"
    and xs: "somes (concat (map entries (set_entry b (bBegin b) None # bs))) = xs"
    and q: "pop_front q = Inr (q\<lparr>mSize := mSize q - 1, mBlocks := fst r, mDeleted := snd r\<rparr>)"
    by (rule pop_front_step)
  let ?es = "concat (map entries (mBlocks q))" and ?fs = "concat (map entries (set_entry b (bBegin b) None # bs))"
  let ?es' = "concat (map entries (fst r))"
  obtain pre where pre: "?fs = pre @ ?es'" using drop_empty_suffix r by blast
  have q': "mBlocks q' = fst r" using q pop by auto
  have "wf_block b" using inv b by (simp add: qinv_simps)
  then obtain k where k: "wf_block_k k b" by (auto simp: wf_block_def)
  have occ: "occupied b \<noteq> 0" using qinv_front_block [OF inv] Cons b by (metis list.distinct(1) list.inject)
  then have "entries (set_entry b (bBegin b) None) = (entries b)[0 := None]"
    using entries_set_entry [OF k, of 0 None] by (simp add: unat_gt_0)
  then have es0: "?fs = None # tl ?es" "?es \<noteq> []"
    using occ b by (simp_all add: entries_Cons)
  show ?thesis
    unfolding tail_ok_def
  proof
    assume "qlist q' \<noteq> []"
    then have ne: "?es' \<noteq> []" using qlist_ne [of q'] by (simp only: q' not_False_eq_True simp_thms)
    have xs': "xs = qlist q'" using pop_front_correct [OF inv Cons] pop by auto
    have "tl ?es \<noteq> []"
    proof
      assume "tl ?es = []"
      then have "somes ?fs = []" by (subst es0(1)) (simp only: somes.simps)
      then have "xs = []" using xs by (rule trans [OF sym, rotated])
      then show False using xs' \<open>qlist q' \<noteq> []\<close> by simp
    qed
    have "last (concat (map entries (mBlocks q'))) = last ?fs"
      unfolding q' pre by (rule last_appendR [OF ne, symmetric])
    also have "\<dots> = last (None # tl ?es)" by (rule arg_cong [OF es0(1)])
    also have "\<dots> = last ?es" using \<open>tl ?es \<noteq> []\<close> last_tl [of ?es] by simp
    finally have "last (concat (map entries (mBlocks q'))) = last ?es" .
    moreover have "last ?es \<noteq> None" using tl Cons by (simp add: tail_ok_def)
    ultimately show "last (concat (map entries (mBlocks q'))) \<noteq> None" by (rule ssubst)
  qed
qed

section \<open>The queue is first-in-first-out\<close>

interpretation bq: fifo_queue qinv qlist push_back pop_front queue_front
proof
  fix q :: "'a queue" and x xs
  assume inv: "qinv q"
  show "push_back x q = Inl Bad_Alloc
      \<or> (\<exists>q'. push_back x q = Inr q' \<and> qinv q' \<and> qlist q' = qlist q @ [x])"
    using push_back_cases [OF inv, of x] by blast
  show "qlist q = x # xs \<Longrightarrow> \<exists>q'. pop_front q = Inr q' \<and> qinv q' \<and> qlist q' = xs"
    by (rule pop_front_correct [OF inv])
  show "qlist q = x # xs \<Longrightarrow> queue_front q = Inr x" by (rule queue_front_correct [OF inv])
  show "qlist q = [] \<Longrightarrow> queue_front q = Inl Assertion" by (rule queue_front_empty [OF inv])
qed

text \<open>A queue on which only the two ends were used, for concrete runs.\<close>

definition nat_queue :: "nat queue" where
  "nat_queue = \<lparr>mSize = 0, mBlocks = [\<lparr>blk_id = 0, mSizeMask = 7, bBegin = 0, bEnd = 0,
     slots = replicate 8 None\<rparr>], mFresh = 1, mDeleted = []\<rparr>"

lemma nat_queue_new: "queue_new = Inr nat_queue"
  by (simp add: queue_new_def new_block_def DefaultCapacity_def nat_queue_def)

lemma nat_queue_inv: "qinv nat_queue" and nat_queue_list: "qlist nat_queue = []"
proof -
  obtain q :: "nat queue" where "queue_new = Inr q" "qinv q" "qlist q = []"
    using queue_new_ok by blast
  moreover from this nat_queue_new have "q = nat_queue" by (metis sum.inject(2))
  ultimately show "qinv nat_queue" "qlist nat_queue = []" by simp_all
qed

text \<open>
  C7. The block queue refines the list specification of a FIFO queue: any sequence of insertions
  and removals (front, then pop) on a queue in good order either stops because a block of \<open>2 ^ 58\<close>
  entries cannot be allocated, or produces exactly the elements, the remaining contents and the
  faults (a removal from an empty queue asserts) of the same sequence on the list of its elements,
  and the queue is in good order again.
\<close>

theorem queue_refines_list:
  assumes "qinv q"
  shows "run_ops push_back pop_front queue_front ops q = Inl Bad_Alloc
     \<or> (case spec_ops ops (qlist q) of
          Inl e \<Rightarrow> run_ops push_back pop_front queue_front ops q = Inl e
        | Inr (xs, out) \<Rightarrow> \<exists>q'. run_ops push_back pop_front queue_front ops q = Inr (q', out)
             \<and> qinv q' \<and> qlist q' = xs)"
  by (rule bq.run_refines [OF assms])

theorem queue_refines_list_witness:
  "\<exists>q'. run_ops push_back pop_front queue_front [Push 5, Push 6, Take, Push 7, Take] nat_queue = Inr (q', [5, 6])
     \<and> qinv q' \<and> qlist q' = [7]"
proof -
  have "\<not> isl (run_ops push_back pop_front queue_front [Push 5, Push 6, Take, Push 7, Take] nat_queue)"
    by code_simp
  then show ?thesis
    using queue_refines_list [OF nat_queue_inv, of "[Push 5, Push 6, Take, Push 7, Take]"]
    by (auto simp: nat_queue_list)
qed

end
