(* ===== verification/Queue_Erase.thy ===== *)
theory Queue_Erase
  imports Block_Queue
begin

text \<open>
  Iterators and erasure of the block queue (\<^verbatim>\<open>Queue::Iterator\<close>, \<^verbatim>\<open>begin\<close>,
  \<^verbatim>\<open>end\<close>, \<^verbatim>\<open>back_iterator\<close>, both \<^verbatim>\<open>erase\<close> functions of
  \<^verbatim>\<open>coproto/Common/Queue.h\<close>).

  An iterator is a block pointer and an unreduced index. The address of an element
  (\<^verbatim>\<open>T*\<close>) is the number of its block and the slot that holds it.
\<close>

section \<open>Iterators\<close>

record iter =
  it_block :: "nat option"
  it_index :: u64

definition find_block :: "'a queue \<Rightarrow> nat \<Rightarrow> 'a block option" where
  "find_block q i = find (\<lambda>b. blk_id b = i) (mBlocks q)"

definition it_end :: iter where
  "it_end = \<lparr>it_block = None, it_index = 0\<rparr>"

definition it_valid :: "'a queue \<Rightarrow> iter \<Rightarrow> fault + bool" where
  "it_valid q it = (case it_block it of None \<Rightarrow> Inr False
     | Some i \<Rightarrow> (case find_block q i of None \<Rightarrow> Inl Bad_Pointer
        | Some b \<Rightarrow> Inr (bBegin b \<le> it_index it \<and> entry_at b (it_index it) \<noteq> None)))"

text \<open>\<^verbatim>\<open>Iterator(Block*, u64)\<close> asserts that a non-null iterator is valid.\<close>

definition mk_iter :: "'a queue \<Rightarrow> nat option \<Rightarrow> u64 \<Rightarrow> fault + iter" where
  "mk_iter q blk i = (let it = \<lparr>it_block = blk, it_index = i\<rparr> in
     if blk = None then Inr it
     else bindR (it_valid q it) (\<lambda>v. checkR v Assertion (Inr it)))"

definition it_deref :: "'a queue \<Rightarrow> iter \<Rightarrow> fault + 'a" where
  "it_deref q it = bindR (it_valid q it) (\<lambda>v. if \<not> v then Inl Out_Of_Range
     else case it_block it of None \<Rightarrow> Inl Out_Of_Range
       | Some i \<Rightarrow> (case find_block q i of None \<Rightarrow> Inl Bad_Pointer
           | Some b \<Rightarrow> opt_value (entry_at b (it_index it))))"

definition queue_begin :: "'a queue \<Rightarrow> fault + iter" where
  "queue_begin q = (if mSize q = 0 then Inr it_end
     else case mBlocks q of [] \<Rightarrow> Inl Bad_Pointer | b # bs \<Rightarrow> mk_iter q (Some (blk_id b)) (bBegin b))"

definition back_iterator :: "'a queue \<Rightarrow> fault + iter" where
  "back_iterator q = (if mSize q = 0 then Inr it_end
     else if mBlocks q = [] then Inl Bad_Pointer
     else mk_iter q (Some (blk_id (last (mBlocks q)))) (bEnd (last (mBlocks q)) - 1))"

text \<open>
  \<^verbatim>\<open>operator++\<close> on a position given by the blocks from the current one on. The inner loop
  leaves a block at its end; the outer loop goes on while the entry holds no value.
\<close>

fun leave_ends :: "'a block list \<Rightarrow> u64 \<Rightarrow> 'a block list \<times> u64" where
  "leave_ends [] i = ([], 0)"
| "leave_ends (b # bs) i = (if i = bEnd b
     then (case bs of [] \<Rightarrow> ([], 0) | c # cs \<Rightarrow> leave_ends bs (bBegin c)) else (b # bs, i))"

definition rest_measure :: "'a block list \<Rightarrow> nat" where
  "rest_measure bs = sum_list (map (\<lambda>b. Suc (unat (occupied b))) bs)"

lemma leave_ends_measure:
  "leave_ends bs i = (c # cs, j) \<Longrightarrow> j \<noteq> bEnd c \<and>
     ((c # cs = bs \<and> j = i) \<or> (bs \<noteq> [] \<and> rest_measure (c # cs) \<le> rest_measure (tl bs) \<and> j = bBegin c))"
proof (induction bs arbitrary: i)
  case (Cons b bs)
  show ?case
  proof (cases "i = bEnd b")
    case True
    with Cons.prems obtain d ds where bs: "bs = d # ds" "leave_ends bs (bBegin d) = (c # cs, j)"
      by (cases bs) auto
    from Cons.IH [OF bs(2)] bs(1) have "j \<noteq> bEnd c" "j = bBegin c"
        "rest_measure (c # cs) \<le> rest_measure bs"
      by (auto simp: rest_measure_def)
    then show ?thesis by simp
  next
    case False
    with Cons.prems show ?thesis by auto
  qed
qed simp

lemma unat_minus_gt:
  assumes "(a :: u64) \<noteq> b"
  shows "unat (a - (b + 1)) < unat (a - b)"
proof -
  have "a - b \<noteq> 0" using assms by simp
  then have "unat (a - b - 1) < unat (a - b)" by (simp add: unat_minus_one unat_gt_0)
  then show ?thesis by (simp add: diff_diff_eq)
qed

fun step_measure :: "'a block list \<Rightarrow> u64 \<Rightarrow> nat" where
  "step_measure [] i = 0"
| "step_measure (b # cs) i = unat (bEnd b - (i + 1)) + rest_measure cs"

lemma step_measure_less:
  assumes "leave_ends bs (i + 1) = (c # cs, j)"
  shows "step_measure (c # cs) j < step_measure bs i"
proof (cases "c # cs = bs \<and> j = i + 1")
  case True
  then show ?thesis
    using leave_ends_measure [OF assms] unat_minus_gt [of "bEnd c" "i + 1"] by auto
next
  case False
  then obtain b ds where bs: "bs = b # ds" "rest_measure (c # cs) \<le> rest_measure ds" "j = bBegin c"
    using leave_ends_measure [OF assms] by (cases bs) auto
  have "unat (bEnd c - (j + 1)) < unat (occupied c)"
    using leave_ends_measure [OF assms] bs(3) unat_minus_gt [of "bEnd c" j]
    by (auto simp: occupied_def)
  then show ?thesis using bs by (simp add: rest_measure_def)
qed

function it_step :: "'a block list \<Rightarrow> u64 \<Rightarrow> 'a block list \<times> u64" where
  "it_step bs i = (case leave_ends bs (i + 1) of ([], j) \<Rightarrow> ([], 0)
     | (c # cs, j) \<Rightarrow> if entry_at c j = None then it_step (c # cs) j else (c # cs, j))"
  by pat_completeness auto

termination it_step
  by (relation "measure (\<lambda>(bs, i). step_measure bs i)")
    (auto simp del: step_measure.simps dest!: sym [of "(_, _)" "leave_ends _ _"]
      intro: step_measure_less)

declare it_step.simps [simp del]

definition it_next :: "'a queue \<Rightarrow> iter \<Rightarrow> fault + iter" where
  "it_next q it = (case it_block it of None \<Rightarrow> Inl Bad_Pointer
     | Some i \<Rightarrow> (case dropWhile (\<lambda>b. blk_id b \<noteq> i) (mBlocks q) of [] \<Rightarrow> Inl Bad_Pointer
        | b # bs \<Rightarrow> (case it_step (b # bs) (it_index it) of
             ([], j) \<Rightarrow> Inr it_end
           | (c # cs, j) \<Rightarrow> Inr \<lparr>it_block = Some (blk_id c), it_index = j\<rparr>)))"

text \<open>\<^verbatim>\<open>operator++(int)\<close>: the value returned and the iterator afterwards.\<close>

definition it_post_incr :: "'a queue \<Rightarrow> iter \<Rightarrow> fault + iter \<times> iter" where
  "it_post_incr q it = bindR (it_next q it) (\<lambda>r. Inr (r, it))"

text \<open>A walk over the queue, as a range-based loop does, with a bound on the number of steps.\<close>

fun walk :: "nat \<Rightarrow> 'a queue \<Rightarrow> iter \<Rightarrow> fault + 'a list" where
  "walk 0 q it = (if it_block it = None then Inr [] else Inl Terminated)"
| "walk (Suc n) q it = (if it_block it = None then Inr []
     else bindR (it_deref q it) (\<lambda>x. bindR (it_next q it) (\<lambda>it'.
       bindR (walk n q it') (\<lambda>xs. Inr (x # xs)))))"

section \<open>Erasure\<close>

type_synonym addr = "nat \<times> nat"

definition update_block :: "nat \<Rightarrow> ('a block \<Rightarrow> 'a block) \<Rightarrow> 'a block list \<Rightarrow> 'a block list" where
  "update_block i f bs = map (\<lambda>b. if blk_id b = i then f b else b) bs"

definition front_addr :: "'a queue \<Rightarrow> addr" where
  "front_addr q = (let b = hd (mBlocks q) in (blk_id b, slot_of b (bBegin b)))"

definition erase_iter :: "'a queue \<Rightarrow> iter \<Rightarrow> fault + 'a queue" where
  "erase_iter q it = checkR (mSize q \<noteq> 0) Assertion (bindR (it_valid q it) (\<lambda>v. checkR v Assertion
     (bindR (queue_front q) (\<lambda>_. case it_block it of None \<Rightarrow> Inl Bad_Pointer
       | Some i \<Rightarrow> (case find_block q i of None \<Rightarrow> Inl Bad_Pointer
          | Some b \<Rightarrow> if front_addr q = (i, slot_of b (it_index it)) then pop_front q
              else Inr (q\<lparr>mSize := mSize q - 1,
                     mBlocks := update_block i (\<lambda>b. set_entry b (it_index it) None) (mBlocks q)\<rparr>))))))"

text \<open>
  \<^verbatim>\<open>erase(T*)\<close>: find the block whose storage contains the pointer, turn the byte offset into
  an index and build an iterator from it. The index is the slot, not the unreduced counter.
\<close>

definition erase_ptr :: "'a queue \<Rightarrow> addr \<Rightarrow> fault + 'a queue" where
  "erase_ptr q p = (case find (\<lambda>b. blk_id b = fst p \<and> snd p < length (slots b)) (mBlocks q) of
       None \<Rightarrow> Inl Assertion
     | Some b \<Rightarrow> bindR (mk_iter q (Some (blk_id b)) (of_nat (snd p))) (\<lambda>it. erase_iter q it))"

text \<open>The address of an element: the first place where it is stored.\<close>

fun locate_entry :: "'a \<Rightarrow> 'a block \<Rightarrow> nat list \<Rightarrow> addr option" where
  "locate_entry x b [] = None"
| "locate_entry x b (i # is) = (if entries b ! i = Some x
     then Some (blk_id b, slot_of b (bBegin b + of_nat i)) else locate_entry x b is)"

fun locate_in :: "'a \<Rightarrow> 'a block list \<Rightarrow> addr option" where
  "locate_in x [] = None"
| "locate_in x (b # bs) = (case locate_entry x b [0..<length (entries b)] of
     None \<Rightarrow> locate_in x bs | Some a \<Rightarrow> Some a)"

definition erase_elem :: "'a queue \<Rightarrow> 'a \<Rightarrow> fault + 'a queue" where
  "erase_elem q x = (case locate_in x (mBlocks q) of None \<Rightarrow> Inl Bad_Pointer | Some a \<Rightarrow> erase_ptr q a)"

section \<open>Erasing at an iterator\<close>

text \<open>
  The counters of a block stay below \<open>2 ^ 64\<close> (no queue lives long enough to push \<open>2 ^ 64\<close>
  elements); the comparison \<^verbatim>\<open>mIndex >= mBlock->mBegin\<close> of \<^verbatim>\<open>valid()\<close> is about
  unreduced counters and needs it.
\<close>

definition no_wrap :: "'a queue \<Rightarrow> bool" where
  "no_wrap q \<longleftrightarrow> (\<forall>b \<in> set (mBlocks q). unat (bBegin b) + unat (occupied b) < 2 ^ 64)"

text \<open>Element \<open>x\<close> is stored as the \<open>i\<close>-th entry of block \<open>b\<close>, after the elements \<open>pre\<close>.\<close>

definition stored :: "'a queue \<Rightarrow> 'a block \<Rightarrow> nat \<Rightarrow> 'a \<Rightarrow> bool" where
  "stored q b i x \<longleftrightarrow> b \<in> set (mBlocks q) \<and> i < unat (occupied b) \<and> entries b ! i = Some x"

lemma distinct_find:
  "distinct (map blk_id bs) \<Longrightarrow> b \<in> set bs \<Longrightarrow> find (\<lambda>c. blk_id c = blk_id b) bs = Some b"
  by (induction bs) auto

lemma find_unique_block:
  "distinct (map blk_id bs) \<Longrightarrow> b \<in> set bs \<Longrightarrow> P b \<Longrightarrow>
     find (\<lambda>c. blk_id c = blk_id b \<and> P c) bs = Some b"
  by (induction bs) auto

lemma find_block_stored: "qinv q \<Longrightarrow> b \<in> set (mBlocks q) \<Longrightarrow> find_block q (blk_id b) = Some b"
  by (simp add: find_block_def qinv_simps distinct_find)

lemma unat_counter:
  assumes "no_wrap q" and "b \<in> set (mBlocks q)" and "i < unat (occupied b)"
  shows "unat (bBegin b + of_nat i) = unat (bBegin b) + i"
proof -
  have "unat (bBegin b) + i < 2 ^ 64" using assms by (fastforce simp: no_wrap_def)
  then show ?thesis by (simp add: unat_word_ariths unat_of_nat)
qed

lemma it_valid_stored:
  assumes "qinv q" and "no_wrap q" and "stored q b i x"
  shows "it_valid q \<lparr>it_block = Some (blk_id b), it_index = bBegin b + of_nat i\<rparr> = Inr True"
proof -
  have b: "b \<in> set (mBlocks q)" "i < unat (occupied b)" "entries b ! i = Some x"
    using assms(3) by (auto simp: stored_def)
  have "bBegin b \<le> bBegin b + of_nat i"
    using unat_counter [OF assms(2) b(1,2)] by (simp add: word_le_nat_alt)
  then show ?thesis
    using find_block_stored [OF assms(1) b(1)] b(2,3) by (simp add: it_valid_def entries_nth)
qed

lemma update_block_id [simp]: "(\<And>b. blk_id (f b) = blk_id b) \<Longrightarrow> map blk_id (update_block i f bs) = map blk_id bs"
  by (induction bs) (simp_all add: update_block_def)

lemma update_block_split:
  assumes "distinct (map blk_id (bs1 @ b # bs2))"
  shows "update_block (blk_id b) f (bs1 @ b # bs2) = bs1 @ f b # bs2"
proof -
  have "map (\<lambda>c. if blk_id c = blk_id b then f c else c) bs = bs" if "blk_id b \<notin> blk_id ` set bs" for bs
    using that by (induction bs) auto
  moreover have "blk_id b \<notin> blk_id ` set bs1" "blk_id b \<notin> blk_id ` set bs2"
    using assms by (auto simp: image_iff)
  ultimately show ?thesis by (simp add: update_block_def)
qed

text \<open>The invariant sees the chain only through these projections.\<close>

lemma qinv_transfer:
  assumes inv: "qinv q"
    and occ: "map occupied (mBlocks q') = map occupied (mBlocks q)"
    and ids: "map blk_id (mBlocks q') = map blk_id (mBlocks q)"
    and cap: "map blk_capacity (mBlocks q') = map blk_capacity (mBlocks q)"
    and fresh: "mFresh q' = mFresh q" and wf: "\<forall>c \<in> set (mBlocks q'). wf_block c"
    and front: "occupied (hd (mBlocks q')) \<noteq> 0 \<longrightarrow> hd (entries (hd (mBlocks q'))) \<noteq> None"
    and size: "unat (mSize q') = length (qlist q')" "mSize q \<noteq> 0"
  shows "qinv q'"
proof -
  have ne: "mBlocks q \<noteq> []" using inv by (simp add: qinv_simps)
  then have ne': "mBlocks q' \<noteq> []" using occ by auto
  have last: "occupied (last (mBlocks q')) = occupied (last (mBlocks q))"
    "blk_capacity (last (mBlocks q')) = blk_capacity (last (mBlocks q))"
    using arg_cong [OF occ, of last] arg_cong [OF cap, of last] ne ne' by (simp_all add: last_map)
  have bl: "map occupied (butlast (mBlocks q')) = map occupied (butlast (mBlocks q))"
    using arg_cong [OF occ, of butlast] by (simp add: map_butlast)
  have "\<forall>v \<in> set (map occupied (butlast (mBlocks q))). v \<noteq> 0"
    using inv by (simp add: qinv_simps)
  then have "\<forall>b \<in> set (butlast (mBlocks q')). occupied b \<noteq> 0"
    by (simp flip: bl)
  moreover have "sum_list (map unat (map occupied (butlast (mBlocks q'))))
      = sum_list (map unat (map occupied (butlast (mBlocks q))))"
    by (simp only: bl)
  moreover have "\<forall>b \<in> set (mBlocks q'). blk_id b < mFresh q"
  proof
    fix b assume "b \<in> set (mBlocks q')"
    then have "blk_id b \<in> set (map blk_id (mBlocks q))" by (simp flip: ids)
    then show "blk_id b < mFresh q" using inv by (auto simp: qinv_simps)
  qed
  ultimately show ?thesis
    using inv ne' last fresh wf front size ids by (simp add: qinv_simps o_def)
qed

text \<open>Emptying an entry that is not the front one keeps the invariant and removes its value.\<close>

lemma empty_entry_correct:
  assumes inv: "qinv q" and st: "stored q b i x"
    and nf: "front_addr q \<noteq> (blk_id b, slot_of b (bBegin b + of_nat i))"
  defines "q' \<equiv> q\<lparr>mSize := mSize q - 1,
     mBlocks := update_block (blk_id b) (\<lambda>c. set_entry c (bBegin b + of_nat i) None) (mBlocks q)\<rparr>"
  shows "qinv q' \<and> (\<exists>pre post. qlist q = pre @ x # post \<and> qlist q' = pre @ post)"
proof -
  let ?b = "set_entry b (bBegin b + of_nat i) None"
  have b: "b \<in> set (mBlocks q)" "i < unat (occupied b)" "entries b ! i = Some x"
    using st by (auto simp: stored_def)
  obtain bs1 bs2 where bs: "mBlocks q = bs1 @ b # bs2" using b(1) by (auto simp: in_set_conv_decomp)
  have dist: "distinct (map blk_id (bs1 @ b # bs2))" using inv bs by (simp add: qinv_simps)
  have blocks: "mBlocks q' = bs1 @ ?b # bs2"
    using update_block_split [OF dist] by (simp add: q'_def bs)
  have "wf_block b" using inv b(1) by (simp add: qinv_simps)
  then obtain k where k: "wf_block_k k b" by (auto simp: wf_block_def)
  have ent: "entries ?b = (entries b)[i := None]" by (rule entries_set_entry [OF k b(2)])
  have len: "i < length (entries b)" using b(2) by simp
  let ?pre = "somes (concat (map entries bs1)) @ somes (take i (entries b))"
  let ?post = "somes (drop (Suc i) (entries b)) @ somes (concat (map entries bs2))"
  have l: "qlist q = ?pre @ x # ?post" "qlist q' = ?pre @ ?post"
    using somes_update_None [OF len b(3)] by (simp_all add: qlist_def bs blocks ent)
  have front: "hd (entries (hd (mBlocks q'))) \<noteq> None" if "occupied (hd (mBlocks q')) \<noteq> 0"
  proof (cases bs1)
    case Nil
    have "i \<noteq> 0" using nf by (intro notI) (simp add: front_addr_def bs Nil)
    moreover have "hd (entries b) \<noteq> None"
      using inv bs Nil that by (simp add: qinv_simps blocks)
    moreover have "hd ((entries b)[i := None]) = hd (entries b)" if "i \<noteq> 0"
      using that len by (cases "entries b"; cases i) simp_all
    ultimately show ?thesis by (simp add: blocks Nil ent)
  next
    case Cons
    then show ?thesis using inv bs that by (simp add: qinv_simps blocks)
  qed
  have "mSize q \<noteq> 0" using mSize_zero_iff [OF inv] l(1) by simp
  then have size: "unat (mSize q - 1) = length (qlist q')"
    using inv l by (simp add: qinv_simps unat_minus_one)
  have "qinv q'"
  proof (rule qinv_transfer [OF inv])
    show "\<forall>c \<in> set (mBlocks q'). wf_block c"
      using inv k by (auto simp: blocks bs qinv_simps wf_block_def)
  qed (use front size \<open>mSize q \<noteq> 0\<close> in \<open>simp_all add: blocks bs\<close>, simp_all add: q'_def)
  then show ?thesis using l by blast
qed

text \<open>
  The address of an entry determines it, and only the front entry has the front's address.
\<close>

lemma front_addr_iff:
  assumes inv: "qinv q" and st: "stored q b i x"
  shows "front_addr q = (blk_id b, slot_of b (bBegin b + of_nat i)) \<longleftrightarrow> b = hd (mBlocks q) \<and> i = 0"
proof -
  have b: "b \<in> set (mBlocks q)" "i < unat (occupied b)" using st by (auto simp: stored_def)
  have ne: "mBlocks q \<noteq> []" using b by auto
  have "wf_block b" using inv b(1) by (simp add: qinv_simps)
  then obtain k where k: "wf_block_k k b" by (auto simp: wf_block_def)
  have "i < 2 ^ k" using k b(2) by (simp add: wf_block_k_def)
  then have slot: "slot_of b (bBegin b + of_nat i) = slot_of b (bBegin b + of_nat 0) \<longleftrightarrow> i = 0"
    by (intro slot_of_inj [OF k]) simp_all
  have "inj_on blk_id (set (mBlocks q))" using inv by (simp add: qinv_simps distinct_map)
  then have "blk_id (hd (mBlocks q)) = blk_id b \<longleftrightarrow> hd (mBlocks q) = b"
    using b(1) ne by (auto dest: inj_onD)
  then show ?thesis using slot by (auto simp: front_addr_def Let_def)
qed

lemma erase_iter_correct:
  assumes inv: "qinv q" and nw: "no_wrap q" and st: "stored q b i x"
  shows "\<exists>q' pre post. erase_iter q \<lparr>it_block = Some (blk_id b), it_index = bBegin b + of_nat i\<rparr> = Inr q'
     \<and> qinv q' \<and> qlist q = pre @ x # post \<and> qlist q' = pre @ post"
proof -
  have b: "b \<in> set (mBlocks q)" "i < unat (occupied b)" "entries b ! i = Some x"
    using st by (auto simp: stored_def)
  have ne: "qlist q \<noteq> []"
  proof -
    have "Some x \<in> set (entries b)" using b(2,3) by (metis length_entries nth_mem)
    then have "x \<in> set (qlist q)" using b(1) by (auto simp: qlist_def set_somes)
    then show ?thesis by auto
  qed
  then obtain y ys where ys: "qlist q = y # ys" by (auto simp: neq_Nil_conv)
  have size: "mSize q \<noteq> 0" using mSize_zero_iff [OF inv] ne by simp
  have pre: "it_valid q \<lparr>it_block = Some (blk_id b), it_index = bBegin b + of_nat i\<rparr> = Inr True"
    "queue_front q = Inr y" "find_block q (blk_id b) = Some b"
    using it_valid_stored [OF inv nw st] queue_front_correct [OF inv ys]
      find_block_stored [OF inv b(1)] by auto
  show ?thesis
  proof (cases "front_addr q = (blk_id b, slot_of b (bBegin b + of_nat i))")
    case True
    then have b0: "b = hd (mBlocks q)" "i = 0" using front_addr_iff [OF inv st] by auto
    obtain c cs z where c: "mBlocks q = c # cs" "occupied c \<noteq> 0" "entry_at c (bBegin c) = Some z"
      "qlist q = z # somes (entries (c\<lparr>bBegin := bBegin c + 1\<rparr>) @ concat (map entries cs))"
      using qinv_front_block [OF inv ne] by metis
    have "x = y" using b0 b(2,3) c ys by (simp add: entries_nth)
    then show ?thesis
      using pop_front_correct [OF inv ys] ys size True by (force simp: erase_iter_def pre)
  next
    case False
    then show ?thesis
      using empty_entry_correct [OF inv st False] size by (simp add: erase_iter_def pre)
  qed
qed

lemma ring_index_behind:
  fixes b i n :: nat
  assumes "b + i < b + n" and "\<not> b + i < n"
  shows "(b + i) mod n < b"
proof -
  have "(b + i) mod n + n \<le> b + i"
    using assms(2) by (metis add.commute add_le_cancel_right le_add_diff_inverse2 le_mod_geq mod_less_eq_dividend not_less)
  then show ?thesis using assms(1) by simp
qed

text \<open>
  C10. Erasing an element through its address: it succeeds and removes exactly that element, keeping
  the order of the others, as long as the element's unreduced index is below the capacity of its
  block; for every other element the address is turned into the reduced slot number, which the
  validity check compares with the unreduced \<^verbatim>\<open>mBegin\<close>, and the assertion fails. So in a block
  whose ring has gone around once, no element that lies past the turn can be erased.
\<close>

theorem erase_ptr_cases:
  assumes inv: "qinv q" and nw: "no_wrap q" and st: "stored q b i x"
  shows "if unat (bBegin b) + i < unat (blk_capacity b)
     then \<exists>q' pre post. erase_ptr q (blk_id b, slot_of b (bBegin b + of_nat i)) = Inr q'
            \<and> qinv q' \<and> qlist q = pre @ x # post \<and> qlist q' = pre @ post
     else erase_ptr q (blk_id b, slot_of b (bBegin b + of_nat i)) = Inl Assertion"
proof -
  let ?s = "slot_of b (bBegin b + of_nat i)"
  have b: "b \<in> set (mBlocks q)" "i < unat (occupied b)" "entries b ! i = Some x"
    using st by (auto simp: stored_def)
  have "wf_block b" using inv b(1) by (simp add: qinv_simps)
  then obtain k where k: "wf_block_k k b" by (auto simp: wf_block_def)
  have cap: "unat (blk_capacity b) = 2 ^ k" by (rule blk_capacity_wf(2) [OF k])
  have s: "?s = (unat (bBegin b) + i) mod 2 ^ k" by (rule slot_of_wf [OF k])
  have slen: "?s < length (slots b)" by (rule slot_of_less [OF k])
  have fnd: "find (\<lambda>c. blk_id c = blk_id b \<and> ?s < length (slots c)) (mBlocks q) = Some b"
    using inv b(1) slen by (intro find_unique_block) (auto simp: qinv_simps)
  show ?thesis
  proof (cases "unat (bBegin b) + i < 2 ^ k")
    case True
    then have "of_nat ?s = bBegin b + of_nat i" by (simp add: s)
    moreover obtain q' pre post where
      "erase_iter q \<lparr>it_block = Some (blk_id b), it_index = bBegin b + of_nat i\<rparr> = Inr q'"
      "qinv q'" "qlist q = pre @ x # post" "qlist q' = pre @ post"
      using erase_iter_correct [OF inv nw st] by blast
    ultimately show ?thesis
      using it_valid_stored [OF inv nw st] True fnd
      by (auto simp: cap erase_ptr_def mk_iter_def Let_def)
  next
    case False
    have less: "?s < 2 ^ k" by (simp add: s)
    have "unat (bBegin b) > ?s"
    proof -
      have "unat (bBegin b) + i < unat (bBegin b) + 2 ^ k"
        using b(2) k by (simp add: wf_block_k_def)
      then show ?thesis using ring_index_behind [OF _ False] by (simp add: s)
    qed
    moreover have "(2::nat) ^ k < 2 ^ 64"
      using k by (intro power_strict_increasing) (auto simp: wf_block_k_def)
    ultimately have "\<not> bBegin b \<le> of_nat ?s"
      using less by (simp add: word_le_nat_alt unat_of_nat)
    then show ?thesis
      using False fnd find_block_stored [OF inv b(1)]
      by (simp add: cap erase_ptr_def mk_iter_def it_valid_def Let_def)
  qed
qed

text \<open>Erasing a stored element by its address, seen on the list of elements.\<close>

lemma locate_entry_Some:
  "locate_entry x b is = Some a \<Longrightarrow> \<exists>i \<in> set is. entries b ! i = Some x
     \<and> a = (blk_id b, slot_of b (bBegin b + of_nat i))"
  by (induction "is") (auto split: if_splits)

lemma locate_entry_None: "locate_entry x b is = None \<longleftrightarrow> (\<forall>i \<in> set is. entries b ! i \<noteq> Some x)"
  by (induction "is") auto

lemma locate_in_Some:
  "locate_in x bs = Some a \<Longrightarrow> \<exists>b \<in> set bs. \<exists>i < unat (occupied b). entries b ! i = Some x
     \<and> a = (blk_id b, slot_of b (bBegin b + of_nat i))"
proof (induction bs)
  case (Cons b bs)
  show ?case
  proof (cases "locate_entry x b [0..<length (entries b)]")
    case None
    with Cons show ?thesis by simp
  next
    case (Some c)
    with Cons.prems have "c = a" by simp
    with locate_entry_Some [OF Some] show ?thesis by auto
  qed
qed simp

lemma locate_in_None: "locate_in x bs = None \<Longrightarrow> x \<notin> set (somes (concat (map entries bs)))"
  by (induction bs) (auto split: option.splits simp: locate_entry_None set_somes in_set_conv_nth)

lemma locate_stored:
  assumes "x \<in> set (qlist q)"
  shows "\<exists>b i a. locate_in x (mBlocks q) = Some a \<and> stored q b i x
     \<and> a = (blk_id b, slot_of b (bBegin b + of_nat i))"
proof (cases "locate_in x (mBlocks q)")
  case None
  then show ?thesis using assms locate_in_None [OF None] by (simp add: qlist_def)
next
  case (Some a)
  show ?thesis using locate_in_Some [OF Some] Some by (auto simp: stored_def)
qed

lemma erase_elem_cases:
  assumes inv: "qinv q" and nw: "no_wrap q" and x: "x \<in> set (qlist q)" and d: "distinct (qlist q)"
  shows "erase_elem q x = Inl Assertion
    \<or> (\<exists>q'. erase_elem q x = Inr q' \<and> qinv q' \<and> qlist q' = remove1 x (qlist q))"
proof -
  obtain b i a where a: "locate_in x (mBlocks q) = Some a"
      and st: "stored q b i x" "a = (blk_id b, slot_of b (bBegin b + of_nat i))"
    using locate_stored [OF x] by blast
  have "remove1 x (pre @ x # post) = pre @ post" if "qlist q = pre @ x # post" for pre post
    using d that by (auto simp: remove1_append)
  then show ?thesis
    using erase_ptr_cases [OF inv nw st(1)] a st(2) by (fastforce simp: erase_elem_def split: if_splits)
qed

text \<open>An element of a block whose ring has not turned yet can always be erased.\<close>

definition unturned :: "'a queue \<Rightarrow> bool" where
  "unturned q \<longleftrightarrow> (\<forall>b \<in> set (mBlocks q). unat (bBegin b) + unat (occupied b) \<le> unat (blk_capacity b))"

lemma unturned_no_wrap: "unturned q \<Longrightarrow> qinv q \<Longrightarrow> no_wrap q"
  unfolding unturned_def no_wrap_def
proof
  fix b assume "\<forall>b \<in> set (mBlocks q). unat (bBegin b) + unat (occupied b) \<le> unat (blk_capacity b)"
    "b \<in> set (mBlocks q)"
  moreover have "unat (blk_capacity b) < 2 ^ 64" using unsigned_less [of "blk_capacity b"] by simp
  ultimately show "unat (bBegin b) + unat (occupied b) < 2 ^ 64" by fastforce
qed

lemma erase_elem_unturned:
  assumes inv: "qinv q" and nt: "unturned q" and x: "x \<in> set (qlist q)" and d: "distinct (qlist q)"
  shows "\<exists>q'. erase_elem q x = Inr q' \<and> qinv q' \<and> qlist q' = remove1 x (qlist q)"
proof -
  have nw: "no_wrap q" by (rule unturned_no_wrap [OF nt inv])
  obtain b i a where a: "locate_in x (mBlocks q) = Some a"
      and st: "stored q b i x" "a = (blk_id b, slot_of b (bBegin b + of_nat i))"
    using locate_stored [OF x] by blast
  have "unat (bBegin b) + i < unat (blk_capacity b)"
    using nt st(1) by (fastforce simp: unturned_def stored_def)
  then have "\<exists>q'. erase_elem q x = Inr q'"
    using erase_ptr_cases [OF inv nw st(1)] a st(2) by (auto simp: erase_elem_def)
  then show ?thesis using erase_elem_cases [OF inv nw x d] by auto
qed

section \<open>Walking over the queue\<close>

lemma counter_at_end:
  assumes "i \<le> unat (occupied b)"
  shows "bBegin b + of_nat i = bEnd b \<longleftrightarrow> i = unat (occupied b)"
proof -
  have "unat (occupied b) < 2 ^ 64" using unsigned_less [of "occupied b"] by simp
  then have "i < 2 ^ 64" using assms by simp
  then have "unat (of_nat i :: u64) = i" by (simp add: unat_of_nat)
  moreover have "bBegin b + of_nat i = bEnd b \<longleftrightarrow> of_nat i = occupied b"
    by (simp add: occupied_def eq_diff_eq add.commute)
  ultimately show ?thesis by (metis of_nat_unat word_unat_eq_iff)
qed

lemma leave_ends_pos:
  assumes "i \<le> unat (occupied b)"
  shows "(drop i (entries b) @ concat (map entries bs) = [] \<and> leave_ends (b # bs) (bBegin b + of_nat i) = ([], 0))
    \<or> (\<exists>pre c cs m. leave_ends (b # bs) (bBegin b + of_nat i) = (c # cs, bBegin c + of_nat m)
        \<and> b # bs = pre @ c # cs \<and> m < unat (occupied c)
        \<and> drop i (entries b) @ concat (map entries bs) = drop m (entries c) @ concat (map entries cs))"
  using assms
proof (induction bs arbitrary: b i)
  case Nil
  have fin: "bBegin b + of_nat i = bEnd b \<longleftrightarrow> i = unat (occupied b)"
    using Nil.prems counter_at_end by blast
  show ?case
    using Nil.prems fin by (cases "i = unat (occupied b)") (auto intro!: exI [of _ "[]"])
next
  case (Cons d ds)
  have fin: "bBegin b + of_nat i = bEnd b \<longleftrightarrow> i = unat (occupied b)"
    using Cons.prems counter_at_end by blast
  show ?case
  proof (cases "i = unat (occupied b)")
    case True
    then have l: "leave_ends (b # d # ds) (bBegin b + of_nat i) = leave_ends (d # ds) (bBegin d + of_nat 0)"
      using fin by simp
    have r: "drop i (entries b) @ concat (map entries (d # ds)) = drop 0 (entries d) @ concat (map entries ds)"
      using True by simp
    from Cons.IH [of 0 d, OF le0] show ?thesis
    proof (elim disjE conjE exE)
      fix pre c cs m
      assume "leave_ends (d # ds) (bBegin d + of_nat 0) = (c # cs, bBegin c + of_nat m)"
        "d # ds = pre @ c # cs" "m < unat (occupied c)"
        "drop 0 (entries d) @ concat (map entries ds) = drop m (entries c) @ concat (map entries cs)"
      then show ?thesis unfolding l r
        by (intro disjI2 exI [of _ "b # pre"] exI [of _ c] exI [of _ cs] exI [of _ m]) simp
    next
      assume "drop 0 (entries d) @ concat (map entries ds) = []"
        "leave_ends (d # ds) (bBegin d + of_nat 0) = ([], 0)"
      then show ?thesis unfolding l r by blast
    qed
  next
    case False
    with fin Cons.prems show ?thesis
      by (intro disjI2 exI [of _ "[]"]) auto
  qed
qed

text \<open>
  What lies at and after a position of the chain, empty entries included; a position is
  represented by the blocks from its own on and the offset into the first of them.
\<close>

definition rest_from :: "'a block list \<Rightarrow> nat \<Rightarrow> 'a option list" where
  "rest_from bs i = drop i (entries (hd bs)) @ concat (map entries (tl bs))"

lemma rest_from_Cons:
  assumes "i < unat (occupied b)"
  shows "rest_from (b # bs) i = entries b ! i # rest_from (b # bs) (Suc i)"
  using assms by (simp add: rest_from_def Cons_nth_drop_Suc)

lemma it_step_pos:
  assumes "i < unat (occupied b)"
  shows "(somes (rest_from (b # bs) (Suc i)) = [] \<and> it_step (b # bs) (bBegin b + of_nat i) = ([], 0))
    \<or> (\<exists>pre c cs m y. it_step (b # bs) (bBegin b + of_nat i) = (c # cs, bBegin c + of_nat m)
        \<and> b # bs = pre @ c # cs \<and> m < unat (occupied c) \<and> entries c ! m = Some y
        \<and> somes (rest_from (b # bs) (Suc i)) = y # somes (rest_from (c # cs) (Suc m)))"
  using assms
proof (induction "length (rest_from (b # bs) i)" arbitrary: b bs i rule: less_induct)
  case less
  have "bBegin b + of_nat i + 1 = bBegin b + of_nat (Suc i)" by simp
  then have unf: "it_step (b # bs) (bBegin b + of_nat i) = (case leave_ends (b # bs) (bBegin b + of_nat (Suc i)) of
      ([], j) \<Rightarrow> ([], 0) | (c # cs, j) \<Rightarrow> if entry_at c j = None then it_step (c # cs) j else (c # cs, j))"
    by (simp only: it_step.simps [of "b # bs"])
  have le: "Suc i \<le> unat (occupied b)" using less.prems by simp
  from leave_ends_pos [OF le, of bs] show ?case
  proof (elim disjE conjE exE)
    assume "drop (Suc i) (entries b) @ concat (map entries bs) = []"
      "leave_ends (b # bs) (bBegin b + of_nat (Suc i)) = ([], 0)"
    then have "rest_from (b # bs) (Suc i) = []" "it_step (b # bs) (bBegin b + of_nat i) = ([], 0)"
      using unf by (simp_all only: rest_from_def list.sel prod.case list.case)
    then show ?thesis by simp
  next
    fix pre c cs m
    assume l: "leave_ends (b # bs) (bBegin b + of_nat (Suc i)) = (c # cs, bBegin c + of_nat m)"
      and bs: "b # bs = pre @ c # cs" and m: "m < unat (occupied c)"
      and r: "drop (Suc i) (entries b) @ concat (map entries bs) = drop m (entries c) @ concat (map entries cs)"
    have rest: "rest_from (b # bs) (Suc i) = entries c ! m # rest_from (c # cs) (Suc m)"
      using r rest_from_Cons [OF m, of cs] by (simp add: rest_from_def)
    have ent: "entry_at c (bBegin c + of_nat m) = entries c ! m" using m by (simp add: entries_nth)
    show ?thesis
    proof (cases "entries c ! m")
      case (Some y)
      then have "it_step (b # bs) (bBegin b + of_nat i) = (c # cs, bBegin c + of_nat m)"
        using unf l ent by simp
      then show ?thesis using bs m Some rest by auto
    next
      case None
      then have st: "it_step (b # bs) (bBegin b + of_nat i) = it_step (c # cs) (bBegin c + of_nat m)"
        using unf l ent by simp
      have "length (rest_from (c # cs) m) < length (rest_from (b # bs) i)"
        using rest rest_from_Cons [OF m, of cs] rest_from_Cons [OF less.prems, of bs] by simp
      from less.hyps [OF this m] show ?thesis
      proof (elim disjE conjE exE)
        assume "somes (rest_from (c # cs) (Suc m)) = []" "it_step (c # cs) (bBegin c + of_nat m) = ([], 0)"
        then show ?thesis using st rest None by simp
      next
        fix pre' d ds n y
        assume "it_step (c # cs) (bBegin c + of_nat m) = (d # ds, bBegin d + of_nat n)"
          "c # cs = pre' @ d # ds" "n < unat (occupied d)" "entries d ! n = Some y"
          "somes (rest_from (c # cs) (Suc m)) = y # somes (rest_from (d # ds) (Suc n))"
        then show ?thesis using st rest None bs
          by (intro disjI2 exI [of _ "pre @ pre'"] exI [of _ d] exI [of _ ds] exI [of _ n] exI [of _ y]) simp
      qed
    qed
  qed
qed

lemma dropWhile_block:
  "distinct (map blk_id (pre @ b # bs)) \<Longrightarrow> dropWhile (\<lambda>c. blk_id c \<noteq> blk_id b) (pre @ b # bs) = b # bs"
  by (induction pre) auto

lemma it_deref_stored:
  assumes "qinv q" and "no_wrap q" and "stored q b i x"
  shows "it_deref q \<lparr>it_block = Some (blk_id b), it_index = bBegin b + of_nat i\<rparr> = Inr x"
proof -
  have b: "b \<in> set (mBlocks q)" "i < unat (occupied b)" "entries b ! i = Some x"
    using assms(3) by (auto simp: stored_def)
  then show ?thesis
    using it_valid_stored [OF assms] find_block_stored [OF assms(1) b(1)]
    by (simp add: it_deref_def entries_nth)
qed

lemma walk_from:
  assumes inv: "qinv q" and nw: "no_wrap q"
    and "mBlocks q = pre @ b # bs" and "i < unat (occupied b)" and "entries b ! i = Some x"
    and "length (somes (rest_from (b # bs) (Suc i))) < n"
  shows "walk n q \<lparr>it_block = Some (blk_id b), it_index = bBegin b + of_nat i\<rparr>
     = Inr (x # somes (rest_from (b # bs) (Suc i)))"
  using assms(3-)
proof (induction n arbitrary: pre b bs i x)
  case (Suc n)
  have st: "stored q b i x" using Suc.prems by (simp add: stored_def)
  have dist: "distinct (map blk_id (pre @ b # bs))" using inv Suc.prems(1) by (simp add: qinv_simps)
  have dr: "dropWhile (\<lambda>c. blk_id c \<noteq> blk_id b) (mBlocks q) = b # bs"
    unfolding Suc.prems(1) by (rule dropWhile_block [OF dist])
  from it_step_pos [OF Suc.prems(2), of bs] show ?case
  proof (elim disjE conjE exE)
    assume none: "somes (rest_from (b # bs) (Suc i)) = []"
      and "it_step (b # bs) (bBegin b + of_nat i) = ([], 0)"
    then have "it_next q \<lparr>it_block = Some (blk_id b), it_index = bBegin b + of_nat i\<rparr> = Inr it_end"
      by (simp add: it_next_def dr)
    moreover have "walk n q it_end = Inr []" by (cases n) (simp_all add: it_end_def)
    ultimately show ?thesis using it_deref_stored [OF inv nw st] none by simp
  next
    fix pre' c cs m y
    assume s: "it_step (b # bs) (bBegin b + of_nat i) = (c # cs, bBegin c + of_nat m)"
      and bs: "b # bs = pre' @ c # cs" and m: "m < unat (occupied c)" "entries c ! m = Some y"
      and r: "somes (rest_from (b # bs) (Suc i)) = y # somes (rest_from (c # cs) (Suc m))"
    have nx: "it_next q \<lparr>it_block = Some (blk_id b), it_index = bBegin b + of_nat i\<rparr>
        = Inr \<lparr>it_block = Some (blk_id c), it_index = bBegin c + of_nat m\<rparr>"
      by (simp add: it_next_def dr s)
    have "mBlocks q = (pre @ pre') @ c # cs" using Suc.prems(1) bs by simp
    then have "walk n q \<lparr>it_block = Some (blk_id c), it_index = bBegin c + of_nat m\<rparr>
        = Inr (y # somes (rest_from (c # cs) (Suc m)))"
      using Suc.IH [of "pre @ pre'" c cs m y] m r Suc.prems(4) by simp
    then show ?thesis using it_deref_stored [OF inv nw st] nx r by simp
  qed
qed simp

text \<open>
  C11. Iterating over the queue, from \<^verbatim>\<open>begin()\<close> with \<^verbatim>\<open>++\<close> and \<^verbatim>\<open>*\<close> to
  \<^verbatim>\<open>end()\<close>, visits exactly the stored elements in order, however many erased entries and
  block boundaries lie in between.
\<close>

theorem walk_correct:
  assumes inv: "qinv q" and nw: "no_wrap q"
  shows "bindR (queue_begin q) (walk (unat (queue_size q)) q) = Inr (qlist q)"
proof (cases "qlist q = []")
  case True
  then show ?thesis
    using mSize_zero_iff [OF inv] by (simp add: queue_begin_def queue_size_def it_end_def)
next
  case False
  with inv obtain b bs x where b: "mBlocks q = b # bs" "occupied b \<noteq> 0" "entry_at b (bBegin b) = Some x"
      and q: "qlist q = x # somes (entries (b\<lparr>bBegin := bBegin b + 1\<rparr>) @ concat (map entries bs))"
    by (rule qinv_front_block)
  have occ: "0 < unat (occupied b)" using b(2) by (simp add: unat_gt_0)
  have e0: "entries b ! 0 = Some x" using entries_Cons [OF b(2)] b(3) by simp
  have rest: "somes (rest_from (b # bs) (Suc 0)) = somes (entries (b\<lparr>bBegin := bBegin b + 1\<rparr>) @ concat (map entries bs))"
    using entries_Cons [OF b(2)] by (simp add: rest_from_def drop_Suc)
  have st: "stored q b 0 x" using b occ e0 by (simp add: stored_def)
  have "queue_begin q = Inr \<lparr>it_block = Some (blk_id b), it_index = bBegin b + of_nat 0\<rparr>"
    using mSize_zero_iff [OF inv] False it_valid_stored [OF inv nw st] b(1)
    by (simp add: queue_begin_def mk_iter_def)
  moreover have "length (somes (rest_from (b # bs) (Suc 0))) < unat (queue_size q)"
    using queue_size_correct [OF inv] q rest by simp
  ultimately show ?thesis
    using walk_from [OF inv nw, of "[]" b bs 0 x] b(1) occ e0 q rest by simp
qed

section \<open>Clearing\<close>

lemma pop_all_correct: "qinv q \<Longrightarrow> \<exists>q'. pop_all q = Inr q' \<and> qinv q' \<and> qlist q' = []"
proof (induction "length (qlist q)" arbitrary: q)
  case 0
  then show ?case using mSize_zero_iff [of q] by (subst pop_all.simps) simp
next
  case (Suc n)
  then obtain x xs where xs: "qlist q = x # xs" by (metis length_Suc_conv)
  then obtain q1 where q1: "pop_front q = Inr q1" "qinv q1" "qlist q1 = xs"
    using pop_front_correct [OF Suc.prems] by blast
  have "mSize q \<noteq> 0" using mSize_zero_iff [OF Suc.prems] xs by simp
  then have "pop_all q = pop_all q1" using q1(1) by (subst pop_all.simps) simp
  then show ?case using Suc.hyps(1) [OF _ q1(2)] Suc.hyps(2) q1(3) xs by simp
qed

text \<open>
  Clearing a queue in good order succeeds and leaves an empty queue in good order: all elements
  are destroyed, whatever erasures left behind.
\<close>

theorem queue_clear_correct:
  assumes "qinv q"
  shows "\<exists>q'. queue_clear q = Inr q' \<and> qlist q' = [] \<and> mSize q' = 0"
proof -
  obtain q' where q': "pop_all q = Inr q'" "qinv q'" "qlist q' = []"
    using pop_all_correct [OF assms] by blast
  moreover from q' have "mSize q' = 0" "mBlocks q' \<noteq> []"
    by (simp_all add: mSize_zero_iff) (simp add: qinv_simps)
  ultimately show ?thesis by (auto simp: queue_clear_def qlist_def neq_Nil_conv)
qed

section \<open>Concrete runs\<close>

definition push_list :: "'a list \<Rightarrow> 'a queue \<Rightarrow> fault + 'a queue" where
  "push_list xs q = fold (\<lambda>x r. bindR r (push_back x)) xs (Inr q)"

text \<open>Eight insertions, one removal, one insertion: the ring of the inner block has turned.\<close>

definition turned :: "nat queue" where
  "turned = \<lparr>mSize = 8, mBlocks = [\<lparr>blk_id = 0, mSizeMask = 7, bBegin = 1, bEnd = 9,
      slots = [Some 8, Some 1, Some 2, Some 3, Some 4, Some 5, Some 6, Some 7]\<rparr>], mFresh = 1, mDeleted = []\<rparr>"

lemma turned_reached:
  "bindR (push_list [0, 1, 2, 3, 4, 5, 6, 7] nat_queue) (\<lambda>q. bindR (pop_front q) (push_back 8)) = Inr turned"
  by code_simp

lemma turned_inv: "qinv turned"
proof -
  have "wf_block_k 3 (hd (mBlocks turned))"
    by (simp add: wf_block_k_def turned_def occupied_def mask_eq_exp_minus_1)
  moreover have "hd (entries (hd (mBlocks turned))) = Some 1" "length (qlist turned) = 8"
      "occupied (hd (mBlocks turned)) = 8" "blk_capacity (hd (mBlocks turned)) = 8"
    by code_simp+
  ultimately show ?thesis
    by (simp add: qinv_simps wf_block_def turned_def) (intro exI [of _ 3])
qed

lemma turned_no_wrap: "no_wrap turned"
  by (simp add: no_wrap_def turned_def occupied_def)

lemma turned_stored: "stored turned (hd (mBlocks turned)) 7 8" "stored turned (hd (mBlocks turned)) 2 3"
  by (simp_all add: stored_def turned_def occupied_def entries_nth entry_at_def slot_of_def)

theorem erase_ptr_cases_witness:
  "erase_ptr turned (0, 0) = Inl Assertion \<and> (\<exists>q'. erase_ptr turned (0, 3) = Inr q' \<and> qinv q')"
  using erase_ptr_cases [OF turned_inv turned_no_wrap turned_stored(1)]
    erase_ptr_cases [OF turned_inv turned_no_wrap turned_stored(2)]
  by (auto simp: turned_def blk_capacity_def slot_of_def)

theorem walk_correct_witness: "bindR (queue_begin turned) (walk 8 turned) = Inr [1, 2, 3, 4, 5, 6, 7, 8]"
proof -
  have "unat (queue_size turned) = 8" "qlist turned = [1, 2, 3, 4, 5, 6, 7, 8]" by code_simp+
  then show ?thesis using walk_correct [OF turned_inv turned_no_wrap] by simp
qed

theorem queue_clear_correct_witness: "\<exists>q'. queue_clear turned = Inr q' \<and> qlist q' = [] \<and> mSize q' = 0"
  by (rule queue_clear_correct [OF turned_inv])


text \<open>The postfix increment returns the advanced iterator and leaves its operand where it was.\<close>

lemma post_increment:
  "it_post_incr q it = Inr (r, it') \<Longrightarrow> it' = it \<and> it_next q it = Inr r"
  by (auto simp: it_post_incr_def fault_simps)

text \<open>
  The rounding of \<^verbatim>\<open>reserve\<close> produces powers of two for 32-bit requests only, and a queue with
  a reserved larger block cannot read its front, because the empty inner block stays in front.
\<close>

lemma reserve_size_large: "reserve_size (2 ^ 33 + 1) = 2 ^ 34 - 3"
  by code_simp

lemma reserve_breaks_front:
  "bindR (reserve 20 nat_queue) (\<lambda>q. bindR (push_back 1 q) queue_front) = Inl Assertion"
  by code_simp

end
