(* ===== verification/Blocking_Queue.thy ===== *)
theory Blocking_Queue
  imports Prelude
begin

text \<open>
  The queue between threads of \<^verbatim>\<open>coproto/Common/Queue.h\<close>: a deque behind a mutex, and a condition
  variable on which the threads that find it empty wait. Each critical section is a step; notifying
  happens after the mutex was released, so it is a step of its own. Which waiting thread
  \<^verbatim>\<open>notify_one\<close> picks is an argument, and a waiting thread may also wake up without a reason.
\<close>

section \<open>The queue\<close>

text \<open>
  The front of the deque is the head of the list. \<open>bk_Blocked\<close> are the threads that wait,
  \<open>bk_Woken\<close> those that are about to test the queue again, \<open>bk_Notify\<close> counts the insertions
  whose notification is still to come.
\<close>

record 'a blocking_queue =
  bk_Queue :: "'a list"
  bk_Blocked :: "nat list"
  bk_Woken :: "nat list"
  bk_Notify :: nat

definition bk_new :: "'a blocking_queue" where
  "bk_new = \<lparr>bk_Queue = [], bk_Blocked = [], bk_Woken = [], bk_Notify = 0\<rparr>"

text \<open>Moving: the new value of the target, and that of the source.\<close>

definition bk_move :: "'a blocking_queue \<Rightarrow> 'a blocking_queue \<times> 'a blocking_queue" where
  "bk_move q = (q, bk_new)"

definition bk_assign :: "'a blocking_queue \<Rightarrow> 'a blocking_queue \<Rightarrow> 'a blocking_queue \<times> 'a blocking_queue" where
  "bk_assign this q = (q, bk_new)"

definition bk_clear :: "'a blocking_queue \<Rightarrow> 'a blocking_queue" where
  "bk_clear q = q\<lparr>bk_Queue := []\<rparr>"

text \<open>\<^verbatim>\<open>push\<close> and \<^verbatim>\<open>emplace\<close>: the insertion, and the notification behind it.\<close>

definition bk_push :: "'a \<Rightarrow> 'a blocking_queue \<Rightarrow> 'a blocking_queue" where
  "bk_push x q = q\<lparr>bk_Queue := x # bk_Queue q, bk_Notify := bk_Notify q + 1\<rparr>"

definition bk_emplace :: "('b \<Rightarrow> 'a) \<Rightarrow> 'b \<Rightarrow> 'a blocking_queue \<Rightarrow> 'a blocking_queue" where
  "bk_emplace construct args q = q\<lparr>bk_Queue := construct args # bk_Queue q, bk_Notify := bk_Notify q + 1\<rparr>"

definition bk_wake :: "nat \<Rightarrow> 'a blocking_queue \<Rightarrow> 'a blocking_queue" where
  "bk_wake t q = q\<lparr>bk_Blocked := remove1 t (bk_Blocked q), bk_Woken := t # bk_Woken q\<rparr>"

definition bk_notify :: "nat \<Rightarrow> 'a blocking_queue \<Rightarrow> 'a blocking_queue" where
  "bk_notify t q = (let q = q\<lparr>bk_Notify := bk_Notify q - 1\<rparr> in if bk_Blocked q = [] then q else bk_wake t q)"

text \<open>Moving the oldest element out.\<close>

definition bk_take :: "'a blocking_queue \<Rightarrow> 'a \<times> 'a blocking_queue" where
  "bk_take q = (last (bk_Queue q), q\<lparr>bk_Queue := butlast (bk_Queue q)\<rparr>)"

definition bk_tryPop :: "'a blocking_queue \<Rightarrow> 'a option \<times> 'a blocking_queue" where
  "bk_tryPop q = (if bk_Queue q = [] then (None, q) else let (x, q) = bk_take q in (Some x, q))"

text \<open>\<^verbatim>\<open>pop\<close> in thread \<open>t\<close> from the lock on: it takes an element, or it waits.\<close>

definition bk_pop :: "nat \<Rightarrow> 'a blocking_queue \<Rightarrow> 'a option \<times> 'a blocking_queue" where
  "bk_pop t q = (if bk_Queue q = [] then (None, q\<lparr>bk_Blocked := bk_Blocked q @ [t]\<rparr>)
     else let (x, q) = bk_take q in (Some x, q))"

text \<open>\<^verbatim>\<open>popWithSize\<close> also returns the number of elements that are left.\<close>

definition bk_popWithSize :: "nat \<Rightarrow> 'a blocking_queue \<Rightarrow> ('a \<times> u64) option \<times> 'a blocking_queue" where
  "bk_popWithSize t q = (if bk_Queue q = [] then (None, q\<lparr>bk_Blocked := bk_Blocked q @ [t]\<rparr>)
     else let (x, q) = bk_take q in (Some (x, of_nat (length (bk_Queue q))), q))"

text \<open>A thread that was woken tests the queue again.\<close>

definition bk_retest :: "nat \<Rightarrow> 'a blocking_queue \<Rightarrow> 'a option \<times> 'a blocking_queue" where
  "bk_retest t q = bk_pop t (q\<lparr>bk_Woken := remove1 t (bk_Woken q)\<rparr>)"

section \<open>All interleavings\<close>

datatype 'a bk_act = Bk_Push 'a | Bk_Notify nat | Bk_Pop nat | Bk_Retest nat | Bk_TryPop | Bk_Clear | Bk_Spurious nat

fun bk_enabled :: "'a bk_act \<Rightarrow> 'a blocking_queue \<Rightarrow> bool" where
  "bk_enabled (Bk_Notify t) q \<longleftrightarrow> bk_Notify q \<noteq> 0 \<and> (bk_Blocked q \<noteq> [] \<longrightarrow> t \<in> set (bk_Blocked q))"
| "bk_enabled (Bk_Retest t) q \<longleftrightarrow> t \<in> set (bk_Woken q)"
| "bk_enabled (Bk_Spurious t) q \<longleftrightarrow> t \<in> set (bk_Blocked q)"
| "bk_enabled a q \<longleftrightarrow> True"

text \<open>A step gives the elements that leave the queue, in the order of their insertion.\<close>

fun bk_perform :: "'a bk_act \<Rightarrow> 'a blocking_queue \<Rightarrow> 'a list \<times> 'a blocking_queue" where
  "bk_perform (Bk_Push x) q = ([], bk_push x q)"
| "bk_perform (Bk_Notify t) q = ([], bk_notify t q)"
| "bk_perform (Bk_Pop t) q = (let (r, q) = bk_pop t q in (somes [r], q))"
| "bk_perform (Bk_Retest t) q = (let (r, q) = bk_retest t q in (somes [r], q))"
| "bk_perform Bk_TryPop q = (let (r, q) = bk_tryPop q in (somes [r], q))"
| "bk_perform Bk_Clear q = (rev (bk_Queue q), bk_clear q)"
| "bk_perform (Bk_Spurious t) q = ([], bk_wake t q)"

fun bk_pushed :: "'a bk_act \<Rightarrow> 'a list" where
  "bk_pushed (Bk_Push x) = [x]"
| "bk_pushed a = []"

inductive bk_reach :: "'a list \<Rightarrow> 'a list \<Rightarrow> 'a blocking_queue \<Rightarrow> bool" where
  bk_reach_new: "bk_reach [] [] bk_new"
| bk_reach_step: "bk_reach ins outs q \<Longrightarrow> bk_enabled a q \<Longrightarrow> bk_perform a q = (xs, q') \<Longrightarrow> bk_reach (ins @ bk_pushed a) (outs @ xs) q'"

section \<open>No wakeup is lost\<close>

definition bk_inv :: "'a list \<Rightarrow> 'a list \<Rightarrow> 'a blocking_queue \<Rightarrow> bool" where
  "bk_inv ins outs q \<longleftrightarrow> ins = outs @ rev (bk_Queue q)
     \<and> (bk_Blocked q \<noteq> [] \<longrightarrow> length (bk_Queue q) \<le> length (bk_Woken q) + bk_Notify q)"

lemma rev_take: "xs \<noteq> [] \<Longrightarrow> rev xs = last xs # rev (butlast xs)"
  by (metis append_butlast_last_id rev.simps(2) rev_rev_ident rev_append append.simps rev_singleton_conv)

lemma bk_wake_inv: "bk_inv ins outs q \<Longrightarrow> bk_inv ins outs (bk_wake t q)"
  by (auto simp: bk_inv_def bk_wake_def dest: in_set_remove1)

text \<open>A thread that takes the oldest element, or that finds none and waits.\<close>

lemma bk_pop_cases:
  "bk_pop t q = (r, q') \<Longrightarrow> if bk_Queue q = [] then r = None \<and> q' = q\<lparr>bk_Blocked := bk_Blocked q @ [t]\<rparr>
     else r = Some (last (bk_Queue q)) \<and> q' = q\<lparr>bk_Queue := butlast (bk_Queue q)\<rparr>"
  by (auto simp: bk_pop_def bk_take_def split: if_splits)

lemma bk_pop_inv:
  assumes "ins = outs @ rev (bk_Queue q)" and "bk_Blocked q \<noteq> [] \<longrightarrow> length (bk_Queue q) \<le> Suc (length (bk_Woken q) + bk_Notify q)"
    and "bk_pop t q = (r, q')"
  shows "bk_inv ins (outs @ somes [r]) q'"
proof (cases "bk_Queue q = []")
  case True
  then show ?thesis using assms(1) bk_pop_cases [OF assms(3)] by (simp add: bk_inv_def)
next
  case False
  then show ?thesis using assms(1,2) bk_pop_cases [OF assms(3)] rev_take [OF False] by (auto simp: bk_inv_def)
qed

lemma bk_step_inv:
  assumes inv: "bk_inv ins outs q" and en: "bk_enabled a q" and run: "bk_perform a q = (xs, q')"
  shows "bk_inv (ins @ bk_pushed a) (outs @ xs) q'"
proof (cases a)
  case (Bk_Push x)
  then show ?thesis using inv run by (auto simp: bk_push_def bk_inv_def)
next
  case (Bk_Notify t)
  have "bk_inv ins outs (bk_notify t q)"
    using inv en Bk_Notify by (auto simp: bk_notify_def bk_wake_def bk_inv_def Let_def length_remove1)
  then show ?thesis using run Bk_Notify by simp
next
  case (Bk_Pop t)
  then obtain r where r: "bk_pop t q = (r, q')" "xs = somes [r]" using run by (auto split: prod.splits)
  have "bk_Blocked q \<noteq> [] \<longrightarrow> length (bk_Queue q) \<le> Suc (length (bk_Woken q) + bk_Notify q)" using inv by (auto simp: bk_inv_def)
  then show ?thesis using bk_pop_inv [OF _ _ r(1), of ins outs] inv r(2) Bk_Pop by (simp add: bk_inv_def)
next
  case (Bk_Retest t)
  let ?q = "q\<lparr>bk_Woken := remove1 t (bk_Woken q)\<rparr>"
  obtain r where r: "bk_pop t ?q = (r, q')" "xs = somes [r]" using run Bk_Retest by (auto simp: bk_retest_def split: prod.splits)
  have "t \<in> set (bk_Woken q)" using en Bk_Retest by simp
  then have "length (bk_Woken q) = Suc (length (bk_Woken ?q))" by (simp add: length_remove1) (metis Suc_pred length_pos_if_in_set)
  then show ?thesis using bk_pop_inv [OF _ _ r(1), of ins outs] inv r(2) Bk_Retest by (simp add: bk_inv_def)
next
  case Bk_TryPop
  then show ?thesis using inv run rev_take [of "bk_Queue q"]
    by (auto simp: bk_tryPop_def bk_take_def bk_inv_def split: if_splits)
next
  case Bk_Clear
  then show ?thesis using inv run by (auto simp: bk_clear_def bk_inv_def)
next
  case (Bk_Spurious t)
  then show ?thesis using bk_wake_inv [OF inv, of t] run by simp
qed

lemma bk_reach_inv: "bk_reach ins outs q \<Longrightarrow> bk_inv ins outs q"
proof (induction rule: bk_reach.induct)
  case bk_reach_new
  show ?case by (simp add: bk_inv_def bk_new_def)
qed (rule bk_step_inv)

text \<open>
  C13. No wakeup is lost. In every interleaving of threads that insert, take, try, clear and wait, with
  spurious wakeups and with any choice of the thread that is notified, the elements leave the queue in
  the order of their insertion. While threads wait, there are at least as many elements as threads that
  are about to test the queue or notifications that are still to come; so elements and waiting threads
  are never left together, and a thread that tests a queue with elements gets the oldest one.
\<close>

theorem blocking_queue_wakes:
  assumes "bk_reach ins outs q"
  shows "ins = outs @ rev (bk_Queue q)
     \<and> (bk_Blocked q \<noteq> [] \<longrightarrow> length (bk_Queue q) \<le> length (bk_Woken q) + bk_Notify q)
     \<and> (bk_Woken q = [] \<and> bk_Notify q = 0 \<longrightarrow> bk_Queue q = [] \<or> bk_Blocked q = [])
     \<and> (bk_Queue q \<noteq> [] \<longrightarrow> fst (bk_retest t q) = Some (ins ! length outs) \<and> fst (bk_pop t q) = Some (ins ! length outs)
          \<and> fst (bk_tryPop q) = Some (ins ! length outs)
          \<and> map_option fst (fst (bk_popWithSize t q)) = Some (ins ! length outs))"
proof -
  have inv: "bk_inv ins outs q" by (rule bk_reach_inv [OF assms])
  have "ins ! length outs = last (bk_Queue q)" if "bk_Queue q \<noteq> []"
    using inv rev_take [OF that] by (simp add: bk_inv_def nth_append)
  then show ?thesis using inv
    by (auto simp: bk_inv_def bk_retest_def bk_pop_def bk_tryPop_def bk_popWithSize_def bk_take_def)
qed

text \<open>Two threads wait, one element comes, and a third thread is faster.\<close>

definition demo_bk :: "nat bk_act list" where
  "demo_bk = [Bk_Pop 1, Bk_Pop 2, Bk_Push 7, Bk_Notify 2, Bk_TryPop, Bk_Retest 2, Bk_Push 8]"

fun bk_exec :: "'a bk_act list \<Rightarrow> 'a list \<times> 'a list \<times> 'a blocking_queue \<Rightarrow> ('a list \<times> 'a list \<times> 'a blocking_queue) option" where
  "bk_exec [] s = Some s"
| "bk_exec (a # as) (ins, outs, q) = (if bk_enabled a q
     then (let (xs, q) = bk_perform a q in bk_exec as (ins @ bk_pushed a, outs @ xs, q)) else None)"

lemma bk_exec_reach: "bk_reach ins outs q \<Longrightarrow> bk_exec as (ins, outs, q) = Some (ins', outs', q') \<Longrightarrow> bk_reach ins' outs' q'"
proof (induction as arbitrary: ins outs q)
  case (Cons a as)
  then show ?case using bk_reach_step [OF Cons.prems(1), of a] by (auto split: if_splits prod.splits)
qed simp

theorem blocking_queue_wakes_witness:
  "\<exists>q. bk_exec demo_bk ([], [], bk_new) = Some ([7, 8], [7], q) \<and> bk_Blocked q \<noteq> [] \<and> fst (bk_retest 1 q) = Some 8"
proof -
  let ?q = "\<lparr>bk_Queue = [8], bk_Blocked = [1, 2], bk_Woken = [], bk_Notify = 1\<rparr> :: nat blocking_queue"
  have e: "bk_exec demo_bk ([], [], bk_new) = Some ([7, 8], [7], ?q)" by code_simp
  have "bk_reach [7, 8] [7] ?q" by (rule bk_exec_reach [OF bk_reach_new e])
  from blocking_queue_wakes [OF this] have "fst (bk_retest 1 ?q) = Some 8" by simp
  then show ?thesis using e by auto
qed

end
