(* ===== verification/Exec_Queue.thy ===== *)
theory Exec_Queue
  imports Prelude
begin

text \<open>
  The default executor of a socket, \<^verbatim>\<open>coproto/Socket/Executor.h\<close>: the ring buffer of
  callbacks \<^verbatim>\<open>CBQueue\<close>, and the \<^verbatim>\<open>ExecutionQueue\<close> whose handles collect coroutines and
  functions under the socket's mutex and run them outside of it. A value of the callback type
  that was only default constructed (a null coroutine handle, an empty function) is \<open>None\<close>.
\<close>

section \<open>The callback ring buffer\<close>

record 'h cbqueue =
  mHead :: u64
  mTail :: u64
  mOnArray :: bool
  mArrayBacking :: "'h option list"
  mVecBacking :: "'h option list"

text \<open>\<^verbatim>\<open>mVec\<close> is a view of one of the two buffers.\<close>

definition mVec :: "'h cbqueue \<Rightarrow> 'h option list" where
  "mVec q = (if mOnArray q then mArrayBacking q else mVecBacking q)"

definition set_mVec :: "'h option list \<Rightarrow> 'h cbqueue \<Rightarrow> 'h cbqueue" where
  "set_mVec v q = (if mOnArray q then q\<lparr>mArrayBacking := v\<rparr> else q\<lparr>mVecBacking := v\<rparr>)"

definition cb_mask :: "'h cbqueue \<Rightarrow> u64" where
  "cb_mask q = of_nat (length (mVec q)) - 1"

definition cb_new :: "'h cbqueue" where
  "cb_new = \<lparr>mHead = 0, mTail = 0, mOnArray = True, mArrayBacking = replicate 8 None, mVecBacking = []\<rparr>"

text \<open>
  The move assignment: the contents of the source move into the target, and the source becomes an
  empty queue on its array. The first component is the target afterwards.
\<close>

definition cb_move :: "'h cbqueue \<Rightarrow> 'h cbqueue \<Rightarrow> 'h cbqueue \<times> 'h cbqueue" where
  "cb_move q src =
     (let q1 = q\<lparr>mHead := mHead src, mTail := mTail src\<rparr>;
          q2 = (if mOnArray src then q1\<lparr>mArrayBacking := mArrayBacking src, mOnArray := True\<rparr>
                else q1\<lparr>mVecBacking := mVecBacking src, mOnArray := False\<rparr>)
      in (q2, src\<lparr>mHead := 0, mTail := 0, mOnArray := True,
            mVecBacking := (if mOnArray src then mVecBacking src else [])\<rparr>))"

definition cb_size :: "'h cbqueue \<Rightarrow> u64" where
  "cb_size q = mHead q - mTail q"

text \<open>
  The copy loop of a full buffer. It runs from \<open>i\<close> to \<open>fin\<close> around the ring; the bound
  \<open>n\<close> is the number of slots, which the loop cannot exceed before it meets \<open>fin\<close>.
\<close>

fun cb_copy :: "nat \<Rightarrow> 'h option list \<Rightarrow> u64 \<Rightarrow> u64 \<Rightarrow> u64 \<Rightarrow> nat \<Rightarrow> 'h option list \<Rightarrow> 'h option list" where
  "cb_copy 0 src msk i fin j v = v"
| "cb_copy (Suc n) src msk i fin j v = (if i = fin then v
     else cb_copy n src msk ((i + 1) AND msk) fin (Suc j) (v[j := src ! unat i]))"

definition cb_grow :: "'h cbqueue \<Rightarrow> 'h cbqueue" where
  "cb_grow q = (let n = length (mVec q); msk = cb_mask q in
     if mHead q = mTail q + of_nat n \<and> n \<noteq> 0
     then q\<lparr>mVecBacking := cb_copy n (mVec q) msk (mTail q AND msk) (mHead q AND msk) 0
              (replicate (max (2 * n) 64) None),
            mOnArray := False, mHead := mHead q - mTail q, mTail := 0\<rparr>
     else q)"

text \<open>\<^verbatim>\<open>push_back\<close> computes the mask before it may replace the buffer.\<close>

definition cb_push_back :: "'h option \<Rightarrow> 'h cbqueue \<Rightarrow> 'h cbqueue" where
  "cb_push_back h q = (let msk = cb_mask q; q' = cb_grow q in
     set_mVec ((mVec q')[unat (mHead q' AND msk) := h]) q'\<lparr>mHead := mHead q' + 1\<rparr>)"

definition cb_pop_front :: "'h cbqueue \<Rightarrow> fault + 'h option \<times> 'h cbqueue" where
  "cb_pop_front q = (if cb_size q = 0 then Inl Runtime_Error
     else Inr (mVec q ! unat (mTail q AND cb_mask q), q\<lparr>mTail := mTail q + 1\<rparr>))"

text \<open>\<^verbatim>\<open>std::swap\<close>: a move construction and two move assignments.\<close>

definition cb_swap :: "'h cbqueue \<Rightarrow> 'h cbqueue \<Rightarrow> 'h cbqueue \<times> 'h cbqueue" where
  "cb_swap a b = (let (tmp, a1) = cb_move cb_new a; (a2, b1) = cb_move a1 b; (b2, _) = cb_move b1 tmp
     in (a2, b2))"

section \<open>Correctness of the ring buffer\<close>

definition cb_list :: "'h cbqueue \<Rightarrow> 'h option list" where
  "cb_list q = map (\<lambda>i. mVec q ! unat ((mTail q + of_nat i) AND cb_mask q)) [0..<unat (cb_size q)]"

definition cb_inv_k :: "nat \<Rightarrow> 'h cbqueue \<Rightarrow> bool" where
  "cb_inv_k k q \<longleftrightarrow> 3 \<le> k \<and> k < 63 \<and> length (mVec q) = 2 ^ k \<and> unat (cb_size q) \<le> 2 ^ k
     \<and> length (mArrayBacking q) = 8"

definition cb_inv :: "'h cbqueue \<Rightarrow> bool" where
  "cb_inv q \<longleftrightarrow> (\<exists>k. cb_inv_k k q)"

definition cb_full :: "'h cbqueue \<Rightarrow> bool" where
  "cb_full q \<longleftrightarrow> unat (cb_size q) = length (mVec q)"

lemma length_cb_list [simp]: "length (cb_list q) = unat (cb_size q)"
  by (simp add: cb_list_def)

lemma cb_list_Nil [simp]: "cb_list q = [] \<longleftrightarrow> cb_size q = 0"
  by (simp add: cb_list_def unat_eq_0)

lemma cb_new_inv: "cb_inv cb_new" and cb_new_list [simp]: "cb_list cb_new = []"
  by (auto simp: cb_inv_def cb_inv_k_def cb_new_def mVec_def cb_size_def cb_list_def intro!: exI [of _ 3])

lemma mVec_simps [simp]:
  "mVec (set_mVec v q) = v" "mVec (q\<lparr>mHead := h\<rparr>) = mVec q" "mVec (q\<lparr>mTail := t\<rparr>) = mVec q"
  "mHead (set_mVec v q) = mHead q" "mTail (set_mVec v q) = mTail q"
  "cb_mask (q\<lparr>mHead := h\<rparr>) = cb_mask q" "cb_mask (q\<lparr>mTail := t\<rparr>) = cb_mask q"
  by (auto simp: mVec_def set_mVec_def cb_mask_def)

lemma cb_mask_wf: "length (mVec q) = 2 ^ k \<Longrightarrow> cb_mask q = mask k"
  by (simp add: cb_mask_def mask_eq_exp_minus_1)

lemma cb_index:
  assumes "length (mVec q) = 2 ^ k" and "k < 64"
  shows "unat ((w + of_nat i) AND cb_mask q) = (unat w + i) mod 2 ^ k"
  using assms unat_mask_index_add [of k w i] by (simp add: cb_mask_wf)

lemma cb_full_iff:
  assumes "cb_inv_k k q"
  shows "mHead q = mTail q + of_nat (length (mVec q)) \<longleftrightarrow> cb_full q"
proof -
  have len: "length (mVec q) = 2 ^ k" "k < 64" using assms by (auto simp: cb_inv_k_def)
  have "mHead q = mTail q + 2 ^ k \<longleftrightarrow> cb_size q = 2 ^ k"
    by (auto simp: cb_size_def diff_eq_eq add.commute)
  also have "\<dots> \<longleftrightarrow> unat (cb_size q) = 2 ^ k"
    using len unat_pow2 [of k] by (simp add: word_unat_eq_iff)
  finally show ?thesis using len by (simp add: cb_full_def)
qed

lemma unat_cb_size_Suc:
  assumes "cb_inv_k k q"
  shows "unat (mHead q + 1 - mTail q) = Suc (unat (cb_size q))"
proof -
  have "(2::nat) ^ k < 2 ^ 63" using assms by (intro power_strict_increasing) (auto simp: cb_inv_k_def)
  then have "unat (cb_size q) + 1 < 2 ^ 64" using assms by (auto simp: cb_inv_k_def)
  then have "unat (cb_size q + 1) = Suc (unat (cb_size q))" by (simp add: unat_word_ariths)
  moreover have "mHead q + 1 - mTail q = cb_size q + 1" by (simp add: cb_size_def)
  ultimately show ?thesis by (simp only:)
qed

lemma cb_push_room:
  assumes inv: "cb_inv_k k q" and room: "\<not> cb_full q"
  shows "cb_inv_k k (cb_push_back h q)" and "cb_list (cb_push_back h q) = cb_list q @ [h]"
proof -
  let ?n = "unat (cb_size q)"
  have len: "length (mVec q) = 2 ^ k" "k < 64" "?n < 2 ^ k"
    using inv room by (auto simp: cb_inv_k_def cb_full_def)
  have "cb_grow q = q" using cb_full_iff [OF inv] room by (simp add: cb_grow_def Let_def)
  then have p: "cb_push_back h q = set_mVec ((mVec q)[unat (mHead q AND cb_mask q) := h]) q\<lparr>mHead := mHead q + 1\<rparr>"
    by (simp add: cb_push_back_def Let_def)
  have size: "unat (cb_size (cb_push_back h q)) = Suc ?n"
    using unat_cb_size_Suc [OF inv] by (simp add: cb_size_def p)
  have msk: "cb_mask (cb_push_back h q) = cb_mask q" by (simp add: p cb_mask_def)
  have vec: "mVec (cb_push_back h q) = (mVec q)[unat (mHead q AND cb_mask q) := h]" by (simp add: p)
  have arr: "length (mArrayBacking (cb_push_back h q)) = 8"
    using inv by (simp add: p set_mVec_def cb_inv_k_def mVec_def)
  then show "cb_inv_k k (cb_push_back h q)"
    using inv len size by (simp add: cb_inv_k_def vec)
  have hd: "mHead q = mTail q + of_nat ?n" by (simp add: cb_size_def)
  have hd_index: "unat (mHead q AND cb_mask q) = (unat (mTail q) + ?n) mod 2 ^ k"
    unfolding hd by (rule cb_index [OF len(1,2)])
  have "mTail (cb_push_back h q) = mTail q" by (simp add: p)
  moreover have "(mVec q)[unat (mHead q AND cb_mask q) := h] ! unat ((mTail q + of_nat i) AND cb_mask q)
      = (if i = ?n then h else mVec q ! unat ((mTail q + of_nat i) AND cb_mask q))" if "i \<le> ?n" for i
  proof -
    have "(unat (mTail q) + ?n) mod 2 ^ k = (unat (mTail q) + i) mod 2 ^ k \<longleftrightarrow> i = ?n"
      using mod_add_inj [of i "2 ^ k" ?n "unat (mTail q)"] that len(3) by auto
    then show ?thesis by (auto simp: hd_index cb_index [OF len(1,2)] nth_list_update len(1))
  qed
  moreover from this [of ?n] have "(mVec q)[unat (mHead q AND cb_mask q) := h] ! unat ((mTail q + cb_size q) AND cb_mask q) = h"
    by simp
  ultimately show "cb_list (cb_push_back h q) = cb_list q @ [h]"
    by (simp add: cb_list_def size msk vec)
qed

lemma cb_pop_front_correct:
  assumes inv: "cb_inv_k k q" and list: "cb_list q = x # xs"
  shows "\<exists>q'. cb_pop_front q = Inr (x, q') \<and> cb_inv_k k q' \<and> cb_list q' = xs"
proof -
  let ?q = "q\<lparr>mTail := mTail q + 1\<rparr>"
  have sz: "cb_size q \<noteq> 0" using list by (metis cb_list_Nil list.distinct(1))
  have "cb_size ?q = cb_size q - 1" by (simp add: cb_size_def)
  then have size: "unat (cb_size q) = Suc (unat (cb_size ?q))"
    using sz by (simp add: unat_minus_one unat_gt_0)
  have "cb_list q = mVec q ! unat (mTail q AND cb_mask q) # cb_list ?q"
    unfolding cb_list_def size by (simp add: map_upt_Suc add.assoc del: upt_Suc)
  then have "x = mVec q ! unat (mTail q AND cb_mask q)" "cb_list ?q = xs" using list by simp_all
  moreover have "cb_inv_k k ?q" using inv size by (simp add: cb_inv_k_def)
  ultimately show ?thesis using sz by (simp add: cb_pop_front_def)
qed

text \<open>
  A full buffer: the copy loop starts where it ends, so nothing is copied, and the mask is that of
  the old buffer, so the new handle is stored in slot 0.
\<close>

lemma unat_cb_full:
  assumes inv: "cb_inv_k k q" and full: "cb_full q"
  shows "cb_size q = 2 ^ k" and "cb_push_back h q = q\<lparr>mVecBacking := (replicate (max (2 * 2 ^ k) 64) None)[0 := h],
     mOnArray := False, mHead := 2 ^ k + 1, mTail := 0\<rparr>"
proof -
  have len: "length (mVec q) = 2 ^ k" "k < 64" using inv by (auto simp: cb_inv_k_def)
  have hd: "mHead q = mTail q + 2 ^ k" using cb_full_iff [OF inv] full len by simp
  then show size: "cb_size q = 2 ^ k" by (simp add: cb_size_def)
  have "unat (mHead q AND cb_mask q) = unat (mTail q AND cb_mask q)"
    using cb_index [OF len, of "mTail q" "2 ^ k"] cb_index [OF len, of "mTail q" 0] by (simp add: hd)
  then have same: "mHead q AND cb_mask q = mTail q AND cb_mask q" by (simp only: word_unat_eq_iff)
  have copy: "cb_copy n src m i i j v = v" for n src m i j and v :: "'a option list"
    by (cases n) auto
  have zero: "(2 ^ k :: u64) AND cb_mask q = 0"
    by (simp add: cb_mask_wf [OF len(1)] mask_eq_exp_minus_1 pow2_and_pred)
  have diff: "mHead q - mTail q = 2 ^ k" using size by (simp add: cb_size_def)
  have "cb_grow q = q\<lparr>mVecBacking := replicate (max (2 * 2 ^ k) 64) None, mOnArray := False, mHead := 2 ^ k, mTail := 0\<rparr>"
    unfolding cb_grow_def Let_def same copy diff using hd len by simp
  then show "cb_push_back h q = q\<lparr>mVecBacking := (replicate (max (2 * 2 ^ k) 64) None)[0 := h],
     mOnArray := False, mHead := 2 ^ k + 1, mTail := 0\<rparr>"
    by (simp add: cb_push_back_def Let_def zero set_mVec_def mVec_def)
qed

lemma cb_push_full:
  assumes inv: "cb_inv_k k q" and full: "cb_full q" and small: "k < 62"
  shows "cb_inv (cb_push_back h q)"
    and "cb_list (cb_push_back h q) = h # replicate (length (mVec q)) None"
proof -
  let ?q = "cb_push_back h q"
  let ?k = "max (Suc k) 6"
  have q: "mVec ?q = (replicate (max (2 * 2 ^ k) 64) None)[0 := h]" "cb_size ?q = 2 ^ k + 1" "mTail ?q = 0"
      "mArrayBacking ?q = mArrayBacking q"
    using unat_cb_full(2) [OF inv full, of h] by (simp_all add: mVec_def cb_size_def)
  have pow: "max (2 * 2 ^ k) 64 = (2::nat) ^ ?k"
  proof (cases "Suc k \<le> 6")
    case True
    then have "(2::nat) ^ Suc k \<le> 2 ^ 6" by (intro power_increasing) auto
    then show ?thesis using True by (simp add: max_def)
  next
    case False
    then have "(2::nat) ^ 6 \<le> 2 ^ Suc k" by (intro power_increasing) auto
    then show ?thesis using False by (simp add: max_def)
  qed
  have len: "length (mVec ?q) = 2 ^ ?k" by (simp add: q(1) pow)
  have lt: "(2::nat) ^ k < 2 ^ 62" using small by (intro power_strict_increasing) auto
  have up: "unat (2 ^ k :: u64) = 2 ^ k" using small by (intro unat_pow2) simp
  have sz: "unat (cb_size ?q) = Suc (2 ^ k)"
    using lt by (simp add: q(2) unat_word_ariths up)
  have "(2::nat) ^ Suc k \<le> 2 ^ ?k" by (intro power_increasing) auto
  moreover have "1 \<le> (2::nat) ^ k" by simp
  ultimately have fit: "Suc (2 ^ k) \<le> (2::nat) ^ ?k" unfolding power_Suc by linarith
  show "cb_inv ?q"
    using inv len fit sz small q(4) by (auto simp: cb_inv_def cb_inv_k_def intro!: exI [of _ ?k])
  have k64: "?k < 64" using small by simp
  have "cb_list ?q = map (\<lambda>i. mVec ?q ! (i mod 2 ^ ?k)) [0..<Suc (2 ^ k)]"
    using cb_index [OF len k64, of 0] by (simp only: cb_list_def sz q(3) unat_0 add_0 cong: map_cong)
  also have "\<dots> = map (\<lambda>i. if i = 0 then h else None) [0..<Suc (2 ^ k)]"
  proof (rule map_cong [OF refl])
    fix i assume "i \<in> set [0..<Suc ((2::nat) ^ k)]"
    then have "i < Suc (2 ^ k)" by (simp only: set_upt atLeastLessThan_iff)
    then have "i < 2 ^ ?k" using fit by (rule less_le_trans)
    then show "mVec ?q ! (i mod 2 ^ ?k) = (if i = 0 then h else None)"
      by (auto simp: q(1) pow)
  qed
  also have "\<dots> = h # replicate (2 ^ k) None"
    by (simp add: map_upt_Suc del: upt_Suc) (simp add: map_replicate_const)
  finally show "cb_list ?q = h # replicate (length (mVec q)) None"
    using inv by (simp add: cb_inv_k_def)
qed

lemma cb_move_correct:
  assumes "cb_inv src" and "length (mArrayBacking q) = 8" and "cb_move q src = (q', src')"
  shows "cb_inv q'" "cb_list q' = cb_list src" "cb_inv src'" "cb_list src' = []"
  using assms
  by (auto simp: cb_inv_def cb_inv_k_def cb_move_def Let_def cb_list_def cb_size_def cb_mask_def mVec_def
      split: if_splits intro: exI [of _ 3])

lemma cb_inv_array: "cb_inv q \<Longrightarrow> length (mArrayBacking q) = 8"
  by (auto simp: cb_inv_def cb_inv_k_def)

lemma cb_swap_correct:
  assumes a: "cb_inv a" and b: "cb_inv b" and sw: "cb_swap a b = (a', b')"
  shows "cb_inv a'" "cb_inv b'" "cb_list a' = cb_list b" "cb_list b' = cb_list a"
proof -
  obtain tmp a1 where 1: "cb_move cb_new a = (tmp, a1)" by fastforce
  obtain a2 b1 where 2: "cb_move a1 b = (a2, b1)" by fastforce
  obtain b2 t1 where 3: "cb_move b1 tmp = (b2, t1)" by fastforce
  have new: "length (mArrayBacking cb_new) = 8" by (simp add: cb_new_def)
  note m1 = cb_move_correct [OF a new 1]
  note m2 = cb_move_correct [OF b cb_inv_array [OF m1(3)] 2]
  note m3 = cb_move_correct [OF m1(1) cb_inv_array [OF m2(3)] 3]
  have "a' = a2" "b' = b2" using sw 1 2 3 by (simp_all add: cb_swap_def)
  then show "cb_inv a'" "cb_inv b'" "cb_list a' = cb_list b" "cb_list b' = cb_list a"
    using m1 m2 m3 by simp_all
qed

section \<open>The execution queue and its handles\<close>

text \<open>
  The shared part of an \<^verbatim>\<open>ExecutionQueue\<close> and a \<^verbatim>\<open>Handle\<close>, which a socket operation
  acquires while it holds the socket's mutex, fills, and runs after releasing the mutex. An
  \<^verbatim>\<open>ExecutorRef\<close> is \<open>None\<close> when no executor was attached to the operation.
\<close>

record ('h, 'f) exec =
  mHasRunner :: bool
  eCBs :: "'h cbqueue"
  eFns :: "'f cbqueue"

record ('x, 'h, 'f) handle =
  mAquired :: bool
  mXCBs :: "('x \<times> 'h) cbqueue"
  hCBs :: "'h cbqueue"
  hFns :: "'f cbqueue"

definition exec_new :: "('h, 'f) exec" where
  "exec_new = \<lparr>mHasRunner = False, eCBs = cb_new, eFns = cb_new\<rparr>"

definition acquire :: "('h, 'f) exec \<Rightarrow> ('x, 'h, 'f) handle \<times> ('h, 'f) exec" where
  "acquire ex = (let h = \<lparr>mAquired = False, mXCBs = cb_new, hCBs = cb_new, hFns = cb_new\<rparr> in
     if \<not> mHasRunner ex then (h\<lparr>mAquired := True\<rparr>, ex\<lparr>mHasRunner := True\<rparr>) else (h, ex))"

definition push_back_fn :: "'f \<Rightarrow> ('x, 'h, 'f) handle \<times> ('h, 'f) exec \<Rightarrow> ('x, 'h, 'f) handle \<times> ('h, 'f) exec" where
  "push_back_fn f hx = (if mAquired (fst hx)
     then ((fst hx)\<lparr>hFns := cb_push_back (Some f) (hFns (fst hx))\<rparr>, snd hx)
     else (fst hx, (snd hx)\<lparr>eFns := cb_push_back (Some f) (eFns (snd hx))\<rparr>))"

definition handle_push_back :: "'h \<Rightarrow> 'x option \<Rightarrow> ('x, 'h, 'f) handle \<times> ('h, 'f) exec
    \<Rightarrow> ('x, 'h, 'f) handle \<times> ('h, 'f) exec" where
  "handle_push_back h ref hx = (case ref of
       Some x \<Rightarrow> ((fst hx)\<lparr>mXCBs := cb_push_back (Some (x, h)) (mXCBs (fst hx))\<rparr>, snd hx)
     | None \<Rightarrow> if mAquired (fst hx)
         then ((fst hx)\<lparr>hCBs := cb_push_back (Some h) (hCBs (fst hx))\<rparr>, snd hx)
         else (fst hx, (snd hx)\<lparr>eCBs := cb_push_back (Some h) (eCBs (snd hx))\<rparr>))"

text \<open>
  Running the callbacks. Resuming a coroutine, calling a function and scheduling on a foreign
  executor are parameters that act on the shared part and on the rest of the world; they may
  acquire the queue again and add callbacks. The loop over the handle's own buffers ends because
  nothing else can fill them.
\<close>

lemma cb_pop_size: "cb_pop_front q = Inr (x, q') \<Longrightarrow> unat (cb_size q') < unat (cb_size q)"
proof -
  assume "cb_pop_front q = Inr (x, q')"
  then have q: "cb_size q \<noteq> 0" "q' = q\<lparr>mTail := mTail q + 1\<rparr>"
    by (auto simp: cb_pop_front_def split: if_splits)
  then have "cb_size q' = cb_size q - 1" by (simp add: cb_size_def)
  then show "unat (cb_size q') < unat (cb_size q)" using q(1) by (simp add: unat_minus_one unat_gt_0)
qed

function run_xcbs :: "('x \<Rightarrow> 'h \<Rightarrow> 'w \<Rightarrow> fault + 'w) \<Rightarrow> ('x \<times> 'h) cbqueue \<Rightarrow> 'w
    \<Rightarrow> fault + ('x \<times> 'h) cbqueue \<times> 'w" where
  "run_xcbs sched q w = (if cb_size q = 0 then Inr (q, w)
     else case cb_pop_front q of Inl e \<Rightarrow> Inl e
       | Inr (None, q') \<Rightarrow> Inl Bad_Pointer
       | Inr (Some (x, h), q') \<Rightarrow> bindR (sched x h w) (run_xcbs sched q'))"
  by pat_completeness auto

termination run_xcbs
  by (relation "measure (\<lambda>(_, q, _). unat (cb_size q))") (auto dest: cb_pop_size)

function run_own :: "('h \<Rightarrow> 'w \<Rightarrow> fault + 'w) \<Rightarrow> ('f \<Rightarrow> 'w \<Rightarrow> fault + 'w) \<Rightarrow> 'h cbqueue \<Rightarrow> 'f cbqueue
    \<Rightarrow> 'h option \<Rightarrow> 'w \<Rightarrow> fault + 'h cbqueue \<times> 'f cbqueue \<times> 'h option \<times> 'w" where
  "run_own resume call cbs fns nx w =
     (if cb_size fns \<noteq> 0 then (case cb_pop_front fns of Inl e \<Rightarrow> Inl e
          | Inr (None, fns') \<Rightarrow> Inl Bad_Pointer
          | Inr (Some f, fns') \<Rightarrow> bindR (call f w) (run_own resume call cbs fns' nx))
      else if cb_size cbs \<noteq> 0 then (case cb_pop_front cbs of Inl e \<Rightarrow> Inl e
          | Inr (h, cbs') \<Rightarrow> bindR (case nx of None \<Rightarrow> Inr w | Some n \<Rightarrow> resume n w)
               (run_own resume call cbs' fns h))
      else Inr (cbs, fns, nx, w))"
  by pat_completeness auto

termination run_own
  by (relation "measure (\<lambda>(_, _, cbs, fns, _, _). unat (cb_size cbs) + unat (cb_size fns))")
    (auto dest: cb_pop_size)

declare run_xcbs.simps [simp del] run_own.simps [simp del]

text \<open>
  The critical section of \<^verbatim>\<open>runReturnLast\<close>: swap the shared buffers with the handle's empty
  ones, and stop being the runner if they were empty, too.
\<close>

definition take_shared :: "('x, 'h, 'f) handle \<times> ('h, 'f) exec \<Rightarrow> ('x, 'h, 'f) handle \<times> ('h, 'f) exec" where
  "take_shared hx = (let ex = snd hx; c = cb_swap (eCBs ex) (hCBs (fst hx)); f = cb_swap (eFns ex) (hFns (fst hx));
        ex = ex\<lparr>eCBs := fst c, eFns := fst f\<rparr>; hnd = (fst hx)\<lparr>hCBs := snd c, hFns := snd f\<rparr>
      in if cb_size (hCBs hnd) = 0 \<and> cb_size (hFns hnd) = 0
         then (hnd\<lparr>mAquired := False\<rparr>, ex\<lparr>mHasRunner := False\<rparr>) else (hnd, ex))"

text \<open>
  The outer loop of \<^verbatim>\<open>runReturnLast\<close> may go on as long as callbacks add callbacks, so it has
  fuel; \<open>None\<close> means that the fuel is used up. The world of the callbacks is the shared part
  together with everything else.
\<close>

fun run_loop :: "nat \<Rightarrow> ('h \<Rightarrow> ('h, 'f) exec \<times> 'w \<Rightarrow> fault + ('h, 'f) exec \<times> 'w)
    \<Rightarrow> ('f \<Rightarrow> ('h, 'f) exec \<times> 'w \<Rightarrow> fault + ('h, 'f) exec \<times> 'w)
    \<Rightarrow> ('x, 'h, 'f) handle \<Rightarrow> 'h option \<Rightarrow> ('h, 'f) exec \<times> 'w
    \<Rightarrow> (fault + ('x, 'h, 'f) handle \<times> 'h option \<times> ('h, 'f) exec \<times> 'w) option" where
  "run_loop 0 resume call hnd nx s = None"
| "run_loop (Suc n) resume call hnd nx s = (if \<not> mAquired hnd then Some (Inr (hnd, nx, s))
     else
       let (hnd, ex) = (if cb_size (hCBs hnd) = 0 \<and> cb_size (hFns hnd) = 0
           then take_shared (hnd, fst s) else (hnd, fst s))
       in case run_own resume call (hCBs hnd) (hFns hnd) nx (ex, snd s) of
            Inl e \<Rightarrow> Some (Inl e)
          | Inr (cbs, fns, nx, s) \<Rightarrow> run_loop n resume call (hnd\<lparr>hCBs := cbs, hFns := fns\<rparr>) nx s)"

declare run_loop.simps(2) [simp del]

definition runReturnLast :: "nat \<Rightarrow> ('x \<Rightarrow> 'h \<Rightarrow> ('h, 'f) exec \<times> 'w \<Rightarrow> fault + ('h, 'f) exec \<times> 'w)
    \<Rightarrow> ('h \<Rightarrow> ('h, 'f) exec \<times> 'w \<Rightarrow> fault + ('h, 'f) exec \<times> 'w)
    \<Rightarrow> ('f \<Rightarrow> ('h, 'f) exec \<times> 'w \<Rightarrow> fault + ('h, 'f) exec \<times> 'w)
    \<Rightarrow> ('x, 'h, 'f) handle \<Rightarrow> ('h, 'f) exec \<times> 'w
    \<Rightarrow> (fault + ('x, 'h, 'f) handle \<times> 'h option \<times> ('h, 'f) exec \<times> 'w) option" where
  "runReturnLast n sched resume call hnd s = (case run_xcbs sched (mXCBs hnd) s of
       Inl e \<Rightarrow> Some (Inl e)
     | Inr (x, s') \<Rightarrow> run_loop n resume call (hnd\<lparr>mXCBs := x\<rparr>) None s')"

text \<open>\<^verbatim>\<open>run\<close> also resumes the coroutine that \<^verbatim>\<open>runReturnLast\<close> returns.\<close>

definition handle_run :: "nat \<Rightarrow> ('x \<Rightarrow> 'h \<Rightarrow> ('h, 'f) exec \<times> 'w \<Rightarrow> fault + ('h, 'f) exec \<times> 'w)
    \<Rightarrow> ('h \<Rightarrow> ('h, 'f) exec \<times> 'w \<Rightarrow> fault + ('h, 'f) exec \<times> 'w)
    \<Rightarrow> ('f \<Rightarrow> ('h, 'f) exec \<times> 'w \<Rightarrow> fault + ('h, 'f) exec \<times> 'w)
    \<Rightarrow> ('x, 'h, 'f) handle \<Rightarrow> ('h, 'f) exec \<times> 'w
    \<Rightarrow> (fault + ('x, 'h, 'f) handle \<times> ('h, 'f) exec \<times> 'w) option" where
  "handle_run n sched resume call hnd s = (case runReturnLast n sched resume call hnd s of
       None \<Rightarrow> None
     | Some r \<Rightarrow> Some (bindR r (\<lambda>(hnd, nx, s). case nx of None \<Rightarrow> Inr (hnd, s)
          | Some h \<Rightarrow> bindR (resume h s) (\<lambda>s. Inr (hnd, s)))))"

section \<open>What a run executes\<close>

text \<open>Callbacks that only leave a trace.\<close>

datatype ('x, 'h, 'f) event = Scheduled 'x 'h | Resumed 'h | Called 'f

definition log_sched :: "'x \<Rightarrow> 'h \<Rightarrow> 's \<times> ('x, 'h, 'f) event list \<Rightarrow> fault + 's \<times> ('x, 'h, 'f) event list" where
  "log_sched x h s = Inr (fst s, snd s @ [Scheduled x h])"

definition log_resume :: "'h \<Rightarrow> 's \<times> ('x, 'h, 'f) event list \<Rightarrow> fault + 's \<times> ('x, 'h, 'f) event list" where
  "log_resume h s = Inr (fst s, snd s @ [Resumed h])"

definition log_call :: "'f \<Rightarrow> 's \<times> ('x, 'h, 'f) event list \<Rightarrow> fault + 's \<times> ('x, 'h, 'f) event list" where
  "log_call f s = Inr (fst s, snd s @ [Called f])"

definition last_opt :: "'a list \<Rightarrow> 'a option" where
  "last_opt xs = (if xs = [] then None else Some (last xs))"

fun opt_list :: "'a option \<Rightarrow> 'a list" where
  "opt_list None = []"
| "opt_list (Some x) = [x]"

definition holds :: "'h cbqueue \<Rightarrow> 'h list \<Rightarrow> bool" where
  "holds q xs \<longleftrightarrow> cb_inv q \<and> cb_list q = map Some xs"

lemma holds_new: "holds cb_new []"
  by (simp add: holds_def cb_new_inv)

lemma holds_Nil: "holds q [] \<Longrightarrow> cb_size q = 0"
  by (auto simp: holds_def)

lemma holds_Cons:
  assumes "holds q (x # xs)"
  shows "cb_size q \<noteq> 0 \<and> (\<exists>q'. cb_pop_front q = Inr (Some x, q') \<and> holds q' xs)"
proof -
  obtain k where k: "cb_inv_k k q" "cb_list q = Some x # map Some xs"
    using assms by (auto simp: holds_def cb_inv_def)
  then have "cb_size q \<noteq> 0" by (metis cb_list_Nil list.distinct(1))
  then show ?thesis using cb_pop_front_correct [OF k] by (auto simp: holds_def cb_inv_def)
qed

lemma holds_size: "holds q xs \<Longrightarrow> cb_size q = 0 \<longleftrightarrow> xs = []"
  by (cases xs) (auto dest: holds_Nil holds_Cons)

lemma run_xcbs_log:
  "holds q xs \<Longrightarrow> \<exists>q'. run_xcbs log_sched q (ex, w) = Inr (q', ex, w @ map (\<lambda>(x, h). Scheduled x h) xs) \<and> holds q' []"
proof (induction xs arbitrary: q w)
  case Nil
  then show ?case using holds_Nil [OF Nil] by (simp add: run_xcbs.simps)
next
  case (Cons a xs)
  then obtain q' where c: "cb_size q \<noteq> 0" "cb_pop_front q = Inr (Some a, q')" "holds q' xs"
    using holds_Cons [OF Cons.prems] by blast
  then have "run_xcbs log_sched q (ex, w) = run_xcbs log_sched q' (ex, w @ [Scheduled (fst a) (snd a)])"
    by (subst run_xcbs.simps) (simp add: log_sched_def split: prod.split)
  then show ?case
    using Cons.IH [OF c(3), of "w @ [Scheduled (fst a) (snd a)]"] by (simp add: split_beta)
qed

lemma run_own_cbs_log:
  "holds cbs C \<Longrightarrow> holds fns [] \<Longrightarrow> \<exists>cbs'. run_own log_resume log_call cbs fns nx (ex, w)
     = Inr (cbs', fns, last_opt (opt_list nx @ C), ex, w @ map Resumed (butlast (opt_list nx @ C))) \<and> holds cbs' []"
proof (induction C arbitrary: cbs nx w)
  case Nil
  then show ?case
    using holds_Nil [OF Nil(1)] holds_Nil [OF Nil(2)]
    by (cases nx; subst run_own.simps) (simp_all add: last_opt_def)
next
  case (Cons h C)
  then obtain cbs' where c: "cb_size cbs \<noteq> 0" "cb_pop_front cbs = Inr (Some h, cbs')" "holds cbs' C"
    using holds_Cons [OF Cons.prems(1)] by blast
  have fns: "cb_size fns = 0" by (rule holds_Nil [OF Cons.prems(2)])
  have "run_own log_resume log_call cbs fns nx (ex, w)
      = run_own log_resume log_call cbs' fns (Some h) (ex, w @ map Resumed (opt_list nx))"
    using c fns by (subst run_own.simps) (cases nx, simp_all add: log_resume_def)
  then show ?case
    using Cons.IH [OF c(3) Cons.prems(2), of "Some h" "w @ map Resumed (opt_list nx)"]
    by (cases nx) (simp_all add: last_opt_def)
qed

lemma run_own_log:
  "holds cbs C \<Longrightarrow> holds fns F \<Longrightarrow> \<exists>cbs' fns'. run_own log_resume log_call cbs fns nx (ex, w)
     = Inr (cbs', fns', last_opt (opt_list nx @ C), ex,
         w @ map Called F @ map Resumed (butlast (opt_list nx @ C))) \<and> holds cbs' [] \<and> holds fns' []"
proof (induction F arbitrary: fns w)
  case Nil
  then show ?case using run_own_cbs_log [OF Nil, of nx ex w] by auto
next
  case (Cons f F)
  then obtain fns' where c: "cb_size fns \<noteq> 0" "cb_pop_front fns = Inr (Some f, fns')" "holds fns' F"
    using holds_Cons [OF Cons.prems(2)] by blast
  then have "run_own log_resume log_call cbs fns nx (ex, w)
      = run_own log_resume log_call cbs fns' nx (ex, w @ [Called f])"
    by (subst run_own.simps) (simp add: log_call_def)
  then show ?case
    using Cons.IH [OF Cons.prems(1) c(3), of "w @ [Called f]"] by simp
qed

lemma take_shared_holds:
  assumes "holds (hCBs hnd) []" and "holds (hFns hnd) []" and "holds (eCBs ex) C" and "holds (eFns ex) F"
    and ts: "take_shared (hnd, ex) = (hnd', ex')"
  shows "holds (hCBs hnd') C \<and> holds (hFns hnd') F \<and> holds (eCBs ex') [] \<and> holds (eFns ex') []
     \<and> (if C = [] \<and> F = [] then \<not> mAquired hnd' \<and> \<not> mHasRunner ex'
        else mAquired hnd' = mAquired hnd \<and> mHasRunner ex' = mHasRunner ex)"
proof -
  obtain a b where ab: "cb_swap (eCBs ex) (hCBs hnd) = (a, b)" by fastforce
  obtain c d where cd: "cb_swap (eFns ex) (hFns hnd) = (c, d)" by fastforce
  have "holds a []" "holds b C"
    using cb_swap_correct [OF _ _ ab] assms by (auto simp: holds_def)
  moreover have "holds c []" "holds d F"
    using cb_swap_correct [OF _ _ cd] assms by (auto simp: holds_def)
  moreover have "cb_size b = 0 \<longleftrightarrow> C = []" "cb_size d = 0 \<longleftrightarrow> F = []"
    using calculation holds_size by blast+
  ultimately show ?thesis
    using ts by (auto simp: take_shared_def ab cd Let_def split: if_splits)
qed

definition idle :: "('x, 'h, 'f) handle \<Rightarrow> ('h, 'f) exec \<Rightarrow> bool" where
  "idle hnd ex \<longleftrightarrow> \<not> mAquired hnd \<and> \<not> mHasRunner ex \<and> holds (hCBs hnd) [] \<and> holds (hFns hnd) []
     \<and> holds (eCBs ex) [] \<and> holds (eFns ex) []"

text \<open>
  One round of the outer loop on a handle whose own buffers hold \<open>C\<close> and \<open>F\<close> and a shared
  part that holds \<open>C'\<close> and \<open>F'\<close>.
\<close>

lemma run_loop_log:
  assumes "mAquired hnd" "holds (hCBs hnd) C" "holds (hFns hnd) F" "holds (eCBs ex) C'" "holds (eFns ex) F'"
    and "C \<noteq> [] \<or> F \<noteq> []"
  obtains hnd' where "run_loop (Suc n) log_resume log_call hnd nx (ex, w)
        = run_loop n log_resume log_call hnd' (last_opt (opt_list nx @ C))
            (ex, w @ map Called F @ map Resumed (butlast (opt_list nx @ C)))"
    "mAquired hnd'" "holds (hCBs hnd') []" "holds (hFns hnd') []"
proof -
  obtain cbs' fns' where o: "run_own log_resume log_call (hCBs hnd) (hFns hnd) nx (ex, w)
      = Inr (cbs', fns', last_opt (opt_list nx @ C), ex, w @ map Called F @ map Resumed (butlast (opt_list nx @ C)))"
      "holds cbs' []" "holds fns' []"
    using run_own_log [OF assms(2,3), of nx ex w] by blast
  have "cb_size (hCBs hnd) \<noteq> 0 \<or> cb_size (hFns hnd) \<noteq> 0"
    using assms(6) holds_size [OF assms(2)] holds_size [OF assms(3)] by blast
  then show thesis
    using o assms(1) by (intro that [of "hnd\<lparr>hCBs := cbs', hFns := fns'\<rparr>"]) (auto simp: run_loop.simps)
qed

lemma run_loop_shared:
  assumes "mAquired hnd" "holds (hCBs hnd) []" "holds (hFns hnd) []" "holds (eCBs ex) C'" "holds (eFns ex) F'"
  obtains hnd' ex' where "run_loop (Suc n) log_resume log_call hnd nx (ex, w)
        = run_loop n log_resume log_call hnd' (last_opt (opt_list nx @ C'))
            (ex', w @ map Called F' @ map Resumed (butlast (opt_list nx @ C')))"
    "if C' = [] \<and> F' = [] then idle hnd' ex' else mAquired hnd' \<and> holds (hCBs hnd') [] \<and> holds (hFns hnd') []
       \<and> holds (eCBs ex') [] \<and> holds (eFns ex') []"
proof -
  obtain h1 ex1 where ts: "take_shared (hnd, ex) = (h1, ex1)" by (cases "take_shared (hnd, ex)")
  note t = take_shared_holds [OF assms(2-5) ts]
  then have h1: "holds (hCBs h1) C'" "holds (hFns h1) F'" by simp_all
  obtain cbs' fns' where o: "run_own log_resume log_call (hCBs h1) (hFns h1) nx (ex1, w)
      = Inr (cbs', fns', last_opt (opt_list nx @ C'), ex1, w @ map Called F' @ map Resumed (butlast (opt_list nx @ C')))"
      "holds cbs' []" "holds fns' []"
    using run_own_log [OF h1, of nx ex1 w] by (elim exE conjE) (rule that)
  have "cb_size (hCBs hnd) = 0 \<and> cb_size (hFns hnd) = 0"
    using holds_Nil [OF assms(2)] holds_Nil [OF assms(3)] by blast
  then have "run_loop (Suc n) log_resume log_call hnd nx (ex, w)
      = run_loop n log_resume log_call (h1\<lparr>hCBs := cbs', hFns := fns'\<rparr>) (last_opt (opt_list nx @ C'))
          (ex1, w @ map Called F' @ map Resumed (butlast (opt_list nx @ C')))"
    using assms(1) ts o by (subst run_loop.simps(2)) simp
  moreover have "if C' = [] \<and> F' = [] then idle (h1\<lparr>hCBs := cbs', hFns := fns'\<rparr>) ex1
       else mAquired h1 \<and> holds cbs' [] \<and> holds fns' [] \<and> holds (eCBs ex1) [] \<and> holds (eFns ex1) []"
    using t o(2,3) assms(1) by (simp add: idle_def split: if_splits)
  ultimately show thesis by (intro that) (auto split: if_splits)
qed

lemma run_loop_idle: "idle hnd ex \<Longrightarrow> run_loop (Suc n) r c hnd nx s = Some (Inr (hnd, nx, s))"
  by (simp add: run_loop.simps(2) idle_def)

lemma run_loop_finish:
  assumes "mAquired hnd" "holds (hCBs hnd) []" "holds (hFns hnd) []" "holds (eCBs ex) C'" "holds (eFns ex) F'"
    and n: "C' = [] \<and> F' = [] \<or> n \<noteq> 0"
  shows "\<exists>hnd' ex'. run_loop (Suc (Suc n)) log_resume log_call hnd nx (ex, w)
     = Some (Inr (hnd', last_opt (opt_list nx @ C'), ex',
         w @ map Called F' @ map Resumed (butlast (opt_list nx @ C')))) \<and> idle hnd' ex'"
proof -
  obtain h1 ex1 where 1: "run_loop (Suc (Suc n)) log_resume log_call hnd nx (ex, w)
        = run_loop (Suc n) log_resume log_call h1 (last_opt (opt_list nx @ C'))
            (ex1, w @ map Called F' @ map Resumed (butlast (opt_list nx @ C')))"
    "if C' = [] \<and> F' = [] then idle h1 ex1 else mAquired h1 \<and> holds (hCBs h1) [] \<and> holds (hFns h1) []
       \<and> holds (eCBs ex1) [] \<and> holds (eFns ex1) []"
    by (rule run_loop_shared [OF assms(1-5)])
  show ?thesis
  proof (cases "C' = [] \<and> F' = []")
    case True
    then have "idle h1 ex1" using 1(2) by simp
    then show ?thesis unfolding 1(1) run_loop_idle [OF \<open>idle h1 ex1\<close>] by blast
  next
    case False
    then obtain m where m: "n = Suc m" using n by (cases n) auto
    let ?nx = "last_opt (opt_list nx @ C')"
    let ?w = "w @ map Called F' @ map Resumed (butlast (opt_list nx @ C'))"
    have h1: "mAquired h1" "holds (hCBs h1) []" "holds (hFns h1) []" "holds (eCBs ex1) []" "holds (eFns ex1) []"
      using 1(2) False by auto
    obtain h2 ex2 where "run_loop (Suc n) log_resume log_call h1 ?nx (ex1, ?w)
          = run_loop n log_resume log_call h2 (last_opt (opt_list ?nx @ []))
              (ex2, ?w @ map Called [] @ map Resumed (butlast (opt_list ?nx @ [])))" and h2: "idle h2 ex2"
      by (rule run_loop_shared [OF h1, where n = n and nx = ?nx and w = ?w]) simp
    moreover have "last_opt (opt_list ?nx) = ?nx" "butlast (opt_list ?nx) = []"
      by (cases ?nx; simp add: last_opt_def)+
    ultimately show ?thesis using 1(1) h2 by (auto simp: m run_loop_idle [OF h2])
  qed
qed

text \<open>
  C9. A handle that became the runner, run with callbacks that add no more callbacks, returns
  (four tests of the outer loop's condition are enough): first every callback with a foreign executor is
  scheduled there, in order; then its own functions are called and its own coroutines are resumed,
  then those of the shared part, each in the order in which they were added, except that the very
  last coroutine is not resumed but returned. Afterwards nothing is queued, and the queue has no
  runner.
\<close>

theorem runReturnLast_drains:
  fixes hnd :: "('x, 'h, 'f) handle" and ex :: "('h, 'f) exec"
  assumes "mAquired hnd" and "holds (mXCBs hnd) X" and "holds (hCBs hnd) C" and "holds (hFns hnd) F"
    and "holds (eCBs ex) C'" and "holds (eFns ex) F'"
  shows "\<exists>hnd' ex'. runReturnLast (Suc (Suc (Suc (Suc n)))) log_sched log_resume log_call hnd (ex, [])
     = Some (Inr (hnd', last_opt (C @ C'), ex',
         map (\<lambda>(x, h). Scheduled x h) X @ map Called F @ map Resumed (butlast C)
         @ map Called F' @ map Resumed (butlast (opt_list (last_opt C) @ C')))) \<and> idle hnd' ex'"
proof -
  let ?X = "map (\<lambda>(x, h). Scheduled x h) X :: ('x, 'h, 'f) event list"
  obtain x' where x: "run_xcbs log_sched (mXCBs hnd) (ex, []) = Inr (x', ex, ?X)"
    using run_xcbs_log [OF assms(2), of ex "[]"] by auto
  let ?h = "hnd\<lparr>mXCBs := x'\<rparr>"
  have h: "mAquired ?h" "holds (hCBs ?h) C" "holds (hFns ?h) F" using assms by simp_all
  have ret: "runReturnLast m log_sched log_resume log_call hnd (ex, []) = run_loop m log_resume log_call ?h None (ex, ?X)" for m
    using x by (simp add: runReturnLast_def)
  show ?thesis
  proof (cases "C = [] \<and> F = []")
    case True
    have "last_opt C = None" "butlast C = []" using True by (simp_all add: last_opt_def)
    then show ?thesis
      using run_loop_finish [OF h(1) _ _ assms(5,6), of "Suc (Suc n)" None ?X] h True unfolding ret by simp
  next
    case False
    obtain h2 where 2: "run_loop (Suc (Suc (Suc (Suc n)))) log_resume log_call ?h None (ex, ?X)
        = run_loop (Suc (Suc (Suc n))) log_resume log_call h2 (last_opt (opt_list None @ C))
            (ex, ?X @ map Called F @ map Resumed (butlast (opt_list None @ C)))"
        "mAquired h2" "holds (hCBs h2) []" "holds (hFns h2) []"
      using run_loop_log [OF h assms(5,6)] False by blast
    have app: "last_opt (opt_list (last_opt C) @ C') = last_opt (C @ C')" by (simp add: last_opt_def)
    show ?thesis
      using run_loop_finish [OF 2(2-4) assms(5,6), of "Suc n" "last_opt C" "?X @ map Called F @ map Resumed (butlast C)"]
        2(1) unfolding ret app by simp
  qed
qed

section \<open>Overflow of the small buffer\<close>

lemma cb_push_many:
  "cb_inv_k 3 q \<Longrightarrow> length (cb_list q) + length hs \<le> 8 \<Longrightarrow>
     cb_inv_k 3 (fold cb_push_back hs q) \<and> cb_list (fold cb_push_back hs q) = cb_list q @ hs"
proof (induction hs arbitrary: q)
  case (Cons h hs)
  have "\<not> cb_full q" using Cons.prems by (simp add: cb_full_def cb_inv_k_def)
  then show ?case
    using Cons cb_push_room [OF Cons.prems(1), of h] by (simp del: length_cb_list)
qed simp

text \<open>
  C12. Up to eight callbacks are kept in the order in which they were added. The ninth one, added
  while eight are pending, destroys them all: the queue then hands out the ninth callback first
  and eight null callbacks after it.
\<close>

theorem ninth_callback:
  assumes "length hs = 8"
  shows "cb_list (fold cb_push_back hs cb_new) = hs
     \<and> cb_list (cb_push_back h (fold cb_push_back hs cb_new)) = h # replicate 8 None"
proof -
  have new: "cb_inv_k 3 cb_new" by (simp add: cb_inv_k_def cb_new_def mVec_def cb_size_def)
  then have q: "cb_inv_k 3 (fold cb_push_back hs cb_new)" "cb_list (fold cb_push_back hs cb_new) = hs"
    using cb_push_many [OF new, of hs] assms by auto
  then have len: "length (mVec (fold cb_push_back hs cb_new)) = 8" by (simp add: cb_inv_k_def)
  then have "cb_full (fold cb_push_back hs cb_new)"
    using q(2) assms length_cb_list [of "fold cb_push_back hs cb_new"] by (simp add: cb_full_def)
  then show ?thesis using cb_push_full(2) [OF q(1)] q(2) len by simp
qed

theorem ninth_callback_witness:
  "cb_list (cb_push_back (Some 9) (fold cb_push_back (map Some [1, 2, 3, 4, 5, 6, 7, 8 :: nat]) cb_new))
     = Some 9 # replicate 8 None"
  using ninth_callback [of "map Some [1, 2, 3, 4, 5, 6, 7, 8 :: nat]" "Some 9"] by simp

section \<open>One runner at a time, and no callback is forgotten\<close>

text \<open>
  Several operations use the queue at the same time, each with a handle of its own (numbered here).
  A handle is acquired when its operation enters the critical section of the socket's mutex and
  is filled before it leaves; the callbacks run outside of it. \<open>mtx\<close> is the handle whose
  operation holds the mutex.
\<close>

record ('x, 'h, 'f) pool =
  shared :: "('h, 'f) exec"
  handles :: "nat \<Rightarrow> ('x, 'h, 'f) handle option"
  mtx :: "nat option"

definition pool_new :: "('x, 'h, 'f) pool" where
  "pool_new = \<lparr>shared = exec_new, handles = (\<lambda>_. None), mtx = None\<rparr>"

inductive pool_step :: "('x, 'h, 'f) pool \<Rightarrow> ('x, 'h, 'f) pool \<Rightarrow> bool" where
  Enter: "mtx p = None \<Longrightarrow> handles p k = None \<Longrightarrow> acquire (shared p) = (h, ex) \<Longrightarrow>
     pool_step p (p\<lparr>shared := ex, handles := (handles p)(k := Some h), mtx := Some k\<rparr>)"
| Push: "mtx p = Some k \<Longrightarrow> handles p k = Some h \<Longrightarrow> handle_push_back c ref (h, shared p) = (h', ex) \<Longrightarrow>
     pool_step p (p\<lparr>shared := ex, handles := (handles p)(k := Some h')\<rparr>)"
| PushFn: "mtx p = Some k \<Longrightarrow> handles p k = Some h \<Longrightarrow> push_back_fn f (h, shared p) = (h', ex) \<Longrightarrow>
     pool_step p (p\<lparr>shared := ex, handles := (handles p)(k := Some h')\<rparr>)"
| Leave: "mtx p = Some k \<Longrightarrow> pool_step p (p\<lparr>mtx := None\<rparr>)"
| RunX: "mtx p \<noteq> Some k \<Longrightarrow> handles p k = Some h \<Longrightarrow> cb_pop_front (mXCBs h) = Inr (c, q) \<Longrightarrow>
     pool_step p (p\<lparr>handles := (handles p)(k := Some (h\<lparr>mXCBs := q\<rparr>))\<rparr>)"
| RunCB: "mtx p \<noteq> Some k \<Longrightarrow> handles p k = Some h \<Longrightarrow> mAquired h \<Longrightarrow> cb_pop_front (hCBs h) = Inr (c, q) \<Longrightarrow>
     pool_step p (p\<lparr>handles := (handles p)(k := Some (h\<lparr>hCBs := q\<rparr>))\<rparr>)"
| RunFn: "mtx p \<noteq> Some k \<Longrightarrow> handles p k = Some h \<Longrightarrow> mAquired h \<Longrightarrow> cb_pop_front (hFns h) = Inr (f, q) \<Longrightarrow>
     pool_step p (p\<lparr>handles := (handles p)(k := Some (h\<lparr>hFns := q\<rparr>))\<rparr>)"
| TakeShared: "mtx p = None \<Longrightarrow> handles p k = Some h \<Longrightarrow> mAquired h \<Longrightarrow> cb_size (hCBs h) = 0 \<Longrightarrow>
     cb_size (hFns h) = 0 \<Longrightarrow> take_shared (h, shared p) = (h', ex) \<Longrightarrow>
     pool_step p (p\<lparr>shared := ex, handles := (handles p)(k := Some h')\<rparr>)"
| Drop: "mtx p \<noteq> Some k \<Longrightarrow> handles p k = Some h \<Longrightarrow> \<not> mAquired h \<Longrightarrow> cb_size (mXCBs h) = 0 \<Longrightarrow>
     pool_step p (p\<lparr>handles := (handles p)(k := None)\<rparr>)"

inductive_cases pool_stepE: "pool_step p p'"

definition runner :: "('x, 'h, 'f) pool \<Rightarrow> nat \<Rightarrow> bool" where
  "runner p k \<longleftrightarrow> (\<exists>h. handles p k = Some h \<and> mAquired h)"

definition pool_inv :: "('x, 'h, 'f) pool \<Rightarrow> bool" where
  "pool_inv p \<longleftrightarrow> (mHasRunner (shared p) \<longleftrightarrow> (\<exists>k. runner p k))
     \<and> (\<forall>j k. runner p j \<longrightarrow> runner p k \<longrightarrow> j = k)
     \<and> (\<not> mHasRunner (shared p) \<longrightarrow> cb_size (eCBs (shared p)) = 0 \<and> cb_size (eFns (shared p)) = 0)
     \<and> (\<forall>k. mtx p = Some k \<longrightarrow> mHasRunner (shared p) \<and> handles p k \<noteq> None)"

lemma cb_move_size: "cb_move q src = (q', src') \<Longrightarrow> cb_size q' = cb_size src \<and> cb_size src' = 0"
  by (auto simp: cb_move_def Let_def cb_size_def)

lemma cb_swap_size: "cb_swap a b = (a', b') \<Longrightarrow> cb_size a' = cb_size b \<and> cb_size b' = cb_size a"
  by (auto simp: cb_swap_def split: prod.splits dest!: cb_move_size)

lemma runner_update [simp]:
  "runner (p\<lparr>shared := ex, handles := (handles p)(k := Some h)\<rparr>) j \<longleftrightarrow> (if j = k then mAquired h else runner p j)"
  "runner (p\<lparr>shared := ex, handles := (handles p)(k := Some h), mtx := m\<rparr>) j \<longleftrightarrow> (if j = k then mAquired h else runner p j)"
  "runner (p\<lparr>handles := (handles p)(k := Some h)\<rparr>) j \<longleftrightarrow> (if j = k then mAquired h else runner p j)"
  "runner (p\<lparr>handles := (handles p)(k := None)\<rparr>) j \<longleftrightarrow> j \<noteq> k \<and> runner p j"
  "runner (p\<lparr>mtx := m\<rparr>) j \<longleftrightarrow> runner p j"
  by (auto simp: runner_def)

lemma runner_handle: "handles p k = Some h \<Longrightarrow> runner p k \<longleftrightarrow> mAquired h"
  by (simp add: runner_def)

lemma push_keeps:
  "handle_push_back c ref (h, ex) = (h', ex') \<Longrightarrow> mAquired h' = mAquired h \<and> mHasRunner ex' = mHasRunner ex"
  "push_back_fn f (h, ex) = (h', ex') \<Longrightarrow> mAquired h' = mAquired h \<and> mHasRunner ex' = mHasRunner ex"
  by (auto simp: handle_push_back_def push_back_fn_def split: option.splits if_splits)

lemma take_shared_cases:
  assumes "cb_size (hCBs h) = 0" and "cb_size (hFns h) = 0" and "take_shared (h, ex) = (h', ex')"
  shows "cb_size (eCBs ex') = 0 \<and> cb_size (eFns ex') = 0
    \<and> (\<not> mAquired h' \<and> \<not> mHasRunner ex' \<or> mAquired h' = mAquired h \<and> mHasRunner ex' = mHasRunner ex)"
proof -
  obtain a b where ab: "cb_swap (eCBs ex) (hCBs h) = (a, b)" by fastforce
  obtain c d where cd: "cb_swap (eFns ex) (hFns h) = (c, d)" by fastforce
  show ?thesis
    using assms cb_swap_size [OF ab] cb_swap_size [OF cd]
    by (auto simp: take_shared_def ab cd Let_def split: if_splits)
qed

text \<open>A step that does not change who the runner is.\<close>

lemma pool_inv_cong:
  assumes "pool_inv p" and "mHasRunner (shared p') = mHasRunner (shared p)"
    and "\<And>j. runner p' j \<longleftrightarrow> runner p j"
    and "mHasRunner (shared p) \<or> shared p' = shared p"
    and "\<And>j. mtx p' = Some j \<Longrightarrow> mtx p = Some j \<and> (handles p j \<noteq> None \<longrightarrow> handles p' j \<noteq> None)"
  shows "pool_inv p'"
  using assms unfolding pool_inv_def by metis

lemma pool_inv_step: "pool_step p p' \<Longrightarrow> pool_inv p \<Longrightarrow> pool_inv p'"
proof (induction rule: pool_step.induct)
  case (Enter p k h ex)
  have k: "\<not> runner p k" using Enter by (simp add: runner_def)
  have "mAquired h = (\<not> mHasRunner (shared p)) \<and> mHasRunner ex
     \<and> (mHasRunner (shared p) \<longrightarrow> ex = shared p)"
    using Enter(3) by (auto simp: acquire_def Let_def split: if_splits)
  then show ?case using k Enter(4) by (auto simp: pool_inv_def)
next
  case (Push p k h c ref h' ex)
  have "mHasRunner (shared p)" using Push(1,4) unfolding pool_inv_def by blast
  then show ?case
    using Push(1,2) push_keeps(1) [OF Push(3)]
    by (intro pool_inv_cong [OF Push(4)]) (auto simp: runner_handle)
next
  case (PushFn p k h f h' ex)
  have "mHasRunner (shared p)" using PushFn(1,4) unfolding pool_inv_def by blast
  then show ?case
    using PushFn(1,2) push_keeps(2) [OF PushFn(3)]
    by (intro pool_inv_cong [OF PushFn(4)]) (auto simp: runner_handle)
next
  case (TakeShared p k h h' ex)
  have k: "runner p k" using TakeShared(2,3) by (simp add: runner_def)
  from take_shared_cases [OF TakeShared(4-6)] show ?case
  proof (elim conjE disjE)
    assume "cb_size (eCBs ex) = 0" "cb_size (eFns ex) = 0" "\<not> mAquired h'" "\<not> mHasRunner ex"
    then show ?thesis using k TakeShared(1,7) by (auto simp: pool_inv_def)
  next
    assume "mAquired h' = mAquired h" "mHasRunner ex = mHasRunner (shared p)"
    moreover have "mHasRunner (shared p)" using k TakeShared(7) by (auto simp: pool_inv_def)
    ultimately show ?thesis
      using TakeShared(1-3) by (intro pool_inv_cong [OF TakeShared(7)]) (auto simp: runner_handle)
  qed
next
  case (Leave p k)
  show ?case by (rule pool_inv_cong [OF Leave(2)]) simp_all
next
  case (RunX p k h c q)
  then show ?case by (intro pool_inv_cong [OF RunX(4)]) (auto simp: runner_handle)
next
  case (RunCB p k h c q)
  then show ?case by (intro pool_inv_cong [OF RunCB(5)]) (auto simp: runner_handle)
next
  case (RunFn p k h f q)
  then show ?case by (intro pool_inv_cong [OF RunFn(5)]) (auto simp: runner_handle)
next
  case (Drop p k h)
  then show ?case by (intro pool_inv_cong [OF Drop(5)]) (auto simp: runner_handle)
qed

text \<open>Only \<open>TakeShared\<close> ends the role of the runner.\<close>

lemma runner_ends:
  assumes "pool_step p p'" and "runner p k" and "\<not> runner p' k"
  shows "\<exists>j h h' ex. cb_size (hCBs h) = 0 \<and> cb_size (hFns h) = 0 \<and> take_shared (h, shared p) = (h', ex)
     \<and> p' = p\<lparr>shared := ex, handles := (handles p)(j := Some h')\<rparr>"
  using assms
proof (induction rule: pool_step.induct)
  case (Enter p k' h ex)
  then show ?case by (auto simp: runner_def split: if_splits)
next
  case (Push p k' h c ref h' ex)
  then show ?case using push_keeps(1) [OF Push(3)] by (auto simp: runner_handle split: if_splits)
next
  case (PushFn p k' h f h' ex)
  then show ?case using push_keeps(2) [OF PushFn(3)] by (auto simp: runner_handle split: if_splits)
next
  case (TakeShared p k' h h' ex)
  then show ?case by blast
next
  case (RunX p k' h c q)
  then show ?case by (auto simp: runner_handle split: if_splits)
next
  case (RunCB p k' h c q)
  then show ?case by (auto simp: runner_handle split: if_splits)
next
  case (RunFn p k' h f q)
  then show ?case by (auto simp: runner_handle split: if_splits)
next
  case (Drop p k' h)
  then show ?case by (auto simp: runner_handle)
qed simp

lemma pool_inv_new: "pool_inv pool_new"
  by (simp add: pool_inv_def pool_new_def runner_def exec_new_def cb_new_def cb_size_def)

lemma pool_inv_reachable: "pool_step\<^sup>*\<^sup>* pool_new p \<Longrightarrow> pool_inv p"
  by (induction rule: rtranclp_induct) (auto intro: pool_inv_new pool_inv_step)




theorem runReturnLast_drains_witness:
  "\<exists>hnd' ex'. runReturnLast 4 log_sched log_resume log_call
      (\<lparr>mAquired = True, mXCBs = cb_new, hCBs = cb_push_back (Some 2) (cb_push_back (Some 1) cb_new),
        hFns = cb_push_back (Some 7) cb_new\<rparr> :: (nat, nat, nat) handle) (exec_new, [])
    = Some (Inr (hnd', Some 2, ex', [Called 7, Resumed 1])) \<and> idle hnd' ex'"
proof -
  have new: "cb_inv_k 3 cb_new" by (simp add: cb_inv_k_def cb_new_def mVec_def cb_size_def)
  have "holds (cb_push_back (Some 2) (cb_push_back (Some 1) cb_new)) [1, 2 :: nat]"
    "holds (cb_push_back (Some 7) cb_new) [7 :: nat]"
    using cb_push_many [OF new, of "[Some 1, Some (2 :: nat)]"] cb_push_many [OF new, of "[Some (7 :: nat)]"]
    by (auto simp: holds_def cb_inv_def)
  then show ?thesis
    using runReturnLast_drains [of "\<lparr>mAquired = True, mXCBs = cb_new,
        hCBs = cb_push_back (Some 2) (cb_push_back (Some 1) cb_new),
        hFns = cb_push_back (Some 7) cb_new\<rparr> :: (nat, nat, nat) handle" "[]" "[1, 2]" "[7]" exec_new "[]" "[]" 0]
    by (simp add: exec_new_def last_opt_def holds_new eval_nat_numeral)
qed

end
