(* ===== verification/Io_Buffers.thy ===== *)
theory Io_Buffers
  imports Error_Code
begin

text \<open>
  Buffers of send and receive operations, \<^verbatim>\<open>coproto/Proto/Operation.h\<close>: the view of a user's
  container as bytes, resizing on receive, and the reporting of errors through the
  \<^verbatim>\<open>std::exception_ptr\<close> of the awaiter, which is a cell of the store \<open>exns\<close>.
\<close>

section \<open>Containers as bytes\<close>

text \<open>
  A trivial object is its bytes. A container has elements of \<open>elem\<close> bytes and is \<open>Resizable\<close> when
  it offers \<^verbatim>\<open>resize\<close>; \<open>max_elems\<close> is the number of elements above which
  \<^verbatim>\<open>resize\<close> throws.
\<close>

datatype container_kind = Trivial | Fixed_Container | Resizable

record container =
  cKind :: container_kind
  cElem :: nat
  cMax :: nat
  cBytes :: "u8 list"

definition container_ok :: "container \<Rightarrow> bool" where
  "container_ok c \<longleftrightarrow> 0 < cElem c \<and> length (cBytes c) mod cElem c = 0"

text \<open>\<^verbatim>\<open>size()\<close> counts elements.\<close>

definition cont_size :: "container \<Rightarrow> nat" where
  "cont_size c = length (cBytes c) div cElem c"

definition u8Size :: "container \<Rightarrow> nat" where
  "u8Size c = (if cKind c = Trivial then cElem c else cont_size c * cElem c)"

text \<open>\<^verbatim>\<open>asSpan\<close> gives a view of \<open>u8Size\<close> bytes; \<open>vec_resize\<close> fills new elements with zeros.\<close>

definition vec_resize :: "nat \<Rightarrow> container \<Rightarrow> container option" where
  "vec_resize s c = (if cMax c < s then None
     else Some (c\<lparr>cBytes := take (s * cElem c) (cBytes c) @ replicate (s * cElem c - length (cBytes c)) 0\<rparr>))"

text \<open>
  \<^verbatim>\<open>tryResize\<close>: the size of the resulting span and the container. An exception of
  \<^verbatim>\<open>resize\<close> is swallowed and gives the empty span.
\<close>

definition tryResize :: "nat \<Rightarrow> container \<Rightarrow> bool \<Rightarrow> nat \<times> container" where
  "tryResize sz c allowResize =
     (if cKind c \<noteq> Resizable then (u8Size c, c)
      else if allowResize \<and> sz mod cElem c = 0
      then (case vec_resize (sz div cElem c) c of None \<Rightarrow> (0, c) | Some c' \<Rightarrow> (u8Size c', c'))
      else (u8Size c, c))"

section \<open>Exception cells\<close>

type_synonym exn_store = "nat \<Rightarrow> exn option"

text \<open>\<^verbatim>\<open>std::make_exception_ptr(std::system_error(e))\<close>.\<close>

definition sys_error :: "error_code \<Rightarrow> exn" where
  "sys_error ec = System_Error ec ''''"

section \<open>Send buffers\<close>

record send_buffer =
  sb_ex :: "nat option"
  sb_data :: "u8 list"

definition send_setError :: "send_buffer \<Rightarrow> error_code \<Rightarrow> exn_store \<Rightarrow> fault + exn_store" where
  "send_setError b ec ex = (case sb_ex b of None \<Rightarrow> Inr ex
     | Some p \<Rightarrow> checkR (ex p = None) Assertion (Inr (ex(p \<mapsto> sys_error ec))))"

text \<open>
  \<^verbatim>\<open>MvSendBuffer\<close> owns the container and reports errors only if it has a pointer;
  \<^verbatim>\<open>RefSendBuffer\<close> keeps a view of the caller's container.
\<close>

definition mv_send_buffer :: "container \<Rightarrow> nat option \<Rightarrow> send_buffer" where
  "mv_send_buffer c e = \<lparr>sb_ex = e, sb_data = take (u8Size c) (cBytes c)\<rparr>"

definition ref_send_buffer :: "container \<Rightarrow> nat \<Rightarrow> send_buffer" where
  "ref_send_buffer c e = \<lparr>sb_ex = Some e, sb_data = take (u8Size c) (cBytes c)\<rparr>"

section \<open>Receive buffers\<close>

record recv_buffer =
  rb_ex :: "nat option"
  rb_cont :: container
  rb_allow :: bool

definition recv_setError :: "recv_buffer \<Rightarrow> error_code \<Rightarrow> exn_store \<Rightarrow> exn_store" where
  "recv_setError b ec ex = (case rb_ex b of None \<Rightarrow> ex | Some p \<Rightarrow> ex(p \<mapsto> sys_error ec))"

text \<open>
  \<^verbatim>\<open>RefRecvBuffer::asSpan(size)\<close>: the size of the span. On a mismatch the exception is stored
  at once and the pointer is dropped, so that a later \<^verbatim>\<open>setError\<close> does not overwrite it.
\<close>

definition recv_asSpan :: "recv_buffer \<Rightarrow> u64 \<Rightarrow> exn_store \<Rightarrow> fault + nat \<times> recv_buffer \<times> exn_store" where
  "recv_asSpan b sz ex =
     (let (r, c) = (if rb_allow b then tryResize (unat sz) (rb_cont b) True else (u8Size (rb_cont b), rb_cont b));
          b' = b\<lparr>rb_cont := c\<rparr>
      in if r \<noteq> unat sz
         then (case rb_ex b' of None \<Rightarrow> Inl Assertion
            | Some p \<Rightarrow> Inr (r, b'\<lparr>rb_ex := None\<rparr>, ex(p \<mapsto> BadReceiveBufferSize (of_nat r) sz '''')))
         else Inr (r, b', ex))"

text \<open>The received bytes end up in the container behind the span.\<close>

definition fill_span :: "u8 list \<Rightarrow> recv_buffer \<Rightarrow> recv_buffer" where
  "fill_span bs b = b\<lparr>rb_cont := (rb_cont b)\<lparr>cBytes := bs @ drop (length bs) (cBytes (rb_cont b))\<rparr>\<rparr>"

section \<open>Correctness\<close>

lemma u8Size_ok: "container_ok c \<Longrightarrow> cKind c \<noteq> Trivial \<Longrightarrow> u8Size c = length (cBytes c)"
  by (auto simp: container_ok_def u8Size_def cont_size_def)

lemma vec_resize_ok:
  "container_ok c \<Longrightarrow> vec_resize s c = Some c' \<Longrightarrow>
     container_ok c' \<and> length (cBytes c') = s * cElem c \<and> cKind c' = cKind c \<and> cElem c' = cElem c"
proof -
  assume "container_ok c" "vec_resize s c = Some c'"
  moreover have "min a b + (b - a) = b" for a b :: nat by simp
  ultimately show ?thesis by (auto simp: vec_resize_def container_ok_def split: if_splits)
qed

lemma vec_resize_keeps:
  assumes "vec_resize s c = Some c'" and "i < s * cElem c" and "i < length (cBytes c)"
  shows "cBytes c' ! i = cBytes c ! i"
  using assms by (auto simp: vec_resize_def nth_append split: if_splits)

text \<open>
  C25. Receiving into a resizable container fits the container to every message whose length is a
  multiple of the element size and within the container's limit: the span has exactly the size of
  the message, no error is recorded, and after the bytes have been read the container holds exactly
  the message.
\<close>

theorem recv_resizes:
  assumes "container_ok (rb_cont b)" and "cKind (rb_cont b) = Resizable" and "rb_allow b"
    and "unat sz mod cElem (rb_cont b) = 0" and "unat sz div cElem (rb_cont b) \<le> cMax (rb_cont b)"
    and "length bs = unat sz"
  shows "\<exists>b'. recv_asSpan b sz ex = Inr (unat sz, b', ex) \<and> rb_ex b' = rb_ex b
     \<and> cBytes (rb_cont (fill_span bs b')) = bs"
proof -
  let ?c = "rb_cont b"
  have el: "unat sz div cElem ?c * cElem ?c = unat sz" using assms(4) by (metis add_0_right div_mult_mod_eq)
  obtain c' where c': "vec_resize (unat sz div cElem ?c) ?c = Some c'"
    using assms(5) by (auto simp: vec_resize_def)
  note ok = vec_resize_ok [OF assms(1) c']
  have "u8Size c' = unat sz" using ok el u8Size_ok [of c'] assms(2) by simp
  then have "recv_asSpan b sz ex = Inr (unat sz, b\<lparr>rb_cont := c'\<rparr>, ex)"
    using assms(2-4) c' by (simp add: recv_asSpan_def tryResize_def)
  moreover have "cBytes (rb_cont (fill_span bs (b\<lparr>rb_cont := c'\<rparr>))) = bs"
    using ok el assms(6) by (simp add: fill_span_def)
  ultimately show ?thesis by auto
qed

theorem recv_resizes_witness:
  "\<exists>b'. recv_asSpan \<lparr>rb_ex = Some 1, rb_cont = \<lparr>cKind = Resizable, cElem = 4, cMax = 100, cBytes = []\<rparr>, rb_allow = True\<rparr>
      8 (\<lambda>_. None) = Inr (8, b', \<lambda>_. None) \<and> cBytes (rb_cont (fill_span [1, 2, 3, 4, 5, 6, 7, 8] b')) = [1, 2, 3, 4, 5, 6, 7, 8]"
  using recv_resizes [of "\<lparr>rb_ex = Some 1, rb_cont = \<lparr>cKind = Resizable, cElem = 4, cMax = 100, cBytes = []\<rparr>,
      rb_allow = True\<rparr>" 8 "[1, 2, 3, 4, 5, 6, 7, 8]" "\<lambda>_. None"]
  by (auto simp: container_ok_def)

text \<open>
  C26. Receiving a message into a buffer that cannot take its size records
  \<^verbatim>\<open>BadReceiveBufferSize\<close> with the local and the transmitted size in the caller's exception
  pointer, and this error stays: reporting the failure of the operation afterwards does not
  overwrite it.
\<close>

theorem recv_size_mismatch:
  assumes "\<not> rb_allow b" and "u8Size (rb_cont b) \<noteq> unat sz" and "rb_ex b = Some p"
  shows "\<exists>b'. recv_asSpan b sz ex
       = Inr (u8Size (rb_cont b), b', ex(p \<mapsto> BadReceiveBufferSize (of_nat (u8Size (rb_cont b))) sz ''''))
     \<and> recv_setError b' ec (ex(p \<mapsto> BadReceiveBufferSize (of_nat (u8Size (rb_cont b))) sz ''''))
       = ex(p \<mapsto> BadReceiveBufferSize (of_nat (u8Size (rb_cont b))) sz '''')"
  using assms by (simp add: recv_asSpan_def recv_setError_def)

theorem recv_size_mismatch_witness:
  "\<exists>b'. recv_asSpan \<lparr>rb_ex = Some 1, rb_cont = \<lparr>cKind = Trivial, cElem = 4, cMax = 0, cBytes = [0, 0, 0, 0]\<rparr>, rb_allow = False\<rparr>
      8 (\<lambda>_. None) = Inr (4, b', [1 \<mapsto> BadReceiveBufferSize 4 8 ''''])"
  using recv_size_mismatch [of "\<lparr>rb_ex = Some 1, rb_cont = \<lparr>cKind = Trivial, cElem = 4, cMax = 0,
      cBytes = [0, 0, 0, 0]\<rparr>, rb_allow = False\<rparr>" 8 1 "\<lambda>_. None" no_error]
  by (auto simp: u8Size_def)

end
