(* ===== verification/Socket_Fork.thy ===== *)
theory Socket_Fork
  imports Queue_Erase Io_Buffers Session_ID
begin

text \<open>
  Pending operations and forks of a socket, \<^verbatim>\<open>coproto/Socket/SendOperation.h\<close>,
  \<^verbatim>\<open>RecvOperation.h\<close>, \<^verbatim>\<open>SocketFork.h\<close>, the \<^verbatim>\<open>FlushToken\<close> of
  \<^verbatim>\<open>Operation.h\<close>, and the state of \<^verbatim>\<open>SockScheduler\<close> they live in.

  Operations are objects in the block queues of their fork and are pointed to from elsewhere, so
  their contents are kept in maps from addresses (numbers); the queues hold the addresses. A
  destroyed operation is removed from the map, and following a pointer to it is \<open>Bad_Pointer\<close>.
  Forks are never erased, so a \<^verbatim>\<open>SocketForkIter\<close> is an index into the list of forks.
\<close>

section \<open>Operations and forks\<close>

datatype op_status = NotStarted | InProgress | Canceling

record send_op =
  so_CH :: "nat option"
  so_Buffer :: send_buffer
  so_Status :: op_status
  so_Fork :: nat
  so_Next :: "nat option"
  so_Prev :: "nat option"
  so_Reg :: bool
  so_Flushes :: "nat list"

record recv_op =
  ro_Fork :: nat
  ro_CH :: "nat option"
  ro_Buffer :: nat
  ro_Status :: op_status
  ro_Reg :: bool
  ro_Flushes :: "nat list"

definition new_send_op :: "nat \<Rightarrow> nat \<Rightarrow> send_buffer \<Rightarrow> send_op" where
  "new_send_op ss ch b = \<lparr>so_CH = Some ch, so_Buffer = b, so_Status = NotStarted, so_Fork = ss,
     so_Next = None, so_Prev = None, so_Reg = False, so_Flushes = []\<rparr>"

definition new_recv_op :: "nat \<Rightarrow> nat \<Rightarrow> nat \<Rightarrow> recv_op" where
  "new_recv_op r ch s = \<lparr>ro_Fork = s, ro_CH = Some ch, ro_Buffer = r, ro_Status = NotStarted,
     ro_Reg = False, ro_Flushes = []\<rparr>"

text \<open>A flush token: the coroutine to resume and the number of operations that share the token.\<close>

record flush_token =
  ft_Handle :: "nat option"
  ft_Uses :: nat

record fork =
  mSessionID :: session_id
  mLocalId :: u32
  mRemoteId :: u32
  mInitiated :: bool
  mExecutor :: "nat option"
  mName :: string
  mRecvOps :: "nat queue"
  mSendOps :: "nat queue"

definition new_fork :: "session_id \<Rightarrow> fault + fork" where
  "new_fork sid = bindR queue_new (\<lambda>r. bindR queue_new (\<lambda>s.
     Inr \<lparr>mSessionID = sid, mLocalId = -1, mRemoteId = -1, mInitiated = False, mExecutor = None,
          mName = '''', mRecvOps = r, mSendOps = s\<rparr>))"

section \<open>The state of the scheduler\<close>

text \<open>
  What an operation of the scheduler hands to its executor handle (coroutines with the executor
  they are to run on, and functions), in the order of the calls, together with the stop requests
  that it makes on the spot. A stop request carries whether the source still had its state
  (a \<^verbatim>\<open>stop_source\<close> that was moved from has none, and the request does nothing).
\<close>

datatype coro = User nat | Send_Task | Recv_Task

datatype effect =
    Resume coro "nat option"
  | Call_Stop_Send bool
  | Call_Stop_Recv bool
  | Stop_Send bool
  | Stop_Recv bool

datatype sched_status = Idle | InUse | RequestedRecvOp | SClosed

datatype caller = Sender | Recver | Extern

text \<open>
  The three awaiter pointers of the scheduler are a flag or the fork number they wait for; the
  \<^verbatim>\<open>mRes\<close> of the awaiter that the task's coroutine suspends on is the field next to it.
\<close>

record sched =
  mForks :: "fork list"
  mNextLocal :: u32
  mIdMap :: "u64 \<times> u64 \<Rightarrow> nat option"
  mRemoteMap :: "u32 \<Rightarrow> nat option"
  mSendBegin :: "nat option"
  mSendLast :: "nat option"
  mEC :: error_code
  mRecvStatus :: sched_status
  mSendStatus :: sched_status
  mNumRecvs :: u64
  mRecvSrc :: bool
  mSendSrc :: bool
  mNextSendOp :: bool
  mSendRes :: "(error_code + nat) option"
  mAnyRecvOp :: bool
  mAnyRes :: "error_code option"
  mGetReq :: "u32 option"
  mGetRes :: "(error_code + nat) option"
  mSends :: "nat \<Rightarrow> send_op option"
  mRecvs :: "nat \<Rightarrow> recv_op option"
  mBufs :: "nat \<Rightarrow> recv_buffer option"
  mExs :: exn_store
  mTokens :: "nat \<Rightarrow> flush_token option"
  mFreshPtr :: nat
  mOut :: "effect list"

definition emit :: "effect \<Rightarrow> sched \<Rightarrow> sched" where
  "emit e s = s\<lparr>mOut := mOut s @ [e]\<rparr>"

definition fork_at :: "nat \<Rightarrow> sched \<Rightarrow> fault + fork" where
  "fork_at i s = (if i < length (mForks s) then Inr (mForks s ! i) else Inl Bad_Pointer)"

definition set_fork :: "nat \<Rightarrow> fork \<Rightarrow> sched \<Rightarrow> sched" where
  "set_fork i f s = s\<lparr>mForks := (mForks s)[i := f]\<rparr>"

fun deref :: "(nat \<Rightarrow> 'a option) \<Rightarrow> nat \<Rightarrow> fault + 'a" where
  "deref m a = (case m a of None \<Rightarrow> Inl Bad_Pointer | Some x \<Rightarrow> Inr x)"

definition set_send :: "nat \<Rightarrow> send_op \<Rightarrow> sched \<Rightarrow> sched" where
  "set_send a op s = s\<lparr>mSends := (mSends s)(a \<mapsto> op)\<rparr>"

definition set_recv :: "nat \<Rightarrow> recv_op \<Rightarrow> sched \<Rightarrow> sched" where
  "set_recv a op s = s\<lparr>mRecvs := (mRecvs s)(a \<mapsto> op)\<rparr>"

section \<open>Operations in their fork's queue\<close>

text \<open>
  \<^verbatim>\<open>emplace_send\<close>, \<^verbatim>\<open>emplace_recv\<close>: construct at the end of the queue and return
  the address that \<^verbatim>\<open>back()\<close> gives.
\<close>

definition emplace_send :: "nat \<Rightarrow> send_op \<Rightarrow> sched \<Rightarrow> fault + nat \<times> sched" where
  "emplace_send i op s = bindR (fork_at i s) (\<lambda>f. bindR (push_back (mFreshPtr s) (mSendOps f)) (\<lambda>q.
     bindR (queue_back q) (\<lambda>p. Inr (p, set_send (mFreshPtr s) op
       (set_fork i (f\<lparr>mSendOps := q\<rparr>) (s\<lparr>mFreshPtr := mFreshPtr s + 1\<rparr>))))))"

definition emplace_recv :: "nat \<Rightarrow> recv_op \<Rightarrow> sched \<Rightarrow> fault + nat \<times> sched" where
  "emplace_recv i op s = bindR (fork_at i s) (\<lambda>f. bindR (push_back (mFreshPtr s) (mRecvOps f)) (\<lambda>q.
     bindR (queue_back q) (\<lambda>p. Inr (p, set_recv (mFreshPtr s) op
       (set_fork i (f\<lparr>mRecvOps := q\<rparr>) (s\<lparr>mFreshPtr := mFreshPtr s + 1\<rparr>))))))"

text \<open>
  \<^verbatim>\<open>pop_front_send\<close>, \<^verbatim>\<open>pop_front_recv\<close>, \<^verbatim>\<open>erase_send\<close>,
  \<^verbatim>\<open>erase_recv\<close> destroy the operation.
\<close>

definition pop_front_send :: "nat \<Rightarrow> sched \<Rightarrow> fault + sched" where
  "pop_front_send i s = bindR (fork_at i s) (\<lambda>f. bindR (queue_front (mSendOps f)) (\<lambda>a.
     bindR (pop_front (mSendOps f)) (\<lambda>q.
       Inr (set_fork i (f\<lparr>mSendOps := q\<rparr>) (s\<lparr>mSends := (mSends s)(a := None)\<rparr>)))))"

definition pop_front_recv :: "nat \<Rightarrow> sched \<Rightarrow> fault + sched" where
  "pop_front_recv i s = bindR (fork_at i s) (\<lambda>f. bindR (queue_front (mRecvOps f)) (\<lambda>a.
     bindR (pop_front (mRecvOps f)) (\<lambda>q.
       Inr (set_fork i (f\<lparr>mRecvOps := q\<rparr>) (s\<lparr>mRecvs := (mRecvs s)(a := None)\<rparr>)))))"

definition erase_send :: "nat \<Rightarrow> nat \<Rightarrow> sched \<Rightarrow> fault + sched" where
  "erase_send i a s = bindR (fork_at i s) (\<lambda>f. bindR (erase_elem (mSendOps f) a) (\<lambda>q.
     Inr (set_fork i (f\<lparr>mSendOps := q\<rparr>) (s\<lparr>mSends := (mSends s)(a := None)\<rparr>))))"

definition erase_recv :: "nat \<Rightarrow> nat \<Rightarrow> sched \<Rightarrow> fault + sched" where
  "erase_recv i a s = bindR (fork_at i s) (\<lambda>f. bindR (erase_elem (mRecvOps f) a) (\<lambda>q.
     Inr (set_fork i (f\<lparr>mRecvOps := q\<rparr>) (s\<lparr>mRecvs := (mRecvs s)(a := None)\<rparr>))))"

section \<open>Completing an operation\<close>

text \<open>
  The loop over \<^verbatim>\<open>mFlushes\<close> of \<^verbatim>\<open>completeOn\<close>, and \<^verbatim>\<open>mFlushes.clear()\<close>, which
  releases the shared tokens; the destructor of a token asserts that its handle was taken.
\<close>

fun notify_flushes :: "nat option \<Rightarrow> nat list \<Rightarrow> sched \<Rightarrow> fault + sched" where
  "notify_flushes ex [] s = Inr s"
| "notify_flushes ex (t # ts) s = bindR (deref (mTokens s) t) (\<lambda>tok.
     if ft_Uses tok = 1
     then (case ft_Handle tok of None \<Rightarrow> Inl Bad_Pointer
        | Some h \<Rightarrow> notify_flushes ex ts (emit (Resume (User h) ex)
            (s\<lparr>mTokens := (mTokens s)(t \<mapsto> tok\<lparr>ft_Handle := None\<rparr>)\<rparr>)))
     else notify_flushes ex ts s)"

fun release_flushes :: "nat list \<Rightarrow> sched \<Rightarrow> fault + sched" where
  "release_flushes [] s = Inr s"
| "release_flushes (t # ts) s = bindR (deref (mTokens s) t) (\<lambda>tok.
     if ft_Uses tok = 1
     then checkR (ft_Handle tok = None) Assertion
       (release_flushes ts (s\<lparr>mTokens := (mTokens s)(t := None)\<rparr>))
     else release_flushes ts (s\<lparr>mTokens := (mTokens s)(t \<mapsto> tok\<lparr>ft_Uses := ft_Uses tok - 1\<rparr>)\<rparr>))"

definition completeOn_send :: "nat \<Rightarrow> sched \<Rightarrow> fault + sched" where
  "completeOn_send a s = bindR (deref (mSends s) a) (\<lambda>op. case so_CH op of None \<Rightarrow> Inl Assertion
     | Some h \<Rightarrow> bindR (fork_at (so_Fork op) s) (\<lambda>f.
         bindR (notify_flushes (mExecutor f) (so_Flushes op)
             (emit (Resume (User h) (mExecutor f)) (set_send a (op\<lparr>so_CH := None\<rparr>) s))) (\<lambda>s.
         bindR (release_flushes (so_Flushes op) s) (\<lambda>s.
           Inr (set_send a (op\<lparr>so_CH := None, so_Flushes := []\<rparr>) s)))))"

definition completeOn_recv :: "nat \<Rightarrow> sched \<Rightarrow> fault + sched" where
  "completeOn_recv a s = bindR (deref (mRecvs s) a) (\<lambda>op. case ro_CH op of None \<Rightarrow> Inl Assertion
     | Some h \<Rightarrow> bindR (fork_at (ro_Fork op) s) (\<lambda>f.
         bindR (notify_flushes (mExecutor f) (ro_Flushes op)
             (emit (Resume (User h) (mExecutor f)) (set_recv a (op\<lparr>ro_CH := None\<rparr>) s))) (\<lambda>s.
         bindR (release_flushes (ro_Flushes op) s) (\<lambda>s.
           Inr (set_recv a (op\<lparr>ro_CH := None, ro_Flushes := []\<rparr>) s)))))"

text \<open>\<^verbatim>\<open>setError\<close> of an operation.\<close>

definition send_op_setError :: "nat \<Rightarrow> error_code \<Rightarrow> sched \<Rightarrow> fault + sched" where
  "send_op_setError a ec s = bindR (deref (mSends s) a) (\<lambda>op.
     bindR (send_setError (so_Buffer op) ec (mExs s)) (\<lambda>ex. Inr (s\<lparr>mExs := ex\<rparr>)))"

definition recv_op_setError :: "nat \<Rightarrow> error_code \<Rightarrow> sched \<Rightarrow> fault + sched" where
  "recv_op_setError a ec s = bindR (deref (mRecvs s) a) (\<lambda>op. bindR (deref (mBufs s) (ro_Buffer op)) (\<lambda>b.
     Inr (s\<lparr>mExs := recv_setError b ec (mExs s)\<rparr>)))"

text \<open>\<^verbatim>\<open>setNext\<close> also sets the back pointer of the new successor.\<close>

definition send_setNext :: "nat \<Rightarrow> nat option \<Rightarrow> sched \<Rightarrow> fault + sched" where
  "send_setNext a nx s = bindR (deref (mSends s) a) (\<lambda>op. let s = set_send a (op\<lparr>so_Next := nx\<rparr>) s in
     case nx of None \<Rightarrow> Inr s
      | Some b \<Rightarrow> bindR (deref (mSends s) b) (\<lambda>op2. Inr (set_send b (op2\<lparr>so_Prev := Some a\<rparr>) s)))"

definition send_setStatus :: "nat \<Rightarrow> op_status \<Rightarrow> sched \<Rightarrow> fault + sched" where
  "send_setStatus a st s = bindR (deref (mSends s) a) (\<lambda>op. Inr (set_send a (op\<lparr>so_Status := st\<rparr>) s))"

definition recv_setStatus :: "nat \<Rightarrow> op_status \<Rightarrow> sched \<Rightarrow> fault + sched" where
  "recv_setStatus a st s = bindR (deref (mRecvs s) a) (\<lambda>op. Inr (set_recv a (op\<lparr>ro_Status := st\<rparr>) s))"

text \<open>\<^verbatim>\<open>addFlush\<close> shares the token.\<close>

definition share_token :: "nat \<Rightarrow> sched \<Rightarrow> fault + sched" where
  "share_token t s = bindR (deref (mTokens s) t) (\<lambda>tok.
     Inr (s\<lparr>mTokens := (mTokens s)(t \<mapsto> tok\<lparr>ft_Uses := ft_Uses tok + 1\<rparr>)\<rparr>))"

definition addFlush_send :: "nat \<Rightarrow> nat \<Rightarrow> sched \<Rightarrow> fault + sched" where
  "addFlush_send a t s = bindR (deref (mSends s) a) (\<lambda>op.
     share_token t (set_send a (op\<lparr>so_Flushes := so_Flushes op @ [t]\<rparr>) s))"

definition addFlush_recv :: "nat \<Rightarrow> nat \<Rightarrow> sched \<Rightarrow> fault + sched" where
  "addFlush_recv a t s = bindR (deref (mRecvs s) a) (\<lambda>op.
     share_token t (set_recv a (op\<lparr>ro_Flushes := ro_Flushes op @ [t]\<rparr>) s))"

end
