(* ===== verification/Wire_Format.thy ===== *)
theory Wire_Format
  imports Session_ID
begin

text \<open>
  The messages on the wire, \<^verbatim>\<open>Header\<close> and \<^verbatim>\<open>ControlBlock\<close> of
  \<^verbatim>\<open>coproto/Socket/SocketScheduler.h\<close>. Both structures are sent as they lie in memory; the
  model fixes the byte order to little endian, that of the supported platforms.
\<close>

section \<open>Integers as bytes\<close>

fun le_bytes :: "nat \<Rightarrow> nat \<Rightarrow> u8 list" where
  "le_bytes 0 v = []"
| "le_bytes (Suc n) v = of_nat (v mod 256) # le_bytes n (v div 256)"

fun le_value :: "u8 list \<Rightarrow> nat" where
  "le_value [] = 0"
| "le_value (b # bs) = unat b + 256 * le_value bs"

lemma length_le_bytes [simp]: "length (le_bytes n v) = n"
  by (induction n arbitrary: v) simp_all

lemma le_value_bytes: "le_value (le_bytes n v) = v mod 256 ^ n"
proof (induction n arbitrary: v)
  case (Suc n)
  have "unat (of_nat (v mod 256) :: u8) = v mod 256" by (simp add: unat_of_nat)
  then show ?case using Suc by (simp add: mod_mult2_eq ac_simps)
qed simp

lemma le_value_bound: "le_value bs < 256 ^ length bs"
proof (induction bs)
  case (Cons b bs)
  have "unat b < 256" using unsigned_less [of b] by simp
  then show ?case using Cons by simp
qed simp

lemma le_bytes_value: "le_bytes (length bs) (le_value bs) = bs"
proof (induction bs)
  case (Cons b bs)
  have "unat b < 256" using unsigned_less [of b] by simp
  then show ?case using Cons by simp
qed simp

section \<open>Headers\<close>

text \<open>The length of the message that follows (zero for control messages) and the sender's fork number.\<close>

record header =
  hSize :: u32
  hForkId :: u32

definition header_bytes :: "header \<Rightarrow> u8 list" where
  "header_bytes h = le_bytes 4 (unat (hSize h)) @ le_bytes 4 (unat (hForkId h))"

definition read_header :: "u8 list \<Rightarrow> header" where
  "read_header bs = \<lparr>hSize = of_nat (le_value (take 4 bs)), hForkId = of_nat (le_value (take 4 (drop 4 bs)))\<rparr>"

lemma length_header_bytes [simp]: "length (header_bytes h) = 8"
  by (simp add: header_bytes_def)

lemma of_nat_le_value_u32 [simp]: "of_nat (unat w mod 256 ^ 4) = (w :: u32)"
proof -
  have "unat w < 256 ^ 4" using unsigned_less [of w] by simp
  then show ?thesis by simp
qed

lemma of_nat_le_value_u64 [simp]: "of_nat (unat w mod 256 ^ 8) = (w :: u64)"
proof -
  have "unat w < 256 ^ 8" using unsigned_less [of w] by simp
  then show ?thesis by simp
qed

lemma read_header_bytes [simp]: "read_header (header_bytes h @ rest) = h"
  by (simp only: read_header_def header_bytes_def append_assoc take_append drop_append length_le_bytes)
    (simp add: le_value_bytes del: power_numeral)

section \<open>Control blocks\<close>

text \<open>
  The only control message announces a new fork; its type is not transmitted
  (\<^verbatim>\<open>setType\<close> does nothing and \<^verbatim>\<open>getType\<close> is constant). The identifier occupies the 16
  bytes of data, and the one that is read has a fresh child counter.
\<close>

definition control_block :: "session_id \<Rightarrow> u8 list" where
  "control_block sid = le_bytes 8 (unat (mVal0 sid)) @ le_bytes 8 (unat (mVal1 sid))"

definition getSessionID :: "u8 list \<Rightarrow> session_id" where
  "getSessionID bs = \<lparr>mVal0 = of_nat (le_value (take 8 bs)), mVal1 = of_nat (le_value (take 8 (drop 8 bs))),
     mChildIdx = 0\<rparr>"

text \<open>\<^verbatim>\<open>SendControlBlock\<close>: a header of size zero followed by the control block.\<close>

definition meta_message :: "u32 \<Rightarrow> session_id \<Rightarrow> u8 list" where
  "meta_message local_id sid = header_bytes \<lparr>hSize = 0, hForkId = local_id\<rparr> @ control_block sid"

lemma length_control_block [simp]: "length (control_block sid) = 16"
  by (simp add: control_block_def)

lemma getSessionID_control [simp]: "getSessionID (control_block sid @ rest) = sid\<lparr>mChildIdx := 0\<rparr>"
  by (simp only: getSessionID_def control_block_def append_assoc take_append drop_append length_le_bytes)
    (simp add: le_value_bytes del: power_numeral)

text \<open>
  C24. The wire encodings can be read back from any stream that starts with them: a header gives its
  size and fork number, a control message gives a zero size, the fork number and an identifier equal
  to the one announced, and the control message takes exactly 24 bytes.
\<close>

theorem wire_roundtrip:
  "read_header (header_bytes h @ rest) = h
   \<and> read_header (meta_message l sid @ rest) = \<lparr>hSize = 0, hForkId = l\<rparr>
   \<and> sid_eq (getSessionID (drop 8 (meta_message l sid @ rest))) sid
   \<and> length (meta_message l sid) = 24"
  by (simp add: meta_message_def sid_eq_def)

end
