(* ===== verification/Scheduler.thy ===== *)
theory Scheduler
  imports Socket_Fork Wire_Format
begin

text \<open>
  The operations of \<^verbatim>\<open>SockScheduler\<close> (\<^verbatim>\<open>coproto/Socket/SocketScheduler.h\<close> and
  \<^verbatim>\<open>.cpp\<close>): forks and their identifiers, send, receive, the cancellation of single
  operations, the three awaiters that connect it to its two tasks, cancel, close and flush. Every
  operation is a function on the state; each is one critical section of the socket's mutex.
\<close>

section \<open>Forks\<close>

definition sched_empty :: sched where
  "sched_empty = \<lparr>mForks = [], mNextLocal = 1, mIdMap = (\<lambda>_. None), mRemoteMap = (\<lambda>_. None),
     mSendBegin = None, mSendLast = None, mEC = no_error, mRecvStatus = Idle, mSendStatus = Idle,
     mNumRecvs = 0, mRecvSrc = True, mSendSrc = True, mNextSendOp = False, mSendRes = None,
     mAnyRecvOp = False, mAnyRes = None, mGetReq = None, mGetRes = None, mSends = (\<lambda>_. None),
     mRecvs = (\<lambda>_. None), mBufs = (\<lambda>_. None), mExs = (\<lambda>_. None), mTokens = (\<lambda>_. None),
     mFreshPtr = 1, mOut = []\<rparr>"

text \<open>\<^verbatim>\<open>mSocketForks_.emplace_back(id)\<close> and the insertion into the identifier map.\<close>

definition add_fork :: "session_id \<Rightarrow> sched \<Rightarrow> fault + nat \<times> sched" where
  "add_fork sid s = bindR (new_fork sid) (\<lambda>f. let i = length (mForks s) in
     Inr (i, s\<lparr>mForks := mForks s @ [f], mIdMap := (mIdMap s)(sid_key sid \<mapsto> i)\<rparr>))"

definition initLocalSocketFork :: "session_id \<Rightarrow> nat option \<Rightarrow> sched \<Rightarrow> fault + sched" where
  "initLocalSocketFork sid ex s = bindR
     (case mIdMap s (sid_key sid) of
        None \<Rightarrow> add_fork sid s
      | Some i \<Rightarrow> bindR (fork_at i s) (\<lambda>f. checkR (NOT (mLocalId f) = 0) Assertion (Inr (i, s))))
     (\<lambda>(i, s). bindR (fork_at i s) (\<lambda>f.
        Inr (set_fork i (f\<lparr>mLocalId := mNextLocal s, mExecutor := ex\<rparr>)
          (s\<lparr>mNextLocal := mNextLocal s + 1\<rparr>))))"

definition getLocalSocketFork :: "session_id \<Rightarrow> sched \<Rightarrow> fault + nat" where
  "getLocalSocketFork sid s = (case mIdMap s (sid_key sid) of None \<Rightarrow> Inl Assertion
     | Some i \<Rightarrow> bindR (fork_at i s) (\<lambda>f. checkR (mLocalId f \<noteq> 0) Assertion (Inr i)))"

definition initRemoteSocketFork :: "u32 \<Rightarrow> session_id \<Rightarrow> sched \<Rightarrow> fault + error_code \<times> sched" where
  "initRemoteSocketFork slotId sid s =
     (if slotId = NOT 0 then Inr (make_error_code BadCoprotoMessageHeader, s)
      else bindR (case mIdMap s (sid_key sid) of None \<Rightarrow> add_fork sid s | Some i \<Rightarrow> Inr (i, s))
        (\<lambda>(i, s). bindR (fork_at i s) (\<lambda>f.
           if mRemoteId f \<noteq> NOT 0 then Inr (make_error_code BadCoprotoMessageHeader, s)
           else checkR (sid_eq (mSessionID f) sid) Assertion
             (checkR (mRemoteMap s slotId = None) Assertion
               (Inr (no_error, set_fork i (f\<lparr>mRemoteId := slotId\<rparr>)
                  (s\<lparr>mRemoteMap := (mRemoteMap s)(slotId \<mapsto> i)\<rparr>)))))))"

text \<open>\<^verbatim>\<open>fork\<close> derives the identifier of the new fork from the one stored in the parent.\<close>

definition sched_fork :: "session_id \<Rightarrow> sched \<Rightarrow> fault + session_id \<times> sched" where
  "sched_fork sid s = bindR (getLocalSocketFork sid s) (\<lambda>i. bindR (fork_at i s) (\<lambda>f.
     let (s2, sid') = derive (mSessionID f); f' = f\<lparr>mSessionID := sid'\<rparr> in
     bindR (initLocalSocketFork s2 (mExecutor f') (set_fork i f' s)) (\<lambda>s. Inr (s2, s))))"

definition setExecutor :: "nat \<Rightarrow> session_id \<Rightarrow> sched \<Rightarrow> fault + sched" where
  "setExecutor ex sid s = bindR (getLocalSocketFork sid s) (\<lambda>i. bindR (fork_at i s) (\<lambda>f.
     Inr (set_fork i (f\<lparr>mExecutor := Some ex\<rparr>) s)))"

section \<open>Waking the tasks\<close>

text \<open>
  The three \<^verbatim>\<open>getHandle\<close> functions: clear the pointer, store the result, hand out the task.
\<close>

definition wake_send :: "error_code + nat \<Rightarrow> nat option \<Rightarrow> sched \<Rightarrow> sched" where
  "wake_send r ex s = emit (Resume Send_Task ex) (s\<lparr>mNextSendOp := False, mSendRes := Some r\<rparr>)"

definition wake_any :: "error_code \<Rightarrow> nat option \<Rightarrow> sched \<Rightarrow> sched" where
  "wake_any r ex s = emit (Resume Recv_Task ex) (s\<lparr>mAnyRecvOp := False, mAnyRes := Some r\<rparr>)"

definition wake_get :: "error_code + nat \<Rightarrow> nat option \<Rightarrow> sched \<Rightarrow> sched" where
  "wake_get r ex s = emit (Resume Recv_Task ex) (s\<lparr>mGetReq := None, mGetRes := Some r\<rparr>)"

section \<open>Cancelling a single operation\<close>

text \<open>
  The callback that a stop request on the user's token runs. The local
  \<^verbatim>\<open>cancelSrc\<close> whose \<^verbatim>\<open>stop_possible()\<close> is tested is a new source, so the test is
  true; the source that is moved into the function is the scheduler's.
\<close>

definition cancel_send :: "nat \<Rightarrow> sched \<Rightarrow> fault + sched" where
  "cancel_send a s = bindR (deref (mSends s) a) (\<lambda>op.
     if so_Status op = NotStarted
     then bindR (send_op_setError a (make_error_code Operation_aborted) s) (\<lambda>s.
          bindR (completeOn_send a s) (\<lambda>s.
          bindR (deref (mSends s) a) (\<lambda>op. case so_Prev op of None \<Rightarrow> Inl Assertion
            | Some p \<Rightarrow> bindR (send_setNext p (so_Next op) s) (\<lambda>s. erase_send (so_Fork op) a s))))
     else bindR (send_setStatus a Canceling s) (\<lambda>s.
          Inr (emit (Call_Stop_Send (mSendSrc s)) (s\<lparr>mSendSrc := False\<rparr>))))"

definition cancel_recv :: "nat \<Rightarrow> sched \<Rightarrow> fault + sched" where
  "cancel_recv a s = bindR (deref (mRecvs s) a) (\<lambda>op.
     if ro_Status op = NotStarted
     then bindR (recv_op_setError a (make_error_code Operation_aborted) (s\<lparr>mNumRecvs := mNumRecvs s - 1\<rparr>)) (\<lambda>s.
          bindR (completeOn_recv a s) (\<lambda>s. erase_recv (ro_Fork op) a s))
     else checkR (ro_Status op = InProgress) Assertion
         (bindR (recv_setStatus a Canceling s) (\<lambda>s.
          Inr (emit (Call_Stop_Recv (mRecvSrc s)) (s\<lparr>mRecvSrc := False\<rparr>)))))"

text \<open>
  \<^verbatim>\<open>setCancelation\<close>. A token whose stop was already requested runs the callback at once.
\<close>

datatype stop_token = No_Stop | Stop_Possible | Stop_Requested

definition setCancelation_send :: "stop_token \<Rightarrow> nat \<Rightarrow> sched \<Rightarrow> fault + sched" where
  "setCancelation_send tok a s = (if tok = No_Stop then Inr s
     else bindR (deref (mSends s) a) (\<lambda>op. let s = set_send a (op\<lparr>so_Reg := True\<rparr>) s in
        if tok = Stop_Requested then cancel_send a s else Inr s))"

definition setCancelation_recv :: "stop_token \<Rightarrow> nat \<Rightarrow> sched \<Rightarrow> fault + sched" where
  "setCancelation_recv tok a s = (if tok = No_Stop then Inr s
     else bindR (deref (mRecvs s) a) (\<lambda>op. let s = set_recv a (op\<lparr>ro_Reg := True\<rparr>) s in
        if tok = Stop_Requested then cancel_recv a s else Inr s))"

section \<open>Send and receive\<close>

text \<open>
  The result is the coroutine that the caller resumes directly (an empty message completes at
  once with an error), or none when it runs its executor handle.
\<close>

definition enqueue_send :: "nat \<Rightarrow> sched \<Rightarrow> fault + sched" where
  "enqueue_send a s = (if mNextSendOp s
     then checkR (mSendStatus s = Idle) Assertion
       (bindR (send_setStatus a InProgress (s\<lparr>mSendStatus := InUse\<rparr>)) (\<lambda>s.
        checkR (mSendBegin s = None \<and> mSendLast s = None) Assertion
          (Inr ((wake_send (Inr a) None s)\<lparr>mSendBegin := Some a, mSendLast := Some a\<rparr>))))
     else (case mSendLast s of None \<Rightarrow> Inl Assertion
       | Some l \<Rightarrow> bindR (send_setNext l (Some a) s) (\<lambda>s. Inr (s\<lparr>mSendLast := Some a\<rparr>))))"

definition send :: "session_id \<Rightarrow> send_buffer \<Rightarrow> nat \<Rightarrow> stop_token \<Rightarrow> sched \<Rightarrow> fault + coro option \<times> sched" where
  "send sid b cb tok s = (if sb_data b = []
     then bindR (send_setError b (make_error_code SendLengthZeroMsg) (mExs s)) (\<lambda>ex.
       Inr (Some (User cb), s\<lparr>mExs := ex\<rparr>))
     else bindR (getLocalSocketFork sid s) (\<lambda>i. bindR (fork_at i s) (\<lambda>f.
       if is_error (mEC s)
       then bindR (send_setError b (mEC s) (mExs s)) (\<lambda>ex.
         Inr (None, emit (Resume (User cb) (mExecutor f)) (s\<lparr>mExs := ex\<rparr>)))
       else bindR (emplace_send i (new_send_op i cb b) s) (\<lambda>(a, s).
            bindR (enqueue_send a s) (\<lambda>s.
            bindR (setCancelation_send tok a s) (\<lambda>s. Inr (None, s)))))))"

definition match_recv :: "nat \<Rightarrow> nat \<Rightarrow> sched \<Rightarrow> fault + sched" where
  "match_recv i a s = bindR (fork_at i s) (\<lambda>f.
     bindR (if mAnyRecvOp s
       then checkR (mRecvStatus s = Idle) Assertion
         (bindR (recv_setStatus a InProgress (s\<lparr>mRecvStatus := InUse\<rparr>)) (\<lambda>s.
           Inr (wake_any (make_error_code Success) (mExecutor f) s)))
       else Inr s)
     (\<lambda>s. if mGetReq s = Some (mRemoteId f)
       then checkR (mRecvStatus s = RequestedRecvOp) Assertion
         (bindR (recv_setStatus a InProgress (s\<lparr>mRecvStatus := InUse\<rparr>)) (\<lambda>s.
           Inr (wake_get (Inr a) (mExecutor f) s)))
       else Inr s))"

definition recv :: "session_id \<Rightarrow> nat \<Rightarrow> nat \<Rightarrow> stop_token \<Rightarrow> sched \<Rightarrow> fault + sched" where
  "recv sid data ch tok s = bindR (getLocalSocketFork sid s) (\<lambda>i. bindR (fork_at i s) (\<lambda>f.
     if is_error (mEC s)
     then bindR (deref (mBufs s) data) (\<lambda>b.
       Inr (emit (Resume (User ch) (mExecutor f)) (s\<lparr>mExs := recv_setError b (mEC s) (mExs s)\<rparr>)))
     else bindR (emplace_recv i (new_recv_op data ch i) (s\<lparr>mNumRecvs := mNumRecvs s + 1\<rparr>)) (\<lambda>(a, s).
          bindR (match_recv i a s) (\<lambda>s. setCancelation_recv tok a s))))"

section \<open>Cancelling everything\<close>

text \<open>The number of operations in the send queues; each step of the loops removes one.\<close>

definition send_total :: "sched \<Rightarrow> nat" where
  "send_total s = sum_list (map (\<lambda>f. unat (mSize (mSendOps f))) (mForks s))"

definition recv_total :: "sched \<Rightarrow> nat" where
  "recv_total s = sum_list (map (\<lambda>f. unat (mSize (mRecvOps f))) (mForks s))"

text \<open>
  One step of the send loop of \<^verbatim>\<open>cancel\<close>: complete the operation with the pending error (only
  the first one gets it, the others get \<^verbatim>\<open>code::cancel\<close>) and remove it from its fork. The result
  is the next operation.
\<close>

definition abort_send :: "error_code \<Rightarrow> nat \<Rightarrow> sched \<Rightarrow> fault + nat option \<times> sched" where
  "abort_send ec a s = bindR (deref (mSends s) a) (\<lambda>op. checkR (so_Status op = NotStarted) Assertion
     (bindR (fork_at (so_Fork op) s) (\<lambda>f. bindR (queue_front (mSendOps f)) (\<lambda>x. checkR (x = a) Assertion
       (bindR (send_op_setError a ec s) (\<lambda>s. bindR (completeOn_send a s) (\<lambda>s.
        bindR (deref (mSends s) a) (\<lambda>op. bindR (pop_front_send (so_Fork op) s) (\<lambda>s. Inr (so_Next op, s))))))))))"

definition abort_recv :: "error_code \<Rightarrow> nat \<Rightarrow> sched \<Rightarrow> fault + sched" where
  "abort_recv ec i s = bindR (fork_at i s) (\<lambda>f. bindR (queue_front (mRecvOps f)) (\<lambda>a.
     bindR (recv_op_setError a ec s) (\<lambda>s. bindR (completeOn_recv a s) (pop_front_recv i))))"

text \<open>Completing operations does not touch the forks.\<close>

lemma notify_flushes_frame:
  "notify_flushes ex ts s = Inr s' \<Longrightarrow> \<exists>tk out. s' = s\<lparr>mTokens := tk, mOut := mOut s @ out\<rparr>"
proof (induction ts arbitrary: s)
  case (Cons t ts)
  then show ?case
    by (fastforce simp: fault_simps emit_def split: if_splits option.splits)
next
  case Nil
  then show ?case by (intro exI [of _ "mTokens s"] exI [of _ "[]"]) simp
qed

lemma release_flushes_frame:
  "release_flushes ts s = Inr s' \<Longrightarrow> \<exists>tk. s' = s\<lparr>mTokens := tk\<rparr>"
proof (induction ts arbitrary: s)
  case (Cons t ts)
  then show ?case by (fastforce simp: fault_simps split: if_splits option.splits)
next
  case Nil
  then show ?case by (intro exI [of _ "mTokens s"]) simp
qed

lemma completeOn_send_frame:
  assumes "completeOn_send a s = Inr s'"
  shows "\<exists>op h f tk out. mSends s a = Some op \<and> so_CH op = Some h \<and> fork_at (so_Fork op) s = Inr f
     \<and> s' = s\<lparr>mSends := (mSends s)(a \<mapsto> op\<lparr>so_CH := None, so_Flushes := []\<rparr>), mTokens := tk,
            mOut := mOut s @ Resume (User h) (mExecutor f) # out\<rparr>"
proof -
  obtain op h f s1 s2 where 1: "mSends s a = Some op" "so_CH op = Some h" "fork_at (so_Fork op) s = Inr f"
      "notify_flushes (mExecutor f) (so_Flushes op)
         (emit (Resume (User h) (mExecutor f)) (set_send a (op\<lparr>so_CH := None\<rparr>) s)) = Inr s1"
      "release_flushes (so_Flushes op) s1 = Inr s2"
      "s' = set_send a (op\<lparr>so_CH := None, so_Flushes := []\<rparr>) s2"
    using assms by (auto simp: completeOn_send_def fault_simps split: option.splits)
  from notify_flushes_frame [OF 1(4)] release_flushes_frame [OF 1(5)] obtain tk out tk' where
      "s1 = (emit (Resume (User h) (mExecutor f)) (set_send a (op\<lparr>so_CH := None\<rparr>) s))\<lparr>mTokens := tk,
         mOut := mOut (emit (Resume (User h) (mExecutor f)) (set_send a (op\<lparr>so_CH := None\<rparr>) s)) @ out\<rparr>"
      "s2 = s1\<lparr>mTokens := tk'\<rparr>"
    by blast
  then show ?thesis
    using 1(1-3,6) by (intro exI [of _ op] exI [of _ h] exI [of _ f] exI [of _ tk'] exI [of _ out])
      (simp add: emit_def set_send_def)
qed

lemma completeOn_recv_frame:
  assumes "completeOn_recv a s = Inr s'"
  shows "\<exists>op h f tk out. mRecvs s a = Some op \<and> ro_CH op = Some h \<and> fork_at (ro_Fork op) s = Inr f
     \<and> s' = s\<lparr>mRecvs := (mRecvs s)(a \<mapsto> op\<lparr>ro_CH := None, ro_Flushes := []\<rparr>), mTokens := tk,
            mOut := mOut s @ Resume (User h) (mExecutor f) # out\<rparr>"
proof -
  obtain op h f s1 s2 where 1: "mRecvs s a = Some op" "ro_CH op = Some h" "fork_at (ro_Fork op) s = Inr f"
      "notify_flushes (mExecutor f) (ro_Flushes op)
         (emit (Resume (User h) (mExecutor f)) (set_recv a (op\<lparr>ro_CH := None\<rparr>) s)) = Inr s1"
      "release_flushes (ro_Flushes op) s1 = Inr s2"
      "s' = set_recv a (op\<lparr>ro_CH := None, ro_Flushes := []\<rparr>) s2"
    using assms by (auto simp: completeOn_recv_def fault_simps split: option.splits)
  from notify_flushes_frame [OF 1(4)] release_flushes_frame [OF 1(5)] obtain tk out tk' where
      "s1 = (emit (Resume (User h) (mExecutor f)) (set_recv a (op\<lparr>ro_CH := None\<rparr>) s))\<lparr>mTokens := tk,
         mOut := mOut (emit (Resume (User h) (mExecutor f)) (set_recv a (op\<lparr>ro_CH := None\<rparr>) s)) @ out\<rparr>"
      "s2 = s1\<lparr>mTokens := tk'\<rparr>"
    by blast
  then show ?thesis
    using 1(1-3,6) by (intro exI [of _ op] exI [of _ h] exI [of _ f] exI [of _ tk'] exI [of _ out])
      (simp add: emit_def set_recv_def)
qed

lemma setError_frame:
  "send_op_setError a ec s = Inr s' \<Longrightarrow> \<exists>ex. s' = s\<lparr>mExs := ex\<rparr>"
  "recv_op_setError a ec s = Inr s' \<Longrightarrow> \<exists>ex. s' = s\<lparr>mExs := ex\<rparr>"
  by (auto simp: send_op_setError_def recv_op_setError_def fault_simps)

lemma sum_list_update_less:
  fixes f :: "'a \<Rightarrow> nat"
  assumes "i < length xs" and "f y < f (xs ! i)"
  shows "sum_list (map f (xs[i := y])) < sum_list (map f xs)"
proof -
  have "xs = take i xs @ xs ! i # drop (Suc i) xs" using assms(1) by (rule id_take_nth_drop)
  then have "sum_list (map f xs) = sum_list (map f (take i xs)) + f (xs ! i) + sum_list (map f (drop (Suc i) xs))"
    by (metis (no_types, lifting) add.assoc list.simps(9) map_append sum_list.Cons sum_list_append)
  then show ?thesis using assms by (simp add: upd_conv_take_nth_drop)
qed

lemma pop_front_size_less: "pop_front q = Inr q' \<Longrightarrow> unat (mSize q') < unat (mSize q)"
  by (auto dest!: pop_front_mSize simp: unat_minus_one unat_gt_0)

lemma pop_front_send_less: "pop_front_send i s = Inr s' \<Longrightarrow> send_total s' < send_total s"
  by (auto simp: pop_front_send_def fault_simps fork_at_def set_fork_def send_total_def split: if_splits
      intro!: sum_list_update_less pop_front_size_less)

lemma pop_front_recv_less: "pop_front_recv i s = Inr s' \<Longrightarrow> recv_total s' < recv_total s"
  by (auto simp: pop_front_recv_def fault_simps fork_at_def set_fork_def recv_total_def split: if_splits
      intro!: sum_list_update_less pop_front_size_less)

lemma abort_send_less: "abort_send ec a s = Inr (nx, s') \<Longrightarrow> send_total s' < send_total s"
  by (auto simp: abort_send_def fault_simps send_total_def
      dest!: setError_frame completeOn_send_frame pop_front_send_less)

lemma abort_recv_less: "abort_recv ec i s = Inr s' \<Longrightarrow> recv_total s' < recv_total s"
  by (auto simp: abort_recv_def fault_simps recv_total_def
      dest!: setError_frame completeOn_recv_frame pop_front_recv_less)

function abort_sends :: "error_code \<Rightarrow> nat option \<Rightarrow> sched \<Rightarrow> fault + sched" where
  "abort_sends ec None s = Inr s"
| "abort_sends ec (Some a) s = (case abort_send ec a s of Inl e \<Rightarrow> Inl e
     | Inr (nx, s') \<Rightarrow> abort_sends (make_error_code Cancel) nx s')"
  by pat_completeness auto

termination abort_sends
  by (relation "measure (\<lambda>(_, _, s). send_total s)") (auto dest: abort_send_less)

text \<open>The receive loop goes through the forks from the \<open>i\<close>-th on; \<open>n\<close> of them are left.\<close>

function abort_recvs :: "nat \<Rightarrow> error_code \<Rightarrow> nat \<Rightarrow> sched \<Rightarrow> fault + sched" where
  "abort_recvs 0 ec i s = Inr s"
| "abort_recvs (Suc n) ec i s = (case fork_at i s of Inl e \<Rightarrow> Inl e
     | Inr f \<Rightarrow> if queue_size (mRecvOps f) = 0 then abort_recvs n ec (Suc i) s
        else (case abort_recv ec i s of Inl e \<Rightarrow> Inl e
          | Inr s' \<Rightarrow> abort_recvs (Suc n) (make_error_code Cancel) i s'))"
  by pat_completeness auto

termination abort_recvs
  by (relation "measures [\<lambda>(n, _). n, \<lambda>(_, _, _, s). recv_total s]") (auto dest: abort_recv_less)

declare abort_sends.simps(2) [simp del] abort_recvs.simps(2) [simp del]

text \<open>
  The first half of \<^verbatim>\<open>cancel\<close>, on the first error only: record it, ask the underlying socket
  to stop, and wake whichever task waits. The result is the error that is left to be reported.
\<close>

definition cancel_first :: "caller \<Rightarrow> error_code \<Rightarrow> sched \<Rightarrow> fault + error_code \<times> sched" where
  "cancel_first c ec s = (if is_error (mEC s) then Inr (ec, s)
     else checkR (is_error ec) Assertion
       (let s = s\<lparr>mEC := ec\<rparr>;
            s = (if mRecvStatus s = InUse then emit (Stop_Recv (mRecvSrc s)) s else s);
            s = (if mSendStatus s = InUse then emit (Stop_Send (mSendSrc s)) s else s);
            s = (if mAnyRecvOp s then wake_any (make_error_code Cancel) None s else s);
            (e, ec', s) = (case mGetReq s of None \<Rightarrow> (ec, ec, s)
              | Some _ \<Rightarrow> let (e, ec') = (if c = Sender then (make_error_code Cancel, ec) else (ec, make_error_code Cancel))
                  in (e, ec', wake_get (Inl e) None s));
            s = (if mNextSendOp s then wake_send (Inl (make_error_code Cancel)) None s else s)
        in Inr (ec', s)))"

definition cancel :: "caller \<Rightarrow> error_code \<Rightarrow> sched \<Rightarrow> fault + sched" where
  "cancel c ec s = bindR (cancel_first c ec s) (\<lambda>(ec, s).
     bindR (if c = Sender
       then abort_sends ec (mSendBegin s) (s\<lparr>mSendStatus := SClosed, mSendBegin := None, mSendLast := None\<rparr>)
       else Inr s)
     (\<lambda>s. if c = Recver
       then bindR (abort_recvs (length (mForks s)) ec 0 (s\<lparr>mRecvStatus := SClosed\<rparr>)) (\<lambda>s. Inr (s\<lparr>mNumRecvs := 0\<rparr>))
       else Inr s))"

definition sched_close :: "sched \<Rightarrow> fault + sched" where
  "sched_close s = cancel Extern (make_error_code Closed) s"

text \<open>\<^verbatim>\<open>~SockScheduler\<close>, up to waiting for the tasks.\<close>

definition sched_destroy :: "sched \<Rightarrow> fault + sched" where
  "sched_destroy s = (if mRecvStatus s = InUse \<or> mSendStatus s = InUse then Inl Terminated else sched_close s)"

section \<open>The awaiters of the send task\<close>

definition complete_prev_send :: "nat \<Rightarrow> error_code \<Rightarrow> sched \<Rightarrow> fault + error_code \<times> sched" where
  "complete_prev_send a ec s =
     bindR (if is_error ec then bindR (send_op_setError a ec s) (\<lambda>s. Inr (make_error_code Cancel, s)) else Inr (ec, s))
     (\<lambda>(ec, s). bindR (completeOn_send a s) (\<lambda>s. bindR (deref (mSends s) a) (\<lambda>op. let nx = so_Next op in
        bindR (send_setNext a None s) (\<lambda>s. bindR (fork_at (so_Fork op) s) (\<lambda>f.
        bindR (queue_front (mSendOps f)) (\<lambda>x. checkR (x = a) Assertion (checkR (mSendBegin s = Some a) Assertion
          (let s = s\<lparr>mSendBegin := nx\<rparr>; s = (if nx = None then s\<lparr>mSendLast := None\<rparr> else s) in
           bindR (pop_front_send (so_Fork op) s) (\<lambda>s. Inr (ec, s))))))))))"

definition next_send :: "nat option \<Rightarrow> error_code \<Rightarrow> sched \<Rightarrow> fault + sched" where
  "next_send prevOp prevEc s =
     bindR (case prevOp of None \<Rightarrow> Inr (prevEc, s) | Some a \<Rightarrow> complete_prev_send a prevEc s) (\<lambda>(ec, s).
       if is_error ec \<or> is_error (mEC s)
       then bindR (case mSendBegin s of None \<Rightarrow> Inr s
              | Some b \<Rightarrow> bindR (deref (mSends s) b) (\<lambda>op. checkR (so_Status op = NotStarted) Assertion (Inr s)))
            (\<lambda>s. bindR (cancel Sender ec s) (\<lambda>s.
              Inr (emit (Resume Send_Task None) (s\<lparr>mSendRes := Some (Inl (make_error_code Closed))\<rparr>))))
       else (case mSendBegin s of
           Some b \<Rightarrow> bindR (deref (mSends s) b) (\<lambda>op. checkR (so_Status op = NotStarted) Assertion
             (bindR (send_setStatus b InProgress s) (\<lambda>s.
               Inr (emit (Resume Send_Task None) (s\<lparr>mSendRes := Some (Inr b)\<rparr>)))))
         | None \<Rightarrow> Inr (s\<lparr>mSendStatus := Idle, mNextSendOp := True\<rparr>)))"

section \<open>The awaiters of the receive task\<close>

definition complete_prev_recv :: "nat \<Rightarrow> error_code \<Rightarrow> sched \<Rightarrow> fault + error_code \<times> sched" where
  "complete_prev_recv a ec s = (let s = s\<lparr>mRecvSrc := True\<rparr> in
     bindR (deref (mRecvs s) a) (\<lambda>op. bindR (fork_at (ro_Fork op) s) (\<lambda>f.
       checkR (mNumRecvs s \<noteq> 0 \<and> queue_size (mRecvOps f) \<noteq> 0) Assertion
       (bindR (queue_front (mRecvOps f)) (\<lambda>x. checkR (x = a) Assertion
       (bindR (if is_error ec then bindR (recv_op_setError a ec s) (\<lambda>s. Inr (make_error_code Cancel, s)) else Inr (ec, s))
       (\<lambda>(ec, s). bindR (completeOn_recv a s) (\<lambda>s. bindR (pop_front_recv (ro_Fork op) s) (\<lambda>s.
          Inr (ec, s\<lparr>mNumRecvs := mNumRecvs s - 1\<rparr>))))))))))"

definition any_recv :: "nat option \<Rightarrow> error_code \<Rightarrow> sched \<Rightarrow> fault + sched" where
  "any_recv prevOp prevEc s =
     bindR (case prevOp of None \<Rightarrow> Inr (prevEc, s) | Some a \<Rightarrow> complete_prev_recv a prevEc s) (\<lambda>(ec, s).
       if is_error ec \<or> is_error (mEC s)
       then bindR (cancel Recver ec (s\<lparr>mAnyRes := Some (make_error_code Cancel)\<rparr>)) (\<lambda>s.
              Inr (emit (Resume Recv_Task None) s))
       else if mNumRecvs s \<noteq> 0
       then Inr (emit (Resume Recv_Task None) (s\<lparr>mAnyRes := Some (make_error_code Success)\<rparr>))
       else Inr (s\<lparr>mRecvStatus := Idle, mAnyRecvOp := True\<rparr>))"

definition get_recv :: "u32 \<Rightarrow> sched \<Rightarrow> fault + sched" where
  "get_recv remoteId s =
     bindR (if mRemoteMap s remoteId = None
       then cancel Recver (make_error_code BadCoprotoMessageHeader) s else Inr s) (\<lambda>s.
     if is_error (mEC s) then Inr (emit (Resume Recv_Task None) (s\<lparr>mGetRes := Some (Inl (mEC s))\<rparr>))
     else (case mRemoteMap s remoteId of None \<Rightarrow> Inl Bad_Pointer
       | Some i \<Rightarrow> bindR (fork_at i s) (\<lambda>f.
          if queue_size (mRecvOps f) = 0
          then Inr (s\<lparr>mRecvStatus := RequestedRecvOp, mGetReq := Some remoteId\<rparr>)
          else bindR (queue_front (mRecvOps f)) (\<lambda>a. bindR (recv_setStatus a InProgress s) (\<lambda>s.
            Inr (emit (Resume Recv_Task None) (s\<lparr>mGetRes := Some (Inr a)\<rparr>)))))))"

section \<open>Flush\<close>

text \<open>
  A token is created and shared with the last operation of every queue; the local reference is
  released when the function returns. Nothing pending: the caller goes on at once.
\<close>

fun flush_forks :: "nat \<Rightarrow> nat \<Rightarrow> nat \<Rightarrow> sched \<Rightarrow> fault + sched" where
  "flush_forks 0 i t s = Inr s"
| "flush_forks (Suc n) i t s = bindR (fork_at i s) (\<lambda>f.
     bindR (if queue_size (mRecvOps f) \<noteq> 0 then bindR (queue_back (mRecvOps f)) (\<lambda>a. addFlush_recv a t s) else Inr s) (\<lambda>s.
     bindR (if queue_size (mSendOps f) \<noteq> 0 then bindR (queue_back (mSendOps f)) (\<lambda>a. addFlush_send a t s) else Inr s)
       (flush_forks n (Suc i) t)))"

definition flush :: "nat \<Rightarrow> sched \<Rightarrow> fault + coro option \<times> sched" where
  "flush h s = (if mNumRecvs s = 0 \<and> mSendBegin s = None then Inr (Some (User h), s)
     else let t = mFreshPtr s; s = s\<lparr>mFreshPtr := t + 1, mTokens := (mTokens s)(t \<mapsto> \<lparr>ft_Handle = Some h, ft_Uses = 1\<rparr>)\<rparr> in
       bindR (flush_forks (length (mForks s)) 0 t s) (\<lambda>s. bindR (release_flushes [t] s) (\<lambda>s. Inr (None, s))))"

section \<open>Construction\<close>

text \<open>\<^verbatim>\<open>init\<close>: the root fork, then both tasks run up to their first suspension.\<close>

definition sched_init :: "session_id \<Rightarrow> fault + sched" where
  "sched_init sid = bindR (initLocalSocketFork sid None sched_empty) (\<lambda>s.
     bindR (any_recv None no_error s) (next_send None no_error))"

end
