(* ===== verification/Sched_Complete.thy ===== *)
theory Sched_Complete
  imports Scheduler
begin

text \<open>
  Completion of operations: when the flush tokens are in order, completing an operation succeeds
  and its effect has a closed form, for send and for receive operations. The invariants of the
  scheduler are about these closed forms.
\<close>

section \<open>Flush tokens\<close>

text \<open>The tokens and the resumed coroutines after an operation with the tokens \<open>ts\<close> is gone.\<close>

definition settle :: "(nat \<Rightarrow> flush_token option) \<Rightarrow> nat list \<Rightarrow> nat \<Rightarrow> flush_token option" where
  "settle m ts = (\<lambda>t. if t \<in> set ts
     then (if ft_Uses (the (m t)) = 1 then None else Some ((the (m t))\<lparr>ft_Uses := ft_Uses (the (m t)) - 1\<rparr>))
     else m t)"

definition wakes :: "nat option \<Rightarrow> (nat \<Rightarrow> flush_token option) \<Rightarrow> nat list \<Rightarrow> effect list" where
  "wakes ex m ts = map (\<lambda>t. Resume (User (the (ft_Handle (the (m t))))) ex)
     (filter (\<lambda>t. ft_Uses (the (m t)) = 1) ts)"

definition live_tokens :: "(nat \<Rightarrow> flush_token option) \<Rightarrow> nat list \<Rightarrow> bool" where
  "live_tokens m ts \<longleftrightarrow> distinct ts \<and>
     (\<forall>t \<in> set ts. \<exists>tok. m t = Some tok \<and> ft_Handle tok \<noteq> None \<and> 0 < ft_Uses tok)"

lemma notify_flushes_live:
  "live_tokens (mTokens s) ts \<Longrightarrow> notify_flushes ex ts s = Inr (s\<lparr>mTokens := (\<lambda>t.
       if t \<in> set ts \<and> ft_Uses (the (mTokens s t)) = 1 then Some ((the (mTokens s t))\<lparr>ft_Handle := None\<rparr>) else mTokens s t),
     mOut := mOut s @ wakes ex (mTokens s) ts\<rparr>)"
proof (induction ts arbitrary: s)
  case (Cons t ts)
  then obtain tok h where t: "mTokens s t = Some tok" "ft_Handle tok = Some h"
    by (auto simp: live_tokens_def)
  have nt: "t \<notin> set ts" using Cons.prems by (simp add: live_tokens_def)
  show ?case
  proof (cases "ft_Uses tok = 1")
    case True
    let ?s = "emit (Resume (User h) ex) (s\<lparr>mTokens := (mTokens s)(t \<mapsto> tok\<lparr>ft_Handle := None\<rparr>)\<rparr>)"
    have "live_tokens (mTokens ?s) ts" using Cons.prems nt by (auto simp: live_tokens_def emit_def)
    from Cons.IH [OF this] have "notify_flushes ex (t # ts) s = Inr (?s\<lparr>mTokens := (\<lambda>u.
       if u \<in> set ts \<and> ft_Uses (the (mTokens ?s u)) = 1 then Some ((the (mTokens ?s u))\<lparr>ft_Handle := None\<rparr>) else mTokens ?s u),
       mOut := mOut ?s @ wakes ex (mTokens ?s) ts\<rparr>)"
      using t True by simp
    moreover have "wakes ex (mTokens ?s) ts = wakes ex (mTokens s) ts"
      using nt unfolding wakes_def
      by (intro arg_cong2 [where f = map] filter_cong map_cong refl) (auto simp: emit_def)
    moreover have "(\<lambda>u. if u \<in> set ts \<and> ft_Uses (the (mTokens ?s u)) = 1
          then Some ((the (mTokens ?s u))\<lparr>ft_Handle := None\<rparr>) else mTokens ?s u)
       = (\<lambda>u. if u \<in> set (t # ts) \<and> ft_Uses (the (mTokens s u)) = 1
          then Some ((the (mTokens s u))\<lparr>ft_Handle := None\<rparr>) else mTokens s u)"
      using t True nt by (auto simp: emit_def fun_eq_iff)
    ultimately show ?thesis using t True by (simp add: emit_def wakes_def)
  next
    case False
    have "live_tokens (mTokens s) ts" using Cons.prems by (simp add: live_tokens_def)
    from Cons.IH [OF this] t False show ?thesis
      by (auto simp: wakes_def fun_eq_iff intro!: arg_cong [where f = "\<lambda>m. s\<lparr>mTokens := m, mOut := _\<rparr>"])
  qed
qed (simp add: wakes_def)

lemma release_flushes_live:
  "distinct ts \<Longrightarrow> \<forall>t \<in> set ts. \<exists>tok. mTokens s t = Some tok \<and> 0 < ft_Uses tok \<and> (ft_Uses tok = 1 \<longrightarrow> ft_Handle tok = None) \<Longrightarrow>
     release_flushes ts s = Inr (s\<lparr>mTokens := settle (mTokens s) ts\<rparr>)"
proof (induction ts arbitrary: s)
  case (Cons t ts)
  then obtain tok where t: "mTokens s t = Some tok" "0 < ft_Uses tok" "ft_Uses tok = 1 \<longrightarrow> ft_Handle tok = None"
    by auto
  have nt: "t \<notin> set ts" using Cons.prems by simp
  define m where "m = (mTokens s)(t := if ft_Uses tok = 1 then None else Some (tok\<lparr>ft_Uses := ft_Uses tok - 1\<rparr>))"
  have m: "m u = mTokens s u" if "u \<noteq> t" for u using that by (simp add: m_def)
  have live: "\<forall>u \<in> set ts. \<exists>tok. mTokens (s\<lparr>mTokens := m\<rparr>) u = Some tok \<and> 0 < ft_Uses tok
      \<and> (ft_Uses tok = 1 \<longrightarrow> ft_Handle tok = None)"
  proof
    fix u assume u: "u \<in> set ts"
    then have "u \<noteq> t" using nt by blast
    then show "\<exists>tok. mTokens (s\<lparr>mTokens := m\<rparr>) u = Some tok \<and> 0 < ft_Uses tok \<and> (ft_Uses tok = 1 \<longrightarrow> ft_Handle tok = None)"
      using Cons.prems(2) u m by simp
  qed
  have "distinct ts" using Cons.prems by simp
  from Cons.IH [OF this live] have r: "release_flushes ts (s\<lparr>mTokens := m\<rparr>) = Inr (s\<lparr>mTokens := settle m ts\<rparr>)"
    by simp
  have se: "settle m ts = settle (mTokens s) (t # ts)"
    using t(1) nt by (auto simp: settle_def fun_eq_iff m_def)
  have "release_flushes (t # ts) s = release_flushes ts (s\<lparr>mTokens := m\<rparr>)"
    using t by (simp add: m_def)
  then show ?case using r se by simp
qed (simp add: settle_def)

lemma notify_release:
  assumes "live_tokens (mTokens s) ts"
  obtains s1 where "notify_flushes ex ts s = Inr s1"
    "release_flushes ts s1 = Inr (s\<lparr>mTokens := settle (mTokens s) ts, mOut := mOut s @ wakes ex (mTokens s) ts\<rparr>)"
proof
  let ?m = "\<lambda>t. if t \<in> set ts \<and> ft_Uses (the (mTokens s t)) = 1
      then Some ((the (mTokens s t))\<lparr>ft_Handle := None\<rparr>) else mTokens s t"
  let ?s = "s\<lparr>mTokens := ?m, mOut := mOut s @ wakes ex (mTokens s) ts\<rparr>"
  show "notify_flushes ex ts s = Inr ?s" by (rule notify_flushes_live [OF assms])
  have "settle ?m ts = settle (mTokens s) ts" by (auto simp: settle_def fun_eq_iff)
  moreover have "release_flushes ts ?s = Inr (?s\<lparr>mTokens := settle (mTokens ?s) ts\<rparr>)"
    using assms by (intro release_flushes_live) (auto simp: live_tokens_def)
  ultimately show "release_flushes ts ?s = Inr (s\<lparr>mTokens := settle (mTokens s) ts, mOut := mOut s @ wakes ex (mTokens s) ts\<rparr>)"
    by simp
qed

section \<open>The closed forms\<close>

definition finish_send :: "nat \<Rightarrow> sched \<Rightarrow> sched" where
  "finish_send a s = (let op = the (mSends s a); ex = mExecutor (mForks s ! so_Fork op) in
     s\<lparr>mSends := (mSends s)(a \<mapsto> op\<lparr>so_CH := None, so_Flushes := []\<rparr>),
       mTokens := settle (mTokens s) (so_Flushes op),
       mOut := mOut s @ Resume (User (the (so_CH op))) ex # wakes ex (mTokens s) (so_Flushes op)\<rparr>)"

definition finish_recv :: "nat \<Rightarrow> sched \<Rightarrow> sched" where
  "finish_recv a s = (let op = the (mRecvs s a); ex = mExecutor (mForks s ! ro_Fork op) in
     s\<lparr>mRecvs := (mRecvs s)(a \<mapsto> op\<lparr>ro_CH := None, ro_Flushes := []\<rparr>),
       mTokens := settle (mTokens s) (ro_Flushes op),
       mOut := mOut s @ Resume (User (the (ro_CH op))) ex # wakes ex (mTokens s) (ro_Flushes op)\<rparr>)"

lemma completeOn_send_closed:
  assumes "mSends s a = Some op" and "so_CH op \<noteq> None" and "so_Fork op < length (mForks s)"
    and "live_tokens (mTokens s) (so_Flushes op)"
  shows "completeOn_send a s = Inr (finish_send a s)"
proof -
  obtain h where h: "so_CH op = Some h" using assms(2) by blast
  let ?f = "mForks s ! so_Fork op"
  let ?s = "emit (Resume (User h) (mExecutor ?f)) (set_send a (op\<lparr>so_CH := None\<rparr>) s)"
  have "live_tokens (mTokens ?s) (so_Flushes op)" using assms(4) by (simp add: emit_def set_send_def)
  then obtain s1 where "notify_flushes (mExecutor ?f) (so_Flushes op) ?s = Inr s1"
     "release_flushes (so_Flushes op) s1 = Inr (?s\<lparr>mTokens := settle (mTokens ?s) (so_Flushes op),
        mOut := mOut ?s @ wakes (mExecutor ?f) (mTokens ?s) (so_Flushes op)\<rparr>)"
    by (rule notify_release)
  then show ?thesis
    using assms(1,3) h by (simp add: completeOn_send_def fork_at_def finish_send_def Let_def emit_def set_send_def)
qed

lemma completeOn_recv_closed:
  assumes "mRecvs s a = Some op" and "ro_CH op \<noteq> None" and "ro_Fork op < length (mForks s)"
    and "live_tokens (mTokens s) (ro_Flushes op)"
  shows "completeOn_recv a s = Inr (finish_recv a s)"
proof -
  obtain h where h: "ro_CH op = Some h" using assms(2) by blast
  let ?f = "mForks s ! ro_Fork op"
  let ?s = "emit (Resume (User h) (mExecutor ?f)) (set_recv a (op\<lparr>ro_CH := None\<rparr>) s)"
  have "live_tokens (mTokens ?s) (ro_Flushes op)" using assms(4) by (simp add: emit_def set_recv_def)
  then obtain s1 where "notify_flushes (mExecutor ?f) (ro_Flushes op) ?s = Inr s1"
     "release_flushes (ro_Flushes op) s1 = Inr (?s\<lparr>mTokens := settle (mTokens ?s) (ro_Flushes op),
        mOut := mOut ?s @ wakes (mExecutor ?f) (mTokens ?s) (ro_Flushes op)\<rparr>)"
    by (rule notify_release)
  then show ?thesis
    using assms(1,3) h by (simp add: completeOn_recv_def fork_at_def finish_recv_def Let_def emit_def set_recv_def)
qed

section \<open>The token invariant\<close>

text \<open>The number of operations of a map that share a token; \<open>fl\<close> selects their tokens.\<close>

definition refs :: "(nat \<Rightarrow> 'o option) \<Rightarrow> ('o \<Rightarrow> nat list) \<Rightarrow> nat \<Rightarrow> nat" where
  "refs m fl t = card {a. \<exists>op. m a = Some op \<and> t \<in> set (fl op)}"

definition held :: "'o option \<Rightarrow> ('o \<Rightarrow> nat list) \<Rightarrow> nat \<Rightarrow> nat" where
  "held v fl t = (case v of None \<Rightarrow> 0 | Some op \<Rightarrow> if t \<in> set (fl op) then 1 else 0)"

lemma finite_refs: "finite (dom m) \<Longrightarrow> finite {a. \<exists>op. m a = Some op \<and> t \<in> set (fl op)}"
  by (rule rev_finite_subset) auto

lemma refs_upd:
  assumes "finite (dom m)"
  shows "refs (m(a := v)) fl t = refs (m(a := None)) fl t + held v fl t"
proof -
  let ?A = "{b. \<exists>op. (m(a := None)) b = Some op \<and> t \<in> set (fl op)}"
  have "finite (dom (m(a := None)))" using assms by simp
  then have "finite ?A" by (rule finite_refs)
  moreover have "a \<notin> ?A" by simp
  moreover have "{b. \<exists>op. (m(a := v)) b = Some op \<and> t \<in> set (fl op)} = (if held v fl t = 1 then insert a ?A else ?A)"
    by (auto simp: held_def split: option.splits if_splits)
  moreover have "held v fl t = 0 \<or> held v fl t = 1" by (auto simp: held_def split: option.splits)
  ultimately show ?thesis by (auto simp: refs_def)
qed

lemma refs_at: "finite (dom m) \<Longrightarrow> refs m fl t = refs (m(a := None)) fl t + held (m a) fl t"
  using refs_upd [of m a "m a"] by simp

lemma refs_replace:
  "finite (dom m) \<Longrightarrow> m a = Some op \<Longrightarrow> fl op' = fl op \<Longrightarrow> refs (m(a \<mapsto> op')) fl t = refs m fl t"
  using refs_upd [of m a "Some op'" fl t] refs_at [of m fl t a] by (simp add: held_def)

definition token_refs :: "sched \<Rightarrow> nat \<Rightarrow> nat" where
  "token_refs s t = refs (mSends s) so_Flushes t + refs (mRecvs s) ro_Flushes t"

text \<open>
  A token is alive exactly while pending operations share it; its use count is the number of them,
  and its coroutine has not been resumed.
\<close>

definition token_ok :: "flush_token option \<Rightarrow> nat \<Rightarrow> bool" where
  "token_ok v n \<longleftrightarrow> (case v of None \<Rightarrow> n = 0
     | Some tok \<Rightarrow> ft_Handle tok \<noteq> None \<and> 0 < ft_Uses tok \<and> ft_Uses tok = n)"

definition token_inv :: "sched \<Rightarrow> bool" where
  "token_inv s \<longleftrightarrow> finite (dom (mSends s)) \<and> finite (dom (mRecvs s))
     \<and> (\<forall>a op. mSends s a = Some op \<longrightarrow> distinct (so_Flushes op))
     \<and> (\<forall>a op. mRecvs s a = Some op \<longrightarrow> distinct (ro_Flushes op))
     \<and> (\<forall>t. token_ok (mTokens s t) (token_refs s t))
     \<and> (\<forall>t. mTokens s t \<noteq> None \<longrightarrow> t < mFreshPtr s)"

lemma token_Some:
  assumes "token_inv s" and "0 < token_refs s t"
  shows "\<exists>tok. mTokens s t = Some tok \<and> ft_Handle tok \<noteq> None \<and> 0 < ft_Uses tok \<and> ft_Uses tok = token_refs s t"
proof -
  have "token_ok (mTokens s t) (token_refs s t)"
    using assms(1) by (simp add: token_inv_def)
  then show ?thesis using assms(2) by (auto simp: token_ok_def split: option.splits)
qed

lemma token_live_send:
  assumes "token_inv s" and "mSends s a = Some op"
  shows "live_tokens (mTokens s) (so_Flushes op)"
  unfolding live_tokens_def
proof (intro conjI ballI)
  show "distinct (so_Flushes op)" using assms by (auto simp: token_inv_def)
  fix t assume "t \<in> set (so_Flushes op)"
  then have "0 < token_refs s t"
    using assms refs_at [of "mSends s" so_Flushes t a] by (simp add: token_refs_def token_inv_def held_def)
  then show "\<exists>tok. mTokens s t = Some tok \<and> ft_Handle tok \<noteq> None \<and> 0 < ft_Uses tok"
    using token_Some [OF assms(1)] by blast
qed

lemma token_live_recv:
  assumes "token_inv s" and "mRecvs s a = Some op"
  shows "live_tokens (mTokens s) (ro_Flushes op)"
  unfolding live_tokens_def
proof (intro conjI ballI)
  show "distinct (ro_Flushes op)" using assms by (auto simp: token_inv_def)
  fix t assume "t \<in> set (ro_Flushes op)"
  then have "0 < token_refs s t"
    using assms refs_at [of "mRecvs s" ro_Flushes t a] by (simp add: token_refs_def token_inv_def held_def)
  then show "\<exists>tok. mTokens s t = Some tok \<and> ft_Handle tok \<noteq> None \<and> 0 < ft_Uses tok"
    using token_Some [OF assms(1)] by blast
qed

text \<open>Settling the tokens of an operation restores the invariant once the operation is gone.\<close>

lemma token_inv_settle:
  assumes inv: "token_inv s" and fr: "mFreshPtr s' = mFreshPtr s"
    and tk: "mTokens s' = settle (mTokens s) ts" and ts: "distinct ts"
    and refs: "\<And>t. token_refs s t = token_refs s' t + (if t \<in> set ts then 1 else 0)"
    and sub: "mSends s' \<subseteq>\<^sub>m mSends s" "mRecvs s' \<subseteq>\<^sub>m mRecvs s"
  shows "token_inv s'"
proof -
  have fin: "finite (dom (mSends s'))" "finite (dom (mRecvs s'))"
    using inv map_le_implies_dom_le [OF sub(1)] map_le_implies_dom_le [OF sub(2)]
    by (auto simp: token_inv_def intro: rev_finite_subset)
  have old: "mSends s' a = Some op \<Longrightarrow> mSends s a = Some op" "mRecvs s' a = Some rop \<Longrightarrow> mRecvs s a = Some rop" for a op rop
    using sub by (auto simp: map_le_def dom_def)
  have tok: "token_ok (mTokens s' t) (token_refs s' t)" for t
  proof (cases "t \<in> set ts")
    case True
    then have r: "token_refs s t = Suc (token_refs s' t)" using refs [of t] by simp
    then obtain tok where "mTokens s t = Some tok" "ft_Handle tok \<noteq> None" "ft_Uses tok = token_refs s t"
      using token_Some [OF inv, of t] by auto
    then show ?thesis using True r by (auto simp: tk settle_def token_ok_def)
  next
    case False
    have "token_ok (mTokens s t) (token_refs s t)" using inv by (simp add: token_inv_def)
    then show ?thesis using False refs [of t] by (simp add: tk settle_def)
  qed
  have "mTokens s t \<noteq> None" if "mTokens s' t \<noteq> None" for t
  proof (cases "t \<in> set ts")
    case True
    then show ?thesis using token_Some [OF inv, of t] refs [of t] by auto
  next
    case False
    then show ?thesis using that by (simp add: tk settle_def)
  qed
  then have fresh: "\<forall>t. mTokens s' t \<noteq> None \<longrightarrow> t < mFreshPtr s'"
    using inv fr unfolding token_inv_def by simp
  have "distinct (so_Flushes op)" if "mSends s' a = Some op" for a op
    using inv old(1) [OF that] unfolding token_inv_def by blast
  moreover have "distinct (ro_Flushes op)" if "mRecvs s' a = Some op" for a op
    using inv old(2) [OF that] unfolding token_inv_def by blast
  ultimately show ?thesis
    using fin tok fresh unfolding token_inv_def by blast
qed

text \<open>The invariant sees an operation only through its tokens.\<close>

lemma token_inv_cong:
  assumes inv: "token_inv s" and "mTokens s' = mTokens s" and "mFreshPtr s \<le> mFreshPtr s'"
    and "finite (dom (mSends s'))" and "finite (dom (mRecvs s'))"
    and "\<And>a. map_option so_Flushes (mSends s' a) = map_option so_Flushes (mSends s a)
           \<or> map_option so_Flushes (mSends s' a) = Some [] \<and> mSends s a = None"
    and "\<And>a. map_option ro_Flushes (mRecvs s' a) = map_option ro_Flushes (mRecvs s a)
           \<or> map_option ro_Flushes (mRecvs s' a) = Some [] \<and> mRecvs s a = None"
  shows "token_inv s'"
proof -
  have hs: "(\<exists>op. mSends s' a = Some op \<and> t \<in> set (so_Flushes op)) \<longleftrightarrow> (\<exists>op. mSends s a = Some op \<and> t \<in> set (so_Flushes op))" for a t
    using assms(6) [of a] by (cases "mSends s a"; cases "mSends s' a") auto
  have hr: "(\<exists>op. mRecvs s' a = Some op \<and> t \<in> set (ro_Flushes op)) \<longleftrightarrow> (\<exists>op. mRecvs s a = Some op \<and> t \<in> set (ro_Flushes op))" for a t
    using assms(7) [of a] by (cases "mRecvs s a"; cases "mRecvs s' a") auto
  have refs: "token_refs s' t = token_refs s t" for t
    by (simp add: token_refs_def refs_def hs hr)
  have "distinct (so_Flushes op)" if "mSends s' a = Some op" for a op
    using inv assms(6) [of a] that unfolding token_inv_def by (cases "mSends s a") auto
  moreover have "distinct (ro_Flushes op)" if "mRecvs s' a = Some op" for a op
    using inv assms(7) [of a] that unfolding token_inv_def by (cases "mRecvs s a") auto
  moreover have "\<forall>t. mTokens s' t \<noteq> None \<longrightarrow> t < mFreshPtr s'"
    using inv assms(2,3) unfolding token_inv_def by (metis less_le_trans)
  ultimately show ?thesis
    using inv assms(2,4,5) refs unfolding token_inv_def by simp
qed

end
