(* ===== verification/Sched_Inv.thy ===== *)
theory Sched_Inv
  imports Sched_Complete
begin

text \<open>
  The invariants of the scheduler: the chain of pending send operations and its agreement with
  the queues of the forks, the receive queues and their count, the exception cells, and the
  identifier maps. The order of the pending send operations is the list \<open>ch\<close>.
\<close>

section \<open>The invariants\<close>

definition fork_of :: "sched \<Rightarrow> nat \<Rightarrow> nat" where
  "fork_of s a = so_Fork (the (mSends s a))"

fun linked :: "(nat \<Rightarrow> send_op option) \<Rightarrow> nat list \<Rightarrow> bool" where
  "linked m [] \<longleftrightarrow> True"
| "linked m [a] \<longleftrightarrow> so_Next (the (m a)) = None"
| "linked m (a # b # ch) \<longleftrightarrow> so_Next (the (m a)) = Some b \<and> so_Prev (the (m b)) = Some a \<and> linked m (b # ch)"

definition send_ok :: "sched \<Rightarrow> nat list \<Rightarrow> bool" where
  "send_ok s ch \<longleftrightarrow> distinct ch \<and> dom (mSends s) = set ch
     \<and> (\<forall>i < length (mForks s). qinv (mSendOps (mForks s ! i))
          \<and> qlist (mSendOps (mForks s ! i)) = filter (\<lambda>a. fork_of s a = i) ch)
     \<and> (\<forall>a \<in> set ch. so_CH (the (mSends s a)) \<noteq> None \<and> fork_of s a < length (mForks s) \<and> a < mFreshPtr s)
     \<and> linked (mSends s) ch"

definition recv_ok :: "sched \<Rightarrow> bool" where
  "recv_ok s \<longleftrightarrow> (\<forall>i < length (mForks s). qinv (mRecvOps (mForks s ! i)) \<and> distinct (qlist (mRecvOps (mForks s ! i)))
          \<and> (\<forall>a \<in> set (qlist (mRecvOps (mForks s ! i))). \<exists>op. mRecvs s a = Some op \<and> ro_Fork op = i))
     \<and> (\<forall>a op. mRecvs s a = Some op \<longrightarrow> ro_CH op \<noteq> None \<and> ro_Fork op < length (mForks s)
          \<and> a \<in> set (qlist (mRecvOps (mForks s ! ro_Fork op))) \<and> mBufs s (ro_Buffer op) \<noteq> None \<and> a < mFreshPtr s)"

definition count_ok :: "sched \<Rightarrow> bool" where
  "count_ok s \<longleftrightarrow> mNumRecvs s = of_nat (recv_total s)"

text \<open>Each awaiter has an exception cell of its own, which stays empty while its send is pending.\<close>

definition cells_ok :: "sched \<Rightarrow> bool" where
  "cells_ok s \<longleftrightarrow> (\<forall>a op p. mSends s a = Some op \<longrightarrow> sb_ex (so_Buffer op) = Some p \<longrightarrow> mExs s p = None
      \<and> (\<forall>b op'. mSends s b = Some op' \<longrightarrow> sb_ex (so_Buffer op') = Some p \<longrightarrow> b = a)
      \<and> (\<forall>b rop buf. mRecvs s b = Some rop \<longrightarrow> mBufs s (ro_Buffer rop) = Some buf \<longrightarrow> rb_ex buf \<noteq> Some p))"

definition ids_ok :: "sched \<Rightarrow> bool" where
  "ids_ok s \<longleftrightarrow> (\<forall>k i. mIdMap s k = Some i \<longleftrightarrow> i < length (mForks s) \<and> sid_key (mSessionID (mForks s ! i)) = k)
     \<and> (\<forall>r i. mRemoteMap s r = Some i \<longleftrightarrow> i < length (mForks s) \<and> mRemoteId (mForks s ! i) = r \<and> r \<noteq> NOT 0)"

lemma send_ok_frame [simp]:
  "send_ok (s\<lparr>mNextLocal := x_mNextLocal\<rparr>) ch = send_ok s ch"
  "send_ok (s\<lparr>mIdMap := x_mIdMap\<rparr>) ch = send_ok s ch"
  "send_ok (s\<lparr>mRemoteMap := x_mRemoteMap\<rparr>) ch = send_ok s ch"
  "send_ok (s\<lparr>mSendBegin := x_mSendBegin\<rparr>) ch = send_ok s ch"
  "send_ok (s\<lparr>mSendLast := x_mSendLast\<rparr>) ch = send_ok s ch"
  "send_ok (s\<lparr>mEC := x_mEC\<rparr>) ch = send_ok s ch"
  "send_ok (s\<lparr>mRecvStatus := x_mRecvStatus\<rparr>) ch = send_ok s ch"
  "send_ok (s\<lparr>mSendStatus := x_mSendStatus\<rparr>) ch = send_ok s ch"
  "send_ok (s\<lparr>mNumRecvs := x_mNumRecvs\<rparr>) ch = send_ok s ch"
  "send_ok (s\<lparr>mRecvSrc := x_mRecvSrc\<rparr>) ch = send_ok s ch"
  "send_ok (s\<lparr>mSendSrc := x_mSendSrc\<rparr>) ch = send_ok s ch"
  "send_ok (s\<lparr>mNextSendOp := x_mNextSendOp\<rparr>) ch = send_ok s ch"
  "send_ok (s\<lparr>mSendRes := x_mSendRes\<rparr>) ch = send_ok s ch"
  "send_ok (s\<lparr>mAnyRecvOp := x_mAnyRecvOp\<rparr>) ch = send_ok s ch"
  "send_ok (s\<lparr>mAnyRes := x_mAnyRes\<rparr>) ch = send_ok s ch"
  "send_ok (s\<lparr>mGetReq := x_mGetReq\<rparr>) ch = send_ok s ch"
  "send_ok (s\<lparr>mGetRes := x_mGetRes\<rparr>) ch = send_ok s ch"
  "send_ok (s\<lparr>mRecvs := x_mRecvs\<rparr>) ch = send_ok s ch"
  "send_ok (s\<lparr>mBufs := x_mBufs\<rparr>) ch = send_ok s ch"
  "send_ok (s\<lparr>mExs := x_mExs\<rparr>) ch = send_ok s ch"
  "send_ok (s\<lparr>mTokens := x_mTokens\<rparr>) ch = send_ok s ch"
  "send_ok (s\<lparr>mOut := x_mOut\<rparr>) ch = send_ok s ch"
  by (simp_all add: send_ok_def fork_of_def)

lemma recv_ok_frame [simp]:
  "recv_ok (s\<lparr>mNextLocal := x_mNextLocal\<rparr>) = recv_ok s"
  "recv_ok (s\<lparr>mIdMap := x_mIdMap\<rparr>) = recv_ok s"
  "recv_ok (s\<lparr>mRemoteMap := x_mRemoteMap\<rparr>) = recv_ok s"
  "recv_ok (s\<lparr>mSendBegin := x_mSendBegin\<rparr>) = recv_ok s"
  "recv_ok (s\<lparr>mSendLast := x_mSendLast\<rparr>) = recv_ok s"
  "recv_ok (s\<lparr>mEC := x_mEC\<rparr>) = recv_ok s"
  "recv_ok (s\<lparr>mRecvStatus := x_mRecvStatus\<rparr>) = recv_ok s"
  "recv_ok (s\<lparr>mSendStatus := x_mSendStatus\<rparr>) = recv_ok s"
  "recv_ok (s\<lparr>mNumRecvs := x_mNumRecvs\<rparr>) = recv_ok s"
  "recv_ok (s\<lparr>mRecvSrc := x_mRecvSrc\<rparr>) = recv_ok s"
  "recv_ok (s\<lparr>mSendSrc := x_mSendSrc\<rparr>) = recv_ok s"
  "recv_ok (s\<lparr>mNextSendOp := x_mNextSendOp\<rparr>) = recv_ok s"
  "recv_ok (s\<lparr>mSendRes := x_mSendRes\<rparr>) = recv_ok s"
  "recv_ok (s\<lparr>mAnyRecvOp := x_mAnyRecvOp\<rparr>) = recv_ok s"
  "recv_ok (s\<lparr>mAnyRes := x_mAnyRes\<rparr>) = recv_ok s"
  "recv_ok (s\<lparr>mGetReq := x_mGetReq\<rparr>) = recv_ok s"
  "recv_ok (s\<lparr>mGetRes := x_mGetRes\<rparr>) = recv_ok s"
  "recv_ok (s\<lparr>mSends := x_mSends\<rparr>) = recv_ok s"
  "recv_ok (s\<lparr>mExs := x_mExs\<rparr>) = recv_ok s"
  "recv_ok (s\<lparr>mTokens := x_mTokens\<rparr>) = recv_ok s"
  "recv_ok (s\<lparr>mOut := x_mOut\<rparr>) = recv_ok s"
  by (simp_all add: recv_ok_def)

lemma cells_ok_frame [simp]:
  "cells_ok (s\<lparr>mNextLocal := x_mNextLocal\<rparr>) = cells_ok s"
  "cells_ok (s\<lparr>mIdMap := x_mIdMap\<rparr>) = cells_ok s"
  "cells_ok (s\<lparr>mRemoteMap := x_mRemoteMap\<rparr>) = cells_ok s"
  "cells_ok (s\<lparr>mSendBegin := x_mSendBegin\<rparr>) = cells_ok s"
  "cells_ok (s\<lparr>mSendLast := x_mSendLast\<rparr>) = cells_ok s"
  "cells_ok (s\<lparr>mEC := x_mEC\<rparr>) = cells_ok s"
  "cells_ok (s\<lparr>mRecvStatus := x_mRecvStatus\<rparr>) = cells_ok s"
  "cells_ok (s\<lparr>mSendStatus := x_mSendStatus\<rparr>) = cells_ok s"
  "cells_ok (s\<lparr>mNumRecvs := x_mNumRecvs\<rparr>) = cells_ok s"
  "cells_ok (s\<lparr>mRecvSrc := x_mRecvSrc\<rparr>) = cells_ok s"
  "cells_ok (s\<lparr>mSendSrc := x_mSendSrc\<rparr>) = cells_ok s"
  "cells_ok (s\<lparr>mNextSendOp := x_mNextSendOp\<rparr>) = cells_ok s"
  "cells_ok (s\<lparr>mSendRes := x_mSendRes\<rparr>) = cells_ok s"
  "cells_ok (s\<lparr>mAnyRecvOp := x_mAnyRecvOp\<rparr>) = cells_ok s"
  "cells_ok (s\<lparr>mAnyRes := x_mAnyRes\<rparr>) = cells_ok s"
  "cells_ok (s\<lparr>mGetReq := x_mGetReq\<rparr>) = cells_ok s"
  "cells_ok (s\<lparr>mGetRes := x_mGetRes\<rparr>) = cells_ok s"
  "cells_ok (s\<lparr>mTokens := x_mTokens\<rparr>) = cells_ok s"
  "cells_ok (s\<lparr>mOut := x_mOut\<rparr>) = cells_ok s"
  by (simp_all add: cells_ok_def)

lemma ids_ok_frame [simp]:
  "ids_ok (s\<lparr>mNextLocal := x_mNextLocal\<rparr>) = ids_ok s"
  "ids_ok (s\<lparr>mSendBegin := x_mSendBegin\<rparr>) = ids_ok s"
  "ids_ok (s\<lparr>mSendLast := x_mSendLast\<rparr>) = ids_ok s"
  "ids_ok (s\<lparr>mEC := x_mEC\<rparr>) = ids_ok s"
  "ids_ok (s\<lparr>mRecvStatus := x_mRecvStatus\<rparr>) = ids_ok s"
  "ids_ok (s\<lparr>mSendStatus := x_mSendStatus\<rparr>) = ids_ok s"
  "ids_ok (s\<lparr>mNumRecvs := x_mNumRecvs\<rparr>) = ids_ok s"
  "ids_ok (s\<lparr>mRecvSrc := x_mRecvSrc\<rparr>) = ids_ok s"
  "ids_ok (s\<lparr>mSendSrc := x_mSendSrc\<rparr>) = ids_ok s"
  "ids_ok (s\<lparr>mNextSendOp := x_mNextSendOp\<rparr>) = ids_ok s"
  "ids_ok (s\<lparr>mSendRes := x_mSendRes\<rparr>) = ids_ok s"
  "ids_ok (s\<lparr>mAnyRecvOp := x_mAnyRecvOp\<rparr>) = ids_ok s"
  "ids_ok (s\<lparr>mAnyRes := x_mAnyRes\<rparr>) = ids_ok s"
  "ids_ok (s\<lparr>mGetReq := x_mGetReq\<rparr>) = ids_ok s"
  "ids_ok (s\<lparr>mGetRes := x_mGetRes\<rparr>) = ids_ok s"
  "ids_ok (s\<lparr>mSends := x_mSends\<rparr>) = ids_ok s"
  "ids_ok (s\<lparr>mRecvs := x_mRecvs\<rparr>) = ids_ok s"
  "ids_ok (s\<lparr>mBufs := x_mBufs\<rparr>) = ids_ok s"
  "ids_ok (s\<lparr>mExs := x_mExs\<rparr>) = ids_ok s"
  "ids_ok (s\<lparr>mTokens := x_mTokens\<rparr>) = ids_ok s"
  "ids_ok (s\<lparr>mOut := x_mOut\<rparr>) = ids_ok s"
  by (simp_all add: ids_ok_def)

lemma token_inv_frame [simp]:
  "token_inv (s\<lparr>mNextLocal := x_mNextLocal\<rparr>) = token_inv s"
  "token_inv (s\<lparr>mIdMap := x_mIdMap\<rparr>) = token_inv s"
  "token_inv (s\<lparr>mRemoteMap := x_mRemoteMap\<rparr>) = token_inv s"
  "token_inv (s\<lparr>mSendBegin := x_mSendBegin\<rparr>) = token_inv s"
  "token_inv (s\<lparr>mSendLast := x_mSendLast\<rparr>) = token_inv s"
  "token_inv (s\<lparr>mEC := x_mEC\<rparr>) = token_inv s"
  "token_inv (s\<lparr>mRecvStatus := x_mRecvStatus\<rparr>) = token_inv s"
  "token_inv (s\<lparr>mSendStatus := x_mSendStatus\<rparr>) = token_inv s"
  "token_inv (s\<lparr>mNumRecvs := x_mNumRecvs\<rparr>) = token_inv s"
  "token_inv (s\<lparr>mRecvSrc := x_mRecvSrc\<rparr>) = token_inv s"
  "token_inv (s\<lparr>mSendSrc := x_mSendSrc\<rparr>) = token_inv s"
  "token_inv (s\<lparr>mNextSendOp := x_mNextSendOp\<rparr>) = token_inv s"
  "token_inv (s\<lparr>mSendRes := x_mSendRes\<rparr>) = token_inv s"
  "token_inv (s\<lparr>mAnyRecvOp := x_mAnyRecvOp\<rparr>) = token_inv s"
  "token_inv (s\<lparr>mAnyRes := x_mAnyRes\<rparr>) = token_inv s"
  "token_inv (s\<lparr>mGetReq := x_mGetReq\<rparr>) = token_inv s"
  "token_inv (s\<lparr>mGetRes := x_mGetRes\<rparr>) = token_inv s"
  "token_inv (s\<lparr>mBufs := x_mBufs\<rparr>) = token_inv s"
  "token_inv (s\<lparr>mExs := x_mExs\<rparr>) = token_inv s"
  "token_inv (s\<lparr>mOut := x_mOut\<rparr>) = token_inv s"
  by (simp_all add: token_inv_def token_refs_def)

lemma count_ok_frame [simp]:
  "count_ok (s\<lparr>mNextLocal := x_mNextLocal\<rparr>) = count_ok s"
  "count_ok (s\<lparr>mIdMap := x_mIdMap\<rparr>) = count_ok s"
  "count_ok (s\<lparr>mRemoteMap := x_mRemoteMap\<rparr>) = count_ok s"
  "count_ok (s\<lparr>mSendBegin := x_mSendBegin\<rparr>) = count_ok s"
  "count_ok (s\<lparr>mSendLast := x_mSendLast\<rparr>) = count_ok s"
  "count_ok (s\<lparr>mEC := x_mEC\<rparr>) = count_ok s"
  "count_ok (s\<lparr>mRecvStatus := x_mRecvStatus\<rparr>) = count_ok s"
  "count_ok (s\<lparr>mSendStatus := x_mSendStatus\<rparr>) = count_ok s"
  "count_ok (s\<lparr>mRecvSrc := x_mRecvSrc\<rparr>) = count_ok s"
  "count_ok (s\<lparr>mSendSrc := x_mSendSrc\<rparr>) = count_ok s"
  "count_ok (s\<lparr>mNextSendOp := x_mNextSendOp\<rparr>) = count_ok s"
  "count_ok (s\<lparr>mSendRes := x_mSendRes\<rparr>) = count_ok s"
  "count_ok (s\<lparr>mAnyRecvOp := x_mAnyRecvOp\<rparr>) = count_ok s"
  "count_ok (s\<lparr>mAnyRes := x_mAnyRes\<rparr>) = count_ok s"
  "count_ok (s\<lparr>mGetReq := x_mGetReq\<rparr>) = count_ok s"
  "count_ok (s\<lparr>mGetRes := x_mGetRes\<rparr>) = count_ok s"
  "count_ok (s\<lparr>mSends := x_mSends\<rparr>) = count_ok s"
  "count_ok (s\<lparr>mRecvs := x_mRecvs\<rparr>) = count_ok s"
  "count_ok (s\<lparr>mBufs := x_mBufs\<rparr>) = count_ok s"
  "count_ok (s\<lparr>mExs := x_mExs\<rparr>) = count_ok s"
  "count_ok (s\<lparr>mTokens := x_mTokens\<rparr>) = count_ok s"
  "count_ok (s\<lparr>mOut := x_mOut\<rparr>) = count_ok s"
  by (simp_all add: count_ok_def recv_total_def)

lemma token_inv_forks [simp]: "token_inv (s\<lparr>mForks := x\<rparr>) = token_inv s"
  and cells_ok_forks [simp]: "cells_ok (s\<lparr>mForks := x\<rparr>) = cells_ok s"
  and cells_ok_fresh [simp]: "cells_ok (s\<lparr>mFreshPtr := n\<rparr>) = cells_ok s"
  and ids_ok_fresh [simp]: "ids_ok (s\<lparr>mFreshPtr := n\<rparr>) = ids_ok s"
  and count_ok_fresh [simp]: "count_ok (s\<lparr>mFreshPtr := n\<rparr>) = count_ok s"
  by (simp_all add: token_inv_def token_refs_def cells_ok_def ids_ok_def count_ok_def recv_total_def)

section \<open>Updating one fork\<close>

lemma set_fork_frame [simp]:
  "cells_ok (set_fork i f s) = cells_ok s" "token_inv (set_fork i f s) = token_inv s"
  "mSends (set_fork i f s) = mSends s" "mRecvs (set_fork i f s) = mRecvs s"
  "mTokens (set_fork i f s) = mTokens s" "mExs (set_fork i f s) = mExs s" "mOut (set_fork i f s) = mOut s"
  "mFreshPtr (set_fork i f s) = mFreshPtr s" "mBufs (set_fork i f s) = mBufs s"
  "length (mForks (set_fork i f s)) = length (mForks s)"
  "mForks (set_fork i f s) ! j = (if j = i \<and> i < length (mForks s) then f else mForks s ! j)"
  by (simp_all add: set_fork_def) (cases "i < length (mForks s)"; auto simp: nth_list_update list_update_beyond)

lemma send_ok_set_fork:
  assumes "i < length (mForks s)" and "mSendOps f = mSendOps (mForks s ! i)"
  shows "send_ok (set_fork i f s) ch = send_ok s ch"
proof -
  have "mSendOps (mForks (set_fork i f s) ! j) = mSendOps (mForks s ! j)" for j using assms by simp
  then show ?thesis by (simp add: send_ok_def fork_of_def del: set_fork_frame(11))
qed

lemma recv_ok_set_fork:
  assumes "i < length (mForks s)" and "mRecvOps f = mRecvOps (mForks s ! i)"
  shows "recv_ok (set_fork i f s) = recv_ok s"
proof -
  have "mRecvOps (mForks (set_fork i f s) ! j) = mRecvOps (mForks s ! j)" for j using assms by simp
  then show ?thesis by (simp add: recv_ok_def del: set_fork_frame(11))
qed

lemma ids_ok_set_fork:
  assumes "i < length (mForks s)" and "sid_key (mSessionID f) = sid_key (mSessionID (mForks s ! i))"
    and "mRemoteId f = mRemoteId (mForks s ! i)"
  shows "ids_ok (set_fork i f s) = ids_ok s"
proof -
  have "sid_key (mSessionID (mForks (set_fork i f s) ! j)) = sid_key (mSessionID (mForks s ! j))"
    "mRemoteId (mForks (set_fork i f s) ! j) = mRemoteId (mForks s ! j)" for j
    using assms by simp_all
  moreover have "mIdMap (set_fork i f s) = mIdMap s" "mRemoteMap (set_fork i f s) = mRemoteMap s"
    by (simp_all add: set_fork_def)
  ultimately show ?thesis unfolding ids_ok_def by simp
qed

lemma map_update_same: "i < length xs \<Longrightarrow> g y = g (xs ! i) \<Longrightarrow> map g (xs[i := y]) = map g xs"
  by (metis list_update_id map_update nth_map)

lemma count_ok_set_fork:
  assumes "i < length (mForks s)" and "mRecvOps f = mRecvOps (mForks s ! i)"
  shows "count_ok (set_fork i f s) = count_ok s"
  using map_update_same [OF assms(1), of "\<lambda>f. unat (mSize (mRecvOps f))" f] assms(2)
  by (simp add: count_ok_def recv_total_def set_fork_def)

lemmas set_fork_ok = send_ok_set_fork recv_ok_set_fork ids_ok_set_fork count_ok_set_fork

section \<open>Removing the first operation of the chain\<close>

definition done_send :: "sched \<Rightarrow> nat \<Rightarrow> effect list" where
  "done_send s a = (let op = the (mSends s a); ex = mExecutor (mForks s ! so_Fork op) in
     Resume (User (the (so_CH op))) ex # wakes ex (mTokens s) (so_Flushes op))"

definition retire_send :: "nat \<Rightarrow> nat queue \<Rightarrow> sched \<Rightarrow> sched" where
  "retire_send a q s = (let op = the (mSends s a); i = so_Fork op in
     set_fork i ((mForks s ! i)\<lparr>mSendOps := q\<rparr>) (s\<lparr>mSends := (mSends s)(a := None),
       mTokens := settle (mTokens s) (so_Flushes op), mOut := mOut s @ done_send s a\<rparr>))"

lemma send_ok_head:
  assumes "send_ok s (a # ch)"
  obtains op q where "mSends s a = Some op" "so_CH op \<noteq> None" "so_Fork op < length (mForks s)"
    "qlist (mSendOps (mForks s ! so_Fork op)) = a # filter (\<lambda>b. fork_of s b = so_Fork op) ch"
    "queue_front (mSendOps (mForks s ! so_Fork op)) = Inr a"
    "pop_front (mSendOps (mForks s ! so_Fork op)) = Inr q" "qinv q"
    "qlist q = filter (\<lambda>b. fork_of s b = so_Fork op) ch"
proof -
  have "a \<in> dom (mSends s)" using assms by (simp add: send_ok_def)
  then obtain op where op: "mSends s a = Some op" by blast
  have i: "so_CH op \<noteq> None" "so_Fork op < length (mForks s)" "fork_of s a = so_Fork op"
    using assms op by (auto simp: send_ok_def fork_of_def)
  let ?q = "mSendOps (mForks s ! so_Fork op)"
  have q: "qinv ?q" "qlist ?q = a # filter (\<lambda>b. fork_of s b = so_Fork op) ch"
    using assms i by (simp_all add: send_ok_def)
  obtain q' where "pop_front ?q = Inr q'" "qinv q'" "qlist q' = filter (\<lambda>b. fork_of s b = so_Fork op) ch"
    using pop_front_correct [OF q] by blast
  then show thesis using that op i q queue_front_correct [OF q] by blast
qed

lemma linked_remove: "a \<notin> set ch \<Longrightarrow> linked (m(a := v)) ch = linked m ch"
  by (induction m ch rule: linked.induct) auto

lemma linked_tl: "linked m (a # ch) \<Longrightarrow> linked m ch"
  by (cases ch) auto

lemma retire_send_ok:
  assumes ok: "send_ok s (a # ch)" and op: "mSends s a = Some op"
    and q: "pop_front (mSendOps (mForks s ! so_Fork op)) = Inr q"
  shows "send_ok (retire_send a q s) ch"
proof -
  obtain q' where q': "pop_front (mSendOps (mForks s ! so_Fork op)) = Inr q'" "qinv q'"
      "qlist q' = filter (\<lambda>b. fork_of s b = so_Fork op) ch" and i: "so_Fork op < length (mForks s)"
    using send_ok_head [OF ok] op by (metis option.inject)
  have [simp]: "q' = q" using q q'(1) by simp
  have a: "a \<notin> set ch" "distinct ch" using ok by (simp_all add: send_ok_def)
  let ?s = "retire_send a q s"
  have f: "fork_of ?s b = fork_of s b" if "b \<in> set ch" for b
    using that a(1) by (auto simp: retire_send_def Let_def op fork_of_def)
  have fl: "filter (\<lambda>b. fork_of ?s b = j) ch = filter (\<lambda>b. fork_of s b = j) ch" for j
    using f by (intro filter_cong) auto
  have "qinv (mSendOps (mForks ?s ! j)) \<and> qlist (mSendOps (mForks ?s ! j)) = filter (\<lambda>b. fork_of s b = j) ch"
    if "j < length (mForks s)" for j
  proof (cases "j = so_Fork op")
    case True
    then show ?thesis using q'(2,3) i by (simp add: retire_send_def Let_def op)
  next
    case False
    then show ?thesis using ok that op by (simp add: retire_send_def Let_def send_ok_def fork_of_def)
  qed
  moreover have "dom (mSends ?s) = set ch"
    using ok a(1) by (auto simp: retire_send_def Let_def send_ok_def)
  moreover have "so_CH (the (mSends ?s b)) \<noteq> None \<and> fork_of ?s b < length (mForks ?s) \<and> b < mFreshPtr ?s"
    if "b \<in> set ch" for b
    using ok that a(1) f [OF that] by (auto simp: retire_send_def Let_def send_ok_def op)
  moreover have "linked (mSends ?s) ch"
    using ok a(1) linked_tl [of "mSends s" a ch] by (simp add: retire_send_def Let_def send_ok_def linked_remove)
  moreover have "length (mForks ?s) = length (mForks s)" by (simp add: retire_send_def Let_def)
  ultimately show ?thesis using a(2) fl by (simp add: send_ok_def)
qed

lemma retire_send_token:
  assumes inv: "token_inv s" and op: "mSends s a = Some op"
  shows "token_inv (retire_send a q s)"
proof (rule token_inv_settle [OF inv])
  show "mTokens (retire_send a q s) = settle (mTokens s) (so_Flushes op)"
    by (simp add: retire_send_def Let_def op)
  show "distinct (so_Flushes op)" using inv op by (auto simp: token_inv_def)
  show "token_refs s t = token_refs (retire_send a q s) t + (if t \<in> set (so_Flushes op) then 1 else 0)" for t
    using inv refs_at [of "mSends s" so_Flushes t a]
    by (simp add: token_refs_def retire_send_def Let_def op held_def token_inv_def)
qed (auto simp: retire_send_def Let_def map_le_def)

lemma cells_ok_less:
  assumes "cells_ok s"
    and "\<And>b op. mSends s' b = Some op \<Longrightarrow> mSends s b = Some op"
    and "\<And>b rop. mRecvs s' b = Some rop \<Longrightarrow> mRecvs s b = Some rop"
    and "mBufs s' = mBufs s"
    and "\<And>b op p. mSends s' b = Some op \<Longrightarrow> sb_ex (so_Buffer op) = Some p \<Longrightarrow> mExs s' p = None"
  shows "cells_ok s'"
  unfolding cells_ok_def
proof (intro allI impI conjI)
  fix a op p b op' assume "mSends s' a = Some op" "sb_ex (so_Buffer op) = Some p"
    "mSends s' b = Some op'" "sb_ex (so_Buffer op') = Some p"
  then show "b = a" using assms(1,2) unfolding cells_ok_def by blast
next
  fix a op p b rop buf assume "mSends s' a = Some op" "sb_ex (so_Buffer op) = Some p"
    "mRecvs s' b = Some rop" "mBufs s' (ro_Buffer rop) = Some buf"
  then show "rb_ex buf \<noteq> Some p" using assms(1-4) unfolding cells_ok_def by metis
qed (rule assms(5))

lemma retire_send_others:
  assumes "mSends s a = Some op" and "so_Fork op < length (mForks s)"
  shows "recv_ok (retire_send a q s) = recv_ok s" "count_ok (retire_send a q s) = count_ok s"
    "ids_ok (retire_send a q s) = ids_ok s" "cells_ok s \<Longrightarrow> cells_ok (retire_send a q s)"
proof -
  show "recv_ok (retire_send a q s) = recv_ok s" "count_ok (retire_send a q s) = count_ok s"
    "ids_ok (retire_send a q s) = ids_ok s"
    using assms by (simp_all add: retire_send_def Let_def set_fork_ok)
  show "cells_ok (retire_send a q s)" if c: "cells_ok s"
  proof (rule cells_ok_less [OF c])
    fix b op' p assume b: "mSends (retire_send a q s) b = Some op'" "sb_ex (so_Buffer op') = Some p"
    then have "mSends s b = Some op'" by (simp add: retire_send_def Let_def split: if_splits)
    then show "mExs (retire_send a q s) p = None" using c b(2) by (simp add: cells_ok_def retire_send_def Let_def)
  qed (simp_all add: retire_send_def Let_def split: if_splits)
qed

text \<open>Completing and removing the first operation of the chain.\<close>

lemma complete_pop_send:
  assumes ok: "send_ok s (a # ch)" and tok: "token_inv s"
  obtains op q where "mSends s a = Some op" "queue_front (mSendOps (mForks s ! so_Fork op)) = Inr a"
    "so_Fork op < length (mForks s)" "completeOn_send a s = Inr (finish_send a s)"
    "pop_front (mSendOps (mForks s ! so_Fork op)) = Inr q"
    "pop_front_send (so_Fork op) (finish_send a s) = Inr (retire_send a q s)"
proof -
  obtain op q where op: "mSends s a = Some op" "so_CH op \<noteq> None" "so_Fork op < length (mForks s)"
      "qlist (mSendOps (mForks s ! so_Fork op)) = a # filter (\<lambda>b. fork_of s b = so_Fork op) ch"
      "queue_front (mSendOps (mForks s ! so_Fork op)) = Inr a"
      "pop_front (mSendOps (mForks s ! so_Fork op)) = Inr q" "qinv q"
      "qlist q = filter (\<lambda>b. fork_of s b = so_Fork op) ch"
    by (rule send_ok_head [OF ok])
  have c: "completeOn_send a s = Inr (finish_send a s)"
    by (rule completeOn_send_closed [OF op(1-3) token_live_send [OF tok op(1)]])
  have "pop_front_send (so_Fork op) (finish_send a s) = Inr (retire_send a q s)"
    using op(1,3,5,6)
    by (simp add: pop_front_send_def fork_at_def finish_send_def retire_send_def done_send_def Let_def set_fork_def)
  then show thesis by (rule that [OF op(1,5,3) c op(6)])
qed

section \<open>All invariants but the count\<close>

definition core_ok :: "sched \<Rightarrow> nat list \<Rightarrow> bool" where
  "core_ok s ch \<longleftrightarrow> send_ok s ch \<and> recv_ok s \<and> token_inv s \<and> cells_ok s \<and> ids_ok s"

lemma core_ok_frame [simp]:
  "core_ok (s\<lparr>mNextLocal := x_mNextLocal\<rparr>) ch = core_ok s ch"
  "core_ok (s\<lparr>mSendBegin := x_mSendBegin\<rparr>) ch = core_ok s ch"
  "core_ok (s\<lparr>mSendLast := x_mSendLast\<rparr>) ch = core_ok s ch"
  "core_ok (s\<lparr>mEC := x_mEC\<rparr>) ch = core_ok s ch"
  "core_ok (s\<lparr>mRecvStatus := x_mRecvStatus\<rparr>) ch = core_ok s ch"
  "core_ok (s\<lparr>mSendStatus := x_mSendStatus\<rparr>) ch = core_ok s ch"
  "core_ok (s\<lparr>mNumRecvs := x_mNumRecvs\<rparr>) ch = core_ok s ch"
  "core_ok (s\<lparr>mRecvSrc := x_mRecvSrc\<rparr>) ch = core_ok s ch"
  "core_ok (s\<lparr>mSendSrc := x_mSendSrc\<rparr>) ch = core_ok s ch"
  "core_ok (s\<lparr>mNextSendOp := x_mNextSendOp\<rparr>) ch = core_ok s ch"
  "core_ok (s\<lparr>mSendRes := x_mSendRes\<rparr>) ch = core_ok s ch"
  "core_ok (s\<lparr>mAnyRecvOp := x_mAnyRecvOp\<rparr>) ch = core_ok s ch"
  "core_ok (s\<lparr>mAnyRes := x_mAnyRes\<rparr>) ch = core_ok s ch"
  "core_ok (s\<lparr>mGetReq := x_mGetReq\<rparr>) ch = core_ok s ch"
  "core_ok (s\<lparr>mGetRes := x_mGetRes\<rparr>) ch = core_ok s ch"
  "core_ok (s\<lparr>mOut := x_mOut\<rparr>) ch = core_ok s ch"
  by (simp_all add: core_ok_def)

lemma emit_frame [simp]:
  "core_ok (emit e s) ch = core_ok s ch" "count_ok (emit e s) = count_ok s" "mForks (emit e s) = mForks s"
  "mNextLocal (emit e s) = mNextLocal s"
  "mIdMap (emit e s) = mIdMap s"
  "mRemoteMap (emit e s) = mRemoteMap s"
  "mSendBegin (emit e s) = mSendBegin s"
  "mSendLast (emit e s) = mSendLast s"
  "mEC (emit e s) = mEC s"
  "mRecvStatus (emit e s) = mRecvStatus s"
  "mSendStatus (emit e s) = mSendStatus s"
  "mNumRecvs (emit e s) = mNumRecvs s"
  "mRecvSrc (emit e s) = mRecvSrc s"
  "mSendSrc (emit e s) = mSendSrc s"
  "mNextSendOp (emit e s) = mNextSendOp s"
  "mSendRes (emit e s) = mSendRes s"
  "mAnyRecvOp (emit e s) = mAnyRecvOp s"
  "mAnyRes (emit e s) = mAnyRes s"
  "mGetReq (emit e s) = mGetReq s"
  "mGetRes (emit e s) = mGetRes s"
  "mRecvs (emit e s) = mRecvs s"
  "mBufs (emit e s) = mBufs s"
  "mExs (emit e s) = mExs s"
  "mFreshPtr (emit e s) = mFreshPtr s"
  "mSends (emit e s) = mSends s"
  "mTokens (emit e s) = mTokens s"
  "mOut (emit e s) = mOut s @ [e]"
  by (simp_all add: emit_def)

lemma retire_send_frame [simp]:
  "mNextLocal (retire_send a q s) = mNextLocal s"
  "mIdMap (retire_send a q s) = mIdMap s"
  "mRemoteMap (retire_send a q s) = mRemoteMap s"
  "mSendBegin (retire_send a q s) = mSendBegin s"
  "mSendLast (retire_send a q s) = mSendLast s"
  "mEC (retire_send a q s) = mEC s"
  "mRecvStatus (retire_send a q s) = mRecvStatus s"
  "mSendStatus (retire_send a q s) = mSendStatus s"
  "mNumRecvs (retire_send a q s) = mNumRecvs s"
  "mRecvSrc (retire_send a q s) = mRecvSrc s"
  "mSendSrc (retire_send a q s) = mSendSrc s"
  "mNextSendOp (retire_send a q s) = mNextSendOp s"
  "mSendRes (retire_send a q s) = mSendRes s"
  "mAnyRecvOp (retire_send a q s) = mAnyRecvOp s"
  "mAnyRes (retire_send a q s) = mAnyRes s"
  "mGetReq (retire_send a q s) = mGetReq s"
  "mGetRes (retire_send a q s) = mGetRes s"
  "mRecvs (retire_send a q s) = mRecvs s"
  "mBufs (retire_send a q s) = mBufs s"
  "mExs (retire_send a q s) = mExs s"
  "mFreshPtr (retire_send a q s) = mFreshPtr s"
  "mOut (retire_send a q s) = mOut s @ done_send s a" "mSends (retire_send a q s) = (mSends s)(a := None)"
  "length (mForks (retire_send a q s)) = length (mForks s)"
  "mExecutor (mForks (retire_send a q s) ! j) = mExecutor (mForks s ! j)"
  "mRecvOps (mForks (retire_send a q s) ! j) = mRecvOps (mForks s ! j)"
  "mLocalId (mForks (retire_send a q s) ! j) = mLocalId (mForks s ! j)"
  "mRemoteId (mForks (retire_send a q s) ! j) = mRemoteId (mForks s ! j)"
  "mSessionID (mForks (retire_send a q s) ! j) = mSessionID (mForks s ! j)"
  by (simp_all add: retire_send_def Let_def) (simp_all add: set_fork_def)

text \<open>
  What the abortion and the completion of send operations leave alone: everything but the
  operations themselves, the send queues, the tokens, the output and the exception cells.
\<close>

definition keeps :: "sched \<Rightarrow> sched \<Rightarrow> bool" where
  "keeps s s' \<longleftrightarrow> length (mForks s') = length (mForks s) \<and> (\<forall>i. \<exists>q. mForks s' ! i = (mForks s ! i)\<lparr>mSendOps := q\<rparr>)
     \<and> (\<exists>fo se tk out ex. s' = s\<lparr>mForks := fo, mSends := se, mTokens := tk, mOut := out, mExs := ex\<rparr>)"

lemma keeps_refl: "keeps s s"
  unfolding keeps_def
proof (intro conjI allI)
  show "\<exists>q. mForks s ! i = (mForks s ! i)\<lparr>mSendOps := q\<rparr>" for i
    by (rule exI [of _ "mSendOps (mForks s ! i)"]) simp
  show "\<exists>fo se tk out ex. s = s\<lparr>mForks := fo, mSends := se, mTokens := tk, mOut := out, mExs := ex\<rparr>"
    by (intro exI [of _ "mForks s"] exI [of _ "mSends s"] exI [of _ "mTokens s"] exI [of _ "mOut s"]
        exI [of _ "mExs s"]) simp
qed simp

lemma keeps_trans:
  assumes "keeps s s'" and "keeps s' s''"
  shows "keeps s s''"
proof -
  have "\<exists>q. mForks s'' ! i = (mForks s ! i)\<lparr>mSendOps := q\<rparr>" for i
  proof -
    obtain q q' where "mForks s' ! i = (mForks s ! i)\<lparr>mSendOps := q\<rparr>" "mForks s'' ! i = (mForks s' ! i)\<lparr>mSendOps := q'\<rparr>"
      using assms unfolding keeps_def by blast
    then show ?thesis by (intro exI [of _ q']) simp
  qed
  moreover obtain fo se tk out ex fo' se' tk' out' ex' where
    "s' = s\<lparr>mForks := fo, mSends := se, mTokens := tk, mOut := out, mExs := ex\<rparr>"
    "s'' = s'\<lparr>mForks := fo', mSends := se', mTokens := tk', mOut := out', mExs := ex'\<rparr>"
    using assms unfolding keeps_def by metis
  then have "s'' = s\<lparr>mForks := fo', mSends := se', mTokens := tk', mOut := out', mExs := ex'\<rparr>" by simp
  ultimately show ?thesis using assms unfolding keeps_def by (intro conjI allI) (simp, blast, blast)
qed

lemma keeps_retire: "keeps s (retire_send a q (s\<lparr>mExs := ex\<rparr>))"
  unfolding keeps_def
proof (intro conjI allI)
  fix i show "\<exists>q'. mForks (retire_send a q (s\<lparr>mExs := ex\<rparr>)) ! i = (mForks s ! i)\<lparr>mSendOps := q'\<rparr>"
    by (auto simp: retire_send_def Let_def intro: exI [of _ "mSendOps (mForks s ! i)"])
  show "\<exists>fo se tk out ex'. retire_send a q (s\<lparr>mExs := ex\<rparr>)
      = s\<lparr>mForks := fo, mSends := se, mTokens := tk, mOut := out, mExs := ex'\<rparr>"
    unfolding retire_send_def Let_def set_fork_def
    by (intro exI [of _ "mForks (retire_send a q (s\<lparr>mExs := ex\<rparr>))"] exI [of _ "(mSends s)(a := None)"]
        exI [of _ "settle (mTokens s) (so_Flushes (the (mSends s a)))"] exI [of _ "mOut s @ done_send s a"] exI [of _ ex])
      (simp add: retire_send_def Let_def set_fork_def done_send_def)
qed simp

lemma keeps_fields:
  assumes "keeps s s'"
  shows "mNextLocal s' = mNextLocal s"
    "mIdMap s' = mIdMap s"
    "mRemoteMap s' = mRemoteMap s"
    "mSendBegin s' = mSendBegin s"
    "mSendLast s' = mSendLast s"
    "mEC s' = mEC s"
    "mRecvStatus s' = mRecvStatus s"
    "mSendStatus s' = mSendStatus s"
    "mNumRecvs s' = mNumRecvs s"
    "mRecvSrc s' = mRecvSrc s"
    "mSendSrc s' = mSendSrc s"
    "mNextSendOp s' = mNextSendOp s"
    "mSendRes s' = mSendRes s"
    "mAnyRecvOp s' = mAnyRecvOp s"
    "mAnyRes s' = mAnyRes s"
    "mGetReq s' = mGetReq s"
    "mGetRes s' = mGetRes s"
    "mRecvs s' = mRecvs s"
    "mBufs s' = mBufs s"
    "mFreshPtr s' = mFreshPtr s"
    "length (mForks s') = length (mForks s)" "mExecutor (mForks s' ! i) = mExecutor (mForks s ! i)"
    "mRecvOps (mForks s' ! i) = mRecvOps (mForks s ! i)"
proof -
  obtain fo se tk out ex where e: "s' = s\<lparr>mForks := fo, mSends := se, mTokens := tk, mOut := out, mExs := ex\<rparr>"
    using assms unfolding keeps_def by blast
  show "mNextLocal s' = mNextLocal s"
    "mIdMap s' = mIdMap s"
    "mRemoteMap s' = mRemoteMap s"
    "mSendBegin s' = mSendBegin s"
    "mSendLast s' = mSendLast s"
    "mEC s' = mEC s"
    "mRecvStatus s' = mRecvStatus s"
    "mSendStatus s' = mSendStatus s"
    "mNumRecvs s' = mNumRecvs s"
    "mRecvSrc s' = mRecvSrc s"
    "mSendSrc s' = mSendSrc s"
    "mNextSendOp s' = mNextSendOp s"
    "mSendRes s' = mSendRes s"
    "mAnyRecvOp s' = mAnyRecvOp s"
    "mAnyRes s' = mAnyRes s"
    "mGetReq s' = mGetReq s"
    "mGetRes s' = mGetRes s"
    "mRecvs s' = mRecvs s"
    "mBufs s' = mBufs s"
    "mFreshPtr s' = mFreshPtr s"
    by (simp_all add: e)
  obtain q where "mForks s' ! i = (mForks s ! i)\<lparr>mSendOps := q\<rparr>" using assms unfolding keeps_def by blast
  then show "mExecutor (mForks s' ! i) = mExecutor (mForks s ! i)" "mRecvOps (mForks s' ! i) = mRecvOps (mForks s ! i)"
    by simp_all
  show "length (mForks s') = length (mForks s)" using assms by (simp add: keeps_def)
qed

section \<open>Aborting the send operations\<close>

definition note_error :: "send_buffer \<Rightarrow> error_code \<Rightarrow> exn_store \<Rightarrow> exn_store" where
  "note_error b ec ex = (case sb_ex b of None \<Rightarrow> ex | Some p \<Rightarrow> ex(p \<mapsto> sys_error ec))"

lemma send_op_setError_ok:
  assumes "cells_ok s" and "mSends s a = Some op"
  shows "send_op_setError a ec s = Inr (s\<lparr>mExs := note_error (so_Buffer op) ec (mExs s)\<rparr>)"
  using assms by (auto simp: send_op_setError_def send_setError_def note_error_def cells_ok_def split: option.splits)

lemma core_ok_retire:
  assumes ok: "core_ok s (a # ch)" and op: "mSends s a = Some op"
    and q: "pop_front (mSendOps (mForks s ! so_Fork op)) = Inr q" and i: "so_Fork op < length (mForks s)"
  shows "core_ok (retire_send a q (s\<lparr>mExs := note_error (so_Buffer op) ec (mExs s)\<rparr>)) ch"
    and "core_ok (retire_send a q s) ch"
proof -
  let ?s = "s\<lparr>mExs := note_error (so_Buffer op) ec (mExs s)\<rparr>"
  have c: "cells_ok s" using ok by (simp add: core_ok_def)
  have "cells_ok (retire_send a q ?s)"
  proof (rule cells_ok_less [OF c])
    fix b op' p assume b: "mSends (retire_send a q ?s) b = Some op'" "sb_ex (so_Buffer op') = Some p"
    then have b': "b \<noteq> a" "mSends s b = Some op'" by (auto split: if_splits)
    then have "sb_ex (so_Buffer op) \<noteq> Some p" using c op b(2) unfolding cells_ok_def by blast
    moreover have "mExs s p = None" using c b' b(2) by (simp add: cells_ok_def)
    ultimately show "mExs (retire_send a q ?s) p = None" by (auto simp: note_error_def split: option.splits)
  qed (auto split: if_splits)
  moreover have "send_ok (retire_send a q ?s) ch"
    using ok q op by (intro retire_send_ok) (simp_all add: core_ok_def)
  moreover have "token_inv (retire_send a q ?s)"
    using ok op by (intro retire_send_token) (simp_all add: core_ok_def)
  ultimately show "core_ok (retire_send a q ?s) ch"
    using ok op i by (simp add: core_ok_def retire_send_others)
  show "core_ok (retire_send a q s) ch"
    using ok op i q unfolding core_ok_def
    by (simp add: retire_send_others retire_send_ok retire_send_token)
qed

lemma abort_send_ok:
  assumes ok: "core_ok s (a # ch)" and ns: "so_Status (the (mSends s a)) = NotStarted"
  obtains q where "abort_send ec a s = Inr (so_Next (the (mSends s a)),
       retire_send a q (s\<lparr>mExs := note_error (so_Buffer (the (mSends s a))) ec (mExs s)\<rparr>))"
    "core_ok (retire_send a q (s\<lparr>mExs := note_error (so_Buffer (the (mSends s a))) ec (mExs s)\<rparr>)) ch"
    "count_ok (retire_send a q (s\<lparr>mExs := note_error (so_Buffer (the (mSends s a))) ec (mExs s)\<rparr>)) = count_ok s"
proof -
  let ?ex = "note_error (so_Buffer (the (mSends s a))) ec (mExs s)"
  let ?s = "s\<lparr>mExs := ?ex\<rparr>"
  have s: "send_ok ?s (a # ch)" "token_inv ?s" using ok by (simp_all add: core_ok_def)
  obtain op q where op: "mSends ?s a = Some op" "queue_front (mSendOps (mForks ?s ! so_Fork op)) = Inr a"
    "so_Fork op < length (mForks ?s)" "completeOn_send a ?s = Inr (finish_send a ?s)"
    "pop_front (mSendOps (mForks ?s ! so_Fork op)) = Inr q"
    "pop_front_send (so_Fork op) (finish_send a ?s) = Inr (retire_send a q ?s)"
    by (rule complete_pop_send [OF s])
  have err: "send_op_setError a ec s = Inr ?s"
    using send_op_setError_ok [of s a op ec] ok op(1) by (simp add: core_ok_def)
  have "mSends (finish_send a ?s) a = Some (op\<lparr>so_CH := None, so_Flushes := []\<rparr>)"
    using op(1) by (simp add: finish_send_def Let_def)
  then have "abort_send ec a s = Inr (so_Next op, retire_send a q ?s)"
    using op err ns by (simp add: abort_send_def fork_at_def)
  moreover have "core_ok (retire_send a q ?s) ch"
    using core_ok_retire(1) [OF ok, of op q ec] op by simp
  moreover have "count_ok (retire_send a q ?s) = count_ok s"
    using retire_send_others(2) [of ?s a op q] op by simp
  ultimately show thesis using that op(1) by simp
qed

text \<open>
  The coroutines of the operations \<open>ch\<close> are resumed, each on the executor of its fork and in this
  order, each followed by the coroutines of the flushes that waited for it last.
\<close>

definition send_completion :: "sched \<Rightarrow> nat \<Rightarrow> effect" where
  "send_completion s a = Resume (User (the (so_CH (the (mSends s a))))) (mExecutor (mForks s ! fork_of s a))"

definition completions :: "sched \<Rightarrow> nat list \<Rightarrow> effect list \<Rightarrow> bool" where
  "completions s ch out \<longleftrightarrow> (\<exists>ws. length ws = length ch \<and> out = concat (map2 (\<lambda>a w. send_completion s a # w) ch ws)
     \<and> (\<forall>w \<in> set ws. \<forall>e \<in> set w. \<exists>h x. e = Resume (User h) x))"

lemma done_send_completion:
  "\<exists>w. done_send s a = send_completion s a # w \<and> (\<forall>e \<in> set w. \<exists>h x. e = Resume (User h) x)"
  by (auto simp: done_send_def send_completion_def Let_def fork_of_def wakes_def)

lemma completions_Cons:
  assumes "completions s ch out"
  shows "completions s (a # ch) (done_send s a @ out)"
proof -
  obtain ws where "length ws = length ch" "out = concat (map2 (\<lambda>a w. send_completion s a # w) ch ws)"
    "\<forall>w \<in> set ws. \<forall>e \<in> set w. \<exists>h x. e = Resume (User h) x"
    using assms by (auto simp: completions_def)
  moreover obtain w where "done_send s a = send_completion s a # w" "\<forall>e \<in> set w. \<exists>h x. e = Resume (User h) x"
    using done_send_completion by blast
  ultimately show ?thesis by (auto simp: completions_def intro!: exI [of _ "w # ws"])
qed

lemma completions_cong:
  assumes "\<And>a. a \<in> set ch \<Longrightarrow> send_completion s' a = send_completion s a"
  shows "completions s' ch out = completions s ch out"
proof -
  have m: "map2 (\<lambda>a w. send_completion s' a # w) ch ws = map2 (\<lambda>a w. send_completion s a # w) ch ws" for ws
    using assms by (auto intro: map_cong dest: set_zip_leftD)
  show ?thesis unfolding completions_def m ..
qed

definition head_opt :: "'a list \<Rightarrow> 'a option" where
  "head_opt xs = (case xs of [] \<Rightarrow> None | x # _ \<Rightarrow> Some x)"

lemma linked_next: "linked m (a # ch) \<Longrightarrow> so_Next (the (m a)) = head_opt ch"
  by (cases ch) (auto simp: head_opt_def)

text \<open>Who learns what: the first operation gets \<open>ec\<close>, the others \<open>code::cancel\<close>.\<close>

definition told :: "sched \<Rightarrow> nat list \<Rightarrow> error_code \<Rightarrow> exn_store \<Rightarrow> bool" where
  "told s ch ec ex \<longleftrightarrow> (\<forall>a \<in> set ch. \<forall>p. sb_ex (so_Buffer (the (mSends s a))) = Some p \<longrightarrow>
     ex p = Some (sys_error (if a = hd ch then ec else make_error_code Cancel)))"

lemma abort_sends_ok:
  assumes "core_ok s ch" and "\<forall>a \<in> set ch. so_Status (the (mSends s a)) = NotStarted"
  shows "\<exists>s' out. abort_sends ec (head_opt ch) s = Inr s' \<and> core_ok s' [] \<and> count_ok s' = count_ok s \<and> keeps s s'
     \<and> mOut s' = mOut s @ out \<and> completions s ch out \<and> told s ch ec (mExs s')
     \<and> (\<forall>p. (\<forall>a \<in> set ch. sb_ex (so_Buffer (the (mSends s a))) \<noteq> Some p) \<longrightarrow> mExs s' p = mExs s p)"
  using assms
proof (induction ch arbitrary: s ec)
  case Nil
  then show ?case
    by (intro exI [of _ s] exI [of _ "[]"]) (simp add: head_opt_def keeps_refl completions_def told_def)
next
  case (Cons a ch)
  let ?b = "\<lambda>x. so_Buffer (the (mSends s x))"
  let ?s1 = "s\<lparr>mExs := note_error (?b a) ec (mExs s)\<rparr>"
  have ns: "so_Status (the (mSends s a)) = NotStarted" using Cons.prems(2) by simp
  obtain q where q: "abort_send ec a s = Inr (so_Next (the (mSends s a)), retire_send a q ?s1)"
     "core_ok (retire_send a q ?s1) ch" "count_ok (retire_send a q ?s1) = count_ok s"
    by (rule abort_send_ok [OF Cons.prems(1) ns])
  let ?s2 = "retire_send a q ?s1"
  have sok: "send_ok s (a # ch)" "cells_ok s" using Cons.prems(1) by (simp_all add: core_ok_def)
  then have a: "a \<notin> set ch" "linked (mSends s) (a # ch)" "dom (mSends s) = insert a (set ch)"
    by (simp_all add: send_ok_def)
  have same: "mSends ?s2 x = mSends s x" if "x \<in> set ch" for x using that a(1) by auto
  have "\<forall>x \<in> set ch. so_Status (the (mSends ?s2 x)) = NotStarted" using Cons.prems(2) same by simp
  from Cons.IH [OF q(2) this, of "make_error_code Cancel"] obtain s' out where
    r: "abort_sends (make_error_code Cancel) (head_opt ch) ?s2 = Inr s'" "core_ok s' []"
       "count_ok s' = count_ok ?s2" "keeps ?s2 s'" "mOut s' = mOut ?s2 @ out" "completions ?s2 ch out"
       "told ?s2 ch (make_error_code Cancel) (mExs s')"
       "\<forall>p. (\<forall>x \<in> set ch. sb_ex (so_Buffer (the (mSends ?s2 x))) \<noteq> Some p) \<longrightarrow> mExs s' p = mExs ?s2 p"
    by blast
  have other: "sb_ex (?b x) \<noteq> Some p" if pa: "sb_ex (?b a) = Some p" and x: "x \<in> set ch" for x p
  proof
    assume "sb_ex (?b x) = Some p"
    moreover obtain op where "mSends s a = Some op" using a(3) by blast
    moreover obtain op' where "mSends s x = Some op'" using a(3) x by blast
    ultimately have "x = a" using sok(2) pa unfolding cells_ok_def by (metis option.sel)
    then show False using x a(1) by simp
  qed
  have "abort_sends ec (head_opt (a # ch)) s = Inr s'"
    using q(1) r(1) linked_next [OF a(2)] by (simp add: head_opt_def abort_sends.simps(2))
  moreover have "keeps s s'" using keeps_trans [OF keeps_retire r(4)] .
  moreover have "mOut s' = mOut s @ done_send s a @ out"
    using r(5) by (simp add: done_send_def)
  moreover have "completions s (a # ch) (done_send s a @ out)"
  proof (rule completions_Cons)
    show "completions s ch out"
      using r(6) completions_cong [of ch ?s2 s out] same by (simp add: send_completion_def fork_of_def)
  qed
  moreover have "told s (a # ch) ec (mExs s')"
    unfolding told_def
  proof (intro ballI allI impI)
    fix x p assume x: "x \<in> set (a # ch)" and p: "sb_ex (?b x) = Some p"
    show "mExs s' p = Some (sys_error (if x = hd (a # ch) then ec else make_error_code Cancel))"
    proof (cases "x = a")
      case True
      then have "\<forall>y \<in> set ch. sb_ex (so_Buffer (the (mSends ?s2 y))) \<noteq> Some p"
        using other p same by simp
      then have "mExs s' p = mExs ?s2 p" using r(8) by blast
      then show ?thesis using True p by (simp add: note_error_def)
    next
      case False
      then show ?thesis using r(7) x p same by (auto simp: told_def)
    qed
  qed
  moreover have "mExs s' p = mExs s p" if "\<forall>x \<in> set (a # ch). sb_ex (?b x) \<noteq> Some p" for p
    using that r(8) same by (auto simp: note_error_def split: option.splits)
  ultimately show ?case using r(2,3) q(3) by blast
qed

section \<open>Removing the first receive operation of a fork\<close>

definition done_recv :: "sched \<Rightarrow> nat \<Rightarrow> effect list" where
  "done_recv s a = (let op = the (mRecvs s a); ex = mExecutor (mForks s ! ro_Fork op) in
     Resume (User (the (ro_CH op))) ex # wakes ex (mTokens s) (ro_Flushes op))"

definition retire_recv :: "nat \<Rightarrow> nat queue \<Rightarrow> sched \<Rightarrow> sched" where
  "retire_recv a q s = (let op = the (mRecvs s a); i = ro_Fork op in
     set_fork i ((mForks s ! i)\<lparr>mRecvOps := q\<rparr>) (s\<lparr>mRecvs := (mRecvs s)(a := None),
       mTokens := settle (mTokens s) (ro_Flushes op), mOut := mOut s @ done_recv s a\<rparr>))"

lemma retire_recv_frame [simp]:
  "mNextLocal (retire_recv a q s) = mNextLocal s"
  "mIdMap (retire_recv a q s) = mIdMap s"
  "mRemoteMap (retire_recv a q s) = mRemoteMap s"
  "mSendBegin (retire_recv a q s) = mSendBegin s"
  "mSendLast (retire_recv a q s) = mSendLast s"
  "mEC (retire_recv a q s) = mEC s"
  "mRecvStatus (retire_recv a q s) = mRecvStatus s"
  "mSendStatus (retire_recv a q s) = mSendStatus s"
  "mNumRecvs (retire_recv a q s) = mNumRecvs s"
  "mRecvSrc (retire_recv a q s) = mRecvSrc s"
  "mSendSrc (retire_recv a q s) = mSendSrc s"
  "mNextSendOp (retire_recv a q s) = mNextSendOp s"
  "mSendRes (retire_recv a q s) = mSendRes s"
  "mAnyRecvOp (retire_recv a q s) = mAnyRecvOp s"
  "mAnyRes (retire_recv a q s) = mAnyRes s"
  "mGetReq (retire_recv a q s) = mGetReq s"
  "mGetRes (retire_recv a q s) = mGetRes s"
  "mSends (retire_recv a q s) = mSends s"
  "mBufs (retire_recv a q s) = mBufs s"
  "mExs (retire_recv a q s) = mExs s"
  "mFreshPtr (retire_recv a q s) = mFreshPtr s"
  "mOut (retire_recv a q s) = mOut s @ done_recv s a" "mRecvs (retire_recv a q s) = (mRecvs s)(a := None)"
  "length (mForks (retire_recv a q s)) = length (mForks s)"
  "mExecutor (mForks (retire_recv a q s) ! j) = mExecutor (mForks s ! j)"
  "mSendOps (mForks (retire_recv a q s) ! j) = mSendOps (mForks s ! j)"
  "mLocalId (mForks (retire_recv a q s) ! j) = mLocalId (mForks s ! j)"
  "mRemoteId (mForks (retire_recv a q s) ! j) = mRemoteId (mForks s ! j)"
  "mSessionID (mForks (retire_recv a q s) ! j) = mSessionID (mForks s ! j)"
  by (simp_all add: retire_recv_def Let_def) (simp_all add: set_fork_def)

lemma retire_recv_queue:
  assumes "mRecvs s a = Some op" and "ro_Fork op < length (mForks s)"
  shows "mRecvOps (mForks (retire_recv a q s) ! j) = (if j = ro_Fork op then q else mRecvOps (mForks s ! j))"
  using assms by (simp add: retire_recv_def Let_def)

lemma recv_ok_front:
  assumes ok: "recv_ok s" and i: "i < length (mForks s)" and ne: "qlist (mRecvOps (mForks s ! i)) = a # r"
  obtains op q where "mRecvs s a = Some op" "ro_Fork op = i" "ro_CH op \<noteq> None" "mBufs s (ro_Buffer op) \<noteq> None"
    "queue_front (mRecvOps (mForks s ! i)) = Inr a" "pop_front (mRecvOps (mForks s ! i)) = Inr q" "qinv q" "qlist q = r"
proof -
  obtain op where op: "mRecvs s a = Some op" "ro_Fork op = i"
    using ok i ne unfolding recv_ok_def by (metis list.set_intros(1))
  have q: "qinv (mRecvOps (mForks s ! i))" using ok i by (simp add: recv_ok_def)
  obtain q' where "pop_front (mRecvOps (mForks s ! i)) = Inr q'" "qinv q'" "qlist q' = r"
    using pop_front_correct [OF q ne] by blast
  moreover have "ro_CH op \<noteq> None" "mBufs s (ro_Buffer op) \<noteq> None"
    using ok op(1) unfolding recv_ok_def by blast+
  ultimately show thesis using that op queue_front_correct [OF q ne] by blast
qed

lemma retire_recv_ok:
  assumes ok: "recv_ok s" and i: "i < length (mForks s)" and ne: "qlist (mRecvOps (mForks s ! i)) = a # r"
    and op: "mRecvs s a = Some op" "ro_Fork op = i" and q: "qinv q" "qlist q = r"
  shows "recv_ok (retire_recv a q s)"
proof -
  let ?s = "retire_recv a q s"
  have quu: "mRecvOps (mForks ?s ! j) = (if j = i then q else mRecvOps (mForks s ! j))" for j
    using retire_recv_queue [OF op(1)] op(2) i by simp
  have dist: "distinct (a # r)" using ok i ne unfolding recv_ok_def by metis
  have notin: "a \<notin> set (qlist (mRecvOps (mForks ?s ! j)))" if j: "j < length (mForks s)" for j
  proof (cases "j = i")
    case True
    then show ?thesis using dist q(2) by (simp add: quu)
  next
    case False
    show ?thesis
    proof
      assume "a \<in> set (qlist (mRecvOps (mForks ?s ! j)))"
      then have "a \<in> set (qlist (mRecvOps (mForks s ! j)))" using False by (simp add: quu)
      then have "\<exists>op'. mRecvs s a = Some op' \<and> ro_Fork op' = j" using ok j unfolding recv_ok_def by blast
      then show False using op False by simp
    qed
  qed
  have sub: "x \<in> set (qlist (mRecvOps (mForks s ! j)))" if "x \<in> set (qlist (mRecvOps (mForks ?s ! j)))" for x j
    using that q(2) ne by (auto simp: quu split: if_splits)
  show ?thesis
    unfolding recv_ok_def
  proof (intro conjI allI impI ballI)
    fix j assume j: "j < length (mForks ?s)"
    then show "qinv (mRecvOps (mForks ?s ! j))" "distinct (qlist (mRecvOps (mForks ?s ! j)))"
      using ok q dist by (simp_all add: quu recv_ok_def)
    fix x assume x: "x \<in> set (qlist (mRecvOps (mForks ?s ! j)))"
    then have "x \<noteq> a" using notin j by auto
    moreover have "\<exists>op'. mRecvs s x = Some op' \<and> ro_Fork op' = j"
      using ok j sub [OF x] unfolding recv_ok_def by simp
    ultimately show "\<exists>op'. mRecvs ?s x = Some op' \<and> ro_Fork op' = j" by simp
  next
    fix x op' assume "mRecvs ?s x = Some op'"
    then have x: "x \<noteq> a" "mRecvs s x = Some op'" by (auto split: if_splits)
    then have old: "ro_CH op' \<noteq> None" "ro_Fork op' < length (mForks s)"
        "x \<in> set (qlist (mRecvOps (mForks s ! ro_Fork op')))" "mBufs s (ro_Buffer op') \<noteq> None" "x < mFreshPtr s"
      using ok unfolding recv_ok_def by blast+
    then show "ro_CH op' \<noteq> None" "ro_Fork op' < length (mForks ?s)" "mBufs ?s (ro_Buffer op') \<noteq> None" "x < mFreshPtr ?s"
      by simp_all
    show "x \<in> set (qlist (mRecvOps (mForks ?s ! ro_Fork op')))"
      using old(3) x(1) ne q(2) by (auto simp: quu)
  qed
qed

lemma retire_recv_token:
  assumes inv: "token_inv s" and op: "mRecvs s a = Some op"
  shows "token_inv (retire_recv a q s)"
proof (rule token_inv_settle [OF inv])
  show "mTokens (retire_recv a q s) = settle (mTokens s) (ro_Flushes op)"
    by (simp add: retire_recv_def Let_def op)
  show "distinct (ro_Flushes op)" using inv op by (auto simp: token_inv_def)
  show "token_refs s t = token_refs (retire_recv a q s) t + (if t \<in> set (ro_Flushes op) then 1 else 0)" for t
    using inv refs_at [of "mRecvs s" ro_Flushes t a]
    by (simp add: token_refs_def retire_recv_def Let_def op held_def token_inv_def)
qed (auto simp: retire_recv_def Let_def map_le_def)

lemma sum_list_update_Suc:
  fixes g :: "'a \<Rightarrow> nat"
  assumes "i < length xs" and "g (xs ! i) = Suc (g y)"
  shows "sum_list (map g xs) = Suc (sum_list (map g (xs[i := y])))"
proof -
  have "xs = take i xs @ xs ! i # drop (Suc i) xs" using assms(1) by (rule id_take_nth_drop)
  then have "sum_list (map g xs) = sum_list (map g (take i xs)) + g (xs ! i) + sum_list (map g (drop (Suc i) xs))"
    by (metis (no_types, lifting) add.assoc list.simps(9) map_append sum_list.Cons sum_list_append)
  then show ?thesis using assms by (simp add: upd_conv_take_nth_drop)
qed

lemma retire_recv_total:
  assumes "recv_ok s" and "i < length (mForks s)" and "qlist (mRecvOps (mForks s ! i)) = a # r"
    and "mRecvs s a = Some op" "ro_Fork op = i" and "qinv q" "qlist q = r"
  shows "recv_total s = Suc (recv_total (retire_recv a q s))"
proof -
  have "qinv (mRecvOps (mForks s ! i))" using assms(1,2) by (simp add: recv_ok_def)
  then have "unat (mSize (mRecvOps (mForks s ! i))) = Suc (unat (mSize q))"
    using assms(3,6,7) by (simp add: qinv_simps)
  then show ?thesis
    using sum_list_update_Suc [of i "mForks s" "\<lambda>f. unat (mSize (mRecvOps f))" "(mForks s ! i)\<lparr>mRecvOps := q\<rparr>"] assms(2,4,5)
    by (simp add: recv_total_def retire_recv_def Let_def set_fork_def)
qed

text \<open>An error noted for a receive operation does not touch the cell of a send operation.\<close>

lemma cells_ok_recv_error:
  assumes c: "cells_ok s" and "mRecvs s a = Some rop" and "mBufs s (ro_Buffer rop) = Some b"
  shows "cells_ok (s\<lparr>mExs := recv_setError b ec (mExs s)\<rparr>)"
proof (rule cells_ok_less [OF c])
  fix x op p assume "mSends (s\<lparr>mExs := recv_setError b ec (mExs s)\<rparr>) x = Some op" "sb_ex (so_Buffer op) = Some p"
  then have "mExs s p = None" "rb_ex b \<noteq> Some p" using c assms(2,3) unfolding cells_ok_def by simp_all
  then show "mExs (s\<lparr>mExs := recv_setError b ec (mExs s)\<rparr>) p = None"
    by (auto simp: recv_setError_def split: option.splits)
qed simp_all

lemma core_ok_retire_recv:
  assumes ok: "core_ok s ch" and i: "i < length (mForks s)" and ne: "qlist (mRecvOps (mForks s ! i)) = a # r"
    and op: "mRecvs s a = Some op" "ro_Fork op = i" and q: "qinv q" "qlist q = r"
  shows "core_ok (retire_recv a q s) ch"
proof -
  have "recv_ok (retire_recv a q s)" using ok i ne op q by (intro retire_recv_ok) (simp_all add: core_ok_def)
  moreover have "send_ok (retire_recv a q s) ch" "ids_ok (retire_recv a q s)"
    using ok i op by (simp_all add: retire_recv_def Let_def set_fork_ok core_ok_def)
  moreover have "token_inv (retire_recv a q s)"
    using ok op(1) by (intro retire_recv_token) (simp_all add: core_ok_def)
  moreover have "cells_ok (retire_recv a q s)"
  proof (rule cells_ok_less)
    show "cells_ok s" using ok by (simp add: core_ok_def)
    fix b op' p assume "mSends (retire_recv a q s) b = Some op'" "sb_ex (so_Buffer op') = Some p"
    then show "mExs (retire_recv a q s) p = None" using ok unfolding core_ok_def cells_ok_def by simp
  qed (auto split: if_splits)
  ultimately show ?thesis by (simp add: core_ok_def)
qed

lemma complete_pop_recv:
  assumes ok: "recv_ok s" "token_inv s" and i: "i < length (mForks s)" and ne: "qlist (mRecvOps (mForks s ! i)) = a # r"
  obtains op q where "mRecvs s a = Some op" "ro_Fork op = i" "mBufs s (ro_Buffer op) \<noteq> None"
    "queue_front (mRecvOps (mForks s ! i)) = Inr a" "completeOn_recv a s = Inr (finish_recv a s)"
    "pop_front_recv i (finish_recv a s) = Inr (retire_recv a q s)" "qinv q" "qlist q = r"
proof -
  obtain op q where op: "mRecvs s a = Some op" "ro_Fork op = i" "ro_CH op \<noteq> None" "mBufs s (ro_Buffer op) \<noteq> None"
    "queue_front (mRecvOps (mForks s ! i)) = Inr a" "pop_front (mRecvOps (mForks s ! i)) = Inr q" "qinv q" "qlist q = r"
    by (rule recv_ok_front [OF ok(1) i ne])
  have c: "completeOn_recv a s = Inr (finish_recv a s)"
    using op i by (intro completeOn_recv_closed [OF op(1,3) _ token_live_recv [OF ok(2) op(1)]]) simp
  have "pop_front_recv i (finish_recv a s) = Inr (retire_recv a q s)"
    using op(1,2,5,6) i
    by (simp add: pop_front_recv_def fork_at_def finish_recv_def retire_recv_def done_recv_def Let_def set_fork_def)
  then show thesis by (rule that [OF op(1,2,4,5) c _ op(7,8)])
qed

end
