(* ===== verification/Sched_Forks.thy ===== *)
theory Sched_Forks
  imports Sched_Inv
begin

text \<open>
  Forks and their identifiers: creation by the local party and by a control message of the peer,
  derivation, and the executor of a fork. Each of these operations keeps the invariants of
  \<open>Sched_Inv\<close>; the conditions are those under which the code does not assert.
\<close>

section \<open>A new fork\<close>

definition blank_fork :: "session_id \<Rightarrow> fork" where
  "blank_fork sid = \<lparr>mSessionID = sid, mLocalId = -1, mRemoteId = -1, mInitiated = False, mExecutor = None,
     mName = '''', mRecvOps = nat_queue, mSendOps = nat_queue\<rparr>"

lemma new_fork_blank: "new_fork sid = Inr (blank_fork sid)"
  by (simp add: new_fork_def nat_queue_new blank_fork_def)

lemma blank_fork_simps [simp]:
  "mSessionID (blank_fork sid) = sid" "mLocalId (blank_fork sid) = -1" "mRemoteId (blank_fork sid) = -1"
  "mInitiated (blank_fork sid) = False" "mExecutor (blank_fork sid) = None"
  "mRecvOps (blank_fork sid) = nat_queue" "mSendOps (blank_fork sid) = nat_queue"
  by (simp_all add: blank_fork_def)

lemma mSize_nat_queue [simp]: "mSize nat_queue = 0"
  by (simp add: nat_queue_def)

definition with_fork :: "session_id \<Rightarrow> sched \<Rightarrow> sched" where
  "with_fork sid s = s\<lparr>mForks := mForks s @ [blank_fork sid], mIdMap := (mIdMap s)(sid_key sid \<mapsto> length (mForks s))\<rparr>"

lemma add_fork_eq: "add_fork sid s = Inr (length (mForks s), with_fork sid s)"
  by (simp add: add_fork_def new_fork_blank with_fork_def Let_def)

lemma with_fork_simps [simp]:
  "mSends (with_fork sid s) = mSends s" "mRecvs (with_fork sid s) = mRecvs s" "mBufs (with_fork sid s) = mBufs s"
  "mExs (with_fork sid s) = mExs s" "mTokens (with_fork sid s) = mTokens s" "mFreshPtr (with_fork sid s) = mFreshPtr s"
  "mOut (with_fork sid s) = mOut s" "mRemoteMap (with_fork sid s) = mRemoteMap s"
  "mForks (with_fork sid s) = mForks s @ [blank_fork sid]" "mNextLocal (with_fork sid s) = mNextLocal s"
  "mIdMap (with_fork sid s) = (mIdMap s)(sid_key sid \<mapsto> length (mForks s))"
  by (simp_all add: with_fork_def)

lemma less_append_cases:
  "i < length (xs @ [x]) \<Longrightarrow> (i < length xs \<Longrightarrow> P) \<Longrightarrow> (i = length xs \<Longrightarrow> P) \<Longrightarrow> P"
  by (auto simp: less_Suc_eq)

lemma with_fork_send_ok:
  assumes "send_ok s ch"
  shows "send_ok (with_fork sid s) ch"
proof -
  have none: "filter (\<lambda>a. fork_of s a = length (mForks s)) ch = []"
    using assms by (auto simp: send_ok_def filter_empty_conv)
  show ?thesis
    using assms none unfolding send_ok_def
    by (auto simp: fork_of_def nth_append less_Suc_eq nat_queue_inv nat_queue_list)
qed

lemma with_fork_recv_ok: "recv_ok s \<Longrightarrow> recv_ok (with_fork sid s)"
  unfolding recv_ok_def
  by (fastforce simp: nth_append less_Suc_eq nat_queue_inv nat_queue_list)

lemma with_fork_ids_ok:
  assumes "ids_ok s" and "mIdMap s (sid_key sid) = None"
  shows "ids_ok (with_fork sid s)"
proof -
  have no: "sid_key (mSessionID (mForks s ! i)) \<noteq> sid_key sid" if "i < length (mForks s)" for i
    using assms that unfolding ids_ok_def by (metis option.distinct(1))
  have len: "mIdMap s k = Some i \<Longrightarrow> i < length (mForks s)" "mRemoteMap s r = Some i \<Longrightarrow> i < length (mForks s)" for k r i
    using assms(1) unfolding ids_ok_def by blast+
  show ?thesis
    unfolding ids_ok_def
  proof (intro conjI allI)
    fix k i
    have "mIdMap s k = Some i \<longleftrightarrow> i < length (mForks s) \<and> sid_key (mSessionID (mForks s ! i)) = k"
      using assms(1) unfolding ids_ok_def by blast
    then show "mIdMap (with_fork sid s) k = Some i \<longleftrightarrow>
        i < length (mForks (with_fork sid s)) \<and> sid_key (mSessionID (mForks (with_fork sid s) ! i)) = k"
      using no len by (auto simp: nth_append less_Suc_eq)
  next
    fix r i
    have "mRemoteMap s r = Some i \<longleftrightarrow> i < length (mForks s) \<and> mRemoteId (mForks s ! i) = r \<and> r \<noteq> NOT 0"
      using assms(1) unfolding ids_ok_def by blast
    then show "mRemoteMap (with_fork sid s) r = Some i \<longleftrightarrow>
        i < length (mForks (with_fork sid s)) \<and> mRemoteId (mForks (with_fork sid s) ! i) = r \<and> r \<noteq> NOT 0"
      using len by (auto simp: nth_append less_Suc_eq)
  qed
qed

lemma with_fork_core:
  assumes "core_ok s ch" and "mIdMap s (sid_key sid) = None"
  shows "core_ok (with_fork sid s) ch"
proof -
  have "token_inv (with_fork sid s) = token_inv s" "cells_ok (with_fork sid s) = cells_ok s"
    by (simp_all add: with_fork_def)
  then show ?thesis
    using assms by (simp add: core_ok_def with_fork_send_ok with_fork_recv_ok with_fork_ids_ok)
qed

lemma with_fork_count [simp]: "recv_total (with_fork sid s) = recv_total s"
  by (simp add: recv_total_def)

section \<open>Local forks\<close>

text \<open>The fork that \<^verbatim>\<open>initLocalSocketFork\<close> gives a local identifier, and the state with it.\<close>

definition local_target :: "session_id \<Rightarrow> sched \<Rightarrow> nat" where
  "local_target sid s = (case mIdMap s (sid_key sid) of None \<Rightarrow> length (mForks s) | Some i \<Rightarrow> i)"

definition local_base :: "session_id \<Rightarrow> sched \<Rightarrow> sched" where
  "local_base sid s = (if mIdMap s (sid_key sid) = None then with_fork sid s else s)"

definition localized :: "session_id \<Rightarrow> nat option \<Rightarrow> sched \<Rightarrow> sched" where
  "localized sid ex s = (let b = local_base sid s; i = local_target sid s in
     set_fork i ((mForks b ! i)\<lparr>mLocalId := mNextLocal s, mExecutor := ex\<rparr>) (b\<lparr>mNextLocal := mNextLocal s + 1\<rparr>))"

text \<open>The identifier can be made local: it is new, or only the peer has used it so far.\<close>

definition can_localize :: "session_id \<Rightarrow> sched \<Rightarrow> bool" where
  "can_localize sid s \<longleftrightarrow> (\<forall>i. mIdMap s (sid_key sid) = Some i \<longrightarrow> mLocalId (mForks s ! i) = NOT 0)"

lemma ids_ok_id: "ids_ok s \<Longrightarrow> mIdMap s k = Some i \<Longrightarrow> i < length (mForks s) \<and> sid_key (mSessionID (mForks s ! i)) = k"
  unfolding ids_ok_def by blast

lemma ids_ok_remote:
  "ids_ok s \<Longrightarrow> mRemoteMap s r = Some i \<Longrightarrow> i < length (mForks s) \<and> mRemoteId (mForks s ! i) = r \<and> r \<noteq> NOT 0"
  unfolding ids_ok_def by blast

lemma local_target_less: "ids_ok s \<Longrightarrow> local_target sid s < length (mForks (local_base sid s))"
  using ids_ok_id [of s "sid_key sid"] by (auto simp: local_target_def local_base_def split: option.splits)

lemma initLocal_eq:
  assumes "ids_ok s" and "can_localize sid s"
  shows "initLocalSocketFork sid ex s = Inr (localized sid ex s)"
proof (cases "mIdMap s (sid_key sid)")
  case None
  then show ?thesis
    by (simp add: initLocalSocketFork_def add_fork_eq fork_at_def localized_def local_base_def local_target_def Let_def)
next
  case (Some i)
  then have "i < length (mForks s)" "mLocalId (mForks s ! i) = NOT 0"
    using ids_ok_id [OF assms(1)] assms(2) by (auto simp: can_localize_def)
  then show ?thesis
    using Some by (simp add: initLocalSocketFork_def fork_at_def localized_def local_base_def local_target_def Let_def)
qed

lemma local_base_core: "core_ok s ch \<Longrightarrow> core_ok (local_base sid s) ch"
  by (simp add: local_base_def with_fork_core)

lemma localized_core:
  assumes "core_ok s ch"
  shows "core_ok (localized sid ex s) ch"
proof -
  have "ids_ok s" using assms by (simp add: core_ok_def)
  then have l: "local_target sid s < length (mForks (local_base sid s))" by (rule local_target_less)
  have "core_ok (local_base sid s) ch" by (rule local_base_core [OF assms])
  then show ?thesis
    using l by (simp add: localized_def Let_def core_ok_def set_fork_ok)
qed

text \<open>What the other components see of a state in which a fork was created or relabelled.\<close>

definition same_queues :: "sched \<Rightarrow> sched \<Rightarrow> bool" where
  "same_queues s s' \<longleftrightarrow> length (mForks s) \<le> length (mForks s')
     \<and> (\<forall>i < length (mForks s'). mRecvOps (mForks s' ! i) = (if i < length (mForks s) then mRecvOps (mForks s ! i) else nat_queue)
          \<and> mSendOps (mForks s' ! i) = (if i < length (mForks s) then mSendOps (mForks s ! i) else nat_queue))
     \<and> (\<exists>fo nl im rm. s' = s\<lparr>mForks := fo, mNextLocal := nl, mIdMap := im, mRemoteMap := rm\<rparr>)"

lemma same_queues_refl: "same_queues s s"
  unfolding same_queues_def
  by (intro conjI exI [of _ "mForks s"] exI [of _ "mNextLocal s"] exI [of _ "mIdMap s"] exI [of _ "mRemoteMap s"]) simp_all

lemma same_queues_with_fork: "same_queues s (with_fork sid s)"
  unfolding same_queues_def
proof (intro conjI)
  show "\<exists>fo nl im rm. with_fork sid s = s\<lparr>mForks := fo, mNextLocal := nl, mIdMap := im, mRemoteMap := rm\<rparr>"
    by (intro exI [of _ "mForks (with_fork sid s)"] exI [of _ "mNextLocal s"]
        exI [of _ "mIdMap (with_fork sid s)"] exI [of _ "mRemoteMap s"]) (simp add: with_fork_def)
qed (auto simp: nth_append)

lemma same_queues_set_fork:
  assumes "same_queues s b" and "i < length (mForks b)"
    and "mRecvOps f = mRecvOps (mForks b ! i)" and "mSendOps f = mSendOps (mForks b ! i)"
  shows "same_queues s (set_fork i f (b\<lparr>mNextLocal := nl, mRemoteMap := rm\<rparr>))"
proof -
  obtain fo nl' im rm' where b: "b = s\<lparr>mForks := fo, mNextLocal := nl', mIdMap := im, mRemoteMap := rm'\<rparr>"
    using assms(1) unfolding same_queues_def by blast
  have "\<exists>fo nl' im rm'. set_fork i f (b\<lparr>mNextLocal := nl, mRemoteMap := rm\<rparr>)
      = s\<lparr>mForks := fo, mNextLocal := nl', mIdMap := im, mRemoteMap := rm'\<rparr>"
    unfolding set_fork_def b
    by (intro exI [of _ "fo[i := f]"] exI [of _ nl] exI [of _ im] exI [of _ rm]) simp
  then show ?thesis
    using assms unfolding same_queues_def by simp
qed

lemma same_queues_localized:
  assumes "ids_ok s"
  shows "same_queues s (localized sid ex s)"
proof -
  have "same_queues s (local_base sid s)"
    by (simp add: local_base_def same_queues_refl same_queues_with_fork)
  from same_queues_set_fork [OF this local_target_less [OF assms, of sid],
      of "(mForks (local_base sid s) ! local_target sid s)\<lparr>mLocalId := mNextLocal s, mExecutor := ex\<rparr>"
        "mRemoteMap (local_base sid s)" "mNextLocal s + 1"]
  show ?thesis by (simp add: localized_def Let_def)
qed

end
