(* ===== verification/Sched_Abort.thy ===== *)
theory Sched_Abort
  imports Sched_Inv
begin

text \<open>
  Aborting all pending receive operations, and \<^verbatim>\<open>cancel\<close> as a whole: it succeeds in every
  state in good order, keeps the invariants, completes every operation it is responsible for
  exactly once and reports its error to the first of them.
\<close>

section \<open>Aborting the receive operations\<close>

definition keeps_recv :: "sched \<Rightarrow> sched \<Rightarrow> bool" where
  "keeps_recv s s' \<longleftrightarrow> length (mForks s') = length (mForks s) \<and> (\<forall>i. \<exists>q. mForks s' ! i = (mForks s ! i)\<lparr>mRecvOps := q\<rparr>)
     \<and> (\<exists>fo re tk out ex. s' = s\<lparr>mForks := fo, mRecvs := re, mTokens := tk, mOut := out, mExs := ex\<rparr>)"

lemma keeps_recv_refl: "keeps_recv s s"
  unfolding keeps_recv_def
proof (intro conjI allI)
  show "\<exists>q. mForks s ! i = (mForks s ! i)\<lparr>mRecvOps := q\<rparr>" for i
    by (rule exI [of _ "mRecvOps (mForks s ! i)"]) simp
  show "\<exists>fo re tk out ex. s = s\<lparr>mForks := fo, mRecvs := re, mTokens := tk, mOut := out, mExs := ex\<rparr>"
    by (intro exI [of _ "mForks s"] exI [of _ "mRecvs s"] exI [of _ "mTokens s"] exI [of _ "mOut s"]
        exI [of _ "mExs s"]) simp
qed simp

lemma keeps_recv_trans:
  assumes "keeps_recv s s'" and "keeps_recv s' s''"
  shows "keeps_recv s s''"
proof -
  have "\<exists>q. mForks s'' ! i = (mForks s ! i)\<lparr>mRecvOps := q\<rparr>" for i
  proof -
    obtain q q' where "mForks s' ! i = (mForks s ! i)\<lparr>mRecvOps := q\<rparr>" "mForks s'' ! i = (mForks s' ! i)\<lparr>mRecvOps := q'\<rparr>"
      using assms unfolding keeps_recv_def by blast
    then show ?thesis by (intro exI [of _ q']) simp
  qed
  moreover obtain fo se tk out ex fo' se' tk' out' ex' where
    "s' = s\<lparr>mForks := fo, mRecvs := se, mTokens := tk, mOut := out, mExs := ex\<rparr>"
    "s'' = s'\<lparr>mForks := fo', mRecvs := se', mTokens := tk', mOut := out', mExs := ex'\<rparr>"
    using assms unfolding keeps_recv_def by metis
  then have "s'' = s\<lparr>mForks := fo', mRecvs := se', mTokens := tk', mOut := out', mExs := ex'\<rparr>" by simp
  ultimately show ?thesis using assms unfolding keeps_recv_def by (intro conjI allI) (simp, blast, blast)
qed

lemma keeps_recv_fields:
  assumes "keeps_recv s s'"
  shows "mNextLocal s' = mNextLocal s"
    "mIdMap s' = mIdMap s"
    "mRemoteMap s' = mRemoteMap s"
    "mSendBegin s' = mSendBegin s"
    "mSendLast s' = mSendLast s"
    "mEC s' = mEC s"
    "mRecvStatus s' = mRecvStatus s"
    "mSendStatus s' = mSendStatus s"
    "mNumRecvs s' = mNumRecvs s"
    "mRecvSrc s' = mRecvSrc s"
    "mSendSrc s' = mSendSrc s"
    "mNextSendOp s' = mNextSendOp s"
    "mSendRes s' = mSendRes s"
    "mAnyRecvOp s' = mAnyRecvOp s"
    "mAnyRes s' = mAnyRes s"
    "mGetReq s' = mGetReq s"
    "mGetRes s' = mGetRes s"
    "mSends s' = mSends s"
    "mBufs s' = mBufs s"
    "mFreshPtr s' = mFreshPtr s"
    "length (mForks s') = length (mForks s)" "mExecutor (mForks s' ! i) = mExecutor (mForks s ! i)"
    "mSendOps (mForks s' ! i) = mSendOps (mForks s ! i)"
proof -
  obtain fo se tk out ex where e: "s' = s\<lparr>mForks := fo, mRecvs := se, mTokens := tk, mOut := out, mExs := ex\<rparr>"
    using assms unfolding keeps_recv_def by blast
  show "mNextLocal s' = mNextLocal s"
    "mIdMap s' = mIdMap s"
    "mRemoteMap s' = mRemoteMap s"
    "mSendBegin s' = mSendBegin s"
    "mSendLast s' = mSendLast s"
    "mEC s' = mEC s"
    "mRecvStatus s' = mRecvStatus s"
    "mSendStatus s' = mSendStatus s"
    "mNumRecvs s' = mNumRecvs s"
    "mRecvSrc s' = mRecvSrc s"
    "mSendSrc s' = mSendSrc s"
    "mNextSendOp s' = mNextSendOp s"
    "mSendRes s' = mSendRes s"
    "mAnyRecvOp s' = mAnyRecvOp s"
    "mAnyRes s' = mAnyRes s"
    "mGetReq s' = mGetReq s"
    "mGetRes s' = mGetRes s"
    "mSends s' = mSends s"
    "mBufs s' = mBufs s"
    "mFreshPtr s' = mFreshPtr s"
    by (simp_all add: e)
  obtain q where "mForks s' ! i = (mForks s ! i)\<lparr>mRecvOps := q\<rparr>" using assms unfolding keeps_recv_def by blast
  then show "mExecutor (mForks s' ! i) = mExecutor (mForks s ! i)" "mSendOps (mForks s' ! i) = mSendOps (mForks s ! i)"
    by simp_all
  show "length (mForks s') = length (mForks s)" using assms by (simp add: keeps_recv_def)
qed

lemma keeps_recv_retire: "keeps_recv s (retire_recv a q (s\<lparr>mExs := ex\<rparr>))"
  unfolding keeps_recv_def
proof (intro conjI allI)
  fix i show "\<exists>q'. mForks (retire_recv a q (s\<lparr>mExs := ex\<rparr>)) ! i = (mForks s ! i)\<lparr>mRecvOps := q'\<rparr>"
    by (auto simp: retire_recv_def Let_def intro: exI [of _ "mRecvOps (mForks s ! i)"])
  show "\<exists>fo re tk out ex'. retire_recv a q (s\<lparr>mExs := ex\<rparr>)
      = s\<lparr>mForks := fo, mRecvs := re, mTokens := tk, mOut := out, mExs := ex'\<rparr>"
    unfolding retire_recv_def Let_def set_fork_def
    by (intro exI [of _ "mForks (retire_recv a q (s\<lparr>mExs := ex\<rparr>))"] exI [of _ "(mRecvs s)(a := None)"]
        exI [of _ "settle (mTokens s) (ro_Flushes (the (mRecvs s a)))"] exI [of _ "mOut s @ done_recv s a"] exI [of _ ex])
      (simp add: retire_recv_def Let_def set_fork_def done_recv_def)
qed simp

definition recv_completion :: "sched \<Rightarrow> nat \<Rightarrow> effect" where
  "recv_completion s a = Resume (User (the (ro_CH (the (mRecvs s a))))) (mExecutor (mForks s ! ro_Fork (the (mRecvs s a))))"

definition recv_completions :: "sched \<Rightarrow> nat list \<Rightarrow> effect list \<Rightarrow> bool" where
  "recv_completions s ch out \<longleftrightarrow> (\<exists>ws. length ws = length ch \<and> out = concat (map2 (\<lambda>a w. recv_completion s a # w) ch ws)
     \<and> (\<forall>w \<in> set ws. \<forall>e \<in> set w. \<exists>h x. e = Resume (User h) x))"

lemma recv_completions_Cons:
  assumes "recv_completions s ch out"
  shows "recv_completions s (a # ch) (done_recv s a @ out)"
proof -
  obtain ws where "length ws = length ch" "out = concat (map2 (\<lambda>a w. recv_completion s a # w) ch ws)"
    "\<forall>w \<in> set ws. \<forall>e \<in> set w. \<exists>h x. e = Resume (User h) x"
    using assms by (auto simp: recv_completions_def)
  moreover obtain w where "done_recv s a = recv_completion s a # w" "\<forall>e \<in> set w. \<exists>h x. e = Resume (User h) x"
    by (auto simp: done_recv_def recv_completion_def Let_def wakes_def)
  ultimately show ?thesis by (auto simp: recv_completions_def intro!: exI [of _ "w # ws"])
qed

lemma recv_completions_cong:
  assumes "\<And>a. a \<in> set ch \<Longrightarrow> recv_completion s' a = recv_completion s a"
  shows "recv_completions s' ch out = recv_completions s ch out"
proof -
  have m: "map2 (\<lambda>a w. recv_completion s' a # w) ch ws = map2 (\<lambda>a w. recv_completion s a # w) ch ws" for ws
    using assms by (auto intro: map_cong dest: set_zip_leftD)
  show ?thesis unfolding recv_completions_def m ..
qed

text \<open>The pending receive operations of the forks from \<open>i\<close> on, fork by fork.\<close>

definition pending_from :: "nat \<Rightarrow> sched \<Rightarrow> nat list" where
  "pending_from i s = concat (map (\<lambda>f. qlist (mRecvOps f)) (drop i (mForks s)))"

lemma pending_from_Suc:
  "i < length (mForks s) \<Longrightarrow> pending_from i s = qlist (mRecvOps (mForks s ! i)) @ pending_from (Suc i) s"
  by (simp add: pending_from_def Cons_nth_drop_Suc [symmetric])

lemma pending_from_cong:
  assumes "length (mForks s') = length (mForks s)"
    and "\<And>j. i \<le> j \<Longrightarrow> j < length (mForks s) \<Longrightarrow> qlist (mRecvOps (mForks s' ! j)) = qlist (mRecvOps (mForks s ! j))"
  shows "pending_from i s' = pending_from i s"
proof -
  have "map (\<lambda>f. qlist (mRecvOps f)) (drop i (mForks s')) = map (\<lambda>f. qlist (mRecvOps f)) (drop i (mForks s))"
    using assms by (intro nth_equalityI) auto
  then show ?thesis by (simp add: pending_from_def)
qed

lemma in_pending_from:
  "x \<in> set (pending_from i s) \<longleftrightarrow> (\<exists>j. i \<le> j \<and> j < length (mForks s) \<and> x \<in> set (qlist (mRecvOps (mForks s ! j))))"
  (is "?l \<longleftrightarrow> ?r")
proof
  assume ?l
  then obtain f where f: "f \<in> set (drop i (mForks s))" and x: "x \<in> set (qlist (mRecvOps f))" by (auto simp: pending_from_def)
  then obtain n where "n < length (mForks s) - i" "f = drop i (mForks s) ! n" by (auto simp: in_set_conv_nth)
  then show ?r using x by (intro exI [of _ "i + n"]) auto
next
  assume ?r
  then obtain j where "i \<le> j" "j < length (mForks s)" "x \<in> set (qlist (mRecvOps (mForks s ! j)))" by blast
  moreover from this have "mForks s ! j \<in> set (drop i (mForks s))"
    using nth_mem [of "j - i" "drop i (mForks s)"] by simp
  ultimately show ?l by (auto simp: pending_from_def)
qed

lemma abort_recv_ok:
  assumes ok: "core_ok s ch" and i: "i < length (mForks s)" and ne: "qlist (mRecvOps (mForks s ! i)) = a # r"
  obtains op b q where "mRecvs s a = Some op" "ro_Fork op = i" "mBufs s (ro_Buffer op) = Some b"
    "abort_recv ec i s = Inr (retire_recv a q (s\<lparr>mExs := recv_setError b ec (mExs s)\<rparr>))"
    "core_ok (retire_recv a q (s\<lparr>mExs := recv_setError b ec (mExs s)\<rparr>)) ch" "qinv q" "qlist q = r"
proof -
  obtain op0 where op0: "mRecvs s a = Some op0" "mBufs s (ro_Buffer op0) \<noteq> None"
    using recv_ok_front [OF _ i ne] ok by (metis core_ok_def)
  then obtain b where b: "mBufs s (ro_Buffer op0) = Some b" by blast
  let ?s = "s\<lparr>mExs := recv_setError b ec (mExs s)\<rparr>"
  have ok': "core_ok ?s ch" using ok cells_ok_recv_error [OF _ op0(1) b] by (simp add: core_ok_def)
  have pre: "recv_ok ?s" "token_inv ?s" "i < length (mForks ?s)" "qlist (mRecvOps (mForks ?s ! i)) = a # r"
    using ok i ne by (simp_all add: core_ok_def)
  obtain op q where op: "mRecvs ?s a = Some op" "ro_Fork op = i" "mBufs ?s (ro_Buffer op) \<noteq> None"
    "queue_front (mRecvOps (mForks ?s ! i)) = Inr a" "completeOn_recv a ?s = Inr (finish_recv a ?s)"
    "pop_front_recv i (finish_recv a ?s) = Inr (retire_recv a q ?s)" "qinv q" "qlist q = r"
    by (rule complete_pop_recv [OF pre])
  have "recv_op_setError a ec s = Inr ?s" using op0(1) b by (simp add: recv_op_setError_def)
  then have "abort_recv ec i s = Inr (retire_recv a q ?s)"
    using op i by (simp add: abort_recv_def fork_at_def)
  moreover have "core_ok (retire_recv a q ?s) ch"
    using core_ok_retire_recv [OF ok' pre(3,4) op(1,2,7,8)] .
  ultimately show thesis using that [of op b q] op op0(1) b by simp
qed

lemma abort_recvs_ok:
  assumes "core_ok s ch" and "i + n = length (mForks s)"
  shows "\<exists>s' out. abort_recvs n ec i s = Inr s' \<and> core_ok s' ch \<and> keeps_recv s s'
     \<and> (\<forall>j < length (mForks s). qlist (mRecvOps (mForks s' ! j)) = (if j < i then qlist (mRecvOps (mForks s ! j)) else []))
     \<and> mOut s' = mOut s @ out \<and> recv_completions s (pending_from i s) out
     \<and> (\<forall>p. mExs s' p = mExs s p \<or> (\<exists>e \<in> {ec, make_error_code Cancel}. mExs s' p = Some (sys_error e)))
     \<and> (\<forall>a \<in> set (pending_from i s). \<forall>b p. mBufs s (ro_Buffer (the (mRecvs s a))) = Some b \<longrightarrow> rb_ex b = Some p \<longrightarrow>
          (\<exists>e \<in> {ec, make_error_code Cancel}. mExs s' p = Some (sys_error e)))"
  using assms
proof (induction n ec i s rule: abort_recvs.induct)
  case (1 ec i s)
  have "pending_from i s = []" using 1 by (simp add: pending_from_def)
  then show ?case
    using 1 by (intro exI [of _ s] exI [of _ "[]"]) (simp add: keeps_recv_refl recv_completions_def)
next
  case (2 n ec i s)
  have i: "i < length (mForks s)" using 2(4) by simp
  have f: "fork_at i s = Inr (mForks s ! i)" using i by (simp add: fork_at_def)
  have qi: "qinv (mRecvOps (mForks s ! i))" using 2(3) i by (simp add: core_ok_def recv_ok_def)
  show ?case
  proof (cases "qlist (mRecvOps (mForks s ! i))")
    case Nil
    then have z: "queue_size (mRecvOps (mForks s ! i)) = 0"
      using mSize_zero_iff [OF qi] by (simp add: queue_size_def)
    have "Suc i + n = length (mForks s)" using 2(4) by simp
    from 2(1) [OF f z 2(3) this] show ?thesis
      using f z i Nil by (fastforce simp: abort_recvs.simps(2) pending_from_Suc less_Suc_eq)
  next
    case (Cons a r)
    then have z: "queue_size (mRecvOps (mForks s ! i)) \<noteq> 0"
      using mSize_zero_iff [OF qi] by (simp add: queue_size_def)
    obtain op b q where a: "mRecvs s a = Some op" "ro_Fork op = i" "mBufs s (ro_Buffer op) = Some b"
      "abort_recv ec i s = Inr (retire_recv a q (s\<lparr>mExs := recv_setError b ec (mExs s)\<rparr>))"
      "core_ok (retire_recv a q (s\<lparr>mExs := recv_setError b ec (mExs s)\<rparr>)) ch" "qinv q" "qlist q = r"
      by (rule abort_recv_ok [OF 2(3) i Cons])
    let ?s1 = "s\<lparr>mExs := recv_setError b ec (mExs s)\<rparr>"
    let ?s2 = "retire_recv a q ?s1"
    have qs: "mRecvOps (mForks ?s2 ! j) = (if j = i then q else mRecvOps (mForks s ! j))" for j
      using retire_recv_queue [of ?s1 a op q j] a(1,2) i by simp
    have len: "i + Suc n = length (mForks ?s2)" using 2(4) by simp
    from 2(2) [OF f z a(4,5) len] obtain s' out where
      r: "abort_recvs (Suc n) (make_error_code Cancel) i ?s2 = Inr s'" "core_ok s' ch" "keeps_recv ?s2 s'"
        "\<forall>j < length (mForks ?s2). qlist (mRecvOps (mForks s' ! j)) = (if j < i then qlist (mRecvOps (mForks ?s2 ! j)) else [])"
        "mOut s' = mOut ?s2 @ out" "recv_completions ?s2 (pending_from i ?s2) out"
        "\<forall>p. mExs s' p = mExs ?s2 p \<or> mExs s' p = Some (sys_error (make_error_code Cancel))"
        "\<forall>x \<in> set (pending_from i ?s2). \<forall>b p. mBufs ?s2 (ro_Buffer (the (mRecvs ?s2 x))) = Some b \<longrightarrow> rb_ex b = Some p \<longrightarrow>
          mExs s' p = Some (sys_error (make_error_code Cancel))"
      by auto
    have pend: "pending_from i s = a # pending_from i ?s2"
      using i Cons a(7) pending_from_cong [of ?s2 s "Suc i"] by (simp add: pending_from_Suc qs)
    have notin: "x \<noteq> a" if "x \<in> set (pending_from i ?s2)" for x
    proof -
      obtain j where j: "j < length (mForks s)" "x \<in> set (qlist (mRecvOps (mForks ?s2 ! j)))"
        using \<open>x \<in> set (pending_from i ?s2)\<close> by (auto simp: in_pending_from)
      have "recv_ok ?s2" using a(5) by (simp add: core_ok_def)
      then have "mRecvs ?s2 x \<noteq> None" using j unfolding recv_ok_def by fastforce
      then show ?thesis by auto
    qed
    have "abort_recvs (Suc n) ec i s = Inr s'"
      using f z a(4) r(1) by (simp add: abort_recvs.simps(2) [of n ec i s])
    moreover have "keeps_recv s s'" using keeps_recv_trans [OF keeps_recv_retire r(3)] .
    moreover have "\<forall>j < length (mForks s). qlist (mRecvOps (mForks s' ! j)) = (if j < i then qlist (mRecvOps (mForks s ! j)) else [])"
      using r(4) by (simp add: qs)
    moreover have "mOut s' = mOut s @ done_recv s a @ out" using r(5) by (simp add: done_recv_def)
    moreover have "recv_completions s (pending_from i s) (done_recv s a @ out)"
      unfolding pend
    proof (rule recv_completions_Cons)
      show "recv_completions s (pending_from i ?s2) out"
        using r(6) recv_completions_cong [of "pending_from i ?s2" ?s2 s out] notin
        by (simp add: recv_completion_def)
    qed
    moreover have "\<forall>p. mExs s' p = mExs s p \<or> (\<exists>e \<in> {ec, make_error_code Cancel}. mExs s' p = Some (sys_error e))"
      using r(7) by (auto simp: recv_setError_def split: option.splits if_splits)
    moreover have "\<forall>x \<in> set (pending_from i s). \<forall>b p. mBufs s (ro_Buffer (the (mRecvs s x))) = Some b \<longrightarrow> rb_ex b = Some p \<longrightarrow>
          (\<exists>e \<in> {ec, make_error_code Cancel}. mExs s' p = Some (sys_error e))"
    proof (intro ballI allI impI)
      fix x b' p assume x: "x \<in> set (pending_from i s)" "mBufs s (ro_Buffer (the (mRecvs s x))) = Some b'" "rb_ex b' = Some p"
      show "\<exists>e \<in> {ec, make_error_code Cancel}. mExs s' p = Some (sys_error e)"
      proof (cases "x = a")
        case True
        then have "b' = b" using x(2) a(1,3) by simp
        then have "mExs ?s2 p = Some (sys_error ec)" using x(3) by (simp add: recv_setError_def)
        then show ?thesis using r(7) by (metis insertCI)
      next
        case False
        then show ?thesis using r(8) x by (auto simp: pend)
      qed
    qed
    ultimately show ?thesis using r(2) by blast
  qed
qed

text \<open>Every receive operation is gone afterwards.\<close>

lemma no_recvs:
  assumes "recv_ok s" and "\<forall>j < length (mForks s). qlist (mRecvOps (mForks s ! j)) = []"
  shows "mRecvs s a = None" and "recv_total s = 0"
proof -
  show "mRecvs s a = None"
  proof (rule ccontr)
    assume "mRecvs s a \<noteq> None"
    then obtain op where "mRecvs s a = Some op" by blast
    then have "ro_Fork op < length (mForks s)" "a \<in> set (qlist (mRecvOps (mForks s ! ro_Fork op)))"
      using assms(1) unfolding recv_ok_def by blast+
    then show False using assms(2) by simp
  qed
  have "unat (mSize (mRecvOps f)) = 0" if "f \<in> set (mForks s)" for f
  proof -
    obtain j where "j < length (mForks s)" "f = mForks s ! j" using \<open>f \<in> set (mForks s)\<close> by (auto simp: in_set_conv_nth)
    then show ?thesis using assms by (auto simp: recv_ok_def qinv_simps)
  qed
  then show "recv_total s = 0" by (simp add: recv_total_def)
qed

section \<open>Cancel\<close>

definition no_user :: "effect list \<Rightarrow> bool" where
  "no_user out \<longleftrightarrow> (\<forall>e \<in> set out. \<forall>h x. e \<noteq> Resume (User h) x)"

text \<open>The effect of the first half of \<^verbatim>\<open>cancel\<close> in closed form.\<close>

definition cancel_effects :: "sched \<Rightarrow> effect list" where
  "cancel_effects s = (if mRecvStatus s = InUse then [Stop_Recv (mRecvSrc s)] else [])
     @ (if mSendStatus s = InUse then [Stop_Send (mSendSrc s)] else [])
     @ (if mAnyRecvOp s then [Resume Recv_Task None] else [])
     @ (if mGetReq s \<noteq> None then [Resume Recv_Task None] else [])
     @ (if mNextSendOp s then [Resume Send_Task None] else [])"

definition cancelled :: "caller \<Rightarrow> error_code \<Rightarrow> sched \<Rightarrow> sched" where
  "cancelled c ec s = s\<lparr>mEC := ec, mNextSendOp := False,
     mSendRes := (if mNextSendOp s then Some (Inl (make_error_code Cancel)) else mSendRes s),
     mAnyRecvOp := False, mAnyRes := (if mAnyRecvOp s then Some (make_error_code Cancel) else mAnyRes s),
     mGetReq := None, mGetRes := (if mGetReq s \<noteq> None then Some (Inl (if c = Sender then make_error_code Cancel else ec)) else mGetRes s),
     mOut := mOut s @ cancel_effects s\<rparr>"

lemma emit_if: "(if b then emit e s else s) = s\<lparr>mOut := mOut s @ (if b then [e] else [])\<rparr>"
  by (simp add: emit_def)

lemma wake_any_if:
  "(if mAnyRecvOp s then wake_any r None s else s) = s\<lparr>mAnyRecvOp := False,
     mAnyRes := (if mAnyRecvOp s then Some r else mAnyRes s),
     mOut := mOut s @ (if mAnyRecvOp s then [Resume Recv_Task None] else [])\<rparr>"
  by (cases "mAnyRecvOp s") (simp_all add: wake_any_def emit_def)

lemma wake_send_if:
  "(if mNextSendOp s then wake_send r None s else s) = s\<lparr>mNextSendOp := False,
     mSendRes := (if mNextSendOp s then Some r else mSendRes s),
     mOut := mOut s @ (if mNextSendOp s then [Resume Send_Task None] else [])\<rparr>"
  by (cases "mNextSendOp s") (simp_all add: wake_send_def emit_def)

lemma wake_get_case:
  "(case mGetReq s of None \<Rightarrow> (e1, e2, s) | Some _ \<Rightarrow> let (e, e') = g in (e, e', wake_get (Inl e) None s))
     = (if mGetReq s = None then e1 else fst g, if mGetReq s = None then e2 else snd g,
        s\<lparr>mGetReq := None, mGetRes := (if mGetReq s \<noteq> None then Some (Inl (fst g)) else mGetRes s),
          mOut := mOut s @ (if mGetReq s \<noteq> None then [Resume Recv_Task None] else [])\<rparr>)"
  by (cases "mGetReq s") (simp_all add: wake_get_def emit_def case_prod_beta)

lemma cancel_first_closed:
  assumes "\<not> is_error (mEC s)" and "is_error ec"
  shows "cancel_first c ec s = Inr (if mGetReq s = None \<or> c = Sender then ec else make_error_code Cancel, cancelled c ec s)"
  using assms
  by (simp add: cancel_first_def Let_def emit_if wake_any_if wake_get_case wake_send_if cancelled_def cancel_effects_def)

lemma cancel_effects_no_user: "no_user (cancel_effects s)"
  by (auto simp: no_user_def cancel_effects_def split: if_splits)

lemma cancelled_ok [simp]:
  "core_ok (cancelled c ec s) ch = core_ok s ch" "count_ok (cancelled c ec s) = count_ok s"
  "mForks (cancelled c ec s) = mForks s" "mSends (cancelled c ec s) = mSends s" "mRecvs (cancelled c ec s) = mRecvs s"
  "mBufs (cancelled c ec s) = mBufs s" "mExs (cancelled c ec s) = mExs s" "mTokens (cancelled c ec s) = mTokens s"
  "mSendBegin (cancelled c ec s) = mSendBegin s" "mSendLast (cancelled c ec s) = mSendLast s"
  "mEC (cancelled c ec s) = ec" "mNextSendOp (cancelled c ec s) = False" "mAnyRecvOp (cancelled c ec s) = False"
  "mGetReq (cancelled c ec s) = None" "mOut (cancelled c ec s) = mOut s @ cancel_effects s"
  "mSendStatus (cancelled c ec s) = mSendStatus s" "mRecvStatus (cancelled c ec s) = mRecvStatus s"
  "mNumRecvs (cancelled c ec s) = mNumRecvs s" "mFreshPtr (cancelled c ec s) = mFreshPtr s"
  by (simp_all add: cancelled_def)

text \<open>The state and the error that are left after the first half, whether or not it did anything.\<close>

definition after_first :: "caller \<Rightarrow> error_code \<Rightarrow> sched \<Rightarrow> sched" where
  "after_first c ec s = (if is_error (mEC s) then s else cancelled c ec s)"

definition left_error :: "caller \<Rightarrow> error_code \<Rightarrow> sched \<Rightarrow> error_code" where
  "left_error c ec s = (if is_error (mEC s) \<or> mGetReq s = None \<or> c = Sender then ec else make_error_code Cancel)"

lemma cancel_first_ok:
  "is_error (mEC s) \<or> is_error ec \<Longrightarrow> cancel_first c ec s = Inr (left_error c ec s, after_first c ec s)"
  using cancel_first_closed [of s ec c] by (cases "is_error (mEC s)") (auto simp: left_error_def after_first_def cancel_first_def)

lemma after_first_ok [simp]:
  "core_ok (after_first c ec s) ch = core_ok s ch" "count_ok (after_first c ec s) = count_ok s"
  "mForks (after_first c ec s) = mForks s" "mSends (after_first c ec s) = mSends s" "mRecvs (after_first c ec s) = mRecvs s"
  "mBufs (after_first c ec s) = mBufs s" "mExs (after_first c ec s) = mExs s" "mTokens (after_first c ec s) = mTokens s"
  "mSendBegin (after_first c ec s) = mSendBegin s" "mSendLast (after_first c ec s) = mSendLast s"
  "mSendStatus (after_first c ec s) = mSendStatus s" "mRecvStatus (after_first c ec s) = mRecvStatus s"
  "mNumRecvs (after_first c ec s) = mNumRecvs s" "mFreshPtr (after_first c ec s) = mFreshPtr s"
  by (simp_all add: after_first_def)

lemma after_first_mEC: "is_error (mEC s) \<or> is_error ec \<Longrightarrow> is_error (mEC (after_first c ec s))"
  by (auto simp: after_first_def)

lemma after_first_out: "\<exists>out. mOut (after_first c ec s) = mOut s @ out \<and> no_user out"
  using cancel_effects_no_user by (auto simp: after_first_def no_user_def intro: exI [of _ "[]"])

lemma cancel_sender_ok:
  assumes ok: "core_ok s ch" and ns: "\<forall>a \<in> set ch. so_Status (the (mSends s a)) = NotStarted"
    and hd: "mSendBegin s = head_opt ch" and err: "is_error ec \<or> is_error (mEC s)"
  shows "\<exists>s' out1 out2. cancel Sender ec s = Inr s' \<and> core_ok s' [] \<and> (count_ok s \<longrightarrow> count_ok s')
     \<and> is_error (mEC s') \<and> mSendStatus s' = SClosed \<and> mSendBegin s' = None \<and> mSendLast s' = None
     \<and> mOut s' = mOut s @ out1 @ out2 \<and> no_user out1 \<and> completions s ch out2
     \<and> told s ch ec (mExs s') \<and> mRecvs s' = mRecvs s
     \<and> keeps ((after_first Sender ec s)\<lparr>mSendStatus := SClosed, mSendBegin := None, mSendLast := None\<rparr>) s'"
proof -
  let ?s1 = "(after_first Sender ec s)\<lparr>mSendStatus := SClosed, mSendBegin := None, mSendLast := None\<rparr>"
  have f: "cancel_first Sender ec s = Inr (ec, after_first Sender ec s)"
    using cancel_first_ok [of s ec Sender] err by (auto simp: left_error_def)
  have ok1: "core_ok ?s1 ch" using ok by simp
  have ns1: "\<forall>a \<in> set ch. so_Status (the (mSends ?s1 a)) = NotStarted" using ns by simp
  from abort_sends_ok [OF ok1 ns1, of ec] obtain s' out where
    r: "abort_sends ec (head_opt ch) ?s1 = Inr s'" "core_ok s' []" "count_ok s' = count_ok ?s1" "keeps ?s1 s'"
      "mOut s' = mOut ?s1 @ out" "completions ?s1 ch out" "told ?s1 ch ec (mExs s')"
    by blast
  obtain out1 where o1: "mOut (after_first Sender ec s) = mOut s @ out1" "no_user out1"
    using after_first_out by blast
  have "cancel Sender ec s = Inr s'" using f hd r(1) by (simp add: cancel_def)
  moreover have "completions s ch out"
    using r(6) completions_cong [of ch ?s1 s out] by (simp add: send_completion_def fork_of_def)
  moreover have "told s ch ec (mExs s')" using r(7) by (simp add: told_def)
  moreover have "is_error (mEC s')"
    using keeps_fields(6) [OF r(4)] after_first_mEC [of s ec Sender] err by auto
  moreover have "mSendStatus s' = SClosed \<and> mSendBegin s' = None \<and> mSendLast s' = None \<and> mRecvs s' = mRecvs s"
    using keeps_fields(4,5,8,18) [OF r(4)] by simp
  moreover have "mOut s' = mOut s @ out1 @ out" using r(5) o1(1) by simp
  moreover have "count_ok s \<longrightarrow> count_ok s'" using r(3) by simp
  ultimately show ?thesis using r(2,4) o1(2) by (intro exI [of _ s'] exI [of _ out1] exI [of _ out] conjI) simp_all
qed

lemma cancel_recver_ok:
  assumes ok: "core_ok s ch" and err: "is_error ec \<or> is_error (mEC s)"
  shows "\<exists>s' out1 out2. cancel Recver ec s = Inr s' \<and> core_ok s' ch \<and> count_ok s'
     \<and> is_error (mEC s') \<and> mRecvStatus s' = SClosed \<and> mNumRecvs s' = 0 \<and> (\<forall>a. mRecvs s' a = None)
     \<and> mOut s' = mOut s @ out1 @ out2 \<and> no_user out1 \<and> recv_completions s (pending_from 0 s) out2
     \<and> (\<forall>a \<in> set (pending_from 0 s). \<forall>b p. mBufs s (ro_Buffer (the (mRecvs s a))) = Some b \<longrightarrow> rb_ex b = Some p \<longrightarrow>
          (\<exists>e \<in> {ec, make_error_code Cancel}. mExs s' p = Some (sys_error e)))
     \<and> (\<exists>s1. keeps_recv ((after_first Recver ec s)\<lparr>mRecvStatus := SClosed\<rparr>) s1 \<and> s' = s1\<lparr>mNumRecvs := 0\<rparr>)
     \<and> (\<forall>j < length (mForks s). qlist (mRecvOps (mForks s' ! j)) = [])
     \<and> mSends s' = mSends s \<and> mSendBegin s' = mSendBegin s \<and> mSendLast s' = mSendLast s"
proof -
  let ?e = "left_error Recver ec s"
  let ?s1 = "(after_first Recver ec s)\<lparr>mRecvStatus := SClosed\<rparr>"
  have f: "cancel_first Recver ec s = Inr (?e, after_first Recver ec s)"
    using cancel_first_ok [of s ec Recver] err by auto
  have e: "?e \<in> {ec, make_error_code Cancel}" by (simp add: left_error_def)
  have ok1: "core_ok ?s1 ch" using ok by simp
  have len: "0 + length (mForks s) = length (mForks ?s1)" by simp
  from abort_recvs_ok [OF ok1 len, of ?e] obtain s' out where
    r: "abort_recvs (length (mForks s)) ?e 0 ?s1 = Inr s'" "core_ok s' ch" "keeps_recv ?s1 s'"
      "\<forall>j < length (mForks ?s1). qlist (mRecvOps (mForks s' ! j)) = []"
      "mOut s' = mOut ?s1 @ out" "recv_completions ?s1 (pending_from 0 ?s1) out"
      "\<forall>a \<in> set (pending_from 0 ?s1). \<forall>b p. mBufs ?s1 (ro_Buffer (the (mRecvs ?s1 a))) = Some b \<longrightarrow> rb_ex b = Some p \<longrightarrow>
          (\<exists>e' \<in> {?e, make_error_code Cancel}. mExs s' p = Some (sys_error e'))"
    by auto
  note k = keeps_recv_fields [OF r(3)]
  obtain out1 where o1: "mOut (after_first Recver ec s) = mOut s @ out1" "no_user out1"
    using after_first_out by blast
  have pend: "pending_from 0 ?s1 = pending_from 0 s" by (simp add: pending_from_def)
  have none: "mRecvs s' a = None" for a
    using no_recvs(1) [of s'] r(2,4) k by (simp add: core_ok_def)
  have tot: "recv_total s' = 0" using no_recvs(2) [of s'] r(2,4) k by (simp add: core_ok_def)
  have c: "cancel Recver ec s = Inr (s'\<lparr>mNumRecvs := 0\<rparr>)" using f r(1) by (simp add: cancel_def)
  have comp: "recv_completions s (pending_from 0 s) out"
    using r(6) recv_completions_cong [of "pending_from 0 s" ?s1 s out] by (simp add: recv_completion_def pend)
  have "recv_total (s'\<lparr>mNumRecvs := 0\<rparr>) = 0" unfolding tot [symmetric] by (simp add: recv_total_def)
  then have cnt: "count_ok (s'\<lparr>mNumRecvs := 0\<rparr>)" by (simp add: count_ok_def)
  have told: "\<exists>e' \<in> {ec, make_error_code Cancel}. mExs s' p = Some (sys_error e')"
    if "a \<in> set (pending_from 0 s)" "mBufs s (ro_Buffer (the (mRecvs s a))) = Some b" "rb_ex b = Some p" for a b p
    using r(7) that e pend by auto
  have m: "is_error (mEC s')" "mOut s' = mOut s @ out1 @ out"
    using k(6) after_first_mEC [of s ec Recver] err r(5) o1(1) by auto
  show ?thesis
  proof (rule exI [of _ "s'\<lparr>mNumRecvs := 0\<rparr>"], rule exI [of _ out1], rule exI [of _ out], intro conjI)
    show "\<forall>a \<in> set (pending_from 0 s). \<forall>b p. mBufs s (ro_Buffer (the (mRecvs s a))) = Some b \<longrightarrow> rb_ex b = Some p \<longrightarrow>
        (\<exists>e \<in> {ec, make_error_code Cancel}. mExs (s'\<lparr>mNumRecvs := 0\<rparr>) p = Some (sys_error e))"
      using told by simp
    show "\<exists>s1. keeps_recv ((after_first Recver ec s)\<lparr>mRecvStatus := SClosed\<rparr>) s1 \<and> s'\<lparr>mNumRecvs := 0\<rparr> = s1\<lparr>mNumRecvs := 0\<rparr>"
      using r(3) by (intro exI [of _ s'] conjI refl)
  qed (use c r(2-4) cnt none k m o1(2) comp in simp_all)
qed

end
