(* ===== verification/Sched_Phase.thy ===== *)
theory Sched_Phase
  imports Sched_Forks Sched_Abort
begin

text \<open>
  The scheduler together with its two tasks: where each task is suspended, and how that agrees
  with the awaiter pointers, the status flags and the chain of pending operations. Together with
  \<open>core_ok\<close> this is the invariant of the whole socket.
\<close>

section \<open>Where the tasks are\<close>

text \<open>
  The suspension points of \<^verbatim>\<open>makeSendTask\<close>: waiting for an operation, or for the socket to
  transmit the control message, the header or the body of the operation it works on.
\<close>

datatype send_pc = Await_Next | Sending_Meta nat | Sending_Header nat | Sending_Body nat | Send_Exit

text \<open>
  The suspension points of \<^verbatim>\<open>receiveDataTask\<close>: waiting for any receive operation, reading a
  header, reading a control block, waiting for the operation that matches a header, reading a body.
\<close>

datatype recv_pc = Await_Any | Reading_Header | Reading_Control header | Await_Fork header
  | Reading_Body header nat | Recv_Exit

fun busy_op :: "send_pc \<Rightarrow> nat option" where
  "busy_op (Sending_Meta a) = Some a"
| "busy_op (Sending_Header a) = Some a"
| "busy_op (Sending_Body a) = Some a"
| "busy_op Await_Next = None"
| "busy_op Send_Exit = None"

text \<open>The send operation that the task works on or was handed.\<close>

definition active_op :: "sched \<Rightarrow> send_pc \<Rightarrow> nat option" where
  "active_op s pc = (if pc = Await_Next
     then (if mNextSendOp s then None else (case mSendRes s of Some (Inr a) \<Rightarrow> Some a | _ \<Rightarrow> None))
     else busy_op pc)"

section \<open>The two phase invariants\<close>

definition last_opt :: "'a list \<Rightarrow> 'a option" where
  "last_opt xs = (if xs = [] then None else Some (last xs))"

lemma last_opt_simps [simp]: "last_opt [] = None" "last_opt (xs @ [x]) = Some x"
  by (simp_all add: last_opt_def)

lemma head_opt_simps [simp]: "head_opt [] = None" "head_opt (x # xs) = Some x"
  by (simp_all add: head_opt_def)

definition send_phase :: "sched \<Rightarrow> nat list \<Rightarrow> send_pc \<Rightarrow> bool" where
  "send_phase s ch pc \<longleftrightarrow> mSendBegin s = head_opt ch \<and> mSendLast s = last_opt ch
     \<and> active_op s pc = head_opt ch
     \<and> (\<forall>a \<in> set (tl ch). so_Status (the (mSends s a)) = NotStarted)
     \<and> (ch \<noteq> [] \<longrightarrow> so_Status (the (mSends s (hd ch))) \<noteq> NotStarted)
     \<and> (mNextSendOp s \<longrightarrow> pc = Await_Next \<and> mSendStatus s = Idle \<and> \<not> is_error (mEC s))
     \<and> (pc = Await_Next \<longrightarrow> \<not> mNextSendOp s \<longrightarrow> mSendRes s \<noteq> None)
     \<and> (\<not> mNextSendOp s \<longrightarrow> ch = [] \<longrightarrow> is_error (mEC s))"

text \<open>The receive operation \<open>a\<close> is the oldest one of the fork that the peer calls \<open>r\<close>.\<close>

definition recv_front :: "sched \<Rightarrow> u32 \<Rightarrow> nat \<Rightarrow> bool" where
  "recv_front s r a \<longleftrightarrow> (\<exists>i q. mRemoteMap s r = Some i \<and> i < length (mForks s) \<and> qlist (mRecvOps (mForks s ! i)) = a # q)"

text \<open>No receive operation is pending on the fork that the peer calls \<open>r\<close>.\<close>

definition fork_idle :: "sched \<Rightarrow> u32 \<Rightarrow> bool" where
  "fork_idle s r \<longleftrightarrow> (\<exists>i. mRemoteMap s r = Some i \<and> i < length (mForks s) \<and> qlist (mRecvOps (mForks s ! i)) = [])"

definition get_ok :: "sched \<Rightarrow> u32 \<Rightarrow> (error_code + nat) option \<Rightarrow> bool" where
  "get_ok s r v \<longleftrightarrow> (case v of None \<Rightarrow> False | Some (Inl e) \<Rightarrow> is_error e \<and> is_error (mEC s) | Some (Inr a) \<Rightarrow> recv_front s r a)"

lemma get_ok_simps [simp]:
  "get_ok s r None = False" "get_ok s r (Some (Inl e)) = (is_error e \<and> is_error (mEC s))"
  "get_ok s r (Some (Inr a)) = recv_front s r a"
  by (simp_all add: get_ok_def)

definition recv_phase :: "sched \<Rightarrow> recv_pc \<Rightarrow> bool" where
  "recv_phase s pc \<longleftrightarrow>
     (mAnyRecvOp s \<longrightarrow> pc = Await_Any \<and> mNumRecvs s = 0 \<and> mRecvStatus s = Idle \<and> \<not> is_error (mEC s))
     \<and> (\<forall>r. mGetReq s = Some r \<longrightarrow> (\<exists>h. pc = Await_Fork h \<and> hForkId h = r) \<and> mRecvStatus s = RequestedRecvOp \<and> \<not> is_error (mEC s)
          \<and> fork_idle s r)
     \<and> (pc = Await_Any \<longrightarrow> \<not> mAnyRecvOp s \<longrightarrow> (\<exists>e. mAnyRes s = Some e \<and> (is_error e \<longrightarrow> is_error (mEC s))))
     \<and> (\<forall>h. pc = Await_Fork h \<longrightarrow> mGetReq s = None \<longrightarrow> get_ok s (hForkId h) (mGetRes s))
     \<and> (\<forall>h a. pc = Reading_Body h a \<longrightarrow> recv_front s (hForkId h) a)"

section \<open>Queues, buffers and sizes\<close>

definition tails_ok :: "sched \<Rightarrow> bool" where
  "tails_ok s \<longleftrightarrow> (\<forall>i < length (mForks s). tail_ok (mRecvOps (mForks s ! i)) \<and> tail_ok (mSendOps (mForks s ! i)))"

text \<open>Every pending receive operation has a buffer of its own.\<close>

definition bufs_ok :: "sched \<Rightarrow> bool" where
  "bufs_ok s \<longleftrightarrow> (\<forall>a op. mRecvs s a = Some op \<longrightarrow> (\<exists>b. mBufs s (ro_Buffer op) = Some b)
     \<and> (\<forall>a' op'. mRecvs s a' = Some op' \<longrightarrow> ro_Buffer op' = ro_Buffer op \<longrightarrow> a' = a))"

text \<open>The messages to be sent have a length that fits in a header and belong to local forks.\<close>

definition sends_ok :: "sched \<Rightarrow> bool" where
  "sends_ok s \<longleftrightarrow> (\<forall>a op. mSends s a = Some op \<longrightarrow> sb_data (so_Buffer op) \<noteq> []
     \<and> length (sb_data (so_Buffer op)) < 2 ^ 32 - 1 \<and> mLocalId (mForks s ! so_Fork op) \<noteq> NOT 0)"

definition sched_inv :: "sched \<Rightarrow> nat list \<Rightarrow> bool" where
  "sched_inv s ch \<longleftrightarrow> core_ok s ch \<and> count_ok s \<and> tails_ok s \<and> bufs_ok s \<and> sends_ok s \<and> recv_total s < 2 ^ 64"

definition sock_inv :: "sched \<Rightarrow> nat list \<Rightarrow> send_pc \<Rightarrow> recv_pc \<Rightarrow> bool" where
  "sock_inv s ch sp rp \<longleftrightarrow> sched_inv s ch \<and> send_phase s ch sp \<and> recv_phase s rp"

lemmas sched_inv_simps = sched_inv_def core_ok_def

text \<open>The part that does not see the flush tokens.\<close>

definition rest_inv :: "sched \<Rightarrow> nat list \<Rightarrow> bool" where
  "rest_inv s ch \<longleftrightarrow> send_ok s ch \<and> recv_ok s \<and> cells_ok s \<and> ids_ok s \<and> count_ok s \<and> tails_ok s \<and> bufs_ok s
     \<and> sends_ok s \<and> recv_total s < 2 ^ 64"

lemma sched_inv_rest: "sched_inv s ch \<longleftrightarrow> rest_inv s ch \<and> token_inv s"
  by (auto simp: sched_inv_simps rest_inv_def)

section \<open>Congruence and frame rules\<close>

lemma send_phase_cong:
  assumes "mSendBegin s' = mSendBegin s" "mSendLast s' = mSendLast s" "mSends s' = mSends s"
    "mNextSendOp s' = mNextSendOp s" "mSendRes s' = mSendRes s" "mSendStatus s' = mSendStatus s" "mEC s' = mEC s"
  shows "send_phase s' ch pc = send_phase s ch pc"
  using assms by (simp add: send_phase_def active_op_def)

text \<open>What the receive phase sees of the forks is only grown by the creation of forks.\<close>

lemma recv_phaseD:
  assumes "recv_phase s pc"
  shows "mAnyRecvOp s \<Longrightarrow> pc = Await_Any \<and> mNumRecvs s = 0 \<and> mRecvStatus s = Idle \<and> \<not> is_error (mEC s)"
    and "mGetReq s = Some r \<Longrightarrow> (\<exists>h. pc = Await_Fork h \<and> hForkId h = r) \<and> mRecvStatus s = RequestedRecvOp
      \<and> \<not> is_error (mEC s) \<and> fork_idle s r"
    and "pc = Await_Any \<Longrightarrow> \<not> mAnyRecvOp s \<Longrightarrow> \<exists>e. mAnyRes s = Some e \<and> (is_error e \<longrightarrow> is_error (mEC s))"
    and "pc = Await_Fork h \<Longrightarrow> mGetReq s = None \<Longrightarrow> get_ok s (hForkId h) (mGetRes s)"
    and "pc = Reading_Body h a \<Longrightarrow> recv_front s (hForkId h) a"
  using assms unfolding recv_phase_def by (simp_all only:) simp_all

lemma recv_phaseI:
  assumes "mAnyRecvOp s \<Longrightarrow> pc = Await_Any \<and> mNumRecvs s = 0 \<and> mRecvStatus s = Idle \<and> \<not> is_error (mEC s)"
    and "\<And>r. mGetReq s = Some r \<Longrightarrow> (\<exists>h. pc = Await_Fork h \<and> hForkId h = r) \<and> mRecvStatus s = RequestedRecvOp
      \<and> \<not> is_error (mEC s) \<and> fork_idle s r"
    and "pc = Await_Any \<Longrightarrow> \<not> mAnyRecvOp s \<Longrightarrow> \<exists>e. mAnyRes s = Some e \<and> (is_error e \<longrightarrow> is_error (mEC s))"
    and "\<And>h. pc = Await_Fork h \<Longrightarrow> mGetReq s = None \<Longrightarrow> get_ok s (hForkId h) (mGetRes s)"
    and "\<And>h a. pc = Reading_Body h a \<Longrightarrow> recv_front s (hForkId h) a"
  shows "recv_phase s pc"
  unfolding recv_phase_def
proof (intro conjI)
  show "mAnyRecvOp s \<longrightarrow> pc = Await_Any \<and> mNumRecvs s = 0 \<and> mRecvStatus s = Idle \<and> \<not> is_error (mEC s)"
    using assms(1) by (rule impI)
qed (intro allI impI; rule assms; assumption)+

lemma recv_phase_mono:
  assumes ph: "recv_phase s pc"
    and "mAnyRecvOp s' = mAnyRecvOp s" "mNumRecvs s' = mNumRecvs s" "mRecvStatus s' = mRecvStatus s" "mEC s' = mEC s"
      "mGetReq s' = mGetReq s" "mAnyRes s' = mAnyRes s" "mGetRes s' = mGetRes s"
    and rm: "\<And>r i. mRemoteMap s r = Some i \<Longrightarrow> mRemoteMap s' r = Some i"
    and len: "length (mForks s) \<le> length (mForks s')"
    and q: "\<And>i. i < length (mForks s) \<Longrightarrow> qlist (mRecvOps (mForks s' ! i)) = qlist (mRecvOps (mForks s ! i))"
  shows "recv_phase s' pc"
proof -
  have fr: "recv_front s r a \<Longrightarrow> recv_front s' r a" for r a
    unfolding recv_front_def using rm len q by (metis less_le_trans)
  have em: "fork_idle s r \<Longrightarrow> fork_idle s' r" for r
    unfolding fork_idle_def using rm len q by (metis less_le_trans)
  have get: "get_ok s r v \<Longrightarrow> get_ok s' r v" for r v
    using fr assms(5) by (auto simp: get_ok_def split: option.splits sum.splits)
  show ?thesis
  proof (rule recv_phaseI)
    show "mAnyRecvOp s' \<Longrightarrow> pc = Await_Any \<and> mNumRecvs s' = 0 \<and> mRecvStatus s' = Idle \<and> \<not> is_error (mEC s')"
      using recv_phaseD(1) [OF ph] assms(2-5) by simp
    show "(\<exists>h. pc = Await_Fork h \<and> hForkId h = r) \<and> mRecvStatus s' = RequestedRecvOp \<and> \<not> is_error (mEC s') \<and> fork_idle s' r"
      if "mGetReq s' = Some r" for r
      using recv_phaseD(2) [OF ph, of r] em that assms(4-6) by simp
    show "pc = Await_Any \<Longrightarrow> \<not> mAnyRecvOp s' \<Longrightarrow> \<exists>e. mAnyRes s' = Some e \<and> (is_error e \<longrightarrow> is_error (mEC s'))"
      using recv_phaseD(3) [OF ph] assms(2,5,7) by simp
    show "get_ok s' (hForkId h) (mGetRes s')" if "pc = Await_Fork h" "mGetReq s' = None" for h
      using recv_phaseD(4) [OF ph that(1)] that(2) get assms(6,8) by simp
    show "recv_front s' (hForkId h) a" if "pc = Reading_Body h a" for h a
      using recv_phaseD(5) [OF ph that] by (rule fr)
  qed
qed

lemma recv_phase_cong:
  assumes "mAnyRecvOp s' = mAnyRecvOp s" "mNumRecvs s' = mNumRecvs s" "mRecvStatus s' = mRecvStatus s" "mEC s' = mEC s"
      "mGetReq s' = mGetReq s" "mAnyRes s' = mAnyRes s" "mGetRes s' = mGetRes s" "mRemoteMap s' = mRemoteMap s"
    and "length (mForks s') = length (mForks s)" "\<And>i. mRecvOps (mForks s' ! i) = mRecvOps (mForks s ! i)"
  shows "recv_phase s' pc = recv_phase s pc"
proof
  show "recv_phase s pc" if "recv_phase s' pc"
    by (rule recv_phase_mono [OF that]) (simp_all add: assms)
  show "recv_phase s' pc" if "recv_phase s pc"
    by (rule recv_phase_mono [OF that]) (simp_all add: assms)
qed

text \<open>Operations on the forks alone keep everything.\<close>

lemma same_queues_inv:
  assumes inv: "sched_inv s ch" and sq: "same_queues s s'" and core: "core_ok s' ch"
    and ids: "\<And>i. i < length (mForks s) \<Longrightarrow> mLocalId (mForks s ! i) \<noteq> NOT 0 \<Longrightarrow> mLocalId (mForks s' ! i) \<noteq> NOT 0"
  shows "sched_inv s' ch"
proof -
  obtain fo nl im rm where e: "s' = s\<lparr>mForks := fo, mNextLocal := nl, mIdMap := im, mRemoteMap := rm\<rparr>"
    using sq unfolding same_queues_def by blast
  have q: "length (mForks s) \<le> length (mForks s')"
    "\<And>i. i < length (mForks s') \<Longrightarrow> mRecvOps (mForks s' ! i) = (if i < length (mForks s) then mRecvOps (mForks s ! i) else nat_queue)"
    "\<And>i. i < length (mForks s') \<Longrightarrow> mSendOps (mForks s' ! i) = (if i < length (mForks s) then mSendOps (mForks s ! i) else nat_queue)"
    using sq unfolding same_queues_def by blast+
  have "map (\<lambda>f. unat (mSize (mRecvOps f))) (mForks s')
      = map (\<lambda>f. unat (mSize (mRecvOps f))) (mForks s) @ replicate (length (mForks s') - length (mForks s)) 0"
    using q by (intro nth_equalityI) (auto simp: nth_append)
  then have tot: "recv_total s' = recv_total s" by (simp add: recv_total_def sum_list_replicate)
  have "tails_ok s'"
    using inv q by (auto simp: tails_ok_def sched_inv_def tail_ok_def nat_queue_list)
  moreover have "sends_ok s'"
  proof -
    have "so_Fork op < length (mForks s)" if "mSends s a = Some op" for a op
      using inv that unfolding sched_inv_simps send_ok_def fork_of_def by (metis domI option.sel)
    then show ?thesis using inv ids unfolding sched_inv_def sends_ok_def by (simp add: e)
  qed
  moreover have "count_ok s'" using inv tot by (simp add: sched_inv_def count_ok_def) (simp add: e)
  moreover have "bufs_ok s'" using inv by (simp add: sched_inv_def bufs_ok_def e)
  ultimately show ?thesis using inv core tot by (simp add: sched_inv_def)
qed

lemma same_queues_phases:
  assumes sq: "same_queues s s'" and rm: "\<And>r i. mRemoteMap s r = Some i \<Longrightarrow> mRemoteMap s' r = Some i"
  shows "send_phase s' ch sp = send_phase s ch sp" and "recv_phase s rp \<Longrightarrow> recv_phase s' rp"
proof -
  obtain fo nl im rm where e: "s' = s\<lparr>mForks := fo, mNextLocal := nl, mIdMap := im, mRemoteMap := rm\<rparr>"
    using sq unfolding same_queues_def by blast
  show "send_phase s' ch sp = send_phase s ch sp" by (rule send_phase_cong) (simp_all add: e)
  assume ph: "recv_phase s rp"
  show "recv_phase s' rp"
  proof (rule recv_phase_mono [OF ph _ _ _ _ _ _ _ rm])
    show "length (mForks s) \<le> length (mForks s')" using sq by (simp add: same_queues_def)
    show "qlist (mRecvOps (mForks s' ! i)) = qlist (mRecvOps (mForks s ! i))" if "i < length (mForks s)" for i
      using sq that by (simp add: same_queues_def)
  qed (simp_all add: e)
qed

end
