(* ===== verification/Sched_User.thy ===== *)
theory Sched_User
  imports Sched_Phase
begin

text \<open>
  The operations that the users of a socket and its receive task call between the suspensions of
  the tasks: forks, send, receive, flush, close, stop requests. In a state in good order none of
  them faults (except that a queue may not be able to allocate a block), and each leaves the socket
  in good order.
\<close>

section \<open>Forks\<close>

text \<open>A fork that its own party has created, so that it can be used for sending and receiving.\<close>

definition local_fork :: "session_id \<Rightarrow> sched \<Rightarrow> nat \<Rightarrow> bool" where
  "local_fork sid s i \<longleftrightarrow> mIdMap s (sid_key sid) = Some i \<and> i < length (mForks s)
     \<and> mLocalId (mForks s ! i) \<noteq> 0 \<and> mLocalId (mForks s ! i) \<noteq> NOT 0"

lemma getLocal_eq: "local_fork sid s i \<Longrightarrow> getLocalSocketFork sid s = Inr i"
  by (simp add: local_fork_def getLocalSocketFork_def fork_at_def)

lemma set_fork_same_queues:
  "i < length (mForks s) \<Longrightarrow> mRecvOps f = mRecvOps (mForks s ! i) \<Longrightarrow> mSendOps f = mSendOps (mForks s ! i) \<Longrightarrow>
     same_queues s (set_fork i f s)"
  using same_queues_set_fork [OF same_queues_refl, of i s f "mRemoteMap s" "mNextLocal s"] by simp

lemma set_fork_core:
  assumes "core_ok s ch" "i < length (mForks s)" "mRecvOps f = mRecvOps (mForks s ! i)"
    "mSendOps f = mSendOps (mForks s ! i)" "sid_key (mSessionID f) = sid_key (mSessionID (mForks s ! i))"
    "mRemoteId f = mRemoteId (mForks s ! i)"
  shows "core_ok (set_fork i f s) ch"
  using assms by (simp add: core_ok_def set_fork_ok)

lemma setExecutor_inv:
  assumes inv: "sock_inv s ch sp rp" and fk: "local_fork sid s i"
  shows "\<exists>s'. setExecutor ex sid s = Inr s' \<and> sock_inv s' ch sp rp"
proof -
  let ?f = "(mForks s ! i)\<lparr>mExecutor := Some ex\<rparr>" and ?s = "set_fork i ((mForks s ! i)\<lparr>mExecutor := Some ex\<rparr>) s"
  have i: "i < length (mForks s)" using fk by (simp add: local_fork_def)
  have c: "core_ok ?s ch" using inv i by (intro set_fork_core) (simp_all add: sock_inv_def sched_inv_def)
  have sq: "same_queues s ?s" using i by (intro set_fork_same_queues) simp_all
  have "sched_inv ?s ch" by (rule same_queues_inv [OF _ sq c]) (use inv in \<open>auto simp: sock_inv_def\<close>)
  moreover have "send_phase ?s ch sp" "recv_phase ?s rp"
    using same_queues_phases [OF sq] inv by (simp_all add: sock_inv_def set_fork_def)
  ultimately show ?thesis
    using getLocal_eq [OF fk] i by (simp add: setExecutor_def fork_at_def sock_inv_def)
qed

lemma localized_fields:
  assumes "ids_ok s"
  shows "mRemoteMap (localized sid ex s) = mRemoteMap s"
    and "i < length (mForks s) \<Longrightarrow> mLocalId (mForks (localized sid ex s) ! i)
      = (if mIdMap s (sid_key sid) = Some i then mNextLocal s else mLocalId (mForks s ! i))"
  using local_target_less [OF assms, of sid]
  by (auto simp: localized_def Let_def local_base_def local_target_def set_fork_def nth_list_update nth_append
      split: option.splits)

lemma initLocal_inv:
  assumes inv: "sock_inv s ch sp rp" and can: "can_localize sid s" and nl: "mNextLocal s \<noteq> NOT 0"
  shows "initLocalSocketFork sid ex s = Inr (localized sid ex s)" and "sock_inv (localized sid ex s) ch sp rp"
proof -
  have core: "core_ok s ch" "ids_ok s" using inv by (simp_all add: sock_inv_def sched_inv_simps)
  show "initLocalSocketFork sid ex s = Inr (localized sid ex s)" by (rule initLocal_eq [OF core(2) can])
  have sq: "same_queues s (localized sid ex s)" by (rule same_queues_localized [OF core(2)])
  have "sched_inv (localized sid ex s) ch"
    by (rule same_queues_inv [OF _ sq localized_core [OF core(1)]])
      (use inv nl in \<open>auto simp: sock_inv_def localized_fields [OF core(2)]\<close>)
  moreover have "send_phase (localized sid ex s) ch sp" "recv_phase (localized sid ex s) rp"
    using same_queues_phases [OF sq] inv by (simp_all add: sock_inv_def localized_fields [OF core(2)])
  ultimately show "sock_inv (localized sid ex s) ch sp rp" by (simp add: sock_inv_def)
qed

lemma sched_fork_inv:
  assumes inv: "sock_inv s ch sp rp" and fk: "local_fork sid s i" and nl: "mNextLocal s \<noteq> NOT 0"
    and can: "can_localize (fst (derive (mSessionID (mForks s ! i)))) s"
  shows "\<exists>s'. sched_fork sid s = Inr (fst (derive (mSessionID (mForks s ! i))), s') \<and> sock_inv s' ch sp rp"
proof -
  let ?f = "mForks s ! i"
  let ?d = "derive (mSessionID ?f)"
  let ?s = "set_fork i (?f\<lparr>mSessionID := snd ?d\<rparr>) s"
  have i: "i < length (mForks s)" using fk by (simp add: local_fork_def)
  have c: "core_ok ?s ch" using inv i by (intro set_fork_core) (simp_all add: sock_inv_def sched_inv_def)
  have sq: "same_queues s ?s" using i by (intro set_fork_same_queues) simp_all
  have "sched_inv ?s ch" by (rule same_queues_inv [OF _ sq c]) (use inv in \<open>auto simp: sock_inv_def\<close>)
  moreover have "send_phase ?s ch sp" "recv_phase ?s rp"
    using same_queues_phases [OF sq] inv by (simp_all add: sock_inv_def set_fork_def)
  ultimately have inv': "sock_inv ?s ch sp rp" by (simp add: sock_inv_def)
  have "mIdMap ?s = mIdMap s" "mNextLocal ?s = mNextLocal s" by (simp_all add: set_fork_def)
  then have can': "can_localize (fst ?d) ?s" and nl': "mNextLocal ?s \<noteq> NOT 0"
    using can nl by (auto simp: can_localize_def)
  show ?thesis
    using getLocal_eq [OF fk] i initLocal_inv [OF inv' can' nl', of "mExecutor ?f"]
    by (simp add: sched_fork_def fork_at_def case_prod_beta Let_def)
qed

section \<open>A fork announced by the peer\<close>

lemma NOT_0_eq: "NOT 0 = (-1 :: u32)"
  by simp

text \<open>The state after a control message that names the fork \<open>slot\<close> for \<open>sid\<close>.\<close>

definition announced :: "u32 \<Rightarrow> session_id \<Rightarrow> sched \<Rightarrow> sched" where
  "announced slot sid s = (let b = local_base sid s; i = local_target sid s in
     set_fork i ((mForks b ! i)\<lparr>mRemoteId := slot\<rparr>) (b\<lparr>mRemoteMap := (mRemoteMap b)(slot \<mapsto> i)\<rparr>))"

lemma local_base_fields:
  "mRemoteMap (local_base sid s) = mRemoteMap s" "mNextLocal (local_base sid s) = mNextLocal s"
  by (simp_all add: local_base_def)

lemma local_base_target:
  assumes "ids_ok s"
  shows "sid_eq (mSessionID (mForks (local_base sid s) ! local_target sid s)) sid"
  using ids_ok_id [OF assms, of "sid_key sid"]
  by (auto simp: local_base_def local_target_def sid_eq_key split: option.splits)

lemma announced_core:
  assumes core: "core_ok s ch" and slot: "slot \<noteq> NOT 0" "mRemoteMap s slot = None"
    and new: "mRemoteId (mForks (local_base sid s) ! local_target sid s) = NOT 0"
  shows "core_ok (announced slot sid s) ch"
proof -
  let ?b = "local_base sid s" and ?i = "local_target sid s"
  let ?s = "announced slot sid s"
  have b: "core_ok ?b ch" by (rule local_base_core [OF core])
  have i: "?i < length (mForks ?b)" using core by (intro local_target_less) (simp add: core_ok_def)
  have f: "mForks ?s ! j = (if j = ?i then (mForks ?b ! ?i)\<lparr>mRemoteId := slot\<rparr> else mForks ?b ! j)" for j
    using i by (simp add: announced_def Let_def)
  have len: "length (mForks ?s) = length (mForks ?b)" by (simp add: announced_def Let_def)
  have maps: "mIdMap ?s = mIdMap ?b" "mRemoteMap ?s = (mRemoteMap ?b)(slot \<mapsto> ?i)"
    by (simp_all add: announced_def Let_def set_fork_def)
  have key: "mIdMap ?b k = Some j \<longleftrightarrow> j < length (mForks ?b) \<and> sid_key (mSessionID (mForks ?b ! j)) = k"
    and rem: "mRemoteMap ?b r = Some j \<longleftrightarrow> j < length (mForks ?b) \<and> mRemoteId (mForks ?b ! j) = r \<and> r \<noteq> NOT 0" for k r j
    using b unfolding core_ok_def ids_ok_def by blast+
  have unused: "j < length (mForks ?b) \<Longrightarrow> mRemoteId (mForks ?b ! j) \<noteq> slot" for j
    using rem [of slot j] slot by (auto simp: local_base_fields)
  have "ids_ok ?s"
    unfolding ids_ok_def
  proof (intro conjI allI)
    show "mIdMap ?s k = Some j \<longleftrightarrow> j < length (mForks ?s) \<and> sid_key (mSessionID (mForks ?s ! j)) = k" for k j
      using key [of k j] by (auto simp: maps f len)
    show "mRemoteMap ?s r = Some j \<longleftrightarrow> j < length (mForks ?s) \<and> mRemoteId (mForks ?s ! j) = r \<and> r \<noteq> NOT 0" for r j
      using rem [of r j] slot(1) new i unused [of j] by (auto simp: maps f len)
  qed
  moreover have "send_ok ?s ch" "recv_ok ?s" "token_inv ?s" "cells_ok ?s"
    using b i by (simp_all add: announced_def Let_def core_ok_def set_fork_ok)
  ultimately show ?thesis by (simp add: core_ok_def)
qed

lemma same_queues_announced:
  assumes "ids_ok s"
  shows "same_queues s (announced slot sid s)"
proof -
  have "same_queues s (local_base sid s)"
    by (simp add: local_base_def same_queues_refl same_queues_with_fork)
  from same_queues_set_fork [OF this local_target_less [OF assms, of sid],
      of "(mForks (local_base sid s) ! local_target sid s)\<lparr>mRemoteId := slot\<rparr>"
        "(mRemoteMap (local_base sid s))(slot \<mapsto> local_target sid s)" "mNextLocal (local_base sid s)"]
  show ?thesis by (simp add: announced_def Let_def)
qed

text \<open>
  The three outcomes of \<^verbatim>\<open>initRemoteSocketFork\<close>. The identifier of the peer must be unused;
  if it is in use the code asserts instead of reporting a bad header.
\<close>

lemma initRemote_cases:
  fixes slot :: u32 and sid :: session_id
  assumes core: "core_ok s ch"
  defines "b \<equiv> local_base sid s" and "i \<equiv> local_target sid s"
  shows "initRemoteSocketFork slot sid s =
     (if slot = NOT 0 then Inr (make_error_code BadCoprotoMessageHeader, s)
      else if mRemoteId (mForks b ! i) \<noteq> NOT 0 then Inr (make_error_code BadCoprotoMessageHeader, b)
      else if mRemoteMap s slot \<noteq> None then Inl Assertion
      else Inr (no_error, announced slot sid s))"
proof -
  have ids: "ids_ok s" using core by (simp add: core_ok_def)
  have i: "i < length (mForks b)" unfolding i_def b_def by (rule local_target_less [OF ids])
  have sel: "(case mIdMap s (sid_key sid) of None \<Rightarrow> add_fork sid s | Some j \<Rightarrow> Inr (j, s)) = Inr (i, b)"
    by (simp add: i_def b_def local_base_def local_target_def add_fork_eq split: option.splits)
  have eq: "sid_eq (mSessionID (mForks b ! i)) sid" unfolding i_def b_def by (rule local_base_target [OF ids])
  have rm: "mRemoteMap b = mRemoteMap s" by (simp add: b_def local_base_fields)
  show ?thesis
    unfolding initRemoteSocketFork_def sel
    using i eq rm by (auto simp: fork_at_def announced_def Let_def b_def [symmetric] i_def [symmetric])
qed

lemma initRemote_inv:
  assumes inv: "sock_inv s ch sp rp" and honest: "slot \<noteq> NOT 0 \<Longrightarrow> mRemoteMap s slot = None"
  shows "\<exists>ec s'. initRemoteSocketFork slot sid s = Inr (ec, s') \<and> sock_inv s' ch sp rp"
proof -
  have core: "core_ok s ch" "ids_ok s" using inv by (simp_all add: sock_inv_def sched_inv_simps)
  have keep: "sock_inv s' ch sp rp" if sq: "same_queues s s'" and c: "core_ok s' ch"
    and rm: "\<And>r i. mRemoteMap s r = Some i \<Longrightarrow> mRemoteMap s' r = Some i"
    and id: "\<And>i. i < length (mForks s) \<Longrightarrow> mLocalId (mForks s' ! i) = mLocalId (mForks s ! i)" for s'
  proof -
    have "sched_inv s' ch" by (rule same_queues_inv [OF _ sq c]) (use inv id in \<open>simp_all add: sock_inv_def\<close>)
    then show ?thesis using same_queues_phases [OF sq rm] inv by (simp add: sock_inv_def)
  qed
  have base: "same_queues s (local_base sid s)"
    by (simp add: local_base_def same_queues_refl same_queues_with_fork)
  have id: "i < length (mForks s) \<Longrightarrow> mLocalId (mForks (local_base sid s) ! i) = mLocalId (mForks s ! i)" for i
    by (simp add: local_base_def nth_append)
  have b: "sock_inv (local_base sid s) ch sp rp"
    by (rule keep [OF base local_base_core [OF core(1)]]) (simp_all add: local_base_fields id)
  have ann: "sock_inv (announced slot sid s) ch sp rp"
    if "slot \<noteq> NOT 0" "mRemoteId (mForks (local_base sid s) ! local_target sid s) = NOT 0"
  proof (rule keep [OF same_queues_announced [OF core(2)] announced_core [OF core(1) that(1) honest [OF that(1)] that(2)]])
    show "mRemoteMap (announced slot sid s) r = Some i" if "mRemoteMap s r = Some i" for r i
      using that honest [OF \<open>slot \<noteq> NOT 0\<close>] by (auto simp: announced_def Let_def set_fork_def local_base_fields)
    show "mLocalId (mForks (announced slot sid s) ! i) = mLocalId (mForks s ! i)" if "i < length (mForks s)" for i
      using that local_target_less [OF core(2), of sid] id by (simp add: announced_def Let_def)
  qed
  show ?thesis using initRemote_cases [OF core(1), of slot sid] inv b ann honest by (auto split: if_splits)
qed

end
