(* ===== verification/Sched_Send.thy ===== *)
theory Sched_Send
  imports Sched_User
begin

text \<open>
  Sending: \<^verbatim>\<open>send\<close> appends to the chain of pending operations and to the queue of its fork
  and wakes an idle send task; \<^verbatim>\<open>NextSendOp\<close> completes the operation that the task has
  finished and hands it the next one. Both keep the socket in good order and never assert.
\<close>

section \<open>Appending to the chain\<close>

definition placed_send :: "nat \<Rightarrow> send_op \<Rightarrow> nat queue \<Rightarrow> sched \<Rightarrow> sched" where
  "placed_send i op q s = set_send (mFreshPtr s) op
     (set_fork i ((mForks s ! i)\<lparr>mSendOps := q\<rparr>) (s\<lparr>mFreshPtr := mFreshPtr s + 1\<rparr>))"

lemma emplace_send_cases:
  assumes "i < length (mForks s)" and "qinv (mSendOps (mForks s ! i))"
  shows "emplace_send i op s = Inl Bad_Alloc
     \<or> (\<exists>q. emplace_send i op s = Inr (mFreshPtr s, placed_send i op q s) \<and> qinv q \<and> tail_ok q
          \<and> qlist q = qlist (mSendOps (mForks s ! i)) @ [mFreshPtr s])"
  using push_back_cases [OF assms(2), of "mFreshPtr s"] assms(1)
proof (elim disjE)
  assume "\<exists>q'. push_back (mFreshPtr s) (mSendOps (mForks s ! i)) = Inr q' \<and> qinv q'
      \<and> qlist q' = qlist (mSendOps (mForks s ! i)) @ [mFreshPtr s] \<and> queue_back q' = Inr (mFreshPtr s)"
  then obtain q where q: "push_back (mFreshPtr s) (mSendOps (mForks s ! i)) = Inr q" "qinv q"
    "qlist q = qlist (mSendOps (mForks s ! i)) @ [mFreshPtr s]" "queue_back q = Inr (mFreshPtr s)" by blast
  moreover have "tail_ok q" by (rule tail_ok_push [OF assms(2) q(1)])
  ultimately show ?thesis
    using assms(1) by (intro disjI2 exI [of _ q]) (simp add: emplace_send_def fork_at_def placed_send_def)
qed (simp add: emplace_send_def fork_at_def)

lemma placed_send_frame [simp]:
  "mNextLocal (placed_send i op q s) = mNextLocal s"
  "mIdMap (placed_send i op q s) = mIdMap s"
  "mRemoteMap (placed_send i op q s) = mRemoteMap s"
  "mSendBegin (placed_send i op q s) = mSendBegin s"
  "mSendLast (placed_send i op q s) = mSendLast s"
  "mEC (placed_send i op q s) = mEC s"
  "mRecvStatus (placed_send i op q s) = mRecvStatus s"
  "mSendStatus (placed_send i op q s) = mSendStatus s"
  "mNumRecvs (placed_send i op q s) = mNumRecvs s"
  "mNextSendOp (placed_send i op q s) = mNextSendOp s"
  "mSendRes (placed_send i op q s) = mSendRes s"
  "mAnyRecvOp (placed_send i op q s) = mAnyRecvOp s"
  "mAnyRes (placed_send i op q s) = mAnyRes s"
  "mGetReq (placed_send i op q s) = mGetReq s"
  "mGetRes (placed_send i op q s) = mGetRes s"
  "mRecvs (placed_send i op q s) = mRecvs s"
  "mBufs (placed_send i op q s) = mBufs s"
  "mExs (placed_send i op q s) = mExs s"
  "mTokens (placed_send i op q s) = mTokens s"
  "mOut (placed_send i op q s) = mOut s"
  "mFreshPtr (placed_send i op q s) = mFreshPtr s + 1"
  "mSends (placed_send i op q s) = (mSends s)(mFreshPtr s \<mapsto> op)"
  "length (mForks (placed_send i op q s)) = length (mForks s)"
  "mRecvOps (mForks (placed_send i op q s) ! j) = mRecvOps (mForks s ! j)"
  "mExecutor (mForks (placed_send i op q s) ! j) = mExecutor (mForks s ! j)"
  "mLocalId (mForks (placed_send i op q s) ! j) = mLocalId (mForks s ! j)"
  "mRemoteId (mForks (placed_send i op q s) ! j) = mRemoteId (mForks s ! j)"
  "mSessionID (mForks (placed_send i op q s) ! j) = mSessionID (mForks s ! j)"
  by (simp_all add: placed_send_def set_send_def) (simp_all add: set_fork_def)

lemma placed_send_queue:
  "i < length (mForks s) \<Longrightarrow> mSendOps (mForks (placed_send i op q s) ! j) = (if j = i then q else mSendOps (mForks s ! j))"
  by (simp add: placed_send_def set_send_def)

text \<open>The successor link and the predecessor link that \<^verbatim>\<open>setNext\<close> writes.\<close>

definition link_ops :: "nat \<Rightarrow> nat \<Rightarrow> (nat \<Rightarrow> send_op option) \<Rightarrow> nat \<Rightarrow> send_op option" where
  "link_ops l a m = m(l \<mapsto> (the (m l))\<lparr>so_Next := Some a\<rparr>, a \<mapsto> (the (m a))\<lparr>so_Prev := Some l\<rparr>)"

lemma send_setNext_link:
  "l \<noteq> a \<Longrightarrow> mSends s l \<noteq> None \<Longrightarrow> mSends s a \<noteq> None \<Longrightarrow>
     send_setNext l (Some a) s = Inr (s\<lparr>mSends := link_ops l a (mSends s)\<rparr>)"
  by (auto simp: send_setNext_def set_send_def link_ops_def Let_def)

lemma linked_cong:
  assumes "\<And>x. x \<in> set ch \<Longrightarrow> so_Next (the (m' x)) = so_Next (the (m x)) \<and> so_Prev (the (m' x)) = so_Prev (the (m x))"
  shows "linked m' ch = linked m ch"
  using assms by (induction m ch rule: linked.induct) auto

lemma linked_append:
  assumes "linked m (ch @ [l])" "a \<notin> set (ch @ [l])" "distinct (ch @ [l])" "so_Next (the (m a)) = None"
  shows "linked (link_ops l a m) (ch @ [l, a])"
  using assms
proof (induction ch)
  case Nil
  then show ?case by (auto simp: link_ops_def)
next
  case (Cons x ch)
  then have ne: "x \<noteq> l" "x \<noteq> a" by auto
  have ih: "linked (link_ops l a m) (ch @ [l, a])" using Cons linked_tl [of m x "ch @ [l]"] by simp
  have x: "so_Next (the (link_ops l a m x)) = so_Next (the (m x))" using ne by (simp add: link_ops_def)
  show ?case
  proof (cases ch)
    case Nil
    then have "so_Next (the (m x)) = Some l" "so_Prev (the (m l)) = Some x" using Cons.prems(1) by auto
    moreover have "so_Prev (the (link_ops l a m l)) = so_Prev (the (m l))"
      using Cons.prems(2) by (auto simp: link_ops_def)
    ultimately show ?thesis using ih x Nil by simp
  next
    case (Cons y ys)
    then have y: "so_Next (the (m x)) = Some y" "so_Prev (the (m y)) = Some x" using Cons.prems(1) by auto
    have "so_Prev (the (link_ops l a m y)) = so_Prev (the (m y))"
      using Cons.prems(2,3) Cons by (auto simp: link_ops_def)
    then show ?thesis using ih x y Cons by simp
  qed
qed

text \<open>A state with one more operation at the end of the chain.\<close>

lemma send_ok_snoc:
  assumes ok: "send_ok s ch" and i: "i < length (mForks s)" and a: "a = mFreshPtr s"
    and q: "qinv q" "qlist q = qlist (mSendOps (mForks s ! i)) @ [a]"
    and len: "length (mForks s') = length (mForks s)" and fresh: "mFreshPtr s' = a + 1"
    and qs: "\<And>j. mSendOps (mForks s' ! j) = (if j = i then q else mSendOps (mForks s ! j))"
    and dom: "dom (mSends s') = insert a (dom (mSends s))"
    and new: "so_CH (the (mSends s' a)) \<noteq> None" "so_Fork (the (mSends s' a)) = i"
    and old: "\<And>x. x \<in> set ch \<Longrightarrow> so_CH (the (mSends s' x)) = so_CH (the (mSends s x)) \<and> fork_of s' x = fork_of s x"
    and lk: "linked (mSends s') (ch @ [a])"
  shows "send_ok s' (ch @ [a])"
proof -
  have less: "x < a" if "x \<in> set ch" for x using ok that a by (simp add: send_ok_def)
  have fa: "fork_of s' a = i" using new(2) by (simp add: fork_of_def)
  have fl: "filter (\<lambda>x. fork_of s' x = j) ch = filter (\<lambda>x. fork_of s x = j) ch" for j
    using old by (intro filter_cong) auto
  have "qlist (mSendOps (mForks s ! j)) = filter (\<lambda>x. fork_of s x = j) ch" "qinv (mSendOps (mForks s ! j))"
    if "j < length (mForks s)" for j
    using ok that by (simp_all add: send_ok_def)
  then have "qinv (mSendOps (mForks s' ! j)) \<and> qlist (mSendOps (mForks s' ! j)) = filter (\<lambda>x. fork_of s' x = j) (ch @ [a])"
    if "j < length (mForks s')" for j
    using that q i by (simp add: qs fl fa len)
  moreover have "distinct (ch @ [a])" using ok less by (auto simp: send_ok_def)
  moreover have "dom (mSends s') = set (ch @ [a])" using ok dom by (simp add: send_ok_def)
  moreover have "so_CH (the (mSends s' x)) \<noteq> None \<and> fork_of s' x < length (mForks s') \<and> x < mFreshPtr s'"
    if "x \<in> set (ch @ [a])" for x
  proof (cases "x = a")
    case True
    then show ?thesis using new fa i len fresh by simp
  next
    case False
    then have "x \<in> set ch" using that by simp
    then show ?thesis using ok old len less fresh by (fastforce simp: send_ok_def)
  qed
  ultimately show ?thesis using lk by (simp add: send_ok_def)
qed

section \<open>Cells\<close>

text \<open>An exception cell that no pending operation uses, and that is empty.\<close>

definition unused_cell :: "sched \<Rightarrow> nat \<Rightarrow> bool" where
  "unused_cell s p \<longleftrightarrow> (\<forall>a op. mSends s a = Some op \<longrightarrow> sb_ex (so_Buffer op) \<noteq> Some p)"

definition fresh_cell :: "sched \<Rightarrow> nat \<Rightarrow> bool" where
  "fresh_cell s p \<longleftrightarrow> unused_cell s p \<and> mExs s p = None
     \<and> (\<forall>a rop b. mRecvs s a = Some rop \<longrightarrow> mBufs s (ro_Buffer rop) = Some b \<longrightarrow> rb_ex b \<noteq> Some p)"

definition fresh_buffer :: "sched \<Rightarrow> send_buffer \<Rightarrow> bool" where
  "fresh_buffer s b \<longleftrightarrow> (\<forall>p. sb_ex b = Some p \<longrightarrow> fresh_cell s p)"

lemma send_setError_fresh:
  "fresh_buffer s b \<Longrightarrow> send_setError b ec (mExs s) = Inr (note_error b ec (mExs s))"
  by (auto simp: send_setError_def note_error_def fresh_buffer_def fresh_cell_def split: option.splits)

lemma cells_ok_unused_error:
  assumes "cells_ok s" and "\<And>p. r = Some p \<Longrightarrow> unused_cell s p"
  shows "cells_ok (s\<lparr>mExs := (case r of None \<Rightarrow> mExs s | Some p \<Rightarrow> (mExs s)(p \<mapsto> e))\<rparr>)"
  using assms(1)
proof (rule cells_ok_less)
  fix a op p assume "mSends (s\<lparr>mExs := (case r of None \<Rightarrow> mExs s | Some p \<Rightarrow> (mExs s)(p \<mapsto> e))\<rparr>) a = Some op"
    and p: "sb_ex (so_Buffer op) = Some p"
  then have "mSends s a = Some op" by simp
  then have "mExs s p = None" "r \<noteq> Some p" using assms p unfolding cells_ok_def unused_cell_def by blast+
  then show "mExs (s\<lparr>mExs := (case r of None \<Rightarrow> mExs s | Some p \<Rightarrow> (mExs s)(p \<mapsto> e))\<rparr>) p = None"
    by (auto split: option.splits)
qed simp_all

lemma sched_inv_frame [simp]:
  "sched_inv (s\<lparr>mSendBegin := x_mSendBegin\<rparr>) ch = sched_inv s ch"
  "sched_inv (s\<lparr>mSendLast := x_mSendLast\<rparr>) ch = sched_inv s ch"
  "sched_inv (s\<lparr>mEC := x_mEC\<rparr>) ch = sched_inv s ch"
  "sched_inv (s\<lparr>mRecvStatus := x_mRecvStatus\<rparr>) ch = sched_inv s ch"
  "sched_inv (s\<lparr>mSendStatus := x_mSendStatus\<rparr>) ch = sched_inv s ch"
  "sched_inv (s\<lparr>mRecvSrc := x_mRecvSrc\<rparr>) ch = sched_inv s ch"
  "sched_inv (s\<lparr>mSendSrc := x_mSendSrc\<rparr>) ch = sched_inv s ch"
  "sched_inv (s\<lparr>mNextSendOp := x_mNextSendOp\<rparr>) ch = sched_inv s ch"
  "sched_inv (s\<lparr>mSendRes := x_mSendRes\<rparr>) ch = sched_inv s ch"
  "sched_inv (s\<lparr>mAnyRecvOp := x_mAnyRecvOp\<rparr>) ch = sched_inv s ch"
  "sched_inv (s\<lparr>mAnyRes := x_mAnyRes\<rparr>) ch = sched_inv s ch"
  "sched_inv (s\<lparr>mGetReq := x_mGetReq\<rparr>) ch = sched_inv s ch"
  "sched_inv (s\<lparr>mGetRes := x_mGetRes\<rparr>) ch = sched_inv s ch"
  "sched_inv (s\<lparr>mOut := x_mOut\<rparr>) ch = sched_inv s ch"
  by (simp_all add: sched_inv_def tails_ok_def bufs_ok_def sends_ok_def recv_total_def)

lemma sched_inv_emit [simp]: "sched_inv (emit e s) ch = sched_inv s ch"
  by (simp add: emit_def)

lemma sched_inv_exs:
  assumes "sched_inv s ch" and "cells_ok (s\<lparr>mExs := ex\<rparr>)"
  shows "sched_inv (s\<lparr>mExs := ex\<rparr>) ch"
  using assms by (simp add: sched_inv_simps tails_ok_def bufs_ok_def sends_ok_def recv_total_def)

lemma phases_exs [simp]:
  "send_phase (s\<lparr>mExs := ex\<rparr>) ch sp = send_phase s ch sp" "recv_phase (s\<lparr>mExs := ex\<rparr>) rp = recv_phase s rp"
  "send_phase (s\<lparr>mOut := out\<rparr>) ch sp = send_phase s ch sp" "recv_phase (s\<lparr>mOut := out\<rparr>) rp = recv_phase s rp"
  by (rule send_phase_cong recv_phase_cong; simp)+

lemma phases_emit [simp]:
  "send_phase (emit e s) ch sp = send_phase s ch sp" "recv_phase (emit e s) rp = recv_phase s rp"
  by (simp_all add: emit_def)

lemma sock_inv_error:
  assumes inv: "sock_inv s ch sp rp" and "\<And>p. r = Some p \<Longrightarrow> unused_cell s p"
  shows "sock_inv (s\<lparr>mExs := (case r of None \<Rightarrow> mExs s | Some p \<Rightarrow> (mExs s)(p \<mapsto> e))\<rparr>) ch sp rp"
proof -
  let ?ex = "case r of None \<Rightarrow> mExs s | Some p \<Rightarrow> (mExs s)(p \<mapsto> e)"
  have "cells_ok (s\<lparr>mExs := ?ex\<rparr>)"
    using inv by (intro cells_ok_unused_error assms(2)) (simp_all add: sock_inv_def sched_inv_simps)
  then have "sched_inv (s\<lparr>mExs := ?ex\<rparr>) ch" using inv by (intro sched_inv_exs) (simp_all add: sock_inv_def)
  then show ?thesis using inv by (simp add: sock_inv_def)
qed

section \<open>Send\<close>

definition op_sig :: "send_op \<Rightarrow> nat option \<times> nat \<times> send_buffer \<times> nat list" where
  "op_sig op = (so_CH op, so_Fork op, so_Buffer op, so_Flushes op)"

lemma appended_inv:
  assumes inv: "sched_inv s ch" and i: "i < length (mForks s)"
    and q: "qinv q" "tail_ok q" "qlist q = qlist (mSendOps (mForks s ! i)) @ [mFreshPtr s]"
    and new: "m (mFreshPtr s) = Some op" "so_CH op \<noteq> None" "so_Fork op = i" "so_Flushes op = []"
    and data: "sb_data (so_Buffer op) \<noteq> []" "length (sb_data (so_Buffer op)) < 2 ^ 32 - 1"
      "mLocalId (mForks s ! i) \<noteq> NOT 0" "fresh_buffer s (so_Buffer op)"
    and old: "\<And>x. x \<noteq> mFreshPtr s \<Longrightarrow> map_option op_sig (m x) = map_option op_sig (mSends s x)"
    and lk: "linked m (ch @ [mFreshPtr s])"
  shows "sched_inv ((placed_send i op0 q s)\<lparr>mSends := m\<rparr>) (ch @ [mFreshPtr s])"
proof -
  let ?a = "mFreshPtr s" and ?s = "(placed_send i op0 q s)\<lparr>mSends := m\<rparr>"
  have core: "send_ok s ch" "recv_ok s" "token_inv s" "cells_ok s" "ids_ok s" "count_ok s" "tails_ok s" "bufs_ok s" "sends_ok s"
    "recv_total s < 2 ^ 64"
    using inv by (simp_all add: sched_inv_simps)
  have nota: "mSends s ?a = None"
    using core(1) unfolding send_ok_def by (metis domIff less_irrefl)
  have sig: "\<exists>op1. mSends s x = Some op1 \<and> op_sig op1 = op_sig op2" if "m x = Some op2" "x \<noteq> ?a" for x op2
    using old [OF that(2)] that(1) by (cases "mSends s x") auto
  have dom: "dom m = insert ?a (dom (mSends s))"
  proof -
    have "x \<in> dom m \<longleftrightarrow> x = ?a \<or> x \<in> dom (mSends s)" for x
    proof (cases "x = ?a")
      case False
      then show ?thesis using old [OF False] by (cases "m x"; cases "mSends s x") auto
    qed (use new(1) in auto)
    then show ?thesis by blast
  qed
  have olds: "so_CH (the (m x)) = so_CH (the (mSends s x)) \<and> so_Fork (the (m x)) = so_Fork (the (mSends s x))" if "x \<in> set ch" for x
  proof -
    have "x \<in> dom (mSends s)" using core(1) that by (simp add: send_ok_def)
    then have x: "x \<noteq> ?a" using nota by blast
    then have "x \<in> dom m" using dom \<open>x \<in> dom (mSends s)\<close> by simp
    then show ?thesis using sig [OF _ x] by (auto simp: op_sig_def)
  qed
  have "send_ok ?s (ch @ [?a])"
    by (rule send_ok_snoc [OF core(1) i refl q(1,3)])
      (use i new dom olds lk in \<open>simp_all add: placed_send_queue fork_of_def\<close>)
  moreover have "recv_ok ?s"
    using core(2) unfolding recv_ok_def by (fastforce intro: less_SucI)
  moreover have "token_inv ?s"
  proof (rule token_inv_cong [OF core(3)])
    have "finite (dom (mSends s))" "finite (dom (mRecvs s))" using core(3) by (simp_all add: token_inv_def)
    then show "finite (dom (mSends ?s))" "finite (dom (mRecvs ?s))" using dom by simp_all
    show "map_option so_Flushes (mSends ?s x) = map_option so_Flushes (mSends s x)
        \<or> map_option so_Flushes (mSends ?s x) = Some [] \<and> mSends s x = None" for x
    proof (cases "x = ?a")
      case False
      then show ?thesis using old [OF False] by (cases "m x"; cases "mSends s x") (auto simp: op_sig_def)
    qed (use new nota in simp)
  qed simp_all
  moreover have "cells_ok ?s"
    unfolding cells_ok_def
  proof (intro allI impI conjI)
    have buf: "\<exists>op1. mSends s z = Some op1 \<and> so_Buffer op1 = so_Buffer o'" if "m z = Some o'" "z \<noteq> ?a" for z o'
      using sig [OF that] by (auto simp: op_sig_def)
    have no: "sb_ex (so_Buffer o') \<noteq> Some p" if z: "m z = Some o'" "z \<noteq> ?a" "sb_ex (so_Buffer op) = Some p" for z o' p
      using buf [OF z(1,2)] data(4) z(3) unfolding fresh_buffer_def fresh_cell_def unused_cell_def by metis
    have oldc: "mExs s p = None" "mRecvs s b = Some rop \<Longrightarrow> mBufs s (ro_Buffer rop) = Some bb \<Longrightarrow> rb_ex bb \<noteq> Some p"
        "mSends s y = Some o2 \<Longrightarrow> sb_ex (so_Buffer o2) = Some p \<Longrightarrow> y = x"
      if "mSends s x = Some o1" "sb_ex (so_Buffer o1) = Some p" for x o1 p b rop bb y o2
      using core(4) that unfolding cells_ok_def by blast+
    have newc: "mExs s p = None" "mRecvs s b = Some rop \<Longrightarrow> mBufs s (ro_Buffer rop) = Some bb \<Longrightarrow> rb_ex bb \<noteq> Some p"
      if "sb_ex (so_Buffer op) = Some p" for p b rop bb
      using data(4) that unfolding fresh_buffer_def fresh_cell_def by blast+
    fix x o1 p assume x: "mSends ?s x = Some o1" and p: "sb_ex (so_Buffer o1) = Some p"
    then have mx: "m x = Some o1" by simp
    show "mExs ?s p = None"
      using mx p newc(1) oldc(1) buf [OF mx] new(1) by (cases "x = ?a") auto
    show "rb_ex bb \<noteq> Some p" if "mRecvs ?s b = Some rop" "mBufs ?s (ro_Buffer rop) = Some bb" for b rop bb
      using that mx p newc(2) [of p b rop bb] oldc(2) [of x _ p b rop bb] buf [OF mx] new(1) by (cases "x = ?a") auto
    fix y o2 assume "mSends ?s y = Some o2" and py: "sb_ex (so_Buffer o2) = Some p"
    then have my: "m y = Some o2" by simp
    consider "x = ?a" "y = ?a" | "x = ?a" "y \<noteq> ?a" | "x \<noteq> ?a" "y = ?a" | "x \<noteq> ?a" "y \<noteq> ?a" by blast
    then show "y = x"
    proof cases
      case 2
      then show ?thesis using no [OF my, of p] py mx p new(1) by simp
    next
      case 3
      then show ?thesis using no [OF mx, of p] py my p new(1) by simp
    next
      case 4
      then show ?thesis using buf [OF mx] buf [OF my] oldc(3) p py by metis
    qed simp
  qed
  moreover have "ids_ok ?s" using core(5) i by (simp add: ids_ok_def)
  moreover have tot: "recv_total ?s = recv_total s"
  proof -
    have "map (\<lambda>f. unat (mSize (mRecvOps f))) (mForks ?s) = map (\<lambda>f. unat (mSize (mRecvOps f))) (mForks s)"
      by (rule nth_equalityI) simp_all
    then show ?thesis by (simp add: recv_total_def)
  qed
  moreover have "count_ok ?s" using core(6) tot by (simp add: count_ok_def)
  moreover have "tails_ok ?s" using core(7) i q(2) by (simp add: tails_ok_def placed_send_queue)
  moreover have "bufs_ok ?s" using core(8) by (simp add: bufs_ok_def)
  moreover have "sends_ok ?s"
    unfolding sends_ok_def
  proof (intro allI impI)
    fix x o1 assume x: "mSends ?s x = Some o1"
    show "sb_data (so_Buffer o1) \<noteq> [] \<and> length (sb_data (so_Buffer o1)) < 2 ^ 32 - 1 \<and> mLocalId (mForks ?s ! so_Fork o1) \<noteq> NOT 0"
    proof (cases "x = ?a")
      case True
      then show ?thesis using x new data by simp
    next
      case False
      then obtain op1 where o: "mSends s x = Some op1" "so_Buffer op1 = so_Buffer o1" "so_Fork op1 = so_Fork o1"
        using sig [of x o1] x by (auto simp: op_sig_def)
      have "sb_data (so_Buffer op1) \<noteq> [] \<and> length (sb_data (so_Buffer op1)) < 2 ^ 32 - 1 \<and> mLocalId (mForks s ! so_Fork op1) \<noteq> NOT 0"
        using core(9) o(1) unfolding sends_ok_def by blast
      then show ?thesis using o(2,3) by simp
    qed
  qed
  ultimately show ?thesis using core(10) by (simp add: sched_inv_simps)
qed

lemma send_phase_empty: "send_phase s ch sp \<Longrightarrow> mNextSendOp s \<Longrightarrow> ch = []"
  by (cases ch) (auto simp: send_phase_def active_op_def)

text \<open>What \<^verbatim>\<open>send\<close> leaves alone when it has appended an operation.\<close>

definition keeps_forks :: "sched \<Rightarrow> sched \<Rightarrow> bool" where
  "keeps_forks s s' \<longleftrightarrow> length (mForks s') = length (mForks s)
     \<and> (\<forall>j. mRecvOps (mForks s' ! j) = mRecvOps (mForks s ! j) \<and> mLocalId (mForks s' ! j) = mLocalId (mForks s ! j)
          \<and> mRemoteId (mForks s' ! j) = mRemoteId (mForks s ! j) \<and> mSessionID (mForks s' ! j) = mSessionID (mForks s ! j)
          \<and> mExecutor (mForks s' ! j) = mExecutor (mForks s ! j) \<and> mInitiated (mForks s' ! j) = mInitiated (mForks s ! j))"

lemma keeps_forks_refl: "keeps_forks s s"
  by (simp add: keeps_forks_def)

lemma placed_send_initiated [simp]: "mInitiated (mForks (placed_send i op q s) ! j) = mInitiated (mForks s ! j)"
  by (simp add: placed_send_def set_send_def)

lemma placed_keeps_forks: "keeps_forks s (placed_send i op q s)"
  by (simp add: keeps_forks_def)

lemma enqueue_inv:
  assumes inv: "sock_inv s ch sp rp" and i: "i < length (mForks s)" and err: "\<not> is_error (mEC s)"
    and q: "qinv q" "tail_ok q" "qlist q = qlist (mSendOps (mForks s ! i)) @ [mFreshPtr s]"
    and data: "sb_data b \<noteq> []" "length (sb_data b) < 2 ^ 32 - 1" "mLocalId (mForks s ! i) \<noteq> NOT 0" "fresh_buffer s b"
  shows "\<exists>s'. enqueue_send (mFreshPtr s) (placed_send i (new_send_op i cb b) q s) = Inr s'
     \<and> sock_inv s' (ch @ [mFreshPtr s]) sp rp \<and> keeps_forks s s' \<and> mEC s' = mEC s \<and> mExs s' = mExs s
     \<and> map_option op_sig (mSends s' (mFreshPtr s)) = Some (Some cb, i, b, [])
     \<and> (\<forall>x. x \<noteq> mFreshPtr s \<longrightarrow> map_option op_sig (mSends s' x) = map_option op_sig (mSends s x))
     \<and> mOut s' = mOut s @ (if ch = [] then [Resume Send_Task None] else [])"
proof -
  let ?a = "mFreshPtr s" and ?op = "new_send_op i cb b"
  let ?s1 = "placed_send i ?op q s"
  have sinv: "sched_inv s ch" and ph: "send_phase s ch sp" and rp: "recv_phase s rp" using inv by (simp_all add: sock_inv_def)
  have sok: "send_ok s ch" using sinv by (simp add: sched_inv_simps)
  have nota: "mSends s ?a = None" "?a \<notin> set ch"
    using sok unfolding send_ok_def by (metis domIff less_irrefl, metis less_irrefl)
  have rphase: "recv_phase s' rp" if "mAnyRecvOp s' = mAnyRecvOp s" "mNumRecvs s' = mNumRecvs s" "mRecvStatus s' = mRecvStatus s"
      "mEC s' = mEC s" "mGetReq s' = mGetReq s" "mAnyRes s' = mAnyRes s" "mGetRes s' = mGetRes s" "mRemoteMap s' = mRemoteMap s"
      "mForks s' = mForks ?s1" for s'
    using rp recv_phase_cong [of s' s rp] that by simp
  show ?thesis
  proof (cases "mNextSendOp s")
    case True
    then have ch: "ch = []" by (rule send_phase_empty [OF ph])
    have idle: "mSendStatus s = Idle" "mSendBegin s = None" "mSendLast s = None" "sp = Await_Next"
      using ph True ch by (auto simp: send_phase_def)
    let ?op' = "?op\<lparr>so_Status := InProgress\<rparr>"
    let ?m = "(mSends s)(?a \<mapsto> ?op')"
    let ?s2 = "?s1\<lparr>mSends := ?m\<rparr>"
    let ?s' = "(wake_send (Inr ?a) None (?s2\<lparr>mSendStatus := InUse\<rparr>))\<lparr>mSendBegin := Some ?a, mSendLast := Some ?a\<rparr>"
    have "enqueue_send ?a ?s1 = Inr ?s'"
      using True idle by (simp add: enqueue_send_def send_setStatus_def set_send_def wake_send_def)
    moreover have "sched_inv ?s2 (ch @ [?a])"
      by (rule appended_inv [OF sinv i q, of _ ?op']) (use data ch in \<open>simp_all add: new_send_op_def\<close>)
    then have "sched_inv ?s' (ch @ [?a])" by (simp add: wake_send_def)
    moreover have "send_phase ?s' (ch @ [?a]) sp"
      using ch idle by (simp add: send_phase_def wake_send_def active_op_def last_opt_def)
    moreover have "recv_phase ?s' rp" by (rule rphase) (simp_all add: wake_send_def)
    moreover have "keeps_forks s ?s'" using placed_keeps_forks by (simp add: keeps_forks_def wake_send_def)
    ultimately show ?thesis
      using ch by (intro exI [of _ ?s']) (simp add: sock_inv_def wake_send_def new_send_op_def op_sig_def)
  next
    case False
    then have ne: "ch \<noteq> []" using ph err by (auto simp: send_phase_def)
    let ?l = "last ch" and ?c = "butlast ch"
    have ch: "ch = ?c @ [?l]" using ne by simp
    have l: "mSendLast s = Some ?l" using ph ne by (simp add: send_phase_def last_opt_def)
    have lin: "?l \<in> set ch" using ne by simp
    have la: "?l \<noteq> ?a" using lin nota(2) by metis
    have ls: "mSends s ?l \<noteq> None" using sok lin unfolding send_ok_def by blast
    let ?m = "link_ops ?l ?a ((mSends s)(?a \<mapsto> ?op))"
    let ?s2 = "?s1\<lparr>mSends := ?m\<rparr>"
    let ?s' = "?s2\<lparr>mSendLast := Some ?a\<rparr>"
    have "enqueue_send ?a ?s1 = Inr ?s'"
      using False l la ls by (simp add: enqueue_send_def send_setNext_link)
    moreover have old: "map_option op_sig (?m x) = map_option op_sig (mSends s x)" if "x \<noteq> ?a" for x
      using that ls la by (auto simp: link_ops_def op_sig_def)
    have new: "?m ?a = Some (?op\<lparr>so_Prev := Some ?l\<rparr>)" by (simp add: link_ops_def)
    have "linked ?m (?c @ [?l, ?a])"
    proof (rule linked_append)
      show "linked ((mSends s)(?a \<mapsto> ?op)) (?c @ [?l])"
        unfolding ch [symmetric] using sok nota(2) by (simp add: linked_remove send_ok_def)
      show "?a \<notin> set (?c @ [?l])" unfolding ch [symmetric] by (rule nota(2))
      show "distinct (?c @ [?l])" unfolding ch [symmetric] using sok by (simp add: send_ok_def)
    qed (simp add: new_send_op_def)
    then have lk: "linked ?m (ch @ [?a])" by (subst ch) simp
    have "sched_inv ?s2 (ch @ [?a])"
      by (rule appended_inv [OF sinv i q new _ _ _ _ _ _ _ old lk]) (use data in \<open>simp_all add: new_send_op_def\<close>)
    then have "sched_inv ?s' (ch @ [?a])" by simp
    moreover have "send_phase ?s' (ch @ [?a]) sp"
    proof -
      have hd: "hd (ch @ [?a]) = hd ch" "tl (ch @ [?a]) = tl ch @ [?a]" "head_opt (ch @ [?a]) = head_opt ch"
        using ne by (cases ch; simp)+
      have stat: "so_Status (the (?m x)) = so_Status (the (mSends s x))" if "x \<in> set ch" for x
        using that nota(2) by (auto simp: link_ops_def)
      have "hd ch \<in> set ch" "set (tl ch) \<subseteq> set ch" using ne by (auto dest: list.set_sel(2))
      then have "\<forall>x \<in> set (tl ch). so_Status (the (?m x)) = NotStarted" "so_Status (the (?m (hd ch))) \<noteq> NotStarted"
        using ph ne stat by (auto simp: send_phase_def)
      moreover have "active_op ?s' sp = active_op s sp" by (simp add: active_op_def)
      moreover have "so_Status (the (?m ?a)) = NotStarted" unfolding new by (simp add: new_send_op_def)
      ultimately show ?thesis
        using ph False unfolding send_phase_def hd by (simp add: last_opt_def)
    qed
    moreover have "recv_phase ?s' rp" by (rule rphase) simp_all
    moreover have "keeps_forks s ?s'" using placed_keeps_forks by (simp add: keeps_forks_def)
    moreover have "map_option op_sig (?m ?a) = Some (Some cb, i, b, [])" unfolding new by (simp add: op_sig_def new_send_op_def)
    ultimately show ?thesis using ne old by (intro exI [of _ ?s']) (simp add: sock_inv_def)
  qed
qed

end
