(* ===== verification/Sched_Next.thy ===== *)
theory Sched_Next
  imports Sched_Send
begin

text \<open>
  The send task's side of the scheduler: completing the operation that was transmitted and taking
  the next one, and closing the socket. Each keeps the invariants of the whole socket.
\<close>

section \<open>Cancel and the phases\<close>

lemma after_first_cancelled: "\<not> is_error (mEC s) \<Longrightarrow> after_first c ec s = cancelled c ec s"
  and after_first_same: "is_error (mEC s) \<Longrightarrow> after_first c ec s = s"
  by (simp_all add: after_first_def)

lemma after_first_inv:
  assumes "sched_inv s ch"
  shows "sched_inv (after_first c ec s) ch"
  using assms
  by (simp add: sched_inv_def tails_ok_def bufs_ok_def sends_ok_def recv_total_def)

lemma after_first_next [simp]: "mNextSendOp s = False \<Longrightarrow> mNextSendOp (after_first c ec s) = False"
  by (simp add: after_first_def cancelled_def)

lemma after_first_send_phase:
  assumes ph: "send_phase s ch sp" and err: "is_error ec"
  shows "send_phase (after_first c ec s) ch sp"
proof (cases "is_error (mEC s)")
  case True
  then show ?thesis using ph by (simp add: after_first_same)
next
  case False
  show ?thesis
  proof (cases "mNextSendOp s")
    case True
    then have "ch = []" "sp = Await_Next" using send_phase_empty [OF ph] ph by (auto simp: send_phase_def)
    then show ?thesis
      using ph err True False by (simp add: after_first_cancelled send_phase_def active_op_def cancelled_def)
  next
    case nx: False
    then show ?thesis
      using ph err False by (auto simp: after_first_cancelled send_phase_def active_op_def cancelled_def)
  qed
qed

lemma after_first_recv_phase:
  assumes ph: "recv_phase s rp" and err: "is_error ec \<or> is_error (mEC s)"
  shows "recv_phase (after_first c ec s) rp"
proof (cases "is_error (mEC s)")
  case True
  then show ?thesis using ph by (simp add: after_first_same)
next
  case False
  then have e: "is_error ec" using err by simp
  let ?s = "cancelled c ec s"
  have f: "mRemoteMap ?s = mRemoteMap s" "mForks ?s = mForks s" by (simp_all add: cancelled_def)
  have fr: "recv_front ?s r a = recv_front s r a" for r a by (simp add: recv_front_def f)
  show ?thesis
    unfolding after_first_cancelled [OF False]
  proof (rule recv_phaseI)
    show "\<exists>e. mAnyRes ?s = Some e \<and> (is_error e \<longrightarrow> is_error (mEC ?s))" if "rp = Await_Any" "\<not> mAnyRecvOp ?s"
      using recv_phaseD(3) [OF ph that(1)] e by (cases "mAnyRecvOp s") (auto simp: cancelled_def)
    show "get_ok ?s (hForkId h) (mGetRes ?s)" if "rp = Await_Fork h" "mGetReq ?s = None" for h
    proof (cases "mGetReq s")
      case None
      then have "get_ok s (hForkId h) (mGetRes s)" by (rule recv_phaseD(4) [OF ph that(1)])
      then show ?thesis using None fr e by (auto simp: cancelled_def get_ok_def split: option.splits sum.splits)
    next
      case (Some r)
      then show ?thesis using e by (simp add: cancelled_def)
    qed
    show "recv_front ?s (hForkId h) a" if "rp = Reading_Body h a" for h a
      using recv_phaseD(5) [OF ph that] by (simp add: fr)
  qed simp_all
qed

lemma close_inv:
  assumes "sock_inv s ch sp rp"
  shows "sched_close s = Inr (after_first Extern (make_error_code Closed) s)"
    and "sock_inv (after_first Extern (make_error_code Closed) s) ch sp rp"
proof -
  show "sched_close s = Inr (after_first Extern (make_error_code Closed) s)"
    by (simp add: sched_close_def cancel_def cancel_first_ok)
  show "sock_inv (after_first Extern (make_error_code Closed) s) ch sp rp"
    using assms after_first_inv after_first_send_phase after_first_recv_phase by (simp add: sock_inv_def)
qed

text \<open>Cancel by the send task: what is left of the invariants.\<close>

lemma send_ok_Nil: "send_ok s [] \<Longrightarrow> i < length (mForks s) \<Longrightarrow> qlist (mSendOps (mForks s ! i)) = []"
  by (simp add: send_ok_def)

lemma cancel_sender_inv:
  assumes inv: "sched_inv s ch" and ns: "\<forall>a \<in> set ch. so_Status (the (mSends s a)) = NotStarted"
    and hd: "mSendBegin s = head_opt ch" and err: "is_error ec \<or> is_error (mEC s)" and rp: "recv_phase s rp"
    and nx: "\<not> mNextSendOp s"
  obtains s' out1 out2 where "cancel Sender ec s = Inr s'" "sched_inv s' []" "recv_phase s' rp" "is_error (mEC s')"
    "mSendBegin s' = None" "mSendLast s' = None" "\<not> mNextSendOp s'"
    "mOut s' = mOut s @ out1 @ out2" "no_user out1" "completions s ch out2" "told s ch ec (mExs s')" "mRecvs s' = mRecvs s"
proof -
  let ?s1 = "(after_first Sender ec s)\<lparr>mSendStatus := SClosed, mSendBegin := None, mSendLast := None\<rparr>"
  have core: "core_ok s ch" and cnt: "count_ok s" using inv by (simp_all add: sched_inv_def)
  obtain s' out1 out2 where r: "cancel Sender ec s = Inr s'" "core_ok s' []" "count_ok s \<longrightarrow> count_ok s'"
     "is_error (mEC s')" "mSendStatus s' = SClosed" "mSendBegin s' = None" "mSendLast s' = None"
     "mOut s' = mOut s @ out1 @ out2" "no_user out1" "completions s ch out2"
     "told s ch ec (mExs s')" "mRecvs s' = mRecvs s" "keeps ?s1 s'"
    using cancel_sender_ok [OF core ns hd err] by metis
  note k = keeps_fields [OF r(13)]
  have sends: "mSends s' a = None" for a
  proof -
    have "dom (mSends s') = {}" using r(2) by (simp add: core_ok_def send_ok_def)
    then show ?thesis by auto
  qed
  have tot: "recv_total s' = recv_total s"
  proof -
    have "map (\<lambda>f. unat (mSize (mRecvOps f))) (mForks s') = map (\<lambda>f. unat (mSize (mRecvOps f))) (mForks s)"
      using k by (intro nth_equalityI) simp_all
    then show ?thesis by (simp add: recv_total_def)
  qed
  have "tails_ok s'"
    unfolding tails_ok_def
  proof (intro allI impI conjI)
    fix i assume i: "i < length (mForks s')"
    show "tail_ok (mRecvOps (mForks s' ! i))" using inv i k by (simp add: sched_inv_def tails_ok_def)
    show "tail_ok (mSendOps (mForks s' ! i))" using send_ok_Nil [of s' i] r(2) i by (simp add: tail_ok_def core_ok_def)
  qed
  moreover have "bufs_ok s'" using inv k r(12) by (simp add: sched_inv_def bufs_ok_def)
  moreover have "sends_ok s'" by (simp add: sends_ok_def sends)
  ultimately have inv': "sched_inv s' []" using r(2,3) cnt tot inv by (simp add: sched_inv_def)
  have ph: "recv_phase s' rp"
  proof -
    have "recv_phase (after_first Sender ec s) rp" by (rule after_first_recv_phase [OF rp err])
    then show ?thesis
      using recv_phase_cong [of s' "after_first Sender ec s" rp] k by simp
  qed
  have "\<not> mNextSendOp s'" using k nx by simp
  then show thesis using that r(1,4,6-12) inv' ph by blast
qed

section \<open>The send task asks for its next operation\<close>

text \<open>The state once the finished operation \<open>a\<close> has been completed and removed.\<close>

definition after_send :: "nat \<Rightarrow> nat list \<Rightarrow> nat queue \<Rightarrow> error_code \<Rightarrow> sched \<Rightarrow> sched" where
  "after_send a r q ec s = (retire_send a q (if is_error ec
       then s\<lparr>mExs := note_error (so_Buffer (the (mSends s a))) ec (mExs s)\<rparr> else s))
     \<lparr>mSendBegin := head_opt r, mSendLast := (if r = [] then None else mSendLast s)\<rparr>"

lemma head_opt_None: "head_opt r = None \<longleftrightarrow> r = []"
  by (cases r) simp_all

lemma same_last: "mSendLast t = l \<Longrightarrow> t\<lparr>mSendBegin := b, mSendLast := l\<rparr> = t\<lparr>mSendBegin := b\<rparr>"
  by simp

lemma complete_prev_send_closed:
  assumes ok: "core_ok s (a # r)" and bg: "mSendBegin s = Some a"
  obtains op q where "mSends s a = Some op" "so_Fork op < length (mForks s)"
    "pop_front (mSendOps (mForks s ! so_Fork op)) = Inr q"
    "complete_prev_send a ec s = Inr (if is_error ec then make_error_code Cancel else ec, after_send a r q ec s)"
proof -
  let ?s = "if is_error ec then s\<lparr>mExs := note_error (so_Buffer (the (mSends s a))) ec (mExs s)\<rparr> else s"
  have s: "send_ok ?s (a # r)" "token_inv ?s" using ok by (simp_all add: core_ok_def)
  obtain op q where op: "mSends ?s a = Some op" "queue_front (mSendOps (mForks ?s ! so_Fork op)) = Inr a"
    "so_Fork op < length (mForks ?s)" "completeOn_send a ?s = Inr (finish_send a ?s)"
    "pop_front (mSendOps (mForks ?s ! so_Fork op)) = Inr q"
    "pop_front_send (so_Fork op) (finish_send a ?s) = Inr (retire_send a q ?s)"
    by (rule complete_pop_send [OF s])
  have op': "mSends s a = Some op" using op(1) by (simp split: if_splits)
  have err: "send_op_setError a ec s = Inr (s\<lparr>mExs := note_error (so_Buffer op) ec (mExs s)\<rparr>)"
    using send_op_setError_ok [of s a op ec] ok op' by (simp add: core_ok_def)
  have nx: "so_Next op = head_opt r"
    using linked_next [of "mSends s" a r] ok op' by (simp add: core_ok_def send_ok_def)
  have f: "mForks ?s = mForks s" "mSendBegin ?s = mSendBegin s" "mSendLast ?s = mSendLast s" by simp_all
  let ?op = "op\<lparr>so_CH := None, so_Flushes := []\<rparr>"
  have fin: "mSends (finish_send a ?s) a = Some ?op" using op(1) by (simp add: finish_send_def Let_def)
  have pop: "pop_front_send (so_Fork op) ((set_send a (?op\<lparr>so_Next := None\<rparr>) (finish_send a ?s))
      \<lparr>mSendBegin := head_opt r, mSendLast := l\<rparr>) = Inr ((retire_send a q ?s)\<lparr>mSendBegin := head_opt r, mSendLast := l\<rparr>)" for l
    using op(2,3,5) op' f
    by (simp add: pop_front_send_def fork_at_def finish_send_def retire_send_def done_send_def set_send_def Let_def set_fork_def)
  have pop2: "pop_front_send (so_Fork op) ((set_send a (?op\<lparr>so_Next := None\<rparr>) (finish_send a ?s))
      \<lparr>mSendBegin := head_opt r\<rparr>) = Inr ((retire_send a q ?s)\<lparr>mSendBegin := head_opt r\<rparr>)"
    using op(2,3,5) op' f
    by (simp add: pop_front_send_def fork_at_def finish_send_def retire_send_def done_send_def set_send_def Let_def set_fork_def)
  have ff: "mForks (finish_send a ?s) = mForks s" "mSendBegin (finish_send a ?s) = Some a" "mSendLast (finish_send a ?s) = mSendLast s"
    by (simp_all add: finish_send_def Let_def bg)
  have "complete_prev_send a ec s = Inr (if is_error ec then make_error_code Cancel else ec, after_send a r q ec s)"
  proof (cases r)
    case Nil
    then show ?thesis
      using op err nx fin pop [of None] f ff op'
      by (cases "is_error ec") (simp_all add: complete_prev_send_def after_send_def send_setNext_def set_send_def fork_at_def Let_def)
  next
    case (Cons b r')
    then show ?thesis
      using op err nx fin pop2 f ff op'
      by (cases "is_error ec") (simp_all add: same_last complete_prev_send_def after_send_def send_setNext_def set_send_def fork_at_def Let_def)
  qed
  then show thesis using that [OF op'] op(3,5) f by simp
qed

lemma after_send_inv:
  assumes inv: "sched_inv s (a # r)" and op: "mSends s a = Some op" "so_Fork op < length (mForks s)"
    and q: "pop_front (mSendOps (mForks s ! so_Fork op)) = Inr q"
  shows "sched_inv (after_send a r q ec s) r"
proof -
  let ?s = "if is_error ec then s\<lparr>mExs := note_error (so_Buffer (the (mSends s a))) ec (mExs s)\<rparr> else s"
  let ?t = "retire_send a q ?s"
  have core: "core_ok s (a # r)" using inv by (simp add: sched_inv_def)
  have "core_ok ?t r" using core_ok_retire(1) [OF core op(1) q op(2), of ec] core_ok_retire(2) [OF core op(1) q op(2)] op(1) by simp
  moreover have cnt: "count_ok ?t" using inv retire_send_others(2) [of ?s a op q] op by (simp add: sched_inv_def)
  moreover have qs: "mSendOps (mForks ?t ! j) = (if j = so_Fork op then q else mSendOps (mForks s ! j))" for j
    using op by (simp add: retire_send_def Let_def)
  have "tails_ok ?t"
    unfolding tails_ok_def
  proof (intro allI impI conjI)
    have "mForks ?s = mForks s" by simp
    fix i assume "i < length (mForks ?t)"
    then have i: "i < length (mForks s)" by (simp add: \<open>mForks ?s = mForks s\<close>)
    then have t: "tail_ok (mRecvOps (mForks s ! i))" "tail_ok (mSendOps (mForks s ! i))" "qinv (mSendOps (mForks s ! i))"
      using inv by (simp_all add: sched_inv_def tails_ok_def core_ok_def send_ok_def)
    then show "tail_ok (mRecvOps (mForks ?t ! i))" by (simp add: \<open>mForks ?s = mForks s\<close>)
    show "tail_ok (mSendOps (mForks ?t ! i))" using t tail_ok_pop [OF _ _ q] by (auto simp: qs)
  qed
  moreover have "bufs_ok ?t" using inv by (simp add: sched_inv_def bufs_ok_def)
  moreover have "sends_ok ?t"
    unfolding sends_ok_def
  proof (intro allI impI)
    fix x o1 assume "mSends ?t x = Some o1"
    then have "mSends s x = Some o1" by (simp split: if_splits)
    then have "sb_data (so_Buffer o1) \<noteq> [] \<and> length (sb_data (so_Buffer o1)) < 2 ^ 32 - 1 \<and> mLocalId (mForks s ! so_Fork o1) \<noteq> NOT 0"
      using inv unfolding sched_inv_def sends_ok_def by blast
    then show "sb_data (so_Buffer o1) \<noteq> [] \<and> length (sb_data (so_Buffer o1)) < 2 ^ 32 - 1 \<and> mLocalId (mForks ?t ! so_Fork o1) \<noteq> NOT 0"
      by simp
  qed
  moreover have "recv_total ?t = recv_total s"
  proof -
    have "map (\<lambda>f. unat (mSize (mRecvOps f))) (mForks ?t) = map (\<lambda>f. unat (mSize (mRecvOps f))) (mForks s)"
      by (cases "is_error ec"; rule nth_equalityI) simp_all
    then show ?thesis by (simp add: recv_total_def)
  qed
  ultimately have "sched_inv ?t r" using inv by (simp add: sched_inv_def)
  then show ?thesis by (simp add: after_send_def)
qed

text \<open>Changing the status of an operation is not seen by the invariants.\<close>

definition msg_sig :: "send_op \<Rightarrow> nat option \<times> nat \<times> send_buffer" where
  "msg_sig op = (so_CH op, so_Fork op, so_Buffer op)"

lemma set_send_sig:
  assumes "mSends s b = Some op" "msg_sig op' = msg_sig op" "so_Next op' = so_Next op" "so_Prev op' = so_Prev op"
  shows "map_option msg_sig (mSends (set_send b op' s) x) = map_option msg_sig (mSends s x)"
    "so_Next (the (mSends (set_send b op' s) x)) = so_Next (the (mSends s x))"
    "so_Prev (the (mSends (set_send b op' s) x)) = so_Prev (the (mSends s x))"
    "dom (mSends (set_send b op' s)) = dom (mSends s)"
  using assms by (auto simp: set_send_def)

lemma set_send_fields [simp]:
  "mForks (set_send b op s) = mForks s" "mRecvs (set_send b op s) = mRecvs s" "mBufs (set_send b op s) = mBufs s"
  "mTokens (set_send b op s) = mTokens s" "mFreshPtr (set_send b op s) = mFreshPtr s" "mExs (set_send b op s) = mExs s"
  "mEC (set_send b op s) = mEC s" "mOut (set_send b op s) = mOut s" "mSendBegin (set_send b op s) = mSendBegin s"
  "mSendLast (set_send b op s) = mSendLast s" "mNextSendOp (set_send b op s) = mNextSendOp s"
  "mSendStatus (set_send b op s) = mSendStatus s" "mSendRes (set_send b op s) = mSendRes s"
  by (simp_all add: set_send_def)

lemma rest_inv_set_send:
  assumes inv: "rest_inv s ch" and op: "mSends s b = Some op"
    and same: "msg_sig op' = msg_sig op" "so_Next op' = so_Next op" "so_Prev op' = so_Prev op"
  shows "rest_inv (set_send b op' s) ch"
proof -
  let ?s = "set_send b op' s"
  note sg = set_send_sig [OF op same]
  have core: "send_ok s ch" "recv_ok s" "cells_ok s" "ids_ok s" "count_ok s" "tails_ok s" "bufs_ok s" "sends_ok s"
    "recv_total s < 2 ^ 64"
    using inv by (simp_all add: rest_inv_def)
  have el: "so_CH (the (mSends ?s x)) = so_CH (the (mSends s x))" "fork_of ?s x = fork_of s x" for x
    using op same by (auto simp: set_send_def msg_sig_def fork_of_def)
  have orig: "\<exists>o1. mSends s x = Some o1 \<and> msg_sig o1 = msg_sig o2" if "mSends ?s x = Some o2" for x o2
    using sg(1) [of x] that by (cases "mSends s x") auto
  have "linked (mSends ?s) ch = linked (mSends s) ch" using sg(2,3) by (intro linked_cong) simp
  then have "send_ok ?s ch" using core(1) sg(4) el by (simp add: send_ok_def)
  moreover have "recv_ok ?s" using core(2) by (simp add: set_send_def)
  moreover have "cells_ok ?s"
    unfolding cells_ok_def
  proof (intro allI impI conjI)
    fix x o1 p assume x: "mSends ?s x = Some o1" and p: "sb_ex (so_Buffer o1) = Some p"
    obtain o1' where o1: "mSends s x = Some o1'" "sb_ex (so_Buffer o1') = Some p" using orig [OF x] p by (auto simp: msg_sig_def)
    show "mExs ?s p = None" using core(3) o1 by (simp add: cells_ok_def)
    show "rb_ex bb \<noteq> Some p" if "mRecvs ?s y = Some rop" "mBufs ?s (ro_Buffer rop) = Some bb" for y rop bb
      using core(3) o1 that unfolding cells_ok_def set_send_fields by blast
    fix y o2 assume y: "mSends ?s y = Some o2" "sb_ex (so_Buffer o2) = Some p"
    obtain o2' where "mSends s y = Some o2'" "sb_ex (so_Buffer o2') = Some p" using orig [OF y(1)] y(2) by (auto simp: msg_sig_def)
    then show "y = x" using core(3) o1 unfolding cells_ok_def by blast
  qed
  moreover have "ids_ok ?s" using core(4) by (simp add: set_send_def)
  moreover have "count_ok ?s" "recv_total ?s < 2 ^ 64" using core(5,9) by (simp_all add: set_send_def recv_total_def)
  moreover have "tails_ok ?s" "bufs_ok ?s" using core(6,7) by (simp_all add: tails_ok_def bufs_ok_def)
  moreover have "sends_ok ?s"
    unfolding sends_ok_def
  proof (intro allI impI)
    fix x o1 assume "mSends ?s x = Some o1"
    then obtain o1' where o: "mSends s x = Some o1'" "msg_sig o1' = msg_sig o1" using orig by blast
    have "sb_data (so_Buffer o1') \<noteq> [] \<and> length (sb_data (so_Buffer o1')) < 2 ^ 32 - 1 \<and> mLocalId (mForks s ! so_Fork o1') \<noteq> NOT 0"
      using core(8) o(1) unfolding sends_ok_def by blast
    then show "sb_data (so_Buffer o1) \<noteq> [] \<and> length (sb_data (so_Buffer o1)) < 2 ^ 32 - 1 \<and> mLocalId (mForks ?s ! so_Fork o1) \<noteq> NOT 0"
      using o(2) by (simp add: msg_sig_def)
  qed
  ultimately show ?thesis by (simp add: rest_inv_def)
qed

lemma sched_inv_set_send:
  assumes inv: "sched_inv s ch" and op: "mSends s b = Some op"
    and same: "op_sig op' = op_sig op" "so_Next op' = so_Next op" "so_Prev op' = so_Prev op"
  shows "sched_inv (set_send b op' s) ch"
proof -
  let ?s = "set_send b op' s"
  have rest: "rest_inv s ch" and tok: "token_inv s" using inv by (simp_all add: sched_inv_rest)
  have "msg_sig op' = msg_sig op" using same(1) by (simp add: op_sig_def msg_sig_def)
  from rest_inv_set_send [OF rest op this same(2,3)] have "rest_inv ?s ch" .
  moreover have "token_inv ?s"
  proof (rule token_inv_cong [OF tok])
    have "finite (dom (mSends s))" "finite (dom (mRecvs s))" using tok by (simp_all add: token_inv_def)
    then show "finite (dom (mSends ?s))" "finite (dom (mRecvs ?s))" using op by (simp_all add: set_send_def)
    show "map_option so_Flushes (mSends ?s x) = map_option so_Flushes (mSends s x)
        \<or> map_option so_Flushes (mSends ?s x) = Some [] \<and> mSends s x = None" for x
      using op same by (auto simp: set_send_def op_sig_def)
  qed simp_all
  ultimately show ?thesis by (simp add: sched_inv_rest)
qed

lemma send_phase_status:
  assumes "send_phase s (a # r) sp" and "x \<in> set r"
  shows "so_Status (the (mSends s x)) = NotStarted"
  using assms by (simp add: send_phase_def)

lemma next_send_inv:
  assumes inv: "sock_inv s (a # r) sp rp" and busy: "busy_op sp = Some a"
  shows "\<exists>s'. next_send (Some a) ec s = Inr s'
     \<and> sock_inv s' (if is_error ec \<or> is_error (mEC s) then [] else r) Await_Next rp
     \<and> (if is_error ec \<or> is_error (mEC s)
        then is_error (mEC s') \<and> (\<exists>out1 out2. mOut s' = mOut s @ done_send s a @ out1 @ out2 @ [Resume Send_Task None]
            \<and> no_user out1 \<and> completions s r out2)
        else mEC s' = mEC s \<and> keeps_forks s s'
          \<and> mOut s' = mOut s @ done_send s a @ (if r = [] then [] else [Resume Send_Task None])
          \<and> (\<forall>x. x \<noteq> a \<longrightarrow> map_option op_sig (mSends s' x) = map_option op_sig (mSends s x)))"
proof -
  have sinv: "sched_inv s (a # r)" and sp: "send_phase s (a # r) sp" and rp: "recv_phase s rp"
    using inv by (simp_all add: sock_inv_def)
  have core: "core_ok s (a # r)" and bg: "mSendBegin s = Some a" and nx: "\<not> mNextSendOp s"
    using sinv sp busy by (auto simp: sched_inv_def send_phase_def)
  have dist: "a \<notin> set r" using core by (simp add: core_ok_def send_ok_def)
  obtain op q where op: "mSends s a = Some op" "so_Fork op < length (mForks s)"
      "pop_front (mSendOps (mForks s ! so_Fork op)) = Inr q"
    and c: "complete_prev_send a ec s = Inr (if is_error ec then make_error_code Cancel else ec, after_send a r q ec s)"
    by (rule complete_prev_send_closed [OF core bg])
  let ?e = "if is_error ec then make_error_code Cancel else ec"
  let ?t = "after_send a r q ec s"
  have tinv: "sched_inv ?t r" by (rule after_send_inv [OF sinv op])
  have t: "mEC ?t = mEC s" "mSendBegin ?t = head_opt r" "mSendLast ?t = (if r = [] then None else mSendLast s)"
    "mNextSendOp ?t = mNextSendOp s" "mSends ?t = (mSends s)(a := None)" "mOut ?t = mOut s @ done_send s a"
    "length (mForks ?t) = length (mForks s)" "\<And>j. mRecvOps (mForks ?t ! j) = mRecvOps (mForks s ! j)"
    "\<And>j. mExecutor (mForks ?t ! j) = mExecutor (mForks s ! j)"
    by (simp_all add: after_send_def done_send_def)
  have trp: "recv_phase ?t rp"
    using rp recv_phase_cong [of ?t s rp] t by (simp add: after_send_def)
  have ns: "so_Status (the (mSends ?t x)) = NotStarted" if "x \<in> set r" for x
    using send_phase_status [OF sp that] that dist by (auto simp: t(5))
  have nsall: "\<forall>x \<in> set r. so_Status (the (mSends ?t x)) = NotStarted" using ns by blast
  have nxt: "\<not> mNextSendOp ?t" using nx by (simp add: t(4))
  have ebad: "is_error ?e \<longleftrightarrow> is_error ec" by simp
  have head_ns: "mSendBegin ?t = Some b \<Longrightarrow> \<exists>op'. mSends ?t b = Some op' \<and> so_Status op' = NotStarted" for b
  proof -
    assume "mSendBegin ?t = Some b"
    then obtain r' where r: "r = b # r'" using t(2) by (cases r) simp_all
    then have "b \<in> dom (mSends ?t)" using tinv by (simp add: sched_inv_simps send_ok_def)
    then show ?thesis using ns [of b] r by auto
  qed
  show ?thesis
  proof (cases "is_error ec \<or> is_error (mEC s)")
    case True
    then have err: "is_error ?e \<or> is_error (mEC ?t)" unfolding t(1) ebad .
    obtain s' out1 out2 where r: "cancel Sender ?e ?t = Inr s'" "sched_inv s' []" "recv_phase s' rp" "is_error (mEC s')"
      "mSendBegin s' = None" "mSendLast s' = None" "\<not> mNextSendOp s'" "mOut s' = mOut ?t @ out1 @ out2" "no_user out1"
      "completions ?t r out2" "told ?t r ?e (mExs s')" "mRecvs s' = mRecvs ?t"
      by (rule cancel_sender_inv [OF tinv nsall t(2) err trp nxt])
    let ?s' = "emit (Resume Send_Task None) (s'\<lparr>mSendRes := Some (Inl (make_error_code Closed))\<rparr>)"
    have n: "next_send (Some a) ec s = Inr ?s'"
      using c err r(1) head_ns by (auto simp: next_send_def split: option.split)
    have rph: "recv_phase ?s' rp" using r(3) recv_phase_cong [of "s'\<lparr>mSendRes := Some (Inl (make_error_code Closed))\<rparr>" s' rp] by simp
    have sph: "send_phase ?s' [] Await_Next" using r(4-7) by (simp add: send_phase_def active_op_def)
    have comp: "completions s r out2"
    proof -
      have "send_completion ?t x = send_completion s x" if "x \<in> set r" for x
        using that dist by (auto simp: send_completion_def fork_of_def t)
      then show ?thesis using r(10) completions_cong [of r ?t s out2] by simp
    qed
    have "\<exists>o1 o2. mOut ?s' = mOut s @ done_send s a @ o1 @ o2 @ [Resume Send_Task None] \<and> no_user o1 \<and> completions s r o2"
      using r(8,9) t(6) comp by (intro exI [of _ out1] exI [of _ out2]) simp
    then show ?thesis using True n r(2,4) rph sph by (intro exI [of _ ?s']) (simp add: sock_inv_def)
  next
    case False
    then have e: "\<not> is_error ?e" "\<not> is_error (mEC ?t)" by (simp_all add: t(1))
    show ?thesis
    proof (cases r)
      case Nil
      let ?s' = "?t\<lparr>mSendStatus := Idle, mNextSendOp := True\<rparr>"
      have "next_send (Some a) ec s = Inr ?s'" using c e t(2) Nil by (simp add: next_send_def)
      moreover have "send_phase ?s' [] Await_Next"
        using t e Nil by (simp add: send_phase_def active_op_def)
      moreover have "recv_phase ?s' rp" using trp recv_phase_cong [of ?s' ?t rp] by simp
      moreover have "keeps_forks s ?s'" using False op(2) by (simp add: keeps_forks_def after_send_def retire_send_def Let_def set_fork_def op(1) nth_list_update)
      ultimately show ?thesis
        using tinv False Nil t by (intro exI [of _ ?s']) (simp add: sock_inv_def)
    next
      case (Cons b r')
      then obtain op' where b: "mSends ?t b = Some op'" "so_Status op' = NotStarted" using head_ns t(2) by auto
      let ?s1 = "set_send b (op'\<lparr>so_Status := InProgress\<rparr>) ?t"
      let ?s' = "emit (Resume Send_Task None) (?s1\<lparr>mSendRes := Some (Inr b)\<rparr>)"
      have n: "next_send (Some a) ec s = Inr ?s'"
        using c e t(2) Cons b by (simp add: next_send_def send_setStatus_def)
      have sig: "map_option op_sig (mSends ?s1 x) = map_option op_sig (mSends ?t x)" for x
        using b(1) by (simp add: set_send_def op_sig_def)
      have "sched_inv ?s1 r" by (rule sched_inv_set_send [OF tinv b(1)]) (simp_all add: op_sig_def)
      then have "sched_inv ?s' r" by simp
      moreover have "send_phase ?s' r Await_Next"
      proof -
        have d: "b \<notin> set r'" using tinv Cons by (simp add: sched_inv_simps send_ok_def)
        have "so_Status (the (mSends ?s1 x)) = NotStarted" if "x \<in> set r'" for x
          using ns [of x] that d Cons by (auto simp: set_send_def)
        moreover have "mSendLast ?t = last_opt r" using t(3) sp Cons by (simp add: send_phase_def last_opt_def)
        ultimately show ?thesis
          using t(2,4) nx Cons by (simp add: send_phase_def active_op_def) (simp add: set_send_def)
      qed
      moreover have "recv_phase ?s' rp"
        using trp recv_phase_cong [of "?s1\<lparr>mSendRes := Some (Inr b)\<rparr>" ?t rp] by (simp add: set_send_def)
      moreover have "keeps_forks s ?s'"
        using False op(2) by (simp add: keeps_forks_def after_send_def retire_send_def Let_def op(1))
      moreover have "map_option op_sig (mSends ?s' x) = map_option op_sig (mSends s x)" if "x \<noteq> a" for x
        using sig [of x] that by (simp add: t(5))
      ultimately show ?thesis using False Cons n t by (intro exI [of _ ?s']) (simp add: sock_inv_def)
    qed
  qed
qed

end
