(* ===== verification/Sched_Recv.thy ===== *)
theory Sched_Recv
  imports Sched_Next
begin

text \<open>
  Receiving: \<^verbatim>\<open>recv\<close> appends to the queue of its fork and wakes a receive task that waits
  for any operation or for this fork; \<^verbatim>\<open>AnyRecvOp\<close> completes the operation that the task has
  filled; \<^verbatim>\<open>GetRequestedRecvSocketFork\<close> finds the operation for a header. All keep the
  invariants of the whole socket.
\<close>

section \<open>Appending to a receive queue\<close>

definition placed_recv :: "nat \<Rightarrow> recv_op \<Rightarrow> nat queue \<Rightarrow> sched \<Rightarrow> sched" where
  "placed_recv i op q s = set_recv (mFreshPtr s) op
     (set_fork i ((mForks s ! i)\<lparr>mRecvOps := q\<rparr>) (s\<lparr>mNumRecvs := mNumRecvs s + 1, mFreshPtr := mFreshPtr s + 1\<rparr>))"

lemma emplace_recv_cases:
  assumes "i < length (mForks s)" and "qinv (mRecvOps (mForks s ! i))"
  shows "emplace_recv i op (s\<lparr>mNumRecvs := mNumRecvs s + 1\<rparr>) = Inl Bad_Alloc
     \<or> (\<exists>q. emplace_recv i op (s\<lparr>mNumRecvs := mNumRecvs s + 1\<rparr>) = Inr (mFreshPtr s, placed_recv i op q s) \<and> qinv q \<and> tail_ok q
          \<and> qlist q = qlist (mRecvOps (mForks s ! i)) @ [mFreshPtr s])"
  using push_back_cases [OF assms(2), of "mFreshPtr s"] assms(1)
proof (elim disjE)
  assume "\<exists>q'. push_back (mFreshPtr s) (mRecvOps (mForks s ! i)) = Inr q' \<and> qinv q'
      \<and> qlist q' = qlist (mRecvOps (mForks s ! i)) @ [mFreshPtr s] \<and> queue_back q' = Inr (mFreshPtr s)"
  then obtain q where q: "push_back (mFreshPtr s) (mRecvOps (mForks s ! i)) = Inr q" "qinv q"
    "qlist q = qlist (mRecvOps (mForks s ! i)) @ [mFreshPtr s]" "queue_back q = Inr (mFreshPtr s)" by blast
  moreover have "tail_ok q" by (rule tail_ok_push [OF assms(2) q(1)])
  ultimately show ?thesis
    using assms(1) by (intro disjI2 exI [of _ q]) (simp add: emplace_recv_def fork_at_def placed_recv_def)
qed (simp add: emplace_recv_def fork_at_def)

lemma placed_recv_frame [simp]:
  "mNextLocal (placed_recv i op q s) = mNextLocal s"
  "mIdMap (placed_recv i op q s) = mIdMap s"
  "mRemoteMap (placed_recv i op q s) = mRemoteMap s"
  "mSendBegin (placed_recv i op q s) = mSendBegin s"
  "mSendLast (placed_recv i op q s) = mSendLast s"
  "mEC (placed_recv i op q s) = mEC s"
  "mRecvStatus (placed_recv i op q s) = mRecvStatus s"
  "mSendStatus (placed_recv i op q s) = mSendStatus s"
  "mNumRecvs (placed_recv i op q s) = mNumRecvs s + 1"
  "mNextSendOp (placed_recv i op q s) = mNextSendOp s"
  "mSendRes (placed_recv i op q s) = mSendRes s"
  "mAnyRecvOp (placed_recv i op q s) = mAnyRecvOp s"
  "mAnyRes (placed_recv i op q s) = mAnyRes s"
  "mGetReq (placed_recv i op q s) = mGetReq s"
  "mGetRes (placed_recv i op q s) = mGetRes s"
  "mSends (placed_recv i op q s) = mSends s"
  "mBufs (placed_recv i op q s) = mBufs s"
  "mExs (placed_recv i op q s) = mExs s"
  "mTokens (placed_recv i op q s) = mTokens s"
  "mOut (placed_recv i op q s) = mOut s"
  "mFreshPtr (placed_recv i op q s) = mFreshPtr s + 1"
  "mRecvs (placed_recv i op q s) = (mRecvs s)(mFreshPtr s \<mapsto> op)"
  "length (mForks (placed_recv i op q s)) = length (mForks s)"
  "mSendOps (mForks (placed_recv i op q s) ! j) = mSendOps (mForks s ! j)"
  "mExecutor (mForks (placed_recv i op q s) ! j) = mExecutor (mForks s ! j)"
  "mLocalId (mForks (placed_recv i op q s) ! j) = mLocalId (mForks s ! j)"
  "mRemoteId (mForks (placed_recv i op q s) ! j) = mRemoteId (mForks s ! j)"
  "mSessionID (mForks (placed_recv i op q s) ! j) = mSessionID (mForks s ! j)"
  "mInitiated (mForks (placed_recv i op q s) ! j) = mInitiated (mForks s ! j)"
  by (simp_all add: placed_recv_def set_recv_def) (simp_all add: set_fork_def)

lemma placed_recv_queue:
  "i < length (mForks s) \<Longrightarrow> mRecvOps (mForks (placed_recv i op q s) ! j) = (if j = i then q else mRecvOps (mForks s ! j))"
  by (simp add: placed_recv_def set_recv_def)

lemma recv_ok_fresh: "recv_ok s \<Longrightarrow> mRecvs s (mFreshPtr s) = None"
  unfolding recv_ok_def by (metis less_irrefl not_Some_eq)

lemma queue_recv_less:
  assumes "recv_ok s" and "j < length (mForks s)" and "x \<in> set (qlist (mRecvOps (mForks s ! j)))"
  shows "x < mFreshPtr s"
proof -
  obtain o1 where "mRecvs s x = Some o1" using assms unfolding recv_ok_def by blast
  then show ?thesis using assms(1) unfolding recv_ok_def by blast
qed

lemma recv_ok_snoc:
  assumes ok: "recv_ok s" and i: "i < length (mForks s)"
    and q: "qinv q" "qlist q = qlist (mRecvOps (mForks s ! i)) @ [mFreshPtr s]"
    and op: "ro_CH op \<noteq> None" "ro_Fork op = i" "mBufs s (ro_Buffer op) \<noteq> None"
  shows "recv_ok (placed_recv i op q s)"
proof -
  let ?a = "mFreshPtr s" and ?s = "placed_recv i op q s"
  have fresh: "mRecvs s ?a = None" by (rule recv_ok_fresh [OF ok])
  have qs: "mRecvOps (mForks ?s ! j) = (if j = i then q else mRecvOps (mForks s ! j))" for j
    by (rule placed_recv_queue [OF i])
  have notin: "?a \<notin> set (qlist (mRecvOps (mForks s ! j)))" if "j < length (mForks s)" for j
    using queue_recv_less [OF ok that, of ?a] by blast
  show ?thesis
    unfolding recv_ok_def
  proof (intro conjI allI impI ballI)
    fix j assume "j < length (mForks ?s)"
    then have j: "j < length (mForks s)" by simp
    then have old: "qinv (mRecvOps (mForks s ! j))" "distinct (qlist (mRecvOps (mForks s ! j)))"
      "\<And>x. x \<in> set (qlist (mRecvOps (mForks s ! j))) \<Longrightarrow> \<exists>o1. mRecvs s x = Some o1 \<and> ro_Fork o1 = j"
      using ok unfolding recv_ok_def by blast+
    show "qinv (mRecvOps (mForks ?s ! j))" "distinct (qlist (mRecvOps (mForks ?s ! j)))"
      using old(1,2) q notin [OF i] by (auto simp: qs)
    fix x assume x: "x \<in> set (qlist (mRecvOps (mForks ?s ! j)))"
    show "\<exists>o1. mRecvs ?s x = Some o1 \<and> ro_Fork o1 = j"
    proof (cases "x = ?a")
      case True
      then have "j = i" using x notin [OF j] by (auto simp: qs split: if_splits)
      then show ?thesis using True op(2) by simp
    next
      case False
      then have "x \<in> set (qlist (mRecvOps (mForks s ! j)))" using x q(2) by (auto simp: qs split: if_splits)
      then show ?thesis using old(3) False by simp
    qed
  next
    fix x o1 assume x: "mRecvs ?s x = Some o1"
    have "ro_CH o1 \<noteq> None \<and> ro_Fork o1 < length (mForks s) \<and> x \<in> set (qlist (mRecvOps (mForks ?s ! ro_Fork o1)))
        \<and> mBufs s (ro_Buffer o1) \<noteq> None \<and> x < ?a + 1"
    proof (cases "x = ?a")
      case True
      then have "o1 = op" using x by simp
      then show ?thesis using True op i q(2) qs [of i] by simp
    next
      case False
      then have "mRecvs s x = Some o1" using x by simp
      then have "ro_CH o1 \<noteq> None" "ro_Fork o1 < length (mForks s)" "x \<in> set (qlist (mRecvOps (mForks s ! ro_Fork o1)))"
        "mBufs s (ro_Buffer o1) \<noteq> None" "x < ?a"
        using ok unfolding recv_ok_def by blast+
      then show ?thesis using q(2) by (auto simp: qs)
    qed
    then show "ro_CH o1 \<noteq> None" "ro_Fork o1 < length (mForks ?s)" "x \<in> set (qlist (mRecvOps (mForks ?s ! ro_Fork o1)))"
        "mBufs ?s (ro_Buffer o1) \<noteq> None" "x < mFreshPtr ?s"
      by simp_all
  qed
qed

lemma placed_recv_total:
  assumes "recv_ok s" and i: "i < length (mForks s)"
    and q: "qinv q" "qlist q = qlist (mRecvOps (mForks s ! i)) @ [mFreshPtr s]"
  shows "recv_total (placed_recv i op q s) = Suc (recv_total s)"
proof -
  let ?g = "\<lambda>f. unat (mSize (mRecvOps f))"
  let ?xs = "mForks (placed_recv i op q s)"
  have x: "?xs = (mForks s)[i := (mForks s ! i)\<lparr>mRecvOps := q\<rparr>]" by (simp add: placed_recv_def set_recv_def set_fork_def)
  have "qinv (mRecvOps (mForks s ! i))" using assms(1) i by (simp add: recv_ok_def)
  then have "?g (?xs ! i) = Suc (?g (mForks s ! i))" using q i by (simp add: x qinv_simps)
  moreover have "?xs[i := mForks s ! i] = mForks s" by (simp add: x)
  ultimately show ?thesis
    using sum_list_update_Suc [of i ?xs ?g "mForks s ! i"] i by (simp add: recv_total_def)
qed

text \<open>A buffer that the caller of \<^verbatim>\<open>recv\<close> owns and no pending operation uses.\<close>

definition fresh_recv_buffer :: "sched \<Rightarrow> nat \<Rightarrow> bool" where
  "fresh_recv_buffer s d \<longleftrightarrow> (\<exists>b p. mBufs s d = Some b \<and> rb_ex b = Some p \<and> unused_cell s p)
     \<and> (\<forall>a op. mRecvs s a = Some op \<longrightarrow> ro_Buffer op \<noteq> d)"

lemma placed_recv_inv:
  assumes inv: "sched_inv s ch" and i: "i < length (mForks s)"
    and q: "qinv q" "tail_ok q" "qlist q = qlist (mRecvOps (mForks s ! i)) @ [mFreshPtr s]"
    and op: "ro_CH op \<noteq> None" "ro_Fork op = i" "ro_Flushes op = []" "fresh_recv_buffer s (ro_Buffer op)"
    and room: "Suc (recv_total s) < 2 ^ 64"
  shows "sched_inv (placed_recv i op q s) ch"
proof -
  let ?a = "mFreshPtr s" and ?s = "placed_recv i op q s"
  have core: "send_ok s ch" "recv_ok s" "token_inv s" "cells_ok s" "ids_ok s" "count_ok s" "tails_ok s" "bufs_ok s" "sends_ok s"
    using inv by (simp_all add: sched_inv_simps)
  have fresh: "mRecvs s ?a = None" by (rule recv_ok_fresh [OF core(2)])
  obtain b p where b: "mBufs s (ro_Buffer op) = Some b" "rb_ex b = Some p" "unused_cell s p"
    and own: "\<And>x o1. mRecvs s x = Some o1 \<Longrightarrow> ro_Buffer o1 \<noteq> ro_Buffer op"
    using op(4) unfolding fresh_recv_buffer_def by blast
  have "send_ok ?s ch" using core(1) by (auto simp: send_ok_def fork_of_def less_SucI)
  moreover have "recv_ok ?s" using recv_ok_snoc [OF core(2) i q(1,3) op(1,2)] b(1) by simp
  moreover have "token_inv ?s"
  proof (rule token_inv_cong [OF core(3)])
    have "finite (dom (mSends s))" "finite (dom (mRecvs s))" using core(3) by (simp_all add: token_inv_def)
    then show "finite (dom (mSends ?s))" "finite (dom (mRecvs ?s))" by simp_all
  qed (use op(3) fresh in simp_all)
  moreover have "cells_ok ?s"
    unfolding cells_ok_def
  proof (intro allI impI conjI)
    fix x o1 p' assume x: "mSends ?s x = Some o1" "sb_ex (so_Buffer o1) = Some p'"
    then have x': "mSends s x = Some o1" by simp
    show "mExs ?s p' = None" using core(4) x' x(2) by (simp add: cells_ok_def)
    show "y = x" if "mSends ?s y = Some o2" "sb_ex (so_Buffer o2) = Some p'" for y o2
      using core(4) x' x(2) that unfolding cells_ok_def placed_recv_frame by blast
    fix y rop bb assume y: "mRecvs ?s y = Some rop" "mBufs ?s (ro_Buffer rop) = Some bb"
    show "rb_ex bb \<noteq> Some p'"
    proof (cases "y = ?a")
      case True
      then have "bb = b" using y b(1) by simp
      then show ?thesis using b(2,3) x' x(2) unfolding unused_cell_def by (metis option.sel)
    next
      case False
      then show ?thesis using core(4) x' x(2) y unfolding cells_ok_def by simp
    qed
  qed
  moreover have "ids_ok ?s" using core(5) by (simp add: ids_ok_def)
  moreover have tot: "recv_total ?s = Suc (recv_total s)" by (rule placed_recv_total [OF core(2) i q(1,3)])
  moreover have "count_ok ?s" using core(6) tot by (simp add: count_ok_def)
  moreover have "tails_ok ?s" using core(7) q(2) i by (simp add: tails_ok_def placed_recv_queue)
  moreover have "bufs_ok ?s"
    unfolding bufs_ok_def
  proof (intro allI impI conjI)
    fix x o1 assume x: "mRecvs ?s x = Some o1"
    show "\<exists>b. mBufs ?s (ro_Buffer o1) = Some b"
      using x b core(8) unfolding bufs_ok_def by (cases "x = ?a") auto
    fix y o2 assume y: "mRecvs ?s y = Some o2" "ro_Buffer o2 = ro_Buffer o1"
    consider "x = ?a" "y = ?a" | "x = ?a" "mRecvs s y = Some o2" | "mRecvs s x = Some o1" "y = ?a"
      | "mRecvs s x = Some o1" "mRecvs s y = Some o2"
      using x y(1) by (auto split: if_splits)
    then show "y = x"
    proof cases
      case 2
      then show ?thesis using x y(2) own [of y o2] by simp
    next
      case 3
      then show ?thesis using y own [of x o1] by simp
    next
      case 4
      then show ?thesis using core(8) y(2) unfolding bufs_ok_def by blast
    qed simp
  qed
  moreover have "sends_ok ?s" using core(9) by (simp add: sends_ok_def)
  ultimately show ?thesis using room by (simp add: sched_inv_simps)
qed

section \<open>Receive\<close>

lemma set_recv_fields [simp]:
  "mForks (set_recv b op s) = mForks s" "mSends (set_recv b op s) = mSends s" "mBufs (set_recv b op s) = mBufs s"
  "mTokens (set_recv b op s) = mTokens s" "mFreshPtr (set_recv b op s) = mFreshPtr s" "mExs (set_recv b op s) = mExs s"
  "mEC (set_recv b op s) = mEC s" "mOut (set_recv b op s) = mOut s" "mRecvStatus (set_recv b op s) = mRecvStatus s"
  "mAnyRecvOp (set_recv b op s) = mAnyRecvOp s" "mAnyRes (set_recv b op s) = mAnyRes s" "mGetReq (set_recv b op s) = mGetReq s"
  "mGetRes (set_recv b op s) = mGetRes s" "mNumRecvs (set_recv b op s) = mNumRecvs s" "mRemoteMap (set_recv b op s) = mRemoteMap s"
  "mIdMap (set_recv b op s) = mIdMap s" "mSendBegin (set_recv b op s) = mSendBegin s" "mSendLast (set_recv b op s) = mSendLast s"
  "mNextSendOp (set_recv b op s) = mNextSendOp s" "mSendRes (set_recv b op s) = mSendRes s" "mSendStatus (set_recv b op s) = mSendStatus s"
  "mRecvs (set_recv b op s) = (mRecvs s)(b \<mapsto> op)"
  by (simp_all add: set_recv_def)

definition rop_sig :: "recv_op \<Rightarrow> nat option \<times> nat \<times> nat \<times> nat list" where
  "rop_sig op = (ro_CH op, ro_Fork op, ro_Buffer op, ro_Flushes op)"

definition rmsg_sig :: "recv_op \<Rightarrow> nat option \<times> nat \<times> nat" where
  "rmsg_sig op = (ro_CH op, ro_Fork op, ro_Buffer op)"

lemma rest_inv_set_recv:
  assumes inv: "rest_inv s ch" and op: "mRecvs s b = Some op" and same: "rmsg_sig op' = rmsg_sig op"
  shows "rest_inv (set_recv b op' s) ch"
proof -
  let ?s = "set_recv b op' s"
  have core: "send_ok s ch" "recv_ok s" "cells_ok s" "ids_ok s" "count_ok s" "tails_ok s" "bufs_ok s" "sends_ok s"
    "recv_total s < 2 ^ 64"
    using inv by (simp_all add: rest_inv_def)
  have sg: "ro_CH op' = ro_CH op" "ro_Fork op' = ro_Fork op" "ro_Buffer op' = ro_Buffer op"
    using same by (simp_all add: rmsg_sig_def)
  have orig: "\<exists>o1. mRecvs s x = Some o1 \<and> rmsg_sig o1 = rmsg_sig o2" if "mRecvs ?s x = Some o2" for x o2
    using that op same by (cases "x = b") auto
  have "send_ok ?s ch" using core(1) by (simp add: send_ok_def fork_of_def)
  moreover have "recv_ok ?s"
    unfolding recv_ok_def
  proof (intro conjI allI impI ballI)
    fix j assume "j < length (mForks ?s)"
    then have j: "j < length (mForks s)" by simp
    show "qinv (mRecvOps (mForks ?s ! j))" "distinct (qlist (mRecvOps (mForks ?s ! j)))"
      using core(2) j by (simp_all add: recv_ok_def)
    fix x assume "x \<in> set (qlist (mRecvOps (mForks ?s ! j)))"
    then obtain o1 where "mRecvs s x = Some o1" "ro_Fork o1 = j" using core(2) j unfolding recv_ok_def by auto
    then show "\<exists>o1. mRecvs ?s x = Some o1 \<and> ro_Fork o1 = j" using op sg by (cases "x = b") auto
  next
    fix x o2 assume "mRecvs ?s x = Some o2"
    then obtain o1 where o1: "mRecvs s x = Some o1" "rmsg_sig o1 = rmsg_sig o2" using orig by blast
    then have "ro_CH o1 \<noteq> None" "ro_Fork o1 < length (mForks s)" "x \<in> set (qlist (mRecvOps (mForks s ! ro_Fork o1)))"
        "mBufs s (ro_Buffer o1) \<noteq> None" "x < mFreshPtr s"
      using core(2) unfolding recv_ok_def by blast+
    then show "ro_CH o2 \<noteq> None" "ro_Fork o2 < length (mForks ?s)" "x \<in> set (qlist (mRecvOps (mForks ?s ! ro_Fork o2)))"
        "mBufs ?s (ro_Buffer o2) \<noteq> None" "x < mFreshPtr ?s"
      using o1(2) by (simp_all add: rmsg_sig_def)
  qed
  moreover have "cells_ok ?s"
    unfolding cells_ok_def set_recv_fields(2-6)
  proof (intro allI impI conjI)
    fix x o1 p assume x: "mSends s x = Some o1" "sb_ex (so_Buffer o1) = Some p"
    show "mExs s p = None" using core(3) x by (simp add: cells_ok_def)
    show "y = x" if "mSends s y = Some o2" "sb_ex (so_Buffer o2) = Some p" for y o2
      using core(3) x that unfolding cells_ok_def by blast
    fix y rop bb assume y: "mRecvs ?s y = Some rop" "mBufs s (ro_Buffer rop) = Some bb"
    obtain r1 where "mRecvs s y = Some r1" "rmsg_sig r1 = rmsg_sig rop" using orig [OF y(1)] by blast
    then have "mRecvs s y = Some r1" "mBufs s (ro_Buffer r1) = Some bb" using y(2) by (simp_all add: rmsg_sig_def)
    then show "rb_ex bb \<noteq> Some p" using core(3) x unfolding cells_ok_def by blast
  qed
  moreover have "ids_ok ?s" using core(4) by (simp add: ids_ok_def)
  moreover have "recv_total ?s = recv_total s" by (simp add: recv_total_def)
  moreover have "tails_ok ?s" "sends_ok ?s" using core(6,8) by (simp_all add: tails_ok_def sends_ok_def)
  moreover have "bufs_ok ?s"
    unfolding bufs_ok_def
  proof (intro allI impI conjI)
    fix x o2 assume "mRecvs ?s x = Some o2"
    then obtain o1 where o1: "mRecvs s x = Some o1" "rmsg_sig o1 = rmsg_sig o2" using orig by blast
    then have "\<exists>b. mBufs s (ro_Buffer o1) = Some b" using core(7) unfolding bufs_ok_def by blast
    then show "\<exists>b. mBufs ?s (ro_Buffer o2) = Some b" using o1(2) by (simp add: rmsg_sig_def)
    fix y o3 assume y: "mRecvs ?s y = Some o3" "ro_Buffer o3 = ro_Buffer o2"
    then obtain o3' where "mRecvs s y = Some o3'" "rmsg_sig o3' = rmsg_sig o3" using orig by blast
    then have "mRecvs s y = Some o3'" "ro_Buffer o3' = ro_Buffer o1" using y(2) o1(2) by (simp_all add: rmsg_sig_def)
    then show "y = x" using core(7) o1(1) unfolding bufs_ok_def by blast
  qed
  moreover have "count_ok ?s" using core(5) by (simp add: count_ok_def recv_total_def)
  ultimately show ?thesis using core(9) by (simp add: rest_inv_def)
qed

lemma sched_inv_set_recv:
  assumes inv: "sched_inv s ch" and op: "mRecvs s b = Some op" and same: "rop_sig op' = rop_sig op"
  shows "sched_inv (set_recv b op' s) ch"
proof -
  let ?s = "set_recv b op' s"
  have rest: "rest_inv s ch" and tok: "token_inv s" using inv by (simp_all add: sched_inv_rest)
  have "rmsg_sig op' = rmsg_sig op" and sg: "ro_Flushes op' = ro_Flushes op" using same by (simp_all add: rop_sig_def rmsg_sig_def)
  from rest_inv_set_recv [OF rest op this(1)] have "rest_inv ?s ch" .
  moreover have "token_inv ?s"
  proof (rule token_inv_cong [OF tok])
    have "finite (dom (mSends s))" "finite (dom (mRecvs s))" using tok by (simp_all add: token_inv_def)
    then show "finite (dom (mSends ?s))" "finite (dom (mRecvs ?s))" by simp_all
    show "map_option ro_Flushes (mRecvs ?s x) = map_option ro_Flushes (mRecvs s x)
        \<or> map_option ro_Flushes (mRecvs ?s x) = Some [] \<and> mRecvs s x = None" for x
      using op sg by simp
  qed simp_all
  ultimately show ?thesis by (simp add: sched_inv_rest)
qed

text \<open>Appending to a receive queue keeps what the task was handed, and other forks stay idle.\<close>

lemma placed_recv_front:
  assumes i: "i < length (mForks s)" and q: "qlist q = qlist (mRecvOps (mForks s ! i)) @ [mFreshPtr s]"
  shows "recv_front s r a \<Longrightarrow> recv_front (placed_recv i op q s) r a"
    and "get_ok s r v \<Longrightarrow> get_ok (placed_recv i op q s) r v"
    and "fork_idle s r \<Longrightarrow> mRemoteMap s r \<noteq> Some i \<Longrightarrow> fork_idle (placed_recv i op q s) r"
proof -
  show fr: "recv_front s r a \<Longrightarrow> recv_front (placed_recv i op q s) r a" for r a
    using q by (auto simp: recv_front_def placed_recv_queue [OF i])
  show "get_ok s r v \<Longrightarrow> get_ok (placed_recv i op q s) r v"
    using fr by (auto simp: get_ok_def split: option.splits sum.splits)
  show "fork_idle s r \<Longrightarrow> mRemoteMap s r \<noteq> Some i \<Longrightarrow> fork_idle (placed_recv i op q s) r"
    by (auto simp: fork_idle_def placed_recv_queue [OF i])
qed

lemma recv_phase_shape:
  assumes "recv_phase s rp" and "mAnyRecvOp s"
  shows "rp = Await_Any" "mGetReq s = None"
proof -
  show "rp = Await_Any" using recv_phaseD(1) [OF assms] by simp
  then show "mGetReq s = None" using recv_phaseD(2) [OF assms(1)] by (cases "mGetReq s") auto
qed

lemma match_recv_inv:
  assumes inv: "sock_inv s ch sp rp" and i: "i < length (mForks s)" and err: "\<not> is_error (mEC s)"
    and q: "qinv q" "tail_ok q" "qlist q = qlist (mRecvOps (mForks s ! i)) @ [mFreshPtr s]"
    and d: "fresh_recv_buffer s d" and room: "Suc (recv_total s) < 2 ^ 64"
  shows "\<exists>s'. match_recv i (mFreshPtr s) (placed_recv i (new_recv_op d h i) q s) = Inr s' \<and> sock_inv s' ch sp rp
     \<and> mForks s' = mForks (placed_recv i (new_recv_op d h i) q s) \<and> mEC s' = mEC s
     \<and> mSends s' = mSends s \<and> mExs s' = mExs s \<and> mBufs s' = mBufs s \<and> mRemoteMap s' = mRemoteMap s \<and> mIdMap s' = mIdMap s
     \<and> (\<forall>x. map_option rop_sig (mRecvs s' x) = map_option rop_sig (if x = mFreshPtr s then Some (new_recv_op d h i) else mRecvs s x))"
proof -
  let ?a = "mFreshPtr s" and ?op = "new_recv_op d h i"
  let ?s1 = "placed_recv i ?op q s" and ?op' = "?op\<lparr>ro_Status := InProgress\<rparr>"
  have sinv: "sched_inv s ch" and sp: "send_phase s ch sp" and rp: "recv_phase s rp" using inv by (simp_all add: sock_inv_def)
  have s1: "sched_inv ?s1 ch" by (rule placed_recv_inv [OF sinv i q _ _ _ _ room]) (use d in \<open>simp_all add: new_recv_op_def\<close>)
  have s2: "sched_inv (set_recv ?a ?op' ?s1) ch"
    by (rule sched_inv_set_recv [OF s1, of _ ?op]) (simp_all add: rop_sig_def)
  have fi: "fork_at i ?s1 = Inr (mForks ?s1 ! i)" using i by (simp add: fork_at_def)
  note front = placed_recv_front [OF i q(3)]
  have sph: "send_phase s' ch sp" if "mSendBegin s' = mSendBegin s" "mSendLast s' = mSendLast s" "mSends s' = mSends s"
    "mNextSendOp s' = mNextSendOp s" "mSendRes s' = mSendRes s" "mSendStatus s' = mSendStatus s" "mEC s' = mEC s" for s'
    using sp send_phase_cong [of s' s ch sp] that by simp
  have ids: "mRemoteMap s r = Some j \<longleftrightarrow> j < length (mForks s) \<and> mRemoteId (mForks s ! j) = r \<and> r \<noteq> NOT 0" for r j
    using sinv unfolding sched_inv_simps ids_ok_def by blast
  show ?thesis
  proof (cases "mAnyRecvOp s")
    case True
    note sh = recv_phase_shape [OF rp True]
    let ?s' = "wake_any (make_error_code Success) (mExecutor (mForks ?s1 ! i)) ((set_recv ?a ?op' ?s1)\<lparr>mRecvStatus := InUse\<rparr>)"
    have "match_recv i ?a ?s1 = Inr ?s'"
      using True sh recv_phaseD(1) [OF rp True] fi
      by (simp add: match_recv_def recv_setStatus_def wake_any_def) (simp add: set_recv_def)
    moreover have "sched_inv ?s' ch" using s2 by (simp add: wake_any_def)
    moreover have "send_phase ?s' ch sp" by (rule sph) (simp_all add: wake_any_def)
    moreover have "recv_phase ?s' rp"
      using sh by (intro recv_phaseI) (simp_all add: wake_any_def)
    ultimately show ?thesis
      by (intro exI [of _ ?s']) (simp add: sock_inv_def wake_any_def rop_sig_def)
  next
    case False
    show ?thesis
    proof (cases "mGetReq s = Some (mRemoteId (mForks s ! i))")
      case True
      let ?r = "mRemoteId (mForks s ! i)"
      from recv_phaseD(2) [OF rp True] obtain hd where hd: "rp = Await_Fork hd" "hForkId hd = ?r"
        "mRecvStatus s = RequestedRecvOp" "fork_idle s ?r" by blast
      obtain j where j: "mRemoteMap s ?r = Some j" "qlist (mRecvOps (mForks s ! j)) = []"
        using hd(4) by (auto simp: fork_idle_def)
      then have "?r \<noteq> NOT 0" using ids by blast
      then have ij: "mRemoteMap s ?r = Some i" using ids i by blast
      then have "qlist (mRecvOps (mForks s ! i)) = []" using j by simp
      then have fr: "recv_front ?s1 ?r ?a"
        using ij i q(3) by (simp add: recv_front_def placed_recv_queue)
      let ?s' = "wake_get (Inr ?a) (mExecutor (mForks ?s1 ! i)) ((set_recv ?a ?op' ?s1)\<lparr>mRecvStatus := InUse\<rparr>)"
      have "match_recv i ?a ?s1 = Inr ?s'"
        using True False hd fi
        by (simp add: match_recv_def recv_setStatus_def wake_get_def) (simp add: set_recv_def)
      moreover have "sched_inv ?s' ch" using s2 by (simp add: wake_get_def)
      moreover have "send_phase ?s' ch sp" by (rule sph) (simp_all add: wake_get_def)
      moreover have "recv_front ?s' ?r ?a" using fr by (simp add: recv_front_def wake_get_def)
      then have "recv_phase ?s' rp"
        using hd False by (intro recv_phaseI) (simp_all add: wake_get_def)
      ultimately show ?thesis
        by (intro exI [of _ ?s']) (simp add: sock_inv_def wake_get_def rop_sig_def)
    next
      case no: False
      have "match_recv i ?a ?s1 = Inr ?s1" using False no fi by (simp add: match_recv_def)
      moreover have "send_phase ?s1 ch sp" by (rule sph) simp_all
      moreover have "recv_phase ?s1 rp"
      proof (rule recv_phaseI)
        show "(\<exists>h. rp = Await_Fork h \<and> hForkId h = r) \<and> mRecvStatus ?s1 = RequestedRecvOp \<and> \<not> is_error (mEC ?s1) \<and> fork_idle ?s1 r"
          if "mGetReq ?s1 = Some r" for r
        proof -
          have r: "mGetReq s = Some r" using that by simp
          have "mRemoteMap s r \<noteq> Some i" using ids r no by metis
          then show ?thesis using recv_phaseD(2) [OF rp r] front(3) by simp
        qed
        show "\<exists>e. mAnyRes ?s1 = Some e \<and> (is_error e \<longrightarrow> is_error (mEC ?s1))" if "rp = Await_Any" "\<not> mAnyRecvOp ?s1"
          using recv_phaseD(3) [OF rp that(1)] that(2) by simp
        show "get_ok ?s1 (hForkId h) (mGetRes ?s1)" if "rp = Await_Fork h" "mGetReq ?s1 = None" for h
          using recv_phaseD(4) [OF rp that(1)] that(2) front(2) by simp
        show "recv_front ?s1 (hForkId h) x" if "rp = Reading_Body h x" for h x
          using recv_phaseD(5) [OF rp that] by (rule front(1))
      qed (use False in simp)
      ultimately show ?thesis using s1 by (intro exI [of _ ?s1]) (simp add: sock_inv_def)
    qed
  qed
qed

section \<open>The receive task asks for more work\<close>

definition after_recv :: "nat \<Rightarrow> nat queue \<Rightarrow> error_code \<Rightarrow> sched \<Rightarrow> sched" where
  "after_recv a q ec s = (let op = the (mRecvs s a); b = the (mBufs s (ro_Buffer op)) in
     (retire_recv a q (s\<lparr>mRecvSrc := True, mExs := (if is_error ec then recv_setError b ec (mExs s) else mExs s)\<rparr>))
       \<lparr>mNumRecvs := mNumRecvs s - 1\<rparr>)"

lemma recv_total_pos:
  assumes "recv_ok s" "i < length (mForks s)" "qlist (mRecvOps (mForks s ! i)) = a # q"
  shows "0 < recv_total s"
proof -
  have "qinv (mRecvOps (mForks s ! i))" using assms(1,2) by (simp add: recv_ok_def)
  then have "0 < unat (mSize (mRecvOps (mForks s ! i)))" using assms(3) by (simp add: qinv_simps)
  also have "\<dots> \<le> recv_total s"
    unfolding recv_total_def
    using elem_le_sum_list [of i "map (\<lambda>f. unat (mSize (mRecvOps f))) (mForks s)"] assms(2) by simp
  finally show ?thesis .
qed

lemma count_nonzero: "count_ok s \<Longrightarrow> recv_total s < 2 ^ 64 \<Longrightarrow> mNumRecvs s = 0 \<longleftrightarrow> recv_total s = 0"
  by (simp add: count_ok_def word_of_nat_eq_0_iff) (metis dvd_imp_le not_le gr0I dvd_0_right)

lemma complete_prev_recv_closed:
  assumes inv: "sched_inv s ch" and i: "i < length (mForks s)" and ne: "qlist (mRecvOps (mForks s ! i)) = a # r"
  obtains op b q where "mRecvs s a = Some op" "ro_Fork op = i" "mBufs s (ro_Buffer op) = Some b"
    "pop_front (mRecvOps (mForks s ! i)) = Inr q" "qinv q" "qlist q = r"
    "complete_prev_recv a ec s = Inr (if is_error ec then make_error_code Cancel else ec, after_recv a q ec s)"
    "sched_inv (after_recv a q ec s) ch"
proof -
  have core: "core_ok s ch" "recv_ok s" "count_ok s" using inv by (simp_all add: sched_inv_simps)
  obtain op q0 where op: "mRecvs s a = Some op" "ro_Fork op = i" "mBufs s (ro_Buffer op) \<noteq> None"
    and pop: "pop_front (mRecvOps (mForks s ! i)) = Inr q0"
    using recv_ok_front [OF core(2) i ne] by metis
  then obtain b where b: "mBufs s (ro_Buffer op) = Some b" by blast
  let ?ex = "if is_error ec then recv_setError b ec (mExs s) else mExs s"
  let ?s = "s\<lparr>mRecvSrc := True, mExs := ?ex\<rparr>"
  have "core_ok (s\<lparr>mExs := recv_setError b ec (mExs s)\<rparr>) ch"
    using core(1) cells_ok_recv_error [OF _ op(1) b] by (simp add: core_ok_def)
  moreover have "cells_ok (s\<lparr>mRecvSrc := True, mExs := e\<rparr>) = cells_ok (s\<lparr>mExs := e\<rparr>)" for e
    by (simp add: cells_ok_def)
  ultimately have ok': "core_ok ?s ch" using core(1) by (simp add: core_ok_def)
  have pre: "recv_ok ?s" "token_inv ?s" "i < length (mForks ?s)" "qlist (mRecvOps (mForks ?s ! i)) = a # r"
    using ok' i ne by (simp_all add: core_ok_def)
  obtain op' q where o: "mRecvs ?s a = Some op'" "ro_Fork op' = i" "mBufs ?s (ro_Buffer op') \<noteq> None"
    "queue_front (mRecvOps (mForks ?s ! i)) = Inr a" "completeOn_recv a ?s = Inr (finish_recv a ?s)"
    "pop_front_recv i (finish_recv a ?s) = Inr (retire_recv a q ?s)" "qinv q" "qlist q = r"
    by (rule complete_pop_recv [OF pre])
  have q: "q = q0"
  proof -
    let ?u = "finish_recv a ?s"
    have f: "mForks ?u = mForks s" by (simp add: finish_recv_def Let_def)
    have "pop_front_recv i ?u = Inr (set_fork i ((mForks s ! i)\<lparr>mRecvOps := q0\<rparr>) (?u\<lparr>mRecvs := (mRecvs ?u)(a := None)\<rparr>))"
      using o(4) pop i by (simp add: pop_front_recv_def fork_at_def f)
    then have "retire_recv a q ?s = set_fork i ((mForks s ! i)\<lparr>mRecvOps := q0\<rparr>) (?u\<lparr>mRecvs := (mRecvs ?u)(a := None)\<rparr>)"
      unfolding o(6) by (rule sum.inject(2) [THEN iffD1])
    then have "mRecvOps (mForks (retire_recv a q ?s) ! i) = q0" by (simp only:) (simp add: f i)
    then show ?thesis using retire_recv_queue [of ?s a op' q i] o(1,2) i by simp
  qed
  have nz: "mNumRecvs s \<noteq> 0" using recv_total_pos [OF core(2) i ne] count_nonzero [OF core(3)] inv by (simp add: sched_inv_def)
  have qz: "queue_size (mRecvOps (mForks s ! i)) \<noteq> 0"
    using core(2) i ne mSize_zero_iff [of "mRecvOps (mForks s ! i)"] by (simp add: recv_ok_def queue_size_def)
  have src: "recv_op_setError a ec (s\<lparr>mRecvSrc := True\<rparr>) = Inr (s\<lparr>mRecvSrc := True, mExs := recv_setError b ec (mExs s)\<rparr>)"
    using op(1) b by (simp add: recv_op_setError_def)
  have eq: "(retire_recv a q ?s)\<lparr>mNumRecvs := mNumRecvs s - 1\<rparr> = after_recv a q ec s"
    by (simp add: after_recv_def Let_def op(1) b)
  have "complete_prev_recv a ec s = Inr (if is_error ec then make_error_code Cancel else ec, after_recv a q ec s)"
    using o op(1,2) nz qz i src unfolding eq [symmetric]
    by (cases "is_error ec") (simp_all add: complete_prev_recv_def fork_at_def Let_def)
  moreover have "sched_inv (after_recv a q ec s) ch"
  proof -
    let ?t = "retire_recv a q ?s"
    have c: "core_ok ?t ch" by (rule core_ok_retire_recv [OF ok' pre(3,4) o(1,2,7,8)])
    have tot: "recv_total s = Suc (recv_total ?t)"
      using retire_recv_total [OF pre(1,3,4) o(1,2,7,8)] by (simp add: recv_total_def)
    then have "count_ok (?t\<lparr>mNumRecvs := mNumRecvs s - 1\<rparr>)"
      using core(3) by (simp add: count_ok_def recv_total_def)
    moreover have "tails_ok ?t"
      unfolding tails_ok_def
    proof (intro allI impI conjI)
      fix j assume "j < length (mForks ?t)"
      then have t: "tail_ok (mRecvOps (mForks s ! j))" "tail_ok (mSendOps (mForks s ! j))" "qinv (mRecvOps (mForks s ! j))"
        using inv core(2) by (simp_all add: sched_inv_def tails_ok_def recv_ok_def)
      then show "tail_ok (mRecvOps (mForks ?t ! j))"
        using tail_ok_pop [OF _ _ pop] q retire_recv_queue [of ?s a op' q j] o(1,2) i by auto
      show "tail_ok (mSendOps (mForks ?t ! j))" using t by simp
    qed
    moreover have "bufs_ok ?t" using inv by (auto simp: sched_inv_def bufs_ok_def split: if_splits)
    moreover have "sends_ok ?t" using inv by (simp add: sched_inv_def sends_ok_def)
    ultimately have "sched_inv (?t\<lparr>mNumRecvs := mNumRecvs s - 1\<rparr>) ch"
      using c inv tot by (simp add: sched_inv_def tails_ok_def bufs_ok_def sends_ok_def recv_total_def)
    then show ?thesis unfolding eq .
  qed
  ultimately show thesis using that op(1,2) b pop o(7,8) q by blast
qed

lemma cancel_recver_inv:
  assumes inv: "sched_inv s ch" and err: "is_error ec \<or> is_error (mEC s)" and sp: "send_phase s ch sp"
  obtains s' out1 out2 where "cancel Recver ec s = Inr s'" "sched_inv s' ch" "send_phase s' ch sp" "is_error (mEC s')"
    "\<not> mAnyRecvOp s \<longrightarrow> \<not> mAnyRecvOp s'" "mGetReq s = None \<longrightarrow> mGetReq s' = None"
    "\<not> mAnyRecvOp s \<longrightarrow> mAnyRes s' = mAnyRes s"
    "mOut s' = mOut s @ out1 @ out2" "no_user out1" "recv_completions s (pending_from 0 s) out2"
    "\<forall>a. mRecvs s' a = None" "mSends s' = mSends s"
    "\<forall>j. mLocalId (mForks s' ! j) = mLocalId (mForks s ! j)"
proof -
  let ?f = "(after_first Recver ec s)\<lparr>mRecvStatus := SClosed\<rparr>"
  have core: "core_ok s ch" using inv by (simp add: sched_inv_def)
  obtain s' out1 out2 s1 where r: "cancel Recver ec s = Inr s'" "core_ok s' ch" "count_ok s'" "is_error (mEC s')"
     "mNumRecvs s' = 0" "\<forall>a. mRecvs s' a = None" "mOut s' = mOut s @ out1 @ out2" "no_user out1"
     "recv_completions s (pending_from 0 s) out2"
     "\<forall>j < length (mForks s). qlist (mRecvOps (mForks s' ! j)) = []"
     "mSends s' = mSends s" "mSendBegin s' = mSendBegin s" "mSendLast s' = mSendLast s"
     "keeps_recv ?f s1" "s' = s1\<lparr>mNumRecvs := 0\<rparr>"
    using cancel_recver_ok [OF core err] by metis
  note k = keeps_recv_fields [OF r(14)]
  have loc: "mLocalId (mForks s' ! j) = mLocalId (mForks s ! j)" for j
  proof -
    obtain q where "mForks s1 ! j = (mForks ?f ! j)\<lparr>mRecvOps := q\<rparr>" using r(14) unfolding keeps_recv_def by blast
    then show ?thesis by (simp add: r(15))
  qed
  have len: "length (mForks s') = length (mForks s)" using k by (simp add: r(15))
  have tot: "recv_total s' = 0" using no_recvs(2) [of s'] r(2,10) len by (simp add: core_ok_def)
  have "tails_ok s'"
    using inv r(10) k by (simp add: tails_ok_def sched_inv_def tail_ok_def r(15))
  moreover have "bufs_ok s'" using r(6) by (simp add: bufs_ok_def)
  moreover have "sends_ok s'" using inv loc r(11) by (simp add: sched_inv_def sends_ok_def)
  ultimately have inv': "sched_inv s' ch" using r(2,3) tot by (simp add: sched_inv_def)
  have sp': "send_phase s' ch sp"
  proof (cases "is_error (mEC s)")
    case True
    then show ?thesis using sp send_phase_cong [of s' s ch sp] k by (simp add: r(15) after_first_same)
  next
    case False
    then have "send_phase (after_first Recver ec s) ch sp" using after_first_send_phase [OF sp] err by simp
    then show ?thesis using send_phase_cong [of s' "after_first Recver ec s" ch sp] k by (simp add: r(15))
  qed
  have any: "\<not> mAnyRecvOp s'" "mAnyRes s' = mAnyRes s" if "\<not> mAnyRecvOp s"
    using k that by (simp_all add: r(15)) (simp_all add: after_first_def cancelled_def)
  have get: "mGetReq s' = None" if "mGetReq s = None"
    using k that by (simp add: r(15)) (simp add: after_first_def cancelled_def)
  show thesis by (rule that [OF r(1) inv' sp' r(4) _ _ _ r(7-9) _ r(11)]) (use r(6) any get loc in blast)+
qed

lemma any_recv_None_inv:
  assumes inv: "sched_inv s ch" and sp: "send_phase s ch sp" and idle: "\<not> mAnyRecvOp s" "mGetReq s = None"
  shows "\<exists>s'. any_recv None ec s = Inr s' \<and> sock_inv s' ch sp Await_Any \<and> mSends s' = mSends s
     \<and> (\<forall>j. mLocalId (mForks s' ! j) = mLocalId (mForks s ! j))
     \<and> (if is_error ec \<or> is_error (mEC s)
        then is_error (mEC s') \<and> (\<forall>a. mRecvs s' a = None)
          \<and> (\<exists>out1 out2. mOut s' = mOut s @ out1 @ out2 @ [Resume Recv_Task None] \<and> no_user out1
               \<and> recv_completions s (pending_from 0 s) out2)
        else mEC s' = mEC s \<and> mRecvs s' = mRecvs s \<and> mForks s' = mForks s \<and> mBufs s' = mBufs s
          \<and> mRemoteMap s' = mRemoteMap s \<and> mIdMap s' = mIdMap s
          \<and> mOut s' = mOut s @ (if recv_total s = 0 then [] else [Resume Recv_Task None]))"
proof (cases "is_error ec \<or> is_error (mEC s)")
  case True
  let ?t = "s\<lparr>mAnyRes := Some (make_error_code Cancel)\<rparr>"
  have tinv: "sched_inv ?t ch" "send_phase ?t ch sp"
    using inv sp send_phase_cong [of ?t s ch sp] by simp_all
  have err: "is_error ec \<or> is_error (mEC ?t)" using True by simp
  obtain s' out1 out2 where r: "cancel Recver ec ?t = Inr s'" "sched_inv s' ch" "send_phase s' ch sp" "is_error (mEC s')"
    "\<not> mAnyRecvOp ?t \<longrightarrow> \<not> mAnyRecvOp s'" "mGetReq ?t = None \<longrightarrow> mGetReq s' = None"
    "\<not> mAnyRecvOp ?t \<longrightarrow> mAnyRes s' = mAnyRes ?t"
    "mOut s' = mOut ?t @ out1 @ out2" "no_user out1" "recv_completions ?t (pending_from 0 ?t) out2"
    "\<forall>a. mRecvs s' a = None" "mSends s' = mSends ?t" "\<forall>j. mLocalId (mForks s' ! j) = mLocalId (mForks ?t ! j)"
    by (rule cancel_recver_inv [OF tinv(1) err tinv(2)])
  let ?s' = "emit (Resume Recv_Task None) s'"
  have "any_recv None ec s = Inr ?s'" using True r(1) by (auto simp: any_recv_def)
  moreover have "recv_phase ?s' Await_Any"
    using idle r(4-7) by (intro recv_phaseI) simp_all
  moreover have "recv_completions s (pending_from 0 s) out2"
    using r(10) recv_completions_cong [of "pending_from 0 s" ?t s out2] by (simp add: recv_completion_def pending_from_def)
  then have "\<exists>o1 o2. mOut ?s' = mOut s @ o1 @ o2 @ [Resume Recv_Task None] \<and> no_user o1
      \<and> recv_completions s (pending_from 0 s) o2"
    using r(8,9) by (intro exI [of _ out1] exI [of _ out2] conjI) simp_all
  ultimately show ?thesis
    using True r(2-4,11-13) by (intro exI [of _ ?s']) (simp add: sock_inv_def)
next
  case False
  have nz: "mNumRecvs s = 0 \<longleftrightarrow> recv_total s = 0" using count_nonzero inv by (simp add: sched_inv_def)
  show ?thesis
  proof (cases "recv_total s = 0")
    case True
    let ?s' = "s\<lparr>mRecvStatus := Idle, mAnyRecvOp := True\<rparr>"
    have "any_recv None ec s = Inr ?s'" using False nz True by (simp add: any_recv_def)
    moreover have "recv_phase ?s' Await_Any" using idle False nz True by (intro recv_phaseI) simp_all
    moreover have "send_phase ?s' ch sp" using sp send_phase_cong [of ?s' s ch sp] by simp
    ultimately show ?thesis using False True inv by (intro exI [of _ ?s']) (simp add: sock_inv_def)
  next
    case pos: False
    let ?s' = "emit (Resume Recv_Task None) (s\<lparr>mAnyRes := Some (make_error_code Success)\<rparr>)"
    have "any_recv None ec s = Inr ?s'" using False nz pos by (simp add: any_recv_def)
    moreover have "recv_phase ?s' Await_Any" using idle by (intro recv_phaseI) simp_all
    moreover have "send_phase ?s' ch sp"
      using sp send_phase_cong [of "s\<lparr>mAnyRes := Some (make_error_code Success)\<rparr>" s ch sp] by simp
    ultimately show ?thesis using False pos inv by (intro exI [of _ ?s']) (simp add: sock_inv_def)
  qed
qed

lemma any_recv_Some:
  "complete_prev_recv a ec s = Inr (ec', t) \<Longrightarrow> any_recv (Some a) ec s = any_recv None ec' t"
  by (simp add: any_recv_def)

lemma after_recv_fields:
  "mEC (after_recv a q ec s) = mEC s" "mSends (after_recv a q ec s) = mSends s" "mBufs (after_recv a q ec s) = mBufs s"
  "mAnyRecvOp (after_recv a q ec s) = mAnyRecvOp s" "mGetReq (after_recv a q ec s) = mGetReq s"
  "mRecvs (after_recv a q ec s) = (mRecvs s)(a := None)" "mRemoteMap (after_recv a q ec s) = mRemoteMap s"
  "mIdMap (after_recv a q ec s) = mIdMap s"
  "mOut (after_recv a q ec s) = mOut s @ done_recv s a"
  "mLocalId (mForks (after_recv a q ec s) ! j) = mLocalId (mForks s ! j)"
  "send_phase (after_recv a q ec s) ch sp = send_phase s ch sp"
proof -
  show "send_phase (after_recv a q ec s) ch sp = send_phase s ch sp"
    by (rule send_phase_cong) (simp_all add: after_recv_def Let_def)
qed (simp_all add: after_recv_def Let_def done_recv_def)

lemma any_recv_Some_inv:
  assumes inv: "sched_inv s ch" and sp: "send_phase s ch sp" and idle: "\<not> mAnyRecvOp s" "mGetReq s = None"
    and fr: "recv_front s r a"
  shows "\<exists>s' out. any_recv (Some a) ec s = Inr s' \<and> sock_inv s' ch sp Await_Any \<and> mSends s' = mSends s
     \<and> (\<forall>j. mLocalId (mForks s' ! j) = mLocalId (mForks s ! j))
     \<and> mOut s' = mOut s @ done_recv s a @ out
     \<and> (if is_error ec \<or> is_error (mEC s) then is_error (mEC s') \<and> (\<forall>a. mRecvs s' a = None)
        else mEC s' = mEC s \<and> mRecvs s' = (mRecvs s)(a := None) \<and> no_user out \<and> mBufs s' = mBufs s
          \<and> mRemoteMap s' = mRemoteMap s \<and> mIdMap s' = mIdMap s
          \<and> (\<exists>q. mForks s' = mForks (after_recv a q ec s) \<and> pop_front (mRecvOps (mForks s ! ro_Fork (the (mRecvs s a)))) = Inr q))"
proof -
  obtain i q' where i: "i < length (mForks s)" "qlist (mRecvOps (mForks s ! i)) = a # q'"
    using fr by (auto simp: recv_front_def)
  obtain op b q where o: "mRecvs s a = Some op" "ro_Fork op = i" "mBufs s (ro_Buffer op) = Some b"
    "pop_front (mRecvOps (mForks s ! i)) = Inr q" "qinv q" "qlist q = q'"
    "complete_prev_recv a ec s = Inr (if is_error ec then make_error_code Cancel else ec, after_recv a q ec s)"
    "sched_inv (after_recv a q ec s) ch"
    by (rule complete_prev_recv_closed [OF inv i])
  let ?t = "after_recv a q ec s" and ?e = "if is_error ec then make_error_code Cancel else ec"
  have eb: "is_error ?e \<longleftrightarrow> is_error ec" by simp
  note f = after_recv_fields [of a q ec s]
  have "send_phase ?t ch sp" "\<not> mAnyRecvOp ?t" "mGetReq ?t = None" using sp idle by (simp_all add: f)
  from any_recv_None_inv [OF o(8) this, of ?e] obtain s' where r: "any_recv None ?e ?t = Inr s'" "sock_inv s' ch sp Await_Any"
    "mSends s' = mSends ?t" "\<forall>j. mLocalId (mForks s' ! j) = mLocalId (mForks ?t ! j)"
    and ou: "if is_error ec \<or> is_error (mEC s)
        then is_error (mEC s') \<and> (\<forall>a. mRecvs s' a = None) \<and> (\<exists>out1 out2. mOut s' = mOut ?t @ out1 @ out2 @ [Resume Recv_Task None] \<and> no_user out1
               \<and> recv_completions ?t (pending_from 0 ?t) out2)
        else mEC s' = mEC s \<and> mRecvs s' = mRecvs ?t \<and> mForks s' = mForks ?t \<and> mBufs s' = mBufs ?t
          \<and> mRemoteMap s' = mRemoteMap ?t \<and> mIdMap s' = mIdMap ?t
          \<and> mOut s' = mOut ?t @ (if recv_total ?t = 0 then [] else [Resume Recv_Task None])"
    unfolding eb f(1) by blast
  have e: "any_recv (Some a) ec s = Inr s'" using any_recv_Some [OF o(7)] r(1) by simp
  show ?thesis
  proof (cases "is_error ec \<or> is_error (mEC s)")
    case True
    then show ?thesis using e r(2-4) ou f by auto
  next
    case False
    let ?out = "if recv_total ?t = 0 then [] else [Resume Recv_Task None]"
    have "no_user ?out" by (simp add: no_user_def)
    then show ?thesis
      using False e r(2-4) ou f o(1,2,4) by (intro exI [of _ s'] exI [of _ ?out]) simp
  qed
qed

section \<open>Finding the operation for a header\<close>

lemma get_recv_inv:
  assumes inv: "sched_inv s ch" and sp: "send_phase s ch sp" and idle: "\<not> mAnyRecvOp s" "mGetReq s = None"
  shows "\<exists>s'. get_recv (hForkId h) s = Inr s' \<and> sock_inv s' ch sp (Await_Fork h) \<and> mSends s' = mSends s
     \<and> (\<forall>j. mLocalId (mForks s' ! j) = mLocalId (mForks s ! j))
     \<and> (if mRemoteMap s (hForkId h) = None \<or> is_error (mEC s) then is_error (mEC s')
        else mEC s' = mEC s \<and> mForks s' = mForks s \<and> mBufs s' = mBufs s \<and> mRemoteMap s' = mRemoteMap s \<and> mIdMap s' = mIdMap s
          \<and> (\<forall>x. map_option rop_sig (mRecvs s' x) = map_option rop_sig (mRecvs s x)))"
proof -
  let ?r = "hForkId h"
  have ids: "ids_ok s" using inv by (simp add: sched_inv_simps)
  show ?thesis
  proof (cases "mRemoteMap s ?r = None")
    case True
    have err: "is_error (make_error_code BadCoprotoMessageHeader) \<or> is_error (mEC s)" by simp
    obtain s1 out1 out2 where r: "cancel Recver (make_error_code BadCoprotoMessageHeader) s = Inr s1" "sched_inv s1 ch"
      "send_phase s1 ch sp" "is_error (mEC s1)"
      "\<not> mAnyRecvOp s \<longrightarrow> \<not> mAnyRecvOp s1" "mGetReq s = None \<longrightarrow> mGetReq s1 = None"
      "\<not> mAnyRecvOp s \<longrightarrow> mAnyRes s1 = mAnyRes s"
      "mOut s1 = mOut s @ out1 @ out2" "no_user out1" "recv_completions s (pending_from 0 s) out2"
      "\<forall>a. mRecvs s1 a = None" "mSends s1 = mSends s" "\<forall>j. mLocalId (mForks s1 ! j) = mLocalId (mForks s ! j)"
      by (rule cancel_recver_inv [OF inv err sp])
    let ?s' = "emit (Resume Recv_Task None) (s1\<lparr>mGetRes := Some (Inl (mEC s1))\<rparr>)"
    have "get_recv ?r s = Inr ?s'" using True r(1,4) by (simp add: get_recv_def)
    moreover have "recv_phase ?s' (Await_Fork h)" using idle r(4-6) by (intro recv_phaseI) simp_all
    moreover have "send_phase ?s' ch sp"
      using r(3) send_phase_cong [of "s1\<lparr>mGetRes := Some (Inl (mEC s1))\<rparr>" s1 ch sp] by simp
    ultimately show ?thesis using True r(2,4,12,13) by (intro exI [of _ ?s']) (simp add: sock_inv_def)
  next
    case known: False
    then obtain i where i: "mRemoteMap s ?r = Some i" by blast
    then have il: "i < length (mForks s)" using ids_ok_remote [OF ids] by blast
    show ?thesis
    proof (cases "is_error (mEC s)")
      case True
      let ?s' = "emit (Resume Recv_Task None) (s\<lparr>mGetRes := Some (Inl (mEC s))\<rparr>)"
      have "get_recv ?r s = Inr ?s'" using i True by (simp add: get_recv_def)
      moreover have "recv_phase ?s' (Await_Fork h)" using idle True by (intro recv_phaseI) simp_all
      moreover have "send_phase ?s' ch sp"
        using sp send_phase_cong [of "s\<lparr>mGetRes := Some (Inl (mEC s))\<rparr>" s ch sp] by simp
      ultimately show ?thesis using True inv by (intro exI [of _ ?s']) (simp add: sock_inv_def)
    next
      case False
      have rok: "recv_ok s" using inv by (simp add: sched_inv_simps)
      then have qi: "qinv (mRecvOps (mForks s ! i))" using il by (simp add: recv_ok_def)
      show ?thesis
      proof (cases "qlist (mRecvOps (mForks s ! i))")
        case Nil
        then have z: "queue_size (mRecvOps (mForks s ! i)) = 0" using mSize_zero_iff [OF qi] by (simp add: queue_size_def)
        let ?s' = "s\<lparr>mRecvStatus := RequestedRecvOp, mGetReq := Some ?r\<rparr>"
        have "get_recv ?r s = Inr ?s'" using i il z False by (simp add: get_recv_def fork_at_def)
        moreover have "fork_idle ?s' ?r" using i il Nil by (simp add: fork_idle_def)
        then have "recv_phase ?s' (Await_Fork h)" using idle False by (intro recv_phaseI) auto
        moreover have "send_phase ?s' ch sp" using sp send_phase_cong [of ?s' s ch sp] by simp
        ultimately show ?thesis using False known inv by (intro exI [of _ ?s']) (simp add: sock_inv_def)
      next
        case (Cons a q)
        then have z: "queue_size (mRecvOps (mForks s ! i)) \<noteq> 0" using mSize_zero_iff [OF qi] by (simp add: queue_size_def)
        have "a \<in> set (qlist (mRecvOps (mForks s ! i)))" using Cons by simp
        then obtain op where op: "mRecvs s a = Some op" using rok il unfolding recv_ok_def by blast
        let ?s1 = "set_recv a (op\<lparr>ro_Status := InProgress\<rparr>) s"
        let ?s' = "emit (Resume Recv_Task None) (?s1\<lparr>mGetRes := Some (Inr a)\<rparr>)"
        have "get_recv ?r s = Inr ?s'"
          using i il z False op queue_front_correct [OF qi Cons]
          by (simp add: get_recv_def fork_at_def recv_setStatus_def)
        moreover have "sched_inv ?s1 ch" by (rule sched_inv_set_recv [OF inv op]) (simp add: rop_sig_def)
        moreover have "recv_front ?s' ?r a" using i il Cons by (simp add: recv_front_def)
        then have "recv_phase ?s' (Await_Fork h)" using idle by (intro recv_phaseI) simp_all
        moreover have "send_phase ?s' ch sp"
          using sp send_phase_cong [of "?s1\<lparr>mGetRes := Some (Inr a)\<rparr>" s ch sp] by simp
        ultimately show ?thesis
          using False known op by (intro exI [of _ ?s']) (simp add: sock_inv_def rop_sig_def)
      qed
    qed
  qed
qed

end
