(* ===== verification/Sched_Ops.thy ===== *)
theory Sched_Ops
  imports Sched_Recv
begin

text \<open>
  The calls of the users of a socket as wholes: \<^verbatim>\<open>send\<close>, \<^verbatim>\<open>recv\<close>, \<^verbatim>\<open>flush\<close>, a stop
  request on an operation that is in progress, and the construction of the socket. They keep the
  socket in good order; the only fault that is left is an allocation that fails.
\<close>

section \<open>Construction\<close>

lemma sched_empty_simps [simp]:
  "mForks sched_empty = []" "mSends sched_empty = (\<lambda>_. None)" "mRecvs sched_empty = (\<lambda>_. None)" "mEC sched_empty = no_error"
  "mTokens sched_empty = (\<lambda>_. None)" "mIdMap sched_empty = (\<lambda>_. None)" "mRemoteMap sched_empty = (\<lambda>_. None)"
  "mNumRecvs sched_empty = 0" "mAnyRecvOp sched_empty = False" "mGetReq sched_empty = None" "mNextSendOp sched_empty = False"
  "mSendBegin sched_empty = None" "mSendLast sched_empty = None" "mNextLocal sched_empty = 1" "mOut sched_empty = []"
  "mExs sched_empty = (\<lambda>_. None)" "mBufs sched_empty = (\<lambda>_. None)" "mFreshPtr sched_empty = 1"
  "mSendStatus sched_empty = Idle" "mRecvStatus sched_empty = Idle"
  by (simp_all add: sched_empty_def)

lemma empty_inv: "sched_inv sched_empty []"
  by (simp add: sched_inv_simps send_ok_def recv_ok_def token_inv_def token_ok_def token_refs_def refs_def cells_ok_def
      ids_ok_def count_ok_def recv_total_def tails_ok_def bufs_ok_def sends_ok_def)

text \<open>The socket as \<^verbatim>\<open>init\<close> leaves it: the root fork, and both tasks waiting.\<close>

definition fresh_sched :: "session_id \<Rightarrow> sched" where
  "fresh_sched sid = (localized sid None sched_empty)\<lparr>mRecvStatus := Idle, mAnyRecvOp := True, mSendStatus := Idle, mNextSendOp := True\<rparr>"

lemma sched_init_inv: "sched_init sid = Inr (fresh_sched sid)" "sock_inv (fresh_sched sid) [] Await_Next Await_Any"
proof -
  let ?s = "localized sid None sched_empty"
  have core: "core_ok sched_empty []" using empty_inv by (simp add: sched_inv_def)
  have ids: "ids_ok sched_empty" using core by (simp add: core_ok_def)
  have init: "initLocalSocketFork sid None sched_empty = Inr ?s"
    by (rule initLocal_eq [OF ids]) (simp add: can_localize_def)
  have inv: "sched_inv ?s []"
    by (rule same_queues_inv [OF empty_inv same_queues_localized [OF ids] localized_core [OF core]]) simp
  have f: "mAnyRecvOp ?s = False" "mGetReq ?s = None" "mNumRecvs ?s = 0" "mEC ?s = no_error" "mSendBegin ?s = None" "mSendLast ?s = None"
    by (simp_all add: localized_def local_base_def Let_def set_fork_def with_fork_def)
  have "any_recv None no_error ?s = Inr (?s\<lparr>mRecvStatus := Idle, mAnyRecvOp := True\<rparr>)"
    by (simp add: any_recv_def f)
  then show "sched_init sid = Inr (fresh_sched sid)"
    using init f by (simp add: sched_init_def next_send_def fresh_sched_def)
  have "recv_phase (fresh_sched sid) Await_Any"
    by (rule recv_phaseI) (simp_all add: fresh_sched_def f)
  moreover have "send_phase (fresh_sched sid) [] Await_Next"
    by (simp add: send_phase_def active_op_def fresh_sched_def f)
  moreover have "sched_inv (fresh_sched sid) []" using inv by (simp add: fresh_sched_def)
  ultimately show "sock_inv (fresh_sched sid) [] Await_Next Await_Any" by (simp add: sock_inv_def)
qed

section \<open>Send\<close>

lemma send_empty:
  assumes inv: "sock_inv s ch sp rp" and data: "sb_data b = []" and fresh: "fresh_buffer s b"
  defines "s' \<equiv> s\<lparr>mExs := note_error b (make_error_code SendLengthZeroMsg) (mExs s)\<rparr>"
  shows "send sid b cb tok s = Inr (Some (User cb), s')" and "sock_inv s' ch sp rp"
proof -
  show "send sid b cb tok s = Inr (Some (User cb), s')"
    using data send_setError_fresh [OF fresh] by (simp add: send_def s'_def)
  have "unused_cell s p" if "sb_ex b = Some p" for p using fresh that by (simp add: fresh_buffer_def fresh_cell_def)
  from sock_inv_error [OF inv this] show "sock_inv s' ch sp rp" by (simp add: s'_def note_error_def)
qed

lemma send_closed:
  fixes cb :: nat
  assumes inv: "sock_inv s ch sp rp" and data: "sb_data b \<noteq> []" and fk: "local_fork sid s i"
    and err: "is_error (mEC s)" and fresh: "fresh_buffer s b"
  defines "s' \<equiv> emit (Resume (User cb) (mExecutor (mForks s ! i))) (s\<lparr>mExs := note_error b (mEC s) (mExs s)\<rparr>)"
  shows "send sid b cb tok s = Inr (None, s')" and "sock_inv s' ch sp rp"
proof -
  have i: "i < length (mForks s)" using fk by (simp add: local_fork_def)
  show "send sid b cb tok s = Inr (None, s')"
    using data err i getLocal_eq [OF fk] send_setError_fresh [OF fresh] by (simp add: send_def s'_def fork_at_def)
  have "unused_cell s p" if "sb_ex b = Some p" for p using fresh that by (simp add: fresh_buffer_def fresh_cell_def)
  from sock_inv_error [OF inv this] show "sock_inv s' ch sp rp" by (simp add: s'_def note_error_def sock_inv_def)
qed

lemma send_enqueued:
  assumes inv: "sock_inv s ch sp rp" and fk: "local_fork sid s i" and err: "\<not> is_error (mEC s)"
    and data: "sb_data b \<noteq> []" "length (sb_data b) < 2 ^ 32 - 1" "fresh_buffer s b"
  shows "send sid b cb No_Stop s = Inl Bad_Alloc
     \<or> (\<exists>s'. send sid b cb No_Stop s = Inr (None, s') \<and> sock_inv s' (ch @ [mFreshPtr s]) sp rp
          \<and> keeps_forks s s' \<and> mEC s' = mEC s \<and> mExs s' = mExs s
          \<and> map_option op_sig (mSends s' (mFreshPtr s)) = Some (Some cb, i, b, [])
          \<and> (\<forall>x. x \<noteq> mFreshPtr s \<longrightarrow> map_option op_sig (mSends s' x) = map_option op_sig (mSends s x))
          \<and> mOut s' = mOut s @ (if ch = [] then [Resume Send_Task None] else []))"
proof -
  have i: "i < length (mForks s)" "mLocalId (mForks s ! i) \<noteq> NOT 0" using fk by (simp_all add: local_fork_def)
  have "qinv (mSendOps (mForks s ! i))" using inv i by (simp add: sock_inv_def sched_inv_simps send_ok_def)
  from emplace_send_cases [OF i(1) this, of "new_send_op i cb b"] show ?thesis
  proof (elim disjE exE conjE)
    assume "emplace_send i (new_send_op i cb b) s = Inl Bad_Alloc"
    then show ?thesis using data(1) err i(1) getLocal_eq [OF fk] by (simp add: send_def fork_at_def)
  next
    fix q assume q: "emplace_send i (new_send_op i cb b) s = Inr (mFreshPtr s, placed_send i (new_send_op i cb b) q s)"
      "qinv q" "tail_ok q" "qlist q = qlist (mSendOps (mForks s ! i)) @ [mFreshPtr s]"
    from enqueue_inv [OF inv i(1) err q(2-4) data(1,2) i(2) data(3), of cb] obtain s' where
      s': "enqueue_send (mFreshPtr s) (placed_send i (new_send_op i cb b) q s) = Inr s'"
      and r: "sock_inv s' (ch @ [mFreshPtr s]) sp rp \<and> keeps_forks s s' \<and> mEC s' = mEC s \<and> mExs s' = mExs s
       \<and> map_option op_sig (mSends s' (mFreshPtr s)) = Some (Some cb, i, b, [])
       \<and> (\<forall>x. x \<noteq> mFreshPtr s \<longrightarrow> map_option op_sig (mSends s' x) = map_option op_sig (mSends s x))
       \<and> mOut s' = mOut s @ (if ch = [] then [Resume Send_Task None] else [])"
      by blast
    have "send sid b cb No_Stop s = Inr (None, s')"
      using data(1) err i(1) getLocal_eq [OF fk] q(1) s' by (simp add: send_def fork_at_def setCancelation_send_def)
    then show ?thesis using r by blast
  qed
qed

section \<open>Receive\<close>

lemma recv_closed:
  fixes h :: nat
  assumes inv: "sock_inv s ch sp rp" and fk: "local_fork sid s i" and err: "is_error (mEC s)"
    and d: "mBufs s d = Some b" "\<And>p. rb_ex b = Some p \<Longrightarrow> unused_cell s p"
  defines "s' \<equiv> emit (Resume (User h) (mExecutor (mForks s ! i))) (s\<lparr>mExs := recv_setError b (mEC s) (mExs s)\<rparr>)"
  shows "recv sid d h tok s = Inr s'" and "sock_inv s' ch sp rp"
proof -
  have i: "i < length (mForks s)" using fk by (simp add: local_fork_def)
  show "recv sid d h tok s = Inr s'"
    using err i getLocal_eq [OF fk] d(1) by (simp add: recv_def s'_def fork_at_def)
  show "sock_inv s' ch sp rp"
    using sock_inv_error [OF inv d(2)] by (simp add: s'_def recv_setError_def sock_inv_def)
qed

lemma recv_enqueued:
  assumes inv: "sock_inv s ch sp rp" and fk: "local_fork sid s i" and err: "\<not> is_error (mEC s)"
    and d: "fresh_recv_buffer s d" and room: "Suc (recv_total s) < 2 ^ 64"
  shows "recv sid d h No_Stop s = Inl Bad_Alloc
     \<or> (\<exists>s' q. recv sid d h No_Stop s = Inr s' \<and> sock_inv s' ch sp rp
          \<and> mForks s' = mForks (placed_recv i (new_recv_op d h i) q s) \<and> qlist q = qlist (mRecvOps (mForks s ! i)) @ [mFreshPtr s]
          \<and> mEC s' = mEC s \<and> mSends s' = mSends s \<and> mExs s' = mExs s \<and> mBufs s' = mBufs s
          \<and> mRemoteMap s' = mRemoteMap s \<and> mIdMap s' = mIdMap s
          \<and> (\<forall>x. map_option rop_sig (mRecvs s' x)
                = map_option rop_sig (if x = mFreshPtr s then Some (new_recv_op d h i) else mRecvs s x)))"
proof -
  have i: "i < length (mForks s)" using fk by (simp_all add: local_fork_def)
  have "qinv (mRecvOps (mForks s ! i))" using inv i by (simp add: sock_inv_def sched_inv_simps recv_ok_def)
  from emplace_recv_cases [OF i this, of "new_recv_op d h i"] show ?thesis
  proof (elim disjE exE conjE)
    assume "emplace_recv i (new_recv_op d h i) (s\<lparr>mNumRecvs := mNumRecvs s + 1\<rparr>) = Inl Bad_Alloc"
    then show ?thesis using err i getLocal_eq [OF fk] by (simp add: recv_def fork_at_def)
  next
    fix q assume q: "emplace_recv i (new_recv_op d h i) (s\<lparr>mNumRecvs := mNumRecvs s + 1\<rparr>)
        = Inr (mFreshPtr s, placed_recv i (new_recv_op d h i) q s)"
      "qinv q" "tail_ok q" "qlist q = qlist (mRecvOps (mForks s ! i)) @ [mFreshPtr s]"
    from match_recv_inv [OF inv i err q(2-4) d room, of h] obtain s' where
      s': "match_recv i (mFreshPtr s) (placed_recv i (new_recv_op d h i) q s) = Inr s'"
      and r: "sock_inv s' ch sp rp \<and> mForks s' = mForks (placed_recv i (new_recv_op d h i) q s) \<and> mEC s' = mEC s
       \<and> mSends s' = mSends s \<and> mExs s' = mExs s \<and> mBufs s' = mBufs s \<and> mRemoteMap s' = mRemoteMap s \<and> mIdMap s' = mIdMap s
       \<and> (\<forall>x. map_option rop_sig (mRecvs s' x) = map_option rop_sig (if x = mFreshPtr s then Some (new_recv_op d h i) else mRecvs s x))"
      by blast
    have "recv sid d h No_Stop s = Inr s'"
      using err i getLocal_eq [OF fk] q(1) s' by (simp add: recv_def fork_at_def setCancelation_recv_def)
    then show ?thesis using r q(4) by blast
  qed
qed

end
