(* ===== verification/Sched_Flush.thy ===== *)
theory Sched_Flush
  imports Sched_Ops
begin

text \<open>
  \<^verbatim>\<open>flush\<close>: one token, shared with the newest pending operation of every queue. The
  function succeeds in every good state, and the coroutine that waits is resumed with the last of
  these operations.
\<close>

section \<open>Sharing a token\<close>

text \<open>The token invariant while the function holds a reference to the new token \<open>t\<close>.\<close>

definition sharing :: "nat \<Rightarrow> nat \<Rightarrow> sched \<Rightarrow> bool" where
  "sharing t h s \<longleftrightarrow> finite (dom (mSends s)) \<and> finite (dom (mRecvs s))
     \<and> (\<forall>a op. mSends s a = Some op \<longrightarrow> distinct (so_Flushes op))
     \<and> (\<forall>a op. mRecvs s a = Some op \<longrightarrow> distinct (ro_Flushes op))
     \<and> (\<forall>u. u \<noteq> t \<longrightarrow> token_ok (mTokens s u) (token_refs s u))
     \<and> mTokens s t = Some \<lparr>ft_Handle = Some h, ft_Uses = token_refs s t + 1\<rparr>
     \<and> (\<forall>u. mTokens s u \<noteq> None \<longrightarrow> u < mFreshPtr s)"

lemma sharing_start:
  fixes h :: nat
  assumes inv: "token_inv s" and t: "t = mFreshPtr s"
  defines "s' \<equiv> s\<lparr>mFreshPtr := t + 1, mTokens := (mTokens s)(t \<mapsto> \<lparr>ft_Handle = Some h, ft_Uses = 1\<rparr>)\<rparr>"
  shows "sharing t h s'" and "token_refs s' t = 0"
proof -
  have refs: "token_refs s' u = token_refs s u" for u by (simp add: token_refs_def s'_def)
  have "mTokens s t = None" using inv t unfolding token_inv_def by blast
  moreover have ok: "token_ok (mTokens s u) (token_refs s u)" for u using inv by (simp add: token_inv_def)
  ultimately have z: "token_refs s t = 0" using ok [of t] by (simp add: token_ok_def)
  then show "token_refs s' t = 0" by (simp add: refs)
  have "\<forall>u. mTokens s' u \<noteq> None \<longrightarrow> u < mFreshPtr s'"
    using inv t unfolding token_inv_def s'_def by (auto simp: less_Suc_eq)
  then show "sharing t h s'"
    using inv ok z refs unfolding sharing_def token_inv_def by (simp add: s'_def)
qed

lemma refs_add:
  assumes "finite (dom m)" and "m a = Some op" and "t \<notin> set (fl op)"
    and "\<And>u. u \<in> set (fl op') \<longleftrightarrow> u = t \<or> u \<in> set (fl op)"
  shows "refs (m(a \<mapsto> op')) fl u = refs m fl u + (if u = t then 1 else 0)"
  using refs_upd [OF assms(1), of a "Some op'" fl u] refs_at [OF assms(1), of fl u a] assms(2-4)
  by (auto simp: held_def)

lemma rest_inv_tokens: "rest_inv (s\<lparr>mTokens := tk\<rparr>) ch = rest_inv s ch"
  by (simp add: rest_inv_def tails_ok_def bufs_ok_def sends_ok_def recv_total_def)

lemma addFlush_send_ok:
  assumes sh: "sharing t h s" and rest: "rest_inv s ch" and op: "mSends s a = Some op" and new: "t \<notin> set (so_Flushes op)"
  defines "s' \<equiv> s\<lparr>mSends := (mSends s)(a \<mapsto> op\<lparr>so_Flushes := so_Flushes op @ [t]\<rparr>),
    mTokens := (mTokens s)(t \<mapsto> \<lparr>ft_Handle = Some h, ft_Uses = token_refs s t + 2\<rparr>)\<rparr>"
  shows "addFlush_send a t s = Inr s'" and "sharing t h s'" and "rest_inv s' ch" and "token_refs s' t = Suc (token_refs s t)"
proof -
  show "addFlush_send a t s = Inr s'"
    using sh op by (simp add: addFlush_send_def share_token_def sharing_def s'_def set_send_def)
  have refs: "token_refs s' u = token_refs s u + (if u = t then 1 else 0)" for u
    using refs_add [of "mSends s" a op t so_Flushes "op\<lparr>so_Flushes := so_Flushes op @ [t]\<rparr>" u] sh op new
    by (simp add: token_refs_def s'_def sharing_def)
  then show "token_refs s' t = Suc (token_refs s t)" by simp
  have "distinct (so_Flushes o1)" if "mSends s' b = Some o1" for b o1
    using sh that op new unfolding sharing_def s'_def by (cases "b = a") auto
  moreover have "distinct (ro_Flushes o1)" if "mRecvs s' b = Some o1" for b o1
    using sh that unfolding sharing_def s'_def by simp
  moreover have "\<forall>u. mTokens s' u \<noteq> None \<longrightarrow> u < mFreshPtr s'"
    using sh unfolding sharing_def s'_def by simp
  moreover have "\<forall>u. u \<noteq> t \<longrightarrow> token_ok (mTokens s' u) (token_refs s' u)"
    using sh refs unfolding sharing_def s'_def by simp
  moreover have "finite (dom (mSends s'))" "finite (dom (mRecvs s'))"
    using sh by (simp_all add: sharing_def s'_def)
  moreover have "mTokens s' t = Some \<lparr>ft_Handle = Some h, ft_Uses = token_refs s' t + 1\<rparr>" using refs [of t] by (simp add: s'_def)
  ultimately show "sharing t h s'" unfolding sharing_def by blast
  have "rest_inv (set_send a (op\<lparr>so_Flushes := so_Flushes op @ [t]\<rparr>) s) ch"
    by (rule rest_inv_set_send [OF rest op]) (simp_all add: msg_sig_def)
  then show "rest_inv s' ch" by (simp only: s'_def set_send_def rest_inv_tokens)
qed

lemma addFlush_recv_ok:
  assumes sh: "sharing t h s" and rest: "rest_inv s ch" and op: "mRecvs s a = Some op" and new: "t \<notin> set (ro_Flushes op)"
  defines "s' \<equiv> s\<lparr>mRecvs := (mRecvs s)(a \<mapsto> op\<lparr>ro_Flushes := ro_Flushes op @ [t]\<rparr>),
    mTokens := (mTokens s)(t \<mapsto> \<lparr>ft_Handle = Some h, ft_Uses = token_refs s t + 2\<rparr>)\<rparr>"
  shows "addFlush_recv a t s = Inr s'" and "sharing t h s'" and "rest_inv s' ch" and "token_refs s' t = Suc (token_refs s t)"
proof -
  show "addFlush_recv a t s = Inr s'"
    using sh op by (simp add: addFlush_recv_def share_token_def sharing_def s'_def set_recv_def)
  have refs: "token_refs s' u = token_refs s u + (if u = t then 1 else 0)" for u
    using refs_add [of "mRecvs s" a op t ro_Flushes "op\<lparr>ro_Flushes := ro_Flushes op @ [t]\<rparr>" u] sh op new
    by (simp add: token_refs_def s'_def sharing_def)
  then show "token_refs s' t = Suc (token_refs s t)" by simp
  have "distinct (ro_Flushes o1)" if "mRecvs s' b = Some o1" for b o1
    using sh that op new unfolding sharing_def s'_def by (cases "b = a") auto
  moreover have "distinct (so_Flushes o1)" if "mSends s' b = Some o1" for b o1
    using sh that unfolding sharing_def s'_def by simp
  moreover have "\<forall>u. mTokens s' u \<noteq> None \<longrightarrow> u < mFreshPtr s'"
    using sh unfolding sharing_def s'_def by simp
  moreover have "\<forall>u. u \<noteq> t \<longrightarrow> token_ok (mTokens s' u) (token_refs s' u)"
    using sh refs unfolding sharing_def s'_def by simp
  moreover have "finite (dom (mSends s'))" "finite (dom (mRecvs s'))"
    using sh by (simp_all add: sharing_def s'_def)
  moreover have "mTokens s' t = Some \<lparr>ft_Handle = Some h, ft_Uses = token_refs s' t + 1\<rparr>" using refs [of t] by (simp add: s'_def)
  ultimately show "sharing t h s'" unfolding sharing_def by blast
  have "rest_inv (set_recv a (op\<lparr>ro_Flushes := ro_Flushes op @ [t]\<rparr>) s) ch"
    by (rule rest_inv_set_recv [OF rest op]) (simp_all add: rmsg_sig_def)
  then show "rest_inv s' ch" by (simp only: s'_def set_recv_def rest_inv_tokens)
qed

section \<open>The loop over the forks\<close>

text \<open>The operations after the loop from fork \<open>i\<close> on: the newest of each queue has the token.\<close>

definition flush_send :: "nat \<Rightarrow> nat \<Rightarrow> sched \<Rightarrow> nat \<Rightarrow> send_op option" where
  "flush_send i t s = (\<lambda>x. map_option (\<lambda>op.
     if i \<le> so_Fork op \<and> x = last (qlist (mSendOps (mForks s ! so_Fork op)))
     then op\<lparr>so_Flushes := so_Flushes op @ [t]\<rparr> else op) (mSends s x))"

definition flush_recv :: "nat \<Rightarrow> nat \<Rightarrow> sched \<Rightarrow> nat \<Rightarrow> recv_op option" where
  "flush_recv i t s = (\<lambda>x. map_option (\<lambda>op.
     if i \<le> ro_Fork op \<and> x = last (qlist (mRecvOps (mForks s ! ro_Fork op)))
     then op\<lparr>ro_Flushes := ro_Flushes op @ [t]\<rparr> else op) (mRecvs s x))"

definition fresh_sends :: "nat \<Rightarrow> nat \<Rightarrow> sched \<Rightarrow> bool" where
  "fresh_sends i t s \<longleftrightarrow> (\<forall>x op. mSends s x = Some op \<longrightarrow> i \<le> so_Fork op \<longrightarrow> t \<notin> set (so_Flushes op))"

definition fresh_recvs :: "nat \<Rightarrow> nat \<Rightarrow> sched \<Rightarrow> bool" where
  "fresh_recvs i t s \<longleftrightarrow> (\<forall>x op. mRecvs s x = Some op \<longrightarrow> i \<le> ro_Fork op \<longrightarrow> t \<notin> set (ro_Flushes op))"

text \<open>One fork: its newest receive operation, then its newest send operation.\<close>

lemma flush_recv_step:
  assumes sh: "sharing t h s" and rest: "rest_inv s ch" and i: "i < length (mForks s)" and un: "fresh_recvs i t s"
  obtains s1 where
    "(if queue_size (mRecvOps (mForks s ! i)) \<noteq> 0 then bindR (queue_back (mRecvOps (mForks s ! i))) (\<lambda>a. addFlush_recv a t s) else Inr s) = Inr s1"
    "sharing t h s1" "rest_inv s1 ch" "\<exists>re tk. s1 = s\<lparr>mRecvs := re, mTokens := tk\<rparr>"
    "mRecvs s1 = (\<lambda>x. map_option (\<lambda>op. if ro_Fork op = i \<and> x = last (qlist (mRecvOps (mForks s ! i)))
        then op\<lparr>ro_Flushes := ro_Flushes op @ [t]\<rparr> else op) (mRecvs s x))"
    "token_refs s1 t = token_refs s t + (if qlist (mRecvOps (mForks s ! i)) = [] then 0 else 1)"
proof -
  let ?q = "mRecvOps (mForks s ! i)"
  have rok: "recv_ok s" and tails: "tail_ok ?q" using rest i by (simp_all add: rest_inv_def tails_ok_def)
  have qi: "qinv ?q" using rok i by (simp add: recv_ok_def)
  show thesis
  proof (cases "qlist ?q = []")
    case True
    have no: "ro_Fork op \<noteq> i" if "mRecvs s x = Some op" for x op
    proof
      assume "ro_Fork op = i"
      moreover have "x \<in> set (qlist (mRecvOps (mForks s ! ro_Fork op)))" using rok that unfolding recv_ok_def by blast
      ultimately show False using True by simp
    qed
    have "mRecvs s = (\<lambda>x. map_option (\<lambda>op. if ro_Fork op = i \<and> x = last (qlist ?q)
        then op\<lparr>ro_Flushes := ro_Flushes op @ [t]\<rparr> else op) (mRecvs s x))"
    proof
      fix x show "mRecvs s x = map_option (\<lambda>op. if ro_Fork op = i \<and> x = last (qlist ?q)
        then op\<lparr>ro_Flushes := ro_Flushes op @ [t]\<rparr> else op) (mRecvs s x)"
        using no [of x] by (cases "mRecvs s x") auto
    qed
    moreover have "queue_size ?q = 0" using mSize_zero_iff [OF qi] True by (simp add: queue_size_def)
    moreover have "\<exists>re tk. s = s\<lparr>mRecvs := re, mTokens := tk\<rparr>" by (intro exI [of _ "mRecvs s"] exI [of _ "mTokens s"]) simp
    ultimately show thesis by (intro that [of s]) (use sh rest True in simp_all)
  next
    case False
    let ?a = "last (qlist ?q)"
    have "?a \<in> set (qlist ?q)" using False by simp
    then obtain op where op: "mRecvs s ?a = Some op" "ro_Fork op = i" using rok i unfolding recv_ok_def by blast
    have new: "t \<notin> set (ro_Flushes op)" using un op by (auto simp: fresh_recvs_def)
    note add = addFlush_recv_ok [OF sh rest op(1) new]
    let ?s1 = "s\<lparr>mRecvs := (mRecvs s)(?a \<mapsto> op\<lparr>ro_Flushes := ro_Flushes op @ [t]\<rparr>),
      mTokens := (mTokens s)(t \<mapsto> \<lparr>ft_Handle = Some h, ft_Uses = token_refs s t + 2\<rparr>)\<rparr>"
    have only: "x = ?a" if "mRecvs s x = Some o1" "ro_Fork o1 = i" "x = ?a" for x o1 using that by simp
    have "mRecvs ?s1 = (\<lambda>x. map_option (\<lambda>op. if ro_Fork op = i \<and> x = ?a
        then op\<lparr>ro_Flushes := ro_Flushes op @ [t]\<rparr> else op) (mRecvs s x))"
    proof
      fix x show "mRecvs ?s1 x = map_option (\<lambda>op. if ro_Fork op = i \<and> x = ?a
        then op\<lparr>ro_Flushes := ro_Flushes op @ [t]\<rparr> else op) (mRecvs s x)"
        using op by (cases "x = ?a"; cases "mRecvs s x") simp_all
    qed
    moreover have "queue_size ?q \<noteq> 0" using mSize_zero_iff [OF qi] False by (simp add: queue_size_def)
    moreover have "queue_back ?q = Inr ?a" by (rule queue_back_correct [OF qi tails False])
    moreover note add
    ultimately show thesis by (intro that [of ?s1]) (use False in \<open>simp_all only: if_True if_False bindR_Inr not_False_eq_True\<close>, auto)
  qed
qed

lemma flush_send_step:
  assumes sh: "sharing t h s" and rest: "rest_inv s ch" and i: "i < length (mForks s)" and un: "fresh_sends i t s"
  obtains s1 where
    "(if queue_size (mSendOps (mForks s ! i)) \<noteq> 0 then bindR (queue_back (mSendOps (mForks s ! i))) (\<lambda>a. addFlush_send a t s) else Inr s) = Inr s1"
    "sharing t h s1" "rest_inv s1 ch" "\<exists>se tk. s1 = s\<lparr>mSends := se, mTokens := tk\<rparr>"
    "mSends s1 = (\<lambda>x. map_option (\<lambda>op. if so_Fork op = i \<and> x = last (qlist (mSendOps (mForks s ! i)))
        then op\<lparr>so_Flushes := so_Flushes op @ [t]\<rparr> else op) (mSends s x))"
    "token_refs s1 t = token_refs s t + (if qlist (mSendOps (mForks s ! i)) = [] then 0 else 1)"
proof -
  let ?q = "mSendOps (mForks s ! i)"
  have sok: "send_ok s ch" and tails: "tail_ok ?q" using rest i by (simp_all add: rest_inv_def tails_ok_def)
  have qi: "qinv ?q" and ql: "qlist ?q = filter (\<lambda>a. fork_of s a = i) ch" using sok i by (simp_all add: send_ok_def)
  show thesis
  proof (cases "qlist ?q = []")
    case True
    have no: "so_Fork op \<noteq> i" if "mSends s x = Some op" for x op
    proof -
      have "x \<in> set ch" using sok that unfolding send_ok_def by blast
      then show ?thesis using True that by (auto simp: ql filter_empty_conv fork_of_def)
    qed
    have "mSends s = (\<lambda>x. map_option (\<lambda>op. if so_Fork op = i \<and> x = last (qlist ?q)
        then op\<lparr>so_Flushes := so_Flushes op @ [t]\<rparr> else op) (mSends s x))"
    proof
      fix x show "mSends s x = map_option (\<lambda>op. if so_Fork op = i \<and> x = last (qlist ?q)
        then op\<lparr>so_Flushes := so_Flushes op @ [t]\<rparr> else op) (mSends s x)"
        using no [of x] by (cases "mSends s x") auto
    qed
    moreover have "queue_size ?q = 0" using mSize_zero_iff [OF qi] True by (simp add: queue_size_def)
    moreover have "\<exists>re tk. s = s\<lparr>mSends := re, mTokens := tk\<rparr>" by (intro exI [of _ "mSends s"] exI [of _ "mTokens s"]) simp
    ultimately show thesis by (intro that [of s]) (use sh rest True in simp_all)
  next
    case False
    let ?a = "last (qlist ?q)"
    have "?a \<in> set (qlist ?q)" using False by simp
    then have "?a \<in> set ch" "fork_of s ?a = i" by (simp_all add: ql)
    then obtain op where op: "mSends s ?a = Some op" "so_Fork op = i"
      using sok unfolding send_ok_def by (metis domD fork_of_def option.sel)
    have new: "t \<notin> set (so_Flushes op)" using un op by (auto simp: fresh_sends_def)
    note add = addFlush_send_ok [OF sh rest op(1) new]
    let ?s1 = "s\<lparr>mSends := (mSends s)(?a \<mapsto> op\<lparr>so_Flushes := so_Flushes op @ [t]\<rparr>),
      mTokens := (mTokens s)(t \<mapsto> \<lparr>ft_Handle = Some h, ft_Uses = token_refs s t + 2\<rparr>)\<rparr>"
    have "mSends ?s1 = (\<lambda>x. map_option (\<lambda>op. if so_Fork op = i \<and> x = ?a
        then op\<lparr>so_Flushes := so_Flushes op @ [t]\<rparr> else op) (mSends s x))"
    proof
      fix x show "mSends ?s1 x = map_option (\<lambda>op. if so_Fork op = i \<and> x = ?a
        then op\<lparr>so_Flushes := so_Flushes op @ [t]\<rparr> else op) (mSends s x)"
        using op by (cases "x = ?a"; cases "mSends s x") simp_all
    qed
    moreover have "queue_size ?q \<noteq> 0" using mSize_zero_iff [OF qi] False by (simp add: queue_size_def)
    moreover have "queue_back ?q = Inr ?a" by (rule queue_back_correct [OF qi tails False])
    moreover note add
    ultimately show thesis by (intro that [of ?s1]) (use False in \<open>simp_all only: if_True if_False bindR_Inr not_False_eq_True\<close>, auto)
  qed
qed

lemma flush_forks_ok:
  assumes "sharing t h s" and "rest_inv s ch" and "fresh_sends i t s" and "fresh_recvs i t s" and "i + n = length (mForks s)"
  shows "\<exists>s'. flush_forks n i t s = Inr s' \<and> sharing t h s' \<and> rest_inv s' ch
     \<and> (\<exists>tk. s' = s\<lparr>mSends := flush_send i t s, mRecvs := flush_recv i t s, mTokens := tk\<rparr>)
     \<and> token_refs s t \<le> token_refs s' t
     \<and> ((\<exists>j < length (mForks s). i \<le> j \<and> (qlist (mRecvOps (mForks s ! j)) \<noteq> [] \<or> qlist (mSendOps (mForks s ! j)) \<noteq> []))
         \<longrightarrow> 0 < token_refs s' t)"
  using assms
proof (induction n arbitrary: i s)
  case 0
  have len: "so_Fork op < i" if "mSends s x = Some op" for x op
  proof -
    have "x \<in> set ch" "\<forall>a \<in> set ch. fork_of s a < length (mForks s)"
      using 0(2) that unfolding rest_inv_def send_ok_def by blast+
    then show ?thesis using that 0(5) by (auto simp: fork_of_def)
  qed
  have lenr: "ro_Fork op < i" if "mRecvs s x = Some op" for x op
  proof -
    have "ro_Fork op < length (mForks s)" using 0(2) that unfolding rest_inv_def recv_ok_def by blast
    then show ?thesis using 0(5) by simp
  qed
  have "flush_send i t s x = mSends s x" for x
    using len [of x] by (cases "mSends s x") (auto simp: flush_send_def)
  then have "flush_send i t s = mSends s" by (rule ext)
  moreover have "flush_recv i t s x = mRecvs s x" for x
    using lenr [of x] by (cases "mRecvs s x") (auto simp: flush_recv_def)
  then have "flush_recv i t s = mRecvs s" by (rule ext)
  ultimately have "s = s\<lparr>mSends := flush_send i t s, mRecvs := flush_recv i t s, mTokens := mTokens s\<rparr>" by simp
  then have tk: "\<exists>tk. s = s\<lparr>mSends := flush_send i t s, mRecvs := flush_recv i t s, mTokens := tk\<rparr>"
    by (rule exI [of _ "mTokens s"])
  show ?case
  proof (rule exI [of _ s], intro conjI)
    show "\<exists>tk. s = s\<lparr>mSends := flush_send i t s, mRecvs := flush_recv i t s, mTokens := tk\<rparr>" by (rule tk)
  qed (use 0(1,2,5) in auto)
next
  case (Suc n)
  have i: "i < length (mForks s)" using Suc.prems(5) by simp
  obtain s1 where s1: "(if queue_size (mRecvOps (mForks s ! i)) \<noteq> 0 then bindR (queue_back (mRecvOps (mForks s ! i))) (\<lambda>a. addFlush_recv a t s) else Inr s) = Inr s1"
    "sharing t h s1" "rest_inv s1 ch" "\<exists>re tk. s1 = s\<lparr>mRecvs := re, mTokens := tk\<rparr>"
    "mRecvs s1 = (\<lambda>x. map_option (\<lambda>op. if ro_Fork op = i \<and> x = last (qlist (mRecvOps (mForks s ! i)))
        then op\<lparr>ro_Flushes := ro_Flushes op @ [t]\<rparr> else op) (mRecvs s x))"
    "token_refs s1 t = token_refs s t + (if qlist (mRecvOps (mForks s ! i)) = [] then 0 else 1)"
    by (rule flush_recv_step [OF Suc.prems(1,2) i Suc.prems(4)])
  obtain re1 tk1 where e1: "s1 = s\<lparr>mRecvs := re1, mTokens := tk1\<rparr>" using s1(4) by blast
  have f1: "mForks s1 = mForks s" "mSends s1 = mSends s" by (simp_all add: e1)
  have un1: "fresh_sends i t s1" using Suc.prems(3) by (simp add: fresh_sends_def f1)
  have i1: "i < length (mForks s1)" using i by (simp add: f1)
  obtain s2 where s2: "(if queue_size (mSendOps (mForks s1 ! i)) \<noteq> 0 then bindR (queue_back (mSendOps (mForks s1 ! i))) (\<lambda>a. addFlush_send a t s1) else Inr s1) = Inr s2"
    "sharing t h s2" "rest_inv s2 ch" "\<exists>se tk. s2 = s1\<lparr>mSends := se, mTokens := tk\<rparr>"
    "mSends s2 = (\<lambda>x. map_option (\<lambda>op. if so_Fork op = i \<and> x = last (qlist (mSendOps (mForks s1 ! i)))
        then op\<lparr>so_Flushes := so_Flushes op @ [t]\<rparr> else op) (mSends s1 x))"
    "token_refs s2 t = token_refs s1 t + (if qlist (mSendOps (mForks s1 ! i)) = [] then 0 else 1)"
    by (rule flush_send_step [OF s1(2,3) i1 un1])
  obtain se2 tk2 where e2: "s2 = s1\<lparr>mSends := se2, mTokens := tk2\<rparr>" using s2(4) by blast
  have f2: "mForks s2 = mForks s" "mRecvs s2 = mRecvs s1" by (simp_all add: e2 e1)
  have un2: "fresh_sends (Suc i) t s2" "fresh_recvs (Suc i) t s2"
    using Suc.prems(3,4) unfolding fresh_sends_def fresh_recvs_def f2(2) s2(5) s1(5) f1 by auto
  have n: "Suc i + n = length (mForks s2)" using Suc.prems(5) by (simp add: f2)
  from Suc.IH [OF s2(2,3) un2 n] obtain s' tk where r: "flush_forks n (Suc i) t s2 = Inr s'" "sharing t h s'" "rest_inv s' ch"
     "s' = s2\<lparr>mSends := flush_send (Suc i) t s2, mRecvs := flush_recv (Suc i) t s2, mTokens := tk\<rparr>"
     "token_refs s2 t \<le> token_refs s' t"
     "(\<exists>j < length (mForks s2). Suc i \<le> j \<and> (qlist (mRecvOps (mForks s2 ! j)) \<noteq> [] \<or> qlist (mSendOps (mForks s2 ! j)) \<noteq> []))
         \<longrightarrow> 0 < token_refs s' t"
    by blast
  have fs: "flush_send (Suc i) t s2 x = flush_send i t s x" for x
    unfolding flush_send_def f2 s2(5) f1 by (cases "mSends s x") (auto simp: Suc_le_eq le_less)
  have fr: "flush_recv (Suc i) t s2 x = flush_recv i t s x" for x
    unfolding flush_recv_def f2 s1(5) by (cases "mRecvs s x") (auto simp: Suc_le_eq le_less)
  have fx: "flush_send (Suc i) t s2 = flush_send i t s" "flush_recv (Suc i) t s2 = flush_recv i t s"
    using fs fr by (simp_all add: fun_eq_iff)
  have "flush_forks (Suc n) i t s = Inr s'"
    by (simp only: flush_forks.simps fork_at_def i if_True bindR_Inr s1(1) s2(1) [unfolded f1] r(1))
  moreover have "s' = s\<lparr>mSends := flush_send i t s, mRecvs := flush_recv i t s, mTokens := tk\<rparr>"
    by (simp add: r(4) fx) (simp add: e2 e1)
  moreover have "0 < token_refs s' t"
    if "j < length (mForks s)" "i \<le> j" "qlist (mRecvOps (mForks s ! j)) \<noteq> [] \<or> qlist (mSendOps (mForks s ! j)) \<noteq> []" for j
  proof (cases "j = i")
    case True
    then have "0 < token_refs s2 t" using s1(6) s2(6) that(3) by (auto simp: f1)
    then show ?thesis using r(5) by simp
  next
    case False
    then show ?thesis using r(6) that by (auto simp: f2)
  qed
  moreover have "token_refs s t \<le> token_refs s' t" using s1(6) s2(6) r(5) by simp
  ultimately show ?case using r(2,3) by (intro exI [of _ s'] conjI) (simp, simp, simp, blast, simp, blast)
qed

section \<open>Flush\<close>

lemma some_pending:
  assumes inv: "sched_inv s ch" and bg: "mSendBegin s = head_opt ch" and p: "mNumRecvs s \<noteq> 0 \<or> mSendBegin s \<noteq> None"
  shows "\<exists>j < length (mForks s). qlist (mRecvOps (mForks s ! j)) \<noteq> [] \<or> qlist (mSendOps (mForks s ! j)) \<noteq> []"
proof (cases ch)
  case (Cons a r)
  then have "fork_of s a < length (mForks s)" "qlist (mSendOps (mForks s ! fork_of s a)) = filter (\<lambda>x. fork_of s x = fork_of s a) ch"
    using inv by (simp_all add: sched_inv_simps send_ok_def)
  then show ?thesis using Cons by (intro exI [of _ "fork_of s a"]) simp
next
  case Nil
  then have "mNumRecvs s \<noteq> 0" using p bg by simp
  then have "recv_total s \<noteq> 0" using count_nonzero inv by (auto simp: sched_inv_def)
  then obtain f where f: "f \<in> set (mForks s)" "unat (mSize (mRecvOps f)) \<noteq> 0"
    by (auto simp: recv_total_def)
  then obtain j where j: "j < length (mForks s)" "f = mForks s ! j" by (auto simp: in_set_conv_nth)
  then have "qinv (mRecvOps f)" using inv by (simp add: sched_inv_simps recv_ok_def)
  then show ?thesis using f(2) j by (intro exI [of _ j]) (auto simp: qinv_simps)
qed

text \<open>The state after a flush that had to wait; \<open>t\<close> is the new token.\<close>

lemma flush_ok:
  assumes inv: "sock_inv s ch sp rp" and p: "mNumRecvs s \<noteq> 0 \<or> mSendBegin s \<noteq> None"
  shows "\<exists>s'. flush h s = Inr (None, s') \<and> sock_inv s' ch sp rp
     \<and> mSends s' = flush_send 0 (mFreshPtr s) s \<and> mRecvs s' = flush_recv 0 (mFreshPtr s) s
     \<and> mForks s' = mForks s \<and> mEC s' = mEC s \<and> mOut s' = mOut s \<and> mExs s' = mExs s \<and> mBufs s' = mBufs s
     \<and> mRemoteMap s' = mRemoteMap s \<and> mIdMap s' = mIdMap s
     \<and> mTokens s' (mFreshPtr s) = Some \<lparr>ft_Handle = Some h, ft_Uses = token_refs s' (mFreshPtr s)\<rparr>
     \<and> 0 < token_refs s' (mFreshPtr s)"
proof -
  let ?t = "mFreshPtr s"
  let ?s0 = "s\<lparr>mFreshPtr := ?t + 1, mTokens := (mTokens s)(?t \<mapsto> \<lparr>ft_Handle = Some h, ft_Uses = 1\<rparr>)\<rparr>"
  have sinv: "sched_inv s ch" and sp: "send_phase s ch sp" and rp: "recv_phase s rp" using inv by (simp_all add: sock_inv_def)
  have tok: "token_inv s" and rest: "rest_inv s ch" using sinv by (simp_all add: sched_inv_rest)
  note start = sharing_start [OF tok refl, of h]
  have rest0: "rest_inv ?s0 ch"
  proof -
    have "send_ok (s\<lparr>mFreshPtr := ?t + 1\<rparr>) ch" using rest by (auto simp: rest_inv_def send_ok_def fork_of_def less_SucI)
    moreover have "recv_ok (s\<lparr>mFreshPtr := ?t + 1\<rparr>)"
      using rest unfolding rest_inv_def recv_ok_def by (simp add: less_SucI)
    ultimately have "rest_inv (s\<lparr>mFreshPtr := ?t + 1\<rparr>) ch"
      using rest by (simp add: rest_inv_def tails_ok_def bufs_ok_def sends_ok_def recv_total_def)
    then show ?thesis by (simp only: rest_inv_tokens)
  qed
  have none: "mTokens s ?t = None" using tok unfolding token_inv_def by blast
  have fr: "fresh_sends 0 ?t ?s0" "fresh_recvs 0 ?t ?s0"
  proof -
    have "?t \<notin> set (so_Flushes op)" if "mSends s x = Some op" for x op
      using token_live_send [OF tok that] none by (auto simp: live_tokens_def)
    then show "fresh_sends 0 ?t ?s0" by (auto simp: fresh_sends_def)
    have "?t \<notin> set (ro_Flushes op)" if "mRecvs s x = Some op" for x op
      using token_live_recv [OF tok that] none by (auto simp: live_tokens_def)
    then show "fresh_recvs 0 ?t ?s0" by (auto simp: fresh_recvs_def)
  qed
  have bg: "mSendBegin s = head_opt ch" using sp by (simp add: send_phase_def)
  have len: "0 + length (mForks s) = length (mForks ?s0)" by simp
  from flush_forks_ok [OF start(1) rest0 fr len] obtain s1 tk where r: "flush_forks (length (mForks s)) 0 ?t ?s0 = Inr s1"
    "sharing ?t h s1" "rest_inv s1 ch" "s1 = ?s0\<lparr>mSends := flush_send 0 ?t ?s0, mRecvs := flush_recv 0 ?t ?s0, mTokens := tk\<rparr>"
    "(\<exists>j < length (mForks s). qlist (mRecvOps (mForks s ! j)) \<noteq> [] \<or> qlist (mSendOps (mForks s ! j)) \<noteq> []) \<longrightarrow> 0 < token_refs s1 ?t"
    by auto
  have pos: "0 < token_refs s1 ?t" using r(5) some_pending [OF sinv bg p] by blast
  let ?s' = "s1\<lparr>mTokens := (mTokens s1)(?t \<mapsto> \<lparr>ft_Handle = Some h, ft_Uses = token_refs s1 ?t\<rparr>)\<rparr>"
  have t1: "mTokens s1 ?t = Some \<lparr>ft_Handle = Some h, ft_Uses = token_refs s1 ?t + 1\<rparr>" using r(2) by (simp add: sharing_def)
  have rel: "release_flushes [?t] s1 = Inr ?s'" using t1 pos by simp
  have fl: "flush h s = Inr (None, ?s')" using p r(1) rel by (simp add: flush_def Let_def)
  have fx: "flush_send 0 u (s\<lparr>mFreshPtr := n, mTokens := k\<rparr>) = flush_send 0 u s"
    "flush_recv 0 u (s\<lparr>mFreshPtr := n, mTokens := k\<rparr>) = flush_recv 0 u s" for u n k
    by (simp_all add: flush_send_def flush_recv_def)
  have fields: "mForks ?s' = mForks s" "mEC ?s' = mEC s" "mOut ?s' = mOut s" "mExs ?s' = mExs s" "mBufs ?s' = mBufs s"
    "mRemoteMap ?s' = mRemoteMap s" "mIdMap ?s' = mIdMap s" "mSends ?s' = flush_send 0 ?t s" "mRecvs ?s' = flush_recv 0 ?t s"
    "mSendBegin ?s' = mSendBegin s" "mSendLast ?s' = mSendLast s" "mNextSendOp ?s' = mNextSendOp s" "mSendRes ?s' = mSendRes s"
    "mSendStatus ?s' = mSendStatus s" "mAnyRecvOp ?s' = mAnyRecvOp s" "mNumRecvs ?s' = mNumRecvs s" "mRecvStatus ?s' = mRecvStatus s"
    "mGetReq ?s' = mGetReq s" "mAnyRes ?s' = mAnyRes s" "mGetRes ?s' = mGetRes s"
    by (simp_all add: r(4) fx)
  have refs: "token_refs ?s' u = token_refs s1 u" for u by (simp add: token_refs_def)
  have "token_ok (mTokens ?s' u) (token_refs ?s' u)" for u
    using r(2) pos by (cases "u = ?t") (auto simp: refs sharing_def token_ok_def)
  moreover have "\<forall>u. mTokens ?s' u \<noteq> None \<longrightarrow> u < mFreshPtr ?s'"
    using r(2) t1 by (auto simp: sharing_def)
  ultimately have "token_inv ?s'"
    using r(2) unfolding sharing_def token_inv_def by simp
  moreover have "rest_inv ?s' ch" using r(3) by (simp only: rest_inv_tokens)
  ultimately have inv': "sched_inv ?s' ch" by (simp add: sched_inv_rest)
  have stat: "x \<in> set ch \<Longrightarrow> so_Status (the (mSends ?s' x)) = so_Status (the (mSends s x))" for x
  proof -
    assume "x \<in> set ch"
    then obtain op where "mSends s x = Some op" using rest unfolding rest_inv_def send_ok_def by blast
    then show ?thesis by (simp add: fields flush_send_def)
  qed
  have "send_phase ?s' ch sp"
  proof -
    have "hd ch \<in> set ch" if "ch \<noteq> []" using that by simp
    moreover have "set (tl ch) \<subseteq> set ch" by (cases ch) auto
    ultimately show ?thesis
      using sp stat unfolding send_phase_def active_op_def fields(10-14) fields(2) by (simp add: subset_iff)
  qed
  moreover have "recv_phase ?s' rp"
    using rp recv_phase_cong [of ?s' s rp] fields by simp
  ultimately have "sock_inv ?s' ch sp rp" using inv' by (simp add: sock_inv_def)
  moreover have "mTokens ?s' ?t = Some \<lparr>ft_Handle = Some h, ft_Uses = token_refs ?s' ?t\<rparr>" by (simp add: refs)
  ultimately show ?thesis using fl fields(1-9) pos refs by (intro exI [of _ ?s'] conjI) simp_all
qed

end
