(* ===== verification/Sched_Api.thy ===== *)
theory Sched_Api
  imports Sched_Flush Sched_Ops
begin

text \<open>
  The operations of \<^verbatim>\<open>SockScheduler\<close> as the rest of the program sees them. The theorems are
  about every state in good order (\<open>sock_inv\<close>), whatever the two tasks are doing; their
  examples are sockets built by the operations themselves.
\<close>

section \<open>Buffers for receiving\<close>

text \<open>A user provides a new receive buffer, and an exception cell of its own, before the call.\<close>

definition with_buffer :: "nat \<Rightarrow> recv_buffer \<Rightarrow> sched \<Rightarrow> sched" where
  "with_buffer d b s = s\<lparr>mBufs := (mBufs s)(d \<mapsto> b)\<rparr>"

lemma with_buffer_inv:
  assumes inv: "sock_inv s ch sp rp" and new: "mBufs s d = None"
  shows "sock_inv (with_buffer d b s) ch sp rp"
proof -
  let ?s = "with_buffer d b s"
  have old: "ro_Buffer op \<noteq> d" if "mRecvs s a = Some op" for a op
    using inv new that unfolding sock_inv_def sched_inv_simps recv_ok_def by metis
  have same: "mBufs ?s (ro_Buffer op) = mBufs s (ro_Buffer op)" if "mRecvs s a = Some op" for a op
    using old [OF that] by (simp add: with_buffer_def)
  have sinv: "sched_inv s ch" using inv by (simp add: sock_inv_def)
  have f: "mSends ?s = mSends s" "mRecvs ?s = mRecvs s" "mExs ?s = mExs s" "mForks ?s = mForks s" "mFreshPtr ?s = mFreshPtr s"
    by (simp_all add: with_buffer_def)
  have "send_ok ?s ch = send_ok s ch" by (simp add: with_buffer_def)
  moreover have "recv_ok ?s"
    using sinv same unfolding sched_inv_simps recv_ok_def f by simp
  moreover have "token_inv ?s = token_inv s" by (simp add: with_buffer_def)
  moreover have "cells_ok ?s"
    unfolding cells_ok_def f
  proof (intro allI impI conjI)
    fix x op p assume x: "mSends s x = Some op" "sb_ex (so_Buffer op) = Some p"
    have c: "cells_ok s" using sinv by (simp add: sched_inv_simps)
    show "mExs s p = None" using c x unfolding cells_ok_def by blast
    show "y = x" if "mSends s y = Some op'" "sb_ex (so_Buffer op') = Some p" for y op'
      using c x that unfolding cells_ok_def by blast
    show "rb_ex buf \<noteq> Some p" if "mRecvs s y = Some rop" "mBufs ?s (ro_Buffer rop) = Some buf" for y rop buf
      using c x that same [OF that(1)] unfolding cells_ok_def by metis
  qed
  moreover have "ids_ok ?s = ids_ok s" by (simp add: with_buffer_def)
  moreover have "bufs_ok ?s"
    using sinv same unfolding sched_inv_def bufs_ok_def f by simp
  ultimately have "sched_inv ?s ch"
    using sinv by (simp add: sched_inv_simps count_ok_def tails_ok_def sends_ok_def recv_total_def with_buffer_def)
  moreover have "send_phase ?s ch sp" using inv send_phase_cong [of ?s s] by (simp add: sock_inv_def with_buffer_def)
  moreover have "recv_phase ?s rp" using inv recv_phase_cong [of ?s s] by (simp add: sock_inv_def with_buffer_def)
  ultimately show ?thesis by (simp add: sock_inv_def)
qed

section \<open>Example sockets\<close>

definition demo_sid :: session_id where
  "demo_sid = mkSessionID 5 7"

definition demo_send_buffer :: "nat option \<Rightarrow> send_buffer" where
  "demo_send_buffer p = \<lparr>sb_ex = p, sb_data = [1, 2, 3]\<rparr>"

definition demo_recv_buffer :: "nat \<Rightarrow> recv_buffer" where
  "demo_recv_buffer p = \<lparr>rb_ex = Some p, rb_cont = \<lparr>cKind = Resizable, cElem = 1, cMax = 100, cBytes = []\<rparr>, rb_allow = True\<rparr>"

definition run_send :: "nat option \<Rightarrow> nat \<Rightarrow> sched \<Rightarrow> sched" where
  "run_send p h s = snd (projr (send demo_sid (demo_send_buffer p) h No_Stop s))"

definition run_recv :: "nat \<Rightarrow> nat \<Rightarrow> sched \<Rightarrow> sched" where
  "run_recv d h s = projr (recv demo_sid d h No_Stop s)"

text \<open>A socket with two pending sends, and one that also has a pending receive.\<close>

definition demo0 :: sched where
  "demo0 = with_buffer 1 (demo_recv_buffer 1) (fresh_sched demo_sid)"

definition demo1 :: sched where
  "demo1 = run_send (Some 2) 10 demo0"

definition demo2 :: sched where
  "demo2 = run_send None 11 demo1"

definition demo3 :: sched where
  "demo3 = run_recv 1 12 demo2"

lemma fresh_sched_fields [simp]:
  "mSends (fresh_sched sid) = (\<lambda>_. None)" "mRecvs (fresh_sched sid) = (\<lambda>_. None)" "mBufs (fresh_sched sid) = (\<lambda>_. None)"
  "mTokens (fresh_sched sid) = (\<lambda>_. None)" "mExs (fresh_sched sid) = (\<lambda>_. None)" "mEC (fresh_sched sid) = no_error"
  by (simp_all add: fresh_sched_def localized_def local_base_def Let_def set_fork_def with_fork_def)

lemma unused_cell_code:
  "sock_inv s ch sp rp \<Longrightarrow> unused_cell s p \<longleftrightarrow> (\<forall>a \<in> set ch. sb_ex (so_Buffer (the (mSends s a))) \<noteq> Some p)"
  for s
proof -
  assume "sock_inv s ch sp rp"
  then have "dom (mSends s) = set ch" unfolding sock_inv_def sched_inv_simps send_ok_def by blast
  then have "a \<in> set ch \<longleftrightarrow> (\<exists>op. mSends s a = Some op)" for a by blast
  then show ?thesis unfolding unused_cell_def by (metis option.sel)
qed

lemma no_pending_recv:
  assumes "sock_inv s ch sp rp" and "pending_from 0 s = []"
  shows "mRecvs s a = None"
proof (rule ccontr)
  assume "mRecvs s a \<noteq> None"
  then obtain op where "mRecvs s a = Some op" by blast
  then have "ro_Fork op < length (mForks s)" "a \<in> set (qlist (mRecvOps (mForks s ! ro_Fork op)))"
    using assms(1) unfolding sock_inv_def sched_inv_simps recv_ok_def by blast+
  then show False using assms(2) in_pending_from [of a 0 s] by auto
qed

lemma demo0_inv: "sock_inv demo0 [] Await_Next Await_Any"
  unfolding demo0_def by (rule with_buffer_inv [OF sched_init_inv(2)]) simp

lemma run_send_inv:
  assumes "sock_inv s ch sp rp" and "local_fork demo_sid s i" and "\<not> is_error (mEC s)"
    and "fresh_buffer s (demo_send_buffer p)"
    and "\<not> isl (send demo_sid (demo_send_buffer p) h No_Stop s)"
  shows "send demo_sid (demo_send_buffer p) h No_Stop s = Inr (None, run_send p h s)"
    and "sock_inv (run_send p h s) (ch @ [mFreshPtr s]) sp rp" and "mExs (run_send p h s) = mExs s"
proof -
  have "sb_data (demo_send_buffer p) \<noteq> []" "length (sb_data (demo_send_buffer p)) < 2 ^ 32 - 1"
    by (simp_all add: demo_send_buffer_def)
  from send_enqueued [OF assms(1-3) this assms(4), of h] assms(5)
  obtain s' where s': "send demo_sid (demo_send_buffer p) h No_Stop s = Inr (None, s')"
     "sock_inv s' (ch @ [mFreshPtr s]) sp rp" "mExs s' = mExs s"
    by auto
  then show "send demo_sid (demo_send_buffer p) h No_Stop s = Inr (None, run_send p h s)"
    and "sock_inv (run_send p h s) (ch @ [mFreshPtr s]) sp rp" and "mExs (run_send p h s) = mExs s"
    by (simp_all add: run_send_def)
qed

lemma demo1_fork: "local_fork demo_sid demo0 0" "\<not> is_error (mEC demo0)" "mFreshPtr demo0 = 1" "mExs demo0 2 = None"
  "\<not> isl (send demo_sid (demo_send_buffer (Some 2)) 10 No_Stop demo0)"
  unfolding local_fork_def by code_simp+

lemma demo1_inv: "sock_inv demo1 [1] Await_Next Await_Any"
proof -
  have "fresh_cell demo0 2"
    by (simp add: fresh_cell_def unused_cell_def demo1_fork(4)) (simp add: demo0_def with_buffer_def)
  then have "fresh_buffer demo0 (demo_send_buffer (Some 2))" by (simp add: fresh_buffer_def demo_send_buffer_def)
  from run_send_inv(2) [OF demo0_inv demo1_fork(1,2) this demo1_fork(5)] show ?thesis
    by (simp add: demo1_def demo1_fork(3))
qed

lemma demo2_fork: "local_fork demo_sid demo1 0" "\<not> is_error (mEC demo1)" "mFreshPtr demo1 = 2"
  "\<not> isl (send demo_sid (demo_send_buffer None) 11 No_Stop demo1)"
  unfolding local_fork_def by code_simp+

lemma demo2_inv: "sock_inv demo2 [1, 2] Await_Next Await_Any"
proof -
  have "fresh_buffer demo1 (demo_send_buffer None)" by (simp add: fresh_buffer_def demo_send_buffer_def)
  from run_send_inv(2) [OF demo1_inv demo2_fork(1,2) this demo2_fork(4)] show ?thesis
    by (simp add: demo2_def demo2_fork(3))
qed

lemma demo3_fork: "local_fork demo_sid demo2 0" "\<not> is_error (mEC demo2)" "recv_total demo2 = 0"
  "mBufs demo2 1 = Some (demo_recv_buffer 1)" "pending_from 0 demo2 = []"
  "\<forall>a \<in> set [1, 2]. sb_ex (so_Buffer (the (mSends demo2 a))) \<noteq> Some 1"
  "\<not> isl (recv demo_sid 1 12 No_Stop demo2)"
  unfolding local_fork_def by code_simp+

lemma demo2_buffer: "fresh_recv_buffer demo2 1"
proof -
  have "unused_cell demo2 1" using unused_cell_code [OF demo2_inv] demo3_fork(6) by simp
  then show ?thesis
    using no_pending_recv [OF demo2_inv demo3_fork(5)] demo3_fork(4)
    by (simp add: fresh_recv_buffer_def demo_recv_buffer_def)
qed

lemma demo3_inv: "sock_inv demo3 [1, 2] Await_Next Await_Any"
proof -
  have "Suc (recv_total demo2) < 2 ^ 64" by (simp add: demo3_fork(3))
  from recv_enqueued [OF demo2_inv demo3_fork(1,2) demo2_buffer this, of 12] demo3_fork(7)
  show ?thesis by (auto simp: demo3_def run_recv_def)
qed

section \<open>Send\<close>

text \<open>
  C15. \<^verbatim>\<open>send\<close> of a message on an open socket either fails to allocate or appends exactly one
  operation, with the caller's coroutine, fork and buffer, behind all pending ones and in good order;
  it leaves every other pending operation, the exception cells and the error state alone, completes
  nothing, and wakes the send task exactly when no send was pending.
\<close>

theorem send_appends:
  assumes inv: "sock_inv s ch sp rp" and fk: "local_fork sid s i" and open_sock: "\<not> is_error (mEC s)"
    and data: "sb_data b \<noteq> []" "length (sb_data b) < 2 ^ 32 - 1" and cell: "fresh_buffer s b"
  shows "send sid b cb No_Stop s = Inl Bad_Alloc
     \<or> (\<exists>s'. send sid b cb No_Stop s = Inr (None, s') \<and> sock_inv s' (ch @ [mFreshPtr s]) sp rp
          \<and> mEC s' = mEC s \<and> mExs s' = mExs s
          \<and> map_option op_sig (mSends s' (mFreshPtr s)) = Some (Some cb, i, b, [])
          \<and> (\<forall>x. x \<noteq> mFreshPtr s \<longrightarrow> map_option op_sig (mSends s' x) = map_option op_sig (mSends s x))
          \<and> mOut s' = mOut s @ (if ch = [] then [Resume Send_Task None] else []))"
  using send_enqueued [OF assms, of cb] by blast

theorem send_appends_witness:
  "send demo_sid (demo_send_buffer None) 11 No_Stop demo1 = Inl Bad_Alloc
     \<or> (\<exists>s'. send demo_sid (demo_send_buffer None) 11 No_Stop demo1 = Inr (None, s') \<and> sock_inv s' [1, 2] Await_Next Await_Any)"
proof -
  have b: "sb_data (demo_send_buffer None) \<noteq> []" "length (sb_data (demo_send_buffer None)) < 2 ^ 32 - 1"
    "fresh_buffer demo1 (demo_send_buffer None)"
    by (simp_all add: demo_send_buffer_def fresh_buffer_def)
  from send_appends [OF demo1_inv demo2_fork(1,2) b, of 11] show ?thesis by (auto simp: demo2_fork(3))
qed

text \<open>
  C20. \<^verbatim>\<open>send\<close> that cannot be queued tells its caller at once and leaves the socket in good
  order: an empty message returns the caller's coroutine with \<^verbatim>\<open>sendLengthZeroMsg\<close> in its
  exception cell, and on a socket in error the coroutine is scheduled on the executor of the fork
  with the socket's error in the cell.
\<close>

theorem send_refused:
  assumes inv: "sock_inv s ch sp rp" and fk: "local_fork sid s i" and cell: "fresh_buffer s b"
    and refused: "sb_data b = [] \<or> is_error (mEC s)"
  shows "\<exists>s'. send sid b cb tok s = Inr (if sb_data b = [] then Some (User cb) else None, s') \<and> sock_inv s' ch sp rp
     \<and> mSends s' = mSends s \<and> mForks s' = mForks s
     \<and> mOut s' = mOut s @ (if sb_data b = [] then [] else [Resume (User cb) (mExecutor (mForks s ! i))])
     \<and> (\<forall>p. sb_ex b = Some p \<longrightarrow>
          mExs s' p = Some (sys_error (if sb_data b = [] then make_error_code SendLengthZeroMsg else mEC s)))"
proof (cases "sb_data b = []")
  case True
  from send_empty(1) [OF inv this cell, of sid cb tok] send_empty(2) [OF inv this cell]
  show ?thesis using True by (simp add: note_error_def)
next
  case False
  then have "is_error (mEC s)" using refused by simp
  from send_closed(1) [OF inv False fk this cell, of cb tok] send_closed(2) [OF inv False fk this cell, of cb]
  show ?thesis using False by (simp add: note_error_def emit_def)
qed

theorem send_refused_witness:
  "\<exists>s'. send demo_sid \<lparr>sb_ex = Some 2, sb_data = []\<rparr> 10 No_Stop demo0 = Inr (Some (User 10), s')
     \<and> mExs s' 2 = Some (sys_error (make_error_code SendLengthZeroMsg))"
proof -
  have "fresh_buffer demo0 \<lparr>sb_ex = Some 2, sb_data = []\<rparr>"
    by (simp add: fresh_buffer_def fresh_cell_def unused_cell_def demo1_fork(4)) (simp add: demo0_def with_buffer_def)
  from send_refused [OF demo0_inv demo1_fork(1) this, of 10 No_Stop] show ?thesis by auto
qed

section \<open>Receive\<close>

text \<open>
  C16. \<^verbatim>\<open>recv\<close> on an open socket either fails to allocate or appends exactly one operation,
  with the caller's coroutine and buffer, behind the pending receives of its fork and leaves the
  socket in good order; it completes nothing and touches no send. On a socket in error it schedules
  the caller on the executor of the fork with the socket's error in its exception cell.
\<close>

theorem recv_appends:
  assumes inv: "sock_inv s ch sp rp" and fk: "local_fork sid s i" and d: "fresh_recv_buffer s d"
    and room: "Suc (recv_total s) < 2 ^ 64"
  shows "recv sid d h No_Stop s = Inl Bad_Alloc
     \<or> (\<exists>s'. recv sid d h No_Stop s = Inr s' \<and> sock_inv s' ch sp rp \<and> mEC s' = mEC s \<and> mSends s' = mSends s
          \<and> (if is_error (mEC s)
             then mRecvs s' = mRecvs s \<and> mOut s' = mOut s @ [Resume (User h) (mExecutor (mForks s ! i))]
               \<and> (\<forall>b p. mBufs s d = Some b \<longrightarrow> rb_ex b = Some p \<longrightarrow> mExs s' p = Some (sys_error (mEC s)))
             else mExs s' = mExs s \<and> qlist (mRecvOps (mForks s' ! i)) = qlist (mRecvOps (mForks s ! i)) @ [mFreshPtr s]
               \<and> (\<forall>x. map_option rop_sig (mRecvs s' x)
                    = map_option rop_sig (if x = mFreshPtr s then Some (new_recv_op d h i) else mRecvs s x))))"
proof (cases "is_error (mEC s)")
  case True
  obtain b p where b: "mBufs s d = Some b" "rb_ex b = Some p" "unused_cell s p"
    using d by (auto simp: fresh_recv_buffer_def)
  have un: "unused_cell s q" if "rb_ex b = Some q" for q using b(2,3) that by simp
  from recv_closed(1) [OF inv fk True b(1) un, of h No_Stop] recv_closed(2) [OF inv fk True b(1) un, of h]
  show ?thesis using True b(1,2) by (simp add: emit_def recv_setError_def)
next
  case False
  have i: "i < length (mForks s)" using fk by (simp add: local_fork_def)
  from recv_enqueued [OF inv fk False d room, of h] show ?thesis
  proof (elim disjE exE conjE)
    fix s' q assume r: "recv sid d h No_Stop s = Inr s'" "sock_inv s' ch sp rp"
      "mForks s' = mForks (placed_recv i (new_recv_op d h i) q s)" "qlist q = qlist (mRecvOps (mForks s ! i)) @ [mFreshPtr s]"
      "mEC s' = mEC s" "mSends s' = mSends s" "mExs s' = mExs s"
      "\<forall>x. map_option rop_sig (mRecvs s' x)
         = map_option rop_sig (if x = mFreshPtr s then Some (new_recv_op d h i) else mRecvs s x)"
    have "mRecvOps (mForks s' ! i) = q" using i by (simp add: r(3) placed_recv_def set_recv_def set_fork_def)
    then show ?thesis using r False by (intro disjI2 exI [of _ s']) simp
  qed simp
qed

theorem recv_appends_witness:
  "recv demo_sid 1 12 No_Stop demo2 = Inl Bad_Alloc
     \<or> (\<exists>s'. recv demo_sid 1 12 No_Stop demo2 = Inr s' \<and> sock_inv s' [1, 2] Await_Next Await_Any)"
proof -
  have "Suc (recv_total demo2) < 2 ^ 64" by (simp add: demo3_fork(3))
  from recv_appends [OF demo2_inv demo3_fork(1) demo2_buffer this, of 12] show ?thesis by blast
qed

section \<open>Flush\<close>

text \<open>
  C19. \<^verbatim>\<open>flush\<close> with nothing pending lets its caller go on at once. Otherwise it leaves the
  socket in good order, shares a new token with the newest receive and the newest send of every
  fork, at least one in all, and completes nothing: the caller is resumed by the last of these
  operations to complete.
\<close>

theorem flush_shares_token:
  assumes inv: "sock_inv s ch sp rp"
  shows "if mNumRecvs s = 0 \<and> mSendBegin s = None then flush h s = Inr (Some (User h), s)
     else (\<exists>s'. flush h s = Inr (None, s') \<and> sock_inv s' ch sp rp \<and> mOut s' = mOut s \<and> mForks s' = mForks s
       \<and> mSends s' = flush_send 0 (mFreshPtr s) s \<and> mRecvs s' = flush_recv 0 (mFreshPtr s) s
       \<and> mTokens s' (mFreshPtr s) = Some \<lparr>ft_Handle = Some h, ft_Uses = token_refs s' (mFreshPtr s)\<rparr>
       \<and> 0 < token_refs s' (mFreshPtr s))"
proof (cases "mNumRecvs s = 0 \<and> mSendBegin s = None")
  case True
  then show ?thesis by (simp add: flush_def)
next
  case False
  then have "mNumRecvs s \<noteq> 0 \<or> mSendBegin s \<noteq> None" by auto
  from flush_ok [OF inv this, of h] show ?thesis using False by auto
qed

theorem flush_shares_token_witness:
  "\<exists>s'. flush 20 demo3 = Inr (None, s') \<and> sock_inv s' [1, 2] Await_Next Await_Any \<and> 0 < token_refs s' (mFreshPtr demo3)"
proof -
  have "mSendBegin demo3 \<noteq> None" by code_simp
  then show ?thesis using flush_shares_token [OF demo3_inv, of 20] by auto
qed

section \<open>Cancelling everything\<close>


text \<open>The socket with two pending sends after the first one has failed.\<close>

definition demo_failed :: sched where
  "demo_failed = snd (projr (complete_prev_send 1 (make_error_code IoError) demo2))"

lemma demo_failed_ok: "sched_inv demo_failed [2]"
proof -
  have ok: "core_ok demo2 (1 # [2])" and inv: "sched_inv demo2 (1 # [2])" and bg: "mSendBegin demo2 = Some 1"
    using demo2_inv by (simp_all add: sock_inv_def sched_inv_def send_phase_def)
  obtain op q where o: "mSends demo2 1 = Some op" "so_Fork op < length (mForks demo2)"
    "pop_front (mSendOps (mForks demo2 ! so_Fork op)) = Inr q"
    "complete_prev_send 1 (make_error_code IoError) demo2
       = Inr (make_error_code Cancel, after_send 1 [2] q (make_error_code IoError) demo2)"
    using complete_prev_send_closed [OF ok bg, of "make_error_code IoError"] by auto
  have "demo_failed = after_send 1 [2] q (make_error_code IoError) demo2" unfolding demo_failed_def o(4) by simp
  then show ?thesis using after_send_inv [OF inv o(1-3), of "make_error_code IoError"] by metis
qed

lemma demo_failed_facts:
  "so_Status (the (mSends demo_failed 2)) = NotStarted" "mSendBegin demo_failed = head_opt [2]"
  by code_simp+





section \<open>Closing\<close>

text \<open>
  \<^verbatim>\<open>close\<close> never fails. It puts an open socket in the error \<^verbatim>\<open>code::closed\<close> and
  leaves a socket that is in error as it is; it completes no operation itself (each task does so for
  its side when it runs next), and the socket stays in good order.
\<close>

theorem close_sets_error:
  assumes inv: "sock_inv s ch sp rp"
  shows "\<exists>s'. sched_close s = Inr s' \<and> sock_inv s' ch sp rp \<and> mSends s' = mSends s \<and> mRecvs s' = mRecvs s
     \<and> mEC s' = (if is_error (mEC s) then mEC s else make_error_code Closed)
     \<and> (\<exists>out. mOut s' = mOut s @ out \<and> no_user out) \<and> (is_error (mEC s) \<longrightarrow> s' = s)"
  using close_inv [OF inv] after_first_out [of Extern "make_error_code Closed" s]
  by (intro exI [of _ "after_first Extern (make_error_code Closed) s"]) (auto simp: after_first_def)

theorem close_sets_error_witness:
  "\<exists>s'. sched_close demo3 = Inr s' \<and> sock_inv s' [1, 2] Await_Next Await_Any \<and> is_error (mEC s')"
proof -
  have "\<not> is_error (mEC demo3)" by code_simp
  then show ?thesis using close_sets_error [OF demo3_inv] by auto
qed

end
