(* ===== verification/Sched_Quiet.thy ===== *)
theory Sched_Quiet
  imports Sched_Api
begin

text \<open>
  What no operation of the scheduler disturbs: the identity of the forks, the messages of the pending
  sends, the buffers of the pending receives and the identifier maps. The relation is
  reflexive and transitive and holds for every primitive, hence for every operation that neither
  creates forks nor enqueues.
\<close>

definition quiet :: "sched \<Rightarrow> sched \<Rightarrow> bool" where
  "quiet s s' \<longleftrightarrow> length (mForks s') = length (mForks s)
     \<and> (\<forall>i. \<exists>q r. mForks s' ! i = (mForks s ! i)\<lparr>mRecvOps := q, mSendOps := r\<rparr>)
     \<and> (\<forall>a op'. mSends s' a = Some op' \<longrightarrow> (\<exists>op. mSends s a = Some op \<and> so_Fork op' = so_Fork op \<and> so_Buffer op' = so_Buffer op))
     \<and> (\<forall>a op'. mRecvs s' a = Some op' \<longrightarrow> (\<exists>op. mRecvs s a = Some op \<and> ro_Fork op' = ro_Fork op \<and> ro_Buffer op' = ro_Buffer op))
     \<and> mBufs s' = mBufs s \<and> mRemoteMap s' = mRemoteMap s \<and> mIdMap s' = mIdMap s \<and> mNextLocal s' = mNextLocal s
     \<and> (is_error (mEC s) \<longrightarrow> is_error (mEC s'))"

lemma quietI:
  assumes "length (mForks s') = length (mForks s)" "\<And>i. \<exists>q r. mForks s' ! i = (mForks s ! i)\<lparr>mRecvOps := q, mSendOps := r\<rparr>"
    and "\<And>a op'. mSends s' a = Some op' \<Longrightarrow> \<exists>op. mSends s a = Some op \<and> so_Fork op' = so_Fork op \<and> so_Buffer op' = so_Buffer op"
    and "\<And>a op'. mRecvs s' a = Some op' \<Longrightarrow> \<exists>op. mRecvs s a = Some op \<and> ro_Fork op' = ro_Fork op \<and> ro_Buffer op' = ro_Buffer op"
    and "mBufs s' = mBufs s" "mRemoteMap s' = mRemoteMap s" "mIdMap s' = mIdMap s" "mNextLocal s' = mNextLocal s"
    and "is_error (mEC s) \<Longrightarrow> is_error (mEC s')"
  shows "quiet s s'"
  unfolding quiet_def using assms by blast

lemma same_fork: "\<exists>q r. f = f\<lparr>mRecvOps := q, mSendOps := r\<rparr>" for f :: fork
  by (rule exI [of _ "mRecvOps f"], rule exI [of _ "mSendOps f"]) simp

lemma quiet_fields:
  assumes "mForks s' = mForks s" "mSends s' = mSends s" "mRecvs s' = mRecvs s" "mBufs s' = mBufs s"
    "mRemoteMap s' = mRemoteMap s" "mIdMap s' = mIdMap s" "mNextLocal s' = mNextLocal s" "is_error (mEC s) \<Longrightarrow> is_error (mEC s')"
  shows "quiet s s'"
  by (rule quietI) (simp_all add: assms same_fork)

lemma quiet_refl [simp, intro]: "quiet s s"
  by (rule quiet_fields) simp_all

lemma quiet_trans [trans]:
  assumes 1: "quiet s t" and 2: "quiet t u"
  shows "quiet s u"
proof (rule quietI)
  show "\<exists>q r. mForks u ! i = (mForks s ! i)\<lparr>mRecvOps := q, mSendOps := r\<rparr>" for i
  proof -
    obtain q r q' r' where "mForks t ! i = (mForks s ! i)\<lparr>mRecvOps := q, mSendOps := r\<rparr>"
      "mForks u ! i = (mForks t ! i)\<lparr>mRecvOps := q', mSendOps := r'\<rparr>"
      using 1 2 unfolding quiet_def by meson
    then show ?thesis by (intro exI [of _ q'] exI [of _ r']) simp
  qed
  show "\<exists>op. mSends s a = Some op \<and> so_Fork op' = so_Fork op \<and> so_Buffer op' = so_Buffer op" if "mSends u a = Some op'" for a op'
    using 1 2 that unfolding quiet_def by metis
  show "\<exists>op. mRecvs s a = Some op \<and> ro_Fork op' = ro_Fork op \<and> ro_Buffer op' = ro_Buffer op" if "mRecvs u a = Some op'" for a op'
    using 1 2 that unfolding quiet_def by metis
qed (use 1 2 in \<open>simp_all add: quiet_def\<close>)

lemma quiet_emit [simp]: "quiet s (emit e s)"
  by (rule quiet_fields) (simp_all add: emit_def)

lemma quiet_forks:
  assumes "i < length (mForks s)" "\<exists>q r. f = (mForks s ! i)\<lparr>mRecvOps := q, mSendOps := r\<rparr>"
  shows "quiet s (set_fork i f s)"
  by (rule quietI) (use assms in \<open>auto simp: set_fork_def nth_list_update same_fork\<close>)

lemma quiet_set_send:
  "mSends s a = Some op \<Longrightarrow> so_Fork op' = so_Fork op \<Longrightarrow> so_Buffer op' = so_Buffer op \<Longrightarrow> quiet s (set_send a op' s)"
  by (rule quietI) (auto simp: set_send_def same_fork split: if_splits)

lemma quiet_set_recv:
  "mRecvs s a = Some op \<Longrightarrow> ro_Fork op' = ro_Fork op \<Longrightarrow> ro_Buffer op' = ro_Buffer op \<Longrightarrow> quiet s (set_recv a op' s)"
  by (rule quietI) (auto simp: set_recv_def same_fork split: if_splits)

lemma quiet_drop_send: "quiet s (s\<lparr>mSends := (mSends s)(a := None)\<rparr>)"
  by (rule quietI) (auto simp: same_fork split: if_splits)

lemma quiet_drop_recv: "quiet s (s\<lparr>mRecvs := (mRecvs s)(a := None)\<rparr>)"
  by (rule quietI) (auto simp: same_fork split: if_splits)

section \<open>The primitives\<close>

lemma fork_at_Inr: "fork_at i s = Inr f \<longleftrightarrow> i < length (mForks s) \<and> f = mForks s ! i"
  by (auto simp: fork_at_def)

lemma fork_update:
  "\<exists>q' r. f\<lparr>mSendOps := q\<rparr> = f\<lparr>mRecvOps := q', mSendOps := r\<rparr>" "\<exists>q' r. f\<lparr>mRecvOps := q\<rparr> = f\<lparr>mRecvOps := q', mSendOps := r\<rparr>"
  for f :: fork
proof -
  have "f\<lparr>mSendOps := q\<rparr> = f\<lparr>mRecvOps := mRecvOps f, mSendOps := q\<rparr>" by (cases f) simp
  then show "\<exists>q' r. f\<lparr>mSendOps := q\<rparr> = f\<lparr>mRecvOps := q', mSendOps := r\<rparr>" by blast
  have "f\<lparr>mRecvOps := q\<rparr> = f\<lparr>mRecvOps := q, mSendOps := mSendOps f\<rparr>" by (cases f) simp
  then show "\<exists>q' r. f\<lparr>mRecvOps := q\<rparr> = f\<lparr>mRecvOps := q', mSendOps := r\<rparr>" by blast
qed

lemma quiet_pop:
  "pop_front_send i s = Inr s' \<Longrightarrow> quiet s s'" "pop_front_recv i s = Inr s' \<Longrightarrow> quiet s s'"
  "erase_send i a s = Inr s' \<Longrightarrow> quiet s s'" "erase_recv i a s = Inr s' \<Longrightarrow> quiet s s'"
proof -
  have 1: "quiet s (set_fork i (f\<lparr>mSendOps := q\<rparr>) (s\<lparr>mSends := (mSends s)(x := None)\<rparr>))"
    and 2: "quiet s (set_fork i (f\<lparr>mRecvOps := q\<rparr>) (s\<lparr>mRecvs := (mRecvs s)(x := None)\<rparr>))"
    if "fork_at i s = Inr f" for q f x
  proof -
    have i: "i < length (mForks s)" "f = mForks s ! i" using that by (simp_all add: fork_at_Inr)
    have j: "i < length (mForks (s\<lparr>mSends := (mSends s)(x := None)\<rparr>))" "i < length (mForks (s\<lparr>mRecvs := (mRecvs s)(x := None)\<rparr>))"
      using i by simp_all
    show "quiet s (set_fork i (f\<lparr>mSendOps := q\<rparr>) (s\<lparr>mSends := (mSends s)(x := None)\<rparr>))"
      by (rule quiet_trans [OF quiet_drop_send], rule quiet_forks [OF j(1)]) (simp add: i(2) fork_update)
    show "quiet s (set_fork i (f\<lparr>mRecvOps := q\<rparr>) (s\<lparr>mRecvs := (mRecvs s)(x := None)\<rparr>))"
      by (rule quiet_trans [OF quiet_drop_recv], rule quiet_forks [OF j(2)]) (simp add: i(2) fork_update)
  qed
  show "pop_front_send i s = Inr s' \<Longrightarrow> quiet s s'" "pop_front_recv i s = Inr s' \<Longrightarrow> quiet s s'"
    "erase_send i a s = Inr s' \<Longrightarrow> quiet s s'" "erase_recv i a s = Inr s' \<Longrightarrow> quiet s s'"
    using 1 2 by (auto simp: pop_front_send_def pop_front_recv_def erase_send_def erase_recv_def fault_simps)
qed

lemma deref_Inr: "deref m a = Inr x \<longleftrightarrow> m a = Some x"
  by (simp split: option.splits)

lemma quiet_completeOn:
  "completeOn_send a s = Inr s' \<Longrightarrow> quiet s s'" "completeOn_recv a s = Inr s' \<Longrightarrow> quiet s s'"
proof -
  assume "completeOn_send a s = Inr s'"
  from completeOn_send_frame [OF this] obtain op h f tk out where
    "mSends s a = Some op \<and> so_CH op = Some h \<and> fork_at (so_Fork op) s = Inr f \<and> s' = s\<lparr>mSends := (mSends s)(a \<mapsto> op\<lparr>so_CH := None, so_Flushes := []\<rparr>), mTokens := tk,
            mOut := mOut s @ Resume (User h) (mExecutor f) # out\<rparr>"
    by (elim exE)
  then show "quiet s s'" by (intro quietI) (auto simp: same_fork split: if_splits)
next
  assume "completeOn_recv a s = Inr s'"
  from completeOn_recv_frame [OF this] obtain op h f tk out where
    "mRecvs s a = Some op \<and> ro_CH op = Some h \<and> fork_at (ro_Fork op) s = Inr f \<and> s' = s\<lparr>mRecvs := (mRecvs s)(a \<mapsto> op\<lparr>ro_CH := None, ro_Flushes := []\<rparr>), mTokens := tk,
            mOut := mOut s @ Resume (User h) (mExecutor f) # out\<rparr>"
    by (elim exE)
  then show "quiet s s'" by (intro quietI) (auto simp: same_fork split: if_splits)
qed

lemma quiet_setError:
  "send_op_setError a ec s = Inr s' \<Longrightarrow> quiet s s'" "recv_op_setError a ec s = Inr s' \<Longrightarrow> quiet s s'"
  using setError_frame [of a ec s s'] by (auto intro!: quiet_fields)

lemma quiet_setStatus:
  "send_setStatus a st s = Inr s' \<Longrightarrow> quiet s s'" "recv_setStatus a st s = Inr s' \<Longrightarrow> quiet s s'"
  by (auto simp: send_setStatus_def recv_setStatus_def fault_simps deref_Inr simp del: deref.simps
      intro!: quiet_set_send quiet_set_recv)

lemma quiet_setNext: "send_setNext a nx s = Inr s' \<Longrightarrow> quiet s s'"
proof -
  assume "send_setNext a nx s = Inr s'"
  then obtain op where op: "mSends s a = Some op"
    and r: "(case nx of None \<Rightarrow> Inr (set_send a (op\<lparr>so_Next := nx\<rparr>) s)
      | Some b \<Rightarrow> bindR (deref (mSends (set_send a (op\<lparr>so_Next := nx\<rparr>) s)) b)
          (\<lambda>op2. Inr (set_send b (op2\<lparr>so_Prev := Some a\<rparr>) (set_send a (op\<lparr>so_Next := nx\<rparr>) s)))) = Inr s'"
    by (auto simp: send_setNext_def fault_simps deref_Inr Let_def simp del: deref.simps)
  let ?t = "set_send a (op\<lparr>so_Next := nx\<rparr>) s"
  have t: "quiet s ?t" by (rule quiet_set_send [OF op]) simp_all
  show "quiet s s'"
  proof (cases nx)
    case None
    then show ?thesis using r t by simp
  next
    case (Some b)
    then obtain op2 where "mSends ?t b = Some op2" "s' = set_send b (op2\<lparr>so_Prev := Some a\<rparr>) ?t"
      using r by (auto simp: fault_simps deref_Inr simp del: deref.simps)
    then show ?thesis using quiet_trans [OF t quiet_set_send [of ?t b op2]] by simp
  qed
qed

section \<open>The operations\<close>

lemma quiet_abort:
  "abort_send ec a s = Inr (nx, s') \<Longrightarrow> quiet s s'" "abort_recv ec i s = Inr s' \<Longrightarrow> quiet s s'"
proof -
  assume "abort_send ec a s = Inr (nx, s')"
  then obtain s1 s2 i where 1: "send_op_setError a ec s = Inr s1" "completeOn_send a s1 = Inr s2" "pop_front_send i s2 = Inr s'"
    by (auto simp: abort_send_def fault_simps)
  show "quiet s s'"
    by (rule quiet_trans [OF quiet_setError(1) [OF 1(1)] quiet_trans [OF quiet_completeOn(1) [OF 1(2)] quiet_pop(1) [OF 1(3)]]])
next
  assume "abort_recv ec i s = Inr s'"
  then obtain s1 s2 a where 1: "recv_op_setError a ec s = Inr s1" "completeOn_recv a s1 = Inr s2" "pop_front_recv i s2 = Inr s'"
    by (auto simp: abort_recv_def fault_simps)
  show "quiet s s'"
    by (rule quiet_trans [OF quiet_setError(2) [OF 1(1)] quiet_trans [OF quiet_completeOn(2) [OF 1(2)] quiet_pop(2) [OF 1(3)]]])
qed

lemma quiet_abort_sends: "abort_sends ec x s = Inr s' \<Longrightarrow> quiet s s'"
proof (induction ec x s rule: abort_sends.induct)
  case (1 ec s)
  then show ?case by simp
next
  case (2 ec a s)
  then obtain nx t where t: "abort_send ec a s = Inr (nx, t)" "abort_sends (make_error_code Cancel) nx t = Inr s'"
    by (auto simp: abort_sends.simps(2) split: sum.splits)
  then show ?case using 2(1) [OF t(1) refl t(2)] quiet_abort(1) quiet_trans by blast
qed

lemma quiet_abort_recvs: "abort_recvs n ec i s = Inr s' \<Longrightarrow> quiet s s'"
proof (induction n ec i s rule: abort_recvs.induct)
  case (1 ec i s)
  then show ?case by simp
next
  case (2 n ec i s)
  then obtain f where f: "fork_at i s = Inr f"
    using 2(3) [unfolded abort_recvs.simps(2) [of n ec i s]] by (auto split: sum.splits)
  show ?case
  proof (cases "queue_size (mRecvOps f) = 0")
    case True
    then show ?thesis using 2(1) [OF f True] 2(3) [unfolded abort_recvs.simps(2) [of n ec i s]] f by simp
  next
    case False
    then obtain t where t: "abort_recv ec i s = Inr t" "abort_recvs (Suc n) (make_error_code Cancel) i t = Inr s'"
      using 2(3) [unfolded abort_recvs.simps(2) [of n ec i s]] f False by (auto split: sum.splits)
    then show ?thesis using 2(2) [OF f False t(1) t(2)] quiet_abort(2) quiet_trans by blast
  qed
qed

lemma quiet_after_first: "quiet s (after_first c ec s)"
  by (rule quiet_fields) (simp_all add: after_first_def cancelled_def)

lemma cancel_first_Inr: "cancel_first c ec s = Inr (e, t) \<Longrightarrow> t = after_first c ec s"
proof -
  assume a: "cancel_first c ec s = Inr (e, t)"
  then have "is_error (mEC s) \<or> is_error ec" by (auto simp: cancel_first_def fault_simps split: if_splits)
  from cancel_first_ok [OF this, of c] a show ?thesis by simp
qed

lemma bindR_id: "bindR x Inr = x"
  by (cases x) simp_all

lemma quiet_cancel:
  assumes "cancel c ec s = Inr s'"
  shows "quiet s s'"
proof -
  obtain e t where t: "cancel_first c ec s = Inr (e, t)"
    using assms by (cases "cancel_first c ec s") (simp_all add: cancel_def split: prod.splits)
  have q: "quiet s t" using quiet_after_first [of s c ec] cancel_first_Inr [OF t] by simp
  show ?thesis
  proof (cases c)
    case Sender
    have 1: "quiet t (t\<lparr>mSendStatus := SClosed, mSendBegin := None, mSendLast := None\<rparr>)" by (rule quiet_fields) simp_all
    have 2: "abort_sends e (mSendBegin t) (t\<lparr>mSendStatus := SClosed, mSendBegin := None, mSendLast := None\<rparr>) = Inr s'"
      using assms t Sender by (simp add: cancel_def bindR_id)
    show ?thesis by (rule quiet_trans [OF q quiet_trans [OF 1 quiet_abort_sends [OF 2]]])
  next
    case Recver
    then obtain w where w: "abort_recvs (length (mForks t)) e 0 (t\<lparr>mRecvStatus := SClosed\<rparr>) = Inr w" "s' = w\<lparr>mNumRecvs := 0\<rparr>"
      using assms t by (auto simp: cancel_def fault_simps)
    have 1: "quiet t (t\<lparr>mRecvStatus := SClosed\<rparr>)" "quiet w s'" unfolding w(2) by (rule quiet_fields; simp)+
    show ?thesis by (rule quiet_trans [OF q quiet_trans [OF 1(1) quiet_trans [OF quiet_abort_recvs [OF w(1)] 1(2)]]])
  next
    case Extern
    then have "s' = t" using assms t by (simp add: cancel_def)
    then show ?thesis using q by simp
  qed
qed

lemma quiet_after:
  assumes "quiet s t" "mForks s' = mForks t" "mSends s' = mSends t" "mRecvs s' = mRecvs t" "mBufs s' = mBufs t"
    "mRemoteMap s' = mRemoteMap t" "mIdMap s' = mIdMap t" "mNextLocal s' = mNextLocal t"
    "is_error (mEC t) \<Longrightarrow> is_error (mEC s')"
  shows "quiet s s'"
  by (rule quiet_trans [OF assms(1) quiet_fields [OF assms(2-)]])

lemma quiet_retire:
  "i < length (mForks s) \<Longrightarrow> quiet s (set_fork i ((mForks s ! i)\<lparr>mSendOps := q\<rparr>)
     (s\<lparr>mSends := (mSends s)(a := None), mTokens := tk, mOut := out\<rparr>))"
  "i < length (mForks s) \<Longrightarrow> quiet s (set_fork i ((mForks s ! i)\<lparr>mRecvOps := q\<rparr>)
     (s\<lparr>mRecvs := (mRecvs s)(a := None), mTokens := tk, mOut := out\<rparr>))"
proof -
  assume i: "i < length (mForks s)"
  let ?u = "s\<lparr>mSends := (mSends s)(a := None), mTokens := tk, mOut := out\<rparr>"
    and ?v = "s\<lparr>mRecvs := (mRecvs s)(a := None), mTokens := tk, mOut := out\<rparr>"
  have u: "quiet s ?u" by (rule quiet_after [OF quiet_drop_send [of s a]]) simp_all
  have v: "quiet s ?v" by (rule quiet_after [OF quiet_drop_recv [of s a]]) simp_all
  have l: "i < length (mForks ?u)" "i < length (mForks ?v)" using i by simp_all
  show "quiet s (set_fork i ((mForks s ! i)\<lparr>mSendOps := q\<rparr>) ?u)"
    by (rule quiet_trans [OF u quiet_forks [OF l(1)]]) (simp add: fork_update)
  show "quiet s (set_fork i ((mForks s ! i)\<lparr>mRecvOps := q\<rparr>) ?v)"
    by (rule quiet_trans [OF v quiet_forks [OF l(2)]]) (simp add: fork_update)
qed

lemma quiet_after_send:
  assumes "so_Fork (the (mSends s a)) < length (mForks s)"
  shows "quiet s (after_send a r q ec s)"
proof -
  let ?s = "if is_error ec then s\<lparr>mExs := note_error (so_Buffer (the (mSends s a))) ec (mExs s)\<rparr> else s"
  have e: "quiet s ?s" by (rule quiet_fields) simp_all
  have "quiet ?s (retire_send a q ?s)"
    unfolding retire_send_def Let_def by (rule quiet_retire(1)) (use assms in simp)
  then have "quiet s (retire_send a q ?s)" by (rule quiet_trans [OF e])
  then show ?thesis unfolding after_send_def by (rule quiet_after) simp_all
qed

lemma quiet_after_recv:
  assumes "ro_Fork (the (mRecvs s a)) < length (mForks s)"
  shows "quiet s (after_recv a q ec s)"
proof -
  let ?s = "s\<lparr>mRecvSrc := True, mExs := (if is_error ec then recv_setError (the (mBufs s (ro_Buffer (the (mRecvs s a))))) ec (mExs s)
    else mExs s)\<rparr>"
  have e: "quiet s ?s" by (rule quiet_fields) simp_all
  have "quiet ?s (retire_recv a q ?s)"
    unfolding retire_recv_def Let_def by (rule quiet_retire(2)) (use assms in simp)
  then have "quiet s (retire_recv a q ?s)" by (rule quiet_trans [OF e])
  then show ?thesis unfolding after_recv_def Let_def by (rule quiet_after) simp_all
qed

section \<open>The steps of the tasks\<close>

lemma next_send_Some: "next_send (Some a) ec s = bindR (complete_prev_send a ec s) (\<lambda>(ec, s). next_send None ec s)"
  by (simp add: next_send_def)

lemma any_recv_split: "any_recv (Some a) ec s = bindR (complete_prev_recv a ec s) (\<lambda>(ec, s). any_recv None ec s)"
  by (simp add: any_recv_def)

lemma quiet_emit_after: "quiet s t \<Longrightarrow> quiet s (emit e t)"
  by (erule quiet_trans) simp

lemma quiet_next_send_None: "next_send None ec s = Inr s' \<Longrightarrow> quiet s s'"
proof -
  assume a: "next_send None ec s = Inr s'"
  show "quiet s s'"
  proof (cases "is_error ec \<or> is_error (mEC s)")
    case True
    then obtain t where t: "cancel Sender ec s = Inr t"
      and s': "s' = emit (Resume Send_Task None) (t\<lparr>mSendRes := Some (Inl (make_error_code Closed))\<rparr>)"
      using a by (auto simp: next_send_def fault_simps split: option.splits)
    show ?thesis unfolding s'
      by (rule quiet_emit_after, rule quiet_after [OF quiet_cancel [OF t]]) simp_all
  next
    case False
    show ?thesis
    proof (cases "mSendBegin s")
      case None
      then have s': "s' = s\<lparr>mSendStatus := Idle, mNextSendOp := True\<rparr>" using a False by (simp add: next_send_def)
      show ?thesis unfolding s' by (rule quiet_fields) simp_all
    next
      case (Some b)
      then obtain t where t: "send_setStatus b InProgress s = Inr t"
        and s': "s' = emit (Resume Send_Task None) (t\<lparr>mSendRes := Some (Inr b)\<rparr>)"
        using a False by (auto simp: next_send_def fault_simps)
      show ?thesis unfolding s'
        by (rule quiet_emit_after, rule quiet_after [OF quiet_setStatus(1) [OF t]]) simp_all
    qed
  qed
qed

lemma quiet_next_send:
  assumes core: "core_ok s (a # r)" and bg: "mSendBegin s = Some a" and run: "next_send (Some a) ec s = Inr s'"
  shows "quiet s s'"
proof -
  obtain op q where o: "mSends s a = Some op" "so_Fork op < length (mForks s)"
    "complete_prev_send a ec s = Inr (if is_error ec then make_error_code Cancel else ec, after_send a r q ec s)"
    by (rule complete_prev_send_closed [OF core bg, of ec]) (rule that)
  have 1: "quiet s (after_send a r q ec s)" by (rule quiet_after_send) (use o in simp)
  have 2: "quiet (after_send a r q ec s) s'" using run o(3) quiet_next_send_None by (simp add: next_send_Some)
  show ?thesis by (rule quiet_trans [OF 1 2])
qed

lemma quiet_any_recv_None: "any_recv None ec s = Inr s' \<Longrightarrow> quiet s s'"
proof -
  assume a: "any_recv None ec s = Inr s'"
  show "quiet s s'"
  proof (cases "is_error ec \<or> is_error (mEC s)")
    case True
    let ?s = "s\<lparr>mAnyRes := Some (make_error_code Cancel)\<rparr>"
    from True obtain t where t: "cancel Recver ec ?s = Inr t" and s': "s' = emit (Resume Recv_Task None) t"
      using a by (auto simp: any_recv_def fault_simps)
    have "quiet s ?s" by (rule quiet_fields) simp_all
    then show ?thesis unfolding s' by (rule quiet_emit_after [OF quiet_trans [OF _ quiet_cancel [OF t]]])
  next
    case False
    then have s': "s' = (if mNumRecvs s \<noteq> 0 then emit (Resume Recv_Task None) (s\<lparr>mAnyRes := Some (make_error_code Success)\<rparr>)
       else s\<lparr>mRecvStatus := Idle, mAnyRecvOp := True\<rparr>)"
      using a by (simp add: any_recv_def split: if_splits)
    show ?thesis unfolding s' by (rule quiet_fields) (simp_all add: emit_def)
  qed
qed

lemma quiet_any_recv:
  assumes inv: "sched_inv s ch" and fr: "recv_front s r a" and run: "any_recv (Some a) ec s = Inr s'"
  shows "quiet s s'"
proof -
  obtain i q' where i: "i < length (mForks s)" "qlist (mRecvOps (mForks s ! i)) = a # q'"
    using fr by (auto simp: recv_front_def)
  obtain op q where o: "mRecvs s a = Some op" "ro_Fork op = i"
    "complete_prev_recv a ec s = Inr (if is_error ec then make_error_code Cancel else ec, after_recv a q ec s)"
    by (rule complete_prev_recv_closed [OF inv i, of ec]) (rule that)
  have 1: "quiet s (after_recv a q ec s)" by (rule quiet_after_recv) (use o i in simp)
  have 2: "quiet (after_recv a q ec s) s'" using run o(3) quiet_any_recv_None by (simp add: any_recv_split)
  show ?thesis by (rule quiet_trans [OF 1 2])
qed

lemma quiet_get_recv: "get_recv r s = Inr s' \<Longrightarrow> quiet s s'"
proof -
  assume a: "get_recv r s = Inr s'"
  then obtain t where t: "(if mRemoteMap s r = None then cancel Recver (make_error_code BadCoprotoMessageHeader) s else Inr s) = Inr t"
    and b: "(if is_error (mEC t) then Inr (emit (Resume Recv_Task None) (t\<lparr>mGetRes := Some (Inl (mEC t))\<rparr>))
     else (case mRemoteMap t r of None \<Rightarrow> Inl Bad_Pointer
       | Some i \<Rightarrow> bindR (fork_at i t) (\<lambda>f.
          if queue_size (mRecvOps f) = 0
          then Inr (t\<lparr>mRecvStatus := RequestedRecvOp, mGetReq := Some r\<rparr>)
          else bindR (queue_front (mRecvOps f)) (\<lambda>a. bindR (recv_setStatus a InProgress t) (\<lambda>s.
            Inr (emit (Resume Recv_Task None) (s\<lparr>mGetRes := Some (Inr a)\<rparr>))))))) = Inr s'"
    unfolding get_recv_def by (cases "mRemoteMap s r = None") (auto simp: bindR_eq_Inr [of "cancel c e x" for c e x])
  have 1: "quiet s t" using t quiet_cancel by (auto split: if_splits)
  have 2: "quiet t s'"
  proof (cases "is_error (mEC t)")
    case True
    then have s': "s' = emit (Resume Recv_Task None) (t\<lparr>mGetRes := Some (Inl (mEC t))\<rparr>)" using b by simp
    show ?thesis unfolding s' by (rule quiet_emit_after, rule quiet_fields) simp_all
  next
    case False
    show ?thesis
    proof (cases "s' = t\<lparr>mRecvStatus := RequestedRecvOp, mGetReq := Some r\<rparr>")
      case True
      show ?thesis unfolding True by (rule quiet_fields) simp_all
    next
      case n: False
      from b False n obtain a u where u: "recv_setStatus a InProgress t = Inr u"
        and s': "s' = emit (Resume Recv_Task None) (u\<lparr>mGetRes := Some (Inr a)\<rparr>)"
        by (auto simp: fault_simps split: option.splits if_splits)
      show ?thesis unfolding s' by (rule quiet_emit_after, rule quiet_after [OF quiet_setStatus(2) [OF u]]) simp_all
    qed
  qed
  show ?thesis by (rule quiet_trans [OF 1 2])
qed

lemma quiet_close: "sched_close s = Inr s' \<Longrightarrow> quiet s s'"
  unfolding sched_close_def by (rule quiet_cancel)

lemma quiet_setExecutor:
  "setExecutor ex sid s = Inr s' \<Longrightarrow> length (mForks s') = length (mForks s) \<and> mSends s' = mSends s \<and> mRecvs s' = mRecvs s \<and> mBufs s' = mBufs s
     \<and> (\<forall>j. \<exists>ex. mForks s' ! j = (mForks s ! j)\<lparr>mExecutor := ex\<rparr>) \<and> mRemoteMap s' = mRemoteMap s \<and> mIdMap s' = mIdMap s"
proof -
  assume a: "setExecutor ex sid s = Inr s'"
  then obtain i where i: "i < length (mForks s)" "s' = set_fork i ((mForks s ! i)\<lparr>mExecutor := Some ex\<rparr>) s"
    by (auto simp: setExecutor_def fault_simps fork_at_Inr)
  have "\<exists>e. mForks s' ! j = (mForks s ! j)\<lparr>mExecutor := e\<rparr>" for j
    using i(1) unfolding i(2) set_fork_def
    by (cases "j = i") (auto intro: exI [of _ "Some ex"] exI [of _ "mExecutor (mForks s ! j)"])
  then show ?thesis using i(1) by (auto simp: i(2) set_fork_def)
qed

end
