(* ===== verification/Sched_Stop.thy ===== *)
theory Sched_Stop
  imports Sched_Quiet
begin

text \<open>
  Stop requests: the registration of the callback with the user's stop token, and the
  request itself on an operation that has been started. The operation stays where it is and
  completes when the transfer does; the transport is asked to stop.
\<close>

lemma active_op_set_send [simp]: "active_op (set_send a op s) pc = active_op s pc"
  by (simp add: active_op_def)

lemma sock_inv_set_send:
  assumes inv: "sock_inv s ch sp rp" and op: "mSends s a = Some op"
    and same: "op_sig op' = op_sig op" "so_Next op' = so_Next op" "so_Prev op' = so_Prev op"
    and st: "so_Status op' = NotStarted \<longleftrightarrow> so_Status op = NotStarted"
  shows "sock_inv (set_send a op' s) ch sp rp"
proof -
  have status: "so_Status (the (mSends (set_send a op' s) x)) = NotStarted \<longleftrightarrow> so_Status (the (mSends s x)) = NotStarted" for x
    using op st by (simp add: set_send_def)
  have "send_phase (set_send a op' s) ch sp"
    using inv by (simp add: sock_inv_def send_phase_def status)
  moreover have "recv_phase (set_send a op' s) rp"
    using inv recv_phase_cong [of "set_send a op' s" s rp] by (simp add: sock_inv_def set_send_def)
  ultimately show ?thesis
    using inv sched_inv_set_send [OF _ op same] by (simp add: sock_inv_def)
qed

lemma recv_front_set_recv [simp]: "recv_front (set_recv a op s) r x = recv_front s r x" "fork_idle (set_recv a op s) r = fork_idle s r"
  by (simp_all add: recv_front_def fork_idle_def)

lemma sock_inv_set_recv:
  assumes inv: "sock_inv s ch sp rp" and op: "mRecvs s a = Some op" and same: "rop_sig op' = rop_sig op"
  shows "sock_inv (set_recv a op' s) ch sp rp"
proof -
  let ?s = "set_recv a op' s"
  have "send_phase ?s ch sp" using inv send_phase_cong [of ?s s ch sp] by (simp add: sock_inv_def set_recv_def)
  moreover have "recv_phase ?s rp"
    using inv recv_phase_cong [of ?s s rp] by (simp add: sock_inv_def set_recv_def)
  ultimately show ?thesis using inv sched_inv_set_recv [OF _ op same] by (simp add: sock_inv_def)
qed

lemma sock_inv_srcs:
  "sock_inv (s\<lparr>mSendSrc := x\<rparr>) ch sp rp = sock_inv s ch sp rp" "sock_inv (s\<lparr>mRecvSrc := x\<rparr>) ch sp rp = sock_inv s ch sp rp"
  "sock_inv (emit e s) ch sp rp = sock_inv s ch sp rp"
proof -
  have "sched_inv (s\<lparr>mSendSrc := x\<rparr>) ch = sched_inv s ch" "sched_inv (s\<lparr>mRecvSrc := x\<rparr>) ch = sched_inv s ch"
    "sched_inv (emit e s) ch = sched_inv s ch"
    by (simp_all add: sched_inv_def tails_ok_def bufs_ok_def sends_ok_def recv_total_def count_ok_def emit_def)
  moreover have "send_phase (s\<lparr>mSendSrc := x\<rparr>) ch sp = send_phase s ch sp" "send_phase (s\<lparr>mRecvSrc := x\<rparr>) ch sp = send_phase s ch sp"
    "send_phase (emit e s) ch sp = send_phase s ch sp"
    by (rule send_phase_cong; simp add: emit_def)+
  moreover have "recv_phase (s\<lparr>mSendSrc := x\<rparr>) rp = recv_phase s rp" "recv_phase (s\<lparr>mRecvSrc := x\<rparr>) rp = recv_phase s rp"
    "recv_phase (emit e s) rp = recv_phase s rp"
    by (rule recv_phase_cong; simp add: emit_def)+
  ultimately show "sock_inv (s\<lparr>mSendSrc := x\<rparr>) ch sp rp = sock_inv s ch sp rp"
    "sock_inv (s\<lparr>mRecvSrc := x\<rparr>) ch sp rp = sock_inv s ch sp rp" "sock_inv (emit e s) ch sp rp = sock_inv s ch sp rp"
    by (simp_all add: sock_inv_def)
qed

lemma cancel_send_started:
  assumes inv: "sock_inv s ch sp rp" and op: "mSends s a = Some op" and st: "so_Status op \<noteq> NotStarted"
  shows "\<exists>s'. cancel_send a s = Inr s' \<and> sock_inv s' ch sp rp \<and> quiet s s' \<and> mOut s' = mOut s @ [Call_Stop_Send (mSendSrc s)]
     \<and> mEC s' = mEC s \<and> mExs s' = mExs s \<and> \<not> mSendSrc s' \<and> (\<forall>x. map_option op_sig (mSends s' x) = map_option op_sig (mSends s x))"
proof -
  let ?op = "op\<lparr>so_Status := Canceling\<rparr>"
  let ?t = "set_send a ?op s"
  have run: "cancel_send a s = Inr (emit (Call_Stop_Send (mSendSrc ?t)) (?t\<lparr>mSendSrc := False\<rparr>))"
    using op st by (simp add: cancel_send_def send_setStatus_def)
  have "sock_inv ?t ch sp rp" by (rule sock_inv_set_send [OF inv op]) (use st in \<open>simp_all add: op_sig_def\<close>)
  moreover have q: "quiet s ?t" by (rule quiet_set_send [OF op]) simp_all
  have "quiet s (emit (Call_Stop_Send (mSendSrc ?t)) (?t\<lparr>mSendSrc := False\<rparr>))"
    by (rule quiet_emit_after, rule quiet_after [OF q]) simp_all
  ultimately show ?thesis using run op
    by (intro exI [of _ "emit (Call_Stop_Send (mSendSrc ?t)) (?t\<lparr>mSendSrc := False\<rparr>)"])
      (simp add: sock_inv_srcs, simp add: emit_def set_send_def op_sig_def)
qed

lemma cancel_recv_started:
  assumes inv: "sock_inv s ch sp rp" and op: "mRecvs s a = Some op" and st: "ro_Status op = InProgress"
  shows "\<exists>s'. cancel_recv a s = Inr s' \<and> sock_inv s' ch sp rp \<and> quiet s s' \<and> mOut s' = mOut s @ [Call_Stop_Recv (mRecvSrc s)]
     \<and> mEC s' = mEC s \<and> mExs s' = mExs s \<and> mSends s' = mSends s \<and> mForks s' = mForks s \<and> \<not> mRecvSrc s'
     \<and> (\<forall>x. map_option rop_sig (mRecvs s' x) = map_option rop_sig (mRecvs s x))"
proof -
  let ?op = "op\<lparr>ro_Status := Canceling\<rparr>"
  let ?t = "set_recv a ?op s"
  have run: "cancel_recv a s = Inr (emit (Call_Stop_Recv (mRecvSrc ?t)) (?t\<lparr>mRecvSrc := False\<rparr>))"
    using op st by (simp add: cancel_recv_def recv_setStatus_def)
  have "sock_inv ?t ch sp rp" by (rule sock_inv_set_recv [OF inv op]) (use st in \<open>simp_all add: rop_sig_def\<close>)
  moreover have q: "quiet s ?t" by (rule quiet_set_recv [OF op]) simp_all
  have "quiet s (emit (Call_Stop_Recv (mRecvSrc ?t)) (?t\<lparr>mRecvSrc := False\<rparr>))"
    by (rule quiet_emit_after, rule quiet_after [OF q]) simp_all
  ultimately show ?thesis using run op
    by (intro exI [of _ "emit (Call_Stop_Recv (mRecvSrc ?t)) (?t\<lparr>mRecvSrc := False\<rparr>)"])
      (simp add: sock_inv_srcs, simp add: emit_def set_recv_def rop_sig_def)
qed

section \<open>Registration\<close>

lemma send_registers:
  assumes run: "send sid b cb No_Stop s = Inr (None, s')" and fk: "local_fork sid s i" and err: "\<not> is_error (mEC s)"
    and data: "sb_data b \<noteq> []" and inv: "sock_inv s ch sp rp"
    and op: "map_option op_sig (mSends s' (mFreshPtr s)) = Some sig"
  shows "\<exists>op. mSends s' (mFreshPtr s) = Some op
     \<and> send sid b cb Stop_Possible s = Inr (None, set_send (mFreshPtr s) (op\<lparr>so_Reg := True\<rparr>) s')"
proof -
  obtain op where op': "mSends s' (mFreshPtr s) = Some op" using op by auto
  have i: "i < length (mForks s)" using fk by (simp add: local_fork_def)
  have "qinv (mSendOps (mForks s ! i))" using inv i by (simp add: sock_inv_def sched_inv_simps send_ok_def)
  from emplace_send_cases [OF i this, of "new_send_op i cb b"] show ?thesis
  proof (elim disjE exE conjE)
    assume "emplace_send i (new_send_op i cb b) s = Inl Bad_Alloc"
    then show ?thesis using run data err i getLocal_eq [OF fk] by (simp add: send_def fork_at_def)
  next
    fix q assume e: "emplace_send i (new_send_op i cb b) s = Inr (mFreshPtr s, placed_send i (new_send_op i cb b) q s)"
    have "enqueue_send (mFreshPtr s) (placed_send i (new_send_op i cb b) q s) = Inr s'"
      using run data err i getLocal_eq [OF fk] e
      by (auto simp: send_def fork_at_def setCancelation_send_def fault_simps)
    then have "send sid b cb Stop_Possible s = Inr (None, set_send (mFreshPtr s) (op\<lparr>so_Reg := True\<rparr>) s')"
      using data err i getLocal_eq [OF fk] e op' by (simp add: send_def fork_at_def setCancelation_send_def)
    then show ?thesis using op' by blast
  qed
qed

lemma send_open:
  assumes inv: "sock_inv s ch sp rp" and fk: "local_fork sid s i" and err: "\<not> is_error (mEC s)"
    and data: "sb_data b \<noteq> []" "length (sb_data b) < 2 ^ 32 - 1" "fresh_buffer s b" and tok: "tok \<noteq> Stop_Requested"
  shows "send sid b cb tok s = Inl Bad_Alloc
     \<or> (\<exists>s'. send sid b cb tok s = Inr (None, s') \<and> sock_inv s' (ch @ [mFreshPtr s]) sp rp
          \<and> keeps_forks s s' \<and> mEC s' = mEC s \<and> mExs s' = mExs s
          \<and> map_option op_sig (mSends s' (mFreshPtr s)) = Some (Some cb, i, b, [])
          \<and> (\<forall>x. x \<noteq> mFreshPtr s \<longrightarrow> map_option op_sig (mSends s' x) = map_option op_sig (mSends s x))
          \<and> mOut s' = mOut s @ (if ch = [] then [Resume Send_Task None] else []))"
proof (cases "tok = No_Stop")
  case True
  then show ?thesis using send_enqueued [OF inv fk err data, of cb] by simp
next
  case False
  then have tok: "tok = Stop_Possible" using tok by (cases tok) simp_all
  from send_enqueued [OF inv fk err data, of cb] show ?thesis
  proof (elim disjE exE conjE)
    assume alloc: "send sid b cb No_Stop s = Inl Bad_Alloc"
    have i: "i < length (mForks s)" using fk by (simp add: local_fork_def)
    have "qinv (mSendOps (mForks s ! i))" using inv i by (simp add: sock_inv_def sched_inv_simps send_ok_def)
    from emplace_send_cases [OF i this, of "new_send_op i cb b"] show ?thesis
    proof (elim disjE exE conjE)
      assume "emplace_send i (new_send_op i cb b) s = Inl Bad_Alloc"
      then show ?thesis using data err i getLocal_eq [OF fk] by (simp add: send_def fork_at_def)
    next
      fix q assume e: "emplace_send i (new_send_op i cb b) s = Inr (mFreshPtr s, placed_send i (new_send_op i cb b) q s)"
        and q: "qinv q" "tail_ok q" "qlist q = qlist (mSendOps (mForks s ! i)) @ [mFreshPtr s]"
      have loc: "mLocalId (mForks s ! i) \<noteq> NOT 0" using fk by (simp add: local_fork_def)
      from enqueue_inv [OF inv i err q data(1,2) loc data(3), of cb] obtain s1 where
        "enqueue_send (mFreshPtr s) (placed_send i (new_send_op i cb b) q s) = Inr s1" by blast
      then have "send sid b cb No_Stop s = Inr (None, s1)"
        using data err i getLocal_eq [OF fk] e by (simp add: send_def fork_at_def setCancelation_send_def)
      then show ?thesis using alloc by simp
    qed
  next
    fix s' assume r: "send sid b cb No_Stop s = Inr (None, s')" "sock_inv s' (ch @ [mFreshPtr s]) sp rp"
      "keeps_forks s s'" "mEC s' = mEC s" "mExs s' = mExs s"
      "map_option op_sig (mSends s' (mFreshPtr s)) = Some (Some cb, i, b, [])"
      "\<forall>x. x \<noteq> mFreshPtr s \<longrightarrow> map_option op_sig (mSends s' x) = map_option op_sig (mSends s x)"
      "mOut s' = mOut s @ (if ch = [] then [Resume Send_Task None] else [])"
    from send_registers [OF r(1) fk err data(1) inv r(6)] obtain op where op: "mSends s' (mFreshPtr s) = Some op"
      "send sid b cb Stop_Possible s = Inr (None, set_send (mFreshPtr s) (op\<lparr>so_Reg := True\<rparr>) s')" by blast
    let ?t = "set_send (mFreshPtr s) (op\<lparr>so_Reg := True\<rparr>) s'"
    have "sock_inv ?t (ch @ [mFreshPtr s]) sp rp" by (rule sock_inv_set_send [OF r(2) op(1)]) (simp_all add: op_sig_def)
    moreover have "keeps_forks s ?t" using r(3) by (simp add: keeps_forks_def)
    moreover have "map_option op_sig (mSends ?t x) = map_option op_sig (mSends s' x)" for x
      using op(1) by (simp add: set_send_def op_sig_def)
    ultimately show ?thesis using op(2) r(4-8) tok by (intro disjI2 exI [of _ ?t]) simp
  qed
qed

lemma recv_open:
  assumes inv: "sock_inv s ch sp rp" and fk: "local_fork sid s i" and err: "\<not> is_error (mEC s)"
    and d: "fresh_recv_buffer s d" and room: "Suc (recv_total s) < 2 ^ 64" and tok: "tok \<noteq> Stop_Requested"
  shows "recv sid d h tok s = Inl Bad_Alloc
     \<or> (\<exists>s' q. recv sid d h tok s = Inr s' \<and> sock_inv s' ch sp rp
          \<and> mForks s' = mForks (placed_recv i (new_recv_op d h i) q s) \<and> qlist q = qlist (mRecvOps (mForks s ! i)) @ [mFreshPtr s]
          \<and> mEC s' = mEC s \<and> mSends s' = mSends s \<and> mExs s' = mExs s \<and> mBufs s' = mBufs s
          \<and> mRemoteMap s' = mRemoteMap s \<and> mIdMap s' = mIdMap s
          \<and> (\<forall>x. map_option rop_sig (mRecvs s' x)
                = map_option rop_sig (if x = mFreshPtr s then Some (new_recv_op d h i) else mRecvs s x)))"
proof -
  have i: "i < length (mForks s)" using fk by (simp_all add: local_fork_def)
  have "qinv (mRecvOps (mForks s ! i))" using inv i by (simp add: sock_inv_def sched_inv_simps recv_ok_def)
  from emplace_recv_cases [OF i this, of "new_recv_op d h i"] show ?thesis
  proof (elim disjE exE conjE)
    assume "emplace_recv i (new_recv_op d h i) (s\<lparr>mNumRecvs := mNumRecvs s + 1\<rparr>) = Inl Bad_Alloc"
    then show ?thesis using err i getLocal_eq [OF fk] by (simp add: recv_def fork_at_def)
  next
    fix q assume q: "emplace_recv i (new_recv_op d h i) (s\<lparr>mNumRecvs := mNumRecvs s + 1\<rparr>)
        = Inr (mFreshPtr s, placed_recv i (new_recv_op d h i) q s)"
      "qinv q" "tail_ok q" "qlist q = qlist (mRecvOps (mForks s ! i)) @ [mFreshPtr s]"
    from match_recv_inv [OF inv i err q(2-4) d room, of h] obtain t where
      t: "match_recv i (mFreshPtr s) (placed_recv i (new_recv_op d h i) q s) = Inr t"
      and r: "sock_inv t ch sp rp \<and> mForks t = mForks (placed_recv i (new_recv_op d h i) q s) \<and> mEC t = mEC s
       \<and> mSends t = mSends s \<and> mExs t = mExs s \<and> mBufs t = mBufs s \<and> mRemoteMap t = mRemoteMap s \<and> mIdMap t = mIdMap s
       \<and> (\<forall>x. map_option rop_sig (mRecvs t x) = map_option rop_sig (if x = mFreshPtr s then Some (new_recv_op d h i) else mRecvs s x))"
      by blast
    have "map_option rop_sig (mRecvs t (mFreshPtr s)) = Some (rop_sig (new_recv_op d h i))" using r by simp
    then obtain op where op: "mRecvs t (mFreshPtr s) = Some op" by auto
    define u where "u = (if tok = No_Stop then t else set_recv (mFreshPtr s) (op\<lparr>ro_Reg := True\<rparr>) t)"
    have "recv sid d h tok s = Inr u"
      using err i getLocal_eq [OF fk] q(1) t op tok by (simp add: recv_def fork_at_def setCancelation_recv_def u_def)
    moreover have "sock_inv u ch sp rp"
      using r sock_inv_set_recv [OF _ op, of ch sp rp "op\<lparr>ro_Reg := True\<rparr>"] by (simp add: u_def rop_sig_def)
    moreover have "map_option rop_sig (mRecvs u x) = map_option rop_sig (mRecvs t x)" for x
      using op by (simp add: u_def rop_sig_def)
    ultimately show ?thesis using r q(4) by (intro disjI2 exI [of _ u] exI [of _ q]) (simp add: u_def)
  qed
qed

text \<open>
  C23. A stop request on an operation that the transport is working on, a send or a receive, does not
  complete the operation: it only makes the socket ask the transport to stop. All operations and
  exception cells stay as they are and the socket stays in good order.
\<close>

theorem stop_in_progress:
  assumes inv: "sock_inv s ch sp rp"
  shows "(\<forall>op. mSends s a = Some op \<longrightarrow> so_Status op \<noteq> NotStarted \<longrightarrow>
       (\<exists>s'. cancel_send a s = Inr s' \<and> sock_inv s' ch sp rp \<and> mOut s' = mOut s @ [Call_Stop_Send (mSendSrc s)]
          \<and> mExs s' = mExs s \<and> (\<forall>x. map_option op_sig (mSends s' x) = map_option op_sig (mSends s x))))
   \<and> (\<forall>op. mRecvs s a = Some op \<longrightarrow> ro_Status op = InProgress \<longrightarrow>
       (\<exists>s'. cancel_recv a s = Inr s' \<and> sock_inv s' ch sp rp \<and> mOut s' = mOut s @ [Call_Stop_Recv (mRecvSrc s)]
          \<and> mExs s' = mExs s \<and> (\<forall>x. map_option rop_sig (mRecvs s' x) = map_option rop_sig (mRecvs s x))))"
  using cancel_send_started [OF inv] cancel_recv_started [OF inv] by blast

theorem stop_in_progress_witness:
  "\<exists>s'. cancel_send 1 demo3 = Inr s' \<and> sock_inv s' [1, 2] Await_Next Await_Any \<and> mExs s' = mExs demo3"
proof -
  have "mSends demo3 1 \<noteq> None" "so_Status (the (mSends demo3 1)) \<noteq> NotStarted" by code_simp+
  then show ?thesis using stop_in_progress [OF demo3_inv, of 1] by auto
qed

end
