(* ===== verification/Sched_Tasks.thy ===== *)
theory Sched_Tasks
  imports Sched_Stop
begin

text \<open>
  The two tasks of a socket, \<^verbatim>\<open>makeSendTask\<close> and \<^verbatim>\<open>receiveDataTask\<close> of
  \<^verbatim>\<open>coproto/Socket/SocketScheduler.h\<close>, as functions that run a task from one suspension to
  the next, and the socket as a whole: its users, its tasks and the transport below it take steps in
  any order. The transport is not part of the model: the outcome of each transfer (an error code and
  the bytes that were moved) is an argument of the step.
\<close>

section \<open>The send task\<close>

text \<open>\<^verbatim>\<open>checkSend\<close> and \<^verbatim>\<open>checkRecv\<close>; the result is only tested, not assigned.\<close>

definition checkIo :: "error_code \<Rightarrow> nat \<Rightarrow> nat \<Rightarrow> error_code" where
  "checkIo ec bt n = (if \<not> is_error ec \<and> bt \<noteq> n then make_error_code IoError else ec)"

text \<open>The header of the operation; the result of a task step is where it waits and what it transmits.\<close>

definition send_header :: "nat \<Rightarrow> sched \<Rightarrow> fault + send_pc \<times> u8 list \<times> sched" where
  "send_header a s = bindR (deref (mSends s) a) (\<lambda>op. bindR (fork_at (so_Fork op) s) (\<lambda>f.
     Inr (Sending_Header a,
       header_bytes \<lparr>hSize = of_nat (length (sb_data (so_Buffer op))), hForkId = mLocalId f\<rparr>, s)))"

text \<open>Resumed from \<^verbatim>\<open>completeOpAndGetNextSend\<close>.\<close>

definition send_resumed :: "sched \<Rightarrow> fault + send_pc \<times> u8 list \<times> sched" where
  "send_resumed s = (case mSendRes s of None \<Rightarrow> Inl Assertion
     | Some (Inl e) \<Rightarrow> Inr (Send_Exit, [], s)
     | Some (Inr a) \<Rightarrow> bindR (deref (mSends s) a) (\<lambda>op. bindR (fork_at (so_Fork op) s) (\<lambda>f.
         let data = sb_data (so_Buffer op) in
         checkR (so_Status op \<noteq> NotStarted) Assertion (checkR (data \<noteq> []) Assertion
         (checkR (length data < 2 ^ 32 - 1) Assertion (checkR (mLocalId f \<noteq> NOT 0) Assertion
           (if \<not> mInitiated f
            then Inr (Sending_Meta a, meta_message (mLocalId f) (mSessionID f),
                   set_fork (so_Fork op) (f\<lparr>mInitiated := True\<rparr>) s)
            else send_header a s)))))))"

definition send_continue :: "nat \<Rightarrow> error_code \<Rightarrow> sched \<Rightarrow> fault + send_pc \<times> u8 list \<times> sched" where
  "send_continue a ec s = bindR (next_send (Some a) ec s) (\<lambda>s. Inr (Await_Next, [], s))"

text \<open>
  Resumed from \<^verbatim>\<open>sock->send\<close> of \<open>n\<close> bytes with its error code and the number of bytes sent.
\<close>

fun send_transmitted :: "send_pc \<Rightarrow> error_code \<Rightarrow> nat \<Rightarrow> nat \<Rightarrow> sched \<Rightarrow> fault + send_pc \<times> u8 list \<times> sched" where
  "send_transmitted (Sending_Meta a) ec bt n s =
     (if is_error (checkIo ec bt n) then send_continue a ec s else send_header a s)"
| "send_transmitted (Sending_Header a) ec bt n s =
     (if is_error (checkIo ec bt n) then send_continue a ec s
      else bindR (deref (mSends s) a) (\<lambda>op. Inr (Sending_Body a, sb_data (so_Buffer op), s)))"
| "send_transmitted (Sending_Body a) ec bt n s = send_continue a ec s"
| "send_transmitted pc ec bt n s = Inl Assertion"

section \<open>The receive task\<close>

definition recv_continue :: "nat option \<Rightarrow> error_code \<Rightarrow> sched \<Rightarrow> fault + recv_pc \<times> sched" where
  "recv_continue op ec s = bindR (any_recv op ec s) (\<lambda>s. Inr (Await_Any, s))"

text \<open>\<^verbatim>\<open>asSpan\<close> of a receive operation, and the bytes that arrive in its buffer.\<close>

definition recv_op_asSpan :: "nat \<Rightarrow> u64 \<Rightarrow> sched \<Rightarrow> fault + nat \<times> sched" where
  "recv_op_asSpan a sz s = bindR (deref (mRecvs s) a) (\<lambda>op. bindR (deref (mBufs s) (ro_Buffer op)) (\<lambda>b.
     bindR (recv_asSpan b sz (mExs s)) (\<lambda>(n, b, ex).
       Inr (n, s\<lparr>mBufs := (mBufs s)(ro_Buffer op \<mapsto> b), mExs := ex\<rparr>))))"

definition recv_op_fill :: "nat \<Rightarrow> u8 list \<Rightarrow> sched \<Rightarrow> fault + sched" where
  "recv_op_fill a bs s = bindR (deref (mRecvs s) a) (\<lambda>op. bindR (deref (mBufs s) (ro_Buffer op)) (\<lambda>b.
     Inr (s\<lparr>mBufs := (mBufs s)(ro_Buffer op \<mapsto> fill_span bs b)\<rparr>)))"

text \<open>Resumed from \<^verbatim>\<open>completeOpAndWaitForAnyRecv\<close> and from \<^verbatim>\<open>getRequestedRecvSocketFork\<close>.\<close>

fun recv_resumed :: "recv_pc \<Rightarrow> sched \<Rightarrow> fault + recv_pc \<times> sched" where
  "recv_resumed Await_Any s = (case mAnyRes s of None \<Rightarrow> Inl Assertion
     | Some e \<Rightarrow> Inr (if is_error e then Recv_Exit else Reading_Header, s))"
| "recv_resumed (Await_Fork h) s = (case mGetRes s of None \<Rightarrow> Inl Assertion
     | Some (Inl e) \<Rightarrow> recv_continue None e s
     | Some (Inr a) \<Rightarrow> bindR (recv_op_asSpan a (ucast (hSize h)) s) (\<lambda>(n, s).
         if n \<noteq> unat (hSize h) then recv_continue (Some a) (make_error_code BadBufferSize) s
         else Inr (Reading_Body h a, s)))"
| "recv_resumed pc s = Inl Assertion"

text \<open>
  Resumed from \<^verbatim>\<open>sock->recv\<close> with its error code and the bytes received. The first operation
  of the next round is none unless a body was read, and the error code of the round is passed on.
\<close>

fun recv_received :: "recv_pc \<Rightarrow> error_code \<Rightarrow> u8 list \<Rightarrow> sched \<Rightarrow> fault + recv_pc \<times> sched" where
  "recv_received Reading_Header ec bs s =
     (if is_error (checkIo ec (length bs) 8) then recv_continue None ec s
      else let h = read_header bs in
        if hSize h = 0 then Inr (Reading_Control h, s)
        else bindR (get_recv (hForkId h) s) (\<lambda>s. Inr (Await_Fork h, s)))"
| "recv_received (Reading_Control h) ec bs s =
     (if is_error (checkIo ec (length bs) 16) then recv_continue None ec s
      else bindR (initRemoteSocketFork (hForkId h) (getSessionID bs) s) (\<lambda>(ec, s).
        if is_error ec then recv_continue None ec s else Inr (Reading_Header, s)))"
| "recv_received (Reading_Body h a) ec bs s =
     bindR (recv_op_fill a bs s) (recv_continue (Some a) ec)"
| "recv_received pc ec bs s = Inl Assertion"

text \<open>How many bytes the receive task asks the transport for.\<close>

fun recv_wanted :: "recv_pc \<Rightarrow> nat" where
  "recv_wanted Reading_Header = 8"
| "recv_wanted (Reading_Control h) = 16"
| "recv_wanted (Reading_Body h a) = unat (hSize h)"
| "recv_wanted pc = 0"

section \<open>The socket and its environment\<close>

record world =
  wSched :: sched
  wSend :: send_pc
  wSending :: "u8 list"
  wRecv :: recv_pc
  wBytesSent :: u64
  wBytesReceived :: u64

datatype action =
    Act_Send session_id send_buffer nat stop_token
  | Act_Recv session_id nat nat stop_token
  | Act_Buffer nat recv_buffer
  | Act_Flush nat
  | Act_Close
  | Act_Fork session_id
  | Act_Executor nat session_id
  | Act_Stop_Send nat
  | Act_Stop_Recv nat
  | Send_Resumed
  | Transmitted error_code nat
  | Recv_Resumed
  | Received error_code "u8 list"

definition on_sched :: "(sched \<Rightarrow> fault + sched) \<Rightarrow> world \<Rightarrow> fault + world" where
  "on_sched f w = bindR (f (wSched w)) (\<lambda>s. Inr (w\<lparr>wSched := s\<rparr>))"

definition on_send :: "fault + send_pc \<times> u8 list \<times> sched \<Rightarrow> world \<Rightarrow> fault + world" where
  "on_send r w = bindR r (\<lambda>(pc, bs, s). Inr (w\<lparr>wSched := s, wSend := pc, wSending := bs\<rparr>))"

definition on_recv :: "fault + recv_pc \<times> sched \<Rightarrow> world \<Rightarrow> fault + world" where
  "on_recv r w = bindR r (\<lambda>(pc, s). Inr (w\<lparr>wSched := s, wRecv := pc\<rparr>))"

fun perform :: "action \<Rightarrow> world \<Rightarrow> fault + world" where
  "perform (Act_Send sid b cb tok) w = on_sched (\<lambda>s. bindR (send sid b cb tok s) (\<lambda>(r, s). Inr s)) w"
| "perform (Act_Recv sid d h tok) w = on_sched (recv sid d h tok) w"
| "perform (Act_Buffer d b) w = on_sched (\<lambda>s. Inr (with_buffer d b s)) w"
| "perform (Act_Flush h) w = on_sched (\<lambda>s. bindR (flush h s) (\<lambda>(r, s). Inr s)) w"
| "perform Act_Close w = on_sched sched_close w"
| "perform (Act_Fork sid) w = on_sched (\<lambda>s. bindR (sched_fork sid s) (\<lambda>(r, s). Inr s)) w"
| "perform (Act_Executor ex sid) w = on_sched (setExecutor ex sid) w"
| "perform (Act_Stop_Send a) w = on_sched (cancel_send a) w"
| "perform (Act_Stop_Recv a) w = on_sched (cancel_recv a) w"
| "perform Send_Resumed w = on_send (send_resumed (wSched w)) w"
| "perform (Transmitted ec n) w =
     on_send (send_transmitted (wSend w) ec n (length (wSending w)) (wSched w)) (w\<lparr>wBytesSent := wBytesSent w + of_nat n\<rparr>)"
| "perform Recv_Resumed w = on_recv (recv_resumed (wRecv w) (wSched w)) w"
| "perform (Received ec bs) w =
     on_recv (recv_received (wRecv w) ec bs (wSched w)) (w\<lparr>wBytesReceived := wBytesReceived w + of_nat (length bs)\<rparr>)"

end
