(* ===== verification/Sched_World.thy ===== *)
theory Sched_World
  imports Sched_Tasks
begin

text \<open>
  The steps of both tasks keep the socket in good order, whatever the transport answers; the
  safety theorem for every interleaving of users, tasks and transport.
\<close>

section \<open>The send task\<close>

lemma header_phase:
  assumes inv: "sock_inv s (a # r) sp rp" and idle: "\<not> mNextSendOp s" and pc: "busy_op pc = Some a"
  shows "sock_inv s (a # r) pc rp"
proof -
  have "pc \<noteq> Await_Next" using pc by auto
  then show ?thesis using inv idle pc by (simp add: sock_inv_def send_phase_def active_op_def)
qed

lemma initiate_inv:
  assumes inv: "sock_inv s ch sp rp" and i: "i < length (mForks s)"
  shows "sock_inv (set_fork i ((mForks s ! i)\<lparr>mInitiated := True\<rparr>) s) ch sp rp"
proof -
  let ?s = "set_fork i ((mForks s ! i)\<lparr>mInitiated := True\<rparr>) s"
  have c: "core_ok ?s ch" using inv i by (intro set_fork_core) (simp_all add: sock_inv_def sched_inv_def)
  have sq: "same_queues s ?s" using i by (intro set_fork_same_queues) simp_all
  have "sched_inv ?s ch"
  proof (rule same_queues_inv [OF _ sq c])
    show "sched_inv s ch" using inv by (simp add: sock_inv_def)
    show "mLocalId (mForks ?s ! j) \<noteq> NOT 0" if "j < length (mForks s)" "mLocalId (mForks s ! j) \<noteq> NOT 0" for j
      using that by (cases "j = i") (simp_all add: set_fork_def)
  qed
  moreover have "send_phase ?s ch sp" "recv_phase ?s rp"
    using same_queues_phases [OF sq] inv by (simp_all add: sock_inv_def set_fork_def)
  ultimately show ?thesis by (simp add: sock_inv_def)
qed

lemma sends_okD:
  assumes "sock_inv s ch sp rp" and "a \<in> set ch"
  obtains op where "mSends s a = Some op" "so_Fork op < length (mForks s)" "sb_data (so_Buffer op) \<noteq> []"
    "length (sb_data (so_Buffer op)) < 2 ^ 32 - 1" "mLocalId (mForks s ! so_Fork op) \<noteq> NOT 0"
proof -
  have so: "send_ok s ch" "sends_ok s" using assms(1) by (simp_all add: sock_inv_def sched_inv_simps)
  have "dom (mSends s) = set ch" using so(1) unfolding send_ok_def by blast
  then obtain op where op: "mSends s a = Some op" using assms(2) by blast
  have "fork_of s a < length (mForks s)" using so(1) assms(2) unfolding send_ok_def by blast
  then have "so_Fork op < length (mForks s)" using op by (simp add: fork_of_def)
  then show thesis using that op so(2) unfolding sends_ok_def by blast
qed

lemma send_resumed_ok:
  assumes inv: "sock_inv s ch Await_Next rp" and idle: "\<not> mNextSendOp s"
  shows "(ch = [] \<and> send_resumed s = Inr (Send_Exit, [], s) \<and> sock_inv s [] Send_Exit rp)
     \<or> (\<exists>a r op. ch = a # r \<and> mSends s a = Some op
          \<and> (if mInitiated (mForks s ! so_Fork op)
             then send_resumed s = Inr (Sending_Header a,
                 header_bytes \<lparr>hSize = of_nat (length (sb_data (so_Buffer op))), hForkId = mLocalId (mForks s ! so_Fork op)\<rparr>, s)
               \<and> sock_inv s ch (Sending_Header a) rp
             else (let s' = set_fork (so_Fork op) ((mForks s ! so_Fork op)\<lparr>mInitiated := True\<rparr>) s in
               send_resumed s = Inr (Sending_Meta a, meta_message (mLocalId (mForks s ! so_Fork op)) (mSessionID (mForks s ! so_Fork op)), s')
               \<and> sock_inv s' ch (Sending_Meta a) rp)))"
proof (cases ch)
  case Nil
  have ph: "send_phase s [] Await_Next" using inv Nil by (simp add: sock_inv_def)
  then obtain e where e: "mSendRes s = Some (Inl e)"
    using idle by (auto simp: send_phase_def active_op_def split: option.splits sum.splits)
  have "is_error (mEC s)" using ph idle by (simp add: send_phase_def)
  then have "send_phase s [] Send_Exit" using ph idle by (simp add: send_phase_def active_op_def)
  then show ?thesis using inv Nil e by (simp add: send_resumed_def sock_inv_def)
next
  case (Cons a r)
  have ph: "send_phase s (a # r) Await_Next" using inv Cons by (simp add: sock_inv_def)
  then have res: "mSendRes s = Some (Inr a)"
    using idle by (auto simp: send_phase_def active_op_def split: option.splits sum.splits)
  obtain op where op: "mSends s a = Some op" "so_Fork op < length (mForks s)" "sb_data (so_Buffer op) \<noteq> []"
    "length (sb_data (so_Buffer op)) < 2 ^ 32 - 1" "mLocalId (mForks s ! so_Fork op) \<noteq> NOT 0"
    by (rule sends_okD [OF inv]) (use Cons in auto)
  have st: "so_Status op \<noteq> NotStarted" using ph op(1) by (simp add: send_phase_def)
  note head = header_phase [OF inv [unfolded Cons] idle]
  show ?thesis
  proof (cases "mInitiated (mForks s ! so_Fork op)")
    case True
    have "send_resumed s = send_header a s"
      using res op st True by (simp add: send_resumed_def fork_at_def)
    then show ?thesis using Cons op(1,2) True head [of "Sending_Header a"] by (simp add: send_header_def fork_at_def)
  next
    case False
    let ?s' = "set_fork (so_Fork op) ((mForks s ! so_Fork op)\<lparr>mInitiated := True\<rparr>) s"
    have "send_resumed s = Inr (Sending_Meta a, meta_message (mLocalId (mForks s ! so_Fork op)) (mSessionID (mForks s ! so_Fork op)), ?s')"
      using res op st False by (simp add: send_resumed_def fork_at_def)
    moreover have "sock_inv ?s' (a # r) (Sending_Meta a) rp" by (rule initiate_inv [OF head op(2)]) simp
    ultimately show ?thesis using Cons op(1) False by (simp add: Let_def)
  qed
qed

lemma busy_chain: "sock_inv s ch sp rp \<Longrightarrow> busy_op sp = Some a \<Longrightarrow> \<exists>r. ch = a # r"
  by (cases sp; cases ch) (auto simp: sock_inv_def send_phase_def active_op_def)

text \<open>What follows a transfer of the send task: go on with the same operation, or complete it.\<close>

lemma send_transmitted_ok:
  assumes inv: "sock_inv s (a # r) sp rp" and busy: "busy_op sp = Some a" and op: "mSends s a = Some op"
  shows "(\<exists>s'. send_transmitted sp ec k n s = Inr (Await_Next, [], s')
        \<and> (is_error (checkIo ec k n) \<or> sp = Sending_Body a) \<and> next_send (Some a) ec s = Inr s'
        \<and> sock_inv s' (if is_error ec \<or> is_error (mEC s) then [] else r) Await_Next rp)
   \<or> (sp = Sending_Meta a \<and> \<not> is_error (checkIo ec k n) \<and> sock_inv s (a # r) (Sending_Header a) rp
        \<and> send_transmitted sp ec k n s = Inr (Sending_Header a,
            header_bytes \<lparr>hSize = of_nat (length (sb_data (so_Buffer op))), hForkId = mLocalId (mForks s ! so_Fork op)\<rparr>, s))
   \<or> (sp = Sending_Header a \<and> \<not> is_error (checkIo ec k n) \<and> sock_inv s (a # r) (Sending_Body a) rp
        \<and> send_transmitted sp ec k n s = Inr (Sending_Body a, sb_data (so_Buffer op), s))"
proof -
  obtain s' where s': "next_send (Some a) ec s = Inr s'" "sock_inv s' (if is_error ec \<or> is_error (mEC s) then [] else r) Await_Next rp"
    using next_send_inv [OF inv busy, of ec] by blast
  have idle: "\<not> mNextSendOp s" using inv busy by (auto simp: sock_inv_def send_phase_def)
  obtain op' where op': "mSends s a = Some op'" "so_Fork op' < length (mForks s)"
    by (rule sends_okD [OF inv, of a]) auto
  note head = header_phase [OF inv idle]
  have fork: "so_Fork op < length (mForks s)" using op op' by simp
  have cont: "send_continue a ec s = Inr (Await_Next, [], s')" using s'(1) by (simp add: send_continue_def)
  have sp: "sp = Sending_Meta a \<or> sp = Sending_Header a \<or> sp = Sending_Body a" using busy by (cases sp) auto
  show ?thesis
  proof (cases "is_error (checkIo ec k n) \<or> sp = Sending_Body a")
    case True
    then have "send_transmitted sp ec k n s = Inr (Await_Next, [], s')" using sp cont by auto
    then show ?thesis using True s' by blast
  next
    case False
    then show ?thesis using sp op fork head [of "Sending_Header a"] head [of "Sending_Body a"]
      by (auto simp: send_header_def fork_at_def)
  qed
qed

section \<open>The receive task\<close>

lemma unat_ucast_u64: "unat (ucast (x :: u32) :: u64) = unat x"
proof -
  have "unat x < 2 ^ 32" using unsigned_less [of x] by simp
  then have "unat x < 2 ^ 64" by simp
  then show ?thesis by (simp add: unsigned_ucast_eq take_bit_nat_eq_self)
qed

text \<open>Every pending receive can still report an error to its awaiter.\<close>

definition live :: "sched \<Rightarrow> bool" where
  "live s \<longleftrightarrow> (\<forall>a op b. mRecvs s a = Some op \<longrightarrow> mBufs s (ro_Buffer op) = Some b \<longrightarrow> rb_ex b \<noteq> None)"

lemma live_quiet: "live s \<Longrightarrow> quiet s s' \<Longrightarrow> live s'"
  unfolding live_def quiet_def by metis

lemma recv_phase_pc:
  assumes ph: "recv_phase s rp" and idle: "\<not> mAnyRecvOp s" "mGetReq s = None"
    and pc: "rp' \<noteq> Await_Any" "\<And>h. rp' \<noteq> Await_Fork h" "\<And>h a. rp' = Reading_Body h a \<Longrightarrow> recv_front s (hForkId h) a"
  shows "recv_phase s rp'"
  by (rule recv_phaseI) (use idle pc in \<open>simp_all\<close>)

lemma recv_phase_idle:
  assumes ph: "recv_phase s rp"
  shows "rp \<noteq> Await_Any \<Longrightarrow> \<not> mAnyRecvOp s" and "(\<And>h. rp \<noteq> Await_Fork h) \<Longrightarrow> mGetReq s = None"
  using recv_phaseD(1,2) [OF ph] by (auto intro: ccontr)

lemma recv_continue_None:
  assumes inv: "sock_inv s ch sp rp" and idle: "\<not> mAnyRecvOp s" "mGetReq s = None"
  shows "\<exists>s'. recv_continue None ec s = Inr (Await_Any, s') \<and> any_recv None ec s = Inr s' \<and> sock_inv s' ch sp Await_Any \<and> quiet s s'"
proof -
  have "sched_inv s ch" "send_phase s ch sp" using inv by (simp_all add: sock_inv_def)
  from any_recv_None_inv [OF this idle, of ec] obtain s' where "any_recv None ec s = Inr s'" "sock_inv s' ch sp Await_Any" by blast
  then show ?thesis using quiet_any_recv_None by (simp add: recv_continue_def)
qed

lemma recv_continue_Some:
  assumes inv: "sched_inv s ch" and sp: "send_phase s ch sp" and idle: "\<not> mAnyRecvOp s" "mGetReq s = None"
    and fr: "recv_front s r a"
  shows "\<exists>s'. recv_continue (Some a) ec s = Inr (Await_Any, s') \<and> any_recv (Some a) ec s = Inr s' \<and> sock_inv s' ch sp Await_Any \<and> quiet s s'
     \<and> (is_error ec \<longrightarrow> (\<forall>a. mRecvs s' a = None))"
proof -
  obtain s' where s': "any_recv (Some a) ec s = Inr s'" "sock_inv s' ch sp Await_Any" "is_error ec \<longrightarrow> (\<forall>a. mRecvs s' a = None)"
    using any_recv_Some_inv [OF inv sp idle fr, of ec] by (auto split: if_splits)
  then show ?thesis using quiet_any_recv [OF inv fr s'(1)] by (simp add: recv_continue_def)
qed

text \<open>Changes of the buffer of a pending receive, and the error noted in its cell.\<close>

definition rebuf :: "nat \<Rightarrow> recv_buffer \<Rightarrow> exn_store \<Rightarrow> sched \<Rightarrow> sched" where
  "rebuf d b ex s = s\<lparr>mBufs := (mBufs s)(d \<mapsto> b), mExs := ex\<rparr>"

lemma rebuf_fields [simp]:
  "mForks (rebuf d b ex s) = mForks s" "mSends (rebuf d b ex s) = mSends s" "mRecvs (rebuf d b ex s) = mRecvs s"
  "mAnyRecvOp (rebuf d b ex s) = mAnyRecvOp s" "mGetReq (rebuf d b ex s) = mGetReq s" "mEC (rebuf d b ex s) = mEC s"
  "mRemoteMap (rebuf d b ex s) = mRemoteMap s" "mBufs (rebuf d b ex s) = (mBufs s)(d \<mapsto> b)" "mExs (rebuf d b ex s) = ex"
  "mOut (rebuf d b ex s) = mOut s" "mIdMap (rebuf d b ex s) = mIdMap s" "mFreshPtr (rebuf d b ex s) = mFreshPtr s"
  "recv_total (rebuf d b ex s) = recv_total s" "recv_front (rebuf d b ex s) r a = recv_front s r a"
  by (simp_all add: rebuf_def recv_total_def recv_front_def)

lemma rebuf_inv:
  assumes inv: "sched_inv s ch" and op: "mRecvs s a = Some op" and b: "mBufs s (ro_Buffer op) = Some b"
    and b': "rb_ex b' = rb_ex b \<or> rb_ex b' = None" and ex: "ex = mExs s \<or> (\<exists>p e. rb_ex b = Some p \<and> ex = (mExs s)(p \<mapsto> e))"
  shows "sched_inv (rebuf (ro_Buffer op) b' ex s) ch"
proof -
  let ?s = "rebuf (ro_Buffer op) b' ex s"
  have c: "cells_ok s" and ro: "recv_ok s" using inv by (simp_all add: sched_inv_simps)
  have "send_ok ?s ch = send_ok s ch" "token_inv ?s = token_inv s" "ids_ok ?s = ids_ok s" by (simp_all add: rebuf_def)
  moreover have "recv_ok ?s" using ro unfolding recv_ok_def rebuf_fields by (simp split: if_splits)
  moreover have "cells_ok ?s"
    unfolding cells_ok_def rebuf_fields
  proof (intro allI impI conjI)
    fix x o1 p assume x: "mSends s x = Some o1" "sb_ex (so_Buffer o1) = Some p"
    have np: "rb_ex b \<noteq> Some p" using c x op b unfolding cells_ok_def by blast
    have "mExs s p = None" using c x unfolding cells_ok_def by blast
    then show "ex p = None" using ex np by auto
    show "y = x" if "mSends s y = Some op'" "sb_ex (so_Buffer op') = Some p" for y op'
      using c x that unfolding cells_ok_def by blast
    show "rb_ex buf \<noteq> Some p" if y: "mRecvs s y = Some rop" "((mBufs s)(ro_Buffer op \<mapsto> b')) (ro_Buffer rop) = Some buf" for y rop buf
    proof (cases "ro_Buffer rop = ro_Buffer op")
      case True
      then show ?thesis using y b' np by auto
    next
      case False
      then have "mBufs s (ro_Buffer rop) = Some buf" using y by simp
      then show ?thesis using c x y(1) unfolding cells_ok_def by blast
    qed
  qed
  moreover have "bufs_ok ?s" using inv unfolding sched_inv_def bufs_ok_def rebuf_fields by (simp split: if_splits)
  ultimately show ?thesis
    using inv by (simp add: sched_inv_simps count_ok_def tails_ok_def sends_ok_def) (simp add: rebuf_def)
qed

lemma rebuf_phases:
  "send_phase s ch sp \<Longrightarrow> send_phase (rebuf d b ex s) ch sp" "recv_phase s rp \<Longrightarrow> recv_phase (rebuf d b ex s) rp"
  using send_phase_cong [of "rebuf d b ex s" s] recv_phase_cong [of "rebuf d b ex s" s] by (simp_all add: rebuf_def)

lemma live_rebuf:
  "live s \<Longrightarrow> mRecvs s a = Some op \<Longrightarrow> mBufs s (ro_Buffer op) = Some b \<Longrightarrow> rb_ex b' = rb_ex b \<Longrightarrow> live (rebuf (ro_Buffer op) b' ex s)"
  unfolding live_def by (simp split: if_splits)

lemma recv_frontD:
  assumes inv: "sched_inv s ch" and fr: "recv_front s r a"
  obtains op b where "mRecvs s a = Some op" "mBufs s (ro_Buffer op) = Some b"
proof -
  have ro: "recv_ok s" "bufs_ok s" using inv by (simp_all add: sched_inv_simps)
  obtain i q where i: "i < length (mForks s)" "qlist (mRecvOps (mForks s ! i)) = a # q" using fr by (auto simp: recv_front_def)
  have "\<exists>op. mRecvs s a = Some op \<and> ro_Fork op = i" using ro(1) i unfolding recv_ok_def by (metis list.set_intros(1))
  then obtain op where op: "mRecvs s a = Some op" by blast
  moreover obtain b where "mBufs s (ro_Buffer op) = Some b" using ro(2) op unfolding bufs_ok_def by blast
  ultimately show thesis by (rule that)
qed

lemma recv_asSpan_cases:
  assumes "rb_ex b \<noteq> None"
  shows "\<exists>k b' x. recv_asSpan b sz ex = Inr (k, b', x)
     \<and> (if k = unat sz then rb_ex b' = rb_ex b \<and> x = ex else rb_ex b' = None \<and> (\<exists>p e. rb_ex b = Some p \<and> x = ex(p \<mapsto> e)))"
proof -
  obtain p where p: "rb_ex b = Some p" using assms by blast
  obtain k c where c: "(if rb_allow b then tryResize (unat sz) (rb_cont b) True else (u8Size (rb_cont b), rb_cont b)) = (k, c)"
    by (cases "if rb_allow b then tryResize (unat sz) (rb_cont b) True else (u8Size (rb_cont b), rb_cont b)")
  show ?thesis
  proof (cases "k = unat sz")
    case True
    then have "recv_asSpan b sz ex = Inr (k, b\<lparr>rb_cont := c\<rparr>, ex)" by (simp add: recv_asSpan_def c)
    then show ?thesis using True by simp
  next
    case False
    then have "recv_asSpan b sz ex = Inr (k, b\<lparr>rb_cont := c, rb_ex := None\<rparr>, ex(p \<mapsto> BadReceiveBufferSize (of_nat k) sz ''''))"
      by (simp add: recv_asSpan_def c p)
    then show ?thesis using False p by auto
  qed
qed

section \<open>What no step disturbs\<close>

text \<open>
  Existing forks keep their identifier and, once they have one, their local number; new forks are not
  initiated; pending sends keep their message. (\<^verbatim>\<open>mInitiated\<close> is set by the send task only.)
\<close>

definition calm :: "sched \<Rightarrow> sched \<Rightarrow> bool" where
  "calm s s' \<longleftrightarrow> length (mForks s) \<le> length (mForks s')
     \<and> (\<forall>i < length (mForks s). sid_key (mSessionID (mForks s' ! i)) = sid_key (mSessionID (mForks s ! i))
          \<and> mInitiated (mForks s' ! i) = mInitiated (mForks s ! i)
          \<and> (mLocalId (mForks s ! i) \<noteq> NOT 0 \<longrightarrow> mLocalId (mForks s' ! i) = mLocalId (mForks s ! i)))
     \<and> (\<forall>i. length (mForks s) \<le> i \<longrightarrow> i < length (mForks s') \<longrightarrow> \<not> mInitiated (mForks s' ! i))
     \<and> (\<forall>a op'. mSends s' a = Some op' \<longrightarrow> (\<exists>op. mSends s a = Some op \<and> so_Fork op' = so_Fork op \<and> so_Buffer op' = so_Buffer op))
     \<and> (is_error (mEC s) \<longrightarrow> is_error (mEC s'))"

lemma calm_same: "mForks s' = mForks s \<Longrightarrow> mSends s' = mSends s \<Longrightarrow> mEC s' = mEC s \<Longrightarrow> calm s s'"
  by (simp add: calm_def)

lemma calm_refl [simp]: "calm s s"
  by (simp add: calm_same)

lemma calm_trans [trans]: "calm s t \<Longrightarrow> calm t u \<Longrightarrow> calm s u"
  unfolding calm_def
proof (elim conjE, intro conjI allI impI)
  fix a op' assume st: "\<forall>a op'. mSends t a = Some op' \<longrightarrow> (\<exists>op. mSends s a = Some op \<and> so_Fork op' = so_Fork op \<and> so_Buffer op' = so_Buffer op)"
    and tu: "\<forall>a op'. mSends u a = Some op' \<longrightarrow> (\<exists>op. mSends t a = Some op \<and> so_Fork op' = so_Fork op \<and> so_Buffer op' = so_Buffer op)"
    and "mSends u a = Some op'"
  then show "\<exists>op. mSends s a = Some op \<and> so_Fork op' = so_Fork op \<and> so_Buffer op' = so_Buffer op" by metis
next
  fix i assume l: "length (mForks s) \<le> length (mForks t)" "length (mForks t) \<le> length (mForks u)"
    and st: "\<forall>i. length (mForks s) \<le> i \<longrightarrow> i < length (mForks t) \<longrightarrow> \<not> mInitiated (mForks t ! i)"
    and tu: "\<forall>i. length (mForks t) \<le> i \<longrightarrow> i < length (mForks u) \<longrightarrow> \<not> mInitiated (mForks u ! i)"
      "\<forall>i < length (mForks t). sid_key (mSessionID (mForks u ! i)) = sid_key (mSessionID (mForks t ! i))
          \<and> mInitiated (mForks u ! i) = mInitiated (mForks t ! i)
          \<and> (mLocalId (mForks t ! i) \<noteq> NOT 0 \<longrightarrow> mLocalId (mForks u ! i) = mLocalId (mForks t ! i))"
    and i: "length (mForks s) \<le> i" "i < length (mForks u)"
  show "\<not> mInitiated (mForks u ! i)" using st tu i by (cases "i < length (mForks t)") auto
qed auto

lemma calm_quiet: "quiet s s' \<Longrightarrow> calm s s'"
proof -
  assume q: "quiet s s'"
  have f: "sid_key (mSessionID (mForks s' ! i)) = sid_key (mSessionID (mForks s ! i)) \<and> mInitiated (mForks s' ! i) = mInitiated (mForks s ! i)
      \<and> mLocalId (mForks s' ! i) = mLocalId (mForks s ! i)" for i
  proof -
    obtain q r where "mForks s' ! i = (mForks s ! i)\<lparr>mRecvOps := q, mSendOps := r\<rparr>" using q unfolding quiet_def by blast
    then show ?thesis by simp
  qed
  then show ?thesis using q unfolding calm_def quiet_def by simp
qed

section \<open>The receive task, continued\<close>

text \<open>A resumed task waits again, reads a header, or has made the buffer fit and reads the body.\<close>

lemma recv_resumed_ok:
  assumes inv: "sock_inv s ch sp rp" and lv: "live s"
    and res: "rp = Await_Any \<and> \<not> mAnyRecvOp s \<or> (\<exists>h. rp = Await_Fork h \<and> mGetReq s = None)"
  shows "\<exists>rp' s'. recv_resumed rp s = Inr (rp', s') \<and> sock_inv s' ch sp rp' \<and> live s' \<and> calm s s'"
proof -
  have sinv: "sched_inv s ch" and sp: "send_phase s ch sp" and ph: "recv_phase s rp" using inv by (simp_all add: sock_inv_def)
  from res show ?thesis
  proof (elim disjE exE conjE)
    assume rp: "rp = Await_Any" "\<not> mAnyRecvOp s"
    obtain e where e: "mAnyRes s = Some e" using recv_phaseD(3) [OF ph rp] by blast
    let ?rp = "if is_error e then Recv_Exit else Reading_Header"
    have "mGetReq s = None" by (rule recv_phase_idle(2) [OF ph]) (simp add: rp(1))
    then have "recv_phase s ?rp" by (intro recv_phase_pc [OF ph rp(2)]) (simp_all split: if_splits)
    then show ?thesis using rp(1) e sinv sp lv
      by (intro exI [of _ ?rp] exI [of _ s]) (simp add: sock_inv_def)
  next
    fix h assume rp: "rp = Await_Fork h" and none: "mGetReq s = None"
    have idle: "\<not> mAnyRecvOp s" by (rule recv_phase_idle(1) [OF ph]) (simp add: rp)
    have ok: "get_ok s (hForkId h) (mGetRes s)" by (rule recv_phaseD(4) [OF ph rp none])
    show ?thesis
    proof (cases "mGetRes s")
      case None
      then show ?thesis using ok by simp
    next
      case (Some v)
      show ?thesis
      proof (cases v)
        case (Inl e)
        from recv_continue_None [OF inv idle none, of e] obtain s' where
          "recv_continue None e s = Inr (Await_Any, s')" "sock_inv s' ch sp Await_Any" "quiet s s'" by blast
        then show ?thesis using rp Some Inl live_quiet [OF lv] calm_quiet
          by (intro exI [of _ Await_Any] exI [of _ s']) simp
      next
        case (Inr a)
        have fr: "recv_front s (hForkId h) a" using ok Some Inr by simp
        obtain op b where op: "mRecvs s a = Some op" and b: "mBufs s (ro_Buffer op) = Some b"
          by (rule recv_frontD [OF sinv fr])
        have ex: "rb_ex b \<noteq> None" using lv op b unfolding live_def by blast
        let ?sz = "ucast (hSize h) :: u64"
        have sz: "unat ?sz = unat (hSize h)" by (rule unat_ucast_u64)
        from recv_asSpan_cases [OF ex, of ?sz "mExs s"] obtain k b' x where as: "recv_asSpan b ?sz (mExs s) = Inr (k, b', x)"
          and k: "if k = unat ?sz then rb_ex b' = rb_ex b \<and> x = mExs s
            else rb_ex b' = None \<and> (\<exists>p e. rb_ex b = Some p \<and> x = (mExs s)(p \<mapsto> e))"
          by blast
        let ?t = "rebuf (ro_Buffer op) b' x s"
        have span: "recv_op_asSpan a ?sz s = Inr (k, ?t)" using op b as by (simp add: recv_op_asSpan_def rebuf_def)
        have t: "sched_inv ?t ch" by (rule rebuf_inv [OF sinv op b]) (use k in \<open>auto split: if_splits\<close>)
        have tp: "send_phase ?t ch sp" "\<not> mAnyRecvOp ?t" "mGetReq ?t = None" "recv_front ?t (hForkId h) a"
          using rebuf_phases(1) [OF sp] idle none fr by simp_all
        show ?thesis
        proof (cases "k = unat ?sz")
          case True
          have "recv_phase ?t (Reading_Body h a)"
            by (rule recv_phase_pc [OF rebuf_phases(2) [OF ph] tp(2,3)]) (use tp(4) in auto)
          then have "sock_inv ?t ch sp (Reading_Body h a)" using t tp(1) by (simp add: sock_inv_def)
          moreover have "live ?t" by (rule live_rebuf [OF lv op b]) (use k True in simp)
          ultimately show ?thesis using rp Some Inr span True sz
            by (intro exI [of _ "Reading_Body h a"] exI [of _ ?t]) (simp add: calm_same)
        next
          case False
          from recv_continue_Some [OF t tp, of "make_error_code BadBufferSize"] obtain s' where
            s': "recv_continue (Some a) (make_error_code BadBufferSize) ?t = Inr (Await_Any, s')" "sock_inv s' ch sp Await_Any"
              "quiet ?t s'" "\<forall>a. mRecvs s' a = None" by auto
          have "calm s s'" using calm_trans [OF calm_same calm_quiet [OF s'(3)]] by simp
          moreover have "live s'" using s'(4) by (simp add: live_def)
          ultimately show ?thesis using rp Some Inr span False sz s'(1,2)
            by (intro exI [of _ Await_Any] exI [of _ s']) simp
        qed
      qed
    qed
  qed
qed

lemma initRemote_calm:
  assumes core: "core_ok s ch" and run: "initRemoteSocketFork slot sid s = Inr (ec, s')"
  shows "calm s s'" and "mRecvs s' = mRecvs s" and "mBufs s' = mBufs s" and "mAnyRecvOp s' = mAnyRecvOp s" and "mGetReq s' = mGetReq s"
proof -
  let ?b = "local_base sid s" and ?i = "local_target sid s"
  have ids: "ids_ok s" using core by (simp add: core_ok_def)
  have b: "calm s ?b" by (auto simp: calm_def local_base_def with_fork_def nth_append less_Suc_eq_le)
  have a: "calm s (announced slot sid s)"
    using b local_target_less [OF ids, of sid]
    unfolding calm_def announced_def Let_def set_fork_def by (auto simp: nth_list_update)
  from initRemote_cases [OF core, of slot sid] run have "s' = s \<or> s' = ?b \<or> s' = announced slot sid s" by (auto split: if_splits)
  then show "calm s s'" "mRecvs s' = mRecvs s" "mBufs s' = mBufs s" "mAnyRecvOp s' = mAnyRecvOp s" "mGetReq s' = mGetReq s"
    using a b by (auto simp: announced_def local_base_def with_fork_def Let_def set_fork_def split: if_splits)
qed

lemma recv_received_ok:
  assumes inv: "sock_inv s ch sp rp" and lv: "live s" and reading: "recv_wanted rp \<noteq> 0 \<or> (\<exists>h a. rp = Reading_Body h a)"
    and honest: "\<And>h. rp = Reading_Control h \<Longrightarrow> \<not> is_error (checkIo ec (length bs) 16) \<Longrightarrow> hForkId h \<noteq> NOT 0 \<Longrightarrow> mRemoteMap s (hForkId h) = None"
  shows "\<exists>rp' s'. recv_received rp ec bs s = Inr (rp', s') \<and> sock_inv s' ch sp rp' \<and> live s' \<and> calm s s'"
proof -
  have sinv: "sched_inv s ch" and sp: "send_phase s ch sp" and ph: "recv_phase s rp" using inv by (simp_all add: sock_inv_def)
  have cases: "rp = Reading_Header \<or> (\<exists>h. rp = Reading_Control h) \<or> (\<exists>h a. rp = Reading_Body h a)"
    using reading by (cases rp) auto
  have idle: "\<not> mAnyRecvOp s" "mGetReq s = None"
    using recv_phase_idle [OF ph] cases by auto
  have cont: "\<exists>s'. recv_continue None e t = Inr (Await_Any, s') \<and> sock_inv s' ch sp Await_Any \<and> live s' \<and> calm t s'"
    if "sock_inv t ch sp rp" "live t" "\<not> mAnyRecvOp t" "mGetReq t = None" for e t
    using recv_continue_None [OF that(1,3,4), of e] live_quiet [OF that(2)] calm_quiet by blast
  consider (header) "rp = Reading_Header" | (control) h where "rp = Reading_Control h" | (body) h a where "rp = Reading_Body h a"
    using cases by blast
  then show ?thesis
  proof cases
    case header
    let ?h = "read_header bs"
    consider "is_error (checkIo ec (length bs) 8)" | "\<not> is_error (checkIo ec (length bs) 8)" "hSize ?h = 0"
      | "\<not> is_error (checkIo ec (length bs) 8)" "hSize ?h \<noteq> 0" by blast
    then show ?thesis
    proof cases
      case 1
      then show ?thesis using header cont [OF inv lv idle, of ec] by auto
    next
      case 2
      have "recv_phase s (Reading_Control ?h)" by (rule recv_phase_pc [OF ph idle]) simp_all
      then show ?thesis using 2 header sinv sp lv
        by (intro exI [of _ "Reading_Control ?h"] exI [of _ s]) (simp add: Let_def sock_inv_def)
    next
      case 3
      from get_recv_inv [OF sinv sp idle, of ?h] obtain s' where s': "get_recv (hForkId ?h) s = Inr s'"
        "sock_inv s' ch sp (Await_Fork ?h)" by blast
      have "live s'" "calm s s'" using live_quiet [OF lv] calm_quiet quiet_get_recv [OF s'(1)] by simp_all
      then show ?thesis using 3 header s'
        by (intro exI [of _ "Await_Fork ?h"] exI [of _ s']) (simp add: Let_def)
    qed
  next
    case control
    show ?thesis
    proof (cases "is_error (checkIo ec (length bs) 16)")
      case True
      then show ?thesis using control cont [OF inv lv idle, of ec] by auto
    next
      case False
      have core: "core_ok s ch" using sinv by (simp add: sched_inv_def)
      obtain e t where t: "initRemoteSocketFork (hForkId h) (getSessionID bs) s = Inr (e, t)" "sock_inv t ch sp rp"
        using initRemote_inv [OF inv honest [OF control False], of "getSessionID bs"] by blast
      note f = initRemote_calm [OF core t(1)]
      have lt: "live t" using lv by (simp add: live_def f)
      have it: "\<not> mAnyRecvOp t" "mGetReq t = None" using idle f by simp_all
      show ?thesis
      proof (cases "is_error e")
        case True
        from cont [OF t(2) lt it, of e] obtain s' where s': "recv_continue None e t = Inr (Await_Any, s')"
          "sock_inv s' ch sp Await_Any" "live s'" "calm t s'" by blast
        then show ?thesis using False True control t(1) calm_trans [OF f(1)]
          by (intro exI [of _ Await_Any] exI [of _ s']) simp
      next
        case no: False
        have pht: "recv_phase t rp" using t(2) by (simp add: sock_inv_def)
        have "recv_phase t Reading_Header" by (rule recv_phase_pc [OF pht it]) simp_all
        then have "sock_inv t ch sp Reading_Header" using t(2) by (simp add: sock_inv_def)
        then show ?thesis using False no control t(1) lt f(1)
          by (intro exI [of _ Reading_Header] exI [of _ t]) simp
      qed
    qed
  next
    case body
    have fr: "recv_front s (hForkId h) a" by (rule recv_phaseD(5) [OF ph body])
    obtain op b where op: "mRecvs s a = Some op" and b: "mBufs s (ro_Buffer op) = Some b"
      by (rule recv_frontD [OF sinv fr])
    let ?t = "rebuf (ro_Buffer op) (fill_span bs b) (mExs s) s"
    have fill: "recv_op_fill a bs s = Inr ?t" using op b by (simp add: recv_op_fill_def rebuf_def)
    have same: "rb_ex (fill_span bs b) = rb_ex b" by (simp add: fill_span_def)
    have t: "sched_inv ?t ch" by (rule rebuf_inv [OF sinv op b]) (simp_all add: same)
    have tp: "send_phase ?t ch sp" "\<not> mAnyRecvOp ?t" "mGetReq ?t = None" "recv_front ?t (hForkId h) a"
      using rebuf_phases(1) [OF sp] idle fr by simp_all
    from recv_continue_Some [OF t tp, of ec] obtain s' where
      s': "recv_continue (Some a) ec ?t = Inr (Await_Any, s')" "sock_inv s' ch sp Await_Any" "quiet ?t s'" by blast
    have "live s'" by (rule live_quiet [OF live_rebuf [OF lv op b same] s'(3)])
    moreover have "calm s s'" using calm_trans [OF calm_same calm_quiet [OF s'(3)]] by simp
    ultimately show ?thesis using body fill s' by (intro exI [of _ Await_Any] exI [of _ s']) simp
  qed
qed

end
