(* ===== verification/Sched_Safety.thy ===== *)
theory Sched_Safety
  imports Sched_World
begin

text \<open>
  Every interleaving of the users, the two tasks and the transport. The users' obligations and the
  behaviour required of the peer are the guards \<open>enabled\<close>; the safety theorem says that no
  assertion of the code fails and no pointer dangles on any path.
\<close>

section \<open>Steps\<close>

text \<open>
  A user names a fork of its own, provides new buffers and exception cells, keeps messages below the
  size limit, and does not stop an operation that has not been started. The transport moves no more
  bytes than asked for. A control message of the peer does not reuse a fork number.
\<close>

definition fork_ready :: "session_id \<Rightarrow> sched \<Rightarrow> bool" where
  "fork_ready sid s \<longleftrightarrow> mNextLocal s \<noteq> NOT 0
     \<and> (\<exists>i. local_fork sid s i \<and> can_localize (fst (derive (mSessionID (mForks s ! i)))) s)"

fun enabled :: "action \<Rightarrow> world \<Rightarrow> bool" where
  "enabled (Act_Send sid b cb tok) w \<longleftrightarrow> (\<exists>i. local_fork sid (wSched w) i) \<and> fresh_buffer (wSched w) b
     \<and> length (sb_data b) < 2 ^ 32 - 1 \<and> tok \<noteq> Stop_Requested"
| "enabled (Act_Recv sid d h tok) w \<longleftrightarrow> (\<exists>i. local_fork sid (wSched w) i) \<and> fresh_recv_buffer (wSched w) d
     \<and> Suc (recv_total (wSched w)) < 2 ^ 64 \<and> tok \<noteq> Stop_Requested"
| "enabled (Act_Buffer d b) w \<longleftrightarrow> mBufs (wSched w) d = None"
| "enabled (Act_Flush h) w \<longleftrightarrow> True"
| "enabled Act_Close w \<longleftrightarrow> True"
| "enabled (Act_Fork sid) w \<longleftrightarrow> fork_ready sid (wSched w)"
| "enabled (Act_Executor ex sid) w \<longleftrightarrow> (\<exists>i. local_fork sid (wSched w) i)"
| "enabled (Act_Stop_Send a) w \<longleftrightarrow> (\<exists>op. mSends (wSched w) a = Some op \<and> so_Status op \<noteq> NotStarted)"
| "enabled (Act_Stop_Recv a) w \<longleftrightarrow> (\<exists>op. mRecvs (wSched w) a = Some op \<and> ro_Status op = InProgress)"
| "enabled Send_Resumed w \<longleftrightarrow> wSend w = Await_Next \<and> \<not> mNextSendOp (wSched w)"
| "enabled (Transmitted ec n) w \<longleftrightarrow> busy_op (wSend w) \<noteq> None \<and> n \<le> length (wSending w)"
| "enabled Recv_Resumed w \<longleftrightarrow> wRecv w = Await_Any \<and> \<not> mAnyRecvOp (wSched w)
     \<or> (\<exists>h. wRecv w = Await_Fork h \<and> mGetReq (wSched w) = None)"
| "enabled (Received ec bs) w \<longleftrightarrow> (recv_wanted (wRecv w) \<noteq> 0 \<or> (\<exists>h a. wRecv w = Reading_Body h a))
     \<and> length bs \<le> recv_wanted (wRecv w)
     \<and> (\<forall>h. wRecv w = Reading_Control h \<longrightarrow> \<not> is_error (checkIo ec (length bs) 16) \<longrightarrow> hForkId h \<noteq> NOT 0 \<longrightarrow> mRemoteMap (wSched w) (hForkId h) = None)"

definition start_world :: "session_id \<Rightarrow> world" where
  "start_world sid = \<lparr>wSched = fresh_sched sid, wSend = Await_Next, wSending = [], wRecv = Await_Any,
     wBytesSent = 0, wBytesReceived = 0\<rparr>"

inductive reachable :: "session_id \<Rightarrow> world \<Rightarrow> bool" for sid where
  reachable_init: "sched_init sid = Inr s \<Longrightarrow> reachable sid ((start_world sid)\<lparr>wSched := s\<rparr>)"
| reachable_step: "reachable sid w \<Longrightarrow> enabled x w \<Longrightarrow> perform x w = Inr w' \<Longrightarrow> reachable sid w'"

inductive_cases reachableE: "reachable sid w"

section \<open>The invariant of a socket\<close>

definition world_ok :: "world \<Rightarrow> bool" where
  "world_ok w \<longleftrightarrow> (\<exists>ch. sock_inv (wSched w) ch (wSend w) (wRecv w)) \<and> live (wSched w)"

lemma live_same:
  assumes "live s" and "\<And>a op'. mRecvs s' a = Some op' \<Longrightarrow> \<exists>op. mRecvs s a = Some op \<and> ro_Buffer op' = ro_Buffer op"
    and "mBufs s' = mBufs s"
  shows "live s'"
  using assms unfolding live_def by metis

lemma keeps_recvs_flush: "flush_recv i t s x = Some op' \<Longrightarrow> \<exists>op. mRecvs s x = Some op \<and> ro_Buffer op' = ro_Buffer op"
  by (auto simp: flush_recv_def split: option.splits if_splits)

lemma keeps_sends_flush: "flush_send i t s x = Some op' \<Longrightarrow> \<exists>op. mSends s x = Some op \<and> so_Fork op' = so_Fork op \<and> so_Buffer op' = so_Buffer op"
  by (auto simp: flush_send_def split: option.splits if_splits)

lemma same_queues_recvs: "same_queues s s' \<Longrightarrow> mRecvs s' = mRecvs s \<and> mBufs s' = mBufs s \<and> mSends s' = mSends s"
  unfolding same_queues_def by auto

text \<open>The operations of the users.\<close>

definition user_step :: "(sched \<Rightarrow> fault + sched) \<Rightarrow> sched \<Rightarrow> nat list \<Rightarrow> send_pc \<Rightarrow> recv_pc \<Rightarrow> bool" where
  "user_step f s ch sp rp \<longleftrightarrow> f s = Inl Bad_Alloc \<or> (\<exists>s'. f s = Inr s' \<and> sock_inv s' ch sp rp \<and> live s' \<and> calm s s')"

lemma user_stepI: "f s = Inr s' \<Longrightarrow> sock_inv s' ch sp rp \<Longrightarrow> live s' \<Longrightarrow> calm s s' \<Longrightarrow> user_step f s ch sp rp"
  unfolding user_step_def by blast

lemma on_sched_user: "user_step f (wSched w) ch (wSend w) (wRecv w) \<Longrightarrow>
   on_sched f w = Inl Bad_Alloc \<or> (\<exists>w'. on_sched f w = Inr w' \<and> world_ok w')"
  unfolding user_step_def on_sched_def world_ok_def by auto

lemma send_frame:
  assumes "send sid b cb tok s = Inr (r, s')" and "tok \<noteq> Stop_Requested"
  shows "mRecvs s' = mRecvs s \<and> mBufs s' = mBufs s"
proof -
  have em: "mRecvs t = mRecvs s \<and> mBufs t = mBufs s" if "emplace_send i op s = Inr (a, t)" for i op a t s
    using that by (auto simp: emplace_send_def fault_simps set_send_def set_fork_def)
  have nx: "mRecvs t = mRecvs s \<and> mBufs t = mBufs s" if "send_setNext a y s = Inr t" for a y s t
    using that by (auto simp: send_setNext_def fault_simps Let_def set_send_def split: option.splits)
  have en: "mRecvs t = mRecvs s \<and> mBufs t = mBufs s" if "enqueue_send a s = Inr t" for a s t
    using that by (auto simp: enqueue_send_def fault_simps send_setStatus_def set_send_def wake_send_def emit_def
        split: if_splits option.splits dest!: nx)
  have sc: "mRecvs t = mRecvs s \<and> mBufs t = mBufs s" if "setCancelation_send tok a s = Inr t" for a s t
    using that assms(2) by (auto simp: setCancelation_send_def fault_simps Let_def set_send_def split: if_splits)
  show ?thesis
    using assms(1) by (auto simp: send_def fault_simps emit_def split: if_splits dest!: em en sc)
qed

text \<open>A send is refused, or it adds one operation behind the others.\<close>

definition appended :: "send_buffer \<Rightarrow> nat \<Rightarrow> sched \<Rightarrow> sched \<Rightarrow> bool" where
  "appended b i s s' \<longleftrightarrow> keeps_forks s s' \<and> mEC s' = mEC s
     \<and> (\<exists>op. mSends s' (mFreshPtr s) = Some op \<and> so_Fork op = i \<and> so_Buffer op = b)
     \<and> (\<forall>a op'. a \<noteq> mFreshPtr s \<longrightarrow> mSends s' a = Some op' \<longrightarrow> (\<exists>op. mSends s a = Some op \<and> so_Fork op' = so_Fork op \<and> so_Buffer op' = so_Buffer op))"

lemma appendedI:
  assumes "keeps_forks s s'" "mEC s' = mEC s" "map_option op_sig (mSends s' (mFreshPtr s)) = Some (Some cb, i, b, [])"
    and sig: "\<forall>x. x \<noteq> mFreshPtr s \<longrightarrow> map_option op_sig (mSends s' x) = map_option op_sig (mSends s x)"
  shows "appended b i s s'"
proof -
  have "\<exists>op. mSends s' (mFreshPtr s) = Some op \<and> so_Fork op = i \<and> so_Buffer op = b" using assms(3) by (auto simp: op_sig_def)
  moreover have "\<exists>op. mSends s a = Some op \<and> so_Fork op' = so_Fork op \<and> so_Buffer op' = so_Buffer op"
    if "a \<noteq> mFreshPtr s" "mSends s' a = Some op'" for a op'
  proof -
    have "map_option op_sig (mSends s a) = Some (op_sig op')" using sig that by (metis option.map(2))
    then show ?thesis by (auto simp: op_sig_def)
  qed
  ultimately show ?thesis using assms(1,2) unfolding appended_def by blast
qed

lemma send_user:
  assumes inv: "sock_inv s ch sp rp" and lv: "live s" and fk: "local_fork sid s i" and b: "fresh_buffer s b"
    and len: "length (sb_data b) < 2 ^ 32 - 1" and tok: "tok \<noteq> Stop_Requested"
  shows "send sid b cb tok s = Inl Bad_Alloc
    \<or> (\<exists>r s'. send sid b cb tok s = Inr (r, s') \<and> sock_inv s' ch sp rp \<and> live s' \<and> calm s s' \<and> (sb_data b = [] \<or> is_error (mEC s)))
    \<or> (\<exists>r s'. send sid b cb tok s = Inr (r, s') \<and> sock_inv s' (ch @ [mFreshPtr s]) sp rp \<and> live s' \<and> appended b i s s'
         \<and> sb_data b \<noteq> [] \<and> \<not> is_error (mEC s))"
proof -
  have lv': "live s'" if "send sid b cb tok s = Inr (r, s')" for r s'
    by (rule live_same [OF lv]) (use send_frame [OF that tok] in auto)
  consider "sb_data b = []" | "sb_data b \<noteq> []" "is_error (mEC s)" | "sb_data b \<noteq> []" "\<not> is_error (mEC s)" by blast
  then show ?thesis
  proof cases
    case 1
    note r = send_empty [OF inv 1 b]
    show ?thesis
      by (rule disjI2, rule disjI1, rule exI, rule exI, intro conjI, rule r(1), rule r(2), rule lv' [OF r(1)], rule calm_same)
        (simp_all add: 1)
  next
    case 2
    note r = send_closed [OF inv 2(1) fk 2(2) b]
    show ?thesis
      by (rule disjI2, rule disjI1, rule exI, rule exI, intro conjI, rule r(1), rule r(2), rule lv' [OF r(1)], rule calm_same)
        (simp_all add: 2 emit_def)
  next
    case 3
    from send_open [OF inv fk 3(2,1) len b tok, of cb] show ?thesis
    proof (elim disjE exE conjE)
      fix s' assume s': "send sid b cb tok s = Inr (None, s')" "sock_inv s' (ch @ [mFreshPtr s]) sp rp" "keeps_forks s s'" "mEC s' = mEC s"
        "map_option op_sig (mSends s' (mFreshPtr s)) = Some (Some cb, i, b, [])"
        "\<forall>x. x \<noteq> mFreshPtr s \<longrightarrow> map_option op_sig (mSends s' x) = map_option op_sig (mSends s x)"
      show ?thesis using s'(1,2) lv' [OF s'(1)] appendedI [OF s'(3-6)] 3 by blast
    qed simp
  qed
qed

lemma recv_user:
  assumes inv: "sock_inv s ch sp rp" and lv: "live s" and fk: "local_fork sid s i" and d: "fresh_recv_buffer s d"
    and room: "Suc (recv_total s) < 2 ^ 64" and tok: "tok \<noteq> Stop_Requested"
  shows "user_step (recv sid d h tok) s ch sp rp"
proof (cases "is_error (mEC s)")
  case True
  obtain b p where b: "mBufs s d = Some b" "rb_ex b = Some p" "unused_cell s p"
    using d by (auto simp: fresh_recv_buffer_def)
  have un: "unused_cell s q" if "rb_ex b = Some q" for q using b(2,3) that by simp
  let ?s' = "emit (Resume (User h) (mExecutor (mForks s ! i))) (s\<lparr>mExs := recv_setError b (mEC s) (mExs s)\<rparr>)"
  have r1: "recv sid d h tok s = Inr ?s'" by (rule recv_closed(1) [OF inv fk True b(1)]) (rule un)
  have r2: "sock_inv ?s' ch sp rp" by (rule recv_closed(2) [OF inv fk True b(1)]) (rule un)
  show ?thesis by (rule user_stepI [where f = "recv sid d h tok", OF r1 r2])
      (use lv in \<open>simp_all add: live_def emit_def calm_same\<close>)
next
  case False
  from recv_open [OF inv fk False d room tok, of h] show ?thesis
  proof (elim disjE exE conjE)
    assume "recv sid d h tok s = Inl Bad_Alloc"
    then show ?thesis by (simp add: user_step_def)
  next
    fix s' q assume r: "recv sid d h tok s = Inr s'" "sock_inv s' ch sp rp" "mBufs s' = mBufs s"
      "mForks s' = mForks (placed_recv i (new_recv_op d h i) q s)" "mEC s' = mEC s" "mSends s' = mSends s"
      "\<forall>x. map_option rop_sig (mRecvs s' x) = map_option rop_sig (if x = mFreshPtr s then Some (new_recv_op d h i) else mRecvs s x)"
    have "rb_ex b \<noteq> None" if "mRecvs s' a = Some op" "mBufs s' (ro_Buffer op) = Some b" for a op b
    proof (cases "a = mFreshPtr s")
      case True
      then have "ro_Buffer op = d" using r(7) that(1) by (auto simp: rop_sig_def new_recv_op_def dest: spec [of _ a])
      then show ?thesis using d that(2) r(3) by (auto simp: fresh_recv_buffer_def)
    next
      case False
      then have "map_option rop_sig (mRecvs s a) = Some (rop_sig op)" using r(7) [rule_format, of a] that(1) by simp
      then obtain op0 where "mRecvs s a = Some op0" "ro_Buffer op0 = ro_Buffer op" by (auto simp: rop_sig_def)
      then show ?thesis using lv that(2) r(3) unfolding live_def by simp
    qed
    then have "live s'" by (simp add: live_def)
    moreover have "calm s s'" using r(4-6) by (auto simp: calm_def placed_recv_def set_recv_def nth_list_update)
    ultimately show ?thesis by (rule user_stepI [where f = "recv sid d h tok", OF r(1,2)])
  qed
qed

lemma flush_user:
  assumes inv: "sock_inv s ch sp rp" and lv: "live s"
  shows "user_step (\<lambda>s. bindR (flush h s) (\<lambda>(r, s). Inr s)) s ch sp rp"
proof (cases "mNumRecvs s = 0 \<and> mSendBegin s = None")
  case True
  then have "flush h s = Inr (Some (User h), s)" by (simp add: flush_def)
  then have "bindR (flush h s) (\<lambda>(r, s). Inr s) = Inr s" by simp
  from user_stepI [of "\<lambda>s. bindR (flush h s) (\<lambda>(r, s). Inr s)", OF this inv lv calm_refl] show ?thesis .
next
  case False
  then have "mNumRecvs s \<noteq> 0 \<or> mSendBegin s \<noteq> None" by auto
  from flush_ok [OF inv this, of h] obtain s' where s': "flush h s = Inr (None, s')" "sock_inv s' ch sp rp"
    "mRecvs s' = flush_recv 0 (mFreshPtr s) s" "mBufs s' = mBufs s"
    "mSends s' = flush_send 0 (mFreshPtr s) s" "mForks s' = mForks s" "mEC s' = mEC s" by blast
  have "live s'" by (rule live_same [OF lv _ s'(4)]) (use s'(3) keeps_recvs_flush in simp)
  have "bindR (flush h s) (\<lambda>(r, s). Inr s) = Inr s'" using s'(1) by simp
  from user_stepI [of "\<lambda>s. bindR (flush h s) (\<lambda>(r, s). Inr s)", OF this s'(2) \<open>live s'\<close>] show ?thesis
    using s'(5-7) keeps_sends_flush by (simp add: calm_def)
qed

lemma close_user:
  assumes inv: "sock_inv s ch sp rp" and lv: "live s"
  shows "user_step sched_close s ch sp rp"
proof -
  note q = quiet_close [OF close_inv(1) [OF inv]]
  show ?thesis by (rule user_stepI [where f = sched_close, OF close_inv(1,2) [OF inv] live_quiet [OF lv q] calm_quiet [OF q]])
qed

lemma buffer_user:
  assumes inv: "sock_inv s ch sp rp" and lv: "live s" and new: "mBufs s d = None"
  shows "user_step (\<lambda>s. Inr (with_buffer d b s)) s ch sp rp"
proof (rule user_stepI [where f = "\<lambda>s. Inr (with_buffer d b s)", OF refl with_buffer_inv [OF inv new]])
  have "bufs_ok s" using inv by (simp add: sock_inv_def sched_inv_def)
  then have "ro_Buffer op \<noteq> d" if "mRecvs s a = Some op" for a op using new that unfolding bufs_ok_def by (metis option.distinct(1))
  then show "live (with_buffer d b s)" using lv by (auto simp: live_def with_buffer_def)
  show "calm s (with_buffer d b s)" by (rule calm_same) (simp_all add: with_buffer_def)
qed

lemma initLocal_frame:
  assumes "initLocalSocketFork sid ex s = Inr s'"
  shows "mRecvs s' = mRecvs s \<and> mBufs s' = mBufs s"
proof (cases "mIdMap s (sid_key sid)")
  case None
  then show ?thesis using assms by (auto simp: initLocalSocketFork_def add_fork_eq fault_simps set_fork_def)
next
  case (Some i)
  then show ?thesis using assms by (auto simp: initLocalSocketFork_def fault_simps set_fork_def)
qed

lemma localized_calm:
  assumes ids: "ids_ok s" and can: "can_localize sid s"
  shows "calm s (localized sid ex s)"
proof -
  let ?b = "local_base sid s" and ?i = "local_target sid s"
  have b: "calm s ?b" by (auto simp: calm_def local_base_def with_fork_def nth_append less_Suc_eq_le)
  have i: "?i < length (mForks ?b)" "?i < length (mForks s) \<Longrightarrow> mLocalId (mForks s ! ?i) = NOT 0"
    using local_target_less [OF ids, of sid] can by (auto simp: local_target_def can_localize_def split: option.splits)
  have j: "j < length (mForks s) \<Longrightarrow> mLocalId (mForks ?b ! j) = mLocalId (mForks s ! j)" for j
    by (simp add: local_base_def with_fork_def nth_append)
  show ?thesis using b i j unfolding calm_def localized_def Let_def set_fork_def by (auto simp: nth_list_update)
qed

lemma fork_calm:
  assumes inv: "sock_inv s ch sp rp" and i: "local_fork sid s i" "can_localize (fst (derive (mSessionID (mForks s ! i)))) s"
    and run: "sched_fork sid s = Inr (r, s')"
  shows "calm s s'"
proof -
  let ?f = "mForks s ! i" and ?d = "derive (mSessionID (mForks s ! i))"
  let ?s = "set_fork i (?f\<lparr>mSessionID := snd ?d\<rparr>) s"
  have l: "i < length (mForks s)" using i(1) by (simp add: local_fork_def)
  have k: "sid_key (snd ?d) = sid_key (mSessionID ?f)" by (rule derive_key)
  have c: "core_ok s ch" using inv by (simp add: sock_inv_def sched_inv_def)
  have "core_ok ?s ch" by (rule set_fork_core [OF c l]) (simp_all add: k)
  then have ids: "ids_ok ?s" by (simp add: core_ok_def)
  have "mLocalId (mForks ?s ! j) = mLocalId (mForks s ! j)" for j using l by (cases "j = i") (simp_all add: set_fork_def)
  then have can: "can_localize (fst ?d) ?s" using i(2) by (simp add: can_localize_def set_fork_def)
  have "s' = localized (fst ?d) (mExecutor ?f) ?s"
    using run getLocal_eq [OF i(1)] l initLocal_eq [OF ids can] by (auto simp: sched_fork_def fork_at_def case_prod_beta Let_def)
  moreover have "calm s ?s" using l k by (auto simp: calm_def set_fork_def nth_list_update)
  ultimately show ?thesis using calm_trans localized_calm [OF ids can] by blast
qed

lemma fork_user:
  assumes inv: "sock_inv s ch sp rp" and lv: "live s" and ready: "fork_ready sid s"
  shows "user_step (\<lambda>s. bindR (sched_fork sid s) (\<lambda>(r, s). Inr s)) s ch sp rp"
proof -
  obtain i where i: "local_fork sid s i" "can_localize (fst (derive (mSessionID (mForks s ! i)))) s" "mNextLocal s \<noteq> NOT 0"
    using ready by (auto simp: fork_ready_def)
  from sched_fork_inv [OF inv i(1,3,2)] obtain s' where
    s': "sched_fork sid s = Inr (fst (derive (mSessionID (mForks s ! i))), s')" "sock_inv s' ch sp rp" by blast
  obtain f t where "initLocalSocketFork f t (set_fork i ((mForks s ! i)\<lparr>mSessionID := snd (derive (mSessionID (mForks s ! i)))\<rparr>) s) = Inr s'"
    using s'(1) getLocal_eq [OF i(1)] i(1)
    by (auto simp: sched_fork_def fork_at_def local_fork_def Let_def case_prod_beta bindR_eq_Inr [of "initLocalSocketFork a b c" for a b c])
  from initLocal_frame [OF this] have "mRecvs s' = mRecvs s \<and> mBufs s' = mBufs s" by (simp add: set_fork_def)
  then have lv': "live s'" using lv by (simp add: live_def)
  have "bindR (sched_fork sid s) (\<lambda>(r, s). Inr s) = Inr s'" using s'(1) by simp
  from user_stepI [of "\<lambda>s. bindR (sched_fork sid s) (\<lambda>(r, s). Inr s)", OF this s'(2) lv' fork_calm [OF inv i(1,2) s'(1)]] show ?thesis .
qed

lemma executor_user:
  assumes inv: "sock_inv s ch sp rp" and lv: "live s" and fk: "local_fork sid s i"
  shows "user_step (setExecutor ex sid) s ch sp rp"
proof -
  from setExecutor_inv [OF inv fk, of ex] obtain s' where s': "setExecutor ex sid s = Inr s'" "sock_inv s' ch sp rp" by blast
  have "live s'" using lv quiet_setExecutor [OF s'(1)] by (simp add: live_def)
  moreover have "calm s s'"
  proof -
    obtain f where "s' = set_fork i (f\<lparr>mExecutor := Some ex\<rparr>) s" "f = mForks s ! i" "i < length (mForks s)"
      using s'(1) getLocal_eq [OF fk] fk by (auto simp: setExecutor_def local_fork_def fork_at_def)
    then show ?thesis by (auto simp: calm_def set_fork_def nth_list_update)
  qed
  ultimately show ?thesis by (rule user_stepI [where f = "setExecutor ex sid", OF s'])
qed

lemma stop_user:
  assumes inv: "sock_inv s ch sp rp" and lv: "live s"
  shows "mSends s a = Some op \<Longrightarrow> so_Status op \<noteq> NotStarted \<Longrightarrow> user_step (cancel_send a) s ch sp rp"
    and "mRecvs s a = Some rop \<Longrightarrow> ro_Status rop = InProgress \<Longrightarrow> user_step (cancel_recv a) s ch sp rp"
proof -
  assume "mSends s a = Some op" "so_Status op \<noteq> NotStarted"
  from cancel_send_started [OF inv this] obtain s' where s': "cancel_send a s = Inr s'" "sock_inv s' ch sp rp" "quiet s s'" by blast
  show "user_step (cancel_send a) s ch sp rp"
    by (rule user_stepI [where f = "cancel_send a", OF s'(1,2) live_quiet [OF lv s'(3)] calm_quiet [OF s'(3)]])
next
  assume "mRecvs s a = Some rop" "ro_Status rop = InProgress"
  from cancel_recv_started [OF inv this] obtain s' where s': "cancel_recv a s = Inr s'" "sock_inv s' ch sp rp" "quiet s s'" by blast
  show "user_step (cancel_recv a) s ch sp rp"
    by (rule user_stepI [where f = "cancel_recv a", OF s'(1,2) live_quiet [OF lv s'(3)] calm_quiet [OF s'(3)]])
qed

text \<open>The steps of the tasks.\<close>

lemma next_send_core:
  assumes inv: "sock_inv s (a # r) sp rp" and run: "next_send (Some a) ec s = Inr s'"
  shows "quiet s s'"
proof -
  have "core_ok s (a # r)" "mSendBegin s = Some a" using inv by (simp_all add: sock_inv_def sched_inv_def send_phase_def)
  then show ?thesis using run by (rule quiet_next_send)
qed

lemma send_task_step:
  assumes inv: "sock_inv s ch sp rp" and lv: "live s"
  shows "sp = Await_Next \<Longrightarrow> \<not> mNextSendOp s \<Longrightarrow>
      \<exists>pc bs s' ch'. send_resumed s = Inr (pc, bs, s') \<and> sock_inv s' ch' pc rp \<and> live s'"
    and "busy_op sp \<noteq> None \<Longrightarrow>
      \<exists>pc bs s' ch'. send_transmitted sp ec n k s = Inr (pc, bs, s') \<and> sock_inv s' ch' pc rp \<and> live s'"
proof -
  assume sp: "sp = Await_Next" and idle: "\<not> mNextSendOp s"
  have set_live: "live (set_fork i f s)" for i f using lv by (simp add: live_def set_fork_def)
  from send_resumed_ok [OF inv [unfolded sp] idle]
  show "\<exists>pc bs s' ch'. send_resumed s = Inr (pc, bs, s') \<and> sock_inv s' ch' pc rp \<and> live s'"
    using lv set_live by (auto simp: Let_def split: if_splits)
next
  assume "busy_op sp \<noteq> None"
  then obtain a where a: "busy_op sp = Some a" by blast
  from busy_chain [OF inv a] obtain r where ch: "ch = a # r" by blast
  note inv' = inv [unfolded ch]
  obtain op where op: "mSends s a = Some op" by (rule sends_okD [OF inv', of a]) auto
  have fin: "\<exists>pc bs s' ch'. send_transmitted sp ec n k s = Inr (pc, bs, s') \<and> sock_inv s' ch' pc rp \<and> live s'"
    if "send_transmitted sp ec n k s = Inr (pc, bs, s')" "sock_inv s' ch' pc rp" "live s'" for pc bs s' ch'
    using that by blast
  have cont: "live s'" if "next_send (Some a) ec s = Inr s'" for s'
    by (rule live_quiet [OF lv next_send_core [OF inv' that]])
  from send_transmitted_ok [OF inv' a op, of ec n k]
  show "\<exists>pc bs s' ch'. send_transmitted sp ec n k s = Inr (pc, bs, s') \<and> sock_inv s' ch' pc rp \<and> live s'"
    by (elim disjE exE conjE) (rule fin, assumption, assumption, (rule lv | erule cont))+
qed

lemma step_ok:
  assumes ok: "world_ok w" and en: "enabled x w"
  shows "perform x w = Inl Bad_Alloc \<or> (\<exists>w'. perform x w = Inr w' \<and> world_ok w')"
proof -
  obtain ch where inv: "sock_inv (wSched w) ch (wSend w) (wRecv w)" and lv: "live (wSched w)"
    using ok by (auto simp: world_ok_def)
  note user = on_sched_user
  show ?thesis
  proof (cases x)
    case (Act_Send sid b cb tok)
    then obtain i where en: "local_fork sid (wSched w) i" "fresh_buffer (wSched w) b" "length (sb_data b) < 2 ^ 32 - 1" "tok \<noteq> Stop_Requested"
      using en by auto
    from send_user [OF inv lv en, of cb] show ?thesis using Act_Send
      by (elim disjE exE conjE) (auto simp: on_sched_def world_ok_def)
  next
    case (Act_Recv sid d h tok)
    then show ?thesis using en recv_user [OF inv lv] by (auto intro!: user)
  next
    case (Act_Buffer d b)
    then show ?thesis using en buffer_user [OF inv lv] by (auto intro!: user)
  next
    case (Act_Flush h)
    then show ?thesis using flush_user [OF inv lv] by (auto intro!: user)
  next
    case Act_Close
    then show ?thesis using close_user [OF inv lv] by (auto intro!: user)
  next
    case (Act_Fork sid)
    then show ?thesis using en fork_user [OF inv lv] by (auto intro!: user)
  next
    case (Act_Executor ex sid)
    then show ?thesis using en executor_user [OF inv lv] by (auto intro!: user)
  next
    case (Act_Stop_Send a)
    then show ?thesis using en stop_user(1) [OF inv lv] by (auto intro!: user)
  next
    case (Act_Stop_Recv a)
    then show ?thesis using en stop_user(2) [OF inv lv] by (auto intro!: user)
  next
    case Send_Resumed
    then show ?thesis using en send_task_step(1) [OF inv lv] by (auto simp: on_send_def world_ok_def)
  next
    case (Transmitted ec n)
    then show ?thesis using en send_task_step(2) [OF inv lv, of ec n "length (wSending w)"]
      by (auto simp: on_send_def world_ok_def)
  next
    case Recv_Resumed
    then show ?thesis using en recv_resumed_ok [OF inv lv] by (auto simp: on_recv_def world_ok_def)
  next
    case (Received ec bs)
    then show ?thesis using en recv_received_ok [OF inv lv, of ec bs] by (auto simp: on_recv_def world_ok_def)
  qed
qed

lemma reachable_ok: "reachable sid w \<Longrightarrow> world_ok w"
proof (induction rule: reachable.induct)
  case (reachable_init s)
  then have "s = fresh_sched sid" using sched_init_inv(1) by simp
  then show ?case using sched_init_inv(2) [of sid] by (auto simp: world_ok_def start_world_def live_def)
next
  case (reachable_step w x w')
  then show ?case using step_ok by fastforce
qed



end
