(* ===== verification/Sched_Still.thy ===== *)
theory Sched_Still
  imports Sched_Safety
begin

text \<open>
  What the users, the send task and stop requests leave alone on the receive side: the queues of the
  pending receives, their buffers, and the answers that the receive task has been given once the
  socket is in error. Only a receive task that waits for any receive is woken.
\<close>

definition rop_ids :: "recv_op \<Rightarrow> nat \<times> nat" where
  "rop_ids op = (ro_Fork op, ro_Buffer op)"

definition answers :: "sched \<Rightarrow> bool \<times> error_code option \<times> u32 option \<times> (error_code + nat) option" where
  "answers s = (mAnyRecvOp s, mAnyRes s, mGetReq s, mGetRes s)"

definition still :: "sched \<Rightarrow> sched \<Rightarrow> bool" where
  "still s s' \<longleftrightarrow> length (mForks s) \<le> length (mForks s')
     \<and> (\<forall>i < length (mForks s). mRecvOps (mForks s' ! i) = mRecvOps (mForks s ! i)
          \<and> sid_key (mSessionID (mForks s' ! i)) = sid_key (mSessionID (mForks s ! i)))
     \<and> (\<forall>i. length (mForks s) \<le> i \<longrightarrow> i < length (mForks s') \<longrightarrow> qlist (mRecvOps (mForks s' ! i)) = [])
     \<and> (\<forall>a. map_option rop_ids (mRecvs s' a) = map_option rop_ids (mRecvs s a))
     \<and> mRemoteMap s' = mRemoteMap s \<and> (\<forall>d b. mBufs s d = Some b \<longrightarrow> mBufs s' d = Some b)
     \<and> (is_error (mEC s) \<longrightarrow> is_error (mEC s') \<and> answers s' = answers s)
     \<and> (mAnyRecvOp s \<or> mAnyRecvOp s' = mAnyRecvOp s \<and> mAnyRes s' = mAnyRes s)"

lemma stillI:
  assumes "length (mForks s') = length (mForks s)" "\<And>i. mRecvOps (mForks s' ! i) = mRecvOps (mForks s ! i)
      \<and> sid_key (mSessionID (mForks s' ! i)) = sid_key (mSessionID (mForks s ! i))"
    and "\<And>a. map_option rop_ids (mRecvs s' a) = map_option rop_ids (mRecvs s a)"
    and "mRemoteMap s' = mRemoteMap s" "mBufs s' = mBufs s" "is_error (mEC s) \<Longrightarrow> is_error (mEC s') \<and> answers s' = answers s"
    and "\<not> mAnyRecvOp s \<Longrightarrow> mAnyRecvOp s' = mAnyRecvOp s \<and> mAnyRes s' = mAnyRes s"
  shows "still s s'"
  unfolding still_def using assms by (cases "mAnyRecvOp s") simp_all

lemma still_fields:
  assumes "mForks s' = mForks s" "mRecvs s' = mRecvs s" "mRemoteMap s' = mRemoteMap s" "mBufs s' = mBufs s"
    "mEC s' = mEC s" "answers s' = answers s"
  shows "still s s'"
  by (rule stillI) (use assms in \<open>simp_all add: answers_def\<close>)

lemma still_refl [simp, intro]: "still s s"
  by (rule still_fields) simp_all

lemma still_trans [trans]:
  assumes 1: "still s t" and 2: "still t u"
  shows "still s u"
  unfolding still_def
proof (intro conjI allI impI)
  fix i assume i: "length (mForks s) \<le> i" "i < length (mForks u)"
  show "qlist (mRecvOps (mForks u ! i)) = []"
    using 1 2 i unfolding still_def by (cases "i < length (mForks t)") auto
qed (use 1 2 in \<open>auto simp: still_def\<close>)

lemma still_after:
  assumes "still s t" "mForks s' = mForks t" "mRecvs s' = mRecvs t" "mRemoteMap s' = mRemoteMap t" "mBufs s' = mBufs t"
    "mEC s' = mEC t" "answers s' = answers t"
  shows "still s s'"
  by (rule still_trans [OF assms(1) still_fields [OF assms(2-)]])

lemma still_emit: "still s t \<Longrightarrow> still s (emit e t)"
  by (erule still_after) (simp_all add: emit_def answers_def)

lemma still_sends: "still s (s\<lparr>mSends := m\<rparr>)"
  by (rule still_fields) (simp_all add: answers_def)

lemma still_set_send: "still s (set_send a op s)"
  by (rule still_fields) (simp_all add: set_send_def answers_def)

lemma still_set_fork:
  "i < length (mForks s) \<Longrightarrow> mRecvOps f = mRecvOps (mForks s ! i) \<Longrightarrow> sid_key (mSessionID f) = sid_key (mSessionID (mForks s ! i))
     \<Longrightarrow> still s (set_fork i f s)"
  by (rule stillI) (auto simp: set_fork_def nth_list_update answers_def)

lemma still_set_recv: "mRecvs s a = Some op \<Longrightarrow> rop_ids op' = rop_ids op \<Longrightarrow> still s (set_recv a op' s)"
  by (rule stillI) (auto simp: set_recv_def answers_def)

section \<open>The send side\<close>

lemma still_setError: "send_op_setError a ec s = Inr s' \<Longrightarrow> still s s'"
  using setError_frame(1) [of a ec s s'] by (auto intro!: still_fields simp: answers_def)

lemma still_completeOn: "completeOn_send a s = Inr s' \<Longrightarrow> still s s'"
  by (drule completeOn_send_frame) (auto intro!: still_fields simp: answers_def)

lemma still_setStatus: "send_setStatus a st s = Inr s' \<Longrightarrow> still s s'"
  by (auto simp: send_setStatus_def fault_simps still_set_send)

lemma still_setNext: "send_setNext a nx s = Inr s' \<Longrightarrow> still s s'"
  using still_set_send still_trans by (fastforce simp: send_setNext_def fault_simps Let_def split: option.splits)

lemma still_pop: "pop_front_send i s = Inr s' \<Longrightarrow> still s s'"
proof -
  assume "pop_front_send i s = Inr s'"
  then obtain x q where i: "i < length (mForks s)" and s': "s' = set_fork i ((mForks s ! i)\<lparr>mSendOps := q\<rparr>) (s\<lparr>mSends := (mSends s)(x := None)\<rparr>)"
    by (auto simp: pop_front_send_def fault_simps fork_at_Inr)
  show "still s s'" unfolding s' by (rule still_trans [OF still_sends still_set_fork]) (use i in simp_all)
qed

lemma still_emplace: "emplace_send i op s = Inr (a, s') \<Longrightarrow> still s s'"
proof -
  assume "emplace_send i op s = Inr (a, s')"
  then obtain q where i: "i < length (mForks s)"
    and s': "s' = set_send (mFreshPtr s) op (set_fork i ((mForks s ! i)\<lparr>mSendOps := q\<rparr>) (s\<lparr>mFreshPtr := mFreshPtr s + 1\<rparr>))"
    by (auto simp: emplace_send_def fault_simps fork_at_Inr)
  have "still s (s\<lparr>mFreshPtr := mFreshPtr s + 1\<rparr>)" by (rule still_fields) (simp_all add: answers_def)
  then have "still s (set_fork i ((mForks s ! i)\<lparr>mSendOps := q\<rparr>) (s\<lparr>mFreshPtr := mFreshPtr s + 1\<rparr>))"
    by (rule still_trans [OF _ still_set_fork]) (use i in simp_all)
  then show "still s s'" unfolding s' by (rule still_trans [OF _ still_set_send])
qed

lemma still_enqueue: "enqueue_send a s = Inr s' \<Longrightarrow> still s s'"
proof -
  assume e: "enqueue_send a s = Inr s'"
  show "still s s'"
  proof (cases "mNextSendOp s")
    case True
    then obtain t where t: "send_setStatus a InProgress (s\<lparr>mSendStatus := InUse\<rparr>) = Inr t"
      "s' = (wake_send (Inr a) None t)\<lparr>mSendBegin := Some a, mSendLast := Some a\<rparr>"
      using e by (auto simp: enqueue_send_def fault_simps)
    have "still s (s\<lparr>mSendStatus := InUse\<rparr>)" by (rule still_fields) (simp_all add: answers_def)
    then have "still s t" by (rule still_trans [OF _ still_setStatus [OF t(1)]])
    then show ?thesis unfolding t(2) by (rule still_after) (simp_all add: wake_send_def emit_def answers_def)
  next
    case False
    then obtain l t where t: "send_setNext l (Some a) s = Inr t" "s' = t\<lparr>mSendLast := Some a\<rparr>"
      using e by (auto simp: enqueue_send_def fault_simps split: option.splits)
    show ?thesis unfolding t(2) by (rule still_after [OF still_setNext [OF t(1)]]) (simp_all add: answers_def)
  qed
qed

lemma still_send:
  assumes run: "send sid b cb tok s = Inr (r, s')" and tok: "tok \<noteq> Stop_Requested"
  shows "still s s'"
proof (cases "sb_data b = []")
  case True
  then obtain ex where s': "s' = s\<lparr>mExs := ex\<rparr>" using run by (auto simp: send_def fault_simps)
  show ?thesis unfolding s' by (rule still_fields) (simp_all add: answers_def)
next
  case ne: False
  show ?thesis
  proof (cases "is_error (mEC s)")
    case True
    then obtain e ex where s': "s' = emit e (s\<lparr>mExs := ex\<rparr>)" using run ne by (auto simp: send_def fault_simps)
    show ?thesis unfolding s' by (rule still_emit, rule still_fields) (simp_all add: answers_def)
  next
    case False
    then obtain i op a t u where t: "emplace_send i op s = Inr (a, t)" "enqueue_send a t = Inr u" "setCancelation_send tok a u = Inr s'"
      using run ne by (auto simp: send_def fault_simps)
    have "still u s'"
      using t(3) tok by (auto simp: setCancelation_send_def fault_simps Let_def still_set_send split: if_splits)
    then show ?thesis by (rule still_trans [OF still_trans [OF still_emplace [OF t(1)] still_enqueue [OF t(2)]]])
  qed
qed

lemma still_abort_send: "abort_send ec a s = Inr (nx, s') \<Longrightarrow> still s s'"
proof -
  assume "abort_send ec a s = Inr (nx, s')"
  then obtain s1 s2 i where 1: "send_op_setError a ec s = Inr s1" "completeOn_send a s1 = Inr s2" "pop_front_send i s2 = Inr s'"
    by (auto simp: abort_send_def fault_simps)
  show "still s s'" by (rule still_trans [OF still_setError [OF 1(1)] still_trans [OF still_completeOn [OF 1(2)] still_pop [OF 1(3)]]])
qed

lemma still_abort_sends: "abort_sends ec x s = Inr s' \<Longrightarrow> still s s'"
proof (induction ec x s rule: abort_sends.induct)
  case (1 ec s)
  then show ?case by simp
next
  case (2 ec a s)
  then obtain nx t where t: "abort_send ec a s = Inr (nx, t)" "abort_sends (make_error_code Cancel) nx t = Inr s'"
    by (auto simp: abort_sends.simps(2) split: sum.splits)
  then show ?case using 2(1) [OF t(1) refl t(2)] still_abort_send still_trans by blast
qed

lemma still_after_first: "still s (after_first c ec s)"
  by (rule stillI) (simp_all add: after_first_def cancelled_def answers_def)

lemma still_cancel_sender: "cancel Sender ec s = Inr s' \<Longrightarrow> still s s'"
proof -
  assume a: "cancel Sender ec s = Inr s'"
  then obtain e t where t: "cancel_first Sender ec s = Inr (e, t)"
    and 2: "abort_sends e (mSendBegin t) (t\<lparr>mSendStatus := SClosed, mSendBegin := None, mSendLast := None\<rparr>) = Inr s'"
    by (cases "cancel_first Sender ec s") (auto simp: cancel_def bindR_id split: prod.splits)
  have "still s t" using still_after_first [of s Sender ec] cancel_first_Inr [OF t] by simp
  then have "still s (t\<lparr>mSendStatus := SClosed, mSendBegin := None, mSendLast := None\<rparr>)"
    by (rule still_after) (simp_all add: answers_def)
  then show "still s s'" by (rule still_trans [OF _ still_abort_sends [OF 2]])
qed

lemma still_next_send_None: "next_send None ec s = Inr s' \<Longrightarrow> still s s'"
proof -
  assume a: "next_send None ec s = Inr s'"
  show "still s s'"
  proof (cases "is_error ec \<or> is_error (mEC s)")
    case True
    then obtain t where t: "cancel Sender ec s = Inr t"
      and s': "s' = emit (Resume Send_Task None) (t\<lparr>mSendRes := Some (Inl (make_error_code Closed))\<rparr>)"
      using a by (auto simp: next_send_def fault_simps split: option.splits)
    show ?thesis unfolding s'
      by (rule still_emit, rule still_after [OF still_cancel_sender [OF t]]) (simp_all add: answers_def)
  next
    case False
    show ?thesis
    proof (cases "mSendBegin s")
      case None
      then have s': "s' = s\<lparr>mSendStatus := Idle, mNextSendOp := True\<rparr>" using a False by (simp add: next_send_def)
      show ?thesis unfolding s' by (rule still_fields) (simp_all add: answers_def)
    next
      case (Some b)
      then obtain t where t: "send_setStatus b InProgress s = Inr t"
        and s': "s' = emit (Resume Send_Task None) (t\<lparr>mSendRes := Some (Inr b)\<rparr>)"
        using a False by (auto simp: next_send_def fault_simps)
      show ?thesis unfolding s'
        by (rule still_emit, rule still_after [OF still_setStatus [OF t]]) (simp_all add: answers_def)
    qed
  qed
qed

lemma still_complete_prev:
  assumes run: "complete_prev_send a ec s = Inr (e, t)"
  shows "still s t"
proof -
  obtain e1 s1 where 1: "(if is_error ec then bindR (send_op_setError a ec s) (\<lambda>s. Inr (make_error_code Cancel, s)) else Inr (ec, s)) = Inr (e1, s1)"
    using run unfolding complete_prev_send_def bindR_eq_Inr by fast
  note run = run [unfolded complete_prev_send_def 1 bindR_Inr prod.case]
  obtain s2 where 2: "completeOn_send a s1 = Inr s2" using run unfolding bindR_eq_Inr by blast
  note run = run [unfolded 2 bindR_Inr]
  obtain op where op: "deref (mSends s2) a = Inr op" using run unfolding bindR_eq_Inr by blast
  note run = run [unfolded op bindR_Inr Let_def]
  obtain s3 where 3: "send_setNext a None s2 = Inr s3" using run unfolding bindR_eq_Inr by blast
  let ?u = "if so_Next op = None then s3\<lparr>mSendBegin := so_Next op, mSendLast := None\<rparr> else s3\<lparr>mSendBegin := so_Next op\<rparr>"
  have 4: "pop_front_send (so_Fork op) ?u = Inr t"
    using run [unfolded 3 bindR_Inr] unfolding bindR_eq_Inr checkR_eq_Inr by auto
  have "still s s1" using 1 still_setError by (auto simp: bindR_eq_Inr split: if_splits)
  also have "still s1 s3" by (rule still_trans [OF still_completeOn [OF 2] still_setNext [OF 3]])
  also have "still s3 ?u" by (rule still_fields) (simp_all add: answers_def)
  also have "still ?u t" by (rule still_pop [OF 4])
  finally show ?thesis .
qed

lemma still_next_send:
  assumes "next_send (Some a) ec s = Inr s'"
  shows "still s s'"
proof -
  obtain e t where "complete_prev_send a ec s = Inr (e, t)" "next_send None e t = Inr s'"
    using assms by (auto simp: next_send_Some fault_simps)
  then show ?thesis using still_complete_prev still_next_send_None still_trans by blast
qed

text \<open>The steps of the send task.\<close>

lemma still_send_resumed: "send_resumed s = Inr (pc, bs, s') \<Longrightarrow> still s s'"
  by (auto simp: send_resumed_def send_header_def fault_simps Let_def fork_at_Inr still_set_fork
      split: option.splits sum.splits if_splits)

lemma still_send_transmitted: "send_transmitted sp ec n k s = Inr (pc, bs, s') \<Longrightarrow> still s s'"
  by (cases sp) (auto simp: send_continue_def send_header_def fault_simps dest: still_next_send split: if_splits)

section \<open>The other users\<close>

lemma still_close: "sched_close s = Inr s' \<Longrightarrow> still s s'"
proof -
  assume "sched_close s = Inr s'"
  then obtain e where "cancel_first Extern (make_error_code Closed) s = Inr (e, s')"
    by (cases "cancel_first Extern (make_error_code Closed) s") (auto simp: sched_close_def cancel_def)
  then show "still s s'" using still_after_first cancel_first_Inr by metis
qed

lemma still_share: "share_token t s = Inr s' \<Longrightarrow> still s s'"
  by (auto simp: share_token_def fault_simps intro!: still_fields simp: answers_def)

lemma still_addFlush:
  "addFlush_recv a t s = Inr s' \<Longrightarrow> still s s'" "addFlush_send a t s = Inr s' \<Longrightarrow> still s s'"
proof -
  assume "addFlush_recv a t s = Inr s'"
  then obtain op where op: "mRecvs s a = Some op" and 1: "share_token t (set_recv a (op\<lparr>ro_Flushes := ro_Flushes op @ [t]\<rparr>) s) = Inr s'"
    by (auto simp: addFlush_recv_def bindR_eq_Inr split: option.splits)
  show "still s s'" by (rule still_trans [OF still_set_recv [OF op] still_share [OF 1]]) (simp add: rop_ids_def)
next
  assume "addFlush_send a t s = Inr s'"
  then obtain op where "share_token t (set_send a (op\<lparr>so_Flushes := so_Flushes op @ [t]\<rparr>) s) = Inr s'"
    by (auto simp: addFlush_send_def bindR_eq_Inr)
  from still_share [OF this] show "still s s'" by (rule still_trans [OF still_set_send])
qed

lemma still_flush_forks: "flush_forks n i t s = Inr s' \<Longrightarrow> still s s'"
proof (induction n arbitrary: i s)
  case (Suc n)
  then obtain f s1 s2 where f: "fork_at i s = Inr f"
    and 1: "(if queue_size (mRecvOps f) \<noteq> 0 then bindR (queue_back (mRecvOps f)) (\<lambda>a. addFlush_recv a t s) else Inr s) = Inr s1"
    and 2: "(if queue_size (mSendOps f) \<noteq> 0 then bindR (queue_back (mSendOps f)) (\<lambda>a. addFlush_send a t s1) else Inr s1) = Inr s2"
    and 3: "flush_forks n (Suc i) t s2 = Inr s'"
    by (auto simp: fault_simps)
  have "still s s1" using 1 still_addFlush(1) by (auto simp: fault_simps split: if_splits)
  also have "still s1 s2" using 2 still_addFlush(2) by (auto simp: fault_simps split: if_splits)
  also have "still s2 s'" by (rule Suc.IH [OF 3])
  finally show ?case .
qed simp

lemma still_flush: "flush h s = Inr (r, s') \<Longrightarrow> still s s'"
proof -
  assume a: "flush h s = Inr (r, s')"
  show "still s s'"
  proof (cases "mNumRecvs s = 0 \<and> mSendBegin s = None")
    case True
    then show ?thesis using a by (simp add: flush_def)
  next
    case False
    let ?t = "mFreshPtr s"
    let ?u = "s\<lparr>mFreshPtr := ?t + 1, mTokens := (mTokens s)(?t \<mapsto> \<lparr>ft_Handle = Some h, ft_Uses = 1\<rparr>)\<rparr>"
    obtain v where v: "flush_forks (length (mForks s)) 0 ?t ?u = Inr v" "release_flushes [?t] v = Inr s'"
      using a False by (auto simp: flush_def fault_simps Let_def)
    have "still s ?u" by (rule still_fields) (simp_all add: answers_def)
    also have "still ?u v" by (rule still_flush_forks [OF v(1)])
    also have "still v s'" using release_flushes_frame [OF v(2)] by (auto intro!: still_fields simp: answers_def)
    finally show ?thesis .
  qed
qed

lemma still_buffer: "mBufs s d = None \<Longrightarrow> still s (with_buffer d b s)"
  by (auto simp: still_def with_buffer_def answers_def)

lemma still_executor: "setExecutor ex sid s = Inr s' \<Longrightarrow> still s s'"
  by (auto simp: setExecutor_def fault_simps fork_at_Inr still_set_fork)

lemma still_initLocal: "initLocalSocketFork sid ex s = Inr s' \<Longrightarrow> still s s'"
proof -
  assume "initLocalSocketFork sid ex s = Inr s'"
  then obtain i t where t: "t = s \<or> add_fork sid s = Inr (i, t)"
    and i: "i < length (mForks t)"
    and s': "s' = set_fork i ((mForks t ! i)\<lparr>mLocalId := mNextLocal t, mExecutor := ex\<rparr>) (t\<lparr>mNextLocal := mNextLocal t + 1\<rparr>)"
    by (cases "mIdMap s (sid_key sid)") (auto simp: initLocalSocketFork_def fault_simps fork_at_Inr)
  have "still s t" using t
    by (auto simp: add_fork_eq still_def with_fork_def nth_append answers_def less_Suc_eq nat_queue_list)
  also have "still t (t\<lparr>mNextLocal := mNextLocal t + 1\<rparr>)" by (rule still_fields) (simp_all add: answers_def)
  also have "still (t\<lparr>mNextLocal := mNextLocal t + 1\<rparr>) s'" unfolding s' by (rule still_set_fork) (use i in simp_all)
  finally show "still s s'" .
qed

lemma still_fork: "sched_fork sid s = Inr (r, s') \<Longrightarrow> still s s'"
proof -
  assume a: "sched_fork sid s = Inr (r, s')"
  let ?f = "\<lambda>i. (mForks s ! i)\<lparr>mSessionID := snd (derive (mSessionID (mForks s ! i)))\<rparr>"
  obtain i where i: "i < length (mForks s)"
    and t: "initLocalSocketFork (fst (derive (mSessionID (mForks s ! i)))) (mExecutor (mForks s ! i)) (set_fork i (?f i) s) = Inr s'"
    using a by (auto simp: sched_fork_def fault_simps fork_at_Inr Let_def case_prod_beta)
  have "still s (set_fork i (?f i) s)" by (rule still_set_fork [OF i]) simp_all
  then show "still s s'" by (rule still_trans [OF _ still_initLocal [OF t]])
qed

lemma still_stop:
  "mSends s a = Some op \<Longrightarrow> so_Status op \<noteq> NotStarted \<Longrightarrow> cancel_send a s = Inr s' \<Longrightarrow> still s s'"
  "mRecvs s a = Some rop \<Longrightarrow> ro_Status rop = InProgress \<Longrightarrow> cancel_recv a s = Inr s' \<Longrightarrow> still s s'"
proof -
  assume "mSends s a = Some op" "so_Status op \<noteq> NotStarted" "cancel_send a s = Inr s'"
  then obtain e where s': "s' = emit e ((set_send a (op\<lparr>so_Status := Canceling\<rparr>) s)\<lparr>mSendSrc := False\<rparr>)"
    by (auto simp: cancel_send_def send_setStatus_def)
  show "still s s'" unfolding s' by (rule still_emit, rule still_after [OF still_set_send]) (simp_all add: answers_def)
next
  assume "mRecvs s a = Some rop" "ro_Status rop = InProgress" "cancel_recv a s = Inr s'"
  then obtain e where s': "s' = emit e ((set_recv a (rop\<lparr>ro_Status := Canceling\<rparr>) s)\<lparr>mRecvSrc := False\<rparr>)" and op: "mRecvs s a = Some rop"
    by (auto simp: cancel_recv_def recv_setStatus_def)
  have "still s (set_recv a (rop\<lparr>ro_Status := Canceling\<rparr>) s)" by (rule still_set_recv [OF op]) (simp add: rop_ids_def)
  then show "still s s'" unfolding s' by (rule still_emit [OF still_after]) (simp_all add: answers_def)
qed

text \<open>All of them.\<close>

lemma still_step:
  assumes en: "enabled x w" and run: "perform x w = Inr w'"
    and x: "\<And>sid d h tok. x \<noteq> Act_Recv sid d h tok" "x \<noteq> Recv_Resumed" "\<And>ec bs. x \<noteq> Received ec bs"
  shows "still (wSched w) (wSched w') \<and> wRecv w' = wRecv w"
proof (cases x)
  case (Act_Send sid b cb tok)
  then show ?thesis using en run still_send by (auto simp: on_sched_def fault_simps)
next
  case (Act_Buffer d b)
  then show ?thesis using en run still_buffer by (auto simp: on_sched_def)
next
  case (Act_Flush h)
  then show ?thesis using run still_flush by (auto simp: on_sched_def fault_simps)
next
  case Act_Close
  then show ?thesis using run still_close by (auto simp: on_sched_def fault_simps)
next
  case (Act_Fork sid)
  then show ?thesis using run still_fork by (auto simp: on_sched_def fault_simps)
next
  case (Act_Executor ex sid)
  then show ?thesis using run still_executor by (auto simp: on_sched_def fault_simps)
next
  case (Act_Stop_Send a)
  then show ?thesis using en run still_stop(1) by (auto simp: on_sched_def fault_simps)
next
  case (Act_Stop_Recv a)
  then show ?thesis using en run still_stop(2) by (auto simp: on_sched_def fault_simps)
next
  case Send_Resumed
  then show ?thesis using run still_send_resumed by (auto simp: on_send_def fault_simps)
next
  case (Transmitted ec n)
  then show ?thesis using run still_send_transmitted by (auto simp: on_send_def fault_simps)
qed (use x in auto)

end
