(* ===== verification/Sched_Frame.thy ===== *)
theory Sched_Frame
  imports Sched_Still
begin

text \<open>
  The interface of relations between the states before and after a step of the scheduler. Whoever
  shows that such a relation survives changes that touch neither operations, buffers, cells nor tokens,
  and the removal of one operation by \<^verbatim>\<open>cancel\<close>, gets it for the operations that are made of these.
\<close>

section \<open>The coroutines that have been resumed\<close>

definition resumes :: "nat \<Rightarrow> effect \<Rightarrow> bool" where
  "resumes h e = (case e of Resume c ex \<Rightarrow> c = User h | _ \<Rightarrow> False)"

definition resumed :: "sched \<Rightarrow> nat \<Rightarrow> nat" where
  "resumed s h = length (filter (resumes h) (mOut s))"

lemma resumes_simps [simp]:
  "resumes h (Resume c ex) \<longleftrightarrow> c = User h" "\<not> resumes h (Call_Stop_Send b)" "\<not> resumes h (Call_Stop_Recv b)"
  "\<not> resumes h (Stop_Send b)" "\<not> resumes h (Stop_Recv b)"
  by (simp_all add: resumes_def)

lemma resumed_emit [simp]: "resumed (emit e s) h = resumed s h + (if resumes h e then 1 else 0)"
  by (simp add: resumed_def emit_def)

section \<open>Frames\<close>

locale step_frame =
  fixes R :: "sched \<Rightarrow> sched \<Rightarrow> bool"
  assumes frame_trans: "R s t \<Longrightarrow> R t u \<Longrightarrow> R s u"
    and frame_same: "mSends s' = mSends s \<Longrightarrow> mRecvs s' = mRecvs s \<Longrightarrow> mBufs s' = mBufs s \<Longrightarrow> mExs s' = mExs s
      \<Longrightarrow> mTokens s' = mTokens s \<Longrightarrow> (\<And>h. resumed s' h = resumed s h) \<Longrightarrow> R s s'"
    and frame_send: "mSends s a = Some op \<Longrightarrow> so_CH op' = so_CH op \<Longrightarrow> so_Buffer op' = so_Buffer op \<Longrightarrow> R s (set_send a op' s)"
    and frame_recv: "mRecvs s a = Some rop \<Longrightarrow> ro_CH rop' = ro_CH rop \<Longrightarrow> ro_Buffer rop' = ro_Buffer rop \<Longrightarrow> R s (set_recv a rop' s)"
    and frame_abort_send: "abort_send ec a s = Inr (nx, s') \<Longrightarrow> R s s'"
    and frame_abort_recv: "abort_recv ec i s = Inr s' \<Longrightarrow> R s s'"
    and frame_share: "share_token tk s = Inr s' \<Longrightarrow> R s s'"
begin

lemma frame_refl: "R s s"
  by (rule frame_same) simp_all

lemma frame_after:
  assumes "R s t" "mSends s' = mSends t" "mRecvs s' = mRecvs t" "mBufs s' = mBufs t" "mExs s' = mExs t" "mTokens s' = mTokens t"
    "\<And>h. resumed s' h = resumed t h"
  shows "R s s'"
  by (rule frame_trans [OF assms(1) frame_same]) (simp_all add: assms)

lemma frame_emit: "R s t \<Longrightarrow> (\<And>h. \<not> resumes h e) \<Longrightarrow> R s (emit e t)"
  by (erule frame_after) (simp_all add: emit_def resumed_def)

lemma frame_set_fork: "R s (set_fork i f s)"
  by (rule frame_same) (simp_all add: set_fork_def resumed_def)

lemma frame_setStatus:
  "send_setStatus a st s = Inr s' \<Longrightarrow> R s s'" "recv_setStatus a st s = Inr s' \<Longrightarrow> R s s'"
  by (auto simp: send_setStatus_def recv_setStatus_def bindR_eq_Inr intro: frame_send frame_recv split: option.splits)

lemma frame_setNext: "send_setNext a nx s = Inr s' \<Longrightarrow> R s s'"
proof -
  assume r: "send_setNext a nx s = Inr s'"
  then obtain op where op: "mSends s a = Some op" by (auto simp: send_setNext_def bindR_eq_Inr split: option.splits)
  let ?s = "set_send a (op\<lparr>so_Next := nx\<rparr>) s"
  have 1: "R s ?s" by (rule frame_send [OF op]) simp_all
  show "R s s'"
  proof (cases nx)
    case None
    then show ?thesis using r op 1 by (simp add: send_setNext_def Let_def)
  next
    case (Some b)
    then obtain op2 where op2: "mSends ?s b = Some op2" and s': "s' = set_send b (op2\<lparr>so_Prev := Some a\<rparr>) ?s"
      using r op by (auto simp: send_setNext_def Let_def bindR_eq_Inr split: option.splits)
    show ?thesis unfolding s' by (rule frame_trans [OF 1 frame_send [OF op2]]) simp_all
  qed
qed

text \<open>Cancel.\<close>

lemma frame_abort_sends: "abort_sends ec x s = Inr s' \<Longrightarrow> R s s'"
proof (induction ec x s rule: abort_sends.induct)
  case (1 ec s)
  then show ?case by (simp add: frame_refl)
next
  case (2 ec a s)
  then obtain nx t where t: "abort_send ec a s = Inr (nx, t)" "abort_sends (make_error_code Cancel) nx t = Inr s'"
    by (auto simp: abort_sends.simps(2) split: sum.splits)
  then show ?case using 2(1) [OF t(1) refl t(2)] frame_abort_send frame_trans by blast
qed

lemma frame_abort_recvs: "abort_recvs n ec i s = Inr s' \<Longrightarrow> R s s'"
proof (induction n ec i s rule: abort_recvs.induct)
  case (1 ec i s)
  then show ?case by (simp add: frame_refl)
next
  case (2 n ec i s)
  note step = abort_recvs.simps(2) [of n ec i s]
  obtain f where f: "fork_at i s = Inr f" using 2(3) unfolding step by (cases "fork_at i s") auto
  show ?case
  proof (cases "queue_size (mRecvOps f) = 0")
    case True
    then show ?thesis using 2(1) [OF f True] 2(3) f unfolding step by simp
  next
    case False
    then obtain t where t: "abort_recv ec i s = Inr t" "abort_recvs (Suc n) (make_error_code Cancel) i t = Inr s'"
      using 2(3) f unfolding step by (cases "abort_recv ec i s") simp_all
    show ?thesis using 2(2) [OF f False t] frame_abort_recv [OF t(1)] frame_trans by blast
  qed
qed

lemma frame_first: "R s (after_first c ec s)"
proof -
  have "filter (resumes h) (cancel_effects s) = []" for h by (simp add: cancel_effects_def)
  then show ?thesis by (intro frame_same) (simp_all add: after_first_def cancelled_def resumed_def)
qed

lemma frame_cancel: "cancel c ec s = Inr s' \<Longrightarrow> R s s'"
proof -
  assume run: "cancel c ec s = Inr s'"
  then obtain e t where t: "cancel_first c ec s = Inr (e, t)" by (cases "cancel_first c ec s") (auto simp: cancel_def)
  have 1: "R s t" using frame_first [of s c ec] cancel_first_Inr [OF t] by simp
  note run = run [unfolded cancel_def t bindR_Inr prod.case]
  obtain u where u: "(if c = Sender then abort_sends e (mSendBegin t) (t\<lparr>mSendStatus := SClosed, mSendBegin := None, mSendLast := None\<rparr>)
      else Inr t) = Inr u" using run unfolding bindR_eq_Inr by blast
  have "R t (t\<lparr>mSendStatus := SClosed, mSendBegin := None, mSendLast := None\<rparr>)" by (rule frame_same) (simp_all add: resumed_def)
  then have 2: "R t u" using u frame_abort_sends frame_trans frame_refl by (auto split: if_splits)
  have 3: "(if c = Recver then bindR (abort_recvs (length (mForks u)) e 0 (u\<lparr>mRecvStatus := SClosed\<rparr>)) (\<lambda>s. Inr (s\<lparr>mNumRecvs := 0\<rparr>))
      else Inr u) = Inr s'" using run [unfolded u bindR_Inr] .
  have "R u s'"
  proof (cases "c = Recver")
    case True
    then obtain v where v: "abort_recvs (length (mForks u)) e 0 (u\<lparr>mRecvStatus := SClosed\<rparr>) = Inr v" "s' = v\<lparr>mNumRecvs := 0\<rparr>"
      using 3 by (auto simp: bindR_eq_Inr)
    have "R u (u\<lparr>mRecvStatus := SClosed\<rparr>)" by (rule frame_same) (simp_all add: resumed_def)
    then have "R u v" by (rule frame_trans [OF _ frame_abort_recvs [OF v(1)]])
    then show ?thesis unfolding v(2) by (rule frame_after) (simp_all add: resumed_def)
  next
    case False
    then show ?thesis using 3 by (simp add: frame_refl)
  qed
  then show "R s s'" using 1 2 frame_trans by blast
qed

lemma frame_close: "sched_close s = Inr s' \<Longrightarrow> R s s'"
  unfolding sched_close_def by (rule frame_cancel)

text \<open>The awaiters of the tasks, when no operation is to be completed.\<close>

lemma frame_next_None: "next_send None ec s = Inr s' \<Longrightarrow> R s s'"
proof -
  assume a: "next_send None ec s = Inr s'"
  show "R s s'"
  proof (cases "is_error ec \<or> is_error (mEC s)")
    case True
    then obtain t where t: "cancel Sender ec s = Inr t"
      and s': "s' = emit (Resume Send_Task None) (t\<lparr>mSendRes := Some (Inl (make_error_code Closed))\<rparr>)"
      using a by (auto simp: next_send_def fault_simps split: option.splits)
    show ?thesis unfolding s' by (rule frame_emit, rule frame_after [OF frame_cancel [OF t]]) (simp_all add: resumed_def)
  next
    case False
    show ?thesis
    proof (cases "mSendBegin s")
      case None
      then have s': "s' = s\<lparr>mSendStatus := Idle, mNextSendOp := True\<rparr>" using a False by (simp add: next_send_def)
      show ?thesis unfolding s' by (rule frame_same) (simp_all add: resumed_def)
    next
      case (Some b)
      then obtain t where t: "send_setStatus b InProgress s = Inr t"
        and s': "s' = emit (Resume Send_Task None) (t\<lparr>mSendRes := Some (Inr b)\<rparr>)"
        using a False by (auto simp: next_send_def fault_simps)
      show ?thesis unfolding s' by (rule frame_emit, rule frame_after [OF frame_setStatus(1) [OF t]]) (simp_all add: resumed_def)
    qed
  qed
qed

lemma frame_any_None: "any_recv None ec s = Inr s' \<Longrightarrow> R s s'"
proof -
  assume a: "any_recv None ec s = Inr s'"
  show "R s s'"
  proof (cases "is_error ec \<or> is_error (mEC s)")
    case True
    then obtain t where t: "cancel Recver ec (s\<lparr>mAnyRes := Some (make_error_code Cancel)\<rparr>) = Inr t"
      and s': "s' = emit (Resume Recv_Task None) t"
      using a by (auto simp: any_recv_def bindR_eq_Inr)
    have "R s (s\<lparr>mAnyRes := Some (make_error_code Cancel)\<rparr>)" by (rule frame_same) (simp_all add: resumed_def)
    then show ?thesis unfolding s' by (intro frame_emit frame_trans [OF _ frame_cancel [OF t]]) simp_all
  next
    case False
    then have "s' = (if mNumRecvs s \<noteq> 0 then emit (Resume Recv_Task None) (s\<lparr>mAnyRes := Some (make_error_code Success)\<rparr>)
        else s\<lparr>mRecvStatus := Idle, mAnyRecvOp := True\<rparr>)" using a by (auto simp: any_recv_def)
    then show ?thesis by (intro frame_same) (simp_all add: resumed_def emit_def)
  qed
qed

lemma frame_get_recv: "get_recv r s = Inr s' \<Longrightarrow> R s s'"
proof -
  assume run: "get_recv r s = Inr s'"
  obtain t where t: "(if mRemoteMap s r = None then cancel Recver (make_error_code BadCoprotoMessageHeader) s else Inr s) = Inr t"
    using run unfolding get_recv_def bindR_eq_Inr by blast
  have 1: "R s t" using t frame_cancel frame_refl by (auto split: if_splits)
  note run = run [unfolded get_recv_def t bindR_Inr]
  have "R t s'"
  proof (cases "is_error (mEC t)")
    case True
    then have "s' = emit (Resume Recv_Task None) (t\<lparr>mGetRes := Some (Inl (mEC t))\<rparr>)" using run by simp
    then show ?thesis by (intro frame_same) (simp_all add: emit_def resumed_def)
  next
    case False
    then obtain i f where f: "mRemoteMap t r = Some i" "fork_at i t = Inr f" using run by (auto simp: bindR_eq_Inr split: option.splits)
    show ?thesis
    proof (cases "queue_size (mRecvOps f) = 0")
      case True
      then have "s' = t\<lparr>mRecvStatus := RequestedRecvOp, mGetReq := Some r\<rparr>" using run False f by simp
      then show ?thesis by (intro frame_same) (simp_all add: resumed_def)
    next
      case nz: False
      then obtain a u where u: "recv_setStatus a InProgress t = Inr u" "s' = emit (Resume Recv_Task None) (u\<lparr>mGetRes := Some (Inr a)\<rparr>)"
        using run False f by (auto simp: bindR_eq_Inr)
      show ?thesis unfolding u(2) by (rule frame_emit, rule frame_after [OF frame_setStatus(2) [OF u(1)]]) (simp_all add: resumed_def)
    qed
  qed
  then show "R s s'" using 1 frame_trans by blast
qed

text \<open>What the users' calls do with an operation that is already there.\<close>

lemma frame_enqueue: "enqueue_send a s = Inr s' \<Longrightarrow> R s s'"
proof -
  assume e: "enqueue_send a s = Inr s'"
  show "R s s'"
  proof (cases "mNextSendOp s")
    case True
    then obtain t where t: "send_setStatus a InProgress (s\<lparr>mSendStatus := InUse\<rparr>) = Inr t"
      "s' = (wake_send (Inr a) None t)\<lparr>mSendBegin := Some a, mSendLast := Some a\<rparr>"
      using e by (auto simp: enqueue_send_def fault_simps)
    have "R s (s\<lparr>mSendStatus := InUse\<rparr>)" by (rule frame_same) (simp_all add: resumed_def)
    then have "R s t" by (rule frame_trans [OF _ frame_setStatus(1) [OF t(1)]])
    then show ?thesis unfolding t(2) by (rule frame_after) (simp_all add: wake_send_def emit_def resumed_def)
  next
    case False
    then obtain l t where t: "send_setNext l (Some a) s = Inr t" "s' = t\<lparr>mSendLast := Some a\<rparr>"
      using e by (auto simp: enqueue_send_def fault_simps split: option.splits)
    show ?thesis unfolding t(2) by (rule frame_after [OF frame_setNext [OF t(1)]]) (simp_all add: resumed_def)
  qed
qed

lemma frame_match: "match_recv i a s = Inr s' \<Longrightarrow> R s s'"
proof -
  assume run: "match_recv i a s = Inr s'"
  obtain f where f: "fork_at i s = Inr f" using run unfolding match_recv_def bindR_eq_Inr by blast
  note run = run [unfolded match_recv_def f bindR_Inr]
  obtain t where t: "(if mAnyRecvOp s then checkR (mRecvStatus s = Idle) Assertion
         (bindR (recv_setStatus a InProgress (s\<lparr>mRecvStatus := InUse\<rparr>)) (\<lambda>s.
          Inr (wake_any (make_error_code Success) (mExecutor f) s))) else Inr s) = Inr t"
    using run unfolding bindR_eq_Inr by blast
  note run = run [unfolded t bindR_Inr]
  have busy: "R u (u\<lparr>mRecvStatus := InUse\<rparr>)" for u by (rule frame_same) (simp_all add: resumed_def)
  have "R s t"
  proof (cases "mAnyRecvOp s")
    case True
    then obtain u where u: "recv_setStatus a InProgress (s\<lparr>mRecvStatus := InUse\<rparr>) = Inr u"
      "t = wake_any (make_error_code Success) (mExecutor f) u"
      using t by (auto simp: bindR_eq_Inr checkR_eq_Inr)
    show ?thesis unfolding u(2)
      by (rule frame_after [OF frame_trans [OF busy frame_setStatus(2) [OF u(1)]]]) (simp_all add: wake_any_def emit_def resumed_def)
  qed (use t in \<open>simp add: frame_refl\<close>)
  moreover have "R t s'"
  proof (cases "mGetReq t = Some (mRemoteId f)")
    case True
    then obtain u where u: "recv_setStatus a InProgress (t\<lparr>mRecvStatus := InUse\<rparr>) = Inr u"
      "s' = wake_get (Inr a) (mExecutor f) u"
      using run by (auto simp: bindR_eq_Inr checkR_eq_Inr)
    show ?thesis unfolding u(2)
      by (rule frame_after [OF frame_trans [OF busy frame_setStatus(2) [OF u(1)]]]) (simp_all add: wake_get_def emit_def resumed_def)
  qed (use run in \<open>simp add: frame_refl\<close>)
  ultimately show "R s s'" by (rule frame_trans)
qed

lemma frame_token:
  "setCancelation_send tok a s = Inr s' \<Longrightarrow> tok \<noteq> Stop_Requested \<Longrightarrow> R s s'"
  "setCancelation_recv tok a s = Inr s' \<Longrightarrow> tok \<noteq> Stop_Requested \<Longrightarrow> R s s'"
  by (auto simp: setCancelation_send_def setCancelation_recv_def bindR_eq_Inr Let_def frame_refl
      intro: frame_send frame_recv split: if_splits option.splits)

lemma frame_addFlush:
  "addFlush_recv a t s = Inr s' \<Longrightarrow> R s s'" "addFlush_send a t s = Inr s' \<Longrightarrow> R s s'"
proof -
  assume "addFlush_recv a t s = Inr s'"
  then obtain op where op: "mRecvs s a = Some op" and 1: "share_token t (set_recv a (op\<lparr>ro_Flushes := ro_Flushes op @ [t]\<rparr>) s) = Inr s'"
    by (auto simp: addFlush_recv_def bindR_eq_Inr split: option.splits)
  show "R s s'" by (rule frame_trans [OF frame_recv [OF op] frame_share [OF 1]]) simp_all
next
  assume "addFlush_send a t s = Inr s'"
  then obtain op where op: "mSends s a = Some op" and 1: "share_token t (set_send a (op\<lparr>so_Flushes := so_Flushes op @ [t]\<rparr>) s) = Inr s'"
    by (auto simp: addFlush_send_def bindR_eq_Inr split: option.splits)
  show "R s s'" by (rule frame_trans [OF frame_send [OF op] frame_share [OF 1]]) simp_all
qed

lemma frame_flush_forks: "flush_forks n i t s = Inr s' \<Longrightarrow> R s s'"
proof (induction n arbitrary: i s)
  case 0
  then show ?case by (simp add: frame_refl)
next
  case (Suc n)
  then obtain f s1 s2 where f: "fork_at i s = Inr f"
    and 1: "(if queue_size (mRecvOps f) \<noteq> 0 then bindR (queue_back (mRecvOps f)) (\<lambda>a. addFlush_recv a t s) else Inr s) = Inr s1"
    and 2: "(if queue_size (mSendOps f) \<noteq> 0 then bindR (queue_back (mSendOps f)) (\<lambda>a. addFlush_send a t s1) else Inr s1) = Inr s2"
    and 3: "flush_forks n (Suc i) t s2 = Inr s'"
    by (auto simp: fault_simps)
  have "R s s1" using 1 frame_addFlush(1) frame_refl by (auto simp: fault_simps split: if_splits)
  moreover have "R s1 s2" using 2 frame_addFlush(2) frame_refl by (auto simp: fault_simps split: if_splits)
  moreover have "R s2 s'" by (rule Suc.IH [OF 3])
  ultimately show ?case using frame_trans by blast
qed

text \<open>Forks, executors, stop requests on operations in progress.\<close>

lemma frame_initLocal: "initLocalSocketFork sid ex s = Inr s' \<Longrightarrow> R s s'"
  by (auto simp: initLocalSocketFork_def fault_simps fork_at_Inr add_fork_eq set_fork_def with_fork_def resumed_def
      intro!: frame_same split: option.splits)

lemma frame_initRemote: "initRemoteSocketFork n sid s = Inr (e, s') \<Longrightarrow> R s s'"
  by (auto simp: initRemoteSocketFork_def fault_simps fork_at_Inr add_fork_eq set_fork_def with_fork_def resumed_def
      intro!: frame_same split: option.splits if_splits)

lemma frame_fork: "sched_fork sid s = Inr (r, s') \<Longrightarrow> R s s'"
proof -
  assume "sched_fork sid s = Inr (r, s')"
  then obtain i f s2 ex where "initLocalSocketFork s2 ex (set_fork i f s) = Inr s'"
    by (auto simp: sched_fork_def bindR_eq_Inr Let_def case_prod_beta)
  then show "R s s'" by (rule frame_trans [OF frame_set_fork frame_initLocal])
qed

lemma frame_executor: "setExecutor ex sid s = Inr s' \<Longrightarrow> R s s'"
  by (auto simp: setExecutor_def fault_simps frame_set_fork)

lemma frame_stop:
  "mSends s a = Some op \<Longrightarrow> so_Status op \<noteq> NotStarted \<Longrightarrow> cancel_send a s = Inr s' \<Longrightarrow> R s s'"
  "mRecvs s a = Some rop \<Longrightarrow> ro_Status rop = InProgress \<Longrightarrow> cancel_recv a s = Inr s' \<Longrightarrow> R s s'"
proof -
  assume op: "mSends s a = Some op" and "so_Status op \<noteq> NotStarted" "cancel_send a s = Inr s'"
  then have s': "s' = emit (Call_Stop_Send (mSendSrc s)) ((set_send a (op\<lparr>so_Status := Canceling\<rparr>) s)\<lparr>mSendSrc := False\<rparr>)"
    by (auto simp: cancel_send_def send_setStatus_def set_send_def)
  have "R s (set_send a (op\<lparr>so_Status := Canceling\<rparr>) s)" by (rule frame_send [OF op]) simp_all
  then show "R s s'" unfolding s' by (intro frame_emit, elim frame_after) (simp_all add: resumed_def)
next
  assume op: "mRecvs s a = Some rop" and "ro_Status rop = InProgress" "cancel_recv a s = Inr s'"
  then have s': "s' = emit (Call_Stop_Recv (mRecvSrc s)) ((set_recv a (rop\<lparr>ro_Status := Canceling\<rparr>) s)\<lparr>mRecvSrc := False\<rparr>)"
    by (auto simp: cancel_recv_def recv_setStatus_def set_recv_def)
  have "R s (set_recv a (rop\<lparr>ro_Status := Canceling\<rparr>) s)" by (rule frame_recv [OF op]) simp_all
  then show "R s s'" unfolding s' by (intro frame_emit, elim frame_after) (simp_all add: resumed_def)
qed

lemma frame_send_resumed: "send_resumed s = Inr (pc, bs, s') \<Longrightarrow> R s s'"
  by (auto simp: send_resumed_def send_header_def fault_simps Let_def frame_set_fork frame_refl split: option.splits sum.splits if_splits)

end

end
