(* ===== verification/Sched_Resumed.thy ===== *)
theory Sched_Resumed
  imports Sched_Frame
begin

text \<open>
  Every coroutine of a user that suspends on the socket is resumed exactly once: a balance of the
  coroutines that wait in pending operations and flush tokens, and of those that have been resumed.
\<close>

section \<open>The balance\<close>

definition holds :: "('o \<Rightarrow> nat option) \<Rightarrow> nat \<Rightarrow> 'o option \<Rightarrow> nat" where
  "holds f h v = (case v of None \<Rightarrow> 0 | Some op \<Rightarrow> if f op = Some h then 1 else 0)"

definition holders :: "(nat \<Rightarrow> 'o option) \<Rightarrow> ('o \<Rightarrow> nat option) \<Rightarrow> nat \<Rightarrow> nat" where
  "holders m f h = card {a. \<exists>op. m a = Some op \<and> f op = Some h}"

lemma holds_simps [simp]: "holds f h None = 0" "holds f h (Some op) = (if f op = Some h then 1 else 0)"
  by (simp_all add: holds_def)

lemma holders_empty [simp]: "holders (\<lambda>_. None) f h = 0"
  by (simp add: holders_def)

lemma holders_upd:
  assumes "finite (dom m)"
  shows "holders (m(a := v)) f h + holds f h (m a) = holders m f h + holds f h v"
proof -
  let ?A = "{b. b \<noteq> a \<and> (\<exists>op. m b = Some op \<and> f op = Some h)}"
  have fin: "finite ?A" by (rule rev_finite_subset [OF assms]) auto
  have card: "holders m' f h = card ?A + holds f h (m' a)" if m': "\<And>b. b \<noteq> a \<Longrightarrow> m' b = m b" for m'
  proof -
    have eq: "(\<exists>op. m' b = Some op \<and> f op = Some h) \<longleftrightarrow> (\<exists>op. m b = Some op \<and> f op = Some h)" if "b \<noteq> a" for b
      using m' [OF that] by simp
    show ?thesis
    proof (cases "\<exists>op. m' a = Some op \<and> f op = Some h")
      case True
      then have "{b. \<exists>op. m' b = Some op \<and> f op = Some h} = insert a ?A" using eq by blast
      then show ?thesis using fin True by (auto simp: holders_def)
    next
      case False
      have "b \<in> {b. \<exists>op. m' b = Some op \<and> f op = Some h} \<longleftrightarrow> b \<in> ?A" for b
        using eq [of b] False by (cases "b = a") blast+
      then have "{b. \<exists>op. m' b = Some op \<and> f op = Some h} = ?A" by blast
      then show ?thesis using False by (auto simp: holders_def holds_def split: option.splits)
    qed
  qed
  show ?thesis using card [of m] card [of "m(a := v)"] by simp
qed

lemma holders_take:
  "finite (dom m) \<Longrightarrow> m a = Some op \<Longrightarrow> f op = Some k \<Longrightarrow> f op' = None \<Longrightarrow>
     holders m f h = holders (m(a \<mapsto> op')) f h + (if k = h then 1 else 0)"
  using holders_upd [of m a "Some op'" f h] by auto

definition waiting_for :: "sched \<Rightarrow> nat \<Rightarrow> nat" where
  "waiting_for s h = holders (mSends s) so_CH h + holders (mRecvs s) ro_CH h + holders (mTokens s) ft_Handle h"

definition balance :: "sched \<Rightarrow> nat \<Rightarrow> nat" where
  "balance s h = waiting_for s h + resumed s h"

definition finite_ops :: "sched \<Rightarrow> bool" where
  "finite_ops s \<longleftrightarrow> finite (dom (mSends s)) \<and> finite (dom (mRecvs s)) \<and> finite (dom (mTokens s))"

lemmas balance_defs = balance_def waiting_for_def resumed_def resumes_def

text \<open>A step that completes what it removes.\<close>

definition even_step :: "sched \<Rightarrow> sched \<Rightarrow> bool" where
  "even_step s s' \<longleftrightarrow> (finite_ops s \<longrightarrow> finite_ops s' \<and> (\<forall>h. balance s' h = balance s h))"

lemma even_refl [simp, intro]: "even_step s s"
  by (simp add: even_step_def)

lemma even_trans [trans]: "even_step s t \<Longrightarrow> even_step t u \<Longrightarrow> even_step s u"
  by (simp add: even_step_def)

lemma even_fields:
  assumes "mSends s' = mSends s" "mRecvs s' = mRecvs s" "mTokens s' = mTokens s" "\<And>h. resumed s' h = resumed s h"
  shows "even_step s s'"
  using assms by (simp add: even_step_def balance_def waiting_for_def finite_ops_def)

lemma even_after:
  assumes "even_step s t" "mSends s' = mSends t" "mRecvs s' = mRecvs t" "mTokens s' = mTokens t" "\<And>h. resumed s' h = resumed t h"
  shows "even_step s s'"
  by (rule even_trans [OF assms(1) even_fields]) (simp_all add: assms)

lemma even_emit: "even_step s t \<Longrightarrow> (\<And>h. \<not> resumes h e) \<Longrightarrow> even_step s (emit e t)"
  by (erule even_after) (simp_all add: emit_def resumed_def)

lemma even_set_send: "mSends s a = Some op \<Longrightarrow> so_CH op' = so_CH op \<Longrightarrow> even_step s (set_send a op' s)"
  using holders_upd [of "mSends s" a "Some op'" so_CH]
  by (simp add: even_step_def balance_def waiting_for_def finite_ops_def set_send_def resumed_def)

lemma even_set_recv: "mRecvs s a = Some op \<Longrightarrow> ro_CH op' = ro_CH op \<Longrightarrow> even_step s (set_recv a op' s)"
  using holders_upd [of "mRecvs s" a "Some op'" ro_CH]
  by (simp add: even_step_def balance_def waiting_for_def finite_ops_def set_recv_def resumed_def)

lemma even_drop_send: "(\<And>op. mSends s a = Some op \<Longrightarrow> so_CH op = None) \<Longrightarrow> even_step s (s\<lparr>mSends := (mSends s)(a := None)\<rparr>)"
  using holders_upd [of "mSends s" a None so_CH]
  by (cases "mSends s a") (simp_all add: even_step_def balance_def waiting_for_def finite_ops_def resumed_def)

lemma even_drop_recv: "(\<And>op. mRecvs s a = Some op \<Longrightarrow> ro_CH op = None) \<Longrightarrow> even_step s (s\<lparr>mRecvs := (mRecvs s)(a := None)\<rparr>)"
  using holders_upd [of "mRecvs s" a None ro_CH]
  by (cases "mRecvs s a") (simp_all add: even_step_def balance_def waiting_for_def finite_ops_def resumed_def)

lemma even_take_send:
  assumes "mSends s a = Some op" "so_CH op = Some h"
  shows "even_step s (emit (Resume (User h) ex) (set_send a (op\<lparr>so_CH := None\<rparr>) s))"
  unfolding even_step_def
proof (intro impI conjI allI)
  assume "finite_ops s"
  note fin = this [unfolded finite_ops_def]
  show "finite_ops (emit (Resume (User h) ex) (set_send a (op\<lparr>so_CH := None\<rparr>) s))" using fin by (simp add: finite_ops_def set_send_def emit_def)
  fix x show "balance (emit (Resume (User h) ex) (set_send a (op\<lparr>so_CH := None\<rparr>) s)) x = balance s x"
    using holders_take [of "mSends s" a op so_CH h "op\<lparr>so_CH := None\<rparr>" x] fin assms
    by (simp add: balance_def waiting_for_def set_send_def resumed_def emit_def)
qed

lemma even_take_recv:
  assumes "mRecvs s a = Some op" "ro_CH op = Some h"
  shows "even_step s (emit (Resume (User h) ex) (set_recv a (op\<lparr>ro_CH := None\<rparr>) s))"
  unfolding even_step_def
proof (intro impI conjI allI)
  assume "finite_ops s"
  note fin = this [unfolded finite_ops_def]
  show "finite_ops (emit (Resume (User h) ex) (set_recv a (op\<lparr>ro_CH := None\<rparr>) s))" using fin by (simp add: finite_ops_def set_recv_def emit_def)
  fix x show "balance (emit (Resume (User h) ex) (set_recv a (op\<lparr>ro_CH := None\<rparr>) s)) x = balance s x"
    using holders_take [of "mRecvs s" a op ro_CH h "op\<lparr>ro_CH := None\<rparr>" x] fin assms
    by (simp add: balance_def waiting_for_def set_recv_def resumed_def emit_def)
qed

lemma even_token:
  assumes "mTokens s t = Some tok" "\<And>h. holds ft_Handle h v = holds ft_Handle h (Some tok)"
  shows "even_step s (s\<lparr>mTokens := (mTokens s)(t := v)\<rparr>)"
  using holders_upd [of "mTokens s" t v ft_Handle] assms
  by (simp add: even_step_def balance_def waiting_for_def finite_ops_def resumed_def del: holds_simps)

lemma even_take_token:
  assumes "mTokens s t = Some tok" "ft_Handle tok = Some h"
  shows "even_step s (emit (Resume (User h) ex) (s\<lparr>mTokens := (mTokens s)(t \<mapsto> tok\<lparr>ft_Handle := None\<rparr>)\<rparr>))"
  unfolding even_step_def
proof (intro impI conjI allI)
  assume "finite_ops s"
  note fin = this [unfolded finite_ops_def]
  show "finite_ops (emit (Resume (User h) ex) (s\<lparr>mTokens := (mTokens s)(t \<mapsto> tok\<lparr>ft_Handle := None\<rparr>)\<rparr>))" using fin by (simp add: finite_ops_def emit_def)
  fix x show "balance (emit (Resume (User h) ex) (s\<lparr>mTokens := (mTokens s)(t \<mapsto> tok\<lparr>ft_Handle := None\<rparr>)\<rparr>)) x = balance s x"
    using holders_take [of "mTokens s" t tok ft_Handle h "tok\<lparr>ft_Handle := None\<rparr>" x] fin assms
    by (simp add: balance_def waiting_for_def resumed_def emit_def)
qed

lemma even_set_fork: "even_step s (set_fork i f s)"
  by (rule even_fields) (simp_all add: set_fork_def resumed_def)

section \<open>Completing and removing operations\<close>

lemma even_notify: "notify_flushes ex ts s = Inr s' \<Longrightarrow> even_step s s'"
proof (induction ts arbitrary: s)
  case (Cons t ts)
  then obtain tok where t: "mTokens s t = Some tok" by (auto simp: bindR_eq_Inr split: option.splits)
  show ?case
  proof (cases "ft_Uses tok = 1")
    case True
    then obtain h where h: "ft_Handle tok = Some h" using Cons.prems t by (auto split: option.splits)
    show ?thesis
      using even_trans [OF even_take_token [OF t h, of ex] Cons.IH] Cons.prems t h True by simp
  next
    case False
    then show ?thesis using Cons t by simp
  qed
qed simp

lemma even_release: "release_flushes ts s = Inr s' \<Longrightarrow> even_step s s'"
proof (induction ts arbitrary: s)
  case (Cons t ts)
  then obtain tok where t: "mTokens s t = Some tok" by (auto simp: bindR_eq_Inr split: option.splits)
  show ?case
  proof (cases "ft_Uses tok = 1")
    case True
    then have "ft_Handle tok = None" "release_flushes ts (s\<lparr>mTokens := (mTokens s)(t := None)\<rparr>) = Inr s'"
      using Cons.prems t by (simp_all add: checkR_eq_Inr)
    then show ?thesis using even_trans [OF even_token [OF t, of None] Cons.IH] by simp
  next
    case False
    then have "release_flushes ts (s\<lparr>mTokens := (mTokens s)(t \<mapsto> tok\<lparr>ft_Uses := ft_Uses tok - 1\<rparr>)\<rparr>) = Inr s'"
      using Cons.prems t by simp
    then show ?thesis using even_trans [OF even_token [OF t, of "Some (tok\<lparr>ft_Uses := ft_Uses tok - 1\<rparr>)"] Cons.IH] by simp
  qed
qed simp

lemma even_completeOn:
  "completeOn_send a s = Inr s' \<Longrightarrow> even_step s s'" "completeOn_recv a s = Inr s' \<Longrightarrow> even_step s s'"
proof -
  assume "completeOn_send a s = Inr s'"
  then obtain op h f s1 s2 where op: "mSends s a = Some op" "so_CH op = Some h" and "fork_at (so_Fork op) s = Inr f"
    and 1: "notify_flushes (mExecutor f) (so_Flushes op) (emit (Resume (User h) (mExecutor f)) (set_send a (op\<lparr>so_CH := None\<rparr>) s)) = Inr s1"
    and 2: "release_flushes (so_Flushes op) s1 = Inr s2" and s': "s' = set_send a (op\<lparr>so_CH := None, so_Flushes := []\<rparr>) s2"
    by (auto simp: completeOn_send_def fault_simps split: option.splits)
  have "mSends s2 a = Some (op\<lparr>so_CH := None\<rparr>)"
    using notify_flushes_frame [OF 1] release_flushes_frame [OF 2] by (auto simp: set_send_def emit_def)
  then have "even_step s2 s'" unfolding s' by (rule even_set_send) simp
  then show "even_step s s'" using even_take_send [OF op] even_notify [OF 1] even_release [OF 2] even_trans by metis
next
  assume "completeOn_recv a s = Inr s'"
  then obtain op h f s1 s2 where op: "mRecvs s a = Some op" "ro_CH op = Some h" and "fork_at (ro_Fork op) s = Inr f"
    and 1: "notify_flushes (mExecutor f) (ro_Flushes op) (emit (Resume (User h) (mExecutor f)) (set_recv a (op\<lparr>ro_CH := None\<rparr>) s)) = Inr s1"
    and 2: "release_flushes (ro_Flushes op) s1 = Inr s2" and s': "s' = set_recv a (op\<lparr>ro_CH := None, ro_Flushes := []\<rparr>) s2"
    by (auto simp: completeOn_recv_def fault_simps split: option.splits)
  have "mRecvs s2 a = Some (op\<lparr>ro_CH := None\<rparr>)"
    using notify_flushes_frame [OF 1] release_flushes_frame [OF 2] by (auto simp: set_recv_def emit_def)
  then have "even_step s2 s'" unfolding s' by (rule even_set_recv) simp
  then show "even_step s s'" using even_take_recv [OF op] even_notify [OF 1] even_release [OF 2] even_trans by metis
qed

lemma even_setError:
  "send_op_setError a ec s = Inr s' \<Longrightarrow> even_step s s'" "recv_op_setError a ec s = Inr s' \<Longrightarrow> even_step s s'"
  by (auto dest!: setError_frame intro!: even_fields simp: resumed_def)

text \<open>An operation without a coroutine can be removed.\<close>

lemma even_pop_send:
  assumes "pop_front_send i s = Inr s'" "queue_front (mSendOps (mForks s ! i)) = Inr a" "\<And>op. mSends s a = Some op \<Longrightarrow> so_CH op = None"
  shows "even_step s s'"
proof -
  obtain q where s': "s' = set_fork i ((mForks s ! i)\<lparr>mSendOps := q\<rparr>) (s\<lparr>mSends := (mSends s)(a := None)\<rparr>)"
    using assms(1,2) by (auto simp: pop_front_send_def fault_simps fork_at_Inr)
  show ?thesis unfolding s' by (rule even_trans [OF even_drop_send [OF assms(3)] even_set_fork])
qed

lemma even_pop_recv:
  assumes "pop_front_recv i s = Inr s'" "queue_front (mRecvOps (mForks s ! i)) = Inr a" "\<And>op. mRecvs s a = Some op \<Longrightarrow> ro_CH op = None"
  shows "even_step s s'"
proof -
  obtain q where s': "s' = set_fork i ((mForks s ! i)\<lparr>mRecvOps := q\<rparr>) (s\<lparr>mRecvs := (mRecvs s)(a := None)\<rparr>)"
    using assms(1,2) by (auto simp: pop_front_recv_def fault_simps fork_at_Inr)
  show ?thesis unfolding s' by (rule even_trans [OF even_drop_recv [OF assms(3)] even_set_fork])
qed

section \<open>The tasks\<close>

lemma even_complete_step:
  assumes c: "completeOn_send a s = Inr t" and u: "mForks u = mForks t" "map_option so_CH (mSends u a) = map_option so_CH (mSends t a)"
    and front: "i < length (mForks s)" "queue_front (mSendOps (mForks s ! i)) = Inr a" and pop: "pop_front_send i u = Inr v"
  shows "even_step u v"
proof (rule even_pop_send [OF pop])
  obtain op where t: "mForks t = mForks s" "mSends t a = Some (op\<lparr>so_CH := None, so_Flushes := []\<rparr>)"
    using completeOn_send_frame [OF c] by auto
  show "queue_front (mSendOps (mForks u ! i)) = Inr a" using t(1) u(1) front by simp
  show "mSends u a = Some op' \<Longrightarrow> so_CH op' = None" for op' using t(2) u(2) by simp
qed

lemma even_abort_send: "abort_send ec a s = Inr (nx, s') \<Longrightarrow> even_step s s'"
proof -
  assume run: "abort_send ec a s = Inr (nx, s')"
  obtain op where op: "deref (mSends s) a = Inr op" using run unfolding abort_send_def bindR_eq_Inr by blast
  note run = run [unfolded abort_send_def op bindR_Inr checkR_eq_Inr]
  obtain f where f: "fork_at (so_Fork op) s = Inr f" using run unfolding bindR_eq_Inr by blast
  note run = run [unfolded f bindR_Inr]
  have fr: "queue_front (mSendOps f) = Inr a" using run unfolding bindR_eq_Inr checkR_eq_Inr by blast
  note run = run [unfolded fr bindR_Inr checkR_eq_Inr]
  obtain s1 where 1: "send_op_setError a ec s = Inr s1" using run unfolding bindR_eq_Inr by blast
  note run = run [unfolded 1 bindR_Inr]
  obtain s2 where 2: "completeOn_send a s1 = Inr s2" using run unfolding bindR_eq_Inr by blast
  note run = run [unfolded 2 bindR_Inr]
  obtain op' where op': "deref (mSends s2) a = Inr op'" using run unfolding bindR_eq_Inr by blast
  have 3: "pop_front_send (so_Fork op') s2 = Inr s'" using run [unfolded op' bindR_Inr] unfolding bindR_eq_Inr by auto
  have m: "mForks s1 = mForks s" "mSends s1 = mSends s" using setError_frame(1) [OF 1] by auto
  have "so_Fork op' = so_Fork op" using op op' completeOn_send_frame [OF 2] m by (auto split: option.splits)
  then have "even_step s2 s'"
    using f fr m by (intro even_complete_step [OF 2 refl refl _ _ 3]) (simp_all add: fork_at_Inr)
  then show "even_step s s'" using even_setError(1) [OF 1] even_completeOn(1) [OF 2] even_trans by blast
qed

lemma even_abort_recv: "abort_recv ec i s = Inr s' \<Longrightarrow> even_step s s'"
proof -
  assume "abort_recv ec i s = Inr s'"
  then obtain f a s1 s2 where f: "fork_at i s = Inr f" "queue_front (mRecvOps f) = Inr a"
    and 1: "recv_op_setError a ec s = Inr s1" and 2: "completeOn_recv a s1 = Inr s2" and 3: "pop_front_recv i s2 = Inr s'"
    unfolding abort_recv_def bindR_eq_Inr by blast
  have m: "mForks s1 = mForks s" using setError_frame(2) [OF 1] by auto
  obtain op where t: "mForks s2 = mForks s1" "mRecvs s2 a = Some (op\<lparr>ro_CH := None, ro_Flushes := []\<rparr>)"
    using completeOn_recv_frame [OF 2] by auto
  have "even_step s2 s'" by (rule even_pop_recv [OF 3, of a]) (use f m t in \<open>auto simp: fork_at_Inr\<close>)
  then show "even_step s s'" using even_setError(2) [OF 1] even_completeOn(2) [OF 2] even_trans by blast
qed

lemma even_share: "share_token t s = Inr s' \<Longrightarrow> even_step s s'"
proof -
  assume "share_token t s = Inr s'"
  then obtain tok where t: "mTokens s t = Some tok" and s': "s' = s\<lparr>mTokens := (mTokens s)(t \<mapsto> tok\<lparr>ft_Uses := ft_Uses tok + 1\<rparr>)\<rparr>"
    by (auto simp: share_token_def bindR_eq_Inr split: option.splits)
  show "even_step s s'" unfolding s' by (rule even_token [OF t]) simp
qed

text \<open>With this the relation is a frame, and holds for all that is made of these steps.\<close>

interpretation balanced: step_frame even_step
proof unfold_locales
  fix s s' :: sched and a :: nat and op op' :: send_op and rop rop' :: recv_op
  show "mSends s a = Some op \<Longrightarrow> so_CH op' = so_CH op \<Longrightarrow> so_Buffer op' = so_Buffer op \<Longrightarrow> even_step s (set_send a op' s)"
    by (rule even_set_send)
  show "mRecvs s a = Some rop \<Longrightarrow> ro_CH rop' = ro_CH rop \<Longrightarrow> ro_Buffer rop' = ro_Buffer rop \<Longrightarrow> even_step s (set_recv a rop' s)"
    by (rule even_set_recv)
qed (use even_trans even_fields even_abort_send even_abort_recv even_share in blast)+

lemma even_complete_prev_send:
  assumes run: "complete_prev_send a ec s = Inr (e, t)"
  shows "even_step s t"
proof -
  obtain e1 s1 where 1: "(if is_error ec then bindR (send_op_setError a ec s) (\<lambda>s. Inr (make_error_code Cancel, s)) else Inr (ec, s)) = Inr (e1, s1)"
    using run unfolding complete_prev_send_def bindR_eq_Inr by fast
  note run = run [unfolded complete_prev_send_def 1 bindR_Inr prod.case]
  obtain s2 where 2: "completeOn_send a s1 = Inr s2" using run unfolding bindR_eq_Inr by blast
  note run = run [unfolded 2 bindR_Inr]
  obtain op where op: "deref (mSends s2) a = Inr op" using run unfolding bindR_eq_Inr by blast
  note run = run [unfolded op bindR_Inr Let_def]
  obtain s3 where 3: "send_setNext a None s2 = Inr s3" using run unfolding bindR_eq_Inr by blast
  note run = run [unfolded 3 bindR_Inr]
  obtain f where f: "fork_at (so_Fork op) s3 = Inr f" using run unfolding bindR_eq_Inr by blast
  have fr: "queue_front (mSendOps f) = Inr a" using run [unfolded f bindR_Inr] unfolding bindR_eq_Inr checkR_eq_Inr by blast
  let ?u = "if so_Next op = None then s3\<lparr>mSendBegin := so_Next op, mSendLast := None\<rparr> else s3\<lparr>mSendBegin := so_Next op\<rparr>"
  have 4: "pop_front_send (so_Fork op) ?u = Inr t"
    using run [unfolded f bindR_Inr] unfolding bindR_eq_Inr checkR_eq_Inr by auto
  have s3: "s3 = set_send a (op\<lparr>so_Next := None\<rparr>) s2" using 3 op by (simp add: send_setNext_def Let_def split: option.splits)
  have m: "mForks s2 = mForks s1" using completeOn_send_frame [OF 2] by auto
  have "even_step s s1" using 1 even_setError(1) by (auto simp: bindR_eq_Inr split: if_splits)
  also have "even_step s1 s3" by (rule even_trans [OF even_completeOn(1) [OF 2] balanced.frame_setNext [OF 3]])
  also have "even_step s3 ?u" by (rule even_fields) (simp_all add: resumed_def)
  also have "even_step ?u t"
    by (rule even_complete_step [OF 2 _ _ _ _ 4])
      (use f fr op m in \<open>simp_all add: s3 set_send_def fork_at_Inr split: option.splits\<close>)
  finally show ?thesis .
qed

lemma even_next_send: "next_send p ec s = Inr s' \<Longrightarrow> even_step s s'"
proof -
  assume run: "next_send p ec s = Inr s'"
  show "even_step s s'"
  proof (cases p)
    case (Some a)
    then obtain e t where "complete_prev_send a ec s = Inr (e, t)" "next_send None e t = Inr s'"
      using run by (auto simp: next_send_Some fault_simps)
    then show ?thesis using even_complete_prev_send balanced.frame_next_None even_trans by blast
  qed (use run balanced.frame_next_None in simp)
qed

lemma even_complete_prev_recv:
  assumes run: "complete_prev_recv a ec s = Inr (e, t)"
  shows "even_step s t"
proof -
  let ?s = "s\<lparr>mRecvSrc := True\<rparr>"
  obtain op where op: "deref (mRecvs ?s) a = Inr op" using run unfolding complete_prev_recv_def Let_def bindR_eq_Inr by blast
  note run = run [unfolded complete_prev_recv_def Let_def op bindR_Inr]
  obtain f where f: "fork_at (ro_Fork op) ?s = Inr f" using run unfolding bindR_eq_Inr by blast
  note run = run [unfolded f bindR_Inr checkR_eq_Inr]
  have fr: "queue_front (mRecvOps f) = Inr a" using run unfolding bindR_eq_Inr checkR_eq_Inr by blast
  note run = run [unfolded fr bindR_Inr checkR_eq_Inr]
  obtain e1 s1 where 1: "(if is_error ec then bindR (recv_op_setError a ec ?s) (\<lambda>s. Inr (make_error_code Cancel, s)) else Inr (ec, ?s)) = Inr (e1, s1)"
    using run unfolding bindR_eq_Inr by fast
  note run = run [unfolded 1 bindR_Inr prod.case]
  obtain s2 where 2: "completeOn_recv a s1 = Inr s2" using run unfolding bindR_eq_Inr by blast
  obtain s3 where 3: "pop_front_recv (ro_Fork op) s2 = Inr s3" "t = s3\<lparr>mNumRecvs := mNumRecvs s3 - 1\<rparr>"
    using run [unfolded 2 bindR_Inr] unfolding bindR_eq_Inr by auto
  have m: "mForks s1 = mForks s" using 1 by (auto simp: bindR_eq_Inr dest!: setError_frame split: if_splits)
  obtain op' where t: "mForks s2 = mForks s1" "mRecvs s2 a = Some (op'\<lparr>ro_CH := None, ro_Flushes := []\<rparr>)"
    using completeOn_recv_frame [OF 2] by auto
  have "even_step s ?s" by (rule even_fields) (simp_all add: resumed_def)
  also have "even_step ?s s1" using 1 even_setError(2) by (auto simp: bindR_eq_Inr split: if_splits)
  also have "even_step s1 s2" by (rule even_completeOn(2) [OF 2])
  also have "even_step s2 s3" by (rule even_pop_recv [OF 3(1), of a]) (use f fr m t in \<open>auto simp: fork_at_Inr\<close>)
  also have "even_step s3 t" unfolding 3(2) by (rule even_fields) (simp_all add: resumed_def)
  finally show ?thesis .
qed

lemma even_any_recv: "any_recv p ec s = Inr s' \<Longrightarrow> even_step s s'"
proof -
  assume run: "any_recv p ec s = Inr s'"
  show "even_step s s'"
  proof (cases p)
    case (Some a)
    then obtain e t where "complete_prev_recv a ec s = Inr (e, t)" "any_recv None e t = Inr s'"
      using run by (auto simp: any_recv_split fault_simps)
    then show ?thesis using even_complete_prev_recv balanced.frame_any_None even_trans by blast
  qed (use run balanced.frame_any_None in simp)
qed

section \<open>The calls of the users\<close>

text \<open>What a call adds to the balance.\<close>

definition adds :: "nat \<Rightarrow> sched \<Rightarrow> sched \<Rightarrow> bool" where
  "adds k s s' \<longleftrightarrow> (finite_ops s \<longrightarrow> finite_ops s' \<and> (\<forall>h. balance s' h = balance s h + (if k = h then 1 else 0)))"

lemma adds_even: "adds k s t \<Longrightarrow> even_step t u \<Longrightarrow> adds k s u" "even_step s t \<Longrightarrow> adds k t u \<Longrightarrow> adds k s u"
  by (simp_all add: adds_def even_step_def)

lemma balance_emit [simp]: "balance (emit e s) h = balance s h + (if resumes h e then 1 else 0)" "finite_ops (emit e s) = finite_ops s"
proof -
  have "waiting_for (emit e s) h = waiting_for s h" by (simp add: waiting_for_def emit_def)
  then show "balance (emit e s) h = balance s h + (if resumes h e then 1 else 0)" by (simp add: balance_def)
  show "finite_ops (emit e s) = finite_ops s" by (simp add: finite_ops_def emit_def)
qed

lemma adds_emit: "even_step s t \<Longrightarrow> adds k s (emit (Resume (User k) ex) t)"
  by (simp add: adds_def even_step_def)

lemma adds_send_op:
  "mSends s a = None \<Longrightarrow> so_CH op = Some k \<Longrightarrow> adds k s (set_send a op s)"
  using holders_upd [of "mSends s" a "Some op" so_CH]
  by (simp add: adds_def balance_def waiting_for_def finite_ops_def set_send_def resumed_def)

lemma adds_recv_op:
  "mRecvs s a = None \<Longrightarrow> ro_CH op = Some k \<Longrightarrow> adds k s (set_recv a op s)"
  using holders_upd [of "mRecvs s" a "Some op" ro_CH]
  by (simp add: adds_def balance_def waiting_for_def finite_ops_def set_recv_def resumed_def)

lemma adds_token:
  "mTokens s t = None \<Longrightarrow> ft_Handle tok = Some k \<Longrightarrow> adds k s (s\<lparr>mFreshPtr := n, mTokens := (mTokens s)(t \<mapsto> tok)\<rparr>)"
  using holders_upd [of "mTokens s" t "Some tok" ft_Handle]
  by (simp add: adds_def balance_def waiting_for_def finite_ops_def resumed_def)

lemma adds_emplace_send: "emplace_send i (new_send_op i k b) s = Inr (a, s') \<Longrightarrow> mSends s (mFreshPtr s) = None \<Longrightarrow> adds k s s'"
proof -
  assume run: "emplace_send i (new_send_op i k b) s = Inr (a, s')" and fr: "mSends s (mFreshPtr s) = None"
  obtain q where s': "s' = set_send (mFreshPtr s) (new_send_op i k b)
      (set_fork i ((mForks s ! i)\<lparr>mSendOps := q\<rparr>) (s\<lparr>mFreshPtr := mFreshPtr s + 1\<rparr>))"
    using run by (auto simp: emplace_send_def fault_simps fork_at_Inr)
  have "even_step s (s\<lparr>mFreshPtr := mFreshPtr s + 1\<rparr>)" by (rule even_fields) (simp_all add: resumed_def)
  then have "even_step s (set_fork i ((mForks s ! i)\<lparr>mSendOps := q\<rparr>) (s\<lparr>mFreshPtr := mFreshPtr s + 1\<rparr>))"
    by (rule even_trans [OF _ even_set_fork])
  then show "adds k s s'" unfolding s' by (rule adds_even(2) [OF _ adds_send_op]) (simp_all add: fr set_fork_def new_send_op_def)
qed

lemma adds_emplace_recv: "emplace_recv i (new_recv_op d k i) s = Inr (a, s') \<Longrightarrow> mRecvs s (mFreshPtr s) = None \<Longrightarrow> adds k s s'"
proof -
  assume run: "emplace_recv i (new_recv_op d k i) s = Inr (a, s')" and fr: "mRecvs s (mFreshPtr s) = None"
  obtain q where s': "s' = set_recv (mFreshPtr s) (new_recv_op d k i)
      (set_fork i ((mForks s ! i)\<lparr>mRecvOps := q\<rparr>) (s\<lparr>mFreshPtr := mFreshPtr s + 1\<rparr>))"
    using run by (auto simp: emplace_recv_def fault_simps fork_at_Inr)
  have "even_step s (s\<lparr>mFreshPtr := mFreshPtr s + 1\<rparr>)" by (rule even_fields) (simp_all add: resumed_def)
  then have "even_step s (set_fork i ((mForks s ! i)\<lparr>mRecvOps := q\<rparr>) (s\<lparr>mFreshPtr := mFreshPtr s + 1\<rparr>))"
    by (rule even_trans [OF _ even_set_fork])
  then show "adds k s s'" unfolding s' by (rule adds_even(2) [OF _ adds_recv_op]) (simp_all add: fr set_fork_def new_recv_op_def)
qed

text \<open>The caller is told at once, or added to those that wait, or its resumption is scheduled.\<close>

definition entered :: "nat \<Rightarrow> coro option \<Rightarrow> sched \<Rightarrow> sched \<Rightarrow> bool" where
  "entered k r s s' \<longleftrightarrow> r = None \<and> adds k s s' \<or> r = Some (User k) \<and> even_step s s'"

lemma send_entered:
  assumes run: "send sid b cb tok s = Inr (r, s')" and tok: "tok \<noteq> Stop_Requested" and fr: "mSends s (mFreshPtr s) = None"
  shows "entered cb r s s'"
proof (cases "sb_data b = []")
  case True
  then obtain ex where s': "s' = s\<lparr>mExs := ex\<rparr>" "r = Some (User cb)" using run by (auto simp: send_def fault_simps)
  then show ?thesis by (simp add: entered_def even_fields resumed_def)
next
  case ne: False
  show ?thesis
  proof (cases "is_error (mEC s)")
    case True
    then obtain x ex where s': "s' = emit (Resume (User cb) x) (s\<lparr>mExs := ex\<rparr>)" "r = None" using run ne by (auto simp: send_def fault_simps)
    have "even_step s (s\<lparr>mExs := ex\<rparr>)" by (rule even_fields) (simp_all add: resumed_def)
    then show ?thesis using s' adds_emit by (simp add: entered_def)
  next
    case False
    then obtain i a t u where t: "emplace_send i (new_send_op i cb b) s = Inr (a, t)" "enqueue_send a t = Inr u"
      "setCancelation_send tok a u = Inr s'" "r = None"
      using run ne by (auto simp: send_def fault_simps)
    have "even_step u s'"
      using t(3) tok by (auto simp: setCancelation_send_def bindR_eq_Inr Let_def intro: even_set_send split: if_splits option.splits)
    then show ?thesis using adds_even(1) adds_emplace_send [OF t(1) fr] balanced.frame_enqueue [OF t(2)] t(4) unfolding entered_def by blast
  qed
qed

lemma recv_entered:
  assumes run: "recv sid d k tok s = Inr s'" and tok: "tok \<noteq> Stop_Requested" and fr: "mRecvs s (mFreshPtr s) = None"
  shows "adds k s s'"
proof (cases "is_error (mEC s)")
  case True
  then obtain x ex where s': "s' = emit (Resume (User k) x) (s\<lparr>mExs := ex\<rparr>)" using run by (auto simp: recv_def fault_simps)
  have "even_step s (s\<lparr>mExs := ex\<rparr>)" by (rule even_fields) (simp_all add: resumed_def)
  then show ?thesis using s' adds_emit by simp
next
  case False
  then obtain i a t u where t: "emplace_recv i (new_recv_op d k i) (s\<lparr>mNumRecvs := mNumRecvs s + 1\<rparr>) = Inr (a, t)"
    "match_recv i a t = Inr u" "setCancelation_recv tok a u = Inr s'"
    using run by (auto simp: recv_def fault_simps)
  have "even_step s (s\<lparr>mNumRecvs := mNumRecvs s + 1\<rparr>)" by (rule even_fields) (simp_all add: resumed_def)
  moreover have "adds k (s\<lparr>mNumRecvs := mNumRecvs s + 1\<rparr>) t" by (rule adds_emplace_recv [OF t(1)]) (simp add: fr)
  moreover have "even_step u s'"
    using t(3) tok by (auto simp: setCancelation_recv_def bindR_eq_Inr Let_def intro: even_set_recv split: if_splits option.splits)
  ultimately show ?thesis using adds_even balanced.frame_match [OF t(2)] by blast
qed

lemma flush_entered: "flush h s = Inr (r, s') \<Longrightarrow> mTokens s (mFreshPtr s) = None \<Longrightarrow> entered h r s s'"
proof -
  assume a: "flush h s = Inr (r, s')" and fr: "mTokens s (mFreshPtr s) = None"
  show "entered h r s s'"
  proof (cases "mNumRecvs s = 0 \<and> mSendBegin s = None")
    case True
    then show ?thesis using a by (simp add: flush_def entered_def)
  next
    case False
    let ?t = "mFreshPtr s"
    let ?u = "s\<lparr>mFreshPtr := ?t + 1, mTokens := (mTokens s)(?t \<mapsto> \<lparr>ft_Handle = Some h, ft_Uses = 1\<rparr>)\<rparr>"
    obtain v where v: "flush_forks (length (mForks s)) 0 ?t ?u = Inr v" "release_flushes [?t] v = Inr s'" "r = None"
      using a False by (auto simp: flush_def bindR_eq_Inr Let_def)
    have "adds h s ?u" by (rule adds_token [OF fr]) simp
    then show ?thesis using adds_even(1) balanced.frame_flush_forks [OF v(1)] even_release [OF v(2)] v(3) unfolding entered_def by blast
  qed
qed

end
