(* ===== verification/Sched_Wire.thy ===== *)
theory Sched_Wire
  imports Sched_Safety "HOL-Library.Sublist"
begin

text \<open>
  What the send task writes to the transport. The abstract view of the byte stream is a list of
  frames; the frames of the messages that the users have sent, in the order of the calls, with the
  announcement of each fork before its first message, are the specification of the multiplexer.
\<close>

section \<open>Frames\<close>

datatype frame = Announce u32 "u64 \<times> u64" | Message u32 "u8 list"

definition key_sid :: "u64 \<times> u64 \<Rightarrow> session_id" where
  "key_sid k = \<lparr>mVal0 = fst k, mVal1 = snd k, mChildIdx = 0\<rparr>"

fun frame_bytes :: "frame \<Rightarrow> u8 list" where
  "frame_bytes (Announce n k) = meta_message n (key_sid k)"
| "frame_bytes (Message n d) = header_bytes \<lparr>hSize = of_nat (length d), hForkId = n\<rparr> @ d"

definition stream_bytes :: "frame list \<Rightarrow> u8 list" where
  "stream_bytes fs = concat (map frame_bytes fs)"

lemma stream_bytes_simps [simp]:
  "stream_bytes [] = []" "stream_bytes (f # fs) = frame_bytes f @ stream_bytes fs" "stream_bytes (fs @ gs) = stream_bytes fs @ stream_bytes gs"
  by (simp_all add: stream_bytes_def)

lemma meta_message_key: "meta_message n sid = meta_message n (key_sid (sid_key sid))"
  by (simp add: meta_message_def control_block_def key_sid_def sid_key_def)

text \<open>
  A message is the index of its fork in the table of forks \<open>fs\<close> with its bytes; \<open>A\<close> are the forks
  that have been announced already.
\<close>

fun frames_of :: "fork list \<Rightarrow> nat set \<Rightarrow> (nat \<times> u8 list) list \<Rightarrow> frame list" where
  "frames_of fs A [] = []"
| "frames_of fs A ((i, d) # ms) = (if i \<in> A then [] else [Announce (mLocalId (fs ! i)) (sid_key (mSessionID (fs ! i)))])
     @ Message (mLocalId (fs ! i)) d # frames_of fs (insert i A) ms"

lemma frames_of_append:
  "frames_of fs A (ms @ ns) = frames_of fs A ms @ frames_of fs (A \<union> fst ` set ms) ns"
  by (induction ms arbitrary: A) auto

lemma frames_of_cong:
  assumes "\<And>m. m \<in> set ms \<Longrightarrow> mLocalId (fs' ! fst m) = mLocalId (fs ! fst m) \<and> sid_key (mSessionID (fs' ! fst m)) = sid_key (mSessionID (fs ! fst m))"
  shows "frames_of fs' A ms = frames_of fs A ms"
  using assms
proof (induction ms arbitrary: A)
  case (Cons m ms)
  have "frames_of fs' A ms = frames_of fs A ms" for A by (rule Cons.IH) (rule Cons.prems, simp)
  moreover have "mLocalId (fs' ! fst m) = mLocalId (fs ! fst m) \<and> sid_key (mSessionID (fs' ! fst m)) = sid_key (mSessionID (fs ! fst m))"
    by (rule Cons.prems) simp
  ultimately show ?case by (cases m) simp
qed simp

section \<open>Traces\<close>

text \<open>
  Runs of a socket with two records that the code does not keep: the bytes that the transport has
  taken from the send task, and the messages that the users have sent, in the order of the calls.
  The transport reports an error unless it moves everything.
\<close>

fun honest_transport :: "action \<Rightarrow> world \<Rightarrow> bool" where
  "honest_transport (Transmitted ec n) w \<longleftrightarrow> is_error ec \<or> n = length (wSending w)"
| "honest_transport (Received ec bs) w \<longleftrightarrow> is_error ec \<or> length bs = recv_wanted (wRecv w)"
| "honest_transport x w \<longleftrightarrow> True"

fun moved :: "action \<Rightarrow> world \<Rightarrow> u8 list" where
  "moved (Transmitted ec n) w = take n (wSending w)"
| "moved x w = []"

fun queued :: "action \<Rightarrow> world \<Rightarrow> (nat \<times> u8 list) list" where
  "queued (Act_Send sid b cb tok) w = (if sb_data b = [] \<or> is_error (mEC (wSched w)) then []
     else (case getLocalSocketFork sid (wSched w) of Inl e \<Rightarrow> [] | Inr i \<Rightarrow> [(i, sb_data b)]))"
| "queued x w = []"

inductive traced :: "session_id \<Rightarrow> world \<Rightarrow> u8 list \<Rightarrow> (nat \<times> u8 list) list \<Rightarrow> bool" for sid where
  traced_init: "traced sid (start_world sid) [] []"
| traced_step: "traced sid w wire log \<Longrightarrow> enabled x w \<Longrightarrow> honest_transport x w \<Longrightarrow> perform x w = Inr w'
     \<Longrightarrow> traced sid w' (wire @ moved x w) (log @ queued x w)"

section \<open>What is left to be written\<close>

definition pend :: "sched \<Rightarrow> nat \<Rightarrow> nat \<times> u8 list" where
  "pend s a = (case mSends s a of None \<Rightarrow> (0, []) | Some op \<Rightarrow> (so_Fork op, sb_data (so_Buffer op)))"

definition announced_forks :: "sched \<Rightarrow> nat set" where
  "announced_forks s = {i. i < length (mForks s) \<and> mInitiated (mForks s ! i)}"

text \<open>The bytes of the current operation that the task has not handed to the transport yet.\<close>

definition current :: "sched \<Rightarrow> send_pc \<Rightarrow> u8 list" where
  "current s pc = (case pc of
     Sending_Meta a \<Rightarrow> frame_bytes (Message (mLocalId (mForks s ! fst (pend s a))) (snd (pend s a)))
   | Sending_Header a \<Rightarrow> snd (pend s a) | _ \<Rightarrow> [])"

definition waiting :: "nat list \<Rightarrow> send_pc \<Rightarrow> nat list" where
  "waiting ch pc = (if busy_op pc = None then ch else tl ch)"

definition left :: "world \<Rightarrow> nat list \<Rightarrow> u8 list" where
  "left w ch = (if busy_op (wSend w) = None then [] else wSending w) @ current (wSched w) (wSend w)
     @ stream_bytes (frames_of (mForks (wSched w)) (announced_forks (wSched w)) (map (pend (wSched w)) (waiting ch (wSend w))))"

definition spec_bytes :: "sched \<Rightarrow> (nat \<times> u8 list) list \<Rightarrow> u8 list" where
  "spec_bytes s log = stream_bytes (frames_of (mForks s) {} log)"

text \<open>
  Unless the send side has been cancelled, what is written and what is left to be written make up
  the specification, and the forks that are announced, or will be, are those of the messages.
\<close>

definition exact :: "world \<Rightarrow> nat list \<Rightarrow> u8 list \<Rightarrow> (nat \<times> u8 list) list \<Rightarrow> bool" where
  "exact w ch wire log \<longleftrightarrow> wire @ left w ch = spec_bytes (wSched w) log
     \<and> announced_forks (wSched w) \<union> fst ` pend (wSched w) ` set (waiting ch (wSend w)) = fst ` set log"

definition wire_inv :: "world \<Rightarrow> nat list \<Rightarrow> u8 list \<Rightarrow> (nat \<times> u8 list) list \<Rightarrow> bool" where
  "wire_inv w ch wire log \<longleftrightarrow> sock_inv (wSched w) ch (wSend w) (wRecv w) \<and> live (wSched w)
     \<and> (\<forall>m \<in> set log. fst m < length (mForks (wSched w)) \<and> mLocalId (mForks (wSched w) ! fst m) \<noteq> NOT 0)
     \<and> (exact w ch wire log
        \<or> ch = [] \<and> busy_op (wSend w) = None \<and> is_error (mEC (wSched w)) \<and> prefix wire (spec_bytes (wSched w) log))"

section \<open>Steps that leave the send side alone\<close>

lemma chain_dom: "sock_inv s ch sp rp \<Longrightarrow> dom (mSends s) = set ch"
  by (simp add: sock_inv_def sched_inv_simps send_ok_def)

lemma calm_pend:
  assumes "calm s s'" "dom (mSends s') = set ch" "a \<in> set ch"
  shows "pend s' a = pend s a"
proof -
  obtain op' where op': "mSends s' a = Some op'" using assms(2,3) by blast
  then obtain op where "mSends s a = Some op" "so_Fork op' = so_Fork op" "so_Buffer op' = so_Buffer op"
    using assms(1) unfolding calm_def by blast
  then show ?thesis using op' by (simp add: pend_def)
qed

lemma calm_fork:
  assumes "calm s s'" "i < length (mForks s)"
  shows "i < length (mForks s')" "sid_key (mSessionID (mForks s' ! i)) = sid_key (mSessionID (mForks s ! i))"
    "mInitiated (mForks s' ! i) = mInitiated (mForks s ! i)"
    "mLocalId (mForks s ! i) \<noteq> NOT 0 \<Longrightarrow> mLocalId (mForks s' ! i) = mLocalId (mForks s ! i)"
  using assms unfolding calm_def by auto

lemma calm_announced:
  assumes c: "calm s s'"
  shows "announced_forks s' = announced_forks s"
proof -
  have "i < length (mForks s') \<and> mInitiated (mForks s' ! i) \<longleftrightarrow> i < length (mForks s) \<and> mInitiated (mForks s ! i)" for i
  proof (cases "i < length (mForks s)")
    case True
    then show ?thesis using calm_fork(1,3) [OF c True] by simp
  next
    case False
    then show ?thesis using c unfolding calm_def by simp
  qed
  then show ?thesis by (simp add: announced_forks_def)
qed

lemma pend_ok:
  assumes inv: "sock_inv s ch sp rp" and a: "a \<in> set ch"
  shows "fst (pend s a) < length (mForks s)" "mLocalId (mForks s ! fst (pend s a)) \<noteq> NOT 0"
proof -
  obtain op where "mSends s a = Some op" "so_Fork op < length (mForks s)" "mLocalId (mForks s ! so_Fork op) \<noteq> NOT 0"
    by (rule sends_okD [OF inv a])
  then show "fst (pend s a) < length (mForks s)" "mLocalId (mForks s ! fst (pend s a)) \<noteq> NOT 0" by (simp_all add: pend_def)
qed

lemma calm_frames:
  assumes c: "calm s s'" and ms: "\<And>m. m \<in> set ms \<Longrightarrow> fst m < length (mForks s) \<and> mLocalId (mForks s ! fst m) \<noteq> NOT 0"
  shows "frames_of (mForks s') A ms = frames_of (mForks s) A ms"
  by (rule frames_of_cong) (use ms calm_fork [OF c] in blast)

lemma busy_in_chain: "sock_inv s ch sp rp \<Longrightarrow> busy_op sp = Some a \<Longrightarrow> a \<in> set ch"
  using busy_chain by fastforce

lemma waiting_sub: "set (waiting ch pc) \<subseteq> set ch"
  by (cases ch) (auto simp: waiting_def)

lemma calm_left:
  assumes c: "calm (wSched w) s'" and inv: "sock_inv (wSched w) ch (wSend w) (wRecv w)" and inv': "sock_inv s' ch (wSend w) rp'"
    and w': "wSched w' = s'" "wSend w' = wSend w" "wSending w' = wSending w"
  shows "left w' ch = left w ch" and "pend s' ` set (waiting ch (wSend w)) = pend (wSched w) ` set (waiting ch (wSend w))"
proof -
  let ?s = "wSched w"
  note p = calm_pend [OF c chain_dom [OF inv']]
  have "map (pend s') (waiting ch (wSend w)) = map (pend ?s) (waiting ch (wSend w))"
    using p waiting_sub [of ch "wSend w"] by (intro map_cong) auto
  moreover have "frames_of (mForks s') A (map (pend ?s) (waiting ch (wSend w))) = frames_of (mForks ?s) A (map (pend ?s) (waiting ch (wSend w)))" for A
    by (rule calm_frames [OF c]) (use pend_ok [OF inv] waiting_sub [of ch "wSend w"] in auto)
  moreover have "current s' (wSend w) = current ?s (wSend w)"
    using busy_in_chain [OF inv] p pend_ok [OF inv] calm_fork(4) [OF c]
    by (cases "wSend w") (simp_all add: current_def)
  ultimately show "left w' ch = left w ch" by (simp only: left_def w' calm_announced [OF c])
  show "pend s' ` set (waiting ch (wSend w)) = pend ?s ` set (waiting ch (wSend w))"
    using p waiting_sub [of ch "wSend w"] by (intro image_cong) auto
qed

lemma calm_wire:
  assumes wi: "wire_inv w ch wire log" and c: "calm (wSched w) (wSched w')"
    and inv': "sock_inv (wSched w') ch (wSend w') (wRecv w')" "live (wSched w')"
    and w': "wSend w' = wSend w" "wSending w' = wSending w"
  shows "wire_inv w' ch wire log"
proof -
  let ?s = "wSched w"
  have inv: "sock_inv ?s ch (wSend w) (wRecv w)" using wi by (simp add: wire_inv_def)
  have l: "m \<in> set log \<Longrightarrow> fst m < length (mForks ?s) \<and> mLocalId (mForks ?s ! fst m) \<noteq> NOT 0" for m
    using wi by (simp add: wire_inv_def)
  have "spec_bytes (wSched w') log = spec_bytes ?s log" unfolding spec_bytes_def by (subst calm_frames [OF c l]) simp_all
  moreover have "left w' ch = left w ch" "pend (wSched w') ` set (waiting ch (wSend w)) = pend ?s ` set (waiting ch (wSend w))"
    using calm_left [OF c inv _ refl w'] inv'(1) w' by simp_all
  moreover have "is_error (mEC ?s) \<Longrightarrow> is_error (mEC (wSched w'))" using c by (simp add: calm_def)
  moreover have "fst m < length (mForks (wSched w')) \<and> mLocalId (mForks (wSched w') ! fst m) \<noteq> NOT 0" if "m \<in> set log" for m
    using calm_fork [OF c, of "fst m"] l [OF that] by auto
  ultimately show ?thesis using wi inv' w' calm_announced [OF c] unfolding wire_inv_def exact_def by auto
qed


text \<open>The steps of the users, apart from \<^verbatim>\<open>send\<close>, and of the receive task.\<close>

lemma user_other:
  assumes run: "on_sched f w = Inr w'" and u: "user_step f (wSched w) ch (wSend w) (wRecv w)"
  shows "calm (wSched w) (wSched w') \<and> sock_inv (wSched w') ch (wSend w') (wRecv w') \<and> live (wSched w')
    \<and> wSend w' = wSend w \<and> wSending w' = wSending w"
  using run u by (auto simp: on_sched_def user_step_def)

lemma other_step:
  assumes inv: "sock_inv (wSched w) ch (wSend w) (wRecv w)" and lv: "live (wSched w)"
    and en: "enabled x w" and run: "perform x w = Inr w'"
    and x: "\<And>sid b cb tok. x \<noteq> Act_Send sid b cb tok" "x \<noteq> Send_Resumed" "\<And>ec n. x \<noteq> Transmitted ec n"
  shows "calm (wSched w) (wSched w') \<and> sock_inv (wSched w') ch (wSend w') (wRecv w') \<and> live (wSched w')
    \<and> wSend w' = wSend w \<and> wSending w' = wSending w"
proof (cases x)
  case (Act_Recv sid d h tok)
  then obtain i where "local_fork sid (wSched w) i" "fresh_recv_buffer (wSched w) d" "Suc (recv_total (wSched w)) < 2 ^ 64" "tok \<noteq> Stop_Requested"
    using en by auto
  note u = recv_user [OF inv lv this]
  show ?thesis by (rule user_other [OF _ u]) (use run Act_Recv in simp)
next
  case (Act_Buffer d b)
  show ?thesis by (rule user_other [OF _ buffer_user [OF inv lv]]) (use en run Act_Buffer in simp_all)
next
  case (Act_Flush h)
  show ?thesis by (rule user_other [OF _ flush_user [OF inv lv]]) (use en run Act_Flush in simp_all)
next
  case Act_Close
  show ?thesis by (rule user_other [OF _ close_user [OF inv lv]]) (use en run Act_Close in simp_all)
next
  case (Act_Fork sid)
  show ?thesis by (rule user_other [OF _ fork_user [OF inv lv]]) (use en run Act_Fork in simp_all)
next
  case (Act_Executor ex sid)
  then obtain i where "local_fork sid (wSched w) i" using en by auto
  note u = executor_user [OF inv lv this]
  show ?thesis by (rule user_other [OF _ u]) (use run Act_Executor in simp)
next
  case (Act_Stop_Send a)
  then obtain op where "mSends (wSched w) a = Some op" "so_Status op \<noteq> NotStarted" using en by auto
  note u = stop_user(1) [OF inv lv this]
  show ?thesis by (rule user_other [OF _ u]) (use run Act_Stop_Send in simp)
next
  case (Act_Stop_Recv a)
  then obtain op where "mRecvs (wSched w) a = Some op" "ro_Status op = InProgress" using en by auto
  note u = stop_user(2) [OF inv lv this]
  show ?thesis by (rule user_other [OF _ u]) (use run Act_Stop_Recv in simp)
next
  case Recv_Resumed
  then show ?thesis using en run recv_resumed_ok [OF inv lv] by (auto simp: on_recv_def)
next
  case (Received ec bs)
  then show ?thesis using en run recv_received_ok [OF inv lv, of ec bs] by (auto simp: on_recv_def)
qed (use x in auto)


section \<open>The steps of the send side\<close>

lemma appended_pend:
  assumes ap: "appended b i s s'" and inv: "sock_inv s ch sp rp" and dom': "dom (mSends s') = set (ch @ [mFreshPtr s])"
  shows "a \<in> set ch \<Longrightarrow> pend s' a = pend s a" and "pend s' (mFreshPtr s) = (i, sb_data b)"
proof -
  assume a: "a \<in> set ch"
  then have "a \<noteq> mFreshPtr s" using inv by (auto simp: sock_inv_def sched_inv_simps send_ok_def)
  moreover obtain op' where "mSends s' a = Some op'" using dom' a by (metis Un_iff domD set_append)
  ultimately show "pend s' a = pend s a" using ap unfolding appended_def pend_def by force
next
  show "pend s' (mFreshPtr s) = (i, sb_data b)" using ap by (auto simp: appended_def pend_def)
qed

lemma keeps_forks_frames: "keeps_forks s s' \<Longrightarrow> frames_of (mForks s') A ms = frames_of (mForks s) A ms"
  by (rule frames_of_cong) (simp add: keeps_forks_def)

lemma keeps_forks_announced: "keeps_forks s s' \<Longrightarrow> announced_forks s' = announced_forks s"
  by (simp add: keeps_forks_def announced_forks_def)

text \<open>A new message is the last of those that wait.\<close>

lemma waiting_snoc: "(busy_op pc = None \<or> ch \<noteq> []) \<Longrightarrow> waiting (ch @ [x]) pc = waiting ch pc @ [x]"
  by (cases ch) (auto simp: waiting_def)

lemma send_wire:
  assumes wi: "wire_inv w ch wire log" and ap: "appended b i (wSched w) (wSched w')"
    and inv': "sock_inv (wSched w') (ch @ [mFreshPtr (wSched w)]) (wSend w') (wRecv w')" "live (wSched w')"
    and open': "\<not> is_error (mEC (wSched w))"
    and w': "wSend w' = wSend w" "wSending w' = wSending w"
  shows "wire_inv w' (ch @ [mFreshPtr (wSched w)]) wire (log @ [(i, sb_data b)])"
proof -
  let ?s = "wSched w" and ?s' = "wSched w'" and ?a = "mFreshPtr (wSched w)" and ?m = "(i, sb_data b)"
  let ?p = "wSend w"
  have inv: "sock_inv ?s ch ?p (wRecv w)" using wi by (simp add: wire_inv_def)
  have ex: "exact w ch wire log" using wi open' by (auto simp: wire_inv_def)
  have kf: "keeps_forks ?s ?s'" using ap by (simp add: appended_def)
  note fr = keeps_forks_frames [OF kf] and an = keeps_forks_announced [OF kf]
  note pd = appended_pend [OF ap inv chain_dom [OF inv'(1)]]
  have busy: "busy_op ?p = None \<or> ch \<noteq> []" using busy_chain [OF inv] by fastforce
  note wt = waiting_snoc [OF busy, of ?a]
  have pw: "map (pend ?s') (waiting ch ?p) = map (pend ?s) (waiting ch ?p)"
    using pd(1) waiting_sub [of ch ?p] by (intro map_cong) auto
  have pi: "pend ?s' ` set (waiting ch ?p) = pend ?s ` set (waiting ch ?p)"
    using pd(1) waiting_sub [of ch ?p] by (intro image_cong) auto
  have cur: "current ?s' ?p = current ?s ?p"
    using pd(1) busy_in_chain [OF inv] kf by (cases ?p) (simp_all add: current_def keeps_forks_def)
  let ?B = "announced_forks ?s \<union> fst ` pend ?s ` set (waiting ch ?p)"
  have "left w' (ch @ [?a]) = left w ch @ stream_bytes (frames_of (mForks ?s) ?B [?m])"
    by (simp only: left_def w' wt map_append frames_of_append pw fr an cur pd(2) list.map stream_bytes_simps append_assoc set_map)
  moreover have "spec_bytes ?s' (log @ [?m]) = spec_bytes ?s log @ stream_bytes (frames_of (mForks ?s) (fst ` set log) [?m])"
    by (simp add: spec_bytes_def fr frames_of_append del: frames_of.simps)
  moreover have "announced_forks ?s' \<union> fst ` pend ?s' ` set (waiting (ch @ [?a]) ?p) = insert i ?B"
    by (simp add: wt an pi pd(2))
  ultimately have "exact w' (ch @ [?a]) wire (log @ [?m])" using ex w' unfolding exact_def by simp
  moreover have "fst m < length (mForks ?s') \<and> mLocalId (mForks ?s' ! fst m) \<noteq> NOT 0" if "m \<in> set (log @ [?m])" for m
  proof (cases "m = ?m")
    case True
    then show ?thesis using pend_ok [OF inv'(1), of ?a] pd(2) by simp
  next
    case False
    then have "m \<in> set log" using that by simp
    then show ?thesis using wi kf by (simp add: wire_inv_def keeps_forks_def)
  qed
  ultimately show ?thesis using inv' unfolding wire_inv_def by blast
qed


lemma wire_invI:
  assumes "sock_inv (wSched w) ch (wSend w) (wRecv w)" "live (wSched w)" "exact w ch wire log"
    and "\<And>m. m \<in> set log \<Longrightarrow> fst m < length (mForks (wSched w)) \<and> mLocalId (mForks (wSched w) ! fst m) \<noteq> NOT 0"
  shows "wire_inv w ch wire log"
  using assms by (simp add: wire_inv_def)

lemma wire_invD:
  assumes "wire_inv w ch wire log"
  shows "sock_inv (wSched w) ch (wSend w) (wRecv w)" "live (wSched w)" "busy_op (wSend w) \<noteq> None \<Longrightarrow> exact w ch wire log"
    and "m \<in> set log \<Longrightarrow> fst m < length (mForks (wSched w)) \<and> mLocalId (mForks (wSched w) ! fst m) \<noteq> NOT 0"
  using assms by (auto simp: wire_inv_def)

text \<open>The task was handed the next operation: its announcement, if it needs one, or its header.\<close>

lemma resumed_wire:
  assumes wi: "wire_inv w ch wire log" and sp: "wSend w = Await_Next" and idle: "\<not> mNextSendOp (wSched w)"
    and run: "perform Send_Resumed w = Inr w'"
  shows "wire_inv w' ch wire log"
proof -
  let ?s = "wSched w"
  note D = wire_invD [OF wi]
  have inv: "sock_inv ?s ch Await_Next (wRecv w)" using D(1) sp by simp
  from send_resumed_ok [OF inv idle] show ?thesis
  proof (elim disjE exE conjE)
    assume r: "ch = []" "send_resumed ?s = Inr (Send_Exit, [], ?s)" "sock_inv ?s [] Send_Exit (wRecv w)"
    then have w': "w' = w\<lparr>wSend := Send_Exit, wSending := []\<rparr>" using run by (simp add: on_send_def)
    have "left w' ch = left w ch" "waiting ch (wSend w') = waiting ch (wSend w)"
      using sp r(1) by (simp_all add: w' left_def current_def waiting_def)
    then have "exact w' ch wire log = exact w ch wire log" by (simp add: exact_def w')
    then show ?thesis using wi r(1,3) sp unfolding wire_inv_def w' by simp
  next
    fix a r op assume ch: "ch = a # r" and op: "mSends ?s a = Some op"
      and res: "if mInitiated (mForks ?s ! so_Fork op)
             then send_resumed ?s = Inr (Sending_Header a,
                 header_bytes \<lparr>hSize = of_nat (length (sb_data (so_Buffer op))), hForkId = mLocalId (mForks ?s ! so_Fork op)\<rparr>, ?s)
               \<and> sock_inv ?s ch (Sending_Header a) (wRecv w)
             else (let s' = set_fork (so_Fork op) ((mForks ?s ! so_Fork op)\<lparr>mInitiated := True\<rparr>) ?s in
               send_resumed ?s = Inr (Sending_Meta a, meta_message (mLocalId (mForks ?s ! so_Fork op)) (mSessionID (mForks ?s ! so_Fork op)), s')
               \<and> sock_inv s' ch (Sending_Meta a) (wRecv w))"
    have ex: "exact w ch wire log" using wi ch by (auto simp: wire_inv_def)
    let ?i = "so_Fork op" and ?d = "sb_data (so_Buffer op)" and ?A = "announced_forks ?s"
    have p: "pend ?s a = (?i, ?d)" using op by (simp add: pend_def)
    have i: "?i < length (mForks ?s)" using pend_ok [OF inv, of a] ch p by simp
    have lw: "left w ch = stream_bytes (frames_of (mForks ?s) ?A ((?i, ?d) # map (pend ?s) r))"
      using sp p ch by (simp add: left_def current_def waiting_def)
    have wait: "waiting ch (wSend w) = a # r" using sp ch by (simp add: waiting_def)
    show ?thesis
    proof (cases "mInitiated (mForks ?s ! ?i)")
      case True
      then have A: "insert ?i ?A = ?A" using i by (auto simp: announced_forks_def)
      have w': "w' = w\<lparr>wSend := Sending_Header a,
          wSending := header_bytes \<lparr>hSize = of_nat (length ?d), hForkId = mLocalId (mForks ?s ! ?i)\<rparr>\<rparr>"
        "sock_inv ?s ch (Sending_Header a) (wRecv w)"
        using res True run by (auto simp: on_send_def)
      have "?i \<in> ?A" using A by blast
      then have "left w' ch = left w ch" unfolding lw using A
        by (simp add: left_def w' current_def waiting_def ch p)
      moreover have "announced_forks (wSched w') \<union> fst ` pend (wSched w') ` set (waiting ch (wSend w')) = fst ` set log"
        using ex wait A by (auto simp: exact_def w' waiting_def ch p)
      ultimately show ?thesis using ex D w' by (intro wire_invI) (simp_all add: exact_def)
    next
      case False
      let ?f = "(mForks ?s ! ?i)\<lparr>mInitiated := True\<rparr>" and ?s' = "set_fork ?i ((mForks ?s ! ?i)\<lparr>mInitiated := True\<rparr>) ?s"
      have w': "w' = w\<lparr>wSched := ?s', wSend := Sending_Meta a, wSending := meta_message (mLocalId (mForks ?s ! ?i)) (mSessionID (mForks ?s ! ?i))\<rparr>"
        "sock_inv ?s' ch (Sending_Meta a) (wRecv w)"
        using res False run by (auto simp: on_send_def Let_def)
      have f: "mLocalId (mForks ?s' ! j) = mLocalId (mForks ?s ! j)" "mSessionID (mForks ?s' ! j) = mSessionID (mForks ?s ! j)" for j
        using i by (cases "j = ?i"; simp add: set_fork_def)+
      have fr: "frames_of (mForks ?s') B ms = frames_of (mForks ?s) B ms" for B ms by (rule frames_of_cong) (simp add: f)
      have A: "announced_forks ?s' = insert ?i ?A" using i by (auto simp: announced_forks_def set_fork_def nth_list_update split: if_splits)
      have pd: "pend ?s' = pend ?s" by (simp add: fun_eq_iff pend_def set_fork_def)
      have "?i \<notin> ?A" using False by (simp add: announced_forks_def)
      then have "left w' ch = left w ch" unfolding lw
        by (simp add: left_def w' current_def waiting_def ch p A fr pd f meta_message_key [symmetric])
      moreover have "announced_forks (wSched w') \<union> fst ` pend (wSched w') ` set (waiting ch (wSend w')) = fst ` set log"
        using ex wait A by (auto simp: exact_def w' waiting_def ch p pd)
      moreover have "spec_bytes ?s' log = spec_bytes ?s log" by (simp add: spec_bytes_def fr)
      moreover have "live ?s'" using D(2) by (simp add: live_def set_fork_def)
      moreover have "length (mForks ?s') = length (mForks ?s)" by (simp add: set_fork_def)
      ultimately show ?thesis using ex D(4) w'(2) f by (intro wire_invI) (simp_all add: exact_def w'(1))
    qed
  qed
qed


lemma checkIo_ok: "\<not> is_error (checkIo ec k n) \<Longrightarrow> \<not> is_error ec \<and> k = n"
  by (auto simp: checkIo_def split: if_splits)

text \<open>A transfer has ended.\<close>

lemma transmitted_wire:
  assumes wi: "wire_inv w ch wire log" and en: "enabled (Transmitted ec n) w" and hon: "honest_transport (Transmitted ec n) w"
    and run: "perform (Transmitted ec n) w = Inr w'"
  shows "\<exists>ch'. wire_inv w' ch' (wire @ take n (wSending w)) log"
proof -
  let ?s = "wSched w" and ?k = "length (wSending w)"
  note D = wire_invD [OF wi]
  obtain a where a: "busy_op (wSend w) = Some a" using en by auto
  obtain r where ch: "ch = a # r" using busy_chain [OF D(1) a] by blast
  have inv: "sock_inv ?s (a # r) (wSend w) (wRecv w)" using D(1) ch by simp
  obtain op where op: "mSends ?s a = Some op" by (rule sends_okD [OF inv, of a]) auto
  have p: "pend ?s a = (so_Fork op, sb_data (so_Buffer op))" using op by (simp add: pend_def)
  have ex: "exact w ch wire log" using D(3) a by simp
  have wait: "waiting ch (wSend w) = r" using a ch by (simp add: waiting_def)
  let ?F = "stream_bytes (frames_of (mForks ?s) (announced_forks ?s) (map (pend ?s) r))"
  have lw: "left w ch = wSending w @ current ?s (wSend w) @ ?F" using a by (simp add: left_def wait)
  have A: "announced_forks ?s \<union> fst ` pend ?s ` set r = fst ` set log" using ex wait by (simp add: exact_def)
  have all: "wire @ wSending w @ current ?s (wSend w) @ ?F = spec_bytes ?s log" using ex lw by (simp add: exact_def)
  have go_on: "wire_inv w' ch (wire @ take n (wSending w)) log"
    if w': "w' = w\<lparr>wSend := pc, wSending := bs, wBytesSent := wBytesSent w'\<rparr>" and pc: "busy_op pc = Some a"
      and inv': "sock_inv ?s (a # r) pc (wRecv w)" and bs: "current ?s (wSend w) = bs @ current ?s pc"
      and n: "n = ?k" for pc bs
  proof (rule wire_invI)
    have f: "wSched w' = ?s" "wSend w' = pc" "wSending w' = bs" "wRecv w' = wRecv w" by (subst w'; simp)+
    show "sock_inv (wSched w') ch (wSend w') (wRecv w')" using inv' ch f by simp
    show "live (wSched w')" using D(2) f by simp
    have wt: "waiting ch pc = r" using pc ch by (simp add: waiting_def)
    show "exact w' ch (wire @ take n (wSending w)) log"
      using all A bs n pc by (simp add: exact_def left_def f wt)
    show "fst m < length (mForks (wSched w')) \<and> mLocalId (mForks (wSched w') ! fst m) \<noteq> NOT 0" if "m \<in> set log" for m
      using D(4) [OF that] f by simp
  qed
  consider (over) s' where "send_transmitted (wSend w) ec n ?k ?s = Inr (Await_Next, [], s')"
      "is_error (checkIo ec n ?k) \<or> wSend w = Sending_Body a" "next_send (Some a) ec ?s = Inr s'"
      "sock_inv s' (if is_error ec \<or> is_error (mEC ?s) then [] else r) Await_Next (wRecv w)"
    | (header) "wSend w = Sending_Meta a" "\<not> is_error (checkIo ec n ?k)" "sock_inv ?s (a # r) (Sending_Header a) (wRecv w)"
      "send_transmitted (wSend w) ec n ?k ?s = Inr (Sending_Header a,
         header_bytes \<lparr>hSize = of_nat (length (sb_data (so_Buffer op))), hForkId = mLocalId (mForks ?s ! so_Fork op)\<rparr>, ?s)"
    | (body) "wSend w = Sending_Header a" "\<not> is_error (checkIo ec n ?k)" "sock_inv ?s (a # r) (Sending_Body a) (wRecv w)"
      "send_transmitted (wSend w) ec n ?k ?s = Inr (Sending_Body a, sb_data (so_Buffer op), ?s)"
    using send_transmitted_ok [OF inv a op, of ec n ?k] by blast
  then show ?thesis
  proof cases
    case over
    note st = over(1) and end_op = over(2) and nx = over(3) and inv' = over(4)
    have f: "wSched w' = s'" "wSend w' = Await_Next" "wSending w' = []" "wRecv w' = wRecv w"
      using run st by (auto simp: on_send_def)
    have q: "quiet ?s s'" by (rule next_send_core [OF inv nx])
    have lv: "live s'" by (rule live_quiet [OF D(2) q])
    note c = calm_quiet [OF q]
    have l: "fst m < length (mForks s') \<and> mLocalId (mForks s' ! fst m) \<noteq> NOT 0" if "m \<in> set log" for m
      using calm_fork [OF c, of "fst m"] D(4) [OF that] by auto
    have spec: "spec_bytes s' log = spec_bytes ?s log" unfolding spec_bytes_def by (subst calm_frames [OF c D(4)]) simp_all
    from next_send_inv [OF inv a, of ec] nx have more: "if is_error ec \<or> is_error (mEC ?s) then is_error (mEC s')
        else keeps_forks ?s s' \<and> (\<forall>x. x \<noteq> a \<longrightarrow> map_option op_sig (mSends s' x) = map_option op_sig (mSends ?s x))"
      by (auto split: if_splits)
    show ?thesis
    proof (cases "is_error ec \<or> is_error (mEC ?s)")
      case True
      have "prefix (wire @ take n (wSending w)) (spec_bytes s' log)"
        unfolding spec all [symmetric] by (metis append_assoc append_take_drop_id prefix_def same_prefix_prefix)
      then have "wire_inv w' [] (wire @ take n (wSending w)) log" using inv' lv more l True unfolding wire_inv_def f by auto
      then show ?thesis by blast
    next
      case False
      then have n: "n = ?k" using hon by simp
      then have bd: "wSend w = Sending_Body a" using end_op False by (simp add: checkIo_def)
      have kf: "keeps_forks ?s s'" and sig: "x \<noteq> a \<Longrightarrow> map_option op_sig (mSends s' x) = map_option op_sig (mSends ?s x)" for x
        using more False by auto
      have ar: "a \<notin> set r" using inv by (simp add: sock_inv_def sched_inv_simps send_ok_def)
      have "pend s' x = pend ?s x" if "x \<in> set r" for x
      proof -
        have "x \<noteq> a" using that ar by blast
        from sig [OF this] show ?thesis unfolding pend_def op_sig_def by (auto split: option.splits)
      qed
      then have pw: "map (pend s') r = map (pend ?s) r" and pi: "pend s' ` set r = pend ?s ` set r"
        by (auto intro: image_cong)
      have "left w' r = ?F"
        by (simp add: left_def f current_def waiting_def pw keeps_forks_frames [OF kf] keeps_forks_announced [OF kf] del: map_eq_conv)
      then have "exact w' r (wire @ take n (wSending w)) log"
        using all A spec bd n by (simp add: exact_def f current_def waiting_def pi keeps_forks_announced [OF kf])
      moreover have "sock_inv s' r Await_Next (wRecv w)" using inv' False by simp
      ultimately have "wire_inv w' r (wire @ take n (wSending w)) log" using lv l by (intro wire_invI) (simp_all add: f)
      then show ?thesis by blast
    qed
  next
    case header
    have n: "n = ?k" using checkIo_ok [OF header(2)] by simp
    have "w' = w\<lparr>wSend := Sending_Header a, wSending := header_bytes \<lparr>hSize = of_nat (length (sb_data (so_Buffer op))),
        hForkId = mLocalId (mForks ?s ! so_Fork op)\<rparr>, wBytesSent := wBytesSent w'\<rparr>"
      using run header(4) by (auto simp: on_send_def)
    from go_on [OF this _ header(3) _ n] show ?thesis using p header(1) by (auto simp: current_def)
  next
    case body
    have n: "n = ?k" using checkIo_ok [OF body(2)] by simp
    have "w' = w\<lparr>wSend := Sending_Body a, wSending := sb_data (so_Buffer op), wBytesSent := wBytesSent w'\<rparr>"
      using run body(4) by (auto simp: on_send_def)
    from go_on [OF this _ body(3) _ n] show ?thesis using p body(1) by (auto simp: current_def)
  qed
qed

section \<open>Every run\<close>

lemma refused_calm:
  assumes inv: "sock_inv s ch sp rp" and lv: "live s" and en: "local_fork sid s i" "fresh_buffer s b" "length (sb_data b) < 2 ^ 32 - 1" "tok \<noteq> Stop_Requested"
    and run: "send sid b cb tok s = Inr (r, s')"
  shows "sb_data b = [] \<or> is_error (mEC s) \<Longrightarrow> sock_inv s' ch sp rp \<and> live s' \<and> calm s s'"
    and "\<not> (sb_data b = [] \<or> is_error (mEC s)) \<Longrightarrow> sock_inv s' (ch @ [mFreshPtr s]) sp rp \<and> live s' \<and> appended b i s s'"
  using send_user [OF inv lv en, of cb] run by auto

lemma send_action_wire:
  assumes wi: "wire_inv w ch wire log" and en: "enabled (Act_Send sid b cb tok) w" and run: "perform (Act_Send sid b cb tok) w = Inr w'"
  shows "\<exists>ch'. wire_inv w' ch' wire (log @ queued (Act_Send sid b cb tok) w)"
proof -
  let ?s = "wSched w"
  note D = wire_invD [OF wi]
  obtain i where e: "local_fork sid ?s i" "fresh_buffer ?s b" "length (sb_data b) < 2 ^ 32 - 1" "tok \<noteq> Stop_Requested" using en by auto
  obtain x s' where s': "send sid b cb tok ?s = Inr (x, s')" "w' = w\<lparr>wSched := s'\<rparr>"
    using run by (auto simp: on_sched_def bindR_eq_Inr)
  note S = refused_calm [OF D(1,2) e s'(1)]
  show ?thesis
  proof (cases "sb_data b = [] \<or> is_error (mEC ?s)")
    case True
    then have "queued (Act_Send sid b cb tok) w = []" by simp
    moreover have "wire_inv w' ch wire log" using S(1) [OF True] s'(2) by (intro calm_wire [OF wi]) simp_all
    ultimately show ?thesis by auto
  next
    case False
    then have q: "queued (Act_Send sid b cb tok) w = [(i, sb_data b)]" using getLocal_eq [OF e(1)] by simp
    have "wire_inv w' (ch @ [mFreshPtr ?s]) wire (log @ [(i, sb_data b)])"
      using S(2) [OF False] s'(2) False by (intro send_wire [OF wi]) simp_all
    then show ?thesis using q by auto
  qed
qed

lemma wire_step:
  assumes wi: "wire_inv w ch wire log" and en: "enabled x w" and hon: "honest_transport x w" and run: "perform x w = Inr w'"
  shows "\<exists>ch'. wire_inv w' ch' (wire @ moved x w) (log @ queued x w)"
proof -
  note D = wire_invD [OF wi]
  consider (send) sid b cb tok where "x = Act_Send sid b cb tok" | (resumed) "x = Send_Resumed" | (transmitted) ec n where "x = Transmitted ec n"
    | (other) "\<And>sid b cb tok. x \<noteq> Act_Send sid b cb tok" "x \<noteq> Send_Resumed" "\<And>ec n. x \<noteq> Transmitted ec n"
    by (cases x) auto
  then show ?thesis
  proof cases
    case send
    from send_action_wire [OF wi en [unfolded send] run [unfolded send]] show ?thesis
      by (simp only: send moved.simps append_Nil2)
  next
    case resumed
    then have "wire_inv w' ch wire log" using en run by (intro resumed_wire [OF wi]) simp_all
    then show ?thesis using resumed by auto
  next
    case transmitted
    then show ?thesis using transmitted_wire [OF wi] en hon run by simp
  next
    case other
    have "moved x w = []" "queued x w = []" using other by (cases x; simp)+
    moreover have "wire_inv w' ch wire log"
      using other_step [OF D(1,2) en run other] by (elim conjE) (rule calm_wire [OF wi])
    ultimately show ?thesis by auto
  qed
qed

lemma traced_wire: "traced sid w wire log \<Longrightarrow> \<exists>ch. wire_inv w ch wire log"
proof (induction rule: traced.induct)
  case traced_init
  have "sock_inv (fresh_sched sid) [] Await_Next Await_Any" by (rule sched_init_inv(2))
  moreover have "announced_forks (fresh_sched sid) = {}"
    by (auto simp: announced_forks_def fresh_sched_def localized_def local_base_def Let_def set_fork_def with_fork_def nth_append nth_list_update
        blank_fork_def local_target_def sched_empty_def split: if_splits)
  ultimately have "wire_inv (start_world sid) [] [] []"
    by (intro wire_invI) (simp_all add: start_world_def live_def exact_def left_def current_def waiting_def spec_bytes_def)
  then show ?case by blast
next
  case (traced_step w wire log x w')
  then show ?case using wire_step by blast
qed

section \<open>The send task by itself\<close>

text \<open>Steps of the send task with a transport that takes everything.\<close>

inductive driven :: "world \<Rightarrow> world \<Rightarrow> bool" where
  driven_refl: "driven w w"
| driven_resumed: "enabled Send_Resumed w \<Longrightarrow> perform Send_Resumed w = Inr w1 \<Longrightarrow> driven w1 w' \<Longrightarrow> driven w w'"
| driven_transmitted: "enabled (Transmitted no_error (length (wSending w))) w \<Longrightarrow>
    perform (Transmitted no_error (length (wSending w))) w = Inr w1 \<Longrightarrow> driven w1 w' \<Longrightarrow> driven w w'"

lemma resumed_goes_on:
  assumes inv: "sock_inv (wSched w) (a # r) Await_Next (wRecv w)" and sp: "wSend w = Await_Next"
  shows "enabled Send_Resumed w" and "\<exists>w'. perform Send_Resumed w = Inr w' \<and> wSend w' \<in> {Sending_Meta a, Sending_Header a}
    \<and> mEC (wSched w') = mEC (wSched w) \<and> sock_inv (wSched w') (a # r) (wSend w') (wRecv w')"
proof -
  have idle: "\<not> mNextSendOp (wSched w)" using inv by (auto simp: sock_inv_def send_phase_def active_op_def)
  then show "enabled Send_Resumed w" using sp by simp
  from send_resumed_ok [OF inv idle] show "\<exists>w'. perform Send_Resumed w = Inr w' \<and> wSend w' \<in> {Sending_Meta a, Sending_Header a}
    \<and> mEC (wSched w') = mEC (wSched w) \<and> sock_inv (wSched w') (a # r) (wSend w') (wRecv w')"
    by (auto simp: on_send_def Let_def set_fork_def split: if_splits)
qed

definition after_transfer :: "send_pc \<Rightarrow> send_pc" where
  "after_transfer pc = (case pc of Sending_Meta a \<Rightarrow> Sending_Header a | Sending_Header a \<Rightarrow> Sending_Body a | _ \<Rightarrow> Await_Next)"

lemma transmitted_goes_on:
  assumes inv: "sock_inv (wSched w) (a # r) (wSend w) (wRecv w)" and busy: "busy_op (wSend w) = Some a" and ok: "\<not> is_error (mEC (wSched w))"
  shows "\<exists>w'. perform (Transmitted no_error (length (wSending w))) w = Inr w' \<and> wSend w' = after_transfer (wSend w)
    \<and> \<not> is_error (mEC (wSched w')) \<and> sock_inv (wSched w') (if after_transfer (wSend w) = Await_Next then r else a # r) (wSend w') (wRecv w')"
proof -
  let ?n = "length (wSending w)" and ?s = "wSched w"
  have io: "\<not> is_error (checkIo no_error ?n ?n)" by (simp add: checkIo_def)
  obtain op where op: "mSends ?s a = Some op" by (rule sends_okD [OF inv, of a]) auto
  obtain s' where nx: "next_send (Some a) no_error ?s = Inr s'" "mEC s' = mEC ?s"
    using next_send_inv [OF inv busy, of no_error] ok by auto
  consider "wSend w = Sending_Meta a" | "wSend w = Sending_Header a" | "wSend w = Sending_Body a" using busy by (cases "wSend w") auto
  then show ?thesis
  proof cases
    case 1
    with send_transmitted_ok [OF inv busy op, of no_error ?n ?n] io show ?thesis using ok
      by (auto simp: on_send_def after_transfer_def)
  next
    case 2
    with send_transmitted_ok [OF inv busy op, of no_error ?n ?n] io show ?thesis using ok
      by (auto simp: on_send_def after_transfer_def)
  next
    case 3
    with send_transmitted_ok [OF inv busy op, of no_error ?n ?n] show ?thesis using ok nx
      by (auto simp: on_send_def after_transfer_def)
  qed
qed

fun send_rank :: "send_pc \<Rightarrow> nat" where
  "send_rank Await_Next = 4"
| "send_rank (Sending_Meta a) = 3"
| "send_rank (Sending_Header a) = 2"
| "send_rank (Sending_Body a) = 1"
| "send_rank Send_Exit = 0"

lemma traced_drains:
  assumes "traced sid w wire log" "sock_inv (wSched w) ch (wSend w) (wRecv w)" "\<not> is_error (mEC (wSched w))"
  shows "\<exists>w' wire'. driven w w' \<and> traced sid w' wire' log \<and> \<not> is_error (mEC (wSched w')) \<and> mSendBegin (wSched w') = None"
  using assms
proof (induction "4 * length ch + send_rank (wSend w)" arbitrary: w wire ch rule: less_induct)
  case less
  note inv = less.prems(2) and ok = less.prems(3)
  show ?case
  proof (cases ch)
    case Nil
    then have "mSendBegin (wSched w) = None" using inv by (simp add: sock_inv_def send_phase_def)
    then show ?thesis using less.prems driven_refl by blast
  next
    case (Cons a r)
    have act: "active_op (wSched w) (wSend w) = Some a" using inv Cons by (simp add: sock_inv_def send_phase_def)
    show ?thesis
    proof (cases "wSend w = Await_Next")
      case True
      from resumed_goes_on [OF _ True, of a r] inv Cons True obtain w1 where w1: "enabled Send_Resumed w" "perform Send_Resumed w = Inr w1"
        "wSend w1 \<in> {Sending_Meta a, Sending_Header a}" "mEC (wSched w1) = mEC (wSched w)"
        "sock_inv (wSched w1) (a # r) (wSend w1) (wRecv w1)" by auto
      have t: "traced sid w1 wire log" using traced_step [OF less.prems(1) w1(1) _ w1(2)] by simp
      have "4 * length (a # r) + send_rank (wSend w1) < 4 * length ch + send_rank (wSend w)" using w1(3) True Cons by auto
      from less.hyps [OF this t w1(5)] ok w1(4) show ?thesis using driven_resumed [OF w1(1,2)] by auto
    next
      case False
      then have busy: "busy_op (wSend w) = Some a" using act by (simp add: active_op_def)
      from transmitted_goes_on [OF _ busy ok, of r] inv Cons obtain w1 where w1:
        "perform (Transmitted no_error (length (wSending w))) w = Inr w1" "wSend w1 = after_transfer (wSend w)" "\<not> is_error (mEC (wSched w1))"
        "sock_inv (wSched w1) (if after_transfer (wSend w) = Await_Next then r else a # r) (wSend w1) (wRecv w1)" by auto
      have en: "enabled (Transmitted no_error (length (wSending w))) w" using busy by simp
      have t: "traced sid w1 (wire @ wSending w) log" using traced_step [OF less.prems(1) en _ w1(1)] by simp
      let ?ch = "if after_transfer (wSend w) = Await_Next then r else a # r"
      have "4 * length ?ch + send_rank (wSend w1) < 4 * length ch + send_rank (wSend w)"
        using w1(2) busy Cons by (cases "wSend w") (auto simp: after_transfer_def)
      from less.hyps [OF this t w1(4,3)] show ?thesis using driven_transmitted [OF en w1(1)] by blast
    qed
  qed
qed

lemma spec_complete:
  assumes "wire_inv w ch wire log" "\<not> is_error (mEC (wSched w))" "mSendBegin (wSched w) = None"
  shows "wire = spec_bytes (wSched w) log"
proof -
  note D = wire_invD [OF assms(1)]
  have "head_opt ch = None" using D(1) assms(3) by (simp add: sock_inv_def send_phase_def)
  then have ch: "ch = []" by (simp add: head_opt_None)
  then have busy: "busy_op (wSend w) = None" using busy_chain [OF D(1)] by (cases "busy_op (wSend w)") auto
  then have "current (wSched w) (wSend w) = []" by (cases "wSend w") (simp_all add: current_def)
  moreover have "exact w ch wire log" using assms(1,2) by (auto simp: wire_inv_def)
  ultimately show ?thesis using ch busy by (simp add: exact_def left_def waiting_def)
qed

text \<open>
  C3. What is on the wire. In every run of a socket, whatever its users, its tasks and the transport
  do, the bytes that the transport has taken are a prefix of the frames of the messages that were sent,
  in the order of the calls: each message is a header with its length and the number of its fork and
  then its bytes, each fork is announced once, before its first message, and no two messages are
  mixed. As long as the socket is not in error, every message has been written completely when nothing
  is pending, and the send task alone, with a transport that takes what it is given, gets there.
\<close>

theorem wire_is_fifo:
  assumes "traced sid w wire log"
  shows "prefix wire (stream_bytes (frames_of (mForks (wSched w)) {} log))
     \<and> (\<not> is_error (mEC (wSched w)) \<longrightarrow> mSendBegin (wSched w) = None \<longrightarrow> wire = stream_bytes (frames_of (mForks (wSched w)) {} log))
     \<and> (\<not> is_error (mEC (wSched w)) \<longrightarrow> (\<exists>w' wire'. driven w w' \<and> traced sid w' wire' log
          \<and> wire' = stream_bytes (frames_of (mForks (wSched w')) {} log)))"
proof -
  obtain ch where wi: "wire_inv w ch wire log" using traced_wire [OF assms] by blast
  then have "prefix wire (spec_bytes (wSched w) log)" unfolding wire_inv_def exact_def by (metis prefixI)
  moreover have "\<exists>w' wire'. driven w w' \<and> traced sid w' wire' log \<and> wire' = spec_bytes (wSched w') log"
    if healthy: "\<not> is_error (mEC (wSched w))"
  proof -
    obtain w' wire' where w': "driven w w'" "traced sid w' wire' log" "\<not> is_error (mEC (wSched w'))" "mSendBegin (wSched w') = None"
      using traced_drains [OF assms wire_invD(1) [OF wi] healthy] by blast
    obtain ch' where "wire_inv w' ch' wire' log" using traced_wire [OF w'(2)] by blast
    from spec_complete [OF this w'(3,4)] show ?thesis using w'(1,2) by blast
  qed
  ultimately show ?thesis using spec_complete [OF wi] by (simp add: spec_bytes_def)
qed

text \<open>One message on a new socket.\<close>

definition demo_sent :: world where
  "demo_sent = projr (perform (Act_Send demo_sid (demo_send_buffer None) 10 No_Stop) (start_world demo_sid))"

lemma demo_sent_facts:
  "\<not> isl (perform (Act_Send demo_sid (demo_send_buffer None) 10 No_Stop) (start_world demo_sid))"
  "\<not> is_error (mEC (wSched demo_sent))"
  by code_simp+

lemma demo_sent_traced: "traced demo_sid demo_sent [] [(0, [1, 2, 3])]"
proof -
  let ?x = "Act_Send demo_sid (demo_send_buffer None) 10 No_Stop" and ?w = "start_world demo_sid"
  have fk: "local_fork demo_sid (fresh_sched demo_sid) 0" unfolding local_fork_def by code_simp
  then have "enabled ?x ?w" by (auto simp: start_world_def fresh_buffer_def demo_send_buffer_def)
  moreover have "queued ?x ?w = [(0, [1, 2, 3])]"
    using getLocal_eq [OF fk] by (simp add: start_world_def demo_send_buffer_def)
  moreover have "perform ?x ?w = Inr demo_sent" using demo_sent_facts(1) unfolding demo_sent_def by (metis sum.collapse(2))
  ultimately show ?thesis using traced_step [OF traced_init, of ?x demo_sid demo_sent] by simp
qed

theorem wire_is_fifo_witness:
  "\<exists>w' wire'. driven demo_sent w' \<and> traced demo_sid w' wire' [(0, [1, 2, 3])]
     \<and> wire' = stream_bytes (frames_of (mForks (wSched w')) {} [(0, [1, 2, 3])])"
  using wire_is_fifo [OF demo_sent_traced] demo_sent_facts(2) by blast

end
