(* ===== verification/Sched_Deliver.thy ===== *)
theory Sched_Deliver
  imports Sched_Wire Sched_Still
begin

text \<open>
  What the receive task makes of the bytes that arrive: it reads frames, and each message ends up in
  the buffer of the oldest pending receive of the fork that its number was announced for. With the
  theorem about the bytes on the wire this gives the contract of the multiplexer between two parties.
\<close>

section \<open>Reading frames\<close>

fun valid_frame :: "frame \<Rightarrow> bool" where
  "valid_frame (Announce n k) \<longleftrightarrow> True"
| "valid_frame (Message n d) \<longleftrightarrow> d \<noteq> [] \<and> length d < 2 ^ 32"

type_synonym names = "u32 \<Rightarrow> (u64 \<times> u64) option"

text \<open>The numbers announced by a list of frames, and its messages under the identifiers of their forks.\<close>

fun name_frames :: "names \<Rightarrow> frame list \<Rightarrow> names" where
  "name_frames m [] = m"
| "name_frames m (Announce n k # fs) = name_frames (m(n \<mapsto> k)) fs"
| "name_frames m (Message n d # fs) = name_frames m fs"

fun read_frames :: "names \<Rightarrow> frame list \<Rightarrow> ((u64 \<times> u64) \<times> u8 list) list" where
  "read_frames m [] = []"
| "read_frames m (Announce n k # fs) = read_frames (m(n \<mapsto> k)) fs"
| "read_frames m (Message n d # fs) = (the (m n), d) # read_frames m fs"

text \<open>No number is announced twice, and only announced numbers are used.\<close>

fun fresh_frames :: "names \<Rightarrow> frame list \<Rightarrow> bool" where
  "fresh_frames m [] \<longleftrightarrow> True"
| "fresh_frames m (Announce n k # fs) \<longleftrightarrow> m n = None \<and> fresh_frames (m(n \<mapsto> k)) fs"
| "fresh_frames m (Message n d # fs) \<longleftrightarrow> m n \<noteq> None \<and> fresh_frames m fs"

lemma name_frames_snoc:
  "name_frames m (fs @ [Announce n k]) = (name_frames m fs)(n \<mapsto> k)" "name_frames m (fs @ [Message n d]) = name_frames m fs"
  by (induction m fs rule: name_frames.induct) simp_all

lemma read_frames_snoc:
  "read_frames m (fs @ [Announce n k]) = read_frames m fs" "read_frames m (fs @ [Message n d]) = read_frames m fs @ [(the (name_frames m fs n), d)]"
  by (induction m fs rule: read_frames.induct) simp_all

lemma fresh_frames_snoc:
  "fresh_frames m (fs @ [Announce n k]) \<longleftrightarrow> fresh_frames m fs \<and> name_frames m fs n = None"
  "fresh_frames m (fs @ [Message n d]) \<longleftrightarrow> fresh_frames m fs \<and> name_frames m fs n \<noteq> None"
  by (induction m fs rule: fresh_frames.induct) auto

text \<open>Headers and control blocks determine their bytes.\<close>

lemma header_bytes_read: "length bs = 8 \<Longrightarrow> header_bytes (read_header bs) = bs"
proof -
  assume l: "length bs = 8"
  have v: "unat (of_nat (le_value xs) :: u32) = le_value xs" if "length xs = 4" for xs
    using le_value_bound [of xs] that by (simp add: unat_of_nat)
  have "le_bytes 4 (le_value xs) = xs" if "length xs = 4" for xs using le_bytes_value [of xs] that by simp
  then show ?thesis using l by (simp add: header_bytes_def read_header_def v)
qed

lemma control_block_read: "length bs = 16 \<Longrightarrow> control_block (getSessionID bs) = bs"
proof -
  assume l: "length bs = 16"
  have v: "unat (of_nat (le_value xs) :: u64) = le_value xs" if "length xs = 8" for xs
    using le_value_bound [of xs] that by (simp add: unat_of_nat)
  have "le_bytes 8 (le_value xs) = xs" if "length xs = 8" for xs using le_bytes_value [of xs] that by simp
  then show ?thesis using l by (simp add: control_block_def getSessionID_def v)
qed

text \<open>A stream of valid frames can be read in one way only.\<close>

definition frame_head :: "frame \<Rightarrow> header" where
  "frame_head f = (case f of Announce n k \<Rightarrow> \<lparr>hSize = 0, hForkId = n\<rparr> | Message n d \<Rightarrow> \<lparr>hSize = of_nat (length d), hForkId = n\<rparr>)"

definition frame_body :: "frame \<Rightarrow> u8 list" where
  "frame_body f = (case f of Announce n k \<Rightarrow> control_block (key_sid k) | Message n d \<Rightarrow> d)"

lemma frame_bytes_parts: "frame_bytes f = header_bytes (frame_head f) @ frame_body f"
  by (cases f) (simp_all add: frame_head_def frame_body_def meta_message_def)

lemma message_size: "length d < 2 ^ 32 \<Longrightarrow> unat (of_nat (length d) :: u32) = length d"
  by (simp add: unat_of_nat)

lemma control_key: "control_block (key_sid k) @ xs = control_block (key_sid k') @ ys \<Longrightarrow> k = k' \<and> xs = ys"
proof -
  assume a: "control_block (key_sid k) @ xs = control_block (key_sid k') @ ys"
  then have "getSessionID (control_block (key_sid k) @ xs) = getSessionID (control_block (key_sid k') @ ys)" by simp
  then have "k = k'" by (cases k; cases k') (simp add: key_sid_def)
  then show ?thesis using a by simp
qed

lemma frame_unique:
  assumes "valid_frame f" "valid_frame g" "frame_bytes f @ xs = frame_bytes g @ ys"
  shows "f = g \<and> xs = ys"
proof -
  have e: "header_bytes (frame_head f) @ frame_body f @ xs = header_bytes (frame_head g) @ frame_body g @ ys"
    using assms(3) by (simp add: frame_bytes_parts)
  then have "read_header (header_bytes (frame_head f) @ frame_body f @ xs) = read_header (header_bytes (frame_head g) @ frame_body g @ ys)"
    by (rule arg_cong)
  then have h: "frame_head f = frame_head g" by simp
  then have b: "frame_body f @ xs = frame_body g @ ys" using e by simp
  have nz: "of_nat (length d) \<noteq> (0 :: u32)" if "d \<noteq> []" "length d < 2 ^ 32" for d :: "u8 list"
    using message_size [OF that(2)] that(1) by auto
  show ?thesis
  proof (cases f)
    case (Announce n k)
    then obtain n' k' where "g = Announce n' k'" using h nz assms(2) by (cases g) (auto simp: frame_head_def)
    then show ?thesis using h b Announce control_key [of k xs k' ys] by (simp add: frame_head_def frame_body_def)
  next
    case (Message n d)
    then obtain n' d' where g: "g = Message n' d'" using h nz assms(1) by (cases g) (auto simp: frame_head_def)
    then have "unat (of_nat (length d) :: u32) = unat (of_nat (length d') :: u32)" using h Message by (simp add: frame_head_def)
    then have "length d = length d'" using assms(1,2) Message g by (simp add: message_size)
    then show ?thesis using h b Message g by (simp add: frame_head_def frame_body_def)
  qed
qed

lemma frame_bytes_ne: "frame_bytes f \<noteq> []"
proof -
  have "length (frame_bytes f) \<noteq> 0" by (simp add: frame_bytes_parts)
  then show ?thesis by auto
qed

lemma stream_unique:
  assumes "\<forall>f \<in> set fs. valid_frame f" "\<forall>g \<in> set gs. valid_frame g" "prefix (stream_bytes fs) (stream_bytes gs)"
  shows "prefix fs gs"
  using assms
proof (induction fs arbitrary: gs)
  case (Cons f fs)
  from Cons.prems(3) obtain zs where z: "stream_bytes gs = frame_bytes f @ stream_bytes fs @ zs" by (auto simp: prefix_def)
  then obtain g gs' where g: "gs = g # gs'" using frame_bytes_ne [of f] by (cases gs) auto
  have "f = g \<and> stream_bytes fs @ zs = stream_bytes gs'"
    by (rule frame_unique) (use Cons.prems(1,2) g z in auto)
  moreover from this have "prefix (stream_bytes fs) (stream_bytes gs')" by (metis prefixI)
  ultimately show ?case using Cons.IH [of gs'] Cons.prems(1,2) g by simp
qed simp


section \<open>Runs\<close>

text \<open>
  Three records of a run: the bytes taken from the transport, the receives called by the users (fork and
  buffer), and the receives completed with a message (fork, buffer, and what the buffer holds then).
\<close>

fun taken :: "action \<Rightarrow> u8 list" where
  "taken (Received ec bs) = bs"
| "taken x = []"

fun called :: "action \<Rightarrow> world \<Rightarrow> (nat \<times> nat) list" where
  "called (Act_Recv sid d h tok) w = (if is_error (mEC (wSched w)) then []
     else (case getLocalSocketFork sid (wSched w) of Inl e \<Rightarrow> [] | Inr i \<Rightarrow> [(i, d)]))"
| "called x w = []"

definition buffer_bytes :: "nat \<Rightarrow> nat \<Rightarrow> sched \<Rightarrow> u8 list" where
  "buffer_bytes d n s = (case mBufs s d of None \<Rightarrow> [] | Some b \<Rightarrow> take n (cBytes (rb_cont b)))"

fun completed :: "action \<Rightarrow> world \<Rightarrow> world \<Rightarrow> (nat \<times> nat \<times> u8 list) list" where
  "completed (Received ec bs) w w' = (case wRecv w of Reading_Body h a \<Rightarrow> if is_error ec then []
       else (case mRecvs (wSched w) a of None \<Rightarrow> []
         | Some op \<Rightarrow> [(ro_Fork op, ro_Buffer op, buffer_bytes (ro_Buffer op) (unat (hSize h)) (wSched w'))])
     | _ \<Rightarrow> [])"
| "completed x w w' = []"

inductive heard :: "session_id \<Rightarrow> world \<Rightarrow> u8 list \<Rightarrow> (nat \<times> nat) list \<Rightarrow> (nat \<times> nat \<times> u8 list) list \<Rightarrow> bool" for sid where
  heard_init: "heard sid (start_world sid) [] [] []"
| heard_step: "heard sid w input cl dl \<Longrightarrow> enabled x w \<Longrightarrow> honest_transport x w \<Longrightarrow> perform x w = Inr w'
     \<Longrightarrow> heard sid w' (input @ taken x) (cl @ called x w) (dl @ completed x w w')"

section \<open>The invariant of the receive side\<close>

text \<open>The task has been told that the socket is in error, and will not read any more.\<close>

definition doomed :: "sched \<Rightarrow> recv_pc \<Rightarrow> bool" where
  "doomed s rp \<longleftrightarrow> is_error (mEC s) \<and> (rp = Recv_Exit
     \<or> rp = Await_Any \<and> \<not> mAnyRecvOp s \<and> (\<exists>e. mAnyRes s = Some e \<and> is_error e)
     \<or> (\<exists>h e. rp = Await_Fork h \<and> mGetReq s = None \<and> mGetRes s = Some (Inl e)))"

text \<open>What has been read of the next frame.\<close>

fun begun :: "recv_pc \<Rightarrow> u8 list" where
  "begun (Reading_Control h) = header_bytes h"
| "begun (Await_Fork h) = header_bytes h"
| "begun (Reading_Body h a) = header_bytes h"
| "begun rp = []"

fun begun_ok :: "recv_pc \<Rightarrow> bool" where
  "begun_ok (Reading_Control h) \<longleftrightarrow> hSize h = 0"
| "begun_ok (Await_Fork h) \<longleftrightarrow> hSize h \<noteq> 0"
| "begun_ok (Reading_Body h a) \<longleftrightarrow> hSize h \<noteq> 0"
| "begun_ok rp \<longleftrightarrow> True"

definition names_of :: "sched \<Rightarrow> names" where
  "names_of s n = map_option (\<lambda>i. sid_key (mSessionID (mForks s ! i))) (mRemoteMap s n)"

definition fork_calls :: "nat \<Rightarrow> (nat \<times> nat) list \<Rightarrow> nat list" where
  "fork_calls i cl = map snd (filter (\<lambda>c. fst c = i) cl)"

definition fork_done :: "nat \<Rightarrow> (nat \<times> nat \<times> u8 list) list \<Rightarrow> nat list" where
  "fork_done i dl = map (\<lambda>c. fst (snd c)) (filter (\<lambda>c. fst c = i) dl)"

definition buffers_of :: "sched \<Rightarrow> nat list \<Rightarrow> nat list" where
  "buffers_of s as = map (\<lambda>a. snd (rop_ids (the (mRecvs s a)))) as"

definition keyed :: "sched \<Rightarrow> (nat \<times> nat \<times> u8 list) list \<Rightarrow> ((u64 \<times> u64) \<times> u8 list) list" where
  "keyed s dl = map (\<lambda>c. (sid_key (mSessionID (mForks s ! fst c)), snd (snd c))) dl"

definition in_step :: "sched \<Rightarrow> recv_pc \<Rightarrow> u8 list \<Rightarrow> (nat \<times> nat) list \<Rightarrow> (nat \<times> nat \<times> u8 list) list \<Rightarrow> frame list \<Rightarrow> bool" where
  "in_step s rp input cl dl fs \<longleftrightarrow> input = stream_bytes fs @ begun rp \<and> begun_ok rp \<and> name_frames Map.empty fs = names_of s
     \<and> (\<forall>i < length (mForks s). fork_calls i cl = fork_done i dl @ buffers_of s (qlist (mRecvOps (mForks s ! i))))"

definition heard_frames :: "sched \<Rightarrow> (nat \<times> nat \<times> u8 list) list \<Rightarrow> frame list \<Rightarrow> bool" where
  "heard_frames s dl fs \<longleftrightarrow> (\<forall>f \<in> set fs. valid_frame f) \<and> fresh_frames Map.empty fs \<and> read_frames Map.empty fs = keyed s dl"

definition hear_inv :: "sched \<Rightarrow> recv_pc \<Rightarrow> u8 list \<Rightarrow> (nat \<times> nat) list \<Rightarrow> (nat \<times> nat \<times> u8 list) list \<Rightarrow> frame list \<Rightarrow> bool" where
  "hear_inv s rp input cl dl fs \<longleftrightarrow> (\<forall>c \<in> set cl. fst c < length (mForks s)) \<and> (\<forall>c \<in> set dl. fst c < length (mForks s))
     \<and> heard_frames s dl fs
     \<and> (in_step s rp input cl dl fs
        \<or> doomed s rp \<and> prefix (stream_bytes fs) input \<and> (\<forall>i. prefix (fork_done i dl) (fork_calls i cl)))"

text \<open>An invariant in step gives the weaker claims.\<close>

lemma in_step_prefix:
  assumes inv: "hear_inv s rp input cl dl fs"
  shows "prefix (stream_bytes fs) input" and "prefix (fork_done i dl) (fork_calls i cl)"
proof -
  show "prefix (stream_bytes fs) input" using inv by (auto simp: hear_inv_def in_step_def)
  have "fork_done i dl = []" if "\<not> i < length (mForks s)" using inv that by (auto simp: hear_inv_def fork_done_def filter_empty_conv)
  then show "prefix (fork_done i dl) (fork_calls i cl)" using inv by (cases "i < length (mForks s)") (auto simp: hear_inv_def in_step_def)
qed

lemma doomed_hear:
  assumes inv: "hear_inv s rp input cl dl fs" and d: "doomed s' rp'" and keys: "length (mForks s) \<le> length (mForks s')"
    "\<And>i. i < length (mForks s) \<Longrightarrow> sid_key (mSessionID (mForks s' ! i)) = sid_key (mSessionID (mForks s ! i))"
  shows "hear_inv s' rp' (input @ xs) cl dl fs"
proof -
  have "keyed s' dl = keyed s dl" using inv keys(2) by (auto simp: hear_inv_def keyed_def)
  moreover have "prefix (stream_bytes fs) (input @ xs)" using in_step_prefix(1) [OF inv] by (rule prefix_prefix)
  ultimately show ?thesis using inv in_step_prefix(2) [OF inv] d keys(1) unfolding hear_inv_def heard_frames_def by fastforce
qed


section \<open>Steps that do not concern the receive task\<close>

lemma still_hear:
  assumes inv: "hear_inv s rp input cl dl fs" and st: "still s s'" and ids: "ids_ok s"
  shows "hear_inv s' rp input cl dl fs"
proof -
  have len: "length (mForks s) \<le> length (mForks s')" using st by (simp add: still_def)
  have key: "sid_key (mSessionID (mForks s' ! i)) = sid_key (mSessionID (mForks s ! i))" if "i < length (mForks s)" for i
    using st that by (simp add: still_def)
  show ?thesis
  proof (cases "doomed s rp")
    case True
    then have "doomed s' rp" using st by (simp add: doomed_def still_def answers_def)
    from doomed_hear [OF inv this len key, of "[]"] show ?thesis by simp
  next
    case False
    then have i: "in_step s rp input cl dl fs" and b: "\<forall>c \<in> set cl. fst c < length (mForks s)" "\<forall>c \<in> set dl. fst c < length (mForks s)"
        "heard_frames s dl fs"
      using inv by (simp_all add: hear_inv_def)
    have rm: "mRemoteMap s' = mRemoteMap s" using st by (simp add: still_def)
    have "names_of s' = names_of s"
      using key ids_ok_remote [OF ids] by (auto simp: names_of_def rm fun_eq_iff map_option_case split: option.split)
    moreover have bf: "buffers_of s' as = buffers_of s as" for as
    proof -
      have "map_option rop_ids (mRecvs s' a) = map_option rop_ids (mRecvs s a)" for a using st by (simp add: still_def)
      then have "snd (rop_ids (the (mRecvs s' a))) = snd (rop_ids (the (mRecvs s a)))" for a
        by (metis map_option_is_None option.map_sel)
      then show ?thesis by (simp add: buffers_of_def)
    qed
    moreover have "fork_calls j cl = fork_done j dl @ buffers_of s' (qlist (mRecvOps (mForks s' ! j)))" if "j < length (mForks s')" for j
    proof (cases "j < length (mForks s)")
      case True
      then show ?thesis using i st by (simp add: in_step_def bf still_def)
    next
      case False
      then have "fork_calls j cl = []" "fork_done j dl = []" "qlist (mRecvOps (mForks s' ! j)) = []"
        using b(1,2) st that by (auto simp: fork_calls_def fork_done_def filter_empty_conv still_def)
      then show ?thesis by (simp add: buffers_of_def)
    qed
    ultimately have "in_step s' rp input cl dl fs" using i by (simp add: in_step_def)
    moreover have "keyed s' dl = keyed s dl" using key b(2) by (simp add: keyed_def)
    ultimately show ?thesis using b len unfolding hear_inv_def heard_frames_def by fastforce
  qed
qed

text \<open>A receive is refused, or it is the last of its fork.\<close>

lemma fork_calls_snoc: "fork_calls j (cl @ [(i, d)]) = fork_calls j cl @ (if j = i then [d] else [])"
  by (simp add: fork_calls_def)

lemma ids_of_sig: "map_option rop_sig x = map_option rop_sig y \<Longrightarrow> map_option rop_ids x = map_option rop_ids y"
  by (cases x; cases y) (auto simp: rop_sig_def rop_ids_def)

lemma recv_hear:
  assumes inv: "sock_inv s ch sp rp" and hi: "hear_inv s rp input cl dl fs" and fk: "local_fork sid s i"
    and d: "fresh_recv_buffer s d" "Suc (recv_total s) < 2 ^ 64" "tok \<noteq> Stop_Requested" and run: "recv sid d h tok s = Inr s'"
  shows "hear_inv s' rp input (cl @ (if is_error (mEC s) then [] else [(i, d)])) dl fs"
proof (cases "is_error (mEC s)")
  case True
  obtain b p where b: "mBufs s d = Some b" "rb_ex b = Some p" "unused_cell s p" using d by (auto simp: fresh_recv_buffer_def)
  have "s' = emit (Resume (User h) (mExecutor (mForks s ! i))) (s\<lparr>mExs := recv_setError b (mEC s) (mExs s)\<rparr>)"
    using recv_closed(1) [OF inv fk True b(1), of h tok] run b(2,3) by simp
  moreover have "still s (s\<lparr>mExs := recv_setError b (mEC s) (mExs s)\<rparr>)" by (rule still_fields) (simp_all add: answers_def)
  ultimately have "still s s'" using still_emit by blast
  then have "hear_inv s' rp input cl dl fs"
    by (rule still_hear [OF hi]) (use inv in \<open>simp add: sock_inv_def sched_inv_simps\<close>)
  then show ?thesis using True by simp
next
  case False
  from recv_open [OF inv fk False d, of h] run obtain q where s': "sock_inv s' ch sp rp"
      "mForks s' = mForks (placed_recv i (new_recv_op d h i) q s)" "qlist q = qlist (mRecvOps (mForks s ! i)) @ [mFreshPtr s]"
      "mRemoteMap s' = mRemoteMap s"
      "\<And>x. map_option rop_sig (mRecvs s' x) = map_option rop_sig (if x = mFreshPtr s then Some (new_recv_op d h i) else mRecvs s x)"
    by auto
  have i: "i < length (mForks s)" using fk by (simp add: local_fork_def)
  have f: "length (mForks s') = length (mForks s)" "\<And>j. mSessionID (mForks s' ! j) = mSessionID (mForks s ! j)"
    "\<And>j. mRecvOps (mForks s' ! j) = (if j = i then q else mRecvOps (mForks s ! j))"
    using i by (auto simp: s'(2) placed_recv_def set_recv_def set_fork_def nth_list_update)
  have bd: "\<forall>c \<in> set cl. fst c < length (mForks s)" "\<forall>c \<in> set dl. fst c < length (mForks s)" "heard_frames s dl fs"
    and st: "in_step s rp input cl dl fs"
    using hi False by (auto simp: hear_inv_def doomed_def)
  have ids: "map_option rop_ids (mRecvs s' x) = map_option rop_ids (if x = mFreshPtr s then Some (new_recv_op d h i) else mRecvs s x)" for x
    by (rule ids_of_sig [OF s'(5)])
  have new: "buffers_of s' [mFreshPtr s] = [d]" using ids [of "mFreshPtr s"] by (auto simp: buffers_of_def new_recv_op_def rop_ids_def)
  have old: "buffers_of s' as = buffers_of s as" if "mFreshPtr s \<notin> set as" for as
    unfolding buffers_of_def
  proof (rule map_cong [OF refl])
    fix a assume "a \<in> set as"
    then have "map_option rop_ids (mRecvs s' a) = map_option rop_ids (mRecvs s a)" using ids [of a] that by auto
    then show "snd (rop_ids (the (mRecvs s' a))) = snd (rop_ids (the (mRecvs s a)))" by (metis map_option_is_None option.map_sel)
  qed
  have rok: "recv_ok s" using inv by (simp add: sock_inv_def sched_inv_simps)
  have nq: "mFreshPtr s \<notin> set (qlist (mRecvOps (mForks s ! j)))" if "j < length (mForks s)" for j
    using rok that recv_ok_fresh [OF rok] unfolding recv_ok_def by fastforce
  have "fork_calls j (cl @ [(i, d)]) = fork_done j dl @ buffers_of s' (qlist (mRecvOps (mForks s' ! j)))" if "j < length (mForks s')" for j
    using st that f nq [of j] old [of "qlist (mRecvOps (mForks s ! j))"] new
    by (auto simp: in_step_def fork_calls_snoc s'(3) buffers_of_def)
  moreover have "names_of s' = names_of s" by (simp add: names_of_def s'(4) f fun_eq_iff)
  ultimately have "in_step s' rp input (cl @ [(i, d)]) dl fs" using st by (simp add: in_step_def)
  moreover have "keyed s' dl = keyed s dl" by (simp add: keyed_def f)
  ultimately show ?thesis using False bd i unfolding hear_inv_def heard_frames_def by (simp add: f)
qed


section \<open>The receive task\<close>

lemma any_recv_error:
  assumes inv: "sched_inv s ch" and sp: "send_phase s ch sp" and idle: "\<not> mAnyRecvOp s" "mGetReq s = None"
    and err: "is_error ec \<or> is_error (mEC s)" and run: "any_recv None ec s = Inr s'"
  shows "doomed s' Await_Any"
proof -
  let ?t = "s\<lparr>mAnyRes := Some (make_error_code Cancel)\<rparr>"
  have tinv: "sched_inv ?t ch" "send_phase ?t ch sp" using inv sp send_phase_cong [of ?t s ch sp] by simp_all
  have err': "is_error ec \<or> is_error (mEC ?t)" using err by simp
  obtain u where u: "cancel Recver ec ?t = Inr u" "is_error (mEC u)" "\<not> mAnyRecvOp ?t \<longrightarrow> \<not> mAnyRecvOp u" "\<not> mAnyRecvOp ?t \<longrightarrow> mAnyRes u = mAnyRes ?t"
    by (rule cancel_recver_inv [OF tinv(1) err' tinv(2)])
  have "s' = emit (Resume Recv_Task None) u" using err run u(1) by (auto simp: any_recv_def)
  then show ?thesis using u idle by (simp add: doomed_def emit_def)
qed

lemma calm_keys:
  assumes "calm s s'"
  shows "length (mForks s) \<le> length (mForks s')"
    "i < length (mForks s) \<Longrightarrow> sid_key (mSessionID (mForks s' ! i)) = sid_key (mSessionID (mForks s ! i))"
  using calm_fork(2) [OF assms] assms unfolding calm_def by blast+

text \<open>The task gives up with an error, having read \<open>xs\<close> that do not make a frame.\<close>

lemma give_up_hear:
  assumes hi: "hear_inv s rp input cl dl fs" and inv: "sched_inv s ch" and sp: "send_phase s ch sp" and idle: "\<not> mAnyRecvOp s" "mGetReq s = None"
    and err: "is_error ec \<or> is_error (mEC s)" and run: "recv_continue None ec s = Inr (rp', s')"
  shows "hear_inv s' rp' (input @ xs) cl dl fs"
proof -
  have r: "any_recv None ec s = Inr s'" "rp' = Await_Any" using run by (auto simp: recv_continue_def bindR_eq_Inr)
  note k = calm_keys [OF calm_quiet [OF quiet_any_recv_None [OF r(1)]]]
  show ?thesis unfolding r(2) by (rule doomed_hear [OF hi any_recv_error [OF inv sp idle err r(1)] k])
qed

lemma after_recv_ops:
  assumes "mRecvs s a = Some op" "ro_Fork op < length (mForks s)"
  shows "mRecvOps (mForks (after_recv a q ec s) ! j) = (if j = ro_Fork op then q else mRecvOps (mForks s ! j))"
  using assms by (simp add: after_recv_def retire_recv_def Let_def)

text \<open>The operation of a body is completed: it leaves its queue.\<close>

lemma buffers_cong:
  "(\<And>a. a \<in> set as \<Longrightarrow> mRecvs s' a = mRecvs s a) \<Longrightarrow> buffers_of s' as = buffers_of s as"
  by (simp add: buffers_of_def)

lemma finish_body:
  assumes inv: "sched_inv s ch" and sp: "send_phase s ch sp" and idle: "\<not> mAnyRecvOp s" "mGetReq s = None"
    and fr: "recv_front s n a" and run: "recv_continue (Some a) ec s = Inr (rp', s')"
  shows "calm s s'" and "rp' = Await_Any" and "mBufs s' = mBufs s"
    and "is_error ec \<or> is_error (mEC s) \<Longrightarrow> doomed s' Await_Any"
    and "\<not> (is_error ec \<or> is_error (mEC s)) \<Longrightarrow> \<exists>i op q. mRemoteMap s n = Some i \<and> mRecvs s a = Some op \<and> ro_Fork op = i
      \<and> i < length (mForks s) \<and> qlist (mRecvOps (mForks s ! i)) = a # q \<and> length (mForks s') = length (mForks s)
      \<and> (\<forall>j < length (mForks s). qlist (mRecvOps (mForks s' ! j)) = (if j = i then q else qlist (mRecvOps (mForks s ! j))))
      \<and> mRecvs s' = (mRecvs s)(a := None) \<and> mRemoteMap s' = mRemoteMap s \<and> (\<forall>j. mSessionID (mForks s' ! j) = mSessionID (mForks s ! j))"
proof -
  have r: "any_recv (Some a) ec s = Inr s'" and rp': "rp' = Await_Any" using run by (auto simp: recv_continue_def bindR_eq_Inr)
  show "rp' = Await_Any" by (rule rp')
  have qt: "quiet s s'" by (rule quiet_any_recv [OF inv fr r])
  show "calm s s'" by (rule calm_quiet [OF qt])
  show "mBufs s' = mBufs s" using qt by (simp add: quiet_def)
  obtain i q' where i: "mRemoteMap s n = Some i" "i < length (mForks s)" "qlist (mRecvOps (mForks s ! i)) = a # q'"
    using fr by (auto simp: recv_front_def)
  obtain op b q where o: "mRecvs s a = Some op" "ro_Fork op = i" "pop_front (mRecvOps (mForks s ! i)) = Inr q" "qlist q = q'"
    "complete_prev_recv a ec s = Inr (if is_error ec then make_error_code Cancel else ec, after_recv a q ec s)"
    "sched_inv (after_recv a q ec s) ch"
    by (rule complete_prev_recv_closed [OF inv i(2,3)])
  let ?t = "after_recv a q ec s" and ?e = "if is_error ec then make_error_code Cancel else ec"
  note f = after_recv_fields [of a q ec s]
  have n: "any_recv None ?e ?t = Inr s'" using r any_recv_Some [OF o(5)] by simp
  have t: "send_phase ?t ch sp" "\<not> mAnyRecvOp ?t" "mGetReq ?t = None" using sp idle by (simp_all add: f)
  show "doomed s' Await_Any" if "is_error ec \<or> is_error (mEC s)"
    by (rule any_recv_error [OF o(6) t _ n]) (use that in \<open>auto simp: f\<close>)
  assume ok: "\<not> (is_error ec \<or> is_error (mEC s))"
  have s': "mForks s' = mForks ?t" "mRecvs s' = mRecvs ?t" "mRemoteMap s' = mRemoteMap ?t"
    using any_recv_None_inv [OF o(6) t, of ?e] n ok by (auto simp: f)
  have ops: "qlist (mRecvOps (mForks s' ! j)) = (if j = i then q' else qlist (mRecvOps (mForks s ! j)))" for j
    using after_recv_ops [OF o(1), of q ec j] o(2,4) i(2) by (simp add: s')
  have sid: "mSessionID (mForks s' ! j) = mSessionID (mForks s ! j)" "length (mForks s') = length (mForks s)" for j
  proof -
    obtain x y where "mForks s' ! j = (mForks s ! j)\<lparr>mRecvOps := x, mSendOps := y\<rparr>" using qt unfolding quiet_def by blast
    then show "mSessionID (mForks s' ! j) = mSessionID (mForks s ! j)" by simp
    show "length (mForks s') = length (mForks s)" using qt by (simp add: quiet_def)
  qed
  show "\<exists>i op q. mRemoteMap s n = Some i \<and> mRecvs s a = Some op \<and> ro_Fork op = i
      \<and> i < length (mForks s) \<and> qlist (mRecvOps (mForks s ! i)) = a # q \<and> length (mForks s') = length (mForks s)
      \<and> (\<forall>j < length (mForks s). qlist (mRecvOps (mForks s' ! j)) = (if j = i then q else qlist (mRecvOps (mForks s ! j))))
      \<and> mRecvs s' = (mRecvs s)(a := None) \<and> mRemoteMap s' = mRemoteMap s \<and> (\<forall>j. mSessionID (mForks s' ! j) = mSessionID (mForks s ! j))"
    using i o(1,2) ops sid s'(2,3) f(6,7) by (intro exI [of _ i] exI [of _ op] exI [of _ q']) simp
qed


lemma hear_invD:
  assumes "hear_inv s rp input cl dl fs"
  shows "\<forall>c \<in> set cl. fst c < length (mForks s)" "\<forall>c \<in> set dl. fst c < length (mForks s)" "heard_frames s dl fs"
    "\<not> doomed s rp \<Longrightarrow> in_step s rp input cl dl fs"
  using assms by (auto simp: hear_inv_def)

lemma hear_invI:
  assumes "\<forall>c \<in> set cl. fst c < length (mForks s)" "\<forall>c \<in> set dl. fst c < length (mForks s)" "heard_frames s dl fs"
    "in_step s rp input cl dl fs"
  shows "hear_inv s rp input cl dl fs"
  using assms by (simp add: hear_inv_def)

text \<open>The buffer of the matching receive is made to fit.\<close>

lemma span_cases:
  assumes inv: "sched_inv s ch" and lv: "live s" and fr: "recv_front s n a" and run: "recv_op_asSpan a sz s = Inr (k, t)"
  shows "\<exists>d b' x. t = rebuf d b' x s \<and> sched_inv t ch"
proof -
  obtain op b where op: "mRecvs s a = Some op" and b: "mBufs s (ro_Buffer op) = Some b" by (rule recv_frontD [OF inv fr])
  have ex: "rb_ex b \<noteq> None" using lv op b unfolding live_def by blast
  from recv_asSpan_cases [OF ex, of sz "mExs s"] obtain k' b' x where as: "recv_asSpan b sz (mExs s) = Inr (k', b', x)"
    and k: "if k' = unat sz then rb_ex b' = rb_ex b \<and> x = mExs s else rb_ex b' = None \<and> (\<exists>p e. rb_ex b = Some p \<and> x = (mExs s)(p \<mapsto> e))"
    by blast
  have t: "t = rebuf (ro_Buffer op) b' x s" using run op b as by (simp add: recv_op_asSpan_def rebuf_def)
  have "sched_inv t ch" unfolding t by (rule rebuf_inv [OF inv op b]) (use k in \<open>auto split: if_splits\<close>)
  then show ?thesis using t by blast
qed

lemma resumed_hear:
  assumes inv: "sock_inv s ch sp rp" and lv: "live s" and hi: "hear_inv s rp input cl dl fs"
    and res: "rp = Await_Any \<and> \<not> mAnyRecvOp s \<or> (\<exists>h. rp = Await_Fork h \<and> mGetReq s = None)"
    and run: "recv_resumed rp s = Inr (rp', s')"
  shows "hear_inv s' rp' input cl dl fs"
proof -
  have sinv: "sched_inv s ch" and sp: "send_phase s ch sp" and ph: "recv_phase s rp" using inv by (simp_all add: sock_inv_def)
  note D = hear_invD [OF hi]
  from res show ?thesis
  proof (elim disjE exE conjE)
    assume rp: "rp = Await_Any" "\<not> mAnyRecvOp s"
    obtain e where e: "mAnyRes s = Some e" "is_error e \<longrightarrow> is_error (mEC s)" using recv_phaseD(3) [OF ph rp] by blast
    show ?thesis
    proof (cases "is_error e")
      case True
      then have s': "s' = s" "rp' = Recv_Exit" using run rp e by simp_all
      have "doomed s Recv_Exit" using True e by (simp add: doomed_def)
      from doomed_hear [OF hi this le_refl refl, of "[]"] show ?thesis by (simp add: s')
    next
      case False
      then have s': "s' = s" "rp' = Reading_Header" using run rp e by simp_all
      have "\<not> doomed s rp" using False rp e by (simp add: doomed_def)
      then have "in_step s Reading_Header input cl dl fs" using D(4) rp by (simp add: in_step_def)
      then show ?thesis using hear_invI [OF D(1-3)] s' by simp
    qed
  next
    fix h assume rp: "rp = Await_Fork h" and none: "mGetReq s = None"
    have idle: "\<not> mAnyRecvOp s" by (rule recv_phase_idle(1) [OF ph]) (simp add: rp)
    have ok: "get_ok s (hForkId h) (mGetRes s)" by (rule recv_phaseD(4) [OF ph rp none])
    then consider e where "mGetRes s = Some (Inl e)" "is_error e" | a where "mGetRes s = Some (Inr a)" "recv_front s (hForkId h) a"
      by (auto simp: get_ok_def split: option.splits sum.splits)
    then show ?thesis
    proof cases
      case 1
      then have "recv_continue None e s = Inr (rp', s')" using run rp by simp
      from give_up_hear [OF hi sinv sp idle none _ this, of "[]"] 1(2) show ?thesis by simp
    next
      case 2
      let ?sz = "ucast (hSize h) :: u64"
      obtain k t where span: "recv_op_asSpan a ?sz s = Inr (k, t)"
        using run rp 2(1) by (auto simp: bindR_eq_Inr)
      from span_cases [OF sinv lv 2(2) span] obtain d b x where t: "t = rebuf d b x s" and tinv: "sched_inv t ch" by blast
      have tp: "send_phase t ch sp" "\<not> mAnyRecvOp t" "mGetReq t = None" "recv_front t (hForkId h) a"
        using rebuf_phases(1) [OF sp] idle none 2(2) by (simp_all add: t)
      show ?thesis
      proof (cases "k = unat (hSize h)")
        case True
        then have s': "s' = t" "rp' = Reading_Body h a" using run rp 2(1) span by simp_all
        have "\<not> doomed s rp" using 2(1) rp by (simp add: doomed_def)
        then have "in_step t (Reading_Body h a) input cl dl fs"
          using D(4) rp by (simp add: in_step_def t names_of_def fun_eq_iff buffers_of_def)
        then show ?thesis using D(1-3) s' by (intro hear_invI) (simp_all add: t heard_frames_def keyed_def)
      next
        case False
        then have c: "recv_continue (Some a) (make_error_code BadBufferSize) t = Inr (rp', s')" using run rp 2(1) span by simp
        note F = finish_body [OF tinv tp c]
        have d: "doomed s' rp'" using F(2,4) by simp
        have "calm s s'" using calm_trans [OF calm_same F(1)] by (simp add: t)
        from doomed_hear [OF hi d calm_keys [OF this], of "[]"] show ?thesis by simp
      qed
    qed
  qed
qed

lemma cancel_map: "cancel c ec s = Inr t \<Longrightarrow> mRemoteMap t = mRemoteMap s"
  using quiet_cancel unfolding quiet_def by blast

lemma honest_error: "is_error (checkIo ec n k) \<Longrightarrow> is_error ec \<or> n = k \<Longrightarrow> is_error ec"
  by (auto simp: checkIo_def split: if_splits)

text \<open>A header, or an error, has arrived.\<close>

lemma header_hear:
  assumes inv: "sock_inv s ch sp Reading_Header" and hi: "hear_inv s Reading_Header input cl dl fs"
    and honest: "is_error ec \<or> length bs = 8" and run: "recv_received Reading_Header ec bs s = Inr (rp', s')"
  shows "hear_inv s' rp' (input @ bs) cl dl fs"
proof -
  have sinv: "sched_inv s ch" and sp: "send_phase s ch sp" and ph: "recv_phase s Reading_Header" using inv by (simp_all add: sock_inv_def)
  have idle: "\<not> mAnyRecvOp s" "mGetReq s = None" using recv_phase_idle [OF ph] by simp_all
  note D = hear_invD [OF hi]
  have st: "in_step s Reading_Header input cl dl fs" by (rule D(4)) (simp add: doomed_def)
  let ?h = "read_header bs"
  show ?thesis
  proof (cases "is_error (checkIo ec (length bs) 8)")
    case True
    then have "recv_continue None ec s = Inr (rp', s')" using run by simp
    from give_up_hear [OF hi sinv sp idle _ this] honest_error [OF True honest] show ?thesis by simp
  next
    case False
    then have hb: "header_bytes ?h = bs" using header_bytes_read checkIo_ok [OF False] by blast
    show ?thesis
    proof (cases "hSize ?h = 0")
      case True
      then have s': "s' = s" "rp' = Reading_Control ?h" using run False by (simp_all add: Let_def)
      have "in_step s (Reading_Control ?h) (input @ bs) cl dl fs" using st True hb by (simp add: in_step_def)
      then show ?thesis using hear_invI [OF D(1-3)] s' by simp
    next
      case ne: False
      then have g: "get_recv (hForkId ?h) s = Inr s'" "rp' = Await_Fork ?h" using run False by (auto simp: Let_def bindR_eq_Inr)
      from get_recv_inv [OF sinv sp idle, of ?h] g(1) have r: "sock_inv s' ch sp (Await_Fork ?h)"
        "if mRemoteMap s (hForkId ?h) = None \<or> is_error (mEC s) then is_error (mEC s')
        else mEC s' = mEC s \<and> mForks s' = mForks s \<and> mBufs s' = mBufs s \<and> mRemoteMap s' = mRemoteMap s \<and> mIdMap s' = mIdMap s
          \<and> (\<forall>x. map_option rop_sig (mRecvs s' x) = map_option rop_sig (mRecvs s x))" by auto
      note k = calm_keys [OF calm_quiet [OF quiet_get_recv [OF g(1)]]]
      show ?thesis
      proof (cases "mRemoteMap s (hForkId ?h) = None \<or> is_error (mEC s)")
        case True
        then have err: "is_error (mEC s')" using r(2) by simp
        have ph': "recv_phase s' (Await_Fork ?h)" using r(1) by (simp add: sock_inv_def)
        have req: "mGetReq s' = None" using recv_phaseD(2) [OF ph'] err by (cases "mGetReq s'") auto
        have "\<exists>e. mGetRes s' = Some (Inl e)"
          using g(1) True by (auto simp: get_recv_def bindR_eq_Inr emit_def split: if_splits dest!: cancel_map)
        then have "doomed s' (Await_Fork ?h)" using err req by (simp add: doomed_def)
        from doomed_hear [OF hi this k] show ?thesis by (simp add: g(2))
      next
        case known: False
        then have f: "mForks s' = mForks s" "mRemoteMap s' = mRemoteMap s"
          and sig: "\<And>x. map_option rop_sig (mRecvs s' x) = map_option rop_sig (mRecvs s x)" using r(2) by auto
        have "snd (rop_ids (the (mRecvs s' x))) = snd (rop_ids (the (mRecvs s x)))" for x
          using ids_of_sig [OF sig [of x]] by (metis map_option_is_None option.map_sel)
        then have "in_step s' (Await_Fork ?h) (input @ bs) cl dl fs"
          using st ne hb by (simp add: in_step_def f names_of_def fun_eq_iff buffers_of_def)
        then show ?thesis using D(1-3) g(2) by (intro hear_invI) (simp_all add: f heard_frames_def keyed_def)
      qed
    qed
  qed
qed


text \<open>An announcement has arrived.\<close>

lemma control_hear:
  assumes inv: "sock_inv s ch sp (Reading_Control h)" and hi: "hear_inv s (Reading_Control h) input cl dl fs"
    and honest: "is_error ec \<or> length bs = 16" and peer: "\<not> is_error (checkIo ec (length bs) 16) \<Longrightarrow> hForkId h \<noteq> NOT 0 \<Longrightarrow> mRemoteMap s (hForkId h) = None"
    and run: "recv_received (Reading_Control h) ec bs s = Inr (rp', s')"
  shows "\<exists>fs'. hear_inv s' rp' (input @ bs) cl dl fs'"
proof -
  let ?rp = "Reading_Control h" and ?n = "hForkId h" and ?sid = "getSessionID bs"
  have sinv: "sched_inv s ch" and sp: "send_phase s ch sp" and ph: "recv_phase s ?rp" using inv by (simp_all add: sock_inv_def)
  have idle: "\<not> mAnyRecvOp s" "mGetReq s = None" using recv_phase_idle [OF ph] by simp_all
  note D = hear_invD [OF hi]
  have st: "in_step s ?rp input cl dl fs" by (rule D(4)) (simp add: doomed_def)
  show ?thesis
  proof (cases "is_error (checkIo ec (length bs) 16)")
    case True
    then have "recv_continue None ec s = Inr (rp', s')" using run by simp
    from give_up_hear [OF hi sinv sp idle _ this] honest_error [OF True honest] show ?thesis by blast
  next
    case False
    have core: "core_ok s ch" "ids_ok s" using sinv by (simp_all add: sched_inv_simps)
    obtain e t where t: "initRemoteSocketFork ?n ?sid s = Inr (e, t)" "sock_inv t ch sp ?rp"
      using initRemote_inv [OF inv peer [OF False], of ?sid] by blast
    note f = initRemote_calm [OF core(1) t(1)]
    note k = calm_keys [OF f(1)]
    have tinv: "sched_inv t ch" "send_phase t ch sp" using t(2) by (simp_all add: sock_inv_def)
    have it: "\<not> mAnyRecvOp t" "mGetReq t = None" using idle f by simp_all
    have bd: "\<forall>c \<in> set cl. fst c < length (mForks t)" "\<forall>c \<in> set dl. fst c < length (mForks t)"
      using D(1,2) k(1) by fastforce+
    have kd: "keyed t dl = keyed s dl" using D(2) k(2) by (simp add: keyed_def)
    show ?thesis
    proof (cases "is_error e")
      case True
      then have c: "recv_continue None e t = Inr (rp', s')" using run False t(1) by simp
      have r: "any_recv None e t = Inr s'" "rp' = Await_Any" using c by (auto simp: recv_continue_def bindR_eq_Inr)
      have d: "doomed s' Await_Any" by (rule any_recv_error [OF tinv it _ r(1)]) (simp add: True)
      have "calm s s'" by (rule calm_trans [OF f(1) calm_quiet [OF quiet_any_recv_None [OF r(1)]]])
      from doomed_hear [OF hi d calm_keys [OF this]] show ?thesis using r(2) by blast
    next
      case ok: False
      then have s': "s' = t" "rp' = Reading_Header" using run False t(1) by simp_all
      let ?i = "local_target ?sid s" and ?b = "local_base ?sid s"
      from initRemote_cases [OF core(1), of ?n ?sid] t(1) ok have a: "?n \<noteq> NOT 0" "t = announced ?n ?sid s" "mRemoteMap s ?n = None"
        by (auto split: if_splits)
      have i: "?i < length (mForks ?b)" by (rule local_target_less [OF core(2)])
      have key: "sid_key (mSessionID (mForks ?b ! ?i)) = sid_key ?sid" using local_base_target [OF core(2), of ?sid] by (simp add: sid_eq_key)
      have tf: "length (mForks t) = length (mForks ?b)" "mSessionID (mForks t ! j) = mSessionID (mForks ?b ! j)"
        "mRecvOps (mForks t ! j) = mRecvOps (mForks ?b ! j)" "mRemoteMap t = (mRemoteMap s)(?n \<mapsto> ?i)" for j
        using i by (auto simp: a(2) announced_def Let_def set_fork_def nth_list_update local_base_fields)
      let ?k = "sid_key ?sid" and ?fs = "fs @ [Announce ?n (sid_key ?sid)]"
      have names: "names_of t = (names_of s)(?n \<mapsto> ?k)"
      proof
        fix x show "names_of t x = ((names_of s)(?n \<mapsto> ?k)) x"
        proof (cases "x = ?n")
          case True
          then show ?thesis by (simp add: names_of_def tf key)
        next
          case False
          then show ?thesis using k(2) ids_ok_remote [OF core(2)]
            by (cases "mRemoteMap s x") (auto simp: names_of_def tf(4))
        qed
      qed
      have nm: "name_frames Map.empty fs = names_of s" using st by (simp add: in_step_def)
      have bytes: "header_bytes h @ bs = frame_bytes (Announce ?n ?k)"
      proof -
        have "control_block (key_sid ?k) = control_block ?sid" by (simp add: control_block_def key_sid_def sid_key_def)
        moreover have "hSize h = 0" using st by (simp add: in_step_def)
        then have "h = \<lparr>hSize = 0, hForkId = ?n\<rparr>" by (cases h) simp
        ultimately show ?thesis using control_block_read [of bs] checkIo_ok [OF False] by (simp add: meta_message_def)
      qed
      have rc: "mRecvs t = mRecvs s" by (rule f(2))
      have q: "fork_calls j cl = fork_done j dl @ buffers_of t (qlist (mRecvOps (mForks t ! j)))" if "j < length (mForks t)" for j
      proof (cases "j < length (mForks s)")
        case True
        then have "mRecvOps (mForks t ! j) = mRecvOps (mForks s ! j)" by (auto simp: tf(3) local_base_def with_fork_def nth_append)
        then show ?thesis using st True by (simp add: in_step_def buffers_of_def rc)
      next
        case False
        then have "fork_calls j cl = []" "fork_done j dl = []" using D(1,2) by (auto simp: fork_calls_def fork_done_def filter_empty_conv)
        moreover have "qlist (mRecvOps (mForks t ! j)) = []"
          using False that by (auto simp: tf(1,3) local_base_def with_fork_def nth_append nat_queue_list split: if_splits)
        ultimately show ?thesis by (simp add: buffers_of_def)
      qed
      have "in_step t Reading_Header (input @ bs) cl dl ?fs"
        using st q bytes by (simp add: in_step_def name_frames_snoc nm names)
      moreover have "heard_frames t dl ?fs"
        using D(3) kd a(3) by (simp add: heard_frames_def read_frames_snoc fresh_frames_snoc nm names_of_def)
      ultimately have "hear_inv t Reading_Header (input @ bs) cl dl ?fs" by (rule hear_invI [OF bd, rotated])
      then show ?thesis using s' by blast
    qed
  qed
qed


text \<open>A body has arrived.\<close>

lemma fork_done_snoc: "fork_done j (dl @ [(i, d, x)]) = fork_done j dl @ (if j = i then [d] else [])"
  by (simp add: fork_done_def)

lemma body_bytes:
  assumes "length bs = unat (hSize h)" "hSize h \<noteq> 0"
  shows "header_bytes h @ bs = frame_bytes (Message (hForkId h) bs)" "valid_frame (Message (hForkId h) bs)"
proof -
  have "h = \<lparr>hSize = of_nat (length bs), hForkId = hForkId h\<rparr>" using assms(1) by (cases h) simp
  then show "header_bytes h @ bs = frame_bytes (Message (hForkId h) bs)" by simp
  have "unat (hSize h) < 2 ^ 32" using unsigned_less [of "hSize h"] by simp
  moreover have "unat (hSize h) \<noteq> 0" using assms(2) by (simp add: unat_eq_zero)
  ultimately show "valid_frame (Message (hForkId h) bs)" using assms(1) by auto
qed

lemma body_hear:
  assumes inv: "sock_inv s ch sp (Reading_Body h a)" and hi: "hear_inv s (Reading_Body h a) input cl dl fs"
    and honest: "is_error ec \<or> length bs = unat (hSize h)" and op: "mRecvs s a = Some op"
    and run: "recv_received (Reading_Body h a) ec bs s = Inr (rp', s')"
  shows "\<exists>fs'. hear_inv s' rp' (input @ bs) cl
    (dl @ (if is_error ec then [] else [(ro_Fork op, ro_Buffer op, buffer_bytes (ro_Buffer op) (unat (hSize h)) s')])) fs'"
proof -
  let ?rp = "Reading_Body h a" and ?n = "hForkId h"
  have sinv: "sched_inv s ch" and sp: "send_phase s ch sp" and ph: "recv_phase s ?rp" using inv by (simp_all add: sock_inv_def)
  have idle: "\<not> mAnyRecvOp s" "mGetReq s = None" using recv_phase_idle [OF ph] by simp_all
  have fr: "recv_front s ?n a" by (rule recv_phaseD(5) [OF ph refl])
  note D = hear_invD [OF hi]
  have st: "in_step s ?rp input cl dl fs" by (rule D(4)) (simp add: doomed_def)
  obtain b where b: "mBufs s (ro_Buffer op) = Some b" using recv_frontD [OF sinv fr] op by (metis option.inject)
  let ?t = "rebuf (ro_Buffer op) (fill_span bs b) (mExs s) s"
  have fill: "recv_op_fill a bs s = Inr ?t" using op b by (simp add: recv_op_fill_def rebuf_def)
  have c: "recv_continue (Some a) ec ?t = Inr (rp', s')" using run fill by simp
  have tinv: "sched_inv ?t ch" by (rule rebuf_inv [OF sinv op b]) (simp_all add: fill_span_def)
  have tp: "send_phase ?t ch sp" "\<not> mAnyRecvOp ?t" "mGetReq ?t = None" "recv_front ?t ?n a"
    using rebuf_phases(1) [OF sp] idle fr by simp_all
  note F = finish_body [OF tinv tp c]
  have calm: "calm s s'" using calm_trans [OF calm_same F(1)] by simp
  note k = calm_keys [OF calm]
  show ?thesis
  proof (cases "is_error ec")
    case True
    from doomed_hear [OF hi F(4) k] True F(2) show ?thesis by auto
  next
    case False
    then have len: "length bs = unat (hSize h)" using honest by simp
    let ?d = "ro_Buffer op" and ?fs = "fs @ [Message ?n bs]"
    obtain i q where i: "mRemoteMap s ?n = Some i" "i < length (mForks s)" "qlist (mRecvOps (mForks s ! i)) = a # q"
      using fr by (auto simp: recv_front_def)
    have rok: "recv_ok s" using sinv by (simp add: sched_inv_simps)
    have oi: "ro_Fork op = i" using rok i op unfolding recv_ok_def by (metis list.set_intros(1) option.inject)
    have got: "buffer_bytes ?d (unat (hSize h)) s' = bs"
      using F(3) len by (simp add: buffer_bytes_def fill_span_def)
    let ?dl = "dl @ [(i, ?d, bs)]"
    have bb: "header_bytes h @ bs = frame_bytes (Message ?n bs)" "valid_frame (Message ?n bs)"
      using body_bytes [OF len] st by (simp_all add: in_step_def)
    have nm: "name_frames Map.empty fs = names_of s" using st by (simp add: in_step_def)
    have bd: "\<forall>c \<in> set cl. fst c < length (mForks s')" "\<forall>c \<in> set ?dl. fst c < length (mForks s')"
      using D(1,2) k(1) i(2) by fastforce+
    have "keyed s' ?dl = keyed s dl @ [(sid_key (mSessionID (mForks s ! i)), bs)]" using D(2) k(2) i(2) by (simp add: keyed_def)
    then have hf: "heard_frames s' ?dl ?fs"
      using D(3) i(1) bb(2) by (simp add: heard_frames_def read_frames_snoc fresh_frames_snoc nm names_of_def)
    have input: "input @ bs = stream_bytes ?fs" using st bb(1) by (simp add: in_step_def)
    have call: "fork_calls j cl = fork_done j ?dl @ buffers_of s (if j = i then q else qlist (mRecvOps (mForks s ! j)))"
      if "j < length (mForks s)" for j
      using st that i(3) op by (auto simp: in_step_def fork_done_snoc buffers_of_def rop_ids_def)
    have "hear_inv s' Await_Any (input @ bs) cl ?dl ?fs"
    proof (cases "is_error (mEC s)")
      case True
      then have "doomed s' Await_Any" using F(4) by simp
      moreover have "prefix (fork_done j ?dl) (fork_calls j cl)" for j
      proof (cases "j < length (mForks s)")
        case True
        from call [OF this] show ?thesis by simp
      next
        case False
        then have "fork_done j ?dl = []" using D(2) i(2) by (auto simp: fork_done_def filter_empty_conv)
        then show ?thesis by simp
      qed
      ultimately show ?thesis using bd hf input unfolding hear_inv_def by simp
    next
      case ok: False
      then obtain i' op' q' where s': "mRemoteMap s ?n = Some i'" "qlist (mRecvOps (mForks s ! i')) = a # q'"
        "length (mForks s') = length (mForks s)" "mRecvs s' = (mRecvs s)(a := None)" "mRemoteMap s' = mRemoteMap s"
        "\<forall>j < length (mForks s). qlist (mRecvOps (mForks s' ! j)) = (if j = i' then q' else qlist (mRecvOps (mForks s ! j)))"
        "\<forall>j. mSessionID (mForks s' ! j) = mSessionID (mForks s ! j)"
        using F(5) False by auto
      have same: "i' = i" "q' = q" using s'(1,2) i(1,3) by simp_all
      have "a \<notin> set (if j = i then q else qlist (mRecvOps (mForks s ! j)))" if "j < length (mForks s)" for j
      proof (cases "j = i")
        case True
        have "distinct (qlist (mRecvOps (mForks s ! i)))" using rok i(2) by (simp add: recv_ok_def)
        then show ?thesis using True i(3) by simp
      next
        case False
        then show ?thesis using rok that op oi unfolding recv_ok_def by fastforce
      qed
      then have bq: "buffers_of s' (if j = i then q else qlist (mRecvOps (mForks s ! j)))
          = buffers_of s (if j = i then q else qlist (mRecvOps (mForks s ! j)))" if "j < length (mForks s)" for j
        using that by (intro buffers_cong) (auto simp: s'(4))
      have "fork_calls j cl = fork_done j ?dl @ buffers_of s' (qlist (mRecvOps (mForks s' ! j)))" if "j < length (mForks s')" for j
        using call [of j] bq [of j] s'(3,6) that same by (cases "j = i") simp_all
      then have "in_step s' Await_Any (input @ bs) cl ?dl ?fs"
        using input s'(5,7) by (simp add: in_step_def name_frames_snoc nm names_of_def fun_eq_iff)
      then show ?thesis by (rule hear_invI [OF bd hf])
    qed
    then show ?thesis using F(2) False got oi by auto
  qed
qed

section \<open>Every run\<close>

lemma received_hear:
  assumes inv: "sock_inv (wSched w) ch (wSend w) (wRecv w)" and hi: "hear_inv (wSched w) (wRecv w) input cl dl fs"
    and en: "enabled (Received ec bs) w" and hon: "honest_transport (Received ec bs) w" and run: "perform (Received ec bs) w = Inr w'"
  shows "\<exists>fs'. hear_inv (wSched w') (wRecv w') (input @ bs) cl (dl @ completed (Received ec bs) w w') fs'"
proof -
  have r: "recv_received (wRecv w) ec bs (wSched w) = Inr (wRecv w', wSched w')" using run by (auto simp: on_recv_def bindR_eq_Inr)
  have hn: "is_error ec \<or> length bs = recv_wanted (wRecv w)" using hon by simp
  consider "wRecv w = Reading_Header" | h where "wRecv w = Reading_Control h" | h a where "wRecv w = Reading_Body h a"
    using en by (cases "wRecv w") auto
  then show ?thesis
  proof cases
    case 1
    then show ?thesis using header_hear [of "wSched w" ch "wSend w" input cl dl fs ec bs] inv hi hn r by auto
  next
    case 2
    have "\<not> is_error (checkIo ec (length bs) 16) \<Longrightarrow> hForkId h \<noteq> NOT 0 \<Longrightarrow> mRemoteMap (wSched w) (hForkId h) = None" using en 2 by simp
    from control_hear [OF inv [unfolded 2] hi [unfolded 2] _ this r [unfolded 2]] hn 2 show ?thesis by simp
  next
    case 3
    have fr: "recv_front (wSched w) (hForkId h) a" using recv_phaseD(5) [of "wSched w" "wRecv w" h a] inv 3 by (simp add: sock_inv_def)
    have sinv: "sched_inv (wSched w) ch" using inv by (simp add: sock_inv_def)
    obtain op b where op: "mRecvs (wSched w) a = Some op" "mBufs (wSched w) (ro_Buffer op) = Some b"
      by (rule recv_frontD [OF sinv fr])
    have "is_error ec \<or> length bs = unat (hSize h)" using hn 3 by simp
    from body_hear [OF inv [unfolded 3] hi [unfolded 3] this op(1) r [unfolded 3]] obtain fs' where
      "hear_inv (wSched w') (wRecv w') (input @ bs) cl (dl @ (if is_error ec then []
         else [(ro_Fork op, ro_Buffer op, buffer_bytes (ro_Buffer op) (unat (hSize h)) (wSched w'))])) fs'" by blast
    moreover have "completed (Received ec bs) w w' = (if is_error ec then []
         else [(ro_Fork op, ro_Buffer op, buffer_bytes (ro_Buffer op) (unat (hSize h)) (wSched w'))])" using 3 op(1) by simp
    ultimately show ?thesis by (intro exI [of _ fs']) (simp only:)
  qed
qed

lemma hear_step:
  assumes ok: "world_ok w" and hi: "hear_inv (wSched w) (wRecv w) input cl dl fs"
    and en: "enabled x w" and hon: "honest_transport x w" and run: "perform x w = Inr w'"
  shows "\<exists>fs'. hear_inv (wSched w') (wRecv w') (input @ taken x) (cl @ called x w) (dl @ completed x w w') fs'"
proof -
  obtain ch where inv: "sock_inv (wSched w) ch (wSend w) (wRecv w)" and lv: "live (wSched w)" using ok by (auto simp: world_ok_def)
  consider (recv) sid d h tok where "x = Act_Recv sid d h tok" | (resumed) "x = Recv_Resumed" | (received) ec bs where "x = Received ec bs"
    | (other) "\<And>sid d h tok. x \<noteq> Act_Recv sid d h tok" "x \<noteq> Recv_Resumed" "\<And>ec bs. x \<noteq> Received ec bs"
    by (cases x) auto
  then show ?thesis
  proof cases
    case recv
    then obtain i where e: "local_fork sid (wSched w) i" "fresh_recv_buffer (wSched w) d" "Suc (recv_total (wSched w)) < 2 ^ 64" "tok \<noteq> Stop_Requested"
      using en by auto
    have r: "recv sid d h tok (wSched w) = Inr (wSched w')" "wRecv w' = wRecv w" using run recv by (auto simp: on_sched_def bindR_eq_Inr)
    from recv_hear [OF inv hi e r(1)] show ?thesis using getLocal_eq [OF e(1)] r(2) recv by (auto split: if_splits)
  next
    case resumed
    then have r: "recv_resumed (wRecv w) (wSched w) = Inr (wRecv w', wSched w')" using run by (auto simp: on_recv_def bindR_eq_Inr)
    from resumed_hear [OF inv lv hi _ r] en resumed show ?thesis by auto
  next
    case received
    from received_hear [OF inv hi en [unfolded received] hon [unfolded received] run [unfolded received]] received show ?thesis by simp
  next
    case other
    have e: "taken x = []" "called x w = []" "completed x w w' = []" using other by (cases x; simp)+
    have "ids_ok (wSched w)" using inv by (simp add: sock_inv_def sched_inv_simps)
    then have "hear_inv (wSched w') (wRecv w) input cl dl fs" using still_hear [OF hi] still_step [OF en run other] by blast
    then show ?thesis using still_step [OF en run other] e by auto
  qed
qed

lemma heard_inv: "heard sid w input cl dl \<Longrightarrow> world_ok w \<and> (\<exists>fs. hear_inv (wSched w) (wRecv w) input cl dl fs)"
proof (induction rule: heard.induct)
  case heard_init
  have "reachable sid (start_world sid)" using reachable_init [OF sched_init_inv(1), of sid] by (simp add: start_world_def)
  then have ok: "world_ok (start_world sid)" by (rule reachable_ok)
  have f: "mRemoteMap (fresh_sched sid) = (\<lambda>_. None)" "length (mForks (fresh_sched sid)) = 1" "qlist (mRecvOps (mForks (fresh_sched sid) ! 0)) = []"
    by (simp_all add: fresh_sched_def localized_def local_base_def Let_def set_fork_def with_fork_def local_target_def sched_empty_def nat_queue_list)
  have "hear_inv (fresh_sched sid) Await_Any [] [] [] []"
    by (rule hear_invI) (simp_all add: f heard_frames_def keyed_def in_step_def names_of_def fork_calls_def fork_done_def buffers_of_def fun_eq_iff)
  then show ?case using ok by (auto simp: start_world_def)
next
  case (heard_step w input cl dl x w')
  then have "world_ok w'" using step_ok by fastforce
  then show ?case using heard_step hear_step by blast
qed

end
