(* ===== verification/Sched_Settled.thy ===== *)
theory Sched_Settled
  imports Sched_Resumed Sched_Deliver
begin

text \<open>
  The balance of all runs of a socket: every coroutine that a user has suspended on it either waits in
  a pending operation or a flush token, or has been resumed, once. When both tasks have ended nobody
  waits, and a socket in error can always get there.
\<close>

section \<open>The steps of a run\<close>

text \<open>The coroutines that a call suspends, and those that it returns to be resumed at once.\<close>

fun asked :: "action \<Rightarrow> nat list" where
  "asked (Act_Send sid b cb tok) = [cb]"
| "asked (Act_Recv sid d h tok) = [h]"
| "asked (Act_Flush h) = [h]"
| "asked x = []"

definition direct :: "fault + coro option \<times> sched \<Rightarrow> nat list" where
  "direct r = (case r of Inr (Some (User h), s) \<Rightarrow> [h] | _ \<Rightarrow> [])"

fun at_once :: "action \<Rightarrow> world \<Rightarrow> nat list" where
  "at_once (Act_Send sid b cb tok) w = direct (send sid b cb tok (wSched w))"
| "at_once (Act_Flush h) w = direct (flush h (wSched w))"
| "at_once x w = []"

inductive attended :: "session_id \<Rightarrow> world \<Rightarrow> nat list \<Rightarrow> nat list \<Rightarrow> bool" for sid where
  attended_init: "attended sid (start_world sid) [] []"
| attended_step: "attended sid w calls atonce \<Longrightarrow> enabled x w \<Longrightarrow> perform x w = Inr w'
     \<Longrightarrow> attended sid w' (calls @ asked x) (atonce @ at_once x w)"

lemma fresh_ops:
  assumes "sock_inv s ch sp rp"
  shows "mSends s (mFreshPtr s) = None" "mRecvs s (mFreshPtr s) = None" "mTokens s (mFreshPtr s) = None" "finite_ops s"
proof -
  have ok: "send_ok s ch" "recv_ok s" "token_inv s" using assms by (simp_all add: sock_inv_def sched_inv_simps)
  have "mFreshPtr s \<notin> set ch" using ok(1) unfolding send_ok_def by blast
  then show "mSends s (mFreshPtr s) = None" using ok(1) unfolding send_ok_def by blast
  show "mRecvs s (mFreshPtr s) = None" by (rule recv_ok_fresh [OF ok(2)])
  show "mTokens s (mFreshPtr s) = None" using ok(3) unfolding token_inv_def by blast
  have "dom (mTokens s) \<subseteq> {..<mFreshPtr s}" using ok(3) unfolding token_inv_def by auto
  then show "finite_ops s" using ok(3) finite_subset unfolding finite_ops_def token_inv_def by blast
qed

lemma entered_balance:
  "entered k r s s' \<Longrightarrow> finite_ops s \<Longrightarrow> balance s' h + count_list (direct (Inr (r, s'))) h = balance s h + (if k = h then 1 else 0)"
  by (auto simp: entered_def adds_def even_step_def direct_def)

lemma even_send_transmitted: "send_transmitted sp ec n k s = Inr (pc, bs, s') \<Longrightarrow> even_step s s'"
  by (cases sp) (auto simp: send_continue_def send_header_def fault_simps dest: even_next_send split: if_splits)

lemma even_recv_resumed: "recv_resumed rp s = Inr (rp', s') \<Longrightarrow> even_step s s'"
proof -
  have span: "even_step s t" if "recv_op_asSpan a n s = Inr (k, t)" for a n k t
    using that by (auto simp: recv_op_asSpan_def bindR_eq_Inr resumed_def intro!: even_fields split: option.splits)
  assume "recv_resumed rp s = Inr (rp', s')"
  then show ?thesis
    by (cases rp) (auto simp: recv_continue_def bindR_eq_Inr dest!: span even_any_recv intro: even_trans
        split: option.splits sum.splits if_splits)
qed

lemma even_recv_received: "recv_received rp ec bs s = Inr (rp', s') \<Longrightarrow> even_step s s'"
proof -
  have fill: "even_step s t" if "recv_op_fill a xs s = Inr t" for a xs t
    using that by (auto simp: recv_op_fill_def bindR_eq_Inr resumed_def intro!: even_fields split: option.splits)
  assume "recv_received rp ec bs s = Inr (rp', s')"
  then show ?thesis
    by (cases rp) (auto simp: recv_continue_def bindR_eq_Inr Let_def dest!: balanced.frame_initRemote fill even_any_recv balanced.frame_get_recv intro: even_trans
        split: if_splits)
qed

lemma balance_step:
  assumes ok: "world_ok w" and en: "enabled x w" and run: "perform x w = Inr w'"
  shows "balance (wSched w') h + count_list (at_once x w) h = balance (wSched w) h + count_list (asked x) h"
proof -
  obtain ch where inv: "sock_inv (wSched w) ch (wSend w) (wRecv w)" using ok by (auto simp: world_ok_def)
  note F = fresh_ops [OF inv]
  have even: "balance (wSched w') h = balance (wSched w) h" if "even_step (wSched w) (wSched w')"
    using that F(4) by (simp add: even_step_def)
  show ?thesis
  proof (cases x)
    case (Act_Send sid b cb tok)
    then obtain r where r: "send sid b cb tok (wSched w) = Inr (r, wSched w')" using run by (auto simp: on_sched_def bindR_eq_Inr)
    have "entered cb r (wSched w) (wSched w')" by (rule send_entered [OF r _ F(1)]) (use en Act_Send in simp)
    from entered_balance [OF this F(4), of h] show ?thesis using r Act_Send by simp
  next
    case (Act_Recv sid d k tok)
    then have r: "recv sid d k tok (wSched w) = Inr (wSched w')" using run by (auto simp: on_sched_def bindR_eq_Inr)
    have "adds k (wSched w) (wSched w')" by (rule recv_entered [OF r _ F(2)]) (use en Act_Recv in simp)
    then show ?thesis using F(4) Act_Recv by (simp add: adds_def)
  next
    case (Act_Flush k)
    then obtain r where r: "flush k (wSched w) = Inr (r, wSched w')" using run by (auto simp: on_sched_def bindR_eq_Inr)
    from entered_balance [OF flush_entered [OF r F(3)] F(4), of h] show ?thesis using r Act_Flush by simp
  next
    case (Act_Buffer d b)
    have "even_step (wSched w) (wSched w')"
      using run Act_Buffer by (auto simp: on_sched_def with_buffer_def resumed_def intro!: even_fields)
    then show ?thesis using even Act_Buffer by simp
  next
    case Act_Close
    then show ?thesis using run even balanced.frame_close by (auto simp: on_sched_def bindR_eq_Inr)
  next
    case (Act_Fork sid)
    then show ?thesis using run even balanced.frame_fork by (auto simp: on_sched_def bindR_eq_Inr)
  next
    case (Act_Executor ex sid)
    then show ?thesis using run even balanced.frame_executor by (auto simp: on_sched_def bindR_eq_Inr)
  next
    case (Act_Stop_Send a)
    then show ?thesis using en run even balanced.frame_stop(1) by (auto simp: on_sched_def bindR_eq_Inr)
  next
    case (Act_Stop_Recv a)
    then show ?thesis using en run even balanced.frame_stop(2) by (auto simp: on_sched_def bindR_eq_Inr)
  next
    case Send_Resumed
    then show ?thesis using run even balanced.frame_send_resumed by (auto simp: on_send_def bindR_eq_Inr)
  next
    case (Transmitted ec n)
    then show ?thesis using run even even_send_transmitted by (auto simp: on_send_def bindR_eq_Inr)
  next
    case Recv_Resumed
    then show ?thesis using run even even_recv_resumed by (auto simp: on_recv_def bindR_eq_Inr)
  next
    case (Received ec bs)
    then show ?thesis using run even even_recv_received by (auto simp: on_recv_def bindR_eq_Inr)
  qed
qed

section \<open>The end of the receive task\<close>

text \<open>The receive task has ended, or has been told to.\<close>

definition recv_over :: "sched \<Rightarrow> recv_pc \<Rightarrow> bool" where
  "recv_over s rp \<longleftrightarrow> rp = Recv_Exit \<or> rp = Await_Any \<and> \<not> mAnyRecvOp s \<and> (\<exists>e. mAnyRes s = Some e \<and> is_error e)"

definition over_ok :: "sched \<Rightarrow> recv_pc \<Rightarrow> bool" where
  "over_ok s rp \<longleftrightarrow> (recv_over s rp \<longrightarrow> is_error (mEC s) \<and> mNumRecvs s = 0)"

lemma numRecvs_none:
  assumes "sock_inv s ch sp rp"
  shows "mNumRecvs s = 0 \<longleftrightarrow> (\<forall>a. mRecvs s a = None)"
proof
  have ok: "recv_ok s" "count_ok s" "recv_total s < 2 ^ 64" using assms by (simp_all add: sock_inv_def sched_inv_simps)
  have empty: "qlist (mRecvOps f) = [] \<longleftrightarrow> mSize (mRecvOps f) = 0" if f: "f \<in> set (mForks s)" for f
  proof -
    obtain j where "j < length (mForks s)" "f = mForks s ! j" using f by (auto simp: in_set_conv_nth)
    then have "qinv (mRecvOps f)" using ok(1) by (simp add: recv_ok_def)
    then have "unat (mSize (mRecvOps f)) = length (qlist (mRecvOps f))" by (simp add: qinv_simps)
    then show ?thesis by (metis length_0_conv unat_eq_zero)
  qed
  assume "mNumRecvs s = 0"
  then have "recv_total s = 0" using count_nonzero [OF ok(2,3)] by simp
  then have "\<forall>j < length (mForks s). qlist (mRecvOps (mForks s ! j)) = []" using empty nth_mem unat_eq_zero by (fastforce simp: recv_total_def)
  then show "\<forall>a. mRecvs s a = None" using no_recvs(1) [OF ok(1)] by blast
next
  have ok: "recv_ok s" "count_ok s" using assms by (simp_all add: sock_inv_def sched_inv_simps)
  assume "\<forall>a. mRecvs s a = None"
  then have "\<forall>j < length (mForks s). qlist (mRecvOps (mForks s ! j)) = []"
    using ok(1) unfolding recv_ok_def by (metis list.set_intros(1) neq_Nil_conv option.distinct(1))
  then show "mNumRecvs s = 0" using ok(2) no_recvs(2) [OF ok(1)] by (simp add: count_ok_def)
qed

lemma over_any_recv: "any_recv p ec s = Inr s' \<Longrightarrow> recv_over s' Await_Any \<Longrightarrow> mNumRecvs s' = 0"
proof -
  have none: "any_recv None ec s = Inr s' \<Longrightarrow> recv_over s' Await_Any \<Longrightarrow> mNumRecvs s' = 0" for ec s
    by (auto simp: any_recv_def cancel_def bindR_eq_Inr recv_over_def emit_def split: if_splits)
  assume run: "any_recv p ec s = Inr s'" and over: "recv_over s' Await_Any"
  show "mNumRecvs s' = 0"
  proof (cases p)
    case (Some a)
    then obtain e t where "any_recv None e t = Inr s'" using run by (auto simp: any_recv_split fault_simps)
    then show ?thesis using none over by blast
  qed (use run none over in simp)
qed

definition any_same :: "sched \<Rightarrow> sched \<Rightarrow> bool" where
  "any_same s s' \<longleftrightarrow> mAnyRecvOp s' = mAnyRecvOp s \<and> mAnyRes s' = mAnyRes s"

lemma over_setStatus: "recv_setStatus a st s = Inr s' \<Longrightarrow> any_same s s'"
  by (auto simp: recv_setStatus_def bindR_eq_Inr set_recv_def any_same_def)

lemma over_match:
  assumes run: "match_recv i a s = Inr s'"
  shows "any_same s s' \<or> mAnyRes s' = Some (make_error_code Success)"
proof -
  obtain f where f: "fork_at i s = Inr f" using run unfolding match_recv_def bindR_eq_Inr by blast
  note run = run [unfolded match_recv_def f bindR_Inr]
  obtain t where t: "(if mAnyRecvOp s then checkR (mRecvStatus s = Idle) Assertion
         (bindR (recv_setStatus a InProgress (s\<lparr>mRecvStatus := InUse\<rparr>)) (\<lambda>s.
          Inr (wake_any (make_error_code Success) (mExecutor f) s))) else Inr s) = Inr t"
    using run unfolding bindR_eq_Inr by blast
  note run = run [unfolded t bindR_Inr]
  have 1: "any_same s t \<or> mAnyRes t = Some (make_error_code Success)"
    using t by (auto simp: bindR_eq_Inr checkR_eq_Inr wake_any_def emit_def any_same_def split: if_splits)
  have "any_same t s'"
  proof (cases "mGetReq t = Some (mRemoteId f)")
    case True
    then obtain u where u: "recv_setStatus a InProgress (t\<lparr>mRecvStatus := InUse\<rparr>) = Inr u" "s' = wake_get (Inr a) (mExecutor f) u"
      using run by (auto simp: bindR_eq_Inr checkR_eq_Inr)
    show ?thesis using over_setStatus [OF u(1)] unfolding u(2) by (simp add: any_same_def wake_get_def emit_def)
  qed (use run in \<open>simp add: any_same_def\<close>)
  then show ?thesis using 1 by (auto simp: any_same_def)
qed

lemma over_recv:
  assumes run: "recv sid d h tok s = Inr s'" and tok: "tok \<noteq> Stop_Requested"
  shows "if is_error (mEC s) then any_same s s' \<and> mNumRecvs s' = mNumRecvs s \<and> mEC s' = mEC s
    else any_same s s' \<or> mAnyRes s' = Some (make_error_code Success)"
proof (cases "is_error (mEC s)")
  case True
  then show ?thesis using run by (auto simp: recv_def fault_simps emit_def any_same_def)
next
  case False
  then obtain i op a t u where t: "emplace_recv i op (s\<lparr>mNumRecvs := mNumRecvs s + 1\<rparr>) = Inr (a, t)"
    "match_recv i a t = Inr u" "setCancelation_recv tok a u = Inr s'"
    using run by (auto simp: recv_def fault_simps)
  have "any_same s t" using t(1) by (auto simp: emplace_recv_def bindR_eq_Inr set_recv_def set_fork_def any_same_def)
  moreover have "any_same u s'"
    using t(3) tok by (auto simp: setCancelation_recv_def bindR_eq_Inr Let_def set_recv_def any_same_def split: if_splits)
  ultimately show ?thesis using over_match [OF t(2)] False by (auto simp: any_same_def)
qed

text \<open>The steps of the receive task itself.\<close>

lemma over_continue:
  assumes run: "recv_continue p e u = Inr (rp, t)" and inv: "sock_inv t ch sp rp"
  shows "over_ok t rp"
proof -
  have a: "any_recv p e u = Inr t" "rp = Await_Any" using run by (auto simp: recv_continue_def bindR_eq_Inr)
  have "recv_phase t Await_Any" using inv a(2) by (simp add: sock_inv_def)
  from recv_phaseD(3) [OF this refl] show ?thesis
    using over_any_recv [OF a(1)] a(2) unfolding over_ok_def recv_over_def by fastforce
qed

lemma over_recv_resumed:
  assumes ok: "over_ok s rp" and inv': "sock_inv s' ch' sp rp'" and run: "recv_resumed rp s = Inr (rp', s')"
    and en: "rp = Await_Any \<and> \<not> mAnyRecvOp s \<or> (\<exists>h. rp = Await_Fork h \<and> mGetReq s = None)"
  shows "over_ok s' rp'"
proof -
  consider "rp = Await_Any" "\<not> mAnyRecvOp s" | h where "rp = Await_Fork h" using en by blast
  then show ?thesis
  proof cases
    case 1
    then obtain e where "mAnyRes s = Some e" "rp' = (if is_error e then Recv_Exit else Reading_Header)" "s' = s"
      using run by (auto split: option.splits)
    then show ?thesis using ok 1 by (auto simp: over_ok_def recv_over_def)
  next
    case 2
    then have "(\<exists>p e u. recv_continue p e u = Inr (rp', s')) \<or> (\<exists>a. rp' = Reading_Body h a)"
      using run by (auto simp: bindR_eq_Inr split: option.splits sum.splits if_splits)
    then show ?thesis
    proof (elim disjE exE)
      fix p e u assume "recv_continue p e u = Inr (rp', s')"
      then show ?thesis using over_continue inv' by blast
    qed (simp add: over_ok_def recv_over_def)
  qed
qed

lemma over_recv_received:
  assumes inv': "sock_inv s' ch' sp rp'" and run: "recv_received rp ec bs s = Inr (rp', s')"
  shows "over_ok s' rp'"
proof -
  have "(\<exists>p e u. recv_continue p e u = Inr (rp', s')) \<or> rp' \<noteq> Recv_Exit \<and> rp' \<noteq> Await_Any"
    using run by (cases rp) (auto simp: bindR_eq_Inr Let_def split: if_splits)
  then show ?thesis
  proof (elim disjE exE)
    fix p e u assume "recv_continue p e u = Inr (rp', s')"
    then show ?thesis using over_continue inv' by blast
  qed (simp add: over_ok_def recv_over_def)
qed

lemma over_step:
  assumes inv: "sock_inv (wSched w) ch (wSend w) (wRecv w)" and inv': "sock_inv (wSched w') ch' (wSend w') (wRecv w')"
    and ok: "over_ok (wSched w) (wRecv w)" and en: "enabled x w" and run: "perform x w = Inr w'"
  shows "over_ok (wSched w') (wRecv w')"
proof -
  consider (recv) sid d h tok where "x = Act_Recv sid d h tok" | (resumed) "x = Recv_Resumed" | (received) ec bs where "x = Received ec bs"
    | (other) "\<And>sid d h tok. x \<noteq> Act_Recv sid d h tok" "x \<noteq> Recv_Resumed" "\<And>ec bs. x \<noteq> Received ec bs"
    by (cases x) auto
  then show ?thesis
  proof cases
    case recv
    then have r: "recv sid d h tok (wSched w) = Inr (wSched w')" "wRecv w' = wRecv w" using run by (auto simp: on_sched_def bindR_eq_Inr)
    have "tok \<noteq> Stop_Requested" using en recv by simp
    from over_recv [OF r(1) this] show ?thesis
      using ok r(2) by (auto simp: over_ok_def recv_over_def any_same_def split: if_splits)
  next
    case resumed
    then have "recv_resumed (wRecv w) (wSched w) = Inr (wRecv w', wSched w')" using run by (auto simp: on_recv_def bindR_eq_Inr)
    from over_recv_resumed [OF ok inv' this] show ?thesis using en resumed by simp
  next
    case received
    then have "recv_received (wRecv w) ec bs (wSched w) = Inr (wRecv w', wSched w')" using run by (auto simp: on_recv_def bindR_eq_Inr)
    from over_recv_received [OF inv' this] show ?thesis .
  next
    case other
    from still_step [OF en run other] have st: "still (wSched w) (wSched w')" and rp: "wRecv w' = wRecv w" by simp_all
    have none: "(\<forall>a. mRecvs (wSched w) a = None) \<Longrightarrow> (\<forall>a. mRecvs (wSched w') a = None)"
      using st by (simp add: still_def)
    have "mNumRecvs (wSched w) = 0" if over: "recv_over (wSched w') (wRecv w')"
    proof (cases "recv_over (wSched w) (wRecv w)")
      case True
      then show ?thesis using ok by (simp add: over_ok_def)
    next
      case False
      then have "mAnyRecvOp (wSched w)" using over st rp by (auto simp: recv_over_def still_def)
      then show ?thesis using inv recv_phaseD(1) unfolding sock_inv_def by blast
    qed
    moreover have "is_error (mEC (wSched w'))" if over: "recv_over (wSched w') (wRecv w')"
    proof (cases "wRecv w' = Recv_Exit")
      case True
      then show ?thesis using ok rp st by (simp add: over_ok_def recv_over_def still_def)
    next
      case False
      then have a: "wRecv w' = Await_Any" "\<not> mAnyRecvOp (wSched w')" "\<exists>e. mAnyRes (wSched w') = Some e \<and> is_error e"
        using over by (auto simp: recv_over_def)
      then show ?thesis using inv' recv_phaseD(3) [of "wSched w'" Await_Any] by (auto simp: sock_inv_def)
    qed
    ultimately show ?thesis
      using none numRecvs_none [OF inv] numRecvs_none [OF inv'] unfolding over_ok_def by blast
  qed
qed

lemma attended_inv:
  "attended sid w calls atonce \<Longrightarrow> world_ok w \<and> over_ok (wSched w) (wRecv w)
     \<and> (\<forall>h. balance (wSched w) h + count_list atonce h = count_list calls h)"
proof (induction rule: attended.induct)
  case attended_init
  have "reachable sid (start_world sid)" using reachable_init [OF sched_init_inv(1), of sid] by (simp add: start_world_def)
  then have ok: "world_ok (start_world sid)" by (rule reachable_ok)
  have f: "mSends (fresh_sched sid) = (\<lambda>_. None)" "mRecvs (fresh_sched sid) = (\<lambda>_. None)" "mTokens (fresh_sched sid) = (\<lambda>_. None)"
    "mAnyRecvOp (fresh_sched sid)" "resumed (fresh_sched sid) h = 0" for h
    by (simp_all add: fresh_sched_def localized_def local_base_def Let_def set_fork_def with_fork_def resumed_def)
  show ?case using ok f by (simp add: start_world_def over_ok_def recv_over_def balance_def waiting_for_def)
next
  case (attended_step w calls atonce x w')
  then have ok': "world_ok w'" using step_ok by fastforce
  obtain ch ch' where "sock_inv (wSched w) ch (wSend w) (wRecv w)" "sock_inv (wSched w') ch' (wSend w') (wRecv w')"
    using attended_step ok' by (auto simp: world_ok_def)
  then have "over_ok (wSched w') (wRecv w')" using over_step attended_step by blast
  moreover have "balance (wSched w') h + count_list (atonce @ at_once x w) h = count_list (calls @ asked x) h" for h
  proof -
    have "balance (wSched w) h + count_list atonce h = count_list calls h" using attended_step by blast
    moreover have "balance (wSched w') h + count_list (at_once x w) h = balance (wSched w) h + count_list (asked x) h"
      using balance_step attended_step by blast
    ultimately show ?thesis by simp
  qed
  ultimately show ?case using ok' by blast
qed

text \<open>Nobody waits when both tasks have ended.\<close>

lemma nobody_waits:
  assumes inv: "sock_inv s ch Send_Exit Recv_Exit" and ok: "over_ok s Recv_Exit"
  shows "waiting_for s h = 0"
proof -
  have "head_opt ch = None" using inv by (auto simp: sock_inv_def send_phase_def active_op_def)
  then have "ch = []" by (simp add: head_opt_None)
  then have 1: "mSends s a = None" for a using inv by (auto simp: sock_inv_def sched_inv_simps send_ok_def)
  have "mNumRecvs s = 0" using ok by (simp add: over_ok_def recv_over_def)
  then have 2: "mRecvs s a = None" for a using numRecvs_none [OF inv] by blast
  have 3: "mTokens s t = None" for t
  proof -
    have "token_ok (mTokens s t) (token_refs s t)" using inv by (simp add: sock_inv_def sched_inv_simps token_inv_def)
    then show ?thesis using 1 2 by (auto simp: token_ok_def token_refs_def refs_def split: option.splits)
  qed
  show ?thesis using 1 2 3 by (simp add: waiting_for_def holders_def)
qed

section \<open>Winding up\<close>

text \<open>Steps of the tasks with a transport that fails every transfer with the code \<open>e\<close>.\<close>

definition task_action :: "error_code \<Rightarrow> action \<Rightarrow> bool" where
  "task_action e x \<longleftrightarrow> x \<in> {Send_Resumed, Transmitted e 0, Recv_Resumed, Received e []}"

inductive wound_up :: "error_code \<Rightarrow> world \<Rightarrow> world \<Rightarrow> bool" for e where
  wound_refl: "wound_up e w w"
| wound_step: "task_action e x \<Longrightarrow> enabled x w \<Longrightarrow> perform x w = Inr w1 \<Longrightarrow> wound_up e w1 w' \<Longrightarrow> wound_up e w w'"

lemma wound_trans: "wound_up e w w1 \<Longrightarrow> wound_up e w1 w2 \<Longrightarrow> wound_up e w w2"
  by (induction rule: wound_up.induct) (auto intro: wound_up.intros)

lemma wound_one: "task_action e x \<Longrightarrow> enabled x w \<Longrightarrow> perform x w = Inr w1 \<Longrightarrow> wound_up e w w1"
  by (rule wound_step [OF _ _ _ wound_refl])

text \<open>The send side of a socket in error.\<close>

lemma send_ends:
  assumes inv: "sock_inv (wSched w) [] Await_Next (wRecv w)" and sp: "wSend w = Await_Next" and err: "is_error (mEC (wSched w))"
  shows "\<exists>w'. wound_up e w w' \<and> wSend w' = Send_Exit \<and> wRecv w' = wRecv w \<and> is_error (mEC (wSched w'))
    \<and> sock_inv (wSched w') [] (wSend w') (wRecv w')"
proof -
  have idle: "\<not> mNextSendOp (wSched w)" using inv err by (auto simp: sock_inv_def send_phase_def)
  have r: "send_resumed (wSched w) = Inr (Send_Exit, [], wSched w) \<and> sock_inv (wSched w) [] Send_Exit (wRecv w)"
    using send_resumed_ok [OF inv idle] by auto
  then have "perform Send_Resumed w = Inr (w\<lparr>wSend := Send_Exit, wSending := []\<rparr>)" by (simp add: on_send_def)
  moreover have "enabled Send_Resumed w" using sp idle by simp
  ultimately have "wound_up e w (w\<lparr>wSend := Send_Exit, wSending := []\<rparr>)" by (intro wound_one [of e Send_Resumed]) (simp_all add: task_action_def)
  then show ?thesis using r err by (intro exI [of _ "w\<lparr>wSend := Send_Exit, wSending := []\<rparr>"]) simp
qed

lemma busy_ends:
  assumes inv: "sock_inv (wSched w) (a # r) (wSend w) (wRecv w)" and busy: "busy_op (wSend w) = Some a" and e: "is_error e"
  shows "\<exists>w'. wound_up e w w' \<and> wSend w' = Send_Exit \<and> wRecv w' = wRecv w \<and> is_error (mEC (wSched w'))
    \<and> sock_inv (wSched w') [] (wSend w') (wRecv w')"
proof -
  obtain op where op: "mSends (wSched w) a = Some op" by (rule sends_okD [OF inv, of a]) auto
  have io: "is_error (checkIo e 0 n)" for n using e by (simp add: checkIo_def)
  obtain s' where s': "send_transmitted (wSend w) e 0 (length (wSending w)) (wSched w) = Inr (Await_Next, [], s')"
    "next_send (Some a) e (wSched w) = Inr s'" "sock_inv s' [] Await_Next (wRecv w)"
    using send_transmitted_ok [OF inv busy op, of e 0 "length (wSending w)"] e io by (auto simp: checkIo_def)
  let ?w = "w\<lparr>wBytesSent := wBytesSent w + of_nat 0, wSched := s', wSend := Await_Next, wSending := []\<rparr>"
  have err: "is_error (mEC s')" using next_send_inv [OF inv busy, of e] s'(2) e by auto
  have "perform (Transmitted e 0) w = Inr ?w" using s'(1) by (simp add: on_send_def)
  moreover have "enabled (Transmitted e 0) w" using busy by simp
  ultimately have 1: "wound_up e w ?w" by (intro wound_one [of e "Transmitted e 0"]) (simp_all add: task_action_def)
  obtain w' where "wound_up e ?w w'" "wSend w' = Send_Exit" "wRecv w' = wRecv w" "is_error (mEC (wSched w'))"
    "sock_inv (wSched w') [] (wSend w') (wRecv w')"
    using send_ends [of ?w e] s'(3) err by auto
  then show ?thesis using wound_trans [OF 1] by blast
qed

lemma send_winds_up:
  assumes inv: "sock_inv (wSched w) ch (wSend w) (wRecv w)" and err: "is_error (mEC (wSched w))" and e: "is_error e"
  shows "\<exists>w'. wound_up e w w' \<and> wSend w' = Send_Exit \<and> wRecv w' = wRecv w \<and> is_error (mEC (wSched w'))
    \<and> sock_inv (wSched w') [] (wSend w') (wRecv w')"
proof -
  consider "wSend w = Send_Exit" | a where "busy_op (wSend w) = Some a" | "wSend w = Await_Next" by (cases "wSend w") auto
  then show ?thesis
  proof cases
    case 1
    then have "head_opt ch = None" using inv by (auto simp: sock_inv_def send_phase_def active_op_def)
    then have "ch = []" by (simp add: head_opt_None)
    then show ?thesis using inv err 1 wound_refl by (intro exI [of _ w]) simp
  next
    case 2
    then show ?thesis using busy_chain [OF inv 2] busy_ends inv e by blast
  next
    case 3
    then have inv3: "sock_inv (wSched w) ch Await_Next (wRecv w)" using inv by simp
    have idle: "\<not> mNextSendOp (wSched w)" using inv err by (auto simp: sock_inv_def send_phase_def)
    show ?thesis
    proof (cases ch)
      case Nil
      then show ?thesis using send_ends inv3 3 err by blast
    next
      case (Cons a r)
      have "\<exists>w1. perform Send_Resumed w = Inr w1 \<and> busy_op (wSend w1) = Some a \<and> wRecv w1 = wRecv w
          \<and> sock_inv (wSched w1) (a # r) (wSend w1) (wRecv w1)"
        using send_resumed_ok [OF inv3 idle] Cons by (auto simp: on_send_def Let_def split: if_splits)
      then obtain w1 where w1: "perform Send_Resumed w = Inr w1" "busy_op (wSend w1) = Some a" "wRecv w1 = wRecv w"
        "sock_inv (wSched w1) (a # r) (wSend w1) (wRecv w1)" by blast
      have "wound_up e w w1" by (rule wound_one [OF _ _ w1(1)]) (use 3 idle in \<open>simp_all add: task_action_def\<close>)
      then show ?thesis using busy_ends [OF w1(4,2) e] w1(3) wound_trans by metis
    qed
  qed
qed

text \<open>The receive side of a socket in error.\<close>

lemma doomed_ends:
  assumes d: "doomed (wSched w) Await_Any" and rp: "wRecv w = Await_Any"
  shows "wound_up e w (w\<lparr>wRecv := Recv_Exit\<rparr>)"
proof (rule wound_one [of e Recv_Resumed])
  show "enabled Recv_Resumed w" using d rp by (auto simp: doomed_def)
  show "perform Recv_Resumed w = Inr (w\<lparr>wRecv := Recv_Exit\<rparr>)" using d rp by (auto simp: doomed_def on_recv_def)
qed (simp add: task_action_def)

lemma fill_nothing: "mRecvs s a = Some op \<Longrightarrow> mBufs s (ro_Buffer op) = Some b \<Longrightarrow> recv_op_fill a [] s = Inr s"
  by (simp add: recv_op_fill_def fill_span_def map_upd_triv)

lemma reading_ends:
  assumes inv: "sock_inv (wSched w) ch (wSend w) (wRecv w)" and e: "is_error e"
    and rp: "wRecv w = Reading_Header \<or> (\<exists>h. wRecv w = Reading_Control h) \<or> (\<exists>h a. wRecv w = Reading_Body h a)"
  shows "\<exists>w'. wound_up e w w' \<and> wRecv w' = Recv_Exit \<and> wSend w' = wSend w"
proof -
  have sinv: "sched_inv (wSched w) ch" and sp: "send_phase (wSched w) ch (wSend w)" and ph: "recv_phase (wSched w) (wRecv w)"
    using inv by (simp_all add: sock_inv_def)
  have idle: "\<not> mAnyRecvOp (wSched w)" "mGetReq (wSched w) = None" using recv_phase_idle [OF ph] rp by auto
  have io: "is_error (checkIo e 0 n)" for n using e by (simp add: checkIo_def)
  have "\<exists>s'. recv_received (wRecv w) e [] (wSched w) = Inr (Await_Any, s') \<and> doomed s' Await_Any"
  proof (cases "\<exists>h a. wRecv w = Reading_Body h a")
    case True
    then obtain h a where pc: "wRecv w = Reading_Body h a" by blast
    have fr: "recv_front (wSched w) (hForkId h) a" using recv_phaseD(5) [OF ph pc] .
    obtain op b where "mRecvs (wSched w) a = Some op" "mBufs (wSched w) (ro_Buffer op) = Some b" by (rule recv_frontD [OF sinv fr])
    then have fill: "recv_op_fill a [] (wSched w) = Inr (wSched w)" by (rule fill_nothing)
    obtain s' where s': "any_recv (Some a) e (wSched w) = Inr s'" using any_recv_Some_inv [OF sinv sp idle fr] by blast
    then have "recv_continue (Some a) e (wSched w) = Inr (Await_Any, s')" by (simp add: recv_continue_def)
    then show ?thesis using finish_body(4) [OF sinv sp idle fr, of e Await_Any s'] e fill pc by simp
  next
    case False
    obtain s' where s': "any_recv None e (wSched w) = Inr s'" using any_recv_None_inv [OF sinv sp idle] by blast
    have "doomed s' Await_Any" by (rule any_recv_error [OF sinv sp idle _ s']) (simp add: e)
    then show ?thesis using s' rp False io by (auto simp: recv_continue_def)
  qed
  then obtain s' where s': "recv_received (wRecv w) e [] (wSched w) = Inr (Await_Any, s')" "doomed s' Await_Any" by blast
  let ?w = "w\<lparr>wBytesReceived := wBytesReceived w + of_nat 0, wSched := s', wRecv := Await_Any\<rparr>"
  have "wound_up e w ?w"
  proof (rule wound_one [of e "Received e []"])
    show "enabled (Received e []) w" using rp io by auto
    show "perform (Received e []) w = Inr ?w" using s'(1) by (simp add: on_recv_def)
  qed (simp add: task_action_def)
  then have "wound_up e w (?w\<lparr>wRecv := Recv_Exit\<rparr>)" by (rule wound_trans [OF _ doomed_ends]) (simp_all add: s'(2))
  then show ?thesis by (intro exI [of _ "?w\<lparr>wRecv := Recv_Exit\<rparr>"]) simp
qed

lemma any_ends:
  assumes inv: "sock_inv (wSched w) ch (wSend w) (wRecv w)" and err: "is_error (mEC (wSched w))" and e: "is_error e"
    and rp: "wRecv w = Await_Any"
  shows "\<exists>w'. wound_up e w w' \<and> wRecv w' = Recv_Exit \<and> wSend w' = wSend w"
proof -
  have ph: "recv_phase (wSched w) Await_Any" using inv rp by (simp add: sock_inv_def)
  have idle: "\<not> mAnyRecvOp (wSched w)" using recv_phaseD(1) [OF ph] err by blast
  obtain r where r: "mAnyRes (wSched w) = Some r" using recv_phaseD(3) [OF ph refl idle] by blast
  show ?thesis
  proof (cases "is_error r")
    case True
    then have "doomed (wSched w) Await_Any" using err idle r by (simp add: doomed_def)
    then show ?thesis using doomed_ends rp by (intro exI [of _ "w\<lparr>wRecv := Recv_Exit\<rparr>"]) simp
  next
    case False
    let ?w = "w\<lparr>wRecv := Reading_Header\<rparr>"
    have "recv_phase (wSched w) Reading_Header" using recv_phase_idle(2) [OF ph] by (intro recv_phase_pc [OF ph idle]) simp_all
    then have "sock_inv (wSched ?w) ch (wSend ?w) (wRecv ?w)" using inv by (simp add: sock_inv_def)
    from reading_ends [OF this e] obtain w' where w': "wound_up e ?w w'" "wRecv w' = Recv_Exit" "wSend w' = wSend w" by auto
    have "wound_up e w ?w"
      by (rule wound_one [of e Recv_Resumed]) (use rp idle r False in \<open>simp_all add: task_action_def on_recv_def\<close>)
    then show ?thesis using wound_trans w' by blast
  qed
qed

lemma recv_winds_up:
  assumes inv: "sock_inv (wSched w) ch (wSend w) (wRecv w)" and lv: "live (wSched w)" and err: "is_error (mEC (wSched w))" and e: "is_error e"
  shows "\<exists>w'. wound_up e w w' \<and> wRecv w' = Recv_Exit \<and> wSend w' = wSend w"
proof -
  consider "wRecv w = Recv_Exit" | "wRecv w = Await_Any" | h where "wRecv w = Await_Fork h"
    | "wRecv w = Reading_Header \<or> (\<exists>h. wRecv w = Reading_Control h) \<or> (\<exists>h a. wRecv w = Reading_Body h a)"
    by (cases "wRecv w") auto
  then show ?thesis
  proof cases
    case 1
    then show ?thesis using wound_refl by blast
  next
    case 2
    then show ?thesis by (rule any_ends [OF inv err e])
  next
    case (3 h)
    have ph: "recv_phase (wSched w) (wRecv w)" using inv by (simp add: sock_inv_def)
    have none: "mGetReq (wSched w) = None" using recv_phaseD(2) [OF ph] err by (cases "mGetReq (wSched w)") auto
    obtain rp' s' where r: "recv_resumed (wRecv w) (wSched w) = Inr (rp', s')" "sock_inv s' ch (wSend w) rp'" "calm (wSched w) s'"
      using recv_resumed_ok [OF inv lv] 3 none by blast
    let ?w = "w\<lparr>wSched := s', wRecv := rp'\<rparr>"
    have "enabled Recv_Resumed w" using 3 none by simp
    moreover have "perform Recv_Resumed w = Inr ?w" using r(1) by (simp add: on_recv_def)
    ultimately have 1: "wound_up e w ?w" by (intro wound_one [of e Recv_Resumed]) (simp_all add: task_action_def)
    have inv': "sock_inv (wSched ?w) ch (wSend ?w) (wRecv ?w)" and err': "is_error (mEC (wSched ?w))"
      using r(2,3) err by (simp_all add: calm_def)
    have "rp' = Await_Any \<or> (\<exists>a. rp' = Reading_Body h a)"
      using r(1) 3 by (auto simp: recv_continue_def bindR_eq_Inr split: option.splits sum.splits if_splits)
    then have "\<exists>w'. wound_up e ?w w' \<and> wRecv w' = Recv_Exit \<and> wSend w' = wSend ?w"
      using any_ends [OF inv' err' e] reading_ends [OF inv' e] by auto
    then show ?thesis using wound_trans [OF 1] by auto
  next
    case 4
    then show ?thesis by (rule reading_ends [OF inv e])
  qed
qed

lemma error_stays:
  assumes ok: "world_ok w" and en: "enabled x w" and run: "perform x w = Inr w'" and err: "is_error (mEC (wSched w))"
  shows "is_error (mEC (wSched w'))"
proof -
  obtain ch where inv: "sock_inv (wSched w) ch (wSend w) (wRecv w)" and lv: "live (wSched w)" using ok by (auto simp: world_ok_def)
  consider (recv) sid d h tok where "x = Act_Recv sid d h tok" | (resumed) "x = Recv_Resumed" | (received) ec bs where "x = Received ec bs"
    | (other) "\<And>sid d h tok. x \<noteq> Act_Recv sid d h tok" "x \<noteq> Recv_Resumed" "\<And>ec bs. x \<noteq> Received ec bs"
    by (cases x) auto
  then show ?thesis
  proof cases
    case recv
    then have r: "recv sid d h tok (wSched w) = Inr (wSched w')" using run by (auto simp: on_sched_def bindR_eq_Inr)
    have "tok \<noteq> Stop_Requested" using en recv by simp
    from over_recv [OF r this] show ?thesis using err by simp
  next
    case other
    then show ?thesis using still_step [OF en run other] err by (simp add: still_def)
  next
    case resumed
    then show ?thesis using other_step [OF inv lv en run] err by (auto simp: calm_def)
  next
    case received
    then show ?thesis using other_step [OF inv lv en run] err by (auto simp: calm_def)
  qed
qed

lemma wound_attended: "wound_up e w w' \<Longrightarrow> attended sid w calls atonce \<Longrightarrow> attended sid w' calls atonce"
proof (induction rule: wound_up.induct)
  case (wound_step x w w1 w')
  have "asked x = []" "at_once x w = []" using wound_step(1) by (auto simp: task_action_def)
  then show ?case using wound_step(5) attended_step [OF wound_step(6,2,3)] by simp
qed

lemma winds_up:
  assumes ok: "world_ok w" and err: "is_error (mEC (wSched w))" and e: "is_error e"
  shows "\<exists>w'. wound_up e w w' \<and> wSend w' = Send_Exit \<and> wRecv w' = Recv_Exit"
proof -
  obtain ch where inv: "sock_inv (wSched w) ch (wSend w) (wRecv w)" and lv: "live (wSched w)" using ok by (auto simp: world_ok_def)
  obtain w1 where w1: "wound_up e w w1" "wRecv w1 = Recv_Exit" "wSend w1 = wSend w" using recv_winds_up [OF inv lv err e] by blast
  have keep: "world_ok w1 \<and> is_error (mEC (wSched w1))"
    using w1(1) ok err
  proof (induction rule: wound_up.induct)
    case (wound_step x w w1 w')
    have "world_ok w1" using step_ok [OF wound_step(6,2)] wound_step(3) by fastforce
    moreover have "is_error (mEC (wSched w1))" using error_stays [OF wound_step(6,2,3,7)] .
    ultimately show ?case using wound_step by blast
  qed simp
  then obtain ch' where "sock_inv (wSched w1) ch' (wSend w1) (wRecv w1)" by (auto simp: world_ok_def)
  from send_winds_up [OF this _ e] keep obtain w2 where "wound_up e w1 w2" "wSend w2 = Send_Exit" "wRecv w2 = wRecv w1" by blast
  then show ?thesis using wound_trans [OF w1(1)] w1(2) by auto
qed


lemma demo_attended: "attended demo_sid demo_sent [10] []"
proof -
  let ?x = "Act_Send demo_sid (demo_send_buffer None) 10 No_Stop" and ?w = "start_world demo_sid"
  have "local_fork demo_sid (fresh_sched demo_sid) 0" unfolding local_fork_def by code_simp
  then have en: "enabled ?x ?w" by (auto simp: start_world_def fresh_buffer_def demo_send_buffer_def)
  have run: "perform ?x ?w = Inr demo_sent" using demo_sent_facts(1) unfolding demo_sent_def by (metis sum.collapse(2))
  have "direct (send demo_sid (demo_send_buffer None) 10 No_Stop (fresh_sched demo_sid)) = []" by code_simp
  then have "at_once ?x ?w = []" by (simp add: start_world_def)
  then show ?thesis using attended_step [OF attended_init en run] by simp
qed


end
