(* ===== verification/Sched_Promises.thy ===== *)
theory Sched_Promises
  imports Sched_Settled
begin

text \<open>
  What happens to the exception cells of the users' awaiters: an operation that has a cell stays pending
  until its error is put in the cell or its transfer has completed, and only its own operation ever
  writes to a cell.
\<close>

section \<open>Promises\<close>

text \<open>The cell of a send (\<^term>\<open>Inl a\<close>) or a receive (\<^term>\<open>Inr a\<close>) that is pending.\<close>

fun cell_of :: "sched \<Rightarrow> nat + nat \<Rightarrow> nat option" where
  "cell_of s (Inl a) = Option.bind (mSends s a) (\<lambda>op. sb_ex (so_Buffer op))"
| "cell_of s (Inr a) = Option.bind (mRecvs s a) (\<lambda>op. Option.bind (mBufs s (ro_Buffer op)) rb_ex)"

definition owed :: "sched \<Rightarrow> nat \<Rightarrow> bool" where
  "owed s p \<longleftrightarrow> (\<exists>x. cell_of s x = Some p)"

text \<open>
  A step settles promises when operations are only removed, with an error in their cells, and no other
  cell changes.
\<close>

definition settles :: "sched \<Rightarrow> sched \<Rightarrow> bool" where
  "settles s s' \<longleftrightarrow> (\<forall>x. cell_of s' x = cell_of s x \<or> cell_of s' x = None)
     \<and> (\<forall>p. mExs s' p \<noteq> mExs s p \<longrightarrow> mExs s' p \<noteq> None \<and> (\<exists>x. cell_of s x = Some p \<and> cell_of s' x = None))
     \<and> (\<forall>x p. cell_of s x = Some p \<longrightarrow> cell_of s' x = None \<longrightarrow> mExs s' p \<noteq> None)"

lemma settlesI:
  assumes "\<And>x. cell_of s' x = cell_of s x \<or> cell_of s' x = None"
    and "\<And>p. mExs s' p \<noteq> mExs s p \<Longrightarrow> mExs s' p \<noteq> None \<and> (\<exists>x. cell_of s x = Some p \<and> cell_of s' x = None)"
    and "\<And>x p. cell_of s x = Some p \<Longrightarrow> cell_of s' x = None \<Longrightarrow> mExs s' p \<noteq> None"
  shows "settles s s'"
  unfolding settles_def using assms by blast

lemma settlesD:
  assumes "settles s s'"
  shows "cell_of s' x = cell_of s x \<or> cell_of s' x = None"
    and "mExs s' p \<noteq> mExs s p \<Longrightarrow> mExs s' p \<noteq> None \<and> (\<exists>x. cell_of s x = Some p \<and> cell_of s' x = None)"
    and "cell_of s x = Some p \<Longrightarrow> cell_of s' x = None \<Longrightarrow> mExs s' p \<noteq> None"
  using assms unfolding settles_def by simp_all

lemma settles_cells: "cell_of s' = cell_of s \<Longrightarrow> mExs s' = mExs s \<Longrightarrow> settles s s'"
  by (rule settlesI) simp_all

lemma settles_trans [trans]:
  assumes "settles s t" and "settles t u"
  shows "settles s u"
proof -
  note 1 = settlesD(1) [OF assms(1)] settlesD(1) [OF assms(2)]
  note 2 = settlesD(2) [OF assms(1)] settlesD(2) [OF assms(2)]
  note 3 = settlesD(3) [OF assms(1)] settlesD(3) [OF assms(2)]
  show ?thesis
  proof (rule settlesI)
    show "cell_of u x = cell_of s x \<or> cell_of u x = None" for x using 1 [of x] by auto
    show "mExs u p \<noteq> None \<and> (\<exists>x. cell_of s x = Some p \<and> cell_of u x = None)" if ne: "mExs u p \<noteq> mExs s p" for p
    proof (cases "mExs u p = mExs t p")
      case True
      then have "mExs t p \<noteq> mExs s p" using ne by simp
      from 2(1) [OF this] obtain x where "mExs t p \<noteq> None" "cell_of s x = Some p" "cell_of t x = None" by blast
      then show ?thesis using True 1(2) [of x] by auto
    next
      case False
      from 2(2) [OF this] obtain x where x: "mExs u p \<noteq> None" "cell_of t x = Some p" "cell_of u x = None" by blast
      then have "cell_of s x = Some p" using 1(1) [of x] by auto
      then show ?thesis using x by blast
    qed
    show "mExs u p \<noteq> None" if x: "cell_of s x = Some p" "cell_of u x = None" for x p
    proof (cases "cell_of t x")
      case None
      then show ?thesis using 3(1) [OF x(1)] 2(2) [of p] by (cases "mExs u p = mExs t p") auto
    next
      case (Some q)
      then have "q = p" using 1(1) [of x] x(1) by simp
      then show ?thesis using 3(2) Some x(2) by blast
    qed
  qed
qed

lemma settles_same:
  assumes "mSends s' = mSends s" "mRecvs s' = mRecvs s" "mBufs s' = mBufs s" "mExs s' = mExs s"
  shows "settles s s'"
proof (rule settles_cells [OF ext assms(4)])
  show "cell_of s' x = cell_of s x" for x by (cases x) (simp_all add: assms)
qed

text \<open>Telling the cell of an operation and removing it.\<close>

lemma settles_drop:
  assumes "cell_of s' = (cell_of s)(x := None)"
    and "case cell_of s x of None \<Rightarrow> mExs s' = mExs s | Some p \<Rightarrow> \<exists>e. mExs s' = (mExs s)(p \<mapsto> e)"
  shows "settles s s'"
proof (rule settlesI)
  show "cell_of s' y = cell_of s y \<or> cell_of s' y = None" for y by (simp add: assms(1))
  show "mExs s' p \<noteq> None \<and> (\<exists>y. cell_of s y = Some p \<and> cell_of s' y = None)" if "mExs s' p \<noteq> mExs s p" for p
  proof -
    have "cell_of s x = Some p" "mExs s' p \<noteq> None" using assms(2) that by (auto split: option.splits if_splits)
    then show ?thesis by (auto simp: assms(1))
  qed
  show "mExs s' p \<noteq> None" if "cell_of s y = Some p" "cell_of s' y = None" for y p
    using assms that by (auto split: if_splits)
qed

lemma cell_of_drop:
  "mSends s' = (mSends s)(a := None) \<Longrightarrow> mRecvs s' = mRecvs s \<Longrightarrow> mBufs s' = mBufs s \<Longrightarrow> cell_of s' = (cell_of s)(Inl a := None)"
  "mRecvs s' = (mRecvs s)(a := None) \<Longrightarrow> mSends s' = mSends s \<Longrightarrow> mBufs s' = mBufs s \<Longrightarrow> cell_of s' = (cell_of s)(Inr a := None)"
proof -
  show "cell_of s' = (cell_of s)(Inl a := None)" if "mSends s' = (mSends s)(a := None)" "mRecvs s' = mRecvs s" "mBufs s' = mBufs s"
  proof
    show "cell_of s' x = ((cell_of s)(Inl a := None)) x" for x by (cases x) (simp_all add: that)
  qed
  show "cell_of s' = (cell_of s)(Inr a := None)" if "mRecvs s' = (mRecvs s)(a := None)" "mSends s' = mSends s" "mBufs s' = mBufs s"
  proof
    show "cell_of s' x = ((cell_of s)(Inr a := None)) x" for x by (cases x) (simp_all add: that)
  qed
qed

text \<open>What \<^verbatim>\<open>setError\<close> does to the cells.\<close>

definition tells :: "nat option \<Rightarrow> exn_store \<Rightarrow> exn_store \<Rightarrow> bool" where
  "tells r ex ex' \<longleftrightarrow> (case r of None \<Rightarrow> ex' = ex | Some p \<Rightarrow> \<exists>e. ex' = ex(p \<mapsto> e))"

lemma setError_tells:
  "send_setError b ec ex = Inr ex' \<Longrightarrow> tells (sb_ex b) ex ex'" "tells (rb_ex r) ex (recv_setError r ec ex)"
  by (auto simp: send_setError_def recv_setError_def tells_def checkR_eq_Inr split: option.splits)

section \<open>Removing operations\<close>

lemma pop_form:
  "pop_front_send i s = Inr s' \<Longrightarrow> queue_front (mSendOps (mForks s ! i)) = Inr a \<Longrightarrow>
     mSends s' = (mSends s)(a := None) \<and> mRecvs s' = mRecvs s \<and> mBufs s' = mBufs s \<and> mExs s' = mExs s"
  "pop_front_recv i s = Inr s' \<Longrightarrow> queue_front (mRecvOps (mForks s ! i)) = Inr b \<Longrightarrow>
     mRecvs s' = (mRecvs s)(b := None) \<and> mSends s' = mSends s \<and> mBufs s' = mBufs s \<and> mExs s' = mExs s"
  by (auto simp: pop_front_send_def pop_front_recv_def fault_simps fork_at_Inr set_fork_def)

lemma abort_send_form:
  assumes run: "abort_send ec a s = Inr (nx, s')"
  shows "\<exists>op. mSends s a = Some op \<and> mSends s' = (mSends s)(a := None) \<and> mRecvs s' = mRecvs s \<and> mBufs s' = mBufs s
    \<and> tells (sb_ex (so_Buffer op)) (mExs s) (mExs s')"
proof -
  obtain op where op: "deref (mSends s) a = Inr op" using run unfolding abort_send_def bindR_eq_Inr by blast
  note run = run [unfolded abort_send_def op bindR_Inr checkR_eq_Inr]
  obtain f where f: "fork_at (so_Fork op) s = Inr f" using run unfolding bindR_eq_Inr by blast
  note run = run [unfolded f bindR_Inr]
  have fr: "queue_front (mSendOps f) = Inr a" using run unfolding bindR_eq_Inr checkR_eq_Inr by blast
  note run = run [unfolded fr bindR_Inr checkR_eq_Inr]
  obtain s1 where 1: "send_op_setError a ec s = Inr s1" using run unfolding bindR_eq_Inr by blast
  note run = run [unfolded 1 bindR_Inr]
  obtain s2 where 2: "completeOn_send a s1 = Inr s2" using run unfolding bindR_eq_Inr by blast
  note run = run [unfolded 2 bindR_Inr]
  obtain op' where op': "deref (mSends s2) a = Inr op'" using run unfolding bindR_eq_Inr by blast
  have 3: "pop_front_send (so_Fork op') s2 = Inr s'" using run [unfolded op' bindR_Inr] unfolding bindR_eq_Inr by auto
  obtain ex where ex: "send_setError (so_Buffer op) ec (mExs s) = Inr ex" "s1 = s\<lparr>mExs := ex\<rparr>"
    using 1 op by (auto simp: send_op_setError_def bindR_eq_Inr)
  have m: "mForks s2 = mForks s" "so_Fork op' = so_Fork op" "mSends s2 = (mSends s)(a \<mapsto> op')" "mRecvs s2 = mRecvs s"
    "mBufs s2 = mBufs s" "mExs s2 = ex"
    using op op' ex(2) completeOn_send_frame [OF 2] by (auto split: option.splits)
  have "queue_front (mSendOps (mForks s2 ! so_Fork op')) = Inr a" using f fr m(1,2) by (auto simp: fork_at_Inr)
  from pop_form(1) [OF 3 this] show ?thesis using m op setError_tells(1) [OF ex(1)] by (auto split: option.splits)
qed

lemma abort_recv_form:
  assumes "abort_recv ec i s = Inr s'"
  shows "\<exists>a op b. mRecvs s a = Some op \<and> mBufs s (ro_Buffer op) = Some b \<and> mRecvs s' = (mRecvs s)(a := None) \<and> mSends s' = mSends s
    \<and> mBufs s' = mBufs s \<and> tells (rb_ex b) (mExs s) (mExs s')"
proof -
  obtain f a s1 s2 where f: "fork_at i s = Inr f" "queue_front (mRecvOps f) = Inr a"
    and 1: "recv_op_setError a ec s = Inr s1" and 2: "completeOn_recv a s1 = Inr s2" and 3: "pop_front_recv i s2 = Inr s'"
    using assms unfolding abort_recv_def bindR_eq_Inr by blast
  obtain op b where o: "mRecvs s a = Some op" "mBufs s (ro_Buffer op) = Some b" "s1 = s\<lparr>mExs := recv_setError b ec (mExs s)\<rparr>"
    using 1 by (auto simp: recv_op_setError_def bindR_eq_Inr split: option.splits)
  obtain op' where m: "mForks s2 = mForks s" "mRecvs s2 = (mRecvs s)(a \<mapsto> op')" "mSends s2 = mSends s" "mBufs s2 = mBufs s"
    "mExs s2 = recv_setError b ec (mExs s)"
    using o(3) completeOn_recv_frame [OF 2] by auto
  have "queue_front (mRecvOps (mForks s2 ! i)) = Inr a" using f m(1) by (auto simp: fork_at_Inr)
  from pop_form(2) [OF 3 this] show ?thesis using m o setError_tells(2) [of b "mExs s" ec] by auto
qed

text \<open>So this is a frame as well.\<close>

lemma settles_abort_send: "abort_send ec a s = Inr (nx, s') \<Longrightarrow> settles s s'"
  using abort_send_form [of ec a s nx s'] cell_of_drop(1) [of s' s a]
  by (auto intro!: settles_drop [of s' s "Inl a"] simp: tells_def split: option.splits)

lemma settles_abort_recv: "abort_recv ec i s = Inr s' \<Longrightarrow> settles s s'"
proof -
  assume "abort_recv ec i s = Inr s'"
  then obtain a op b where "mRecvs s a = Some op" "mBufs s (ro_Buffer op) = Some b" "mRecvs s' = (mRecvs s)(a := None)"
    "mSends s' = mSends s" "mBufs s' = mBufs s" "tells (rb_ex b) (mExs s) (mExs s')"
    using abort_recv_form by blast
  then show "settles s s'"
    by (intro settles_drop [OF cell_of_drop(2) [of s' s a]]) (auto simp: tells_def split: option.splits)
qed

lemma cell_of_set:
  "mSends s a = Some op \<Longrightarrow> so_Buffer op' = so_Buffer op \<Longrightarrow> cell_of (set_send a op' s) = cell_of s"
  "mRecvs s a = Some rop \<Longrightarrow> ro_Buffer rop' = ro_Buffer rop \<Longrightarrow> cell_of (set_recv a rop' s) = cell_of s"
proof -
  show "cell_of (set_send a op' s) = cell_of s" if "mSends s a = Some op" "so_Buffer op' = so_Buffer op"
  proof
    show "cell_of (set_send a op' s) x = cell_of s x" for x by (cases x) (simp_all add: that set_send_def)
  qed
  show "cell_of (set_recv a rop' s) = cell_of s" if "mRecvs s a = Some rop" "ro_Buffer rop' = ro_Buffer rop"
  proof
    show "cell_of (set_recv a rop' s) x = cell_of s x" for x by (cases x) (simp_all add: that set_recv_def)
  qed
qed

interpretation settled: step_frame settles
proof unfold_locales
  fix s s' :: sched and a tk :: nat and op op' :: send_op and rop rop' :: recv_op
  show "mSends s a = Some op \<Longrightarrow> so_CH op' = so_CH op \<Longrightarrow> so_Buffer op' = so_Buffer op \<Longrightarrow> settles s (set_send a op' s)"
    by (rule settles_cells [OF cell_of_set(1)]) (simp_all add: set_send_def)
  show "mRecvs s a = Some rop \<Longrightarrow> ro_CH rop' = ro_CH rop \<Longrightarrow> ro_Buffer rop' = ro_Buffer rop \<Longrightarrow> settles s (set_recv a rop' s)"
    by (rule settles_cells [OF cell_of_set(2)]) (simp_all add: set_recv_def)
  show "mSends s' = mSends s \<Longrightarrow> mRecvs s' = mRecvs s \<Longrightarrow> mBufs s' = mBufs s \<Longrightarrow> mExs s' = mExs s \<Longrightarrow> settles s s'"
    by (rule settles_same)
  show "share_token tk s = Inr s' \<Longrightarrow> settles s s'" by (auto simp: share_token_def bindR_eq_Inr intro!: settles_same)
qed (use settles_trans settles_abort_send settles_abort_recv in blast)+

section \<open>Completing an operation\<close>

text \<open>The transfer of an operation is complete: it goes without an error.\<close>

definition completes :: "nat + nat \<Rightarrow> sched \<Rightarrow> sched \<Rightarrow> bool" where
  "completes x s s' \<longleftrightarrow> (\<exists>t. cell_of t = (cell_of s)(x := None) \<and> mExs t = mExs s \<and> settles t s')"

lemma setNext_None: "send_setNext a None s = Inr s' \<Longrightarrow> mSends s a = Some op \<Longrightarrow> s' = set_send a (op\<lparr>so_Next := None\<rparr>) s"
  by (simp add: send_setNext_def Let_def)

lemma complete_prev_send_form:
  assumes run: "complete_prev_send a ec s = Inr (e, t)"
  shows "\<exists>op. mSends s a = Some op \<and> mSends t = (mSends s)(a := None) \<and> mRecvs t = mRecvs s \<and> mBufs t = mBufs s
    \<and> (if is_error ec then tells (sb_ex (so_Buffer op)) (mExs s) (mExs t) else mExs t = mExs s)"
proof -
  obtain e1 s1 where 1: "(if is_error ec then bindR (send_op_setError a ec s) (\<lambda>s. Inr (make_error_code Cancel, s)) else Inr (ec, s)) = Inr (e1, s1)"
    using run unfolding complete_prev_send_def bindR_eq_Inr by fast
  note run = run [unfolded complete_prev_send_def 1 bindR_Inr prod.case]
  obtain s2 where 2: "completeOn_send a s1 = Inr s2" using run unfolding bindR_eq_Inr by blast
  note run = run [unfolded 2 bindR_Inr]
  obtain op where op: "deref (mSends s2) a = Inr op" using run unfolding bindR_eq_Inr by blast
  note run = run [unfolded op bindR_Inr Let_def]
  obtain s3 where 3: "send_setNext a None s2 = Inr s3" using run unfolding bindR_eq_Inr by blast
  note run = run [unfolded 3 bindR_Inr]
  obtain f where f: "fork_at (so_Fork op) s3 = Inr f" using run unfolding bindR_eq_Inr by blast
  have fr: "queue_front (mSendOps f) = Inr a" using run [unfolded f bindR_Inr] unfolding bindR_eq_Inr checkR_eq_Inr by blast
  let ?u = "if so_Next op = None then s3\<lparr>mSendBegin := so_Next op, mSendLast := None\<rparr> else s3\<lparr>mSendBegin := so_Next op\<rparr>"
  have 4: "pop_front_send (so_Fork op) ?u = Inr t"
    using run [unfolded f bindR_Inr] unfolding bindR_eq_Inr checkR_eq_Inr by auto
  have op2: "mSends s2 a = Some op" using op by (simp split: option.splits)
  note s3 = setNext_None [OF 3 op2]
  obtain op1 where m: "mSends s1 a = Some op1" "so_Buffer op = so_Buffer op1" "mSends s2 = (mSends s1)(a \<mapsto> op)" "mRecvs s2 = mRecvs s1"
    "mBufs s2 = mBufs s1" "mExs s2 = mExs s1"
    using completeOn_send_frame [OF 2] op2 by auto
  have e: "mSends s1 = mSends s \<and> mRecvs s1 = mRecvs s \<and> mBufs s1 = mBufs s
      \<and> (if is_error ec then tells (sb_ex (so_Buffer op1)) (mExs s) (mExs s1) else mExs s1 = mExs s)"
  proof (cases "is_error ec")
    case True
    then have "send_op_setError a ec s = Inr s1" using 1 by (auto simp: bindR_eq_Inr)
    then obtain op0 ex where "mSends s a = Some op0" "send_setError (so_Buffer op0) ec (mExs s) = Inr ex" "s1 = s\<lparr>mExs := ex\<rparr>"
      by (auto simp: send_op_setError_def bindR_eq_Inr split: option.splits)
    then show ?thesis using True m(1) setError_tells(1) by auto
  qed (use 1 in auto)
  have "queue_front (mSendOps (mForks ?u ! so_Fork op)) = Inr a" using f fr by (auto simp: fork_at_Inr)
  from pop_form(1) [OF 4 this] show ?thesis using m e by (auto simp: s3 set_send_def)
qed

lemma next_send_settles:
  assumes "next_send (Some a) ec s = Inr s'"
  shows "if is_error ec then settles s s' else completes (Inl a) s s'"
proof -
  obtain e t where t: "complete_prev_send a ec s = Inr (e, t)" "next_send None e t = Inr s'"
    using assms by (auto simp: next_send_Some fault_simps)
  have st: "settles t s'" by (rule settled.frame_next_None [OF t(2)])
  obtain op where op: "mSends s a = Some op" "mSends t = (mSends s)(a := None)" "mRecvs t = mRecvs s" "mBufs t = mBufs s"
    "if is_error ec then tells (sb_ex (so_Buffer op)) (mExs s) (mExs t) else mExs t = mExs s"
    using complete_prev_send_form [OF t(1)] by blast
  note c = cell_of_drop(1) [OF op(2-4)]
  show ?thesis
  proof (cases "is_error ec")
    case True
    then have "settles s t" using op(1,5) by (intro settles_drop [OF c]) (auto simp: tells_def split: option.splits)
    then show ?thesis using True st settles_trans by simp
  next
    case False
    then show ?thesis using c op(5) st unfolding completes_def by auto
  qed
qed

lemma complete_prev_recv_form:
  assumes run: "complete_prev_recv a ec s = Inr (e, t)"
  shows "mRecvs t = (mRecvs s)(a := None) \<and> mSends t = mSends s \<and> mBufs t = mBufs s
    \<and> (if is_error ec then tells (cell_of s (Inr a)) (mExs s) (mExs t) else mExs t = mExs s)"
proof -
  let ?s = "s\<lparr>mRecvSrc := True\<rparr>"
  obtain op where op: "deref (mRecvs ?s) a = Inr op" using run unfolding complete_prev_recv_def Let_def bindR_eq_Inr by blast
  note run = run [unfolded complete_prev_recv_def Let_def op bindR_Inr]
  obtain f where f: "fork_at (ro_Fork op) ?s = Inr f" using run unfolding bindR_eq_Inr by blast
  note run = run [unfolded f bindR_Inr checkR_eq_Inr]
  have fr: "queue_front (mRecvOps f) = Inr a" using run unfolding bindR_eq_Inr checkR_eq_Inr by blast
  note run = run [unfolded fr bindR_Inr checkR_eq_Inr]
  obtain e1 s1 where 1: "(if is_error ec then bindR (recv_op_setError a ec ?s) (\<lambda>s. Inr (make_error_code Cancel, s)) else Inr (ec, ?s)) = Inr (e1, s1)"
    using run unfolding bindR_eq_Inr by fast
  note run = run [unfolded 1 bindR_Inr prod.case]
  obtain s2 where 2: "completeOn_recv a s1 = Inr s2" using run unfolding bindR_eq_Inr by blast
  obtain s3 where 3: "pop_front_recv (ro_Fork op) s2 = Inr s3" "t = s3\<lparr>mNumRecvs := mNumRecvs s3 - 1\<rparr>"
    using run [unfolded 2 bindR_Inr] unfolding bindR_eq_Inr by auto
  have e: "mForks s1 = mForks s \<and> mSends s1 = mSends s \<and> mRecvs s1 = mRecvs s \<and> mBufs s1 = mBufs s
      \<and> (if is_error ec then tells (cell_of s (Inr a)) (mExs s) (mExs s1) else mExs s1 = mExs s)"
  proof (cases "is_error ec")
    case True
    then have "recv_op_setError a ec ?s = Inr s1" using 1 by (auto simp: bindR_eq_Inr)
    then obtain op0 b where "mRecvs s a = Some op0" "mBufs s (ro_Buffer op0) = Some b" "s1 = ?s\<lparr>mExs := recv_setError b ec (mExs s)\<rparr>"
      by (auto simp: recv_op_setError_def bindR_eq_Inr split: option.splits)
    then show ?thesis using True setError_tells(2) [of b "mExs s" ec] by simp
  qed (use 1 in auto)
  obtain op' where m: "mForks s2 = mForks s1" "mRecvs s2 = (mRecvs s1)(a \<mapsto> op')" "mSends s2 = mSends s1" "mBufs s2 = mBufs s1" "mExs s2 = mExs s1"
    using completeOn_recv_frame [OF 2] by auto
  have "queue_front (mRecvOps (mForks s2 ! ro_Fork op)) = Inr a" using f fr m(1) e by (auto simp: fork_at_Inr)
  from pop_form(2) [OF 3(1) this] show ?thesis using m e 3(2) by (simp del: cell_of.simps)
qed

lemma any_recv_settles:
  assumes "any_recv (Some a) ec s = Inr s'"
  shows "if is_error ec then settles s s' else completes (Inr a) s s'"
proof -
  obtain e t where t: "complete_prev_recv a ec s = Inr (e, t)" "any_recv None e t = Inr s'"
    using assms by (auto simp: any_recv_split fault_simps)
  have st: "settles t s'" by (rule settled.frame_any_None [OF t(2)])
  have f: "mRecvs t = (mRecvs s)(a := None)" "mSends t = mSends s" "mBufs t = mBufs s"
    "if is_error ec then tells (cell_of s (Inr a)) (mExs s) (mExs t) else mExs t = mExs s"
    using complete_prev_recv_form [OF t(1)] by blast+
  note c = cell_of_drop(2) [OF f(1-3)]
  show ?thesis
  proof (cases "is_error ec")
    case True
    then have "settles s t" using f(4) by (intro settles_drop [OF c]) (simp add: tells_def)
    then show ?thesis using True st settles_trans by simp
  next
    case False
    then show ?thesis using c f(4) st unfolding completes_def by auto
  qed
qed

section \<open>The calls of the users\<close>

text \<open>A call with the cell \<open>r\<close> adds an operation that reports to it, or is refused, with an error in the cell.\<close>

definition asks :: "nat option \<Rightarrow> sched \<Rightarrow> sched \<Rightarrow> bool" where
  "asks r s s' \<longleftrightarrow> (\<exists>x t. cell_of s x = None \<and> cell_of t = (cell_of s)(x := r) \<and> mExs t = mExs s \<and> settles t s')
     \<or> cell_of s' = cell_of s \<and> tells r (mExs s) (mExs s')"

lemma cell_of_same:
  assumes "mSends s' = mSends s" "mRecvs s' = mRecvs s" "mBufs s' = mBufs s"
  shows "cell_of s' = cell_of s"
proof
  show "cell_of s' x = cell_of s x" for x by (cases x) (simp_all add: assms)
qed

lemma emplace_cells:
  "emplace_send i op s = Inr (a, s') \<Longrightarrow> cell_of s' = (cell_of s)(Inl (mFreshPtr s) := sb_ex (so_Buffer op)) \<and> mExs s' = mExs s"
  "emplace_recv i rop s = Inr (a, s') \<Longrightarrow> cell_of s' = (cell_of s)(Inr (mFreshPtr s) := Option.bind (mBufs s (ro_Buffer rop)) rb_ex) \<and> mExs s' = mExs s"
proof -
  assume "emplace_send i op s = Inr (a, s')"
  then have f: "mSends s' = (mSends s)(mFreshPtr s \<mapsto> op)" "mRecvs s' = mRecvs s" "mBufs s' = mBufs s" "mExs s' = mExs s"
    by (auto simp: emplace_send_def fault_simps fork_at_Inr set_send_def set_fork_def)
  have "cell_of s' x = ((cell_of s)(Inl (mFreshPtr s) := sb_ex (so_Buffer op))) x" for x by (cases x) (simp_all add: f(1-3))
  then show "cell_of s' = (cell_of s)(Inl (mFreshPtr s) := sb_ex (so_Buffer op)) \<and> mExs s' = mExs s" using f(4) by blast
next
  assume "emplace_recv i rop s = Inr (a, s')"
  then have f: "mRecvs s' = (mRecvs s)(mFreshPtr s \<mapsto> rop)" "mSends s' = mSends s" "mBufs s' = mBufs s" "mExs s' = mExs s"
    by (auto simp: emplace_recv_def fault_simps fork_at_Inr set_recv_def set_fork_def)
  have "cell_of s' x = ((cell_of s)(Inr (mFreshPtr s) := Option.bind (mBufs s (ro_Buffer rop)) rb_ex)) x" for x by (cases x) (simp_all add: f(1-3))
  then show "cell_of s' = (cell_of s)(Inr (mFreshPtr s) := Option.bind (mBufs s (ro_Buffer rop)) rb_ex) \<and> mExs s' = mExs s"
    using f(4) by blast
qed

lemma send_asks:
  assumes run: "send sid b cb tok s = Inr (r, s')" and tok: "tok \<noteq> Stop_Requested" and fr: "mSends s (mFreshPtr s) = None"
  shows "asks (sb_ex b) s s'"
proof (cases "sb_data b = [] \<or> is_error (mEC s)")
  case True
  then obtain ex u where ex: "send_setError b u (mExs s) = Inr ex" and s': "mSends s' = mSends s" "mRecvs s' = mRecvs s" "mBufs s' = mBufs s" "mExs s' = ex"
    using run by (auto simp: send_def fault_simps emit_def split: if_splits)
  show ?thesis using cell_of_same [OF s'(1-3)] setError_tells(1) [OF ex] s'(4) unfolding asks_def by blast
next
  case False
  then obtain i a t u where t: "emplace_send i (new_send_op i cb b) s = Inr (a, t)" "enqueue_send a t = Inr u"
    "setCancelation_send tok a u = Inr s'"
    using run by (auto simp: send_def fault_simps)
  have "settles t s'" using settled.frame_enqueue [OF t(2)] settled.frame_token(1) [OF t(3) tok] settles_trans by blast
  moreover have "cell_of t = (cell_of s)(Inl (mFreshPtr s) := sb_ex b)" "mExs t = mExs s" "cell_of s (Inl (mFreshPtr s)) = None"
    using emplace_cells(1) [OF t(1)] fr by (simp_all add: new_send_op_def)
  ultimately show ?thesis unfolding asks_def by blast
qed

lemma recv_asks:
  assumes run: "recv sid d k tok s = Inr s'" and tok: "tok \<noteq> Stop_Requested" and fr: "mRecvs s (mFreshPtr s) = None"
  shows "asks (Option.bind (mBufs s d) rb_ex) s s'"
proof (cases "is_error (mEC s)")
  case True
  then obtain b where b: "mBufs s d = Some b"
    and s': "mSends s' = mSends s" "mRecvs s' = mRecvs s" "mBufs s' = mBufs s" "mExs s' = recv_setError b (mEC s) (mExs s)"
    using run by (auto simp: recv_def fault_simps emit_def split: option.splits)
  show ?thesis using cell_of_same [OF s'(1-3)] setError_tells(2) [of b "mExs s"] s'(4) b unfolding asks_def by simp
next
  case False
  let ?s = "s\<lparr>mNumRecvs := mNumRecvs s + 1\<rparr>"
  obtain i a t u where t: "emplace_recv i (new_recv_op d k i) ?s = Inr (a, t)"
    "match_recv i a t = Inr u" "setCancelation_recv tok a u = Inr s'"
    using run False by (auto simp: recv_def fault_simps)
  have "settles t s'" using settled.frame_match [OF t(2)] settled.frame_token(2) [OF t(3) tok] settles_trans by blast
  moreover have "cell_of ?s = cell_of s" by (rule cell_of_same) simp_all
  then have "cell_of t = (cell_of s)(Inr (mFreshPtr s) := Option.bind (mBufs s d) rb_ex)" "mExs t = mExs s" "cell_of s (Inr (mFreshPtr s)) = None"
    using emplace_cells(2) [OF t(1)] fr by (simp_all add: new_recv_op_def)
  ultimately show ?thesis unfolding asks_def by blast
qed

lemma settles_flush: "flush h s = Inr (r, s') \<Longrightarrow> settles s s'"
proof -
  assume a: "flush h s = Inr (r, s')"
  show "settles s s'"
  proof (cases "mNumRecvs s = 0 \<and> mSendBegin s = None")
    case True
    then show ?thesis using a settled.frame_refl by (simp add: flush_def)
  next
    case False
    let ?t = "mFreshPtr s"
    let ?u = "s\<lparr>mFreshPtr := ?t + 1, mTokens := (mTokens s)(?t \<mapsto> \<lparr>ft_Handle = Some h, ft_Uses = 1\<rparr>)\<rparr>"
    obtain v where v: "flush_forks (length (mForks s)) 0 ?t ?u = Inr v" "release_flushes [?t] v = Inr s'"
      using a False by (auto simp: flush_def bindR_eq_Inr Let_def)
    have "settles s ?u" by (rule settles_same) simp_all
    also have "settles ?u v" by (rule settled.frame_flush_forks [OF v(1)])
    also have "settles v s'" using release_flushes_frame [OF v(2)] by (auto intro: settles_same)
    finally show ?thesis .
  qed
qed

section \<open>The promises of a run\<close>

text \<open>
  Every cell belongs to one operation and is empty while that is pending. Of the cells \<open>C\<close> that
  were asked for, those in \<open>D\<close> belong to completed transfers.
\<close>

definition tidy :: "sched \<Rightarrow> bool" where
  "tidy s \<longleftrightarrow> (\<forall>x p. cell_of s x = Some p \<longrightarrow> mExs s p = None \<and> (\<forall>y. cell_of s y = Some p \<longrightarrow> y = x))"

definition promises_ok :: "nat set \<Rightarrow> nat set \<Rightarrow> sched \<Rightarrow> bool" where
  "promises_ok C D s \<longleftrightarrow> tidy s \<and> (\<forall>p \<in> C. owed s p \<or> mExs s p \<noteq> None \<or> p \<in> D) \<and> (\<forall>p \<in> D. \<not> owed s p \<and> mExs s p = None)"

lemma tidyD: "tidy s \<Longrightarrow> cell_of s x = Some p \<Longrightarrow> mExs s p = None" "tidy s \<Longrightarrow> cell_of s x = Some p \<Longrightarrow> cell_of s y = Some p \<Longrightarrow> y = x"
  unfolding tidy_def by blast+

lemma tidy_settles:
  assumes "tidy s" and "settles s s'"
  shows "tidy s'"
  unfolding tidy_def
proof (intro allI impI conjI)
  fix x p assume x: "cell_of s' x = Some p"
  then have sx: "cell_of s x = Some p" using settlesD(1) [OF assms(2), of x] by simp
  show "mExs s' p = None"
  proof (cases "mExs s' p = mExs s p")
    case True
    then show ?thesis using tidyD(1) [OF assms(1) sx] by simp
  next
    case False
    from settlesD(2) [OF assms(2) this] obtain y where y: "cell_of s y = Some p" "cell_of s' y = None" by blast
    then have "y = x" using tidyD(2) [OF assms(1) sx] by blast
    then show ?thesis using x y(2) by simp
  qed
  show "y = x" if y: "cell_of s' y = Some p" for y
  proof -
    have "cell_of s y = Some p" using settlesD(1) [OF assms(2), of y] y by simp
    then show ?thesis using tidyD(2) [OF assms(1) sx] by blast
  qed
qed

lemma settled_cell:
  assumes "settles s s'" and "\<not> owed s p"
  shows "\<not> owed s' p" "mExs s' p = mExs s p"
proof -
  show "\<not> owed s' p"
  proof
    assume "owed s' p"
    then obtain x where "cell_of s' x = Some p" unfolding owed_def by blast
    then have "cell_of s x = Some p" using settlesD(1) [OF assms(1), of x] by simp
    then show False using assms(2) unfolding owed_def by blast
  qed
  show "mExs s' p = mExs s p" using settlesD(2) [OF assms(1)] assms(2) unfolding owed_def by blast
qed

lemma owed_settles:
  assumes "settles s s'" and "owed s p"
  shows "owed s' p \<or> mExs s' p \<noteq> None"
proof -
  obtain x where x: "cell_of s x = Some p" using assms(2) unfolding owed_def by blast
  then show ?thesis using settlesD(1) [OF assms(1), of x] settlesD(3) [OF assms(1) x] unfolding owed_def by metis
qed

lemma promises_settles:
  assumes ok: "promises_ok C D s" and st: "settles s s'"
  shows "promises_ok C D s'"
  unfolding promises_ok_def
proof (intro conjI ballI)
  show "tidy s'" using ok st tidy_settles unfolding promises_ok_def by blast
  show "owed s' p \<or> mExs s' p \<noteq> None \<or> p \<in> D" if "p \<in> C" for p
  proof (cases "owed s p")
    case True
    then show ?thesis using owed_settles [OF st] by blast
  next
    case False
    then show ?thesis using ok that settled_cell(2) [OF st False] unfolding promises_ok_def by auto
  qed
  show "\<not> owed s' p" "mExs s' p = None" if "p \<in> D" for p
    using ok that settled_cell [OF st, of p] unfolding promises_ok_def by auto
qed

lemma owed_drop:
  assumes "tidy s" and "cell_of t = (cell_of s)(x := None)"
  shows "owed t p \<longleftrightarrow> owed s p \<and> cell_of s x \<noteq> Some p"
proof
  show "owed s p \<and> cell_of s x \<noteq> Some p" if o: "owed t p"
  proof -
    obtain y where y: "cell_of t y = Some p" using o unfolding owed_def by blast
    then have "y \<noteq> x" "cell_of s y = Some p" unfolding assms(2) by (auto split: if_splits)
    then show ?thesis using tidyD(2) [OF assms(1)] unfolding owed_def by blast
  qed
  show "owed t p" if "owed s p \<and> cell_of s x \<noteq> Some p" using that unfolding owed_def assms(2) by auto
qed

lemma promises_completes:
  assumes ok: "promises_ok C D s" and c: "completes x s s'"
  shows "promises_ok C (D \<union> set_option (cell_of s x)) s'"
proof -
  obtain t where t: "cell_of t = (cell_of s)(x := None)" "mExs t = mExs s" "settles t s'" using c unfolding completes_def by blast
  have tidy: "tidy s" using ok by (simp add: promises_ok_def)
  then have "tidy t" unfolding tidy_def t(1,2) by (auto split: if_splits)
  then have "promises_ok C (D \<union> set_option (cell_of s x)) t"
    using ok tidyD(1) [OF tidy] unfolding promises_ok_def t(2) owed_drop [OF tidy t(1)] by auto
  then show ?thesis using t(3) by (rule promises_settles)
qed

lemma fresh_cell_iff: "fresh_cell s p \<longleftrightarrow> \<not> owed s p \<and> mExs s p = None"
proof -
  have "owed s p \<longleftrightarrow> (\<exists>a op. mSends s a = Some op \<and> sb_ex (so_Buffer op) = Some p)
     \<or> (\<exists>a op b. mRecvs s a = Some op \<and> mBufs s (ro_Buffer op) = Some b \<and> rb_ex b = Some p)"
    unfolding owed_def by (auto simp: split_sum_ex bind_eq_Some_conv)
  then show ?thesis unfolding fresh_cell_def unused_cell_def by blast
qed

lemma promises_asks:
  assumes ok: "promises_ok C D s" and a: "asks r s s'" and fr: "\<And>p. r = Some p \<Longrightarrow> fresh_cell s p"
  shows "promises_ok (C \<union> set_option r) (D - set_option r) s'"
proof -
  have tidy: "tidy s" using ok by (simp add: promises_ok_def)
  have new: "\<not> owed s p \<and> mExs s p = None" if "r = Some p" for p using fr [OF that] by (simp add: fresh_cell_iff)
  from a [unfolded asks_def] show ?thesis
  proof (elim disjE exE conjE)
    fix x t assume t: "cell_of s x = None" "cell_of t = (cell_of s)(x := r)" "mExs t = mExs s" "settles t s'"
    have ow: "owed t p \<longleftrightarrow> owed s p \<or> r = Some p" for p using t(1) unfolding owed_def t(2) by (metis fun_upd_apply option.distinct(1))
    have "tidy t" unfolding tidy_def t(2,3) using tidy new unfolding tidy_def owed_def by (auto split: if_splits)
    then have "promises_ok (C \<union> set_option r) (D - set_option r) t" using ok new unfolding promises_ok_def ow t(3) by auto
    then show ?thesis using t(4) by (rule promises_settles)
  next
    assume t: "cell_of s' = cell_of s" "tells r (mExs s) (mExs s')"
    have ow: "owed s' p \<longleftrightarrow> owed s p" for p unfolding owed_def t(1) ..
    have ex: "mExs s' p = mExs s p" if "r \<noteq> Some p" for p using t(2) that by (auto simp: tells_def split: option.splits)
    have told: "mExs s' p \<noteq> None" if "r = Some p" for p using t(2) that by (auto simp: tells_def)
    have "mExs s' p = None" if "owed s p" for p
      using that new ex [of p] tidyD(1) [OF tidy] unfolding owed_def by (cases "r = Some p") auto
    then have "tidy s'" using tidyD [OF tidy] unfolding tidy_def t(1) owed_def by blast
    moreover have "owed s p \<or> mExs s' p \<noteq> None \<or> p \<in> D - set_option r" if "p \<in> C \<union> set_option r" for p
      using ok told [of p] ex [of p] that unfolding promises_ok_def by (cases "r = Some p") auto
    moreover have "\<not> owed s p \<and> mExs s' p = None" if "p \<in> D - set_option r" for p
      using ok ex [of p] that unfolding promises_ok_def by auto
    ultimately show ?thesis unfolding promises_ok_def ow by blast
  qed
qed

end
