(* ===== verification/Sched_Parties.thy ===== *)
theory Sched_Parties
  imports Sched_Deliver
begin

text \<open>
  The contract of the multiplexer between two parties: what one sends is what the other receives.
\<close>

section \<open>The frames of messages\<close>

lemma traced_messages: "traced sid w wire log \<Longrightarrow> m \<in> set log \<Longrightarrow> snd m \<noteq> [] \<and> length (snd m) < 2 ^ 32 - 1"
proof (induction rule: traced.induct)
  case (traced_step w wire log x w')
  then show ?case by (cases x) (auto split: if_splits sum.splits)
qed simp

lemma frames_of_valid: "(\<And>m. m \<in> set ms \<Longrightarrow> snd m \<noteq> [] \<and> length (snd m) < 2 ^ 32 - 1) \<Longrightarrow> \<forall>f \<in> set (frames_of fs A ms). valid_frame f"
proof (induction ms arbitrary: A)
  case (Cons m ms)
  have "\<forall>f \<in> set (frames_of fs A ms). valid_frame f" for A by (rule Cons.IH) (rule Cons.prems, simp)
  moreover have "snd m \<noteq> [] \<and> length (snd m) < 2 ^ 32 - 1" by (rule Cons.prems) simp
  ultimately show ?case by (cases m) auto
qed simp

text \<open>Who reads the frames of some messages finds these messages, as long as no number is reused.\<close>

definition with_keys :: "fork list \<Rightarrow> (nat \<times> u8 list) list \<Rightarrow> ((u64 \<times> u64) \<times> u8 list) list" where
  "with_keys fs ms = map (\<lambda>m. (sid_key (mSessionID (fs ! fst m)), snd m)) ms"

lemma read_frames_of:
  assumes "fresh_frames m gs" "prefix gs (frames_of fs A ms)" "\<And>i. i \<in> A \<Longrightarrow> m (mLocalId (fs ! i)) = Some (sid_key (mSessionID (fs ! i)))"
  shows "prefix (read_frames m gs) (with_keys fs ms) \<and> (gs = frames_of fs A ms \<longrightarrow> read_frames m gs = with_keys fs ms)"
  using assms
proof (induction ms arbitrary: gs m A)
  case Nil
  then show ?case by (simp add: with_keys_def)
next
  case (Cons p ms)
  obtain i d where p: "p = (i, d)" by (cases p)
  let ?n = "mLocalId (fs ! i)" and ?k = "sid_key (mSessionID (fs ! i))"
  text \<open>The message itself, once its fork is known to the reader.\<close>
  have msg: "prefix (read_frames m' gs') (with_keys fs (p # ms)) \<and> (gs' = Message ?n d # frames_of fs (insert i A) ms \<longrightarrow> read_frames m' gs' = with_keys fs (p # ms))"
    if fr: "fresh_frames m' gs'" and pr: "prefix gs' (Message ?n d # frames_of fs (insert i A) ms)"
      and k: "\<And>j. j \<in> insert i A \<Longrightarrow> m' (mLocalId (fs ! j)) = Some (sid_key (mSessionID (fs ! j)))" for m' gs'
  proof (cases gs')
    case (Cons g hs)
    then have g: "g = Message ?n d" "prefix hs (frames_of fs (insert i A) ms)" using pr by auto
    then have "fresh_frames m' hs" using fr Cons by simp
    from Cons.IH [OF this g(2) k] show ?thesis using Cons g(1) k [of i] by (auto simp: with_keys_def p)
  qed simp
  show ?case
  proof (cases "i \<in> A")
    case True
    then show ?thesis using msg [OF Cons.prems(1)] Cons.prems(2,3) p by (auto simp: insert_absorb)
  next
    case False
    show ?thesis
    proof (cases gs)
      case (Cons g hs)
      then have g: "g = Announce ?n ?k" "prefix hs (Message ?n d # frames_of fs (insert i A) ms)" using Cons.prems(2) False p by auto
      then have fr: "m ?n = None" "fresh_frames (m(?n \<mapsto> ?k)) hs" using Cons.prems(1) Cons by auto
      have *: "(m(?n \<mapsto> ?k)) (mLocalId (fs ! j)) = Some (sid_key (mSessionID (fs ! j)))" if "j \<in> insert i A" for j
        using that Cons.prems(3) [of j] fr(1) by (cases "mLocalId (fs ! j) = ?n") auto
      have e1: "read_frames m gs = read_frames (m(?n \<mapsto> ?k)) hs" by (simp only: Cons g(1) read_frames.simps)
      have e2: "gs = frames_of fs A (p # ms) \<longleftrightarrow> hs = Message ?n d # frames_of fs (insert i A) ms" using Cons g(1) False p by simp
      show ?thesis unfolding e1 e2 by (rule msg [OF fr(2) g(2)]) (rule *)
    qed (use False p in simp)
  qed
qed

section \<open>One message between two sockets\<close>

definition step_of :: "action \<Rightarrow> world \<Rightarrow> world" where
  "step_of x w = projr (perform x w)"

lemma step_of_Inr: "\<not> isl (perform x w) \<Longrightarrow> perform x w = Inr (step_of x w)"
  by (cases "perform x w") (simp_all add: step_of_def)

text \<open>The sender: the control message, the header, the bytes.\<close>

definition demo_meta :: world where
  "demo_meta = (let s = wSched demo_sent; f = mForks s ! 0 in demo_sent\<lparr>wSched := set_fork 0 (f\<lparr>mInitiated := True\<rparr>) s,
     wSend := Sending_Meta 1, wSending := meta_message (mLocalId f) (mSessionID f)\<rparr>)"

definition demo_header :: world where "demo_header = step_of (Transmitted no_error 24) demo_meta"
definition demo_body :: world where "demo_body = step_of (Transmitted no_error 8) demo_header"
definition demo_end :: world where "demo_end = step_of (Transmitted no_error 3) demo_body"

definition demo_wire :: "u8 list" where
  "demo_wire = stream_bytes [Announce 1 (5, 7), Message 1 [1, 2, 3]]"

lemma demo_send_facts:
  "mSendRes (wSched demo_sent) = Some (Inr 1)"
  "map_option (\<lambda>op. (sb_data (so_Buffer op), so_Fork op, so_Status op)) (mSends (wSched demo_sent) 1) = Some ([1, 2, 3], 0, InProgress)"
  "wSend demo_sent = Await_Next" "\<not> mNextSendOp (wSched demo_sent)"
  "mForks (wSched demo_sent) \<noteq> [] \<and> \<not> mInitiated (mForks (wSched demo_sent) ! 0) \<and> mLocalId (mForks (wSched demo_sent) ! 0) = 1"
  "busy_op (wSend demo_meta) = Some 1" "length (wSending demo_meta) = 24" "\<not> isl (perform (Transmitted no_error 24) demo_meta)"
  "busy_op (wSend demo_header) = Some 1" "length (wSending demo_header) = 8" "\<not> isl (perform (Transmitted no_error 8) demo_header)"
  "busy_op (wSend demo_body) = Some 1" "length (wSending demo_body) = 3" "\<not> isl (perform (Transmitted no_error 3) demo_body)"
  "demo_wire = wSending demo_meta @ wSending demo_header @ wSending demo_body" "mLocalId (mForks (wSched demo_end) ! 0) = 1"
  "sid_key (mSessionID (mForks (wSched demo_end) ! 0)) = (5, 7)"
  by code_simp+

lemma demo_resumed: "perform Send_Resumed demo_sent = Inr demo_meta"
proof -
  obtain op where op: "mSends (wSched demo_sent) 1 = Some op" "sb_data (so_Buffer op) = [1, 2, 3]" "so_Fork op = 0" "so_Status op = InProgress"
    using demo_send_facts(2) by auto
  have fk: "fork_at 0 (wSched demo_sent) = Inr (mForks (wSched demo_sent) ! 0)" using demo_send_facts(5) by (simp add: fork_at_def)
  have "send_resumed (wSched demo_sent) = Inr (Sending_Meta 1, wSending demo_meta, wSched demo_meta)"
    using demo_send_facts(5) by (simp add: send_resumed_def demo_send_facts(1) op fk checkR_def demo_meta_def Let_def del: One_nat_def)
  then show ?thesis by (simp add: on_send_def demo_meta_def Let_def)
qed

lemma demo_end_traced: "traced demo_sid demo_end demo_wire [(0, [1, 2, 3])]"
proof -
  note f = demo_send_facts
  have 1: "traced demo_sid demo_meta [] [(0, [1, 2, 3])]"
    using traced_step [OF demo_sent_traced _ _ demo_resumed] f(3,4) by simp
  have 2: "traced demo_sid demo_header (wSending demo_meta) [(0, [1, 2, 3])]"
    using traced_step [OF 1 _ _ step_of_Inr [OF f(8)]] f(6,7) by (simp add: demo_header_def)
  have 3: "traced demo_sid demo_body (wSending demo_meta @ wSending demo_header) [(0, [1, 2, 3])]"
    using traced_step [OF 2 _ _ step_of_Inr [OF f(11)]] f(9,10) by (simp add: demo_body_def)
  show ?thesis using traced_step [OF 3 _ _ step_of_Inr [OF f(14)]] f(12,13) by (simp add: demo_end_def f(15))
qed

text \<open>The receiver: a buffer, a receive on the same identifier, and the frames of the message.\<close>

definition demo_acts :: "action list" where
  "demo_acts = [Act_Buffer 1 (demo_recv_buffer 1), Act_Recv demo_sid 1 12 No_Stop, Recv_Resumed,
     Received no_error (take 8 demo_wire), Received no_error (take 16 (drop 8 demo_wire)), Received no_error (take 8 (drop 24 demo_wire)),
     Recv_Resumed, Received no_error (drop 32 demo_wire)]"

definition demo_got :: "nat \<Rightarrow> world" where
  "demo_got n = fold step_of (take n demo_acts) (start_world demo_sid)"

lemma length_demo_acts: "length demo_acts = 8"
  by (simp add: demo_acts_def)

lemma demo_got_Suc: "n < 8 \<Longrightarrow> demo_got (Suc n) = step_of (demo_acts ! n) (demo_got n)"
  by (simp add: demo_got_def take_Suc_conv_app_nth length_demo_acts)

lemma demo_got_0: "demo_got 0 = start_world demo_sid"
  by (simp add: demo_got_def)

text \<open>Every action works, and what the receive task is doing before it.\<close>

lemma demo_got_steps: "list_all (\<lambda>n. \<not> isl (perform (demo_acts ! n) (demo_got n))) [0, 1, 2, 3, 4, 5, 6, 7]"
  by code_simp

lemma demo_got_pcs:
  "wRecv (demo_got 2) = Await_Any \<and> \<not> mAnyRecvOp (wSched (demo_got 2))" "wRecv (demo_got 3) = Reading_Header"
  "wRecv (demo_got 4) = Reading_Control \<lparr>hSize = 0, hForkId = 1\<rparr> \<and> mRemoteMap (wSched (demo_got 4)) 1 = None"
  "wRecv (demo_got 5) = Reading_Header"
  "wRecv (demo_got 6) = Await_Fork \<lparr>hSize = 3, hForkId = 1\<rparr> \<and> mGetReq (wSched (demo_got 6)) = None"
  "wRecv (demo_got 7) = Reading_Body \<lparr>hSize = 3, hForkId = 1\<rparr> 1" "wRecv (demo_got 8) = Await_Any"
  "map_option (\<lambda>op. (ro_Fork op, ro_Buffer op)) (mRecvs (wSched (demo_got 7)) 1) = Some (0, 1)"
  "buffer_bytes 1 3 (wSched (demo_got 8)) = [1, 2, 3]" "\<not> is_error (mEC (wSched (demo_got 8)))"
  "length demo_wire = 35" "local_fork demo_sid demo0 0" "recv_total demo0 = 0" "pending_from 0 demo0 = []"
  "sid_key (mSessionID (mForks (wSched (demo_got 8)) ! 0)) = (5, 7)"
  unfolding local_fork_def by code_simp+

lemma demo_step: "n < 8 \<Longrightarrow> perform (demo_acts ! n) (demo_got n) = Inr (demo_got (Suc n))"
proof -
  assume n: "n < 8"
  then have "n \<in> set [0, 1, 2, 3, 4, 5, 6, 7]" by auto
  then have "\<not> isl (perform (demo_acts ! n) (demo_got n))" using demo_got_steps unfolding list_all_iff by blast
  then show ?thesis using step_of_Inr demo_got_Suc [OF n] by simp
qed

lemma demo_acts_nth:
  "demo_acts ! 0 = Act_Buffer 1 (demo_recv_buffer 1)" "demo_acts ! 1 = Act_Recv demo_sid 1 12 No_Stop"
  "demo_acts ! 2 = Recv_Resumed" "demo_acts ! 3 = Received no_error (take 8 demo_wire)"
  "demo_acts ! 4 = Received no_error (take 16 (drop 8 demo_wire))" "demo_acts ! 5 = Received no_error (take 8 (drop 24 demo_wire))"
  "demo_acts ! 6 = Recv_Resumed" "demo_acts ! 7 = Received no_error (drop 32 demo_wire)"
  by (simp_all add: demo_acts_def)

lemma demo_got_1: "wSched (demo_got 1) = demo0"
  using demo_got_Suc [of 0] by (simp add: demo_got_0 demo_acts_nth step_of_def on_sched_def start_world_def demo0_def)

lemma demo_enabled: "n < 8 \<Longrightarrow> enabled (demo_acts ! n) (demo_got n) \<and> honest_transport (demo_acts ! n) (demo_got n)"
proof -
  note f = demo_got_pcs
  have "unused_cell demo0 1" using unused_cell_code [OF demo0_inv] by simp
  then have "fresh_recv_buffer demo0 1"
    using no_pending_recv [OF demo0_inv f(14)] by (simp add: fresh_recv_buffer_def demo0_def with_buffer_def demo_recv_buffer_def)
  then have 1: "enabled (Act_Recv demo_sid 1 12 No_Stop) (demo_got 1)"
    using f(12,13) by (auto simp: demo_got_1 simp del: One_nat_def)
  have 0: "enabled (Act_Buffer 1 (demo_recv_buffer 1)) (demo_got 0)" by (simp add: demo_got_0 start_world_def)
  assume "n < 8"
  then consider "n = 0" | "n = 1" | "n = 2" | "n = 3" | "n = 4" | "n = 5" | "n = 6" | "n = 7" by linarith
  then show ?thesis
    by cases (use 0 1 f(1-6,11) in \<open>simp_all add: demo_acts_nth del: One_nat_def\<close>)
qed

lemma demo_heard_step:
  assumes "heard demo_sid (demo_got n) input cl dl" "n < 8"
  shows "heard demo_sid (demo_got (Suc n)) (input @ taken (demo_acts ! n)) (cl @ called (demo_acts ! n) (demo_got n))
    (dl @ completed (demo_acts ! n) (demo_got n) (demo_got (Suc n)))"
  using heard_step [OF assms(1)] demo_enabled demo_step assms(2) by blast

lemma demo_called: "heard demo_sid (demo_got 2) [] [(0, 1)] []"
proof -
  have "heard demo_sid (demo_got 0) [] [] []" unfolding demo_got_0 by (rule heard_init)
  from demo_heard_step [OF this] have 1: "heard demo_sid (demo_got 1) [] [] []" by (simp add: demo_acts_nth)
  have "\<not> is_error (mEC demo0)" by (simp add: demo0_def with_buffer_def)
  then have "called (Act_Recv demo_sid 1 12 No_Stop) (demo_got 1) = [(0, 1)]"
    using getLocal_eq [OF demo_got_pcs(12)] by (simp add: demo_got_1 del: One_nat_def)
  then show ?thesis using demo_heard_step [OF 1] by (simp add: demo_acts_nth del: One_nat_def called.simps)
qed

lemma demo_heard: "heard demo_sid (demo_got 8) demo_wire [(0, 1)] [(0, 1, [1, 2, 3])]"
proof -
  note f = demo_got_pcs and a = demo_acts_nth
  have 3: "heard demo_sid (demo_got 3) [] [(0, 1)] []" using demo_heard_step [OF demo_called] by (simp add: a)
  have 4: "heard demo_sid (demo_got 4) (take 8 demo_wire) [(0, 1)] []" using demo_heard_step [OF 3] f(2) by (simp add: a)
  have 5: "heard demo_sid (demo_got 5) (take 24 demo_wire) [(0, 1)] []"
    using demo_heard_step [OF 4] f(3) by (simp add: a take_add [of 8 16, simplified])
  have 6: "heard demo_sid (demo_got 6) (take 32 demo_wire) [(0, 1)] []"
    using demo_heard_step [OF 5] f(4) by (simp add: a take_add [of 24 8, simplified])
  have 7: "heard demo_sid (demo_got 7) (take 32 demo_wire) [(0, 1)] []" using demo_heard_step [OF 6] by (simp add: a)
  obtain op where "mRecvs (wSched (demo_got 7)) 1 = Some op" "ro_Fork op = 0" "ro_Buffer op = 1" using f(8) by auto
  then show ?thesis using demo_heard_step [OF 7] f(6,9) by (simp add: a is_error_def no_error_def del: One_nat_def)
qed

text \<open>
  C4. What arrives, is delivered. In every run of a socket the bytes that the receive task has taken
  from the transport begin with complete frames in which every number is announced once and before it is
  used, and the receives that have been completed are the messages of these frames, in order and nothing
  else, each in the buffer of a receive of the fork with the announced identifier. On each fork the
  receives are completed in the order of the calls.
\<close>

theorem received_in_order:
  assumes "heard sid w input cl dl"
  shows "\<exists>fs. prefix (stream_bytes fs) input \<and> (\<forall>f \<in> set fs. valid_frame f) \<and> fresh_frames Map.empty fs
     \<and> read_frames Map.empty fs = map (\<lambda>(i, d, bs). (sid_key (mSessionID (mForks (wSched w) ! i)), bs)) dl
     \<and> (\<forall>i. prefix (map (\<lambda>(j, d, bs). d) (filter (\<lambda>(j, d, bs). j = i) dl)) (map snd (filter (\<lambda>(j, d). j = i) cl)))"
proof -
  obtain fs where fs: "hear_inv (wSched w) (wRecv w) input cl dl fs" using heard_inv [OF assms] by blast
  have "read_frames Map.empty fs = map (\<lambda>(i, d, bs). (sid_key (mSessionID (mForks (wSched w) ! i)), bs)) dl"
    using hear_invD(3) [OF fs] by (simp add: heard_frames_def keyed_def case_prod_beta)
  moreover have "prefix (map (\<lambda>(j, d, bs). d) (filter (\<lambda>(j, d, bs). j = i) dl)) (map snd (filter (\<lambda>(j, d). j = i) cl))" for i
    using in_step_prefix(2) [OF fs, of i] unfolding fork_done_def fork_calls_def by (simp only: case_prod_beta')
  ultimately show ?thesis using in_step_prefix(1) [OF fs] hear_invD(3) [OF fs] unfolding heard_frames_def by blast
qed

theorem received_in_order_witness:
  "\<exists>fs. prefix (stream_bytes fs) demo_wire \<and> (\<forall>f \<in> set fs. valid_frame f) \<and> fresh_frames Map.empty fs
     \<and> read_frames Map.empty fs = [((5, 7), [1, 2, 3])]"
  using received_in_order [OF demo_heard] demo_got_pcs(15) by auto

text \<open>
  C2. The contract of the multiplexer between two parties. If the transport of one party delivers a
  prefix of the bytes that the transport of the other has taken, then the completed receives are a
  prefix of the sent messages: in the same order, on the fork with the same identifier, with the same
  bytes, whatever forks, errors, stop requests and interleavings there are on both sides. When the
  receive task has read all that was sent and is between two frames, no message is missing.
\<close>

theorem end_to_end:
  assumes sender: "traced sid w wire log" and receiver: "heard sid' w' input cl dl" and transport: "prefix input wire"
  shows "prefix (map (\<lambda>(i, d, bs). (sid_key (mSessionID (mForks (wSched w') ! i)), bs)) dl)
      (map (\<lambda>(i, bs). (sid_key (mSessionID (mForks (wSched w) ! i)), bs)) log)
    \<and> (input = stream_bytes (frames_of (mForks (wSched w)) {} log) \<longrightarrow> \<not> is_error (mEC (wSched w')) \<longrightarrow> wRecv w' \<in> {Await_Any, Reading_Header} \<longrightarrow>
        map (\<lambda>(i, d, bs). (sid_key (mSessionID (mForks (wSched w') ! i)), bs)) dl
        = map (\<lambda>(i, bs). (sid_key (mSessionID (mForks (wSched w) ! i)), bs)) log)"
proof -
  let ?G = "frames_of (mForks (wSched w)) {} log"
  obtain fs where hi: "hear_inv (wSched w') (wRecv w') input cl dl fs" using heard_inv [OF receiver] by blast
  note H = hear_invD(3) [OF hi, unfolded heard_frames_def]
  obtain ch where wi: "wire_inv w ch wire log" using traced_wire [OF sender] by blast
  then have wp: "prefix wire (stream_bytes ?G)" unfolding wire_inv_def exact_def spec_bytes_def by (metis prefixI)
  have v: "\<forall>f \<in> set ?G. valid_frame f" by (rule frames_of_valid) (rule traced_messages [OF sender])
  have "prefix (stream_bytes fs) (stream_bytes ?G)" using in_step_prefix(1) [OF hi] transport wp prefix_order.trans by metis
  then have pf: "prefix fs ?G" using stream_unique H v by blast
  have keys: "i \<in> {} \<Longrightarrow> Map.empty (mLocalId (mForks (wSched w) ! i)) = Some (sid_key (mSessionID (mForks (wSched w) ! i)))" for i by simp
  note R = read_frames_of [OF _ pf keys]
  have dl: "map (\<lambda>(i, d, bs). (sid_key (mSessionID (mForks (wSched w') ! i)), bs)) dl = read_frames Map.empty fs"
    using H by (simp add: keyed_def case_prod_beta)
  have lg: "map (\<lambda>(i, bs). (sid_key (mSessionID (mForks (wSched w) ! i)), bs)) log = with_keys (mForks (wSched w)) log"
    by (simp add: with_keys_def case_prod_beta)
  have "read_frames Map.empty fs = with_keys (mForks (wSched w)) log"
    if all: "input = stream_bytes ?G" "\<not> is_error (mEC (wSched w'))" "wRecv w' \<in> {Await_Any, Reading_Header}"
  proof -
    have "in_step (wSched w') (wRecv w') input cl dl fs" by (rule hear_invD(4) [OF hi]) (simp add: doomed_def all(2))
    then have "stream_bytes ?G = stream_bytes fs" using all(1,3) by (auto simp: in_step_def)
    then have "prefix ?G fs" using stream_unique [of ?G fs] v H by simp
    then have "fs = ?G" using pf by (simp add: prefix_order.antisym)
    then show ?thesis using R H by blast
  qed
  then show ?thesis unfolding dl lg using R H by blast
qed

theorem end_to_end_witness:
  "map (\<lambda>(i, d, bs). (sid_key (mSessionID (mForks (wSched (demo_got 8)) ! i)), bs)) [(0, 1 :: nat, [1, 2, 3 :: u8])]
    = map (\<lambda>(i, bs). (sid_key (mSessionID (mForks (wSched demo_end) ! i)), bs)) [(0, [1, 2, 3])]"
proof -
  have "demo_wire = stream_bytes (frames_of (mForks (wSched demo_end)) {} [(0, [1, 2, 3])])"
    by (simp add: demo_wire_def demo_send_facts(16,17))
  then show ?thesis using end_to_end [OF demo_end_traced demo_heard prefix_order.refl] demo_got_pcs(7,10) by blast
qed

end
