(* ===== verification/Socket_Api.thy ===== *)
theory Socket_Api
  imports Sched_Promises Sched_Parties
begin

text \<open>
  What the users of a socket see: \<^verbatim>\<open>coproto/Socket/Socket.h\<close>, and the awaiters of
  \<^verbatim>\<open>coproto/Proto/Buffers.h\<close> and of \<^verbatim>\<open>close\<close> that its functions return. An awaiter
  hands its buffer to the scheduler when it is awaited, and throws what it finds in its exception cell
  when it is resumed.
\<close>

section \<open>Sockets\<close>

text \<open>A socket is the identifier of its fork; the scheduler that all forks share is the state.\<close>

record socket =
  skt_Id :: session_id

definition makeSocket :: "session_id \<Rightarrow> fault + socket \<times> sched" where
  "makeSocket sid = bindR (sched_init sid) (\<lambda>s. Inr (\<lparr>skt_Id = sid\<rparr>, s))"

definition socket_fork :: "socket \<Rightarrow> sched \<Rightarrow> fault + socket \<times> sched" where
  "socket_fork k s = bindR (sched_fork (skt_Id k) s) (\<lambda>(sid, s). Inr (k\<lparr>skt_Id := sid\<rparr>, s))"

definition socket_setExecutor :: "nat \<Rightarrow> socket \<Rightarrow> sched \<Rightarrow> fault + sched" where
  "socket_setExecutor ex k s = setExecutor ex (skt_Id k) s"

text \<open>\<^verbatim>\<open>mClosed\<close> is read by \<^verbatim>\<open>closed()\<close> only.\<close>

record api =
  apWorld :: world
  apClosed :: bool

definition bytesSent :: "api \<Rightarrow> u64" where
  "bytesSent p = wBytesSent (apWorld p)"

definition bytesReceived :: "api \<Rightarrow> u64" where
  "bytesReceived p = wBytesReceived (apWorld p)"

definition closed :: "api \<Rightarrow> bool" where
  "closed p = apClosed p"

section \<open>The awaiters of send\<close>

text \<open>
  \<open>sa_ExPtr\<close> is the address of \<^verbatim>\<open>mExPtr\<close>, a cell of \<open>mExs\<close>. \<open>sa_Move\<close> tells
  \<^verbatim>\<open>MoveSendAwaiter\<close> from \<^verbatim>\<open>RefSendAwaiter\<close>. A location is a file and a line.
\<close>

record send_awaiter =
  sa_Id :: session_id
  sa_Token :: stop_token
  sa_ExPtr :: nat
  sa_Loc :: "string \<times> nat"
  sa_Cont :: container
  sa_Move :: bool

definition send_ref :: "socket \<Rightarrow> container \<Rightarrow> stop_token \<Rightarrow> nat \<Rightarrow> send_awaiter" where
  "send_ref k c tok p = \<lparr>sa_Id = skt_Id k, sa_Token = tok, sa_ExPtr = p, sa_Loc = ('''', 0), sa_Cont = c, sa_Move = False\<rparr>"

definition send_move :: "socket \<Rightarrow> container \<Rightarrow> stop_token \<Rightarrow> nat \<Rightarrow> send_awaiter" where
  "send_move k c tok p = \<lparr>sa_Id = skt_Id k, sa_Token = tok, sa_ExPtr = p, sa_Loc = ('''', 0), sa_Cont = c, sa_Move = True\<rparr>"

text \<open>The move constructor: \<open>p\<close> is the address of the cell in the new object.\<close>

definition send_awaiter_moved :: "nat \<Rightarrow> send_awaiter \<Rightarrow> sched \<Rightarrow> fault + send_awaiter \<times> sched" where
  "send_awaiter_moved p m s = checkR (mExs s (sa_ExPtr m) = None) Assertion
     (Inr (m\<lparr>sa_ExPtr := p\<rparr>, s\<lparr>mExs := (mExs s)(p := None)\<rparr>))"

definition set_send_location :: "string \<times> nat \<Rightarrow> send_awaiter \<Rightarrow> send_awaiter" where
  "set_send_location l a = a\<lparr>sa_Loc := l\<rparr>"

text \<open>
  \<^verbatim>\<open>getBuffer\<close>; a moved message has no exception cell. \<^verbatim>\<open>MoveSendAwaiter\<close> sends for the
  coroutine that does nothing, and resumes its own caller whatever has become of the message.
\<close>

definition send_getBuffer :: "send_awaiter \<Rightarrow> send_buffer" where
  "send_getBuffer a = (if sa_Move a then mv_send_buffer (sa_Cont a) None else ref_send_buffer (sa_Cont a) (sa_ExPtr a))"

definition noop_coroutine :: nat where
  "noop_coroutine = 0"

definition ref_await_suspend :: "send_awaiter \<Rightarrow> nat \<Rightarrow> sched \<Rightarrow> fault + coro option \<times> sched" where
  "ref_await_suspend a h s = send (sa_Id a) (send_getBuffer a) h (sa_Token a) s"

definition move_await_suspend :: "send_awaiter \<Rightarrow> nat \<Rightarrow> sched \<Rightarrow> fault + coro option \<times> sched" where
  "move_await_suspend a h s =
     bindR (send (sa_Id a) (send_getBuffer a) noop_coroutine (sa_Token a) s) (\<lambda>(r, s). Inr (Some (User h), s))"

definition send_await_suspend :: "send_awaiter \<Rightarrow> nat \<Rightarrow> sched \<Rightarrow> fault + coro option \<times> sched" where
  "send_await_suspend a = (if sa_Move a then move_await_suspend a else ref_await_suspend a)"

text \<open>\<^verbatim>\<open>await_resume\<close>: \<open>Inl\<close> is the exception that is thrown; \<open>st\<close> is the call stack.\<close>

definition send_await_resume :: "send_awaiter \<Rightarrow> (string \<times> nat) list \<Rightarrow> sched \<Rightarrow> exn + unit" where
  "send_await_resume a st s = (case mExs s (sa_ExPtr a) of None \<Rightarrow> Inr () | Some e \<Rightarrow> Inl (addTraceRethrow e st))"

section \<open>The awaiters of receive\<close>

text \<open>
  \<open>ra_Ref\<close> is the address of \<^verbatim>\<open>mRef\<close>, a buffer of \<open>mBufs\<close>, which refers to the container
  and to the exception cell of the awaiter. \<open>ra_Move\<close> tells \<^verbatim>\<open>MoveRecvAwaiter\<close>, whose container
  is its own and is returned, from \<^verbatim>\<open>RefRecvAwaiter\<close>.
\<close>

record recv_awaiter =
  ra_Id :: session_id
  ra_Token :: stop_token
  ra_ExPtr :: nat
  ra_Loc :: "string \<times> nat"
  ra_Ref :: nat
  ra_Move :: bool

definition recv_awaiter_new :: "bool \<Rightarrow> bool \<Rightarrow> socket \<Rightarrow> container \<Rightarrow> stop_token \<Rightarrow> nat \<Rightarrow> nat \<Rightarrow> sched \<Rightarrow> recv_awaiter \<times> sched" where
  "recv_awaiter_new move allowResize k c tok p d s =
     (\<lparr>ra_Id = skt_Id k, ra_Token = tok, ra_ExPtr = p, ra_Loc = ('''', 0), ra_Ref = d, ra_Move = move\<rparr>,
      with_buffer d \<lparr>rb_ex = Some p, rb_cont = c, rb_allow = allowResize\<rparr> s)"

text \<open>The four functions of \<^verbatim>\<open>Socket\<close>; \<open>c0\<close> is a default constructed container.\<close>

definition recv_ref :: "socket \<Rightarrow> container \<Rightarrow> stop_token \<Rightarrow> nat \<Rightarrow> nat \<Rightarrow> sched \<Rightarrow> recv_awaiter \<times> sched" where
  "recv_ref = recv_awaiter_new False False"

definition recv_move :: "socket \<Rightarrow> container \<Rightarrow> stop_token \<Rightarrow> nat \<Rightarrow> nat \<Rightarrow> sched \<Rightarrow> recv_awaiter \<times> sched" where
  "recv_move = recv_awaiter_new True False"

definition recv_new :: "container \<Rightarrow> socket \<Rightarrow> stop_token \<Rightarrow> nat \<Rightarrow> nat \<Rightarrow> sched \<Rightarrow> recv_awaiter \<times> sched" where
  "recv_new c0 k tok = recv_awaiter_new True True k c0 tok"

definition recvResize :: "socket \<Rightarrow> container \<Rightarrow> stop_token \<Rightarrow> nat \<Rightarrow> nat \<Rightarrow> sched \<Rightarrow> recv_awaiter \<times> sched" where
  "recvResize = recv_awaiter_new False True"

text \<open>The move constructors build a new \<^verbatim>\<open>mRef\<close> on the container and the cell of the new object.\<close>

definition recv_awaiter_moved :: "nat \<Rightarrow> nat \<Rightarrow> recv_awaiter \<Rightarrow> sched \<Rightarrow> fault + recv_awaiter \<times> sched" where
  "recv_awaiter_moved p d m s = checkR (mExs s (ra_ExPtr m) = None) Assertion
     (bindR (deref (mBufs s) (ra_Ref m)) (\<lambda>b. Inr (m\<lparr>ra_ExPtr := p, ra_Ref := d\<rparr>,
        with_buffer d \<lparr>rb_ex = Some p, rb_cont = rb_cont b, rb_allow = rb_allow b\<rparr> (s\<lparr>mExs := (mExs s)(p := None)\<rparr>))))"

definition set_recv_location :: "string \<times> nat \<Rightarrow> recv_awaiter \<Rightarrow> recv_awaiter" where
  "set_recv_location l a = a\<lparr>ra_Loc := l\<rparr>"

definition recv_await_suspend :: "recv_awaiter \<Rightarrow> nat \<Rightarrow> sched \<Rightarrow> fault + sched" where
  "recv_await_suspend a h s = recv (ra_Id a) (ra_Ref a) h (ra_Token a) s"

text \<open>The container is in the buffer; a reference receive returns nothing.\<close>

definition recv_await_resume :: "recv_awaiter \<Rightarrow> (string \<times> nat) list \<Rightarrow> sched \<Rightarrow> exn + container option" where
  "recv_await_resume a st s = (case mExs s (ra_ExPtr a) of
      Some e \<Rightarrow> Inl (addTraceRethrow e st)
    | None \<Rightarrow> Inr (if ra_Move a then map_option rb_cont (mBufs s (ra_Ref a)) else None))"

section \<open>Flush and close\<close>

definition flush_await_suspend :: "nat \<Rightarrow> sched \<Rightarrow> fault + coro option \<times> sched" where
  "flush_await_suspend h s = flush h s"

text \<open>
  What \<^verbatim>\<open>close\<close> of the underlying socket does is a parameter: it returns nothing, or an awaiter
  that may be ready, and whose \<^verbatim>\<open>await_suspend\<close> returns nothing or a coroutine.
\<close>

datatype transport_close = Close_Void | Close_Awaits bool "nat \<Rightarrow> nat option"

record close_awaiter =
  ca_Ptr :: bool

definition socket_close :: close_awaiter where
  "socket_close = \<lparr>ca_Ptr = True\<rparr>"

definition close_await_suspend :: "transport_close \<Rightarrow> nat \<Rightarrow> api \<Rightarrow> nat \<times> api" where
  "close_await_suspend t h p = (let p = p\<lparr>apClosed := True\<rparr> in
     case t of Close_Void \<Rightarrow> (h, p)
      | Close_Awaits ready f \<Rightarrow> if ready then (h, p)
          else (case f h of None \<Rightarrow> (noop_coroutine, p) | Some g \<Rightarrow> (g, p)))"

definition close_await_resume :: "close_awaiter \<Rightarrow> fault + close_awaiter" where
  "close_await_resume a = (if ca_Ptr a then Inr (a\<lparr>ca_Ptr := False\<rparr>) else Inl Bad_Pointer)"

definition close_awaiter_destroy :: "close_awaiter \<Rightarrow> fault + unit" where
  "close_awaiter_destroy a = (if ca_Ptr a then Inl Terminated else Inr ())"

section \<open>What an awaiter tells\<close>

text \<open>The cells that a call asks to be answered, and those whose transfer a step completes.\<close>

fun asked_cells :: "action \<Rightarrow> world \<Rightarrow> nat set" where
  "asked_cells (Act_Send sid b cb tok) w = set_option (sb_ex b)"
| "asked_cells (Act_Recv sid d h tok) w = set_option (Option.bind (mBufs (wSched w) d) rb_ex)"
| "asked_cells x w = {}"

fun delivered :: "action \<Rightarrow> world \<Rightarrow> nat set" where
  "delivered (Transmitted ec n) w = (case wSend w of
     Sending_Body a \<Rightarrow> if is_error ec then {} else set_option (cell_of (wSched w) (Inl a)) | _ \<Rightarrow> {})"
| "delivered (Received ec bs) w = (case wRecv w of
     Reading_Body h a \<Rightarrow> if is_error ec then {} else set_option (cell_of (wSched w) (Inr a)) | _ \<Rightarrow> {})"
| "delivered x w = {}"

text \<open>
  Runs over a transport that reports an error for every short transfer, in which every awaiter brings a
  cell of its own, with the cells asked for so far and those whose last transfer was completed.
\<close>

inductive served :: "session_id \<Rightarrow> world \<Rightarrow> nat set \<Rightarrow> nat set \<Rightarrow> bool" for sid where
  served_init: "served sid (start_world sid) {} {}"
| served_step: "served sid w C D \<Longrightarrow> enabled x w \<Longrightarrow> honest_transport x w \<Longrightarrow> (\<forall>p \<in> asked_cells x w. fresh_cell (wSched w) p)
     \<Longrightarrow> perform x w = Inr w' \<Longrightarrow> served sid w' (C \<union> asked_cells x w) (D - asked_cells x w \<union> delivered x w)"

text \<open>What a step does to the cells.\<close>

definition cells_step :: "nat set \<Rightarrow> nat set \<Rightarrow> sched \<Rightarrow> sched \<Rightarrow> bool" where
  "cells_step A T s s' \<longleftrightarrow> A = {} \<and> T = {} \<and> settles s s' \<or> (\<exists>r. A = set_option r \<and> T = {} \<and> asks r s s')
     \<or> (\<exists>x. A = {} \<and> T = set_option (cell_of s x) \<and> completes x s s')"

lemma cells_stepI:
  "settles s s' \<Longrightarrow> cells_step {} {} s s'" "asks r s s' \<Longrightarrow> cells_step (set_option r) {} s s'"
  "completes x s s' \<Longrightarrow> cells_step {} (set_option (cell_of s x)) s s'"
  unfolding cells_step_def by blast+

lemma next_send_cells:
  "next_send (Some a) ec s = Inr s' \<Longrightarrow> cells_step {} (if is_error ec then {} else set_option (cell_of s (Inl a))) s s'"
  using next_send_settles [of a ec s s'] cells_stepI(1,3) by (auto simp del: cell_of.simps split: if_splits)

lemma any_recv_cells:
  "any_recv (Some a) ec s = Inr s' \<Longrightarrow> cells_step {} (if is_error ec then {} else set_option (cell_of s (Inr a))) s s'"
  using any_recv_settles [of a ec s s'] cells_stepI(1,3) by (auto simp del: cell_of.simps split: if_splits)

lemma failed_send_cells: "is_error ec \<Longrightarrow> next_send (Some a) ec s = Inr s' \<Longrightarrow> cells_step {} {} s s'"
  using next_send_cells [of a ec s s'] by simp

lemma send_transmitted_cells:
  assumes run: "send_transmitted sp ec n k s = Inr (pc, bs, s')" and hon: "is_error ec \<or> n = k"
  shows "cells_step {} (case sp of Sending_Body a \<Rightarrow> if is_error ec then {} else set_option (cell_of s (Inl a)) | _ \<Rightarrow> {}) s s'"
proof (cases sp)
  case (Sending_Meta a)
  then show ?thesis using run honest_error [OF _ hon] failed_send_cells settled.frame_refl cells_stepI(1)
    by (auto simp: send_continue_def send_header_def fault_simps split: if_splits)
next
  case (Sending_Header a)
  then show ?thesis using run honest_error [OF _ hon] failed_send_cells settled.frame_refl cells_stepI(1)
    by (auto simp: send_continue_def fault_simps split: if_splits)
next
  case (Sending_Body a)
  then have "next_send (Some a) ec s = Inr s'" using run by (auto simp: send_continue_def bindR_eq_Inr)
  from next_send_cells [OF this] show ?thesis unfolding Sending_Body send_pc.case .
qed (use run in simp_all)

text \<open>The buffer of a pending receive is its own.\<close>

lemma asSpan_tells:
  assumes "recv_asSpan b n ex = Inr (k, b', ex')"
  shows "rb_ex b' = rb_ex b \<and> ex' = ex \<or> rb_ex b' = None \<and> rb_ex b \<noteq> None \<and> tells (rb_ex b) ex ex'"
  using assms by (auto simp: recv_asSpan_def tells_def Let_def split: option.splits if_splits prod.splits)

lemma cell_of_buffer:
  assumes bufs: "bufs_ok s" and op: "mRecvs s a = Some op"
  shows "cell_of (s\<lparr>mBufs := (mBufs s)(ro_Buffer op \<mapsto> b'), mExs := ex\<rparr>) = (cell_of s)(Inr a := rb_ex b')" (is "cell_of ?s = _")
proof
  fix x show "cell_of ?s x = ((cell_of s)(Inr a := rb_ex b')) x"
  proof (cases x)
    case (Inr c)
    have "ro_Buffer op' \<noteq> ro_Buffer op" if "mRecvs s c = Some op'" "c \<noteq> a" for op'
      using bufs op that unfolding bufs_ok_def by blast
    then show ?thesis using Inr op by (cases "c = a"; cases "mRecvs s c") auto
  qed simp
qed

lemma span_settles:
  assumes bufs: "bufs_ok s" and run: "recv_op_asSpan a n s = Inr (k, s')"
  shows "settles s s'"
proof -
  obtain op where op: "mRecvs s a = Some op" using run by (auto simp: recv_op_asSpan_def bindR_eq_Inr split: option.splits)
  then obtain b b' ex where o: "mBufs s (ro_Buffer op) = Some b" "recv_asSpan b n (mExs s) = Inr (k, b', ex)"
    "s' = s\<lparr>mBufs := (mBufs s)(ro_Buffer op \<mapsto> b'), mExs := ex\<rparr>"
    using run by (auto simp: recv_op_asSpan_def bindR_eq_Inr split: option.splits)
  have c: "cell_of s' = (cell_of s)(Inr a := rb_ex b')" unfolding o(3) by (rule cell_of_buffer [OF bufs op])
  have r: "cell_of s (Inr a) = rb_ex b" using op o(1) by simp
  from asSpan_tells [OF o(2)] show ?thesis
  proof (elim disjE conjE)
    assume e: "rb_ex b' = rb_ex b" "ex = mExs s"
    then have "cell_of s' = cell_of s" using c r by (simp add: fun_upd_idem)
    then show ?thesis using e(2) by (intro settles_cells) (simp_all add: o(3))
  next
    assume e: "rb_ex b' = None" "rb_ex b \<noteq> None" "tells (rb_ex b) (mExs s) ex"
    have ex: "mExs s' = ex" by (simp add: o(3))
    have "cell_of s' = (cell_of s)(Inr a := None)" using c e(1) by simp
    moreover have "case cell_of s (Inr a) of None \<Rightarrow> mExs s' = mExs s | Some p \<Rightarrow> \<exists>e. mExs s' = (mExs s)(p \<mapsto> e)"
      using e(3) unfolding r tells_def ex .
    ultimately show ?thesis by (rule settles_drop)
  qed
qed

lemma fill_cells:
  assumes run: "recv_op_fill a bs s = Inr s'"
  shows "cell_of s' = cell_of s" "mExs s' = mExs s"
proof -
  obtain op b where o: "mRecvs s a = Some op" "mBufs s (ro_Buffer op) = Some b"
    "s' = s\<lparr>mBufs := (mBufs s)(ro_Buffer op \<mapsto> fill_span bs b)\<rparr>"
    using run by (auto simp: recv_op_fill_def bindR_eq_Inr split: option.splits)
  show "cell_of s' = cell_of s"
  proof
    fix x show "cell_of s' x = cell_of s x"
    proof (cases x)
      case (Inr c)
      then show ?thesis using o by (cases "mRecvs s c") (auto simp: fill_span_def)
    qed (simp add: o(3))
  qed
  show "mExs s' = mExs s" using o(3) by simp
qed

lemma continue_cells: "recv_continue None ec s = Inr (rp, s') \<Longrightarrow> settles s s'"
  by (auto simp: recv_continue_def bindR_eq_Inr settled.frame_any_None)

lemma recv_resumed_cells:
  assumes bufs: "bufs_ok s" and run: "recv_resumed rp s = Inr (rp', s')"
  shows "settles s s'"
proof (cases rp)
  case Await_Any
  then show ?thesis using run settled.frame_refl by (auto split: option.splits)
next
  case (Await_Fork h)
  show ?thesis
  proof (cases "\<exists>a. mGetRes s = Some (Inr a)")
    case False
    then show ?thesis using run Await_Fork continue_cells by (auto split: option.splits sum.splits)
  next
    case True
    then obtain a n t where t: "recv_op_asSpan a (ucast (hSize h)) s = Inr (n, t)"
      "(if n \<noteq> unat (hSize h) then recv_continue (Some a) (make_error_code BadBufferSize) t else Inr (Reading_Body h a, t)) = Inr (rp', s')"
      using run Await_Fork by (auto simp: bindR_eq_Inr)
    have "settles t s'"
      using t(2) any_recv_settles [of a "make_error_code BadBufferSize" t s'] settled.frame_refl
      by (auto simp: recv_continue_def bindR_eq_Inr split: if_splits)
    then show ?thesis by (rule settles_trans [OF span_settles [OF bufs t(1)]])
  qed
qed (use run in simp_all)

lemma recv_received_cells:
  assumes run: "recv_received rp ec bs s = Inr (rp', s')"
  shows "cells_step {} (case rp of Reading_Body h a \<Rightarrow> if is_error ec then {} else set_option (cell_of s (Inr a)) | _ \<Rightarrow> {}) s s'"
proof (cases rp)
  case Reading_Header
  then have "settles s s'" using run settled.frame_refl
    by (auto simp: bindR_eq_Inr Let_def dest!: continue_cells settled.frame_get_recv split: if_splits)
  then show ?thesis using Reading_Header cells_stepI(1) by simp
next
  case (Reading_Control h)
  then have "settles s s'" using run
    by (auto simp: bindR_eq_Inr dest!: continue_cells settled.frame_initRemote intro: settles_trans split: if_splits)
  then show ?thesis using Reading_Control cells_stepI(1) by simp
next
  case (Reading_Body h a)
  then obtain t where t: "recv_op_fill a bs s = Inr t" "any_recv (Some a) ec t = Inr s'"
    using run by (auto simp: bindR_eq_Inr recv_continue_def)
  have "settles t s' \<Longrightarrow> settles s s'" by (rule settles_trans [OF settles_cells [OF fill_cells [OF t(1)]]])
  moreover have "completes x t s' \<Longrightarrow> completes x s s'" for x unfolding completes_def fill_cells [OF t(1)] .
  ultimately have "cells_step {} (if is_error ec then {} else set_option (cell_of s (Inr a))) s s'"
    using any_recv_settles [OF t(2)] cells_stepI(1,3) by (simp del: cell_of.simps split: if_splits)
  then show ?thesis unfolding Reading_Body recv_pc.case .
qed (use run in simp_all)

lemma with_buffer_settles:
  assumes bufs: "bufs_ok s" and new: "mBufs s d = None"
  shows "settles s (with_buffer d b s)"
proof (rule settles_cells)
  have used: "ro_Buffer op \<noteq> d" if "mRecvs s a = Some op" for a op
    using bufs new that unfolding bufs_ok_def by (metis option.distinct(1))
  show "cell_of (with_buffer d b s) = cell_of s"
  proof
    fix x show "cell_of (with_buffer d b s) x = cell_of s x"
    proof (cases x)
      case (Inr a)
      then show ?thesis using used by (cases "mRecvs s a") (simp_all add: with_buffer_def)
    qed (simp add: with_buffer_def)
  qed
qed (simp add: with_buffer_def)

lemma cells_step_perform:
  assumes ok: "world_ok w" and en: "enabled x w" and hon: "honest_transport x w" and run: "perform x w = Inr w'"
  shows "cells_step (asked_cells x w) (delivered x w) (wSched w) (wSched w')"
proof -
  obtain ch where inv: "sock_inv (wSched w) ch (wSend w) (wRecv w)" using ok by (auto simp: world_ok_def)
  have bufs: "bufs_ok (wSched w)" using inv by (simp add: sock_inv_def sched_inv_def)
  note F = fresh_ops [OF inv]
  have quiet: "cells_step {} {} (wSched w) (wSched w')" if "settles (wSched w) (wSched w')" using that by (rule cells_stepI(1))
  show ?thesis
  proof (cases x)
    case (Act_Send sid b cb tok)
    then obtain r where r: "send sid b cb tok (wSched w) = Inr (r, wSched w')" using run by (auto simp: on_sched_def bindR_eq_Inr)
    have tok: "tok \<noteq> Stop_Requested" using en Act_Send by simp
    show ?thesis using cells_stepI(2) [OF send_asks [OF r tok F(1)]] Act_Send by simp
  next
    case (Act_Recv sid d k tok)
    then have r: "recv sid d k tok (wSched w) = Inr (wSched w')" using run by (auto simp: on_sched_def bindR_eq_Inr)
    have tok: "tok \<noteq> Stop_Requested" using en Act_Recv by simp
    show ?thesis using cells_stepI(2) [OF recv_asks [OF r tok F(2)]] unfolding Act_Recv asked_cells.simps delivered.simps .
  next
    case (Act_Flush k)
    then show ?thesis using run settles_flush quiet by (auto simp: on_sched_def bindR_eq_Inr)
  next
    case (Act_Buffer d b)
    have "settles (wSched w) (with_buffer d b (wSched w))" by (rule with_buffer_settles [OF bufs]) (use en Act_Buffer in simp)
    then show ?thesis using run Act_Buffer quiet by (auto simp: on_sched_def)
  next
    case Act_Close
    then show ?thesis using run settled.frame_close quiet by (auto simp: on_sched_def bindR_eq_Inr)
  next
    case (Act_Fork sid)
    then show ?thesis using run settled.frame_fork quiet by (auto simp: on_sched_def bindR_eq_Inr)
  next
    case (Act_Executor ex sid)
    then show ?thesis using run settled.frame_executor quiet by (auto simp: on_sched_def bindR_eq_Inr)
  next
    case (Act_Stop_Send a)
    then show ?thesis using en run settled.frame_stop(1) quiet by (auto simp: on_sched_def bindR_eq_Inr)
  next
    case (Act_Stop_Recv a)
    then show ?thesis using en run settled.frame_stop(2) quiet by (auto simp: on_sched_def bindR_eq_Inr)
  next
    case Send_Resumed
    then show ?thesis using run settled.frame_send_resumed quiet by (auto simp: on_send_def bindR_eq_Inr)
  next
    case (Transmitted ec n)
    then obtain pc bs where "send_transmitted (wSend w) ec n (length (wSending w)) (wSched w) = Inr (pc, bs, wSched w')"
      using run by (auto simp: on_send_def bindR_eq_Inr)
    from send_transmitted_cells [OF this] hon show ?thesis unfolding Transmitted by simp
  next
    case Recv_Resumed
    then have "recv_resumed (wRecv w) (wSched w) = Inr (wRecv w', wSched w')" using run by (auto simp: on_recv_def bindR_eq_Inr)
    then show ?thesis using recv_resumed_cells [OF bufs] quiet Recv_Resumed by simp
  next
    case (Received ec bs)
    then have "recv_received (wRecv w) ec bs (wSched w) = Inr (wRecv w', wSched w')" using run by (auto simp: on_recv_def bindR_eq_Inr)
    from recv_received_cells [OF this] show ?thesis unfolding Received asked_cells.simps delivered.simps .
  qed
qed

lemma promises_step:
  assumes "promises_ok C D s" and "cells_step A T s s'" and "\<forall>p \<in> A. fresh_cell s p"
  shows "promises_ok (C \<union> A) (D - A \<union> T) s'"
  using assms promises_settles promises_asks promises_completes unfolding cells_step_def by fastforce

lemma served_inv: "served sid w C D \<Longrightarrow> world_ok w \<and> promises_ok C D (wSched w)"
proof (induction rule: served.induct)
  case served_init
  have "reachable sid (start_world sid)" using reachable_init [OF sched_init_inv(1), of sid] by (simp add: start_world_def)
  moreover have "cell_of (fresh_sched sid) y = None" for y
    by (cases y) (simp_all add: fresh_sched_def localized_def local_base_def Let_def set_fork_def with_fork_def)
  ultimately show ?case using reachable_ok by (auto simp: promises_ok_def tidy_def start_world_def simp del: cell_of.simps)
next
  case (served_step w C D x w')
  then have ok: "world_ok w" and pr: "promises_ok C D (wSched w)" by blast+
  have "world_ok w'" using step_ok [OF ok served_step(2)] served_step(5) by fastforce
  then show ?case using promises_step [OF pr cells_step_perform [OF ok served_step(2,3,5)] served_step(4)] by blast
qed

text \<open>An awaiter asks for its own cell.\<close>

lemma send_awaiter_asks:
  assumes "\<not> sa_Move a" and "send_await_suspend a h (wSched w) = Inr (r, s')"
  shows "perform (Act_Send (sa_Id a) (send_getBuffer a) h (sa_Token a)) w = Inr (w\<lparr>wSched := s'\<rparr>)"
    and "asked_cells (Act_Send (sa_Id a) (send_getBuffer a) h (sa_Token a)) w = {sa_ExPtr a}"
  using assms by (simp_all add: send_await_suspend_def ref_await_suspend_def send_getBuffer_def on_sched_def ref_send_buffer_def)

lemma recv_awaiter_asks:
  assumes "mBufs (wSched w) (ra_Ref a) = Some b" "rb_ex b = Some (ra_ExPtr a)" and "recv_await_suspend a h (wSched w) = Inr s'"
  shows "perform (Act_Recv (ra_Id a) (ra_Ref a) h (ra_Token a)) w = Inr (w\<lparr>wSched := s'\<rparr>)"
    and "asked_cells (Act_Recv (ra_Id a) (ra_Ref a) h (ra_Token a)) w = {ra_ExPtr a}"
  using assms by (simp_all add: recv_await_suspend_def on_sched_def)

lemma addTrace_code: "as_error_code (addTraceRethrow e st) = as_error_code e"
  by (cases e) simp_all

lemma answer_of_cell:
  assumes "served sid w C D" and "p \<in> C" and "\<not> owed (wSched w) p"
  shows "mExs (wSched w) p = None \<longleftrightarrow> p \<in> D"
  using served_inv [OF assms(1)] assms(2,3) unfolding promises_ok_def by blast

text \<open>The receive of the example asks for the cell 1, and is answered in the last step.\<close>

definition demo_awaiter :: recv_awaiter where
  "demo_awaiter = \<lparr>ra_Id = demo_sid, ra_Token = No_Stop, ra_ExPtr = 1, ra_Loc = ('''', 0), ra_Ref = 1, ra_Move = False\<rparr>"

lemma demo_cells:
  "mExs demo0 1 = None" "map_option rb_ex (mBufs demo0 1) = Some (Some 1)" "cell_of (wSched (demo_got 7)) (Inr 1) = Some 1"
  by code_simp+

lemma demo_served_step:
  assumes "served demo_sid (demo_got n) C D" "n < 8" "\<forall>p \<in> asked_cells (demo_acts ! n) (demo_got n). fresh_cell (wSched (demo_got n)) p"
  shows "served demo_sid (demo_got (Suc n)) (C \<union> asked_cells (demo_acts ! n) (demo_got n))
    (D - asked_cells (demo_acts ! n) (demo_got n) \<union> delivered (demo_acts ! n) (demo_got n))"
  using served_step [OF assms(1) _ _ assms(3)] demo_enabled demo_step assms(2) by blast

lemma demo_served: "served demo_sid (demo_got 8) {1} {1}"
proof -
  note a = demo_acts_nth and f = demo_got_pcs
  have "served demo_sid (demo_got 0) {} {}" unfolding demo_got_0 by (rule served_init)
  from demo_served_step [OF this] have 1: "served demo_sid (demo_got 1) {} {}" by (simp add: a)
  have "unused_cell demo0 1" using unused_cell_code [OF demo0_inv] by simp
  then have "fresh_cell demo0 1" using no_pending_recv [OF demo0_inv f(14)] demo_cells(1) by (simp add: fresh_cell_def)
  moreover have c: "asked_cells (demo_acts ! 1) (demo_got 1) = {1}" using demo_cells(2) by (auto simp: a demo_got_1 simp del: One_nat_def)
  ultimately have 2: "served demo_sid (demo_got 2) {1} {}"
    using demo_served_step [OF 1] by (simp add: c demo_got_1 a(2) del: One_nat_def asked_cells.simps)
  have 3: "served demo_sid (demo_got 3) {1} {}" using demo_served_step [OF 2] by (simp add: a)
  have 4: "served demo_sid (demo_got 4) {1} {}" using demo_served_step [OF 3] f(2) by (simp add: a)
  have 5: "served demo_sid (demo_got 5) {1} {}" using demo_served_step [OF 4] f(3) by (simp add: a)
  have 6: "served demo_sid (demo_got 6) {1} {}" using demo_served_step [OF 5] f(4) by (simp add: a)
  have 7: "served demo_sid (demo_got 7) {1} {}" using demo_served_step [OF 6] by (simp add: a)
  show ?thesis using demo_served_step [OF 7] f(6) demo_cells(3)
    by (simp add: a is_error_def no_error_def del: One_nat_def cell_of.simps)
qed

text \<open>
  C6. An awaiter tells the truth. In every run of a socket over a transport that reports short
  transfers, once the operation of an awaiter is no longer pending, its \<^verbatim>\<open>await_resume\<close> returns
  normally if and only if the last transfer of its message was completed without an error; otherwise it
  throws, with the error code that the scheduler stored in its cell. So no send or receive that was
  aborted, cancelled, refused or answered with the wrong size looks like a success, and none that
  succeeded is reported as failed, whatever happens to the socket afterwards.
\<close>

theorem awaiter_tells:
  assumes "served sid w C D"
  shows "(sa_ExPtr a \<in> C \<longrightarrow> \<not> owed (wSched w) (sa_ExPtr a) \<longrightarrow>
      (send_await_resume a st (wSched w) = Inr () \<longleftrightarrow> sa_ExPtr a \<in> D)
      \<and> (\<forall>e. send_await_resume a st (wSched w) = Inl e \<longrightarrow>
          (\<exists>e0. mExs (wSched w) (sa_ExPtr a) = Some e0 \<and> as_error_code e = as_error_code e0)))
    \<and> (ra_ExPtr r \<in> C \<longrightarrow> \<not> owed (wSched w) (ra_ExPtr r) \<longrightarrow>
      ((\<exists>c. recv_await_resume r st (wSched w) = Inr c) \<longleftrightarrow> ra_ExPtr r \<in> D)
      \<and> (\<forall>e. recv_await_resume r st (wSched w) = Inl e \<longrightarrow>
          (\<exists>e0. mExs (wSched w) (ra_ExPtr r) = Some e0 \<and> as_error_code e = as_error_code e0)))"
  using answer_of_cell [OF assms, of "sa_ExPtr a"] answer_of_cell [OF assms, of "ra_ExPtr r"]
  by (auto simp: send_await_resume_def recv_await_resume_def addTrace_code split: option.splits)

theorem awaiter_tells_witness:
  "\<exists>c. recv_await_resume demo_awaiter [] (wSched (demo_got 8)) = Inr c"
proof -
  have "\<not> owed (wSched (demo_got 8)) 1" using served_inv [OF demo_served] by (simp add: promises_ok_def)
  then show ?thesis using awaiter_tells [OF demo_served, of undefined "[]" demo_awaiter]
    by (simp add: demo_awaiter_def del: One_nat_def)
qed

section \<open>A message that is moved\<close>

text \<open>
  C21. What becomes of a send that the socket refuses. Awaiting a send by reference of an empty message,
  or on a socket in error, throws the reason from \<^verbatim>\<open>await_resume\<close>. If the message is moved into
  the awaiter, the same refusal queues nothing, writes to no exception cell and the caller goes on at
  once as if the message had been sent.
\<close>

theorem moved_send_is_silent:
  assumes inv: "sock_inv s ch sp rp" and fk: "local_fork (sa_Id a) s i" and cell: "fresh_cell s (sa_ExPtr a)"
    and refused: "sb_data (send_getBuffer a) = [] \<or> is_error (mEC s)"
  shows "\<exists>r s'. send_await_suspend a h s = Inr (r, s') \<and> mSends s' = mSends s
    \<and> (if sa_Move a then r = Some (User h) \<and> mExs s' = mExs s \<and> send_await_resume a st s' = Inr ()
       else \<exists>e. send_await_resume a st s' = Inl e
         \<and> as_error_code e = (if sb_data (send_getBuffer a) = [] then make_error_code SendLengthZeroMsg else mEC s))"
proof -
  let ?b = "send_getBuffer a" and ?k = "if sa_Move a then noop_coroutine else h"
  let ?e = "if sb_data ?b = [] then make_error_code SendLengthZeroMsg else mEC s"
  have ex: "sb_ex ?b = (if sa_Move a then None else Some (sa_ExPtr a))"
    by (simp add: send_getBuffer_def mv_send_buffer_def ref_send_buffer_def)
  then have b: "fresh_buffer s ?b" using cell by (simp add: fresh_buffer_def)
  have "\<exists>r s'. send (sa_Id a) ?b ?k (sa_Token a) s = Inr (r, s') \<and> mSends s' = mSends s \<and> mExs s' = note_error ?b ?e (mExs s)"
  proof (cases "sb_data ?b = []")
    case True
    then show ?thesis using send_empty(1) [OF inv True b] by simp
  next
    case False
    then have "is_error (mEC s)" using refused by simp
    from send_closed(1) [OF inv False fk this b] show ?thesis using False by (simp add: emit_def)
  qed
  then obtain r s' where s': "send (sa_Id a) ?b ?k (sa_Token a) s = Inr (r, s')" "mSends s' = mSends s" "mExs s' = note_error ?b ?e (mExs s)"
    by blast
  have none: "mExs s (sa_ExPtr a) = None" using cell by (simp add: fresh_cell_def)
  show ?thesis
  proof (cases "sa_Move a")
    case True
    then have "mExs s' = mExs s" using s'(3) ex by (simp add: note_error_def)
    then show ?thesis using s'(1,2) none True by (simp add: send_await_suspend_def move_await_suspend_def send_await_resume_def)
  next
    case False
    then have "mExs s' (sa_ExPtr a) = Some (sys_error ?e)" using s'(3) ex by (simp add: note_error_def)
    then show ?thesis using s'(1,2) False by (auto simp: send_await_suspend_def ref_await_suspend_def send_await_resume_def sys_error_def)
  qed
qed

definition demo_empty_send :: "bool \<Rightarrow> send_awaiter" where
  "demo_empty_send move = (if move then send_move else send_ref) \<lparr>skt_Id = demo_sid\<rparr>
     \<lparr>cKind = Resizable, cElem = 1, cMax = 100, cBytes = []\<rparr> No_Stop 2"

theorem moved_send_is_silent_witness:
  "(\<exists>s'. send_await_suspend (demo_empty_send True) 10 demo0 = Inr (Some (User 10), s') \<and> send_await_resume (demo_empty_send True) [] s' = Inr ())
   \<and> (\<exists>r s' e. send_await_suspend (demo_empty_send False) 10 demo0 = Inr (r, s') \<and> send_await_resume (demo_empty_send False) [] s' = Inl e
        \<and> as_error_code e = make_error_code SendLengthZeroMsg)"
proof -
  have c: "fresh_cell demo0 2"
    by (simp add: fresh_cell_def unused_cell_def demo1_fork(4)) (simp add: demo0_def with_buffer_def)
  have id: "sa_Id (demo_empty_send m) = demo_sid" "sa_ExPtr (demo_empty_send m) = 2" "sa_Move (demo_empty_send m) = m"
    "sb_data (send_getBuffer (demo_empty_send m)) = []" for m
    by (simp_all add: demo_empty_send_def send_move_def send_ref_def send_getBuffer_def mv_send_buffer_def ref_send_buffer_def)
  have fk: "local_fork (sa_Id (demo_empty_send m)) demo0 0" for m using demo1_fork(1) by (simp add: id)
  show ?thesis
    using moved_send_is_silent [OF demo0_inv fk [of True], where h = 10 and st = "[]"]
      moved_send_is_silent [OF demo0_inv fk [of False], where h = 10 and st = "[]"] c by (auto simp: id)
qed

section \<open>Closing\<close>

text \<open>
  C22. Closing a socket while its receive task waits for a user. If the header of a message has arrived
  for a fork on which nobody receives, and the send task has nothing to send, then \<^verbatim>\<open>close\<close>
  sets the flag and closes the transport, but no task and no transfer takes a step any more: the pending
  operations, such as receives on other forks, stay pending until a user makes another call. The
  scheduler's own \<^verbatim>\<open>close\<close>, which only its destructor calls, does wake both tasks.
\<close>

theorem close_misses_waiting:
  assumes "reachable sid (apWorld p)" and "wRecv (apWorld p) = Await_Fork m" and "mGetReq (wSched (apWorld p)) = Some r"
    and "wSend (apWorld p) = Await_Next" and "mNextSendOp (wSched (apWorld p))"
  shows "closed (snd (close_await_suspend t h p)) \<and> apWorld (snd (close_await_suspend t h p)) = apWorld p
    \<and> (\<forall>x \<in> {Send_Resumed, Recv_Resumed} \<union> range (\<lambda>(ec, n). Transmitted ec n) \<union> range (\<lambda>(ec, bs). Received ec bs).
          \<not> enabled x (apWorld (snd (close_await_suspend t h p))))
    \<and> (\<exists>w'. perform Act_Close (apWorld p) = Inr w' \<and> enabled Send_Resumed w' \<and> enabled Recv_Resumed w')"
proof -
  let ?w = "apWorld p" and ?p = "snd (close_await_suspend t h p)"
  have p: "closed ?p" "apWorld ?p = ?w"
    by (auto simp: close_await_suspend_def closed_def Let_def split: transport_close.splits option.splits)
  obtain ch where inv: "sock_inv (wSched ?w) ch Await_Next (Await_Fork m)"
    using reachable_ok [OF assms(1)] assms(2,4) by (auto simp: world_ok_def)
  from close_sets_error [OF inv] obtain s' where s': "sched_close (wSched ?w) = Inr s'" "sock_inv s' ch Await_Next (Await_Fork m)"
    "is_error (mEC s')" by (auto split: if_splits)
  have "\<not> mNextSendOp s'" using s'(2,3) by (auto simp: sock_inv_def send_phase_def)
  moreover have "recv_phase s' (Await_Fork m)" using s'(2) by (simp add: sock_inv_def)
  from recv_phaseD(2) [OF this] have "mGetReq s' = None" using s'(3) by (cases "mGetReq s'") auto
  ultimately have "\<exists>w'. perform Act_Close ?w = Inr w' \<and> enabled Send_Resumed w' \<and> enabled Recv_Resumed w'"
    using s'(1) assms(2,4) by (auto simp: on_sched_def)
  then show ?thesis unfolding p(2) using p(1) assms by auto
qed

text \<open>The peer announces another fork and sends on it, while the user receives on the first one.\<close>

definition demo_other :: "u8 list" where
  "demo_other = stream_bytes [Announce 1 (9, 9), Message 1 [1, 2, 3]]"

definition demo_announced :: world where
  "demo_announced = step_of (Received no_error (take 16 (drop 8 demo_other))) (demo_got 4)"

definition demo_waits :: world where
  "demo_waits = step_of (Received no_error (take 8 (drop 24 demo_other))) demo_announced"

lemma demo_waits_facts:
  "\<not> isl (perform (Received no_error (take 16 (drop 8 demo_other))) (demo_got 4))"
  "\<not> isl (perform (Received no_error (take 8 (drop 24 demo_other))) demo_announced)"
  "length demo_other = 35" "wRecv demo_announced = Reading_Header"
  "wRecv demo_waits = Await_Fork \<lparr>hSize = 3, hForkId = 1\<rparr>" "mGetReq (wSched demo_waits) = Some 1"
  "wSend demo_waits = Await_Next" "mNextSendOp (wSched demo_waits)"
  "mNumRecvs (wSched demo_waits) = 1"
  by code_simp+

lemma demo_waits_reachable: "reachable demo_sid demo_waits"
proof -
  have start: "reachable demo_sid (demo_got 0)"
    using reachable_init [OF sched_init_inv(1), of demo_sid] by (simp add: demo_got_0 start_world_def)
  have "n \<le> 4 \<Longrightarrow> reachable demo_sid (demo_got n)" for n
  proof (induction n)
    case (Suc n)
    then have n: "n < 8" "reachable demo_sid (demo_got n)" by simp_all
    show ?case by (rule reachable_step [OF n(2) _ demo_step [OF n(1)]]) (use demo_enabled [OF n(1)] in blast)
  qed (rule start)
  then have 4: "reachable demo_sid (demo_got 4)" by simp
  note f = demo_waits_facts
  have 5: "reachable demo_sid demo_announced"
    unfolding demo_announced_def
    by (rule reachable_step [OF 4 _ step_of_Inr [OF f(1)]]) (use demo_got_pcs(3) f(3) in simp)
  show ?thesis
    unfolding demo_waits_def
    by (rule reachable_step [OF 5 _ step_of_Inr [OF f(2)]]) (use f(3,4) in simp)
qed

theorem close_misses_waiting_witness:
  "\<exists>w'. perform Act_Close demo_waits = Inr w' \<and> mNumRecvs (wSched demo_waits) = 1
     \<and> \<not> enabled Send_Resumed demo_waits \<and> \<not> enabled Recv_Resumed demo_waits \<and> enabled Send_Resumed w' \<and> enabled Recv_Resumed w'"
  using close_misses_waiting [of demo_sid "\<lparr>apWorld = demo_waits, apClosed = False\<rparr>" "\<lparr>hSize = 3, hForkId = 1\<rparr>" 1 Close_Void 10]
    demo_waits_reachable demo_waits_facts
  by (auto simp: close_await_suspend_def)

end
