(* ===== verification/Local_Socket.thy ===== *)
theory Local_Socket
  imports Prelude Error_Code "HOL-Library.Sublist"
begin

text \<open>
  The in-process socket pair, \<^verbatim>\<open>coproto/Socket/LocalAsyncSock.h\<close>: two ends that share one
  state, awaiters for single transfers, cancellation of a transfer, close, and injected
  errors. The index of an end (0 or 1) is a truth value; an awaiter is an object of its coroutine and is
  pointed to from the shared state, so awaiters live in a map from addresses. Each operation is one
  critical section of the shared mutex and returns the coroutines that it resumes, in order.
\<close>

section \<open>State\<close>

datatype io_type = Io_Send | Io_Recv

datatype io_token = Never_Stops | May_Stop | Already_Stopped

text \<open>
  \<open>aw_Data\<close> is the rest of the span (for a receive only its length matters) and \<open>aw_Done\<close> the bytes of
  the span that have been transferred already.
\<close>

record awaiter =
  aw_Sock :: bool
  aw_Data :: "u8 list"
  aw_Done :: "u8 list"
  aw_TotalSize :: nat
  aw_Type :: io_type
  aw_Ec :: "error_code option"
  aw_Handle :: "nat option"
  aw_Token :: io_token
  aw_Reg :: bool

record op_pair =
  op_Send :: "nat option"
  op_Recv :: "nat option"

record shared_state =
  ps_Ec :: "bool \<Rightarrow> error_code"
  ps_Inbound :: "bool \<Rightarrow> op_pair"
  ps_Ops :: "nat \<Rightarrow> awaiter option"

definition make_pair :: shared_state where
  "make_pair = \<lparr>ps_Ec = (\<lambda>_. no_error), ps_Inbound = (\<lambda>_. \<lparr>op_Send = None, op_Recv = None\<rparr>), ps_Ops = (\<lambda>_. None)\<rparr>"

definition new_awaiter :: "bool \<Rightarrow> u8 list \<Rightarrow> io_type \<Rightarrow> io_token \<Rightarrow> fault + awaiter" where
  "new_awaiter i data ty tok = checkR (data \<noteq> []) Assertion (Inr \<lparr>aw_Sock = i, aw_Data = data, aw_Done = [],
     aw_TotalSize = length data, aw_Type = ty, aw_Ec = None, aw_Handle = None, aw_Token = tok, aw_Reg = False\<rparr>)"

text \<open>\<^verbatim>\<open>Sock::send\<close> and \<^verbatim>\<open>Sock::recv\<close> only construct the awaiter.\<close>

definition local_send :: "bool \<Rightarrow> u8 list \<Rightarrow> io_token \<Rightarrow> fault + awaiter" where
  "local_send i data tok = new_awaiter i data Io_Send tok"

definition local_recv :: "bool \<Rightarrow> u8 list \<Rightarrow> io_token \<Rightarrow> fault + awaiter" where
  "local_recv i buf tok = new_awaiter i buf Io_Recv tok"

section \<open>Access to the shared state\<close>

definition find_op :: "nat \<Rightarrow> shared_state \<Rightarrow> fault + awaiter" where
  "find_op a s = (case ps_Ops s a of None \<Rightarrow> Inl Bad_Pointer | Some w \<Rightarrow> Inr w)"

definition put_op :: "nat \<Rightarrow> awaiter \<Rightarrow> shared_state \<Rightarrow> shared_state" where
  "put_op a w s = s\<lparr>ps_Ops := (ps_Ops s)(a \<mapsto> w)\<rparr>"

definition outbound :: "bool \<Rightarrow> shared_state \<Rightarrow> op_pair" where
  "outbound i s = ps_Inbound s (\<not> i)"

definition inbound :: "bool \<Rightarrow> shared_state \<Rightarrow> op_pair" where
  "inbound i s = ps_Inbound s i"

definition set_send_slot :: "bool \<Rightarrow> nat option \<Rightarrow> shared_state \<Rightarrow> shared_state" where
  "set_send_slot d x s = s\<lparr>ps_Inbound := (ps_Inbound s)(d := (ps_Inbound s d)\<lparr>op_Send := x\<rparr>)\<rparr>"

definition set_recv_slot :: "bool \<Rightarrow> nat option \<Rightarrow> shared_state \<Rightarrow> shared_state" where
  "set_recv_slot d x s = s\<lparr>ps_Inbound := (ps_Inbound s)(d := (ps_Inbound s d)\<lparr>op_Recv := x\<rparr>)\<rparr>"

section \<open>Cancellation of a transfer\<close>

text \<open>
  The stop callback. It may run while the awaiter is being suspended, when the handle is not set yet;
  then nothing is pending and nothing is resumed.
\<close>

definition stop_awaiter :: "nat \<Rightarrow> shared_state \<Rightarrow> fault + nat option \<times> shared_state" where
  "stop_awaiter a s = bindR (find_op a s) (\<lambda>w. if aw_Ec w \<noteq> None then Inr (None, s)
     else let cb = aw_Handle w; this = (if cb = None then None else Some a) in
       bindR (if aw_Type w = Io_Send
         then checkR (op_Send (outbound (aw_Sock w) s) = this) Assertion (Inr (set_send_slot (\<not> aw_Sock w) None s))
         else checkR (op_Recv (inbound (aw_Sock w) s) = this) Assertion (Inr (set_recv_slot (aw_Sock w) None s)))
       (\<lambda>s. Inr (cb, put_op a (w\<lparr>aw_Ec := Some (make_error_code Operation_aborted)\<rparr>) s)))"

section \<open>Starting a transfer\<close>

text \<open>
  Both sides of a direction are present: move as many bytes as both allow, and complete the side
  or sides that are finished.
\<close>

definition transfer :: "nat \<Rightarrow> bool \<Rightarrow> shared_state \<Rightarrow> fault + nat list \<times> shared_state" where
  "transfer h d s = (case (op_Send (ps_Inbound s d), op_Recv (ps_Inbound s d)) of
     (Some a, Some b) \<Rightarrow> bindR (find_op a s) (\<lambda>x. bindR (find_op b s) (\<lambda>y.
        checkR (aw_Type y = Io_Recv) Assertion (checkR (aw_Type x = Io_Send) Assertion
        (let k = min (length (aw_Data x)) (length (aw_Data y)) in checkR (k \<noteq> 0) Assertion
          (let src = take k (aw_Data x);
               x = x\<lparr>aw_Data := drop k (aw_Data x), aw_Done := aw_Done x @ src\<rparr>;
               y = y\<lparr>aw_Data := drop k (aw_Data y), aw_Done := aw_Done y @ src\<rparr>;
               full_y = (aw_Data y = []); full_x = (aw_Data x = []);
               y = (if full_y then y\<lparr>aw_Ec := Some no_error, aw_Reg := False\<rparr> else y);
               x = (if full_x then x\<lparr>aw_Ec := Some no_error, aw_Reg := False\<rparr> else x);
               s = put_op b y (put_op a x s);
               s = (if full_y then set_recv_slot d None s else s);
               s = (if full_x then set_send_slot d None s else s)
           in if full_y then (case aw_Handle y of None \<Rightarrow> Inl Assertion
              | Some c0 \<Rightarrow> if full_x then (case aw_Handle x of None \<Rightarrow> Inr ([c0], s)
                    | Some c1 \<Rightarrow> Inr ([if h = c0 then c1 else c0, h], s))
                  else Inr ([c0], s))
              else (case aw_Handle x of None \<Rightarrow> Inl Assertion | Some c1 \<Rightarrow> Inr ([c1], s)))))))
   | _ \<Rightarrow> Inl Assertion)"

text \<open>
  The registration of the stop callback, which runs at once when the stop was requested already.
\<close>

definition register_stop :: "nat \<Rightarrow> shared_state \<Rightarrow> fault + shared_state" where
  "register_stop a s = bindR (find_op a s) (\<lambda>w. if aw_Token w = Never_Stops then Inr s
     else let s = put_op a (w\<lparr>aw_Reg := True\<rparr>) s in
       if aw_Token w = Already_Stopped then bindR (stop_awaiter a s) (\<lambda>(_, s). Inr s) else Inr s)"

text \<open>\<open>dbg\<close> is the result of the error injector, if one is installed.\<close>

definition inject :: "error_code option \<Rightarrow> bool \<Rightarrow> shared_state \<Rightarrow> shared_state" where
  "inject dbg i s = (case dbg of None \<Rightarrow> s
     | Some e \<Rightarrow> if is_error (ps_Ec s i) then s else s\<lparr>ps_Ec := (ps_Ec s)(i := e)\<rparr>)"

definition await_suspend :: "nat \<Rightarrow> nat \<Rightarrow> error_code option \<Rightarrow> shared_state \<Rightarrow> fault + nat list \<times> shared_state" where
  "await_suspend a h dbg s = bindR (register_stop a s) (\<lambda>s. bindR (find_op a s) (\<lambda>w.
     let i = aw_Sock w; w = w\<lparr>aw_Handle := Some h\<rparr>; s = put_op a w s in
     if aw_Ec w \<noteq> None then Inr ([h], s)
     else let s = inject dbg i s in
     if is_error (ps_Ec s i) then Inr ([h], put_op a (w\<lparr>aw_Ec := Some (ps_Ec s i)\<rparr>) s)
     else if aw_Type w = Io_Send
     then checkR (op_Send (outbound i s) = None) Assertion (let s = set_send_slot (\<not> i) (Some a) s in
        if op_Recv (outbound i s) \<noteq> None then transfer h (\<not> i) s else Inr ([], s))
     else checkR (op_Recv (inbound i s) = None) Assertion (let s = set_recv_slot i (Some a) s in
        if op_Send (inbound i s) \<noteq> None then transfer h i s else Inr ([], s))))"

text \<open>The error code and the number of bytes transferred.\<close>

definition await_resume :: "awaiter \<Rightarrow> fault + error_code \<times> nat" where
  "await_resume w = (case aw_Ec w of None \<Rightarrow> Inl Assertion | Some e \<Rightarrow> Inr (e, aw_TotalSize w - length (aw_Data w)))"

section \<open>Closing an end\<close>

text \<open>One of the four slots: complete what is pending there with the error \<open>e\<close>.\<close>

definition fail_slot :: "nat option \<Rightarrow> error_code \<Rightarrow> shared_state \<Rightarrow> fault + nat list \<times> shared_state" where
  "fail_slot x e s = (case x of None \<Rightarrow> Inr ([], s)
     | Some a \<Rightarrow> bindR (find_op a s) (\<lambda>w. case aw_Handle w of None \<Rightarrow> Inl Assertion
        | Some h \<Rightarrow> checkR (aw_Ec w = None) Assertion (Inr ([h], put_op a (w\<lparr>aw_Ec := Some e\<rparr>) s))))"

definition local_close :: "bool \<Rightarrow> shared_state \<Rightarrow> fault + nat list \<times> shared_state" where
  "local_close i s =
     (let s = (if is_error (ps_Ec s i) then s else s\<lparr>ps_Ec := (ps_Ec s)(i := make_error_code Closed)\<rparr>);
          s = (if is_error (ps_Ec s (\<not> i)) then s else s\<lparr>ps_Ec := (ps_Ec s)(\<not> i := make_error_code RemoteClosed)\<rparr>) in
      bindR (fail_slot (op_Recv (inbound i s)) (make_error_code Closed) (set_recv_slot i None s)) (\<lambda>(h0, s).
      bindR (fail_slot (op_Send (inbound i s)) (make_error_code RemoteClosed) (set_send_slot i None s)) (\<lambda>(h1, s).
      bindR (fail_slot (op_Recv (outbound i s)) (make_error_code RemoteClosed) (set_recv_slot (\<not> i) None s)) (\<lambda>(h2, s).
      bindR (fail_slot (op_Send (outbound i s)) (make_error_code Closed) (set_send_slot (\<not> i) None s)) (\<lambda>(h3, s).
        Inr (h0 @ h1 @ h2 @ h3, s))))))"

section \<open>The invariant\<close>

text \<open>A pending awaiter: unfinished, with a handle, in the slot that its end and type say.\<close>

definition pending_at :: "shared_state \<Rightarrow> bool \<Rightarrow> io_type \<Rightarrow> nat \<Rightarrow> bool" where
  "pending_at s d ty a \<longleftrightarrow> (\<exists>w. ps_Ops s a = Some w \<and> aw_Type w = ty \<and> aw_Sock w = (if ty = Io_Send then \<not> d else d)
     \<and> aw_Ec w = None \<and> aw_Handle w \<noteq> None \<and> aw_Data w \<noteq> [])"

definition pair_ok :: "shared_state \<Rightarrow> bool" where
  "pair_ok s \<longleftrightarrow> (\<forall>d. (\<forall>a. op_Send (ps_Inbound s d) = Some a \<longrightarrow> pending_at s d Io_Send a)
     \<and> (\<forall>b. op_Recv (ps_Inbound s d) = Some b \<longrightarrow> pending_at s d Io_Recv b)
     \<and> (op_Send (ps_Inbound s d) = None \<or> op_Recv (ps_Inbound s d) = None))"

lemma pair_okD:
  assumes "pair_ok s"
  shows "op_Send (ps_Inbound s d) = Some a \<Longrightarrow> pending_at s d Io_Send a"
    and "op_Recv (ps_Inbound s d) = Some b \<Longrightarrow> pending_at s d Io_Recv b"
    and "op_Send (ps_Inbound s d) = None \<or> op_Recv (ps_Inbound s d) = None"
  using assms unfolding pair_ok_def by (simp_all only:)

lemma make_pair_ok: "pair_ok make_pair"
  by (simp add: pair_ok_def make_pair_def)

section \<open>Transfers\<close>

definition done_of :: "shared_state \<Rightarrow> nat \<Rightarrow> u8 list" where
  "done_of s a = (case ps_Ops s a of None \<Rightarrow> [] | Some w \<Rightarrow> aw_Done w)"

text \<open>The awaiter after \<open>bs\<close> were moved.\<close>

definition advance :: "u8 list \<Rightarrow> awaiter \<Rightarrow> awaiter" where
  "advance bs w = (let w = w\<lparr>aw_Data := drop (length bs) (aw_Data w), aw_Done := aw_Done w @ bs\<rparr> in
     if aw_Data w = [] then w\<lparr>aw_Ec := Some no_error, aw_Reg := False\<rparr> else w)"

lemma advance_simps [simp]:
  "aw_Data (advance bs w) = drop (length bs) (aw_Data w)" "aw_Done (advance bs w) = aw_Done w @ bs"
  "aw_Type (advance bs w) = aw_Type w" "aw_Sock (advance bs w) = aw_Sock w" "aw_Handle (advance bs w) = aw_Handle w"
  "aw_TotalSize (advance bs w) = aw_TotalSize w"
  "aw_Ec (advance bs w) = (if length (aw_Data w) \<le> length bs then Some no_error else aw_Ec w)"
  by (auto simp: advance_def Let_def)

definition moved_bytes :: "bool \<Rightarrow> shared_state \<Rightarrow> nat \<Rightarrow> nat \<Rightarrow> u8 list" where
  "moved_bytes d s a b = take (length (aw_Data (the (ps_Ops s b)))) (aw_Data (the (ps_Ops s a)))"

definition after_move :: "bool \<Rightarrow> nat \<Rightarrow> nat \<Rightarrow> shared_state \<Rightarrow> shared_state" where
  "after_move d a b s = (let x = the (ps_Ops s a); y = the (ps_Ops s b); bs = moved_bytes d s a b in
     s\<lparr>ps_Ops := (ps_Ops s)(a \<mapsto> advance bs x, b \<mapsto> advance bs y),
       ps_Inbound := (ps_Inbound s)(d := \<lparr>op_Send = (if length bs = length (aw_Data x) then None else Some a),
          op_Recv = (if length bs = length (aw_Data y) then None else Some b)\<rparr>)\<rparr>)"

lemma transfer_eq:
  assumes p: "ps_Inbound s d = \<lparr>op_Send = Some a, op_Recv = Some b\<rparr>"
    and a: "pending_at s d Io_Send a" and b: "pending_at s d Io_Recv b"
  shows "\<exists>hs. transfer h d s = Inr (hs, after_move d a b s) \<and> hs \<noteq> []"
proof -
  obtain x where x: "ps_Ops s a = Some x" "aw_Type x = Io_Send" "aw_Data x \<noteq> []" "aw_Handle x \<noteq> None"
    using a by (auto simp: pending_at_def)
  obtain y where y: "ps_Ops s b = Some y" "aw_Type y = Io_Recv" "aw_Data y \<noteq> []" "aw_Handle y \<noteq> None"
    using b by (auto simp: pending_at_def)
  have ab: "a \<noteq> b" using x(1,2) y(1,2) by auto
  obtain c1 c0 where c: "aw_Handle x = Some c1" "aw_Handle y = Some c0" using x(4) y(4) by blast
  let ?k = "min (length (aw_Data x)) (length (aw_Data y))"
  have k: "?k \<noteq> 0" using x(3) y(3) by simp
  have mv: "moved_bytes d s a b = take ?k (aw_Data x)" by (simp add: moved_bytes_def x(1) y(1) min_def)
  have lm: "length (take ?k (aw_Data x)) = ?k" by simp
  have unit: "(p :: op_pair) = \<lparr>op_Send = op_Send p, op_Recv = op_Recv p\<rparr>" for p by simp
  show ?thesis
  proof (cases "length (aw_Data y) \<le> length (aw_Data x)")
    case True
    then have kk: "?k = length (aw_Data y)" by simp
    show ?thesis
      using k True x y ab c p
      by (cases "length (aw_Data x) \<le> length (aw_Data y)")
        (simp_all add: transfer_def find_op_def Let_def after_move_def mv advance_def put_op_def set_recv_slot_def set_send_slot_def
          fun_upd_twist min_absorb1 min_absorb2)
  next
    case False
    then show ?thesis
      using k x y ab c p
      by (simp add: transfer_def find_op_def Let_def after_move_def mv advance_def put_op_def set_recv_slot_def set_send_slot_def
          fun_upd_twist min_absorb1 min_absorb2)
  qed
qed

lemma after_move_ops:
  assumes "a \<noteq> b"
  shows "ps_Ops (after_move d a b s) x = (if x = a then Some (advance (moved_bytes d s a b) (the (ps_Ops s a)))
      else if x = b then Some (advance (moved_bytes d s a b) (the (ps_Ops s b))) else ps_Ops s x)"
    and "ps_Inbound (after_move d a b s) e = (if e = d then \<lparr>op_Send = (if length (moved_bytes d s a b) = length (aw_Data (the (ps_Ops s a))) then None else Some a),
          op_Recv = (if length (moved_bytes d s a b) = length (aw_Data (the (ps_Ops s b))) then None else Some b)\<rparr> else ps_Inbound s e)"
    and "ps_Ec (after_move d a b s) = ps_Ec s"
  using assms by (auto simp: after_move_def Let_def)

lemma pending_advance:
  assumes "pending_at s d ty a" and "ps_Ops s' a = Some (advance bs (the (ps_Ops s a)))" and "length bs < length (aw_Data (the (ps_Ops s a)))"
  shows "pending_at s' d ty a"
  using assms by (auto simp: pending_at_def)

lemma pending_other: "pending_at s d ty x \<Longrightarrow> ps_Ops s' x = ps_Ops s x \<Longrightarrow> pending_at s' d ty x"
  by (simp add: pending_at_def)

lemma pending_unique: "pending_at s d ty x \<Longrightarrow> pending_at s e ty' x \<Longrightarrow> d = e \<and> ty = ty'"
  by (auto simp: pending_at_def split: if_splits)

lemma after_move_ok:
  assumes others: "\<And>e. e \<noteq> d \<Longrightarrow> (\<forall>a. op_Send (ps_Inbound s e) = Some a \<longrightarrow> pending_at s e Io_Send a)
       \<and> (\<forall>b. op_Recv (ps_Inbound s e) = Some b \<longrightarrow> pending_at s e Io_Recv b)
       \<and> (op_Send (ps_Inbound s e) = None \<or> op_Recv (ps_Inbound s e) = None)"
    and a: "pending_at s d Io_Send a" and b: "pending_at s d Io_Recv b"
  shows "pair_ok (after_move d a b s)"
proof -
  have ab: "a \<noteq> b" using pending_unique [OF a, of d Io_Recv] b by auto
  let ?s = "after_move d a b s" and ?bs = "moved_bytes d s a b"
  let ?x = "the (ps_Ops s a)" and ?y = "the (ps_Ops s b)"
  have len: "length ?bs = min (length (aw_Data ?x)) (length (aw_Data ?y))" by (simp add: moved_bytes_def)
  show ?thesis
    unfolding pair_ok_def
  proof (intro allI)
    fix e
    show "(\<forall>x. op_Send (ps_Inbound ?s e) = Some x \<longrightarrow> pending_at ?s e Io_Send x)
     \<and> (\<forall>x. op_Recv (ps_Inbound ?s e) = Some x \<longrightarrow> pending_at ?s e Io_Recv x)
     \<and> (op_Send (ps_Inbound ?s e) = None \<or> op_Recv (ps_Inbound ?s e) = None)"
    proof (cases "e = d")
      case True
      have "pending_at ?s d Io_Send a" if "length ?bs \<noteq> length (aw_Data ?x)"
        by (rule pending_advance [OF a]) (use that len ab in \<open>auto simp: after_move_ops\<close>)
      moreover have "pending_at ?s d Io_Recv b" if "length ?bs \<noteq> length (aw_Data ?y)"
        by (rule pending_advance [OF b]) (use that len ab in \<open>auto simp: after_move_ops\<close>)
      ultimately show ?thesis using True ab len by (auto simp: after_move_ops)
    next
      case False
      have keep: "pending_at ?s e ty x" if p: "pending_at s e ty x" for x ty
      proof -
        have "x \<noteq> a" "x \<noteq> b" using pending_unique [OF p] a b False by blast+
        then show ?thesis using p ab by (intro pending_other [OF p]) (simp add: after_move_ops)
      qed
      then show ?thesis using others [OF False] False ab by (auto simp: after_move_ops)
    qed
  qed
qed

section \<open>The stream of a direction\<close>

text \<open>The direction of an awaiter: the index of the end that receives.\<close>

definition direction :: "awaiter \<Rightarrow> bool" where
  "direction w = (if aw_Type w = Io_Send then \<not> aw_Sock w else aw_Sock w)"

definition goes :: "shared_state \<Rightarrow> bool \<Rightarrow> nat \<Rightarrow> bool" where
  "goes s d a \<longleftrightarrow> (\<exists>w. ps_Ops s a = Some w \<and> direction w = d)"

lemma direction_advance [simp]: "direction (advance bs w) = direction w" "direction (w\<lparr>aw_Ec := e\<rparr>) = direction w"
  by (simp_all add: direction_def)

lemma pending_goes: "pending_at s d ty a \<Longrightarrow> goes s d a"
  by (cases ty) (auto simp: pending_at_def goes_def direction_def)

lemma goes_unique: "goes s d a \<Longrightarrow> goes s e a \<Longrightarrow> d = e"
  by (auto simp: goes_def)

text \<open>
  \<open>sends\<close> and \<open>recvs\<close> are the transfers started in direction \<open>d\<close> so far, in order: what the receives
  have got is what the sends have given, and the pending ones are the last ones.
\<close>

definition stream_ok :: "shared_state \<Rightarrow> bool \<Rightarrow> nat list \<Rightarrow> nat list \<Rightarrow> bool" where
  "stream_ok s d sends recvs \<longleftrightarrow> distinct (sends @ recvs) \<and> (\<forall>a \<in> set (sends @ recvs). goes s d a)
     \<and> (\<forall>a. op_Send (ps_Inbound s d) = Some a \<longrightarrow> sends \<noteq> [] \<and> last sends = a)
     \<and> (\<forall>b. op_Recv (ps_Inbound s d) = Some b \<longrightarrow> recvs \<noteq> [] \<and> last recvs = b)
     \<and> concat (map (done_of s) recvs) = concat (map (done_of s) sends)"

lemma concat_last:
  assumes "distinct xs" and "xs \<noteq> []" and "\<And>x. x \<in> set xs \<Longrightarrow> f x = (if x = last xs then g x @ bs else g x)"
  shows "concat (map f xs) = concat (map g xs) @ bs"
proof -
  obtain ys y where xs: "xs = ys @ [y]" using assms(2) by (cases xs rule: rev_cases) auto
  have m: "map f ys = map g ys" using assms(1,3) by (auto simp: xs)
  have y: "f y = g y @ bs" using assms(3) [of y] by (simp add: xs)
  show ?thesis by (simp only: xs map_append m concat_append list.map concat.simps y append_Nil2 append_assoc)
qed

lemma after_move_stream:
  assumes st: "distinct (sends @ recvs)" "\<forall>x \<in> set (sends @ recvs). goes s d x" "concat (map (done_of s) recvs) = concat (map (done_of s) sends)"
    and a: "sends \<noteq> []" "last sends = a" and b: "recvs \<noteq> []" "last recvs = b"
  shows "stream_ok (after_move d a b s) d sends recvs"
proof -
  let ?bs = "moved_bytes d s a b" and ?s = "after_move d a b s"
  have in_: "a \<in> set sends" "b \<in> set recvs" using a b last_in_set by auto
  then have ab: "a \<noteq> b" using st(1) by auto
  obtain xa xb where "ps_Ops s a = Some xa" "ps_Ops s b = Some xb" using st(2) in_ by (fastforce simp: goes_def)
  note ops = this
  then have d: "done_of ?s x = (if x = a \<or> x = b then done_of s x @ ?bs else done_of s x)" if "x \<in> set (sends @ recvs)" for x
    using ab by (auto simp: done_of_def after_move_ops)
  have goes: "goes ?s d x" if "x \<in> set (sends @ recvs)" for x
  proof -
    have "goes s d x" using st(2) that by (rule bspec)
    then obtain w where "ps_Ops s x = Some w" "direction w = d" by (auto simp: goes_def)
    then show ?thesis unfolding goes_def after_move_ops(1) [OF ab] using ops
      by (cases "x = a"; cases "x = b") simp_all
  qed
  have "concat (map (done_of ?s) sends) = concat (map (done_of s) sends) @ ?bs"
    by (rule concat_last) (use st(1) a in_ d in auto)
  moreover have "concat (map (done_of ?s) recvs) = concat (map (done_of s) recvs) @ ?bs"
    by (rule concat_last) (use st(1) b in_ d in auto)
  ultimately show ?thesis
    using st a b ab goes by (simp add: stream_ok_def after_move_ops)
qed

text \<open>The same in the other direction and for changes that move nothing.\<close>

lemma stream_cong:
  assumes st: "stream_ok s d sends recvs" and dn: "\<And>x. x \<in> set (sends @ recvs) \<Longrightarrow> done_of s' x = done_of s x \<and> goes s' d x"
    and sl: "op_Send (ps_Inbound s' d) = None \<or> op_Send (ps_Inbound s' d) = op_Send (ps_Inbound s d)"
      "op_Recv (ps_Inbound s' d) = None \<or> op_Recv (ps_Inbound s' d) = op_Recv (ps_Inbound s d)"
  shows "stream_ok s' d sends recvs"
proof -
  have m: "map (done_of s') recvs = map (done_of s) recvs" "map (done_of s') sends = map (done_of s) sends" using dn by auto
  have "concat (map (done_of s') recvs) = concat (map (done_of s') sends)" unfolding m using st by (simp add: stream_ok_def)
  moreover have "\<forall>x \<in> set (sends @ recvs). goes s' d x" using dn by blast
  moreover have "op_Send (ps_Inbound s' d) = Some a \<longrightarrow> sends \<noteq> [] \<and> last sends = a" for a
    using sl(1) st by (auto simp: stream_ok_def)
  moreover have "op_Recv (ps_Inbound s' d) = Some b \<longrightarrow> recvs \<noteq> [] \<and> last recvs = b" for b
    using sl(2) st by (auto simp: stream_ok_def)
  moreover have "distinct (sends @ recvs)" using st by (simp add: stream_ok_def)
  ultimately show ?thesis unfolding stream_ok_def by blast
qed


section \<open>The operations keep the invariant\<close>

text \<open>A new awaiter is not pending anywhere.\<close>

definition fresh_op :: "shared_state \<Rightarrow> nat \<Rightarrow> awaiter \<Rightarrow> bool" where
  "fresh_op s a w \<longleftrightarrow> ps_Ops s a = Some w \<and> aw_Ec w = None \<and> aw_Handle w = None \<and> aw_Data w \<noteq> [] \<and> aw_Done w = []
     \<and> \<not> aw_Reg w"

lemma fresh_not_pending: "fresh_op s a w \<Longrightarrow> \<not> pending_at s d ty a"
  by (auto simp: fresh_op_def pending_at_def)

definition own_slot :: "awaiter \<Rightarrow> shared_state \<Rightarrow> nat option" where
  "own_slot w s = (let p = ps_Inbound s (direction w) in if aw_Type w = Io_Send then op_Send p else op_Recv p)"

definition add_streams :: "awaiter \<Rightarrow> nat \<Rightarrow> bool \<Rightarrow> nat list \<Rightarrow> nat list \<Rightarrow> nat list \<times> nat list" where
  "add_streams w a d sends recvs = (if direction w \<noteq> d then (sends, recvs)
     else if aw_Type w = Io_Send then (sends @ [a], recvs) else (sends, recvs @ [a]))"

definition with_slot :: "bool \<Rightarrow> io_type \<Rightarrow> nat \<Rightarrow> shared_state \<Rightarrow> shared_state" where
  "with_slot d ty a s = (if ty = Io_Send then set_send_slot d (Some a) s else set_recv_slot d (Some a) s)"

lemma with_slot_simps [simp]:
  "ps_Ops (with_slot d ty a s) = ps_Ops s" "ps_Ec (with_slot d ty a s) = ps_Ec s"
  "ps_Inbound (with_slot d ty a s) e = (if e = d then if ty = Io_Send then (ps_Inbound s d)\<lparr>op_Send := Some a\<rparr>
     else (ps_Inbound s d)\<lparr>op_Recv := Some a\<rparr> else ps_Inbound s e)"
  by (auto simp: with_slot_def set_send_slot_def set_recv_slot_def)

text \<open>The state in which the awaiter has been registered and holds its handle.\<close>

definition handled :: "nat \<Rightarrow> nat \<Rightarrow> awaiter \<Rightarrow> shared_state \<Rightarrow> shared_state" where
  "handled a h w s = put_op a (w\<lparr>aw_Reg := (aw_Token w \<noteq> Never_Stops), aw_Handle := Some h\<rparr>) s"

lemma put_op_simps [simp]:
  "ps_Ops (put_op a w s) = (ps_Ops s)(a \<mapsto> w)" "ps_Inbound (put_op a w s) = ps_Inbound s" "ps_Ec (put_op a w s) = ps_Ec s"
  by (simp_all add: put_op_def)

lemma put_op_twice [simp]: "put_op a w (put_op a w' s) = put_op a w s"
  by (simp add: put_op_def)

lemma slot_simps [simp]:
  "ps_Ops (set_send_slot d x s) = ps_Ops s" "ps_Ec (set_send_slot d x s) = ps_Ec s"
  "ps_Ops (set_recv_slot d x s) = ps_Ops s" "ps_Ec (set_recv_slot d x s) = ps_Ec s"
  "ps_Inbound (set_send_slot d x s) e = (if e = d then (ps_Inbound s d)\<lparr>op_Send := x\<rparr> else ps_Inbound s e)"
  "ps_Inbound (set_recv_slot d x s) e = (if e = d then (ps_Inbound s d)\<lparr>op_Recv := x\<rparr> else ps_Inbound s e)"
  by (auto simp: set_send_slot_def set_recv_slot_def)

lemma register_fresh:
  assumes w: "fresh_op s a w" and tok: "aw_Token w \<noteq> Already_Stopped"
  shows "register_stop a s = Inr (put_op a (w\<lparr>aw_Reg := (aw_Token w \<noteq> Never_Stops)\<rparr>) s)"
proof -
  have w': "ps_Ops s a = Some w" "aw_Ec w = None" "aw_Handle w = None" "\<not> aw_Reg w" using w by (simp_all add: fresh_op_def)
  show ?thesis
  proof (cases "aw_Token w = Never_Stops")
      case True
      have "w\<lparr>aw_Reg := False\<rparr> = w" using w'(4) by simp
      then have "put_op a (w\<lparr>aw_Reg := False\<rparr>) s = put_op a w s" by (rule arg_cong)
      then have "put_op a (w\<lparr>aw_Reg := False\<rparr>) s = s" using w'(1) by (simp add: put_op_def fun_upd_idem)
      then show ?thesis using True w' by (simp add: register_stop_def find_op_def)
    next
      case False
      then show ?thesis using tok w' by (simp add: register_stop_def find_op_def)
    qed
qed

text \<open>\<^verbatim>\<open>await_suspend\<close> in closed form, for an open end, a new awaiter and a free slot.\<close>

lemma await_suspend_cases:
  fixes h :: nat
  assumes w: "fresh_op s a w" and tok: "aw_Token w \<noteq> Already_Stopped" and free: "own_slot w s = None"
    and op: "\<not> is_error (ps_Ec s (aw_Sock w))"
  defines "t \<equiv> with_slot (direction w) (aw_Type w) a (handled a h w s)"
  shows "await_suspend a h None s =
    (if (if aw_Type w = Io_Send then op_Recv (ps_Inbound s (direction w)) else op_Send (ps_Inbound s (direction w))) \<noteq> None
     then transfer h (direction w) t else Inr ([], t))"
proof -
  have w': "ps_Ops s a = Some w" "aw_Ec w = None" "aw_Handle w = None" "\<not> aw_Reg w" using w by (simp_all add: fresh_op_def)
  note reg = register_fresh [OF w tok]
  show ?thesis
    unfolding await_suspend_def reg
    using w' free op
    by (cases "aw_Type w") (simp_all add: find_op_def Let_def inject_def own_slot_def direction_def outbound_def inbound_def
        t_def handled_def with_slot_def)
qed

lemma handled_ops: "ps_Ops (handled a h w s) x = (if x = a then Some (w\<lparr>aw_Reg := (aw_Token w \<noteq> Never_Stops), aw_Handle := Some h\<rparr>) else ps_Ops s x)"
  "ps_Inbound (handled a h w s) = ps_Inbound s" "ps_Ec (handled a h w s) = ps_Ec s"
  by (simp_all add: handled_def)

definition counterpart :: "awaiter \<Rightarrow> shared_state \<Rightarrow> nat option" where
  "counterpart w s = (if aw_Type w = Io_Send then op_Recv (ps_Inbound s (direction w)) else op_Send (ps_Inbound s (direction w)))"

lemma await_ok:
  fixes h :: nat
  assumes ok: "pair_ok s" and w: "fresh_op s a w" and tok: "aw_Token w \<noteq> Already_Stopped" and free: "own_slot w s = None"
    and op: "\<not> is_error (ps_Ec s (aw_Sock w))"
  shows "\<exists>hs s'. await_suspend a h None s = Inr (hs, s') \<and> pair_ok s' \<and> (counterpart w s \<noteq> None \<longrightarrow> hs \<noteq> [])
     \<and> (\<forall>d sends recvs. stream_ok s d sends recvs \<longrightarrow> a \<notin> set (sends @ recvs) \<longrightarrow>
          stream_ok s' d (fst (add_streams w a d sends recvs)) (snd (add_streams w a d sends recvs)))"
proof -
  let ?d = "direction w" and ?ty = "aw_Type w"
  let ?t = "with_slot ?d ?ty a (handled a h w s)"
  have w': "ps_Ops s a = Some w" "aw_Ec w = None" "aw_Data w \<noteq> []" "aw_Done w = []" using w by (simp_all add: fresh_op_def)
  note run = await_suspend_cases [OF w tok free op, of h, folded counterpart_def]
  have pa: "pending_at ?t ?d ?ty a"
    using w' by (cases ?ty) (simp_all add: pending_at_def handled_ops direction_def)
  have keep: "pending_at ?t e ty x" if "pending_at s e ty x" for e ty x
  proof (rule pending_other [OF that])
    have "x \<noteq> a" using that fresh_not_pending [OF w] by blast
    then show "ps_Ops ?t x = ps_Ops s x" by (simp add: handled_ops)
  qed
  have inb: "ps_Inbound ?t e = ps_Inbound s e" if "e \<noteq> ?d" for e using that by (simp add: handled_ops)
  have others: "(\<forall>a. op_Send (ps_Inbound ?t e) = Some a \<longrightarrow> pending_at ?t e Io_Send a)
       \<and> (\<forall>b. op_Recv (ps_Inbound ?t e) = Some b \<longrightarrow> pending_at ?t e Io_Recv b)
       \<and> (op_Send (ps_Inbound ?t e) = None \<or> op_Recv (ps_Inbound ?t e) = None)" if "e \<noteq> ?d" for e
    unfolding inb [OF that] by (intro conjI allI impI keep pair_okD [OF ok]) assumption+
  have dn: "done_of ?t x = done_of s x" for x using w' by (simp add: done_of_def handled_ops)
  have dom: "goes ?t e x \<longleftrightarrow> goes s e x" for e x using w'(1) by (auto simp: goes_def handled_ops direction_def)
  have st_t: "distinct (se @ re) \<and> (\<forall>x \<in> set (se @ re). goes ?t d x) \<and> concat (map (done_of ?t) re) = concat (map (done_of ?t) se)"
    if st: "stream_ok s d sends recvs" and new: "a \<notin> set (sends @ recvs)" and e: "add_streams w a d sends recvs = (se, re)" for d sends recvs se re
  proof -
    have fa: "done_of s a = []" using w' by (simp add: done_of_def)
    have da: "done_of ?t = done_of s" using dn by (rule ext)
    have ga: "goes s ?d a" using w'(1) by (simp add: goes_def)
    consider "?d \<noteq> d" "se = sends" "re = recvs" | "?d = d" "se = sends @ [a]" "re = recvs" | "?d = d" "se = sends" "re = recvs @ [a]"
      using e by (auto simp: add_streams_def split: if_splits)
    then show ?thesis unfolding da dom using st new fa ga by cases (auto simp: stream_ok_def)
  qed
  have slots_d: "op_Send (ps_Inbound ?t ?d) = (if ?ty = Io_Send then Some a else op_Send (ps_Inbound s ?d))"
    "op_Recv (ps_Inbound ?t ?d) = (if ?ty = Io_Send then op_Recv (ps_Inbound s ?d) else Some a)"
    by (simp_all add: handled_ops)
  show ?thesis
  proof (cases "counterpart w s")
    case None
    have "pair_ok ?t"
      unfolding pair_ok_def
    proof (intro allI)
      fix e
      show "(\<forall>a. op_Send (ps_Inbound ?t e) = Some a \<longrightarrow> pending_at ?t e Io_Send a)
       \<and> (\<forall>b. op_Recv (ps_Inbound ?t e) = Some b \<longrightarrow> pending_at ?t e Io_Recv b)
       \<and> (op_Send (ps_Inbound ?t e) = None \<or> op_Recv (ps_Inbound ?t e) = None)"
      proof (cases "e = ?d")
        case True
        then show ?thesis
          using None free pa unfolding True slots_d counterpart_def own_slot_def Let_def by (cases ?ty) auto
      next
        case False
        then show ?thesis by (rule others)
      qed
    qed
    moreover have "stream_ok ?t d (fst (add_streams w a d sends recvs)) (snd (add_streams w a d sends recvs))"
      if st: "stream_ok s d sends recvs" "a \<notin> set (sends @ recvs)" for d sends recvs
    proof -
      obtain se re where e: "add_streams w a d sends recvs = (se, re)" by (cases "add_streams w a d sends recvs")
      have "(\<forall>x. op_Send (ps_Inbound ?t d) = Some x \<longrightarrow> se \<noteq> [] \<and> last se = x) \<and> (\<forall>x. op_Recv (ps_Inbound ?t d) = Some x \<longrightarrow> re \<noteq> [] \<and> last re = x)"
      proof (cases "d = ?d")
        case True
        then show ?thesis
          using e free None unfolding True slots_d add_streams_def own_slot_def counterpart_def Let_def
          by (cases ?ty) auto
      next
        case False
        then have "se = sends" "re = recvs" using e by (simp_all add: add_streams_def)
        then show ?thesis using st(1) unfolding inb [OF False] stream_ok_def by simp
      qed
      then show ?thesis using st_t [OF st e] e by (simp add: stream_ok_def)
    qed
    ultimately show ?thesis using run None by auto
  next
    case (Some b)
    have pb: "pending_at s ?d (if ?ty = Io_Send then Io_Recv else Io_Send) b"
      using ok Some unfolding pair_ok_def counterpart_def by (auto split: if_splits)
    define x where "x = (if ?ty = Io_Send then a else b)"
    define y where "y = (if ?ty = Io_Send then b else a)"
    have p: "ps_Inbound ?t ?d = \<lparr>op_Send = Some x, op_Recv = Some y\<rparr>"
      using Some by (cases ?ty) (auto simp: handled_ops counterpart_def x_def y_def)
    have px: "pending_at ?t ?d Io_Send x" and py: "pending_at ?t ?d Io_Recv y"
      using pa keep [OF pb] by (cases ?ty; simp add: x_def y_def)+
    from transfer_eq [OF p px py, of h] obtain hs where hs: "transfer h ?d ?t = Inr (hs, after_move ?d x y ?t)" "hs \<noteq> []" by blast
    have pok: "pair_ok (after_move ?d x y ?t)" by (rule after_move_ok [OF others px py])
    have xy: "x \<noteq> y" using pending_unique [OF px, of ?d Io_Recv] py by auto
    have stream: "stream_ok (after_move ?d x y ?t) d (fst (add_streams w a d sends recvs)) (snd (add_streams w a d sends recvs))"
      if st: "stream_ok s d sends recvs" "a \<notin> set (sends @ recvs)" for d sends recvs
    proof -
      obtain se re where e: "add_streams w a d sends recvs = (se, re)" by (cases "add_streams w a d sends recvs")
      note t = st_t [OF st e]
      show ?thesis
      proof (cases "d = ?d")
        case True
        have l: "se \<noteq> []" "last se = x" "re \<noteq> []" "last re = y"
          using st(1) e Some True unfolding stream_ok_def add_streams_def counterpart_def x_def y_def
          by (cases ?ty; auto split: if_splits)+
        show ?thesis using after_move_stream [OF _ _ _ l] t True e by simp
      next
        case False
        have e': "se = sends" "re = recvs" using e False by (auto simp: add_streams_def)
        have nx: "z \<noteq> x \<and> z \<noteq> y" if "z \<in> set (sends @ recvs)" for z
        proof -
          have "goes ?t d z" using st(1) that unfolding dom stream_ok_def by blast
          then show ?thesis using goes_unique pending_goes [OF px] pending_goes [OF py] False by blast
        qed
        have inbd: "ps_Inbound ?t d = ps_Inbound s d" using inb False by blast
        have g: "goes ?t d z" if "z \<in> set (sends @ recvs)" for z using t that e' by blast
        let ?u = "after_move ?d x y ?t"
        have u: "ps_Ops ?u z = ps_Ops ?t z" if "z \<noteq> x \<and> z \<noteq> y" for z
          using that by (simp only: after_move_ops [OF xy]) simp
        have "stream_ok ?u d sends recvs"
        proof (rule stream_cong [OF st(1)])
          show "done_of ?u z = done_of s z \<and> goes ?u d z" if "z \<in> set (sends @ recvs)" for z
          proof -
            have "ps_Ops ?u z = ps_Ops ?t z" by (rule u [OF nx [OF that]])
            then show ?thesis using g [OF that] dn [of z] by (simp only: done_of_def goes_def)
          qed
          have "ps_Inbound ?u d = ps_Inbound s d" using False inbd by (simp only: after_move_ops [OF xy]) simp
          then show "op_Send (ps_Inbound ?u d) = None \<or> op_Send (ps_Inbound ?u d) = op_Send (ps_Inbound s d)"
            "op_Recv (ps_Inbound ?u d) = None \<or> op_Recv (ps_Inbound ?u d) = op_Recv (ps_Inbound s d)" by simp_all
        qed
        then show ?thesis using e e' by simp
      qed
    qed
    show ?thesis using run Some hs pok stream by auto
  qed
qed

section \<open>Cancellation and close\<close>

definition slot :: "shared_state \<Rightarrow> bool \<Rightarrow> io_type \<Rightarrow> nat option" where
  "slot s d ty = (if ty = Io_Send then op_Send (ps_Inbound s d) else op_Recv (ps_Inbound s d))"

lemma pair_ok_shrink:
  assumes ok: "pair_ok s" and sl: "\<And>d ty. slot s' d ty = None \<or> slot s' d ty = slot s d ty"
    and same: "\<And>d ty x. slot s' d ty = Some x \<Longrightarrow> ps_Ops s' x = ps_Ops s x"
  shows "pair_ok s'"
  unfolding pair_ok_def
proof (intro allI conjI impI)
  fix d
  show "pending_at s' d Io_Send a" if "op_Send (ps_Inbound s' d) = Some a" for a
    using sl [of d Io_Send] same [of d Io_Send a] pair_okD(1) [OF ok, of d a] that
    by (auto simp: slot_def intro: pending_other)
  show "pending_at s' d Io_Recv a" if "op_Recv (ps_Inbound s' d) = Some a" for a
    using sl [of d Io_Recv] same [of d Io_Recv a] pair_okD(2) [OF ok, of d a] that
    by (auto simp: slot_def intro: pending_other)
  show "op_Send (ps_Inbound s' d) = None \<or> op_Recv (ps_Inbound s' d) = None"
    using sl [of d Io_Send] sl [of d Io_Recv] pair_okD(3) [OF ok, of d] by (auto simp: slot_def)
qed

lemma stream_shrink:
  assumes st: "stream_ok s d sends recvs" and sl: "\<And>d ty. slot s' d ty = None \<or> slot s' d ty = slot s d ty"
    and ops: "\<And>x w. ps_Ops s x = Some w \<Longrightarrow> \<exists>e. ps_Ops s' x = Some (w\<lparr>aw_Ec := e\<rparr>)"
  shows "stream_ok s' d sends recvs"
proof (rule stream_cong [OF st])
  fix x assume "x \<in> set (sends @ recvs)"
  then have "goes s d x" using st unfolding stream_ok_def by blast
  then obtain w e where "ps_Ops s x = Some w" "direction w = d" "ps_Ops s' x = Some (w\<lparr>aw_Ec := e\<rparr>)"
    using ops unfolding goes_def by blast
  then show "done_of s' x = done_of s x \<and> goes s' d x" by (simp add: done_of_def goes_def)
next
  show "op_Send (ps_Inbound s' d) = None \<or> op_Send (ps_Inbound s' d) = op_Send (ps_Inbound s d)"
    using sl [of d Io_Send] by (simp add: slot_def)
  show "op_Recv (ps_Inbound s' d) = None \<or> op_Recv (ps_Inbound s' d) = op_Recv (ps_Inbound s d)"
    using sl [of d Io_Recv] by (simp add: slot_def)
qed

text \<open>A pending transfer that is stopped leaves its slot and is resumed; the other transfers stay.\<close>

lemma stop_ok:
  assumes ok: "pair_ok s" and w: "ps_Ops s a = Some w" and here: "slot s (direction w) (aw_Type w) = Some a"
  shows "\<exists>s'. stop_awaiter a s = Inr (aw_Handle w, s') \<and> pair_ok s' \<and> aw_Handle w \<noteq> None
     \<and> ps_Ops s' a = Some (w\<lparr>aw_Ec := Some (make_error_code Operation_aborted)\<rparr>) \<and> (\<forall>x. x \<noteq> a \<longrightarrow> ps_Ops s' x = ps_Ops s x)
     \<and> (\<forall>d ty. slot s' d ty = (if d = direction w \<and> ty = aw_Type w then None else slot s d ty))
     \<and> (\<forall>d sends recvs. stream_ok s d sends recvs \<longrightarrow> stream_ok s' d sends recvs)"
proof -
  have p: "pending_at s (direction w) (aw_Type w) a"
    using pair_okD(1,2) [OF ok] here by (cases "aw_Type w") (auto simp: slot_def)
  then have pw: "aw_Ec w = None" "aw_Handle w \<noteq> None" using w by (auto simp: pending_at_def)
  let ?w = "w\<lparr>aw_Ec := Some (make_error_code Operation_aborted)\<rparr>"
  define s' where "s' = put_op a ?w (if aw_Type w = Io_Send then set_send_slot (\<not> aw_Sock w) None s else set_recv_slot (aw_Sock w) None s)"
  have run: "stop_awaiter a s = Inr (aw_Handle w, s')"
    using w pw here by (cases "aw_Type w")
      (auto simp: stop_awaiter_def find_op_def slot_def direction_def outbound_def inbound_def Let_def s'_def)
  have ops: "ps_Ops s' a = Some ?w" "x \<noteq> a \<longrightarrow> ps_Ops s' x = ps_Ops s x" for x by (auto simp: s'_def)
  have sl: "slot s' d ty = (if d = direction w \<and> ty = aw_Type w then None else slot s d ty)" for d ty
    by (cases "aw_Type w"; cases ty) (auto simp: s'_def slot_def direction_def)
  have "pair_ok s'"
  proof (rule pair_ok_shrink [OF ok])
    show "slot s' d ty = None \<or> slot s' d ty = slot s d ty" for d ty by (simp add: sl)
    show "ps_Ops s' x = ps_Ops s x" if x: "slot s' d ty = Some x" for d ty x
    proof -
      have y: "slot s d ty = Some x" "\<not> (d = direction w \<and> ty = aw_Type w)" using x by (auto simp: sl split: if_splits)
      then have "pending_at s d ty x" using pair_okD(1,2) [OF ok] by (cases ty) (auto simp: slot_def)
      then have "x \<noteq> a" using pending_unique [OF p] y(2) by blast
      then show ?thesis using ops(2) by blast
    qed
  qed
  moreover have "stream_ok s' d sends recvs" if "stream_ok s d sends recvs" for d sends recvs
  proof (rule stream_shrink [OF that])
    show "slot s' d ty = None \<or> slot s' d ty = slot s d ty" for d ty by (simp add: sl)
    show "\<exists>e. ps_Ops s' x = Some (v\<lparr>aw_Ec := e\<rparr>)" if "ps_Ops s x = Some v" for x v
    proof (cases "x = a")
      case True
      then show ?thesis using ops(1) w that by auto
    next
      case False
      then have "ps_Ops s' x = Some (v\<lparr>aw_Ec := aw_Ec v\<rparr>)" using ops(2) [of x] that by simp
      then show ?thesis by blast
    qed
  qed
  ultimately show ?thesis using run ops sl pw(2) by blast
qed

text \<open>\<^verbatim>\<open>close\<close> empties all four slots.\<close>

definition closed_code :: "bool \<Rightarrow> awaiter \<Rightarrow> error_code" where
  "closed_code i w = make_error_code (if aw_Sock w = i then Closed else RemoteClosed)"

definition clear_slot :: "bool \<Rightarrow> io_type \<Rightarrow> shared_state \<Rightarrow> shared_state" where
  "clear_slot d ty s = (if ty = Io_Send then set_send_slot d None s else set_recv_slot d None s)"

lemma clear_slot_simps [simp]:
  "ps_Ops (clear_slot d ty s) = ps_Ops s" "ps_Ec (clear_slot d ty s) = ps_Ec s"
  "slot (clear_slot d ty s) e ty' = (if e = d \<and> ty' = ty then None else slot s e ty')"
  by (cases ty; cases ty'; auto simp: clear_slot_def slot_def)+

lemma fail_slot_ok:
  assumes ok: "pair_ok s"
  shows "\<exists>hs s'. fail_slot (slot s d ty) e (clear_slot d ty s) = Inr (hs, s') \<and> pair_ok s' \<and> ps_Ec s' = ps_Ec s
     \<and> length hs = (if slot s d ty = None then 0 else 1)
     \<and> (\<forall>d' ty'. slot s' d' ty' = (if d' = d \<and> ty' = ty then None else slot s d' ty'))
     \<and> (\<forall>x. ps_Ops s' x = (if slot s d ty = Some x then map_option (\<lambda>w. w\<lparr>aw_Ec := Some e\<rparr>) (ps_Ops s x) else ps_Ops s x))"
proof (cases "slot s d ty")
  case None
  have "pair_ok (clear_slot d ty s)" by (rule pair_ok_shrink [OF ok]) simp_all
  then show ?thesis using None by (simp add: fail_slot_def)
next
  case (Some a)
  have p: "pending_at s d ty a" using pair_okD(1,2) [OF ok] Some by (cases ty) (auto simp: slot_def)
  then obtain w h where w: "ps_Ops s a = Some w" "aw_Ec w = None" "aw_Handle w = Some h" by (auto simp: pending_at_def)
  let ?s = "put_op a (w\<lparr>aw_Ec := Some e\<rparr>) (clear_slot d ty s)"
  have sl: "slot ?s d' ty' = (if d' = d \<and> ty' = ty then None else slot s d' ty')" for d' ty'
  proof -
    have "slot ?s d' ty' = slot (clear_slot d ty s) d' ty'" by (simp only: slot_def put_op_simps)
    then show ?thesis by (simp only: clear_slot_simps)
  qed
  have "pair_ok ?s"
  proof (rule pair_ok_shrink [OF ok])
    show "slot ?s d ty = None \<or> slot ?s d ty = slot s d ty" for d ty by (simp add: sl)
    show "ps_Ops ?s x = ps_Ops s x" if x: "slot ?s d' ty' = Some x" for d' ty' x
    proof -
      have y: "slot s d' ty' = Some x" "\<not> (d' = d \<and> ty' = ty)" using x by (auto simp: sl split: if_splits)
      then have "pending_at s d' ty' x" using pair_okD(1,2) [OF ok] by (cases ty') (auto simp: slot_def)
      then have "x \<noteq> a" using pending_unique [OF p] y(2) by blast
      then show ?thesis by simp
    qed
  qed
  then show ?thesis using Some w sl by (auto simp: fail_slot_def find_op_def)
qed

lemma slot_unique:
  assumes "pair_ok s" "slot s d ty = Some x" "slot s d' ty' = Some x"
  shows "d = d' \<and> ty = ty'"
proof -
  have "pending_at s d ty x" "pending_at s d' ty' x"
    using pair_okD(1,2) [OF assms(1)] assms(2,3) by (cases ty; cases ty'; auto simp: slot_def)+
  then show ?thesis by (rule pending_unique)
qed

lemma slot_sock:
  assumes "pair_ok s" "slot s d ty = Some x"
  shows "\<exists>w. ps_Ops s x = Some w \<and> aw_Sock w = (if ty = Io_Send then \<not> d else d)"
proof -
  have "pending_at s d ty x" using pair_okD(1,2) [OF assms(1)] assms(2) by (cases ty) (auto simp: slot_def)
  then show ?thesis by (auto simp: pending_at_def)
qed

lemma close_ok:
  assumes ok: "pair_ok s"
  shows "\<exists>hs s'. local_close i s = Inr (hs, s') \<and> pair_ok s' \<and> (\<forall>d ty. slot s' d ty = None)
     \<and> is_error (ps_Ec s' i) \<and> is_error (ps_Ec s' (\<not> i))
     \<and> (\<forall>x. ps_Ops s' x = (if \<exists>d ty. slot s d ty = Some x
          then map_option (\<lambda>w. w\<lparr>aw_Ec := Some (closed_code i w)\<rparr>) (ps_Ops s x) else ps_Ops s x))"
proof -
  define s0 where "s0 = (let s = (if is_error (ps_Ec s i) then s else s\<lparr>ps_Ec := (ps_Ec s)(i := make_error_code Closed)\<rparr>)
      in if is_error (ps_Ec s (\<not> i)) then s else s\<lparr>ps_Ec := (ps_Ec s)(\<not> i := make_error_code RemoteClosed)\<rparr>)"
  have s0: "ps_Ops s0 = ps_Ops s" "slot s0 = slot s" "is_error (ps_Ec s0 i)" "is_error (ps_Ec s0 (\<not> i))"
    by (auto simp: s0_def Let_def slot_def fun_eq_iff)
  have ok0: "pair_ok s0" by (rule pair_ok_shrink [OF ok]) (simp_all add: s0)
  have run: "local_close i s =
     bindR (fail_slot (slot s0 i Io_Recv) (make_error_code Closed) (clear_slot i Io_Recv s0)) (\<lambda>(h0, s).
      bindR (fail_slot (slot s i Io_Send) (make_error_code RemoteClosed) (clear_slot i Io_Send s)) (\<lambda>(h1, s).
      bindR (fail_slot (slot s (\<not> i) Io_Recv) (make_error_code RemoteClosed) (clear_slot (\<not> i) Io_Recv s)) (\<lambda>(h2, s).
      bindR (fail_slot (slot s (\<not> i) Io_Send) (make_error_code Closed) (clear_slot (\<not> i) Io_Send s)) (\<lambda>(h3, s).
        Inr (h0 @ h1 @ h2 @ h3, s)))))"
    unfolding local_close_def s0_def Let_def by (simp add: inbound_def outbound_def slot_def clear_slot_def)
  from fail_slot_ok [OF ok0, of i Io_Recv "make_error_code Closed"] obtain h1 s1 where
    s1: "fail_slot (slot s0 i Io_Recv) (make_error_code Closed) (clear_slot i Io_Recv s0) = Inr (h1, s1)" "pair_ok s1" "ps_Ec s1 = ps_Ec s0"
      "\<forall>d' ty'. slot s1 d' ty' = (if d' = i \<and> ty' = Io_Recv then None else slot s0 d' ty')"
      "\<forall>x. ps_Ops s1 x = (if slot s0 i Io_Recv = Some x then map_option (\<lambda>w. w\<lparr>aw_Ec := Some (make_error_code Closed)\<rparr>) (ps_Ops s0 x) else ps_Ops s0 x)"
    by (elim exE conjE) (rule that)
  from fail_slot_ok [OF s1(2), of i Io_Send "make_error_code RemoteClosed"] obtain h2 s2 where
    s2: "fail_slot (slot s1 i Io_Send) (make_error_code RemoteClosed) (clear_slot i Io_Send s1) = Inr (h2, s2)" "pair_ok s2" "ps_Ec s2 = ps_Ec s1"
      "\<forall>d' ty'. slot s2 d' ty' = (if d' = i \<and> ty' = Io_Send then None else slot s1 d' ty')"
      "\<forall>x. ps_Ops s2 x = (if slot s1 i Io_Send = Some x then map_option (\<lambda>w. w\<lparr>aw_Ec := Some (make_error_code RemoteClosed)\<rparr>) (ps_Ops s1 x) else ps_Ops s1 x)"
    by (elim exE conjE) (rule that)
  from fail_slot_ok [OF s2(2), of "\<not> i" Io_Recv "make_error_code RemoteClosed"] obtain h3 s3 where
    s3: "fail_slot (slot s2 (\<not> i) Io_Recv) (make_error_code RemoteClosed) (clear_slot (\<not> i) Io_Recv s2) = Inr (h3, s3)" "pair_ok s3" "ps_Ec s3 = ps_Ec s2"
      "\<forall>d' ty'. slot s3 d' ty' = (if d' = (\<not> i) \<and> ty' = Io_Recv then None else slot s2 d' ty')"
      "\<forall>x. ps_Ops s3 x = (if slot s2 (\<not> i) Io_Recv = Some x then map_option (\<lambda>w. w\<lparr>aw_Ec := Some (make_error_code RemoteClosed)\<rparr>) (ps_Ops s2 x) else ps_Ops s2 x)"
    by (elim exE conjE) (rule that)
  from fail_slot_ok [OF s3(2), of "\<not> i" Io_Send "make_error_code Closed"] obtain h4 s4 where
    s4: "fail_slot (slot s3 (\<not> i) Io_Send) (make_error_code Closed) (clear_slot (\<not> i) Io_Send s3) = Inr (h4, s4)" "pair_ok s4" "ps_Ec s4 = ps_Ec s3"
      "\<forall>d' ty'. slot s4 d' ty' = (if d' = (\<not> i) \<and> ty' = Io_Send then None else slot s3 d' ty')"
      "\<forall>x. ps_Ops s4 x = (if slot s3 (\<not> i) Io_Send = Some x then map_option (\<lambda>w. w\<lparr>aw_Ec := Some (make_error_code Closed)\<rparr>) (ps_Ops s3 x) else ps_Ops s3 x)"
    by (elim exE conjE) (rule that)
  have n: "(i = (\<not> i)) = False" "((\<not> i) = i) = False" by auto
  have "slot s4 d ty = None" for d ty
    using s4(4) s3(4) s2(4) s1(4) by (cases "d = i"; cases ty) auto
  moreover have "ps_Ops s4 x = (if \<exists>d ty. slot s d ty = Some x
      then map_option (\<lambda>w. w\<lparr>aw_Ec := Some (closed_code i w)\<rparr>) (ps_Ops s x) else ps_Ops s x)" for x
  proof -
    have o: "ps_Ops s4 x = (if slot s (\<not> i) Io_Send = Some x then map_option (\<lambda>w. w\<lparr>aw_Ec := Some (make_error_code Closed)\<rparr>) (ps_Ops s3 x) else ps_Ops s3 x)"
      "ps_Ops s3 x = (if slot s (\<not> i) Io_Recv = Some x then map_option (\<lambda>w. w\<lparr>aw_Ec := Some (make_error_code RemoteClosed)\<rparr>) (ps_Ops s2 x) else ps_Ops s2 x)"
      "ps_Ops s2 x = (if slot s i Io_Send = Some x then map_option (\<lambda>w. w\<lparr>aw_Ec := Some (make_error_code RemoteClosed)\<rparr>) (ps_Ops s1 x) else ps_Ops s1 x)"
      "ps_Ops s1 x = (if slot s i Io_Recv = Some x then map_option (\<lambda>w. w\<lparr>aw_Ec := Some (make_error_code Closed)\<rparr>) (ps_Ops s x) else ps_Ops s x)"
      using s4(4,5) s3(4,5) s2(4,5) s1(4,5) by (simp_all add: s0(1,2) n)
    show ?thesis
    proof (cases "\<exists>d ty. slot s d ty = Some x")
      case True
      then obtain d ty where sl: "slot s d ty = Some x" by blast
      from slot_sock [OF ok sl] obtain w where w: "ps_Ops s x = Some w" "aw_Sock w = (if ty = Io_Send then \<not> d else d)" by blast
      have uq: "slot s d' ty' = Some x \<longleftrightarrow> d' = d \<and> ty' = ty" for d' ty' using slot_unique [OF ok sl] sl by blast
      show ?thesis using True w unfolding o uq by (cases "d = i"; cases ty) (auto simp: closed_code_def)
    qed (auto simp: o)
  qed
  moreover have "ps_Ec s4 = ps_Ec s0" using s4(3) s3(3) s2(3) s1(3) by simp
  moreover have "local_close i s = Inr (h1 @ h2 @ h3 @ h4, s4)" by (simp add: run s1(1) s2(1) s3(1) s4(1))
  ultimately show ?thesis using s4(2) s0(3,4)
    by (intro exI [of _ "h1 @ h2 @ h3 @ h4"] exI [of _ s4]) simp
qed

section \<open>Runs\<close>

text \<open>
  What can happen to a pair: a coroutine with handle \<open>h\<close> awaits a new transfer whose awaiter lives at
  \<open>a\<close>, a transfer is stopped, an end is closed.
\<close>

datatype pair_act = Start nat nat bool "u8 list" io_type io_token | Stop_Io nat | Close_End bool

definition pair_step :: "pair_act \<Rightarrow> shared_state \<Rightarrow> fault + nat list \<times> shared_state" where
  "pair_step act s = (case act of
     Start a h i data ty tok \<Rightarrow> bindR (if ty = Io_Send then local_send i data tok else local_recv i data tok)
       (\<lambda>w. await_suspend a h None (put_op a w s))
   | Stop_Io a \<Rightarrow> bindR (stop_awaiter a s) (\<lambda>(h, s). Inr (case h of None \<Rightarrow> [] | Some h \<Rightarrow> [h], s))
   | Close_End i \<Rightarrow> local_close i s)"

text \<open>An end has at most one send and one receive in progress, and nothing empty is transferred.\<close>

definition pair_enabled :: "pair_act \<Rightarrow> shared_state \<Rightarrow> bool" where
  "pair_enabled act s = (case act of
     Start a h i data ty tok \<Rightarrow> data \<noteq> [] \<and> ps_Ops s a = None \<and> slot s (if ty = Io_Send then \<not> i else i) ty = None
   | Stop_Io a \<Rightarrow> ps_Ops s a \<noteq> None
   | Close_End i \<Rightarrow> True)"

text \<open>The transfers that were started in each direction, with their spans.\<close>

definition log_sent :: "pair_act \<Rightarrow> (bool \<Rightarrow> (nat \<times> u8 list) list) \<Rightarrow> bool \<Rightarrow> (nat \<times> u8 list) list" where
  "log_sent act l d = (case act of Start a h i data Io_Send tok \<Rightarrow> if d = (\<not> i) then l d @ [(a, data)] else l d | _ \<Rightarrow> l d)"

definition log_received :: "pair_act \<Rightarrow> (bool \<Rightarrow> (nat \<times> u8 list) list) \<Rightarrow> bool \<Rightarrow> (nat \<times> u8 list) list" where
  "log_received act l d = (case act of Start a h i data Io_Recv tok \<Rightarrow> if d = i then l d @ [(a, data)] else l d | _ \<Rightarrow> l d)"

inductive pair_reach :: "shared_state \<Rightarrow> (bool \<Rightarrow> (nat \<times> u8 list) list) \<Rightarrow> (bool \<Rightarrow> (nat \<times> u8 list) list) \<Rightarrow> bool" where
  pair_start: "pair_reach make_pair (\<lambda>_. []) (\<lambda>_. [])"
| pair_act: "pair_reach s sent rcvd \<Longrightarrow> pair_enabled act s \<Longrightarrow> pair_step act s = Inr (hs, s')
    \<Longrightarrow> pair_reach s' (log_sent act sent) (log_received act rcvd)"

text \<open>The span of a send is what has been transferred and what is left; a receive keeps its size.\<close>

definition kept_span :: "awaiter \<Rightarrow> awaiter \<Rightarrow> bool" where
  "kept_span w w' \<longleftrightarrow> aw_Type w' = aw_Type w \<and> aw_Sock w' = aw_Sock w \<and> aw_TotalSize w' = aw_TotalSize w
     \<and> length (aw_Done w') + length (aw_Data w') = length (aw_Done w) + length (aw_Data w)
     \<and> (aw_Type w = Io_Send \<longrightarrow> aw_Done w' @ aw_Data w' = aw_Done w @ aw_Data w)"

definition ops_kept :: "shared_state \<Rightarrow> shared_state \<Rightarrow> bool" where
  "ops_kept s s' \<longleftrightarrow> (\<forall>x w. ps_Ops s x = Some w \<longrightarrow> (\<exists>w'. ps_Ops s' x = Some w' \<and> kept_span w w'))"

text \<open>A transfer without a result waits in its slot, and a successful one is complete.\<close>

definition settled :: "shared_state \<Rightarrow> bool" where
  "settled s \<longleftrightarrow> (\<forall>x w. ps_Ops s x = Some w \<longrightarrow>
     (aw_Ec w = None \<longrightarrow> slot s (direction w) (aw_Type w) = Some x) \<and> (aw_Ec w = Some no_error \<longrightarrow> aw_Data w = []))"

lemma kept_refl [simp]: "kept_span w w" "kept_span w (w\<lparr>aw_Ec := e\<rparr>)" "kept_span w (w\<lparr>aw_Reg := r\<rparr>)" "kept_span w (w\<lparr>aw_Handle := g\<rparr>)"
  by (simp_all add: kept_span_def)

lemma kept_trans: "kept_span u v \<Longrightarrow> kept_span v w \<Longrightarrow> kept_span u w"
  unfolding kept_span_def by auto

lemma ops_kept_trans: "ops_kept r s \<Longrightarrow> ops_kept s t \<Longrightarrow> ops_kept r t"
  unfolding ops_kept_def using kept_trans by blast

lemma kept_advance:
  assumes "length bs \<le> length (aw_Data w)" and "aw_Type w = Io_Send \<longrightarrow> bs = take (length bs) (aw_Data w)"
  shows "kept_span w (advance bs w)"
  using assms by (auto simp: kept_span_def) (metis append_take_drop_id)

lemma after_move_kept:
  assumes "pending_at s d Io_Send a" "pending_at s d Io_Recv b"
  shows "ops_kept s (after_move d a b s)"
proof -
  have ab: "a \<noteq> b" using pending_unique [OF assms(1), of d Io_Recv] assms(2) by auto
  obtain x y where w: "ps_Ops s a = Some x" "ps_Ops s b = Some y" "aw_Type x = Io_Send" "aw_Type y = Io_Recv"
    using assms by (auto simp: pending_at_def)
  have "kept_span x (advance (moved_bytes d s a b) x)" "kept_span y (advance (moved_bytes d s a b) y)"
    by (rule kept_advance; simp add: moved_bytes_def w min_def)+
  then show ?thesis using ab w by (auto simp: ops_kept_def after_move_ops)
qed

lemma after_move_settled:
  assumes "pending_at s d Io_Send a" "pending_at s d Io_Recv b" and st: "settled s" 
    and sl: "slot s d Io_Send = Some a" "slot s d Io_Recv = Some b"
  shows "settled (after_move d a b s)"
proof -
  have ab: "a \<noteq> b" using pending_unique [OF assms(1), of d Io_Recv] assms(2) by auto
  obtain x y where w: "ps_Ops s a = Some x" "ps_Ops s b = Some y" "aw_Type x = Io_Send" "aw_Type y = Io_Recv"
    "aw_Ec x = None" "aw_Ec y = None" "direction x = d" "direction y = d"
    using assms by (auto simp: pending_at_def direction_def)
  let ?s = "after_move d a b s" and ?bs = "moved_bytes d s a b"
  have len: "length ?bs = min (length (aw_Data x)) (length (aw_Data y))" by (simp add: moved_bytes_def w)
  show ?thesis
    unfolding settled_def
  proof (intro allI impI)
    fix z v assume z: "ps_Ops ?s z = Some v"
    consider "z = a" "v = advance ?bs x" | "z = b" "v = advance ?bs y" | "z \<noteq> a" "z \<noteq> b" "ps_Ops s z = Some v"
      using z ab w by (auto simp: after_move_ops split: if_splits)
    then show "(aw_Ec v = None \<longrightarrow> slot ?s (direction v) (aw_Type v) = Some z) \<and> (aw_Ec v = Some no_error \<longrightarrow> aw_Data v = [])"
    proof cases
      case 3
      then have "(aw_Ec v = None \<longrightarrow> slot s (direction v) (aw_Type v) = Some z) \<and> (aw_Ec v = Some no_error \<longrightarrow> aw_Data v = [])"
        using st by (simp add: settled_def)
      moreover have "slot ?s (direction v) (aw_Type v) = Some z" if "slot s (direction v) (aw_Type v) = Some z"
        using that 3 sl ab by (cases "direction v = d"; cases "aw_Type v") (auto simp: slot_def after_move_ops)
      ultimately show ?thesis by blast
    qed (use w ab len in \<open>auto simp: slot_def after_move_ops\<close>)
  qed
qed

text \<open>The two ways in which starting a transfer ends.\<close>

lemma await_form:
  fixes h :: nat
  assumes ok: "pair_ok s" and w: "fresh_op s a w" and tok: "aw_Token w \<noteq> Already_Stopped" and free: "own_slot w s = None"
    and op: "\<not> is_error (ps_Ec s (aw_Sock w))"
  defines "t \<equiv> with_slot (direction w) (aw_Type w) a (handled a h w s)"
  shows "await_suspend a h None s = Inr ([], t) \<or> (\<exists>hs x y. await_suspend a h None s = Inr (hs, after_move (direction w) x y t)
     \<and> pending_at t (direction w) Io_Send x \<and> pending_at t (direction w) Io_Recv y
     \<and> slot t (direction w) Io_Send = Some x \<and> slot t (direction w) Io_Recv = Some y)"
proof (cases "counterpart w s")
  case None
  then show ?thesis using await_suspend_cases [OF w tok free op, of h, folded counterpart_def] by (simp add: t_def)
next
  case (Some b)
  have w': "ps_Ops s a = Some w" "aw_Ec w = None" "aw_Data w \<noteq> []" using w by (simp_all add: fresh_op_def)
  let ?d = "direction w"
  have pb: "pending_at s ?d (if aw_Type w = Io_Send then Io_Recv else Io_Send) b"
    using ok Some unfolding pair_ok_def counterpart_def by (auto split: if_splits)
  then have "b \<noteq> a" using fresh_not_pending [OF w] by blast
  then have b: "pending_at t ?d (if aw_Type w = Io_Send then Io_Recv else Io_Send) b"
    by (intro pending_other [OF pb]) (simp add: t_def handled_ops)
  have a: "pending_at t ?d (aw_Type w) a"
    using w' by (cases "aw_Type w") (simp_all add: t_def pending_at_def handled_ops direction_def)
  have run: "await_suspend a h None s = transfer h ?d t"
    using await_suspend_cases [OF w tok free op, of h, folded counterpart_def] Some by (simp add: t_def)
  show ?thesis
  proof (cases "aw_Type w")
    case Io_Send
    have sl: "ps_Inbound t ?d = \<lparr>op_Send = Some a, op_Recv = Some b\<rparr>"
      using Some Io_Send by (simp add: t_def handled_ops counterpart_def)
    show ?thesis using transfer_eq [OF sl, of h] a b run sl by (auto simp: Io_Send slot_def)
  next
    case Io_Recv
    have sl: "ps_Inbound t ?d = \<lparr>op_Send = Some b, op_Recv = Some a\<rparr>"
      using Some Io_Recv by (simp add: t_def handled_ops counterpart_def)
    show ?thesis using transfer_eq [OF sl, of h] a b run sl by (auto simp: Io_Recv slot_def)
  qed
qed

lemma await_refused:
  fixes h :: nat
  assumes w: "fresh_op s a w" and free: "own_slot w s = None"
    and r: "aw_Token w = Already_Stopped \<or> is_error (ps_Ec s (aw_Sock w))"
  shows "\<exists>e v. await_suspend a h None s = Inr ([h], put_op a v s) \<and> is_error e \<and> aw_Ec v = Some e \<and> kept_span w v
     \<and> aw_Done v = aw_Done w"
proof (cases "aw_Token w = Already_Stopped")
  case True
  have e: "is_error (make_error_code Operation_aborted)" by (simp add: make_error_code_def is_error_def)
  let ?v = "w\<lparr>aw_Reg := True, aw_Ec := Some (make_error_code Operation_aborted), aw_Handle := Some h\<rparr>"
  have ext: "set_send_slot d None s = s" if "op_Send (ps_Inbound s d) = None" for d
    using that by (cases "ps_Inbound s d") (simp add: set_send_slot_def fun_upd_idem)
  have ext': "set_recv_slot d None s = s" if "op_Recv (ps_Inbound s d) = None" for d
    using that by (cases "ps_Inbound s d") (simp add: set_recv_slot_def fun_upd_idem)
  have sw: "set_send_slot d x (put_op b u s) = put_op b u (set_send_slot d x s)"
    "set_recv_slot d x (put_op b u s) = put_op b u (set_recv_slot d x s)" for d x b u
    by (simp_all add: set_send_slot_def set_recv_slot_def put_op_def)
  have "await_suspend a h None s = Inr ([h], put_op a ?v s)"
    using True w free
    by (cases "aw_Type w") (simp_all add: await_suspend_def register_stop_def stop_awaiter_def find_op_def fresh_op_def own_slot_def
        direction_def outbound_def inbound_def Let_def sw ext ext')
  moreover have "kept_span w ?v" by (simp add: kept_span_def)
  ultimately show ?thesis using e by (intro exI [of _ "make_error_code Operation_aborted"] exI [of _ ?v]) simp
next
  case False
  then have e: "is_error (ps_Ec s (aw_Sock w))" using r by blast
  let ?v = "w\<lparr>aw_Reg := (aw_Token w \<noteq> Never_Stops), aw_Handle := Some h, aw_Ec := Some (ps_Ec s (aw_Sock w))\<rparr>"
  have "await_suspend a h None s = Inr ([h], put_op a ?v s)"
    using w e unfolding await_suspend_def register_fresh [OF w False]
    by (auto simp: find_op_def fresh_op_def Let_def inject_def)
  moreover have "kept_span w ?v" by (simp add: kept_span_def)
  ultimately show ?thesis using e by (intro exI [of _ "ps_Ec s (aw_Sock w)"] exI [of _ ?v]) simp
qed

definition spans_in :: "shared_state \<Rightarrow> (nat \<times> u8 list) list \<Rightarrow> bool" where
  "spans_in s l \<longleftrightarrow> (\<forall>(a, data) \<in> set l. \<exists>w. ps_Ops s a = Some w \<and> aw_Type w = Io_Send \<and> aw_Done w @ aw_Data w = data)"

definition sizes_in :: "shared_state \<Rightarrow> (nat \<times> u8 list) list \<Rightarrow> bool" where
  "sizes_in s l \<longleftrightarrow> (\<forall>(a, data) \<in> set l. \<exists>w. ps_Ops s a = Some w \<and> length (aw_Done w) + length (aw_Data w) = length data)"

definition pair_inv :: "shared_state \<Rightarrow> (bool \<Rightarrow> (nat \<times> u8 list) list) \<Rightarrow> (bool \<Rightarrow> (nat \<times> u8 list) list) \<Rightarrow> bool" where
  "pair_inv s sent rcvd \<longleftrightarrow> pair_ok s \<and> settled s \<and> (\<forall>d. stream_ok s d (map fst (sent d)) (map fst (rcvd d))
     \<and> spans_in s (sent d) \<and> sizes_in s (rcvd d))"

lemma spans_kept: "ops_kept s s' \<Longrightarrow> spans_in s l \<Longrightarrow> spans_in s' l"
  by (fastforce simp: ops_kept_def kept_span_def spans_in_def)

lemma sizes_kept: "ops_kept s s' \<Longrightarrow> sizes_in s l \<Longrightarrow> sizes_in s' l"
  by (fastforce simp: ops_kept_def kept_span_def sizes_in_def)

lemma pair_invI:
  assumes inv: "pair_inv s sent rcvd" and "pair_ok s'" "settled s'" "ops_kept s s'"
    and "\<And>d. stream_ok s' d (map fst (sent d)) (map fst (rcvd d))"
  shows "pair_inv s' sent rcvd"
  using assms spans_kept sizes_kept unfolding pair_inv_def by simp

lemma make_pair_inv: "pair_inv make_pair (\<lambda>_. []) (\<lambda>_. [])"
  using make_pair_ok by (simp add: pair_inv_def settled_def stream_ok_def spans_in_def sizes_in_def make_pair_def)

text \<open>Stopping a transfer: one without a result is pending, the others are not affected.\<close>

lemma stop_step:
  assumes inv: "pair_inv s sent rcvd" and a: "ps_Ops s a = Some w"
  shows "\<exists>hs s'. pair_step (Stop_Io a) s = Inr (hs, s') \<and> pair_inv s' sent rcvd"
proof (cases "aw_Ec w")
  case (Some e)
  then show ?thesis using a inv by (auto simp: pair_step_def stop_awaiter_def find_op_def)
next
  case None
  have ok: "pair_ok s" and st: "settled s" using inv by (simp_all add: pair_inv_def)
  have here: "slot s (direction w) (aw_Type w) = Some a" using st a None by (simp add: settled_def)
  have na: "make_error_code Operation_aborted \<noteq> no_error" by (simp add: make_error_code_def no_error_def)
  from stop_ok [OF ok a here] obtain s' where s': "stop_awaiter a s = Inr (aw_Handle w, s')" "pair_ok s'"
    "ps_Ops s' a = Some (w\<lparr>aw_Ec := Some (make_error_code Operation_aborted)\<rparr>)" "\<forall>x. x \<noteq> a \<longrightarrow> ps_Ops s' x = ps_Ops s x"
    "\<forall>d ty. slot s' d ty = (if d = direction w \<and> ty = aw_Type w then None else slot s d ty)"
    "\<forall>d sends recvs. stream_ok s d sends recvs \<longrightarrow> stream_ok s' d sends recvs" by (elim exE conjE) (rule that)
  have kept: "ops_kept s s'"
    unfolding ops_kept_def
  proof (intro allI impI)
    fix x v assume v: "ps_Ops s x = Some v"
    show "\<exists>w'. ps_Ops s' x = Some w' \<and> kept_span v w'"
    proof (cases "x = a")
      case True
      then show ?thesis using s'(3) v a by simp
    next
      case False
      then show ?thesis using s'(4) v by simp
    qed
  qed
  have "settled s'"
    unfolding settled_def
  proof (intro allI impI)
    fix x v assume v: "ps_Ops s' x = Some v"
    show "(aw_Ec v = None \<longrightarrow> slot s' (direction v) (aw_Type v) = Some x) \<and> (aw_Ec v = Some no_error \<longrightarrow> aw_Data v = [])"
    proof (cases "x = a")
      case True
      then show ?thesis using s'(3) v na by auto
    next
      case False
      then have "ps_Ops s x = Some v" using s'(4) v by simp
      then have "(aw_Ec v = None \<longrightarrow> slot s (direction v) (aw_Type v) = Some x) \<and> (aw_Ec v = Some no_error \<longrightarrow> aw_Data v = [])"
        using st by (simp add: settled_def)
      then show ?thesis using s'(5) False here by auto
    qed
  qed
  then have "pair_inv s' sent rcvd"
    using inv s'(6) by (intro pair_invI [OF inv s'(2) _ kept]) (simp_all add: pair_inv_def)
  then show ?thesis using s'(1) by (auto simp: pair_step_def split: option.splits)
qed

lemma close_step:
  assumes inv: "pair_inv s sent rcvd"
  shows "\<exists>hs s'. pair_step (Close_End i) s = Inr (hs, s') \<and> pair_inv s' sent rcvd"
proof -
  have ok: "pair_ok s" and st: "settled s" using inv by (simp_all add: pair_inv_def)
  have na: "closed_code i w \<noteq> no_error" for w by (simp add: closed_code_def make_error_code_def no_error_def)
  from close_ok [OF ok, of i] obtain hs s' where s': "local_close i s = Inr (hs, s')" "pair_ok s'" "\<forall>d ty. slot s' d ty = None"
    "\<forall>x. ps_Ops s' x = (if \<exists>d ty. slot s d ty = Some x
          then map_option (\<lambda>w. w\<lparr>aw_Ec := Some (closed_code i w)\<rparr>) (ps_Ops s x) else ps_Ops s x)"
    by (elim exE conjE) (rule that)
  have kept: "ops_kept s s'"
    unfolding ops_kept_def using s'(4) by simp
  have "settled s'"
    unfolding settled_def
  proof (intro allI impI)
    fix x v assume v: "ps_Ops s' x = Some v"
    show "(aw_Ec v = None \<longrightarrow> slot s' (direction v) (aw_Type v) = Some x) \<and> (aw_Ec v = Some no_error \<longrightarrow> aw_Data v = [])"
    proof (cases "\<exists>d ty. slot s d ty = Some x")
      case True
      then show ?thesis using s'(4) v na by auto
    next
      case False
      then have "ps_Ops s x = Some v" using s'(4) v by simp
      then have "(aw_Ec v = None \<longrightarrow> slot s (direction v) (aw_Type v) = Some x) \<and> (aw_Ec v = Some no_error \<longrightarrow> aw_Data v = [])"
        using st by (simp add: settled_def)
      then show ?thesis using False by blast
    qed
  qed
  moreover have "stream_ok s' d sends recvs" if "stream_ok s d sends recvs" for d sends recvs
  proof (rule stream_shrink [OF that])
    show "slot s' d ty = None \<or> slot s' d ty = slot s d ty" for d ty using s'(3) by blast
    show "\<exists>e. ps_Ops s' x = Some (w\<lparr>aw_Ec := e\<rparr>)" if "ps_Ops s x = Some w" for x w
      using s'(4) that by (cases "\<exists>d ty. slot s d ty = Some x") (auto intro: exI [of _ "aw_Ec w"])
  qed
  ultimately have "pair_inv s' sent rcvd"
    using inv by (intro pair_invI [OF inv s'(2) _ kept]) (simp_all add: pair_inv_def)
  then show ?thesis using s'(1) by (simp add: pair_step_def)
qed

text \<open>The state in which a new awaiter exists.\<close>

lemma with_awaiter:
  assumes inv: "pair_inv s sent rcvd" and new: "ps_Ops s a = None"
  shows "pair_ok (put_op a w s)" and "stream_ok (put_op a w s) d (map fst (sent d)) (map fst (rcvd d))"
    and "ops_kept s (put_op a w s)" and "a \<notin> set (map fst (sent d) @ map fst (rcvd d))"
proof -
  have ok: "pair_ok s" and st: "stream_ok s d (map fst (sent d)) (map fst (rcvd d))" using inv by (simp_all add: pair_inv_def)
  have sl: "slot (put_op a w s) = slot s" by (simp add: fun_eq_iff slot_def)
  have occ: "slot s d ty \<noteq> Some a" for d ty using slot_sock [OF ok, of d ty a] new by auto
  show "pair_ok (put_op a w s)"
    by (rule pair_ok_shrink [OF ok]) (use sl occ in \<open>auto simp del: put_op_simps(2) simp: fun_eq_iff\<close>)
  have goes: "goes s d x" if "x \<in> set (map fst (sent d) @ map fst (rcvd d))" for x
    using st that unfolding stream_ok_def by blast
  have na: "x \<noteq> a" if "goes s d x" for x using that new by (auto simp: goes_def)
  show "a \<notin> set (map fst (sent d) @ map fst (rcvd d))" using goes na by blast
  show "stream_ok (put_op a w s) d (map fst (sent d)) (map fst (rcvd d))"
  proof (rule stream_cong [OF st])
    show "done_of (put_op a w s) x = done_of s x \<and> goes (put_op a w s) d x" if "x \<in> set (map fst (sent d) @ map fst (rcvd d))" for x
      using goes [OF that] na [OF goes [OF that]] by (simp add: done_of_def goes_def)
  qed simp_all
  show "ops_kept s (put_op a w s)" using new by (auto simp: ops_kept_def)
qed

lemma stream_log:
  assumes "aw_Type w = ty" and "aw_Sock w = i"
    and "stream_ok s' d (fst (add_streams w a d (map fst (sent d)) (map fst (rcvd d)))) (snd (add_streams w a d (map fst (sent d)) (map fst (rcvd d))))"
  shows "stream_ok s' d (map fst (log_sent (Start a h i data ty tok) sent d)) (map fst (log_received (Start a h i data ty tok) rcvd d))"
proof -
  have "map fst (log_sent (Start a h i data ty tok) sent d) = fst (add_streams w a d (map fst (sent d)) (map fst (rcvd d)))"
    "map fst (log_received (Start a h i data ty tok) rcvd d) = snd (add_streams w a d (map fst (sent d)) (map fst (rcvd d)))"
    using assms(1,2) by (cases ty; auto simp: log_sent_def log_received_def add_streams_def direction_def)+
  then show ?thesis using assms(3) by simp
qed

lemma start_step:
  assumes inv: "pair_inv s sent rcvd" and en: "pair_enabled (Start a h i data ty tok) s"
  shows "\<exists>hs s'. pair_step (Start a h i data ty tok) s = Inr (hs, s')
     \<and> pair_inv s' (log_sent (Start a h i data ty tok) sent) (log_received (Start a h i data ty tok) rcvd)"
proof -
  define w where "w = \<lparr>aw_Sock = i, aw_Data = data, aw_Done = [], aw_TotalSize = length data, aw_Type = ty,
    aw_Ec = None, aw_Handle = None, aw_Token = tok, aw_Reg = False\<rparr>"
  have wf: "aw_Sock w = i" "aw_Data w = data" "aw_Done w = []" "aw_Type w = ty" "aw_Token w = tok" by (simp_all add: w_def)
  have new: "ps_Ops s a = None" and ne: "data \<noteq> []" and sl: "slot s (direction w) ty = None"
    using en by (cases ty; simp add: pair_enabled_def direction_def wf)+
  let ?s = "put_op a w s" and ?act = "Start a h i data ty tok"
  have run: "pair_step ?act s = await_suspend a h None ?s"
    using ne by (cases ty) (simp_all add: pair_step_def local_send_def local_recv_def new_awaiter_def w_def)
  have fr: "fresh_op ?s a w" using ne by (simp add: fresh_op_def w_def)
  have free: "own_slot w ?s = None" using sl by (simp add: own_slot_def slot_def wf Let_def)
  note base = with_awaiter(1-3) [OF inv new, of w] with_awaiter(4) [OF inv new]
  have st: "settled s" using inv by (simp add: pair_inv_def)
  have logs: "spans_in s' (log_sent ?act sent d) \<and> sizes_in s' (log_received ?act rcvd d)"
    if k: "ops_kept s s'" and v: "ps_Ops s' a = Some v" "kept_span w v" for s' v d
  proof -
    have "spans_in s' (sent d)" "sizes_in s' (rcvd d)"
      using inv spans_kept [OF k] sizes_kept [OF k] by (simp_all add: pair_inv_def)
    then show ?thesis using v wf
      by (cases ty) (auto simp: spans_in_def sizes_in_def log_sent_def log_received_def kept_span_def)
  qed
  have fin: "pair_inv s' (log_sent ?act sent) (log_received ?act rcvd)"
    if "pair_ok s'" "settled s'" "ops_kept s s'" "ps_Ops s' a = Some v" "kept_span w v"
      "\<And>d. stream_ok s' d (map fst (log_sent ?act sent d)) (map fst (log_received ?act rcvd d))" for s' v
    using that logs [OF that(3-5)] by (simp add: pair_inv_def)
  show ?thesis
  proof (cases "tok = Already_Stopped \<or> is_error (ps_Ec ?s i)")
    case True
    then obtain e v where v: "await_suspend a h None ?s = Inr ([h], put_op a v ?s)" "is_error e" "aw_Ec v = Some e" "kept_span w v"
        "aw_Done v = aw_Done w"
      using await_refused [OF fr free, of h] wf by auto
    have "settled (put_op a v s)"
      unfolding settled_def
    proof (intro allI impI)
      fix x u assume u: "ps_Ops (put_op a v s) x = Some u"
      show "(aw_Ec u = None \<longrightarrow> slot (put_op a v s) (direction u) (aw_Type u) = Some x) \<and> (aw_Ec u = Some no_error \<longrightarrow> aw_Data u = [])"
      proof (cases "x = a")
        case True
        then show ?thesis using u v(2,3) by (auto simp: is_error_def no_error_def)
      next
        case False
        then have "ps_Ops s x = Some u" using u by simp
        then have "(aw_Ec u = None \<longrightarrow> slot s (direction u) (aw_Type u) = Some x) \<and> (aw_Ec u = Some no_error \<longrightarrow> aw_Data u = [])"
          using st by (simp add: settled_def)
        moreover have "slot (put_op a v s) (direction u) (aw_Type u) = slot s (direction u) (aw_Type u)" by (simp add: slot_def)
        ultimately show ?thesis by simp
      qed
    qed
    moreover have "stream_ok (put_op a v s) d (map fst (log_sent ?act sent d)) (map fst (log_received ?act rcvd d))" for d
    proof (rule stream_log [OF wf(4,1)])
      have vd: "aw_Done v = []" "direction v = direction w" using v(4,5) wf by (auto simp: kept_span_def direction_def)
      note b = with_awaiter(2) [OF inv new, of v d] with_awaiter(4) [OF inv new, of d]
      have "slot (put_op a v s) (direction w) ty = None" using sl by (cases ty) (simp_all add: slot_def)
      then show "stream_ok (put_op a v s) d (fst (add_streams w a d (map fst (sent d)) (map fst (rcvd d))))
          (snd (add_streams w a d (map fst (sent d)) (map fst (rcvd d))))"
        using b vd wf
        by (cases ty) (auto simp: stream_ok_def add_streams_def slot_def done_of_def goes_def)
    qed
    ultimately have "pair_inv (put_op a v s) (log_sent ?act sent) (log_received ?act rcvd)"
      using with_awaiter(1,3) [OF inv new, of v] by (intro fin [of _ v]) (simp_all add: v(4))
    then show ?thesis using v(1) run by simp
  next
    case False
    then have tok: "aw_Token w \<noteq> Already_Stopped" and op: "\<not> is_error (ps_Ec ?s (aw_Sock w))" by (simp_all add: wf)
    let ?t = "with_slot (direction w) ty a (handled a h w ?s)"
    let ?u = "w\<lparr>aw_Reg := (tok \<noteq> Never_Stops), aw_Handle := Some h\<rparr>"
    have t: "ps_Ops ?t = (ps_Ops s)(a \<mapsto> ?u)" by (simp add: handled_ops fun_eq_iff wf)
    have tsl: "slot ?t d' ty' = (if d' = direction w \<and> ty' = ty then Some a else slot s d' ty')" for d' ty'
      by (cases ty; cases ty') (auto simp: slot_def handled_ops)
    have ku: "kept_span w ?u" by (simp add: kept_span_def)
    have ut: "direction ?u = direction w" "aw_Type ?u = ty" "aw_Ec ?u = None" by (simp_all add: direction_def w_def)
    have kt: "ops_kept s ?t" unfolding ops_kept_def t using new by auto
    have set_t: "settled ?t"
      unfolding settled_def
    proof (intro allI impI)
      fix x v assume x: "ps_Ops ?t x = Some v"
      show "(aw_Ec v = None \<longrightarrow> slot ?t (direction v) (aw_Type v) = Some x) \<and> (aw_Ec v = Some no_error \<longrightarrow> aw_Data v = [])"
      proof (cases "x = a")
        case True
        then have "v = ?u" using x t by simp
        then show ?thesis using True ut tsl by simp
      next
        case False
        then have "ps_Ops s x = Some v" using x t by simp
        then have "(aw_Ec v = None \<longrightarrow> slot s (direction v) (aw_Type v) = Some x) \<and> (aw_Ec v = Some no_error \<longrightarrow> aw_Data v = [])"
          using st by (simp add: settled_def)
        then show ?thesis using sl by (auto simp: tsl)
      qed
    qed
    from await_ok [OF base(1) fr tok free op, of h] obtain hs s' where
      a: "await_suspend a h None ?s = Inr (hs, s')" "pair_ok s'"
        "\<And>d sends recvs. stream_ok ?s d sends recvs \<Longrightarrow> a \<notin> set (sends @ recvs) \<Longrightarrow>
          stream_ok s' d (fst (add_streams w a d sends recvs)) (snd (add_streams w a d sends recvs))" by blast
    have stream: "stream_ok s' d (map fst (log_sent ?act sent d)) (map fst (log_received ?act rcvd d))" for d
      by (rule stream_log [OF wf(4,1)], rule a(3) [OF base(2,4)])
    from await_form [OF base(1) fr tok free op, of h, unfolded wf] a(1) consider "s' = ?t"
      | x y where "s' = after_move (direction w) x y ?t" "pending_at ?t (direction w) Io_Send x" "pending_at ?t (direction w) Io_Recv y"
        "slot ?t (direction w) Io_Send = Some x" "slot ?t (direction w) Io_Recv = Some y" by auto
    then have "settled s' \<and> ops_kept ?t s'"
    proof cases
      case 1
      then show ?thesis using set_t by (auto simp: ops_kept_def)
    next
      case 2
      show ?thesis unfolding 2(1) using after_move_settled [OF 2(2,3) set_t 2(4,5)] after_move_kept [OF 2(2,3)] by blast
    qed
    then have s': "settled s'" "ops_kept s s'" and k3: "ops_kept ?t s'" using ops_kept_trans [OF kt] by blast+
    from k3 have "\<forall>x u. ((ps_Ops s)(a \<mapsto> ?u)) x = Some u \<longrightarrow> (\<exists>v. ps_Ops s' x = Some v \<and> kept_span u v)"
      unfolding ops_kept_def t .
    then have "\<exists>v. ps_Ops s' a = Some v \<and> kept_span ?u v" by (elim allE [of _ a] allE [of _ ?u]) simp
    then obtain v where v: "ps_Ops s' a = Some v" "kept_span ?u v" by (elim exE conjE) (rule that)
    have "pair_inv s' (log_sent ?act sent) (log_received ?act rcvd)"
      by (rule fin [OF a(2) s' v(1) kept_trans [OF ku v(2)] stream])
    then show ?thesis using a(1) run by simp
  qed
qed

lemma pair_step_ok:
  assumes "pair_inv s sent rcvd" and "pair_enabled act s"
  shows "\<exists>hs s'. pair_step act s = Inr (hs, s') \<and> pair_inv s' (log_sent act sent) (log_received act rcvd)"
proof (cases act)
  case Start
  then show ?thesis using start_step assms by simp
next
  case (Stop_Io a)
  then have "log_sent act sent = sent" "log_received act rcvd = rcvd" by (simp_all add: log_sent_def log_received_def fun_eq_iff)
  then show ?thesis using stop_step [OF assms(1), of a] assms(2) Stop_Io by (auto simp: pair_enabled_def)
next
  case (Close_End i)
  then have "log_sent act sent = sent" "log_received act rcvd = rcvd" by (simp_all add: log_sent_def log_received_def fun_eq_iff)
  then show ?thesis using close_step [OF assms(1), of i] Close_End by simp
qed

lemma pair_reach_inv: "pair_reach s sent rcvd \<Longrightarrow> pair_inv s sent rcvd"
proof (induction rule: pair_reach.induct)
  case pair_start
  show ?case by (rule make_pair_inv)
next
  case (pair_act s sent rcvd act hs s')
  then show ?case using pair_step_ok [OF pair_act.IH pair_act.hyps(2)] by auto
qed

definition bytes_of :: "shared_state \<Rightarrow> (nat \<times> u8 list) list \<Rightarrow> u8 list" where
  "bytes_of s l = concat (map (\<lambda>(a, _). done_of s a) l)"

lemma bytes_of_fst: "bytes_of s l = concat (map (done_of s) (map fst l))"
  by (induction l) (auto simp: bytes_of_def)

lemma pair_inv_bytes:
  assumes "pair_inv s sent rcvd"
  shows "bytes_of s (rcvd d) = bytes_of s (sent d)"
  using assms by (simp add: bytes_of_fst pair_inv_def stream_ok_def del: map_map)

lemma pair_inv_success:
  assumes inv: "pair_inv s sent rcvd"
  shows "(a, data) \<in> set (sent d) \<Longrightarrow> \<exists>w. ps_Ops s a = Some w \<and> prefix (aw_Done w) data \<and> (aw_Ec w = Some no_error \<longrightarrow> aw_Done w = data)"
    and "(a, data) \<in> set (rcvd d) \<Longrightarrow> \<exists>w. ps_Ops s a = Some w \<and> length (aw_Done w) \<le> length data
      \<and> (aw_Ec w = Some no_error \<longrightarrow> length (aw_Done w) = length data)"
proof -
  have st: "settled s" and sp: "spans_in s (sent d)" "sizes_in s (rcvd d)" using inv by (simp_all add: pair_inv_def)
  have e: "aw_Data w = []" if "ps_Ops s a = Some w" "aw_Ec w = Some no_error" for w using st that by (simp add: settled_def)
  show "\<exists>w. ps_Ops s a = Some w \<and> prefix (aw_Done w) data \<and> (aw_Ec w = Some no_error \<longrightarrow> aw_Done w = data)" if mem: "(a, data) \<in> set (sent d)"
  proof -
    obtain w where w: "ps_Ops s a = Some w" "aw_Done w @ aw_Data w = data" using sp(1) mem by (fastforce simp: spans_in_def)
    then show ?thesis using e [OF w(1)] by (auto simp: prefix_def)
  qed
  show "\<exists>w. ps_Ops s a = Some w \<and> length (aw_Done w) \<le> length data
      \<and> (aw_Ec w = Some no_error \<longrightarrow> length (aw_Done w) = length data)" if mem: "(a, data) \<in> set (rcvd d)"
  proof -
    obtain w where w: "ps_Ops s a = Some w" "length (aw_Done w) + length (aw_Data w) = length data" using sp(2) mem by (fastforce simp: sizes_in_def)
    then show ?thesis using e [OF w(1)] by auto
  qed
qed

section \<open>Properties\<close>


lemmas demo_simps = pair_step_def local_send_def local_recv_def new_awaiter_def await_suspend_def register_stop_def find_op_def
  Let_def inject_def set_send_slot_def set_recv_slot_def put_op_def outbound_def inbound_def transfer_def make_pair_def
  is_error_def no_error_def

definition demo_pair1 :: shared_state where
  "demo_pair1 = (case pair_step (Start 0 7 False [1, 2, 3] Io_Send May_Stop) make_pair of Inr (_, s) \<Rightarrow> s | Inl _ \<Rightarrow> make_pair)"

definition demo_pair2 :: shared_state where
  "demo_pair2 = (case pair_step (Start 1 8 True [0, 0] Io_Recv Never_Stops) demo_pair1 of Inr (_, s) \<Rightarrow> s | Inl _ \<Rightarrow> make_pair)"

lemma demo_pair1: "pair_step (Start 0 7 False [1, 2, 3] Io_Send May_Stop) make_pair = Inr ([], demo_pair1)"
  by (simp add: demo_pair1_def demo_simps)

lemma demo_pair2: "pair_step (Start 1 8 True [0, 0] Io_Recv Never_Stops) demo_pair1 = Inr ([8], demo_pair2)"
  by (simp add: demo_pair2_def demo_pair1_def demo_simps)

lemma demo_pair_reach:
  "pair_reach demo_pair2 (\<lambda>d. if d then [(0, [1, 2, 3])] else []) (\<lambda>d. if d then [(1, [0, 0])] else [])"
proof -
  have l1: "log_sent (Start 0 7 False [1, 2, 3] Io_Send May_Stop) (\<lambda>_. []) = (\<lambda>d. if d then [(0, [1, 2, 3])] else [])"
    "log_received (Start 0 7 False [1, 2, 3] Io_Send May_Stop) (\<lambda>_. []) = (\<lambda>_. [])"
    by (simp_all add: log_sent_def log_received_def fun_eq_iff)
  have l2: "log_sent (Start 1 8 True [0, 0] Io_Recv Never_Stops) l = l"
    "log_received (Start 1 8 True [0, 0] Io_Recv Never_Stops) (\<lambda>_. []) = (\<lambda>d. if d then [(1, [0, 0])] else [])" for l
    by (simp_all add: log_sent_def log_received_def fun_eq_iff)
  have e1: "pair_enabled (Start 0 7 False [1, 2, 3] Io_Send May_Stop) make_pair"
    by (simp add: pair_enabled_def slot_def make_pair_def)
  have e2: "pair_enabled (Start 1 8 True [0, 0] Io_Recv Never_Stops) demo_pair1"
    by (simp add: pair_enabled_def demo_pair1_def demo_simps slot_def)
  from pair_act [OF pair_start e1 demo_pair1] have "pair_reach demo_pair1 (\<lambda>d. if d then [(0, [1, 2, 3])] else []) (\<lambda>_. [])"
    unfolding l1 .
  from pair_act [OF this e2 demo_pair2] show ?thesis unfolding l2 .
qed






end
