(* ===== verification/Buffering_Socket.thy ===== *)
theory Buffering_Socket
  imports Fifo Error_Code
begin

text \<open>
  The socket whose messages are moved by its owner, \<^verbatim>\<open>coproto/Socket/BufferingSocket.h\<close>: the
  byte buffer, the awaiters of transfers and their cancellation, the functions by which the owner
  feeds and drains the socket, and the loop that connects two such sockets.
\<close>

section \<open>The buffer\<close>

record chunks =
  ck_Front :: nat
  ck_Size :: nat
  ck_Data :: "u8 list list"

definition no_chunks :: chunks where
  "no_chunks = \<lparr>ck_Front = 0, ck_Size = 0, ck_Data = []\<rparr>"

text \<open>\<^verbatim>\<open>size\<close> checks the count against the stored vectors.\<close>

definition buf_size :: "chunks \<Rightarrow> fault + nat" where
  "buf_size b = checkR (sum_list (map length (ck_Data b)) = ck_Size b + ck_Front b) Assertion (Inr (ck_Size b))"

function pop_loop :: "nat \<Rightarrow> chunks \<Rightarrow> fault + u8 list \<times> chunks" where
  "pop_loop n b = (if n = 0 then Inr ([], b) else case ck_Data b of [] \<Rightarrow> Inl Bad_Pointer
     | c # cs \<Rightarrow> if length c < ck_Front b then Inl Bad_Pointer
       else let m = min n (length c - ck_Front b);
                src = take m (drop (ck_Front b) c);
                b = b\<lparr>ck_Front := ck_Front b + m, ck_Size := ck_Size b - m\<rparr>;
                b = (if ck_Front b = length c then b\<lparr>ck_Front := 0, ck_Data := cs\<rparr> else b)
            in bindR (pop_loop (n - m) b) (\<lambda>(xs, b). Inr (src @ xs, b)))"
  by pat_completeness auto

termination
proof (relation "measure (\<lambda>(n, b). n + length (ck_Data b))", goal_cases)
  case (2 n b c cs m src b1 b2)
  then show ?case by (cases "m = 0") (auto simp: min_def split: if_splits)
qed simp

declare pop_loop.simps [simp del]

definition buf_pop :: "nat \<Rightarrow> chunks \<Rightarrow> fault + u8 list \<times> chunks" where
  "buf_pop n b = checkR (n \<le> ck_Size b) Assertion (bindR (pop_loop n b) (\<lambda>(xs, b). bindR (buf_size b) (\<lambda>_. Inr (xs, b))))"

definition buf_push :: "u8 list \<Rightarrow> chunks \<Rightarrow> fault + chunks" where
  "buf_push xs b = (let b = b\<lparr>ck_Data := ck_Data b @ [xs], ck_Size := ck_Size b + length xs\<rparr> in
     bindR (buf_size b) (\<lambda>_. Inr b))"

text \<open>Moving all of the buffer \<open>d\<close> behind \<open>b\<close>; \<open>d\<close> is left empty.\<close>

fun move_chunks :: "nat \<Rightarrow> u8 list list \<Rightarrow> u8 list list \<Rightarrow> fault + u8 list list" where
  "move_chunks front [] acc = Inr acc"
| "move_chunks front (c # cs) acc = checkR (front = 0) Assertion (move_chunks front cs (acc @ [c]))"

definition buf_append :: "chunks \<Rightarrow> chunks \<Rightarrow> fault + chunks \<times> chunks" where
  "buf_append d b = bindR (buf_size d) (\<lambda>n. bindR (move_chunks (ck_Front d) (ck_Data d) (ck_Data b)) (\<lambda>cs.
     let b = b\<lparr>ck_Size := ck_Size b + n, ck_Data := cs\<rparr>; d = d\<lparr>ck_Size := 0, ck_Data := []\<rparr> in
     bindR (buf_size b) (\<lambda>_. Inr (d, b))))"

definition buf_pop_all :: "chunks \<Rightarrow> fault + u8 list \<times> chunks" where
  "buf_pop_all b = bindR (buf_size b) (\<lambda>_. bindR (move_chunks (ck_Front b) (ck_Data b) []) (\<lambda>cs.
     let b = b\<lparr>ck_Data := [], ck_Size := 0\<rparr> in bindR (buf_size b) (\<lambda>_. Inr (concat cs, b))))"

section \<open>The bytes of a buffer\<close>

definition chunk_bytes :: "chunks \<Rightarrow> u8 list" where
  "chunk_bytes b = drop (ck_Front b) (concat (ck_Data b))"

text \<open>The first vector is never used up, and the count is right.\<close>

definition chunks_ok :: "chunks \<Rightarrow> bool" where
  "chunks_ok b \<longleftrightarrow> length (concat (ck_Data b)) = ck_Size b + ck_Front b
     \<and> (case ck_Data b of [] \<Rightarrow> ck_Front b = 0 | c # _ \<Rightarrow> ck_Front b = 0 \<or> ck_Front b < length c)"

lemma no_chunks_ok [simp]: "chunks_ok no_chunks" "chunk_bytes no_chunks = []"
  by (simp_all add: chunks_ok_def no_chunks_def chunk_bytes_def)

lemma length_chunk_bytes: "chunks_ok b \<Longrightarrow> length (chunk_bytes b) = ck_Size b"
  by (simp add: chunks_ok_def chunk_bytes_def)

lemma buf_size_ok: "chunks_ok b \<Longrightarrow> buf_size b = Inr (length (chunk_bytes b))"
  using length_chunk_bytes [of b] by (simp add: buf_size_def chunks_ok_def length_concat)

lemma pop_loop_ok:
  "chunks_ok b \<Longrightarrow> n \<le> length (chunk_bytes b) \<Longrightarrow>
     \<exists>b'. pop_loop n b = Inr (take n (chunk_bytes b), b') \<and> chunks_ok b' \<and> chunk_bytes b' = drop n (chunk_bytes b)"
proof (induction n b rule: pop_loop.induct)
  case (1 n b)
  show ?case
  proof (cases "n = 0")
    case True
    have "pop_loop 0 b = Inr ([], b)" by (simp add: pop_loop.simps [of 0 b])
    then show ?thesis using 1(2) True by simp
  next
    case False
    then obtain c cs where d: "ck_Data b = c # cs" using 1(2,3)
      by (cases "ck_Data b") (auto simp: chunk_bytes_def)
    have fr: "ck_Front b \<le> length c" using 1(2) d by (auto simp: chunks_ok_def)
    let ?m = "min n (length c - ck_Front b)"
    let ?b1 = "b\<lparr>ck_Front := ck_Front b + ?m, ck_Size := ck_Size b - ?m\<rparr>"
    let ?b2 = "if ck_Front ?b1 = length c then ?b1\<lparr>ck_Front := 0, ck_Data := cs\<rparr> else ?b1"
    have bytes: "chunk_bytes b = drop (ck_Front b) c @ concat cs" using d fr by (simp add: chunk_bytes_def)
    have m: "take ?m (drop (ck_Front b) c) = take ?m (chunk_bytes b)" by (simp add: bytes)
    have ok: "chunks_ok ?b2" using 1(2) d fr by (auto simp: chunks_ok_def min_def split: list.splits)
    have rest: "chunk_bytes ?b2 = drop ?m (chunk_bytes b)"
      using d fr by (auto simp: chunk_bytes_def min_def add.commute)
    have len: "n - ?m \<le> length (chunk_bytes ?b2)" using 1(3) unfolding rest by simp
    from 1(1) [OF False d _ refl refl refl refl ok len] fr obtain b' where
      b': "pop_loop (n - ?m) ?b2 = Inr (take (n - ?m) (chunk_bytes ?b2), b')" "chunks_ok b'"
        "chunk_bytes b' = drop (n - ?m) (chunk_bytes ?b2)" by auto
    have step: "pop_loop n b = bindR (pop_loop (n - ?m) ?b2) (\<lambda>(xs, b'). Inr (take ?m (drop (ck_Front b) c) @ xs, b'))"
      by (subst pop_loop.simps) (use False d fr in \<open>simp add: Let_def\<close>)
    have "pop_loop n b = Inr (take ?m (chunk_bytes b) @ take (n - ?m) (drop ?m (chunk_bytes b)), b')"
      unfolding step b'(1) rest m by simp
    moreover have "take ?m (chunk_bytes b) @ take (n - ?m) (drop ?m (chunk_bytes b)) = take n (chunk_bytes b)"
      by (metis append_take_drop_id min.cobounded1 le_add_diff_inverse take_add)
    ultimately show ?thesis using b'(2,3) rest by simp
  qed
qed

lemma buf_pop_ok:
  assumes "chunks_ok b" and "n \<le> length (chunk_bytes b)"
  shows "\<exists>b'. buf_pop n b = Inr (take n (chunk_bytes b), b') \<and> chunks_ok b' \<and> chunk_bytes b' = drop n (chunk_bytes b)"
proof -
  from pop_loop_ok [OF assms] obtain b' where
    b': "pop_loop n b = Inr (take n (chunk_bytes b), b')" "chunks_ok b'" "chunk_bytes b' = drop n (chunk_bytes b)" by blast
  then show ?thesis using assms length_chunk_bytes [OF assms(1)] by (simp add: buf_pop_def buf_size_ok)
qed

lemma buf_pop_short: "chunks_ok b \<Longrightarrow> length (chunk_bytes b) < n \<Longrightarrow> buf_pop n b = Inl Assertion"
  by (simp add: buf_pop_def length_chunk_bytes)

lemma buf_push_ok:
  assumes "chunks_ok b"
  shows "\<exists>b'. buf_push xs b = Inr b' \<and> chunks_ok b' \<and> chunk_bytes b' = chunk_bytes b @ xs"
proof -
  let ?b = "b\<lparr>ck_Data := ck_Data b @ [xs], ck_Size := ck_Size b + length xs\<rparr>"
  have "chunks_ok ?b" using assms by (auto simp: chunks_ok_def split: list.splits)
  moreover have "chunk_bytes ?b = chunk_bytes b @ xs" using assms by (simp add: chunks_ok_def chunk_bytes_def)
  ultimately show ?thesis using buf_size_ok by (simp add: buf_push_def)
qed

lemma move_chunks_eq: "move_chunks f cs acc = (if f = 0 \<or> cs = [] then Inr (acc @ cs) else Inl Assertion)"
  by (induction cs arbitrary: acc) auto

text \<open>\<^verbatim>\<open>pop()\<close> returns everything, provided that no vector is partly consumed.\<close>

lemma buf_pop_all_ok:
  assumes "chunks_ok b" and "ck_Front b = 0"
  shows "buf_pop_all b = Inr (chunk_bytes b, no_chunks)"
proof -
  have e: "b\<lparr>ck_Data := [], ck_Size := 0\<rparr> = no_chunks" using assms(2) by (simp add: no_chunks_def)
  show ?thesis
    using assms by (simp add: buf_pop_all_def buf_size_ok move_chunks_eq Let_def e) (simp add: chunk_bytes_def)
qed

lemma buf_append_ok:
  assumes b: "chunks_ok b" and d: "chunks_ok d" and f: "ck_Front d = 0"
  shows "\<exists>b'. buf_append d b = Inr (no_chunks, b') \<and> chunks_ok b' \<and> chunk_bytes b' = chunk_bytes b @ chunk_bytes d"
proof -
  let ?b = "b\<lparr>ck_Size := ck_Size b + ck_Size d, ck_Data := ck_Data b @ ck_Data d\<rparr>"
  have "chunks_ok ?b" using b d f by (auto simp: chunks_ok_def split: list.splits)
  moreover have "chunk_bytes ?b = chunk_bytes b @ chunk_bytes d" using b f by (simp add: chunks_ok_def chunk_bytes_def)
  moreover have "d\<lparr>ck_Size := 0, ck_Data := []\<rparr> = no_chunks" using f by (simp add: no_chunks_def)
  ultimately show ?thesis
    using d f buf_size_ok [of ?b] by (simp add: buf_append_def buf_size_ok length_chunk_bytes move_chunks_eq Let_def)
qed

interpretation chunks: byte_fifo chunks_ok chunk_bytes buf_push buf_pop
  by unfold_locales (simp_all add: buf_push_ok buf_pop_ok buf_pop_short)

section \<open>The socket\<close>

datatype buf_type = Buf_Send | Buf_Recv

record buf_awaiter =
  ba_Data :: "u8 list"
  ba_Type :: buf_type
  ba_Ec :: "error_code option"
  ba_Handle :: "nat option"

record buf_sock =
  bs_Ec :: error_code
  bs_Pending :: "nat option"
  bs_Outbound :: chunks
  bs_Inbound :: chunks
  bs_Ops :: "nat \<Rightarrow> buf_awaiter option"

definition buf_new :: buf_sock where
  "buf_new = \<lparr>bs_Ec = no_error, bs_Pending = None, bs_Outbound = no_chunks, bs_Inbound = no_chunks, bs_Ops = (\<lambda>_. None)\<rparr>"

definition buf_op :: "nat \<Rightarrow> buf_sock \<Rightarrow> fault + buf_awaiter" where
  "buf_op a s = (case bs_Ops s a of None \<Rightarrow> Inl Bad_Pointer | Some w \<Rightarrow> Inr w)"

definition put_buf_op :: "nat \<Rightarrow> buf_awaiter \<Rightarrow> buf_sock \<Rightarrow> buf_sock" where
  "put_buf_op a w s = s\<lparr>bs_Ops := (bs_Ops s)(a \<mapsto> w)\<rparr>"

text \<open>
  The stop callback. A transfer that has not started has no handle yet; then only its result is set.
\<close>

definition buf_stop :: "nat \<Rightarrow> buf_sock \<Rightarrow> fault + nat option \<times> buf_sock" where
  "buf_stop a s = bindR (buf_op a s) (\<lambda>w. if ba_Ec w \<noteq> None then Inr (None, s)
     else let s = put_buf_op a (w\<lparr>ba_Ec := Some (make_error_code Operation_aborted)\<rparr>) s in
       if ba_Handle w \<noteq> None \<and> ba_Type w = Buf_Recv
       then checkR (bs_Pending s = Some a) Assertion (Inr (ba_Handle w, s\<lparr>bs_Pending := None\<rparr>))
       else Inr (ba_Handle w, s))"

text \<open>
  The awaiter's constructor; if the stop was requested before, the callback runs inside it.
\<close>

definition buf_awaiter_new :: "nat \<Rightarrow> buf_type \<Rightarrow> u8 list \<Rightarrow> bool \<Rightarrow> buf_sock \<Rightarrow> fault + buf_sock" where
  "buf_awaiter_new a ty data stopped s = checkR (data \<noteq> []) Assertion
     (let s = put_buf_op a \<lparr>ba_Data = data, ba_Type = ty, ba_Ec = None, ba_Handle = None\<rparr> s in
      if stopped then bindR (buf_stop a s) (\<lambda>(_, s). Inr s) else Inr s)"

definition buf_send :: "nat \<Rightarrow> u8 list \<Rightarrow> bool \<Rightarrow> buf_sock \<Rightarrow> fault + buf_sock" where
  "buf_send a data stopped s = buf_awaiter_new a Buf_Send data stopped s"

definition buf_recv :: "nat \<Rightarrow> u8 list \<Rightarrow> bool \<Rightarrow> buf_sock \<Rightarrow> fault + buf_sock" where
  "buf_recv a data stopped s = buf_awaiter_new a Buf_Recv data stopped s"

text \<open>\<^verbatim>\<open>await_suspend\<close>: the result is the handle to resume, if the transfer is finished.\<close>

definition buf_await :: "nat \<Rightarrow> nat \<Rightarrow> buf_sock \<Rightarrow> fault + nat option \<times> buf_sock" where
  "buf_await a h s = bindR (buf_op a s) (\<lambda>w. if ba_Ec w \<noteq> None then Inr (Some h, s)
     else case ba_Type w of
       Buf_Send \<Rightarrow> bindR (buf_push (ba_Data w) (bs_Outbound s)) (\<lambda>b.
         Inr (Some h, put_buf_op a (w\<lparr>ba_Ec := Some no_error\<rparr>) (s\<lparr>bs_Outbound := b\<rparr>)))
     | Buf_Recv \<Rightarrow> bindR (buf_size (bs_Inbound s)) (\<lambda>n. if length (ba_Data w) \<le> n
         then bindR (buf_pop (length (ba_Data w)) (bs_Inbound s)) (\<lambda>(xs, b).
           Inr (Some h, put_buf_op a (w\<lparr>ba_Data := xs, ba_Ec := Some no_error\<rparr>) (s\<lparr>bs_Inbound := b\<rparr>)))
         else Inr (None, (put_buf_op a (w\<lparr>ba_Handle := Some h\<rparr>) s)\<lparr>bs_Pending := Some a\<rparr>)))"

definition buf_resume :: "buf_awaiter \<Rightarrow> fault + error_code \<times> nat" where
  "buf_resume w = (case ba_Ec w of None \<Rightarrow> Inl Assertion
     | Some e \<Rightarrow> Inr (e, if is_error e then 0 else length (ba_Data w)))"

definition process_inbound :: "u8 list \<Rightarrow> buf_sock \<Rightarrow> fault + nat option \<times> buf_sock" where
  "process_inbound data s = bindR (buf_push data (bs_Inbound s)) (\<lambda>b. let s = s\<lparr>bs_Inbound := b\<rparr> in
     case bs_Pending s of None \<Rightarrow> Inr (None, s)
     | Some a \<Rightarrow> bindR (buf_op a s) (\<lambda>w. bindR (buf_size b) (\<lambda>n. if length (ba_Data w) \<le> n
         then bindR (buf_pop (length (ba_Data w)) b) (\<lambda>(xs, b).
           checkR (ba_Handle w \<noteq> None) Assertion (Inr (ba_Handle w,
             put_buf_op a (w\<lparr>ba_Data := xs, ba_Ec := Some no_error\<rparr>) (s\<lparr>bs_Inbound := b, bs_Pending := None\<rparr>))))
         else Inr (None, s))))"

definition buf_setError :: "error_code \<Rightarrow> buf_sock \<Rightarrow> fault + nat option \<times> buf_sock" where
  "buf_setError e s = checkR (is_error e) Assertion (if is_error (bs_Ec s) then Inr (None, s)
     else let s = s\<lparr>bs_Ec := e\<rparr> in case bs_Pending s of None \<Rightarrow> Inr (None, s)
       | Some a \<Rightarrow> bindR (buf_op a s) (\<lambda>w. checkR (ba_Handle w \<noteq> None) Assertion
           (Inr (ba_Handle w, put_buf_op a (w\<lparr>ba_Ec := Some e\<rparr>) (s\<lparr>bs_Pending := None\<rparr>)))))"

definition get_outbound :: "buf_sock \<Rightarrow> fault + u8 list option \<times> buf_sock" where
  "get_outbound s = bindR (buf_pop_all (bs_Outbound s)) (\<lambda>(out, b). let s = s\<lparr>bs_Outbound := b\<rparr> in
     Inr (if out = [] \<and> is_error (bs_Ec s) then None else Some out, s))"

definition buf_close :: "buf_sock \<Rightarrow> fault + nat option \<times> buf_sock" where
  "buf_close s = (let s = (if is_error (bs_Ec s) then s else s\<lparr>bs_Ec := make_error_code Closed\<rparr>) in
     case bs_Pending s of None \<Rightarrow> Inr (None, s)
     | Some a \<Rightarrow> bindR (buf_op a s) (\<lambda>w. checkR (ba_Handle w \<noteq> None \<and> ba_Ec w = None) Assertion
         (Inr (ba_Handle w, put_buf_op a (w\<lparr>ba_Ec := Some (make_error_code Operation_aborted)\<rparr>) (s\<lparr>bs_Pending := None\<rparr>)))))"

section \<open>Exchanging the messages of two sockets\<close>

text \<open>
  The coroutines are a parameter: \<open>resume i h\<close> runs the one with handle \<open>h\<close> that waits on socket \<open>i\<close>
  until it suspends again; it may use both sockets and has a state of its own.
\<close>

type_synonym 'u party = "'u \<times> (bool \<Rightarrow> buf_sock)"

definition resume_cb :: "(bool \<Rightarrow> nat \<Rightarrow> 'u party \<Rightarrow> fault + 'u party) \<Rightarrow> bool \<Rightarrow> nat option \<Rightarrow> 'u party \<Rightarrow> fault + 'u party" where
  "resume_cb resume i cb p = (case cb of None \<Rightarrow> Inr p | Some h \<Rightarrow> resume i h p)"

definition exchange_turn :: "(bool \<Rightarrow> nat \<Rightarrow> 'u party \<Rightarrow> fault + 'u party) \<Rightarrow> bool \<Rightarrow> 'u party \<Rightarrow> fault + bool \<times> 'u party" where
  "exchange_turn resume i p = bindR (get_outbound (snd p i)) (\<lambda>(bb, si). let S = (snd p)(i := si) in
     case bb of
       Some b \<Rightarrow> if b = [] then Inr (False, (fst p, S))
         else bindR (process_inbound b (S (\<not> i))) (\<lambda>(cb, sj).
           bindR (resume_cb resume (\<not> i) cb (fst p, S((\<not> i) := sj))) (\<lambda>p. Inr (True, p)))
     | None \<Rightarrow> bindR (buf_setError (make_error_code RemoteClosed) (S (\<not> i))) (\<lambda>(cb, sj).
           bindR (resume_cb resume (\<not> i) cb (fst p, S((\<not> i) := sj))) (\<lambda>p. Inr (False, p))))"

definition exchange_round :: "(bool \<Rightarrow> nat \<Rightarrow> 'u party \<Rightarrow> fault + 'u party) \<Rightarrow> 'u party \<Rightarrow> fault + bool \<times> 'u party" where
  "exchange_round resume p = bindR (exchange_turn resume False p) (\<lambda>(b0, p).
     bindR (exchange_turn resume True p) (\<lambda>(b1, p). Inr (b0 \<or> b1, p)))"

text \<open>\<open>None\<close> means that the fuel was used up.\<close>

fun exchangeMessages :: "nat \<Rightarrow> (bool \<Rightarrow> nat \<Rightarrow> 'u party \<Rightarrow> fault + 'u party) \<Rightarrow> 'u party \<Rightarrow> (fault + 'u party) option" where
  "exchangeMessages 0 resume p = None"
| "exchangeMessages (Suc n) resume p = (case exchange_round resume p of
     Inl e \<Rightarrow> Some (Inl e)
   | Inr (progress, p) \<Rightarrow> if progress then exchangeMessages n resume p else Some (Inr p))"

section \<open>The invariant of a socket\<close>

text \<open>
  The pending receive wants more than has arrived, and nothing else waits; the outbound buffer is only
  ever emptied as a whole.
\<close>

definition buf_inv :: "buf_sock \<Rightarrow> bool" where
  "buf_inv s \<longleftrightarrow> chunks_ok (bs_Inbound s) \<and> chunks_ok (bs_Outbound s) \<and> ck_Front (bs_Outbound s) = 0
     \<and> (\<forall>a. bs_Pending s = Some a \<longrightarrow> (\<exists>w. bs_Ops s a = Some w \<and> ba_Type w = Buf_Recv \<and> ba_Ec w = None
          \<and> ba_Handle w \<noteq> None \<and> length (chunk_bytes (bs_Inbound s)) < length (ba_Data w)))
     \<and> (\<forall>a w. bs_Ops s a = Some w \<longrightarrow> ba_Ec w = None \<longrightarrow> ba_Handle w \<noteq> None \<longrightarrow> bs_Pending s = Some a)"

lemma buf_invD:
  assumes "buf_inv s"
  shows "chunks_ok (bs_Inbound s)" and "chunks_ok (bs_Outbound s)" and "ck_Front (bs_Outbound s) = 0"
    and "bs_Pending s = Some a \<Longrightarrow> \<exists>w. bs_Ops s a = Some w \<and> ba_Type w = Buf_Recv \<and> ba_Ec w = None
          \<and> ba_Handle w \<noteq> None \<and> length (chunk_bytes (bs_Inbound s)) < length (ba_Data w)"
    and "bs_Ops s a = Some w \<Longrightarrow> ba_Ec w = None \<Longrightarrow> ba_Handle w \<noteq> None \<Longrightarrow> bs_Pending s = Some a"
  using assms unfolding buf_inv_def by blast+

lemma buf_new_inv: "buf_inv buf_new"
  by (simp add: buf_inv_def buf_new_def) (simp add: no_chunks_def)

lemma buf_push_front: "buf_push xs b = Inr b' \<Longrightarrow> ck_Front b' = ck_Front b"
  by (auto simp: buf_push_def Let_def fault_simps)

datatype buf_act = Buf_New nat buf_type "u8 list" bool | Buf_Await nat nat | Buf_Stop nat
  | Buf_Feed "u8 list" | Buf_Take | Buf_Fail error_code | Buf_Close

text \<open>One step; the bytes are what the owner takes out.\<close>

definition buf_step :: "buf_act \<Rightarrow> buf_sock \<Rightarrow> fault + u8 list \<times> buf_sock" where
  "buf_step act s = (case act of
     Buf_New a ty data stopped \<Rightarrow> bindR (if ty = Buf_Send then buf_send a data stopped s else buf_recv a data stopped s) (\<lambda>s. Inr ([], s))
   | Buf_Await a h \<Rightarrow> bindR (buf_await a h s) (\<lambda>(_, s). Inr ([], s))
   | Buf_Stop a \<Rightarrow> bindR (buf_stop a s) (\<lambda>(_, s). Inr ([], s))
   | Buf_Feed data \<Rightarrow> bindR (process_inbound data s) (\<lambda>(_, s). Inr ([], s))
   | Buf_Take \<Rightarrow> bindR (get_outbound s) (\<lambda>(out, s). Inr (case out of None \<Rightarrow> [] | Some xs \<Rightarrow> xs, s))
   | Buf_Fail e \<Rightarrow> bindR (buf_setError e s) (\<lambda>(_, s). Inr ([], s))
   | Buf_Close \<Rightarrow> bindR (buf_close s) (\<lambda>(_, s). Inr ([], s)))"

text \<open>Every awaiter is awaited once, and there is one receive at a time.\<close>

definition buf_enabled :: "buf_act \<Rightarrow> buf_sock \<Rightarrow> bool" where
  "buf_enabled act s = (case act of
     Buf_New a ty data stopped \<Rightarrow> data \<noteq> [] \<and> bs_Ops s a = None
   | Buf_Await a h \<Rightarrow> (case bs_Ops s a of None \<Rightarrow> False
       | Some w \<Rightarrow> ba_Handle w = None \<and> (ba_Type w = Buf_Recv \<longrightarrow> bs_Pending s = None))
   | Buf_Stop a \<Rightarrow> bs_Ops s a \<noteq> None
   | Buf_Fail e \<Rightarrow> is_error e
   | _ \<Rightarrow> True)"

definition buf_data :: "buf_sock \<Rightarrow> nat \<Rightarrow> u8 list" where
  "buf_data s a = (case bs_Ops s a of None \<Rightarrow> [] | Some w \<Rightarrow> ba_Data w)"

text \<open>The bytes that a step feeds, the bytes that it sends, and the receive that it completes.\<close>

definition fed_by :: "buf_act \<Rightarrow> u8 list" where
  "fed_by act = (case act of Buf_Feed data \<Rightarrow> data | _ \<Rightarrow> [])"

definition sent_by :: "buf_act \<Rightarrow> buf_sock \<Rightarrow> u8 list" where
  "sent_by act s = (case act of Buf_Await a h \<Rightarrow> (case bs_Ops s a of None \<Rightarrow> []
     | Some w \<Rightarrow> if ba_Type w = Buf_Send \<and> ba_Ec w = None then ba_Data w else []) | _ \<Rightarrow> [])"

definition finishes :: "buf_sock \<Rightarrow> buf_sock \<Rightarrow> nat \<Rightarrow> bool" where
  "finishes s s' a = (case (bs_Ops s a, bs_Ops s' a) of
     (Some w, Some w') \<Rightarrow> ba_Type w = Buf_Recv \<and> ba_Ec w = None \<and> ba_Ec w' = Some no_error | _ \<Rightarrow> False)"

definition got_by :: "buf_act \<Rightarrow> buf_sock \<Rightarrow> buf_sock \<Rightarrow> nat list" where
  "got_by act s s' = (case act of Buf_Await a h \<Rightarrow> if finishes s s' a then [a] else []
     | Buf_Feed data \<Rightarrow> (case bs_Pending s of None \<Rightarrow> [] | Some a \<Rightarrow> if finishes s s' a then [a] else [])
     | _ \<Rightarrow> [])"

text \<open>Finished awaiters do not change any more, and a receive gets as many bytes as it asked for.\<close>

definition buf_kept :: "buf_sock \<Rightarrow> buf_sock \<Rightarrow> bool" where
  "buf_kept s s' \<longleftrightarrow> (\<forall>a w. bs_Ops s a = Some w \<longrightarrow> (\<exists>w'. bs_Ops s' a = Some w' \<and> (ba_Ec w \<noteq> None \<longrightarrow> w' = w)
     \<and> ba_Type w' = ba_Type w \<and> length (ba_Data w') = length (ba_Data w)))"

definition buf_flow :: "buf_act \<Rightarrow> buf_sock \<Rightarrow> u8 list \<Rightarrow> buf_sock \<Rightarrow> bool" where
  "buf_flow act s out s' \<longleftrightarrow>
     chunk_bytes (bs_Inbound s) @ fed_by act = concat (map (buf_data s') (got_by act s s')) @ chunk_bytes (bs_Inbound s')
   \<and> chunk_bytes (bs_Outbound s) @ sent_by act s = out @ chunk_bytes (bs_Outbound s')"

definition buf_good :: "buf_act \<Rightarrow> buf_sock \<Rightarrow> u8 list \<Rightarrow> buf_sock \<Rightarrow> bool" where
  "buf_good act s out s' \<longleftrightarrow> buf_inv s' \<and> buf_kept s s' \<and> buf_flow act s out s'"

lemma aborted_code [simp]: "make_error_code Operation_aborted \<noteq> no_error" "no_error \<noteq> make_error_code Operation_aborted"
  by (simp_all add: make_error_code_def no_error_def)

text \<open>Replacing one awaiter that is not waiting, or that stops waiting, by a finished one.\<close>

lemma finish_inv:
  assumes inv: "buf_inv s" and w: "bs_Ops s a = Some w" "ba_Ec w = None" and e: "ba_Ec w' = Some e"
    and s': "bs_Ops s' = (bs_Ops s)(a \<mapsto> w')" "bs_Inbound s' = bs_Inbound s" "bs_Outbound s' = bs_Outbound s"
      "bs_Pending s' = (if bs_Pending s = Some a then None else bs_Pending s)"
  shows "buf_inv s'"
  unfolding buf_inv_def s'(2,3)
proof (intro conjI allI impI)
  show "chunks_ok (bs_Inbound s)" "chunks_ok (bs_Outbound s)" "ck_Front (bs_Outbound s) = 0" using buf_invD(1-3) [OF inv] .
  show "\<exists>w. bs_Ops s' x = Some w \<and> ba_Type w = Buf_Recv \<and> ba_Ec w = None \<and> ba_Handle w \<noteq> None
      \<and> length (chunk_bytes (bs_Inbound s)) < length (ba_Data w)" if "bs_Pending s' = Some x" for x
  proof -
    have x: "bs_Pending s = Some x" "x \<noteq> a" using that s'(4) by (auto split: if_splits)
    then show ?thesis using buf_invD(4) [OF inv x(1)] s'(1) by simp
  qed
  show "bs_Pending s' = Some x" if "bs_Ops s' x = Some u" "ba_Ec u = None" "ba_Handle u \<noteq> None" for x u
  proof -
    have "x \<noteq> a" using that e s'(1) by auto
    then have "bs_Ops s x = Some u" using that(1) s'(1) by simp
    then show ?thesis using buf_invD(5) [OF inv _ that(2,3)] \<open>x \<noteq> a\<close> s'(4) by simp
  qed
qed

lemma finish_kept:
  assumes "bs_Ops s a = Some w" "ba_Ec w = None" "bs_Ops s' = (bs_Ops s)(a \<mapsto> w')"
    "ba_Type w' = ba_Type w" "length (ba_Data w') = length (ba_Data w)"
  shows "buf_kept s s'"
  using assms by (auto simp: buf_kept_def)

lemma buf_kept_refl: "bs_Ops s' = bs_Ops s \<Longrightarrow> buf_kept s s'"
  by (simp add: buf_kept_def)

lemma put_buf_op_simps [simp]:
  "bs_Ops (put_buf_op a w s) = (bs_Ops s)(a \<mapsto> w)" "bs_Pending (put_buf_op a w s) = bs_Pending s"
  "bs_Inbound (put_buf_op a w s) = bs_Inbound s" "bs_Outbound (put_buf_op a w s) = bs_Outbound s" "bs_Ec (put_buf_op a w s) = bs_Ec s"
  by (simp_all add: put_buf_op_def)

lemma buf_stop_ok:
  assumes inv: "buf_inv s" and w: "bs_Ops s a = Some w"
  shows "\<exists>cb s'. buf_stop a s = Inr (cb, s') \<and> buf_good (Buf_Stop a) s [] s'"
proof (cases "ba_Ec w")
  case (Some e)
  then show ?thesis using inv w
    by (simp add: buf_stop_def buf_op_def buf_good_def buf_kept_refl buf_flow_def fed_by_def got_by_def sent_by_def)
next
  case None
  have pend: "bs_Pending s = Some a \<Longrightarrow> ba_Handle w \<noteq> None \<and> ba_Type w = Buf_Recv"
    using buf_invD(4) [OF inv, of a] w by auto
  have act: "ba_Handle w \<noteq> None \<Longrightarrow> bs_Pending s = Some a" using buf_invD(5) [OF inv w None] .
  let ?w = "w\<lparr>ba_Ec := Some (make_error_code Operation_aborted)\<rparr>"
  let ?s = "(put_buf_op a ?w s)\<lparr>bs_Pending := (if bs_Pending s = Some a then None else bs_Pending s)\<rparr>"
  have "buf_stop a s = Inr (ba_Handle w, ?s)"
    using w None pend act by (cases "ba_Handle w") (auto simp: buf_stop_def buf_op_def Let_def)
  moreover have "buf_inv ?s" by (rule finish_inv [OF inv w None, of ?w]) simp_all
  moreover have "buf_kept s ?s" by (rule finish_kept [OF w None, of ?s ?w]) simp_all
  ultimately show ?thesis by (simp add: buf_good_def buf_flow_def fed_by_def got_by_def sent_by_def)
qed

lemma buf_kept_trans: "buf_kept r s \<Longrightarrow> buf_kept s t \<Longrightarrow> buf_kept r t"
  unfolding buf_kept_def by (metis (no_types, opaque_lifting))

lemma buf_new_ok:
  assumes inv: "buf_inv s" and new: "bs_Ops s a = None" and d: "data \<noteq> []"
  shows "\<exists>s'. buf_awaiter_new a ty data stopped s = Inr s' \<and> buf_good (Buf_New a ty data stopped) s [] s'"
proof -
  let ?w = "\<lparr>ba_Data = data, ba_Type = ty, ba_Ec = None, ba_Handle = None\<rparr>"
  let ?s = "put_buf_op a ?w s"
  have na: "bs_Pending s \<noteq> Some a" using buf_invD(4) [OF inv, of a] new by auto
  have inv1: "buf_inv ?s"
    unfolding buf_inv_def
  proof (intro conjI allI impI)
    show "\<exists>w. bs_Ops ?s x = Some w \<and> ba_Type w = Buf_Recv \<and> ba_Ec w = None \<and> ba_Handle w \<noteq> None
      \<and> length (chunk_bytes (bs_Inbound ?s)) < length (ba_Data w)" if "bs_Pending ?s = Some x" for x
      using that buf_invD(4) [OF inv, of x] na by auto
    show "bs_Pending ?s = Some x" if "bs_Ops ?s x = Some u" "ba_Ec u = None" "ba_Handle u \<noteq> None" for x u
      using that buf_invD(5) [OF inv, of x u] by (auto split: if_splits)
  qed (use buf_invD(1-3) [OF inv] in simp_all)
  have k1: "buf_kept s ?s" using new by (auto simp: buf_kept_def)
  have fl: "buf_flow (Buf_New a ty data stopped) s [] s'" if "buf_flow (Buf_Stop a) ?s [] s'" for s'
    using that by (simp add: buf_flow_def fed_by_def got_by_def sent_by_def)
  show ?thesis
  proof (cases stopped)
    case True
    have "bs_Ops ?s a = Some ?w" by simp
    from buf_stop_ok [OF inv1 this] obtain cb s' where "buf_stop a ?s = Inr (cb, s')" "buf_good (Buf_Stop a) ?s [] s'" by blast
    then show ?thesis using True d fl buf_kept_trans [OF k1] by (auto simp: buf_awaiter_new_def Let_def buf_good_def)
  next
    case False
    have "buf_flow (Buf_Stop a) ?s [] ?s" by (simp add: buf_flow_def fed_by_def got_by_def sent_by_def)
    then show ?thesis using False d inv1 k1 fl by (simp add: buf_awaiter_new_def buf_good_def)
  qed
qed

lemma buf_inv_buffers:
  assumes inv: "buf_inv s" and "chunks_ok i" "chunks_ok b" "ck_Front b = 0"
    and "\<And>a w. bs_Pending s = Some a \<Longrightarrow> bs_Ops s a = Some w \<Longrightarrow> length (chunk_bytes i) < length (ba_Data w)"
  shows "buf_inv (s\<lparr>bs_Inbound := i, bs_Outbound := b\<rparr>)"
  unfolding buf_inv_def
proof (intro conjI allI impI)
  let ?s = "s\<lparr>bs_Inbound := i, bs_Outbound := b\<rparr>"
  show "\<exists>w. bs_Ops ?s x = Some w \<and> ba_Type w = Buf_Recv \<and> ba_Ec w = None \<and> ba_Handle w \<noteq> None
      \<and> length (chunk_bytes (bs_Inbound ?s)) < length (ba_Data w)" if "bs_Pending ?s = Some x" for x
    using that buf_invD(4) [OF inv, of x] assms(5) [of x] by auto
  show "bs_Pending ?s = Some x" if "bs_Ops ?s x = Some u" "ba_Ec u = None" "ba_Handle u \<noteq> None" for x u
    using that buf_invD(5) [OF inv, of x u] by simp
qed (use assms(2-4) in simp_all)

text \<open>Receiving \<open>k\<close> bytes, at once or when they have arrived.\<close>

lemma receive_good:
  assumes inv: "buf_inv s" and w: "bs_Ops s a = Some w" "ba_Ec w = None" "ba_Type w = Buf_Recv"
    and pend: "bs_Pending s = None \<or> bs_Pending s = Some a"
    and b: "chunks_ok b" "chunk_bytes b = chunk_bytes (bs_Inbound s) @ fed_by act"
    and n: "length (ba_Data w) \<le> length (chunk_bytes b)"
    and act: "(\<exists>h. act = Buf_Await a h) \<or> (\<exists>data. act = Buf_Feed data) \<and> bs_Pending s = Some a"
  shows "\<exists>b'. buf_pop (length (ba_Data w)) b = Inr (take (length (ba_Data w)) (chunk_bytes b), b')
    \<and> buf_good act s [] (put_buf_op a (w\<lparr>ba_Data := take (length (ba_Data w)) (chunk_bytes b), ba_Ec := Some no_error\<rparr>)
        (s\<lparr>bs_Inbound := b', bs_Pending := None\<rparr>))"
proof -
  let ?n = "length (ba_Data w)"
  let ?w = "w\<lparr>ba_Data := take ?n (chunk_bytes b), ba_Ec := Some no_error\<rparr>"
  from buf_pop_ok [OF b(1) n] obtain b' where
    b': "buf_pop ?n b = Inr (take ?n (chunk_bytes b), b')" "chunks_ok b'" "chunk_bytes b' = drop ?n (chunk_bytes b)" by blast
  let ?s = "put_buf_op a ?w (s\<lparr>bs_Inbound := b', bs_Pending := None\<rparr>)"
  let ?t = "(put_buf_op a ?w s)\<lparr>bs_Pending := None\<rparr>"
  have "buf_inv ?t" by (rule finish_inv [OF inv w(1,2), of ?w no_error]) (use pend in auto)
  then have "buf_inv (?t\<lparr>bs_Inbound := b', bs_Outbound := bs_Outbound s\<rparr>)"
    by (rule buf_inv_buffers [OF _ b'(2) buf_invD(2,3) [OF inv]]) simp
  moreover have "?t\<lparr>bs_Inbound := b', bs_Outbound := bs_Outbound s\<rparr> = ?s" by (rule buf_sock.equality) simp_all
  ultimately have "buf_inv ?s" by simp
  moreover have "buf_kept s ?s" by (rule finish_kept [OF w(1,2), of ?s ?w]) (use n in simp_all)
  moreover have "buf_flow act s [] ?s"
  proof -
    have "got_by act s ?s = [a]" using act w by (auto simp: got_by_def finishes_def)
    moreover have "sent_by act s = []" using act w by (auto simp: sent_by_def)
    ultimately show ?thesis unfolding buf_flow_def b(2) [symmetric] by (simp add: buf_data_def b'(3))
  qed
  ultimately show ?thesis using b'(1) by (simp add: buf_good_def)
qed

lemma buf_await_ok:
  assumes inv: "buf_inv s" and en: "buf_enabled (Buf_Await a h) s"
  shows "\<exists>cb s'. buf_await a h s = Inr (cb, s') \<and> buf_good (Buf_Await a h) s [] s'"
proof -
  obtain w where w: "bs_Ops s a = Some w" "ba_Handle w = None" "ba_Type w = Buf_Recv \<longrightarrow> bs_Pending s = None"
    using en by (auto simp: buf_enabled_def split: option.splits)
  show ?thesis
  proof (cases "ba_Ec w")
    case (Some e)
    then have "buf_await a h s = Inr (Some h, s)" using w by (simp add: buf_await_def buf_op_def)
    then show ?thesis using inv w Some
      by (simp add: buf_good_def buf_kept_refl buf_flow_def fed_by_def got_by_def sent_by_def finishes_def)
  next
    case None
    show ?thesis
    proof (cases "ba_Type w")
      case Buf_Send
      from buf_push_ok [OF buf_invD(2) [OF inv], of "ba_Data w"] obtain b where
        b: "buf_push (ba_Data w) (bs_Outbound s) = Inr b" "chunks_ok b" "chunk_bytes b = chunk_bytes (bs_Outbound s) @ ba_Data w" by blast
      have f: "ck_Front b = 0" using buf_push_front [OF b(1)] buf_invD(3) [OF inv] by simp
      let ?w = "w\<lparr>ba_Ec := Some no_error\<rparr>"
      let ?s = "put_buf_op a ?w (s\<lparr>bs_Outbound := b\<rparr>)"
      have na: "bs_Pending s \<noteq> Some a" using buf_invD(4) [OF inv, of a] w(1,2) by auto
      have "buf_inv (put_buf_op a ?w s)" by (rule finish_inv [OF inv w(1) None, of ?w no_error]) (use na in auto)
      then have "buf_inv ((put_buf_op a ?w s)\<lparr>bs_Inbound := bs_Inbound s, bs_Outbound := b\<rparr>)"
        by (rule buf_inv_buffers [OF _ buf_invD(1) [OF inv] b(2) f]) (use buf_invD(4) [OF inv] na in fastforce)
      moreover have "(put_buf_op a ?w s)\<lparr>bs_Inbound := bs_Inbound s, bs_Outbound := b\<rparr> = ?s" by (rule buf_sock.equality) simp_all
      ultimately have "buf_inv ?s" by simp
      moreover have "buf_kept s ?s" by (rule finish_kept [OF w(1) None, of ?s ?w]) simp_all
      moreover have "buf_flow (Buf_Await a h) s [] ?s"
        using b(3) w None Buf_Send by (simp add: buf_flow_def fed_by_def got_by_def sent_by_def finishes_def)
      ultimately show ?thesis using w None Buf_Send b(1) by (simp add: buf_await_def buf_op_def buf_good_def)
    next
      case Buf_Recv
      have p: "bs_Pending s = None" using w Buf_Recv by simp
      have sz: "buf_size (bs_Inbound s) = Inr (length (chunk_bytes (bs_Inbound s)))" by (rule buf_size_ok [OF buf_invD(1) [OF inv]])
      show ?thesis
      proof (cases "length (ba_Data w) \<le> length (chunk_bytes (bs_Inbound s))")
        case True
        have "chunk_bytes (bs_Inbound s) = chunk_bytes (bs_Inbound s) @ fed_by (Buf_Await a h)" by (simp add: fed_by_def)
        from receive_good [OF inv w(1) None Buf_Recv _ buf_invD(1) [OF inv] this True] p obtain b' where
          b': "buf_pop (length (ba_Data w)) (bs_Inbound s) = Inr (take (length (ba_Data w)) (chunk_bytes (bs_Inbound s)), b')"
            "buf_good (Buf_Await a h) s [] (put_buf_op a (w\<lparr>ba_Data := take (length (ba_Data w)) (chunk_bytes (bs_Inbound s)), ba_Ec := Some no_error\<rparr>)
              (s\<lparr>bs_Inbound := b', bs_Pending := None\<rparr>))" by auto
        have e: "s\<lparr>bs_Inbound := b', bs_Pending := None\<rparr> = s\<lparr>bs_Inbound := b'\<rparr>" using p by simp
        note good = b'(2) [unfolded e]
        show ?thesis using b'(1) good w None Buf_Recv True sz by (simp add: buf_await_def buf_op_def)
      next
        case False
        let ?s = "(put_buf_op a (w\<lparr>ba_Handle := Some h\<rparr>) s)\<lparr>bs_Pending := Some a\<rparr>"
        have "buf_inv ?s"
          unfolding buf_inv_def
        proof (intro conjI allI impI)
          show "bs_Pending ?s = Some x" if "bs_Ops ?s x = Some u" "ba_Ec u = None" "ba_Handle u \<noteq> None" for x u
            using that buf_invD(5) [OF inv, of x u] p by (auto split: if_splits)
        qed (use buf_invD(1-3) [OF inv] None Buf_Recv False in auto)
        moreover have "buf_kept s ?s" using w None by (auto simp: buf_kept_def)
        moreover have "buf_flow (Buf_Await a h) s [] ?s"
          using w None Buf_Recv by (simp add: buf_flow_def fed_by_def got_by_def sent_by_def finishes_def)
        ultimately show ?thesis using w None Buf_Recv False sz by (simp add: buf_await_def buf_op_def buf_good_def)
      qed
    qed
  qed
qed

lemma process_inbound_ok:
  assumes inv: "buf_inv s"
  shows "\<exists>cb s'. process_inbound data s = Inr (cb, s') \<and> buf_good (Buf_Feed data) s [] s' \<and> bs_Outbound s' = bs_Outbound s"
proof -
  from buf_push_ok [OF buf_invD(1) [OF inv], of data] obtain b where
    b: "buf_push data (bs_Inbound s) = Inr b" "chunks_ok b" "chunk_bytes b = chunk_bytes (bs_Inbound s) @ data" by blast
  have waits: "buf_good (Buf_Feed data) s [] (s\<lparr>bs_Inbound := b\<rparr>)"
    if "\<And>a w. bs_Pending s = Some a \<Longrightarrow> bs_Ops s a = Some w \<Longrightarrow> length (chunk_bytes b) < length (ba_Data w)"
  proof -
    have "buf_inv (s\<lparr>bs_Inbound := b, bs_Outbound := bs_Outbound s\<rparr>)"
      by (rule buf_inv_buffers [OF inv b(2) buf_invD(2,3) [OF inv] that])
    moreover have "s\<lparr>bs_Inbound := b, bs_Outbound := bs_Outbound s\<rparr> = s\<lparr>bs_Inbound := b\<rparr>" by (rule buf_sock.equality) simp_all
    moreover have "buf_flow (Buf_Feed data) s [] (s\<lparr>bs_Inbound := b\<rparr>)"
      using b(3) by (auto simp: buf_flow_def fed_by_def sent_by_def got_by_def finishes_def split: option.splits)
    ultimately show ?thesis by (simp add: buf_good_def buf_kept_refl)
  qed
  show ?thesis
  proof (cases "bs_Pending s")
    case None
    then show ?thesis using waits b(1) by (simp add: process_inbound_def)
  next
    case (Some a)
    then obtain w where w: "bs_Ops s a = Some w" "ba_Type w = Buf_Recv" "ba_Ec w = None" "ba_Handle w \<noteq> None"
      using buf_invD(4) [OF inv Some] by blast
    have sz: "buf_size b = Inr (length (chunk_bytes b))" by (rule buf_size_ok [OF b(2)])
    show ?thesis
    proof (cases "length (ba_Data w) \<le> length (chunk_bytes b)")
      case True
      have "chunk_bytes b = chunk_bytes (bs_Inbound s) @ fed_by (Buf_Feed data)" using b(3) by (simp add: fed_by_def)
      from receive_good [OF inv w(1,3,2) _ b(2) this True] Some obtain b' where
        b': "buf_pop (length (ba_Data w)) b = Inr (take (length (ba_Data w)) (chunk_bytes b), b')"
          "buf_good (Buf_Feed data) s [] (put_buf_op a (w\<lparr>ba_Data := take (length (ba_Data w)) (chunk_bytes b), ba_Ec := Some no_error\<rparr>)
              (s\<lparr>bs_Inbound := b', bs_Pending := None\<rparr>))" by auto
      then show ?thesis using w b(1) Some True sz by (simp add: process_inbound_def buf_op_def)
    next
      case False
      then have "buf_good (Buf_Feed data) s [] (s\<lparr>bs_Inbound := b\<rparr>)" by (intro waits) (use w Some in auto)
      then show ?thesis using False w b(1) Some sz by (simp add: process_inbound_def buf_op_def)
    qed
  qed
qed

lemma get_outbound_ok:
  assumes inv: "buf_inv s"
  shows "get_outbound s = Inr (if chunk_bytes (bs_Outbound s) = [] \<and> is_error (bs_Ec s) then None else Some (chunk_bytes (bs_Outbound s)),
       s\<lparr>bs_Outbound := no_chunks\<rparr>)"
    and "buf_inv (s\<lparr>bs_Outbound := no_chunks\<rparr>)"
proof -
  show "get_outbound s = Inr (if chunk_bytes (bs_Outbound s) = [] \<and> is_error (bs_Ec s) then None else Some (chunk_bytes (bs_Outbound s)),
       s\<lparr>bs_Outbound := no_chunks\<rparr>)"
    using buf_pop_all_ok [OF buf_invD(2,3) [OF inv]] by (simp add: get_outbound_def)
  have f: "ck_Front no_chunks = 0" by (simp add: no_chunks_def)
  have "buf_inv (s\<lparr>bs_Inbound := bs_Inbound s, bs_Outbound := no_chunks\<rparr>)"
    by (rule buf_inv_buffers [OF inv buf_invD(1) [OF inv] no_chunks_ok(1) f]) (use buf_invD(4) [OF inv] in fastforce)
  then show "buf_inv (s\<lparr>bs_Outbound := no_chunks\<rparr>)" by simp
qed

text \<open>The pending receive, if there is one, ends with an error.\<close>

lemma fail_pending:
  assumes inv: "buf_inv s" and p: "bs_Pending s = Some a" and e: "e \<noteq> no_error" and w: "bs_Ops s a = Some w"
  shows "buf_good Buf_Close s [] (put_buf_op a (w\<lparr>ba_Ec := Some e\<rparr>) (s\<lparr>bs_Ec := x, bs_Pending := None\<rparr>))"
proof -
  have w': "ba_Ec w = None" using buf_invD(4) [OF inv p] w by auto
  let ?w = "w\<lparr>ba_Ec := Some e\<rparr>"
  let ?s = "put_buf_op a ?w (s\<lparr>bs_Ec := x, bs_Pending := None\<rparr>)"
  have "buf_inv ?s" by (rule finish_inv [OF inv w w', of ?w e]) (use p in simp_all)
  moreover have "buf_kept s ?s" by (rule finish_kept [OF w w', of ?s ?w]) simp_all
  ultimately show ?thesis by (simp add: buf_good_def buf_flow_def fed_by_def sent_by_def got_by_def)
qed

lemma error_only:
  assumes inv: "buf_inv s" and p: "bs_Pending s = None"
  shows "buf_good Buf_Close s [] (s\<lparr>bs_Ec := x\<rparr>)"
proof -
  have "buf_inv (s\<lparr>bs_Ec := x\<rparr>)" using inv by (simp add: buf_inv_def)
  then show ?thesis by (simp add: buf_good_def buf_kept_refl buf_flow_def fed_by_def sent_by_def got_by_def)
qed

lemma buf_setError_ok:
  assumes inv: "buf_inv s" and e: "is_error e"
  shows "\<exists>cb s'. buf_setError e s = Inr (cb, s') \<and> buf_good Buf_Close s [] s' \<and> bs_Outbound s' = bs_Outbound s"
proof -
  have ne: "e \<noteq> no_error" using e by (auto simp: is_error_def no_error_def)
  have refl: "buf_good Buf_Close s [] s" using inv by (simp add: buf_good_def buf_kept_refl buf_flow_def fed_by_def sent_by_def got_by_def)
  show ?thesis
  proof (cases "bs_Pending s")
    case None
    then show ?thesis using e refl error_only [OF inv None] by (simp add: buf_setError_def)
  next
    case (Some a)
    then obtain w where w: "bs_Ops s a = Some w" "ba_Handle w \<noteq> None" using buf_invD(4) [OF inv Some] by blast
    show ?thesis using e refl w Some fail_pending [OF inv Some ne w(1)] by (simp add: buf_setError_def buf_op_def)
  qed
qed

lemma buf_close_ok:
  assumes inv: "buf_inv s"
  shows "\<exists>cb s'. buf_close s = Inr (cb, s') \<and> buf_good Buf_Close s [] s' \<and> is_error (bs_Ec s') \<and> bs_Pending s' = None"
proof -
  have ex: "is_error (bs_Ec s) \<Longrightarrow> s = s\<lparr>bs_Ec := bs_Ec s\<rparr>" by simp
  have cl: "is_error (make_error_code Closed)" by (simp add: is_error_def make_error_code_def)
  define x where "x = (if is_error (bs_Ec s) then bs_Ec s else make_error_code Closed)"
  have x: "is_error x" "(if is_error (bs_Ec s) then s else s\<lparr>bs_Ec := make_error_code Closed\<rparr>) = s\<lparr>bs_Ec := x\<rparr>"
    using cl by (auto simp: x_def)
  show ?thesis
  proof (cases "bs_Pending s")
    case None
    then show ?thesis using error_only [OF inv None, of x] x by (simp add: buf_close_def)
  next
    case (Some a)
    then obtain w where w: "bs_Ops s a = Some w" "ba_Handle w \<noteq> None" "ba_Ec w = None" using buf_invD(4) [OF inv Some] by blast
    show ?thesis using w Some x fail_pending [OF inv Some aborted_code(1) w(1), of x]
      by (simp add: buf_close_def buf_op_def)
  qed
qed

lemma buf_good_act:
  assumes "buf_good act s out s'" and "fed_by act' = fed_by act" "sent_by act' s = sent_by act s" "got_by act' s s' = got_by act s s'"
  shows "buf_good act' s out s'"
  using assms by (simp add: buf_good_def buf_flow_def)

lemma buf_step_ok:
  assumes inv: "buf_inv s" and en: "buf_enabled act s"
  shows "\<exists>out s'. buf_step act s = Inr (out, s') \<and> buf_good act s out s'"
proof (cases act)
  case (Buf_New a ty data stopped)
  then have "bs_Ops s a = None" "data \<noteq> []" using en by (simp_all add: buf_enabled_def)
  from buf_new_ok [OF inv this, of ty stopped] show ?thesis
    using Buf_New by (cases ty) (auto simp: buf_step_def buf_send_def buf_recv_def)
next
  case (Buf_Await a h)
  then show ?thesis using buf_await_ok [OF inv, of a h] en by (auto simp: buf_step_def)
next
  case (Buf_Stop a)
  then obtain w where "bs_Ops s a = Some w" using en by (auto simp: buf_enabled_def)
  then show ?thesis using buf_stop_ok [OF inv, of a w] Buf_Stop by (auto simp: buf_step_def)
next
  case (Buf_Feed data)
  then show ?thesis using process_inbound_ok [OF inv, of data] by (auto simp: buf_step_def)
next
  case Buf_Take
  let ?s = "s\<lparr>bs_Outbound := no_chunks\<rparr>"
  have "buf_good act s (chunk_bytes (bs_Outbound s)) ?s"
    using get_outbound_ok(2) [OF inv] Buf_Take
    by (simp add: buf_good_def buf_kept_refl buf_flow_def fed_by_def sent_by_def got_by_def)
  then show ?thesis using get_outbound_ok(1) [OF inv] Buf_Take by (auto simp: buf_step_def)
next
  case (Buf_Fail e)
  then have "is_error e" using en by (simp add: buf_enabled_def)
  from buf_setError_ok [OF inv this] obtain cb s' where "buf_setError e s = Inr (cb, s')" "buf_good Buf_Close s [] s'" by blast
  moreover from this(2) have "buf_good act s [] s'"
    by (rule buf_good_act) (simp_all add: Buf_Fail fed_by_def sent_by_def got_by_def)
  ultimately show ?thesis using Buf_Fail by (simp add: buf_step_def)
next
  case Buf_Close
  then show ?thesis using buf_close_ok [OF inv] by (auto simp: buf_step_def)
qed

section \<open>Runs\<close>

text \<open>
  A run with the bytes fed in, the receives completed, the bytes sent and the bytes taken out so far.
\<close>

inductive buf_reach :: "buf_sock \<Rightarrow> u8 list \<Rightarrow> nat list \<Rightarrow> u8 list \<Rightarrow> u8 list \<Rightarrow> bool" where
  buf_start: "buf_reach buf_new [] [] [] []"
| buf_act: "buf_reach s fed got sent taken \<Longrightarrow> buf_enabled act s \<Longrightarrow> buf_step act s = Inr (out, s')
    \<Longrightarrow> buf_reach s' (fed @ fed_by act) (got @ got_by act s s') (sent @ sent_by act s) (taken @ out)"

definition all_done :: "buf_sock \<Rightarrow> nat list \<Rightarrow> bool" where
  "all_done s got \<longleftrightarrow> (\<forall>a \<in> set got. \<exists>w. bs_Ops s a = Some w \<and> ba_Ec w \<noteq> None)"

lemma all_done_kept:
  assumes k: "buf_kept s s'" and d: "all_done s got"
  shows "all_done s' got" and "map (buf_data s') got = map (buf_data s) got"
proof -
  have same: "bs_Ops s' a = bs_Ops s a \<and> (\<exists>w. bs_Ops s a = Some w \<and> ba_Ec w \<noteq> None)" if mem: "a \<in> set got" for a
  proof -
    obtain w where w: "bs_Ops s a = Some w" "ba_Ec w \<noteq> None" using d mem by (auto simp: all_done_def)
    then have "bs_Ops s' a = Some w" using k by (auto simp: buf_kept_def)
    then show ?thesis using w by simp
  qed
  show "all_done s' got" using same by (simp add: all_done_def)
  show "map (buf_data s') got = map (buf_data s) got" using same by (simp add: buf_data_def)
qed

lemma got_by_done: "all_done s' (got_by act s s')"
proof -
  have "finishes s s' a \<Longrightarrow> \<exists>w. bs_Ops s' a = Some w \<and> ba_Ec w \<noteq> None" for a
    by (auto simp: finishes_def split: option.splits)
  then show ?thesis by (auto simp: all_done_def got_by_def split: buf_act.splits option.splits)
qed

lemma buf_reach_inv:
  "buf_reach s fed got sent taken \<Longrightarrow> buf_inv s \<and> all_done s got
     \<and> fed = concat (map (buf_data s) got) @ chunk_bytes (bs_Inbound s) \<and> sent = taken @ chunk_bytes (bs_Outbound s)"
proof (induction rule: buf_reach.induct)
  case buf_start
  show ?case using buf_new_inv by (simp add: all_done_def buf_new_def)
next
  case (buf_act s fed got sent taken act out s')
  from buf_step_ok [OF _ buf_act.hyps(2)] buf_act.IH buf_act.hyps(3) have g: "buf_good act s out s'" by fastforce
  then have k: "buf_kept s s'" and f: "buf_flow act s out s'" and i: "buf_inv s'" by (simp_all add: buf_good_def)
  note d = all_done_kept [OF k, of got]
  have "all_done s' (got @ got_by act s s')" using d(1) buf_act.IH got_by_done by (auto simp: all_done_def)
  moreover have "concat (map (buf_data s') got) = concat (map (buf_data s) got)"
    using d(2) buf_act.IH by (intro arg_cong [where f = concat]) blast
  ultimately show ?case using buf_act.IH f i by (simp add: buf_flow_def)
qed

section \<open>Termination of the exchange\<close>

definition outbox :: "'u party \<Rightarrow> bool \<Rightarrow> u8 list" where
  "outbox p i = concat (ck_Data (bs_Outbound (snd p i)))"

definition parties_ok :: "'u party \<Rightarrow> bool" where
  "parties_ok p \<longleftrightarrow> (\<forall>i. buf_inv (snd p i))"

text \<open>What a coroutine may do: it keeps the sockets in order and comes closer to its end.\<close>

definition resumes_ok :: "('u \<Rightarrow> nat) \<Rightarrow> (bool \<Rightarrow> nat \<Rightarrow> 'u party \<Rightarrow> fault + 'u party) \<Rightarrow> bool" where
  "resumes_ok work resume \<longleftrightarrow> (\<forall>i h p p'. parties_ok p \<longrightarrow> resume i h p = Inr p' \<longrightarrow> parties_ok p' \<and> work (fst p') < work (fst p))"

definition coroutine_fault :: "(bool \<Rightarrow> nat \<Rightarrow> 'u party \<Rightarrow> fault + 'u party) \<Rightarrow> fault \<Rightarrow> bool" where
  "coroutine_fault resume e \<longleftrightarrow> (\<exists>i h q. resume i h q = Inl e)"

lemma outbox_ok: "buf_inv (snd p i) \<Longrightarrow> outbox p i = chunk_bytes (bs_Outbound (snd p i))"
  using buf_invD(3) by (simp add: outbox_def chunk_bytes_def)

lemma resume_cb_ok:
  assumes R: "resumes_ok work resume" and ok: "parties_ok p"
  shows "(\<exists>e. resume_cb resume i cb p = Inl e \<and> coroutine_fault resume e)
    \<or> (\<exists>p'. resume_cb resume i cb p = Inr p' \<and> parties_ok p' \<and> (p' = p \<or> work (fst p') < work (fst p)))"
proof (cases cb)
  case None
  then show ?thesis using ok by (simp add: resume_cb_def)
next
  case (Some h)
  show ?thesis
  proof (cases "resume i h p")
    case (Inr p')
    then have "parties_ok p' \<and> work (fst p') < work (fst p)" using R ok unfolding resumes_ok_def by blast
    then show ?thesis using Inr Some by (simp add: resume_cb_def)
  next
    case (Inl e)
    then have "coroutine_fault resume e" unfolding coroutine_fault_def by blast
    then show ?thesis using Inl Some by (simp add: resume_cb_def)
  qed
qed

lemma exchange_turn_ok:
  assumes R: "resumes_ok work resume" and ok: "parties_ok p"
  shows "(\<exists>e. exchange_turn resume i p = Inl e \<and> coroutine_fault resume e)
    \<or> (\<exists>b p'. exchange_turn resume i p = Inr (b, p') \<and> parties_ok p' \<and> (work (fst p') < work (fst p)
         \<or> fst p' = fst p \<and> outbox p' i = [] \<and> outbox p' (\<not> i) = outbox p (\<not> i) \<and> (b \<longleftrightarrow> outbox p i \<noteq> [])))"
proof -
  have inv: "buf_inv (snd p j)" for j using ok by (simp add: parties_ok_def)
  define si where "si = (snd p i)\<lparr>bs_Outbound := no_chunks\<rparr>"
  define S where "S = (snd p)(i := si)"
  have si: "buf_inv si" "concat (ck_Data (bs_Outbound si)) = []" using get_outbound_ok(2) [OF inv] by (simp_all add: si_def no_chunks_def)
  have b: "get_outbound (snd p i) = Inr (if outbox p i = [] \<and> is_error (bs_Ec (snd p i)) then None else Some (outbox p i), si)"
    using get_outbound_ok(1) [OF inv] outbox_ok [OF inv] by (simp add: si_def)
  have Sj: "S (\<not> i) = snd p (\<not> i)" by (simp add: S_def)
  have fin: ?thesis
    if run: "exchange_turn resume i p = bindR (resume_cb resume (\<not> i) cb (fst p, S((\<not> i) := sj))) (\<lambda>p. Inr (pr, p))"
      and sj: "buf_inv sj" "bs_Outbound sj = bs_Outbound (snd p (\<not> i))" and pr: "pr \<longleftrightarrow> outbox p i \<noteq> []" for cb sj pr
  proof -
    let ?q = "(fst p, S((\<not> i) := sj))"
    have q: "parties_ok ?q" using sj si inv by (auto simp: parties_ok_def S_def)
    have o: "outbox ?q i = []" "outbox ?q (\<not> i) = outbox p (\<not> i)" using si(2) sj(2) by (simp_all add: outbox_def S_def)
    from resume_cb_ok [OF R q, of "\<not> i" cb] show ?thesis
    proof (elim disjE exE conjE)
      fix e assume "resume_cb resume (\<not> i) cb ?q = Inl e" "coroutine_fault resume e"
      then show ?thesis unfolding run by auto
    next
      fix p' assume "resume_cb resume (\<not> i) cb ?q = Inr p'" "parties_ok p'" "p' = ?q"
      then show ?thesis unfolding run using o pr by auto
    next
      fix p' assume "resume_cb resume (\<not> i) cb ?q = Inr p'" "parties_ok p'" "work (fst p') < work (fst ?q)"
      then show ?thesis unfolding run by auto
    qed
  qed
  consider "outbox p i = []" "is_error (bs_Ec (snd p i))" | "outbox p i = []" "\<not> is_error (bs_Ec (snd p i))" | "outbox p i \<noteq> []" by blast
  then show ?thesis
  proof cases
    case 1
    have "is_error (make_error_code RemoteClosed)" by (simp add: is_error_def make_error_code_def)
    from buf_setError_ok [OF inv [of "\<not> i"] this] obtain cb sj where
      "buf_setError (make_error_code RemoteClosed) (snd p (\<not> i)) = Inr (cb, sj)" "buf_inv sj" "bs_Outbound sj = bs_Outbound (snd p (\<not> i))"
      by (auto simp: buf_good_def)
    then show ?thesis using 1 by (intro fin [of cb sj False]) (simp_all add: exchange_turn_def b Sj flip: S_def)
  next
    case 2
    have "parties_ok (fst p, S)" "outbox (fst p, S) i = []" "outbox (fst p, S) (\<not> i) = outbox p (\<not> i)"
      using si inv by (auto simp: parties_ok_def outbox_def S_def)
    then show ?thesis using 2
      by (intro disjI2 exI [of _ False] exI [of _ "(fst p, S)"]) (simp add: exchange_turn_def b flip: S_def)
  next
    case 3
    from process_inbound_ok [OF inv [of "\<not> i"], of "outbox p i"] obtain cb sj where
      "process_inbound (outbox p i) (snd p (\<not> i)) = Inr (cb, sj)" "buf_inv sj" "bs_Outbound sj = bs_Outbound (snd p (\<not> i))"
      by (auto simp: buf_good_def)
    then show ?thesis using 3 by (intro fin [of cb sj True]) (simp_all add: exchange_turn_def b Sj flip: S_def)
  qed
qed

lemma exchange_round_ok:
  assumes R: "resumes_ok work resume" and ok: "parties_ok p"
  shows "(\<exists>e. exchange_round resume p = Inl e \<and> coroutine_fault resume e)
    \<or> (\<exists>b p'. exchange_round resume p = Inr (b, p') \<and> parties_ok p' \<and> (work (fst p') < work (fst p)
         \<or> fst p' = fst p \<and> (\<forall>i. outbox p' i = []) \<and> (b \<longleftrightarrow> (\<exists>i. outbox p i \<noteq> []))))"
proof -
  from exchange_turn_ok [OF R ok, of False] show ?thesis
  proof (elim disjE exE conjE)
    fix e assume "exchange_turn resume False p = Inl e" "coroutine_fault resume e"
    then show ?thesis by (auto simp: exchange_round_def)
  next
    fix b0 p1 assume 1: "exchange_turn resume False p = Inr (b0, p1)" "parties_ok p1" "work (fst p1) < work (fst p)"
    from exchange_turn_ok [OF R 1(2), of True] show ?thesis
      using 1 by (elim disjE exE conjE) (auto simp: exchange_round_def)
  next
    fix b0 p1 assume 1: "exchange_turn resume False p = Inr (b0, p1)" "parties_ok p1" "fst p1 = fst p"
      "outbox p1 False = []" "outbox p1 (\<not> False) = outbox p (\<not> False)" "b0 \<longleftrightarrow> outbox p False \<noteq> []"
    from exchange_turn_ok [OF R 1(2), of True] show ?thesis
    proof (elim disjE exE conjE)
      fix e assume "exchange_turn resume True p1 = Inl e" "coroutine_fault resume e"
      then show ?thesis using 1 by (auto simp: exchange_round_def)
    next
      fix b1 p2 assume "exchange_turn resume True p1 = Inr (b1, p2)" "parties_ok p2" "work (fst p2) < work (fst p1)"
      then show ?thesis using 1 by (auto simp: exchange_round_def)
    next
      fix b1 p2 assume 2: "exchange_turn resume True p1 = Inr (b1, p2)" "parties_ok p2" "fst p2 = fst p1"
        "outbox p2 True = []" "outbox p2 (\<not> True) = outbox p1 (\<not> True)" "b1 \<longleftrightarrow> outbox p1 True \<noteq> []"
      have "outbox p2 i = []" for i using 1 2 by (cases i) simp_all
      moreover have "(\<exists>i. outbox p i \<noteq> []) \<longleftrightarrow> b0 \<or> b1" using 1 2 by (metis (full_types))
      ultimately show ?thesis using 1 2
        by (intro disjI2 exI [of _ "b0 \<or> b1"] exI [of _ p2]) (simp add: exchange_round_def)
    qed
  qed
qed

text \<open>How many rounds are needed at most.\<close>

definition rounds :: "('u \<Rightarrow> nat) \<Rightarrow> 'u party \<Rightarrow> nat" where
  "rounds work p = 2 * work (fst p) + (if \<exists>i. outbox p i \<noteq> [] then 2 else 1)"

lemma exchange_ends:
  assumes R: "resumes_ok work resume"
  shows "parties_ok p \<Longrightarrow> rounds work p \<le> n \<Longrightarrow>
    (\<exists>p'. exchangeMessages n resume p = Some (Inr p') \<and> parties_ok p')
    \<or> (\<exists>e. exchangeMessages n resume p = Some (Inl e) \<and> coroutine_fault resume e)"
proof (induction n arbitrary: p)
  case 0
  then show ?case by (simp add: rounds_def split: if_splits)
next
  case (Suc n)
  from exchange_round_ok [OF R Suc.prems(1)] show ?case
  proof (elim disjE exE conjE)
    fix e assume "exchange_round resume p = Inl e" "coroutine_fault resume e"
    then show ?thesis by auto
  next
    fix b p' assume 1: "exchange_round resume p = Inr (b, p')" "parties_ok p'" "work (fst p') < work (fst p)"
    then have "rounds work p' \<le> n" using Suc.prems(2) by (auto simp: rounds_def split: if_splits)
    then show ?thesis using 1 Suc.IH [of p'] by (cases b) auto
  next
    fix b p' assume 1: "exchange_round resume p = Inr (b, p')" "parties_ok p'" "fst p' = fst p"
      "\<forall>i. outbox p' i = []" "b \<longleftrightarrow> (\<exists>i. outbox p i \<noteq> [])"
    show ?thesis
    proof (cases b)
      case True
      then have "rounds work p' \<le> n" using 1 Suc.prems(2) by (auto simp: rounds_def split: if_splits)
      then show ?thesis using 1 True Suc.IH [of p'] by auto
    qed (use 1 in auto)
  qed
qed

section \<open>Properties\<close>

text \<open>
  C30. Whatever the order of sends, receives, stops, errors and closes, the completed receives hold
  exactly the bytes that were fed in, in order and up to what is still buffered, and the owner takes
  out exactly the bytes that were sent; no operation fails an assertion.
\<close>

theorem buffering_socket_is_a_pipe:
  assumes "buf_reach s fed got sent taken"
  shows "fed = concat (map (buf_data s) got) @ chunk_bytes (bs_Inbound s) \<and> sent = taken @ chunk_bytes (bs_Outbound s)
     \<and> (buf_enabled act s \<longrightarrow> (\<exists>out s'. buf_step act s = Inr (out, s')))"
  using buf_reach_inv [OF assms] buf_step_ok [of s act] by blast

definition demo_buf1 :: buf_sock where
  "demo_buf1 = \<lparr>bs_Ec = no_error, bs_Pending = None, bs_Outbound = no_chunks,
     bs_Inbound = \<lparr>ck_Front = 0, ck_Size = 3, ck_Data = [[1, 2, 3]]\<rparr>, bs_Ops = (\<lambda>_. None)\<rparr>"

lemma demo_buf1: "buf_step (Buf_Feed [1, 2, 3]) buf_new = Inr ([], demo_buf1)"
  by (simp add: buf_step_def process_inbound_def buf_push_def buf_size_def buf_new_def no_chunks_def demo_buf1_def Let_def)

theorem buffering_socket_is_a_pipe_witness:
  "[1, 2, 3] = chunk_bytes (bs_Inbound demo_buf1) \<and> (\<exists>out s'. buf_step (Buf_New 5 Buf_Recv [0, 0] False) demo_buf1 = Inr (out, s'))"
proof -
  have "buf_enabled (Buf_Feed [1, 2, 3]) buf_new" by (simp add: buf_enabled_def)
  from buf_act [OF buf_start this demo_buf1] have r: "buf_reach demo_buf1 [1, 2, 3] [] [] []"
    by (simp add: fed_by_def got_by_def sent_by_def buf_new_def)
  show ?thesis using buffering_socket_is_a_pipe [OF r, of "Buf_New 5 Buf_Recv [0, 0] False"]
    by (simp add: buf_enabled_def demo_buf1_def)
qed

text \<open>
  C31. The chunked buffer is equivalent to a plain list of bytes: any sequence of pushes and pops that
  never asks for more than is stored returns the bytes in order, whatever the sizes of the pieces, and a
  sequence that asks for more fails an assertion.
\<close>

theorem chunks_are_bytes:
  assumes "chunks_ok b"
  shows "(if enough (length (chunk_bytes b)) ops
     then \<exists>b' out. run_bytes buf_push buf_pop ops b = Inr (b', out) \<and> map length out = got_sizes ops
       \<and> chunk_bytes b @ put_bytes ops = concat out @ chunk_bytes b'
     else run_bytes buf_push buf_pop ops b = Inl Assertion)"
  using chunks.run_bytes_ok [OF assms, of ops] chunks.run_bytes_short [OF assms, of ops] by auto

theorem chunks_are_bytes_witness:
  "\<exists>b' out. run_bytes buf_push buf_pop [Put [1, 2, 3], Get 2, Put [4], Get 2] no_chunks = Inr (b', out)
     \<and> map length out = [2, 2] \<and> [1, 2, 3, 4] = concat out @ chunk_bytes b'"
  using chunks_are_bytes [OF no_chunks_ok(1), of "[Put [1, 2, 3], Get 2, Put [4], Get 2]"] by (simp only: no_chunks_ok) simp

text \<open>
  C32. The exchange of two sockets ends when the coroutines do: if every resumption brings them closer
  to their end, twice the remaining work plus two rounds are enough, and the loop itself never fails.
\<close>

theorem exchange_terminates:
  assumes "resumes_ok work resume" and "parties_ok p" and "2 * work (fst p) + 2 \<le> n"
  shows "(\<exists>p'. exchangeMessages n resume p = Some (Inr p') \<and> parties_ok p')
    \<or> (\<exists>e. exchangeMessages n resume p = Some (Inl e) \<and> coroutine_fault resume e)"
proof -
  have "rounds work p \<le> n" using assms(3) by (simp add: rounds_def)
  then show ?thesis by (rule exchange_ends [OF assms(1,2)])
qed

text \<open>Coroutines that are resumed a bounded number of times and do nothing else.\<close>

definition idle_resume :: "bool \<Rightarrow> nat \<Rightarrow> nat party \<Rightarrow> fault + nat party" where
  "idle_resume i h p = (if fst p = 0 then Inl Terminated else Inr (fst p - 1, snd p))"

theorem exchange_terminates_witness:
  "\<exists>r. exchangeMessages 8 idle_resume (3, \<lambda>_. demo_buf1) = Some r"
proof -
  have "buf_inv demo_buf1" by (simp add: buf_inv_def demo_buf1_def chunks_ok_def) (simp add: no_chunks_def)
  then have "parties_ok (3, \<lambda>_. demo_buf1)" by (simp add: parties_ok_def)
  moreover have "resumes_ok id idle_resume" by (auto simp: resumes_ok_def idle_resume_def parties_ok_def split: if_splits)
  ultimately show ?thesis using exchange_terminates [of id idle_resume "(3, \<lambda>_. demo_buf1)" 8] by auto
qed

text \<open>
  C33. A receive that is started after the socket was closed, or after an error was set, is not refused:
  with too few bytes buffered it waits, and no later error releases it.
\<close>

theorem recv_after_close_waits:
  fixes h :: nat
  assumes "buf_inv s" and "is_error (bs_Ec s)" and "bs_Pending s = None" and "bs_Ops s a = Some w" and "ba_Type w = Buf_Recv"
    and "ba_Ec w = None" and "length (chunk_bytes (bs_Inbound s)) < length (ba_Data w)" and "is_error e"
  shows "\<exists>s'. buf_await a h s = Inr (None, s') \<and> bs_Pending s' = Some a \<and> buf_setError e s' = Inr (None, s')"
  using assms buf_size_ok [OF buf_invD(1) [OF assms(1)]] by (simp add: buf_await_def buf_op_def buf_setError_def)

theorem recv_after_close_waits_witness:
  "\<exists>s'. buf_await 0 9 ((put_buf_op 0 \<lparr>ba_Data = [0], ba_Type = Buf_Recv, ba_Ec = None, ba_Handle = None\<rparr> buf_new)
      \<lparr>bs_Ec := make_error_code Closed\<rparr>) = Inr (None, s') \<and> bs_Pending s' = Some 0"
proof -
  let ?s = "(put_buf_op 0 \<lparr>ba_Data = [0], ba_Type = Buf_Recv, ba_Ec = None, ba_Handle = None\<rparr> buf_new)\<lparr>bs_Ec := make_error_code Closed\<rparr>"
  have e: "is_error (make_error_code Closed)" by (simp add: is_error_def make_error_code_def)
  have "buf_inv ?s" by (simp add: buf_inv_def buf_new_def) (simp add: no_chunks_def)
  from recv_after_close_waits [OF this, of 0 _ "make_error_code Closed" 9] show ?thesis using e by (fastforce simp: buf_new_def)
qed

end
