(* ===== verification/Cmd_Line.thy ===== *)
theory Cmd_Line
  imports Prelude "HOL-Library.Sublist"
begin

text \<open>
  The command line parser, \<^verbatim>\<open>coproto/Common/CLP.h\<close> and \<^verbatim>\<open>CLP.cpp\<close>: splitting the
  arguments into keys and values, defaults, queries, and the conversion of values, with the integer
  ranges of the form \<^verbatim>\<open>a..b\<close>. Strings are those of C, without a terminating zero. The extraction
  of a value of a general type from a stream is an argument; that of signed integers is defined here
  after the stream library.
\<close>

section \<open>Errors and state\<close>

datatype cl_error = Parse_Error | No_Tags | No_Values string | Key_Not_Set | Signed_Overflow | Empty_Keys

record clp =
  mProgramName :: string
  mFullStr :: string
  mKeyValues :: "string \<Rightarrow> string list option"

definition clp_empty :: clp where
  "clp_empty = \<lparr>mProgramName = [], mFullStr = [], mKeyValues = (\<lambda>_. None)\<rparr>"

section \<open>Parsing\<close>

definition is_digit_char :: "char \<Rightarrow> bool" where
  "is_digit_char c \<longleftrightarrow> 48 \<le> (of_char c :: nat) \<and> (of_char c :: nat) \<le> 57"

text \<open>A term is a value unless it starts with a dash that no digit follows.\<close>

definition is_value :: "string \<Rightarrow> bool" where
  "is_value s = (case s of [] \<Rightarrow> True
     | c # cs \<Rightarrow> c \<noteq> CHR ''-'' \<or> (case cs of [] \<Rightarrow> False | d # _ \<Rightarrow> is_digit_char d))"

text \<open>\<^verbatim>\<open>emplace\<close> leaves an existing entry alone.\<close>

definition emplace_key :: "string \<Rightarrow> string list \<Rightarrow> clp \<Rightarrow> clp" where
  "emplace_key k vs s = (if mKeyValues s k = None then s\<lparr>mKeyValues := (mKeyValues s)(k \<mapsto> vs)\<rparr> else s)"

text \<open>The result is the exception, if one is thrown, and the parser as it is left.\<close>

function parse_args :: "string list \<Rightarrow> clp \<Rightarrow> cl_error option \<times> clp" where
  "parse_args [] s = (None, s)"
| "parse_args (a # args) s = (let s = s\<lparr>mFullStr := mFullStr s @ a @ '' ''\<rparr> in
     if a = [] \<or> hd a \<noteq> CHR ''-'' then (Some Parse_Error, s)
     else parse_args (dropWhile is_value args) (emplace_key (tl a) (takeWhile is_value args) s))"
  by pat_completeness auto

termination
  by (relation "measure (\<lambda>(args, _). length args)") (auto simp: le_imp_less_Suc length_dropWhile_le)

definition parse :: "string list \<Rightarrow> clp \<Rightarrow> cl_error option \<times> clp" where
  "parse argv s = (case argv of [] \<Rightarrow> (None, s) | p # args \<Rightarrow> parse_args args (s\<lparr>mProgramName := p\<rparr>))"

section \<open>Splitting a string\<close>

fun find_sub :: "string \<Rightarrow> string \<Rightarrow> nat option" where
  "find_sub d [] = (if d = [] then Some 0 else None)"
| "find_sub d (c # cs) = (if prefix d (c # cs) then Some 0 else map_option Suc (find_sub d cs))"

text \<open>The loop does not return for an empty delimiter; then the value is \<open>None\<close>.\<close>

partial_function (option) split_str :: "string \<Rightarrow> string \<Rightarrow> string list option" where
  "split_str s d = (case find_sub d s of None \<Rightarrow> Some [s]
     | Some pos \<Rightarrow> Option.bind (split_str (drop (pos + length d) s) d) (\<lambda>parts. Some (take pos s # parts)))"

section \<open>Queries and defaults\<close>

definition isSet :: "string \<Rightarrow> clp \<Rightarrow> bool" where
  "isSet k s \<longleftrightarrow> mKeyValues s k \<noteq> None"

fun isSet_any :: "string list \<Rightarrow> clp \<Rightarrow> bool" where
  "isSet_any [] s = False"
| "isSet_any (k # ks) s = (if isSet k s then True else isSet_any ks s)"

definition hasValue :: "string \<Rightarrow> clp \<Rightarrow> bool" where
  "hasValue k s = (case mKeyValues s k of None \<Rightarrow> False | Some vs \<Rightarrow> vs \<noteq> [])"

fun hasValue_any :: "string list \<Rightarrow> clp \<Rightarrow> bool" where
  "hasValue_any [] s = False"
| "hasValue_any (k # ks) s = (if hasValue k s then True else hasValue_any ks s)"

definition set_flag :: "string \<Rightarrow> clp \<Rightarrow> clp" where
  "set_flag k s = emplace_key k [] s"

definition setDefault :: "string \<Rightarrow> string \<Rightarrow> clp \<Rightarrow> clp option" where
  "setDefault k v s = (if hasValue k s then Some s
     else case mKeyValues s k of
       Some vs \<Rightarrow> Some (s\<lparr>mKeyValues := (mKeyValues s)(k \<mapsto> vs @ [v])\<rparr>)
     | None \<Rightarrow> (case split_str v '' '' of None \<Rightarrow> None | Some parts \<Rightarrow> Some (emplace_key k parts s)))"

definition setDefault_any :: "string list \<Rightarrow> string \<Rightarrow> clp \<Rightarrow> cl_error + clp option" where
  "setDefault_any ks v s = (if hasValue_any ks s then Inr (Some s)
     else case ks of [] \<Rightarrow> Inl Empty_Keys | k # _ \<Rightarrow> Inr (setDefault k v s))"

text \<open>\<^verbatim>\<open>std::to_string\<close> on 64-bit integers.\<close>

fun dec_nat :: "nat \<Rightarrow> string" where
  "dec_nat n = (if n < 10 then [char_of (48 + n)] else dec_nat (n div 10) @ [char_of (48 + n mod 10)])"

declare dec_nat.simps [simp del]

definition int_string :: "int \<Rightarrow> string" where
  "int_string i = (if i < 0 then CHR ''-'' # dec_nat (nat (- i)) else dec_nat (nat i))"

definition setDefault_int :: "string \<Rightarrow> int \<Rightarrow> clp \<Rightarrow> clp option" where
  "setDefault_int k i s = setDefault k (int_string i) s"

definition setDefault_any_int :: "string list \<Rightarrow> int \<Rightarrow> clp \<Rightarrow> cl_error + clp option" where
  "setDefault_any_int ks i s = setDefault_any ks (int_string i) s"

fun tag_list :: "string list \<Rightarrow> string" where
  "tag_list [] = []"
| "tag_list (k # ks) = '', '' @ k @ tag_list ks"

definition cl_error_of :: "string list \<Rightarrow> cl_error" where
  "cl_error_of ks = (case ks of [] \<Rightarrow> No_Tags | k # ks \<Rightarrow> No_Values (''{ '' @ k @ tag_list ks @ '' }''))"

fun getList :: "string list \<Rightarrow> clp \<Rightarrow> cl_error + string list" where
  "getList [] s = Inl Key_Not_Set"
| "getList (k # ks) s = (case mKeyValues s k of Some vs \<Rightarrow> Inr vs | None \<Rightarrow> getList ks s)"

text \<open>\<open>rd\<close> is the extraction of a value of type \<^verbatim>\<open>T\<close> from a stream over the string.\<close>

definition get_value :: "(string \<Rightarrow> 'a) \<Rightarrow> string \<Rightarrow> clp \<Rightarrow> cl_error + 'a" where
  "get_value rd k s = (case mKeyValues s k of Some (v # _) \<Rightarrow> Inr (rd v) | _ \<Rightarrow> Inl (cl_error_of [k]))"

definition getOr :: "(string \<Rightarrow> 'a) \<Rightarrow> string \<Rightarrow> 'a \<Rightarrow> clp \<Rightarrow> cl_error + 'a" where
  "getOr rd k alt s = (if hasValue k s then get_value rd k s else Inr alt)"

fun get_first :: "(string \<Rightarrow> 'a) \<Rightarrow> string list \<Rightarrow> clp \<Rightarrow> (cl_error + 'a) option" where
  "get_first rd [] s = None"
| "get_first rd (k # ks) s = (if hasValue k s then Some (get_value rd k s) else get_first rd ks s)"

definition get_any :: "(string \<Rightarrow> 'a) \<Rightarrow> string list \<Rightarrow> clp \<Rightarrow> cl_error + 'a" where
  "get_any rd ks s = (case get_first rd ks s of Some r \<Rightarrow> r | None \<Rightarrow> Inl (cl_error_of ks))"

definition getOr_any :: "(string \<Rightarrow> 'a) \<Rightarrow> string list \<Rightarrow> 'a \<Rightarrow> clp \<Rightarrow> cl_error + 'a" where
  "getOr_any rd ks alt s = (if hasValue_any ks s then get_any rd ks s else Inr alt)"

section \<open>Integer values\<close>

text \<open>
  Extraction from a stream that holds the string \<open>s\<close>; \<open>None\<close> is a stream that has failed. A variable
  keeps its old value when nothing but white space is left, and becomes zero when there is no number.
\<close>

definition is_ws :: "char \<Rightarrow> bool" where
  "is_ws c \<longleftrightarrow> (of_char c :: nat) = 32 \<or> (9 \<le> (of_char c :: nat) \<and> (of_char c :: nat) \<le> 13)"

definition dec_value :: "string \<Rightarrow> nat" where
  "dec_value ds = foldl (\<lambda>n c. 10 * n + (of_char c - 48)) 0 ds"

definition read_int :: "int \<Rightarrow> int \<Rightarrow> int \<Rightarrow> string option \<Rightarrow> int \<times> string option" where
  "read_int lo hi old st = (case st of None \<Rightarrow> (old, None) | Some s \<Rightarrow>
     let t = dropWhile is_ws s in
     if t = [] then (old, None)
     else let neg = (hd t = CHR ''-''); u = (if neg \<or> hd t = CHR ''+'' then tl t else t); ds = takeWhile is_digit_char u in
       if ds = [] then (0, None)
       else let v = (if neg then - int (dec_value ds) else int (dec_value ds)) in
         if v < lo then (lo, None) else if hi < v then (hi, None) else (v, Some (dropWhile is_digit_char u)))"

definition read_char :: "string option \<Rightarrow> char \<times> string option" where
  "read_char st = (case st of None \<Rightarrow> (CHR 0x00, None) | Some s \<Rightarrow>
     (case dropWhile is_ws s of [] \<Rightarrow> (CHR 0x00, None) | c # r \<Rightarrow> (c, Some r)))"

text \<open>The loop over a range; the type holds \<open>lo\<close> to \<open>hi\<close> and leaving it is undefined behaviour.\<close>

function range_loop :: "int \<Rightarrow> int \<Rightarrow> bool \<Rightarrow> int \<Rightarrow> int \<Rightarrow> cl_error + int list \<times> int" where
  "range_loop lo hi up e x = (if x < e
     then let x' = x + (if up then 1 else - 1) in
       if x' < lo \<or> hi < x' then Inl Signed_Overflow
       else bindR (range_loop lo hi up e x') (\<lambda>(xs, z). Inr (x # xs, z))
     else Inr ([], x))"
  by pat_completeness auto

termination
  by (relation "measure (\<lambda>(lo, hi, up, e, x). if up then nat (e - x) else nat (x - lo))") (auto split: if_splits)

declare range_loop.simps [simp del]

text \<open>\<open>x\<close> is shared by all values; \<open>u\<close> is what an uninitialised \<^verbatim>\<open>end\<close> holds.\<close>

fun many_loop :: "int \<Rightarrow> int \<Rightarrow> int \<Rightarrow> int \<Rightarrow> string list \<Rightarrow> cl_error + int list" where
  "many_loop lo hi u x [] = Inr []"
| "many_loop lo hi u x (v # vs) =
    (let (x, st) = read_int lo hi x (Some v); (d0, st) = read_char st; (d1, st) = read_char st in
     if d0 = CHR ''.'' \<and> d1 = CHR ''.'' then
       let (e, _) = read_int lo hi u st; up = (e > x); x' = x + (if up then 1 else - 1) in
       if x' < lo \<or> hi < x' then Inl Signed_Overflow
       else bindR (range_loop lo hi up e x') (\<lambda>(xs, z). bindR (many_loop lo hi u z vs) (\<lambda>rest. Inr (x # xs @ rest)))
     else bindR (many_loop lo hi u x vs) (\<lambda>rest. Inr (x # rest)))"

definition getManyOr_int :: "int \<Rightarrow> int \<Rightarrow> int \<Rightarrow> int \<Rightarrow> string \<Rightarrow> int list \<Rightarrow> clp \<Rightarrow> cl_error + int list" where
  "getManyOr_int lo hi x u k alt s = (case mKeyValues s k of Some vs \<Rightarrow> many_loop lo hi u x vs | None \<Rightarrow> Inr alt)"

definition getManyOr :: "(string \<Rightarrow> 'a) \<Rightarrow> string \<Rightarrow> 'a list \<Rightarrow> clp \<Rightarrow> 'a list" where
  "getManyOr rd k alt s = (case mKeyValues s k of Some vs \<Rightarrow> map rd vs | None \<Rightarrow> alt)"

definition getMany :: "(string \<Rightarrow> 'a) \<Rightarrow> string \<Rightarrow> clp \<Rightarrow> 'a list" where
  "getMany rd k s = getManyOr rd k [] s"

definition getMany_int :: "int \<Rightarrow> int \<Rightarrow> int \<Rightarrow> int \<Rightarrow> string \<Rightarrow> clp \<Rightarrow> cl_error + int list" where
  "getMany_int lo hi x u k s = getManyOr_int lo hi x u k [] s"

fun getMany_any :: "(string \<Rightarrow> 'a) \<Rightarrow> string list \<Rightarrow> clp \<Rightarrow> 'a list" where
  "getMany_any rd [] s = []"
| "getMany_any rd (k # ks) s = (if hasValue k s then getMany rd k s else getMany_any rd ks s)"

definition getMany_req :: "(string \<Rightarrow> 'a) \<Rightarrow> string list \<Rightarrow> clp \<Rightarrow> cl_error + 'a list" where
  "getMany_req rd ks s = (if hasValue_any ks s then Inr (getMany_any rd ks s) else Inl (cl_error_of ks))"

section \<open>Parsing is decided by the first term\<close>

definition is_flag :: "string \<Rightarrow> bool" where
  "is_flag s \<longleftrightarrow> s \<noteq> [] \<and> hd s = CHR ''-''"

lemma not_value_flag: "\<not> is_value s \<Longrightarrow> is_flag s"
  by (auto simp: is_value_def is_flag_def split: list.splits)

lemma parse_args_error: "fst (parse_args args s) = (if args = [] \<or> is_flag (hd args) then None else Some Parse_Error)"
proof (induction args s rule: parse_args.induct)
  case (2 a args s)
  show ?case
  proof (cases "is_flag a")
    case True
    have "dropWhile is_value args = [] \<or> is_flag (hd (dropWhile is_value args))"
      using hd_dropWhile not_value_flag by blast
    then show ?thesis using 2 True by (auto simp: is_flag_def Let_def)
  next
    case False
    then show ?thesis by (auto simp: is_flag_def Let_def)
  qed
qed simp

definition render_args :: "(string \<times> string list) list \<Rightarrow> string list" where
  "render_args kvs = concat (map (\<lambda>(k, vs). (''-'' @ k) # vs) kvs)"

definition args_ok :: "(string \<times> string list) list \<Rightarrow> bool" where
  "args_ok kvs \<longleftrightarrow> (\<forall>(k, vs) \<in> set kvs. \<not> is_value (''-'' @ k) \<and> list_all is_value vs)"

lemma render_args_start: "args_ok kvs \<Longrightarrow> render_args kvs = [] \<or> \<not> is_value (hd (render_args kvs))"
  by (cases kvs) (auto simp: args_ok_def render_args_def)

lemma take_drop_values:
  assumes "list_all is_value vs" and "rest = [] \<or> \<not> is_value (hd rest)"
  shows "takeWhile is_value (vs @ rest) = vs \<and> dropWhile is_value (vs @ rest) = rest"
  using assms by (induction vs) (auto, (cases rest; simp)+)

lemma parse_args_render:
  "args_ok kvs \<Longrightarrow> parse_args (render_args kvs) s = (None, s\<lparr>mFullStr := mFullStr s @ concat (map (\<lambda>(k, _). ''-'' @ k @ '' '') kvs),
     mKeyValues := map_of kvs ++ mKeyValues s\<rparr>)"
proof (induction kvs arbitrary: s)
  case Nil
  then show ?case by (simp add: render_args_def)
next
  case (Cons kv kvs)
  obtain k vs where kv: "kv = (k, vs)" by (cases kv)
  have ok: "args_ok kvs" "list_all is_value vs" using Cons.prems kv by (auto simp: args_ok_def)
  have r: "render_args (kv # kvs) = (''-'' @ k) # vs @ render_args kvs" by (simp add: render_args_def kv)
  have m: "map_of kvs ++ mKeyValues (emplace_key k vs s) = map_of ((k, vs) # kvs) ++ mKeyValues s"
    by (rule ext) (auto simp: emplace_key_def map_add_def split: option.splits)
  have f: "mFullStr (emplace_key k vs s) = mFullStr s" "mProgramName (emplace_key k vs s) = mProgramName s" for s
    by (simp_all add: emplace_key_def)
  have e: "emplace_key k vs (s\<lparr>mFullStr := x\<rparr>) = (emplace_key k vs s)\<lparr>mFullStr := x\<rparr>" for x
    by (simp add: emplace_key_def)
  show ?case
    using take_drop_values [OF ok(2) render_args_start [OF ok(1)]] Cons.IH [OF ok(1)] m f
    unfolding r by (auto simp: kv Let_def e fun_upd_def intro!: clp.equality)
qed

section \<open>Splitting returns and can be undone\<close>

fun join_str :: "string \<Rightarrow> string list \<Rightarrow> string" where
  "join_str d [] = []"
| "join_str d [p] = p"
| "join_str d (p # q # ps) = p @ d @ join_str d (q # ps)"

lemma find_sub_Some: "find_sub d s = Some pos \<Longrightarrow> s = take pos s @ d @ drop (pos + length d) s \<and> pos + length d \<le> length s"
proof (induction d s arbitrary: pos rule: find_sub.induct)
  case (2 d c cs)
  show ?case
  proof (cases "prefix d (c # cs)")
    case True
    then obtain r where r: "c # cs = d @ r" by (auto simp: prefix_def)
    have "pos = 0" using 2(2) True by simp
    then show ?thesis unfolding r by simp
  next
    case False
    then obtain p where p: "find_sub d cs = Some p" "pos = Suc p" using 2(2) by auto
    from 2(1) [OF False p(1)] show ?thesis by (simp add: p(2))
  qed
qed (auto split: if_splits)

lemma find_sub_least: "find_sub d s = Some pos \<Longrightarrow> d \<noteq> [] \<Longrightarrow> find_sub d (take pos s) = None"
proof (induction d s arbitrary: pos rule: find_sub.induct)
  case (2 d c cs)
  show ?case
  proof (cases "prefix d (c # cs)")
    case True
    then show ?thesis using 2(2,3) by simp
  next
    case False
    then obtain p where p: "find_sub d cs = Some p" "pos = Suc p" using 2(2) by auto
    have "\<not> prefix d (c # take p cs)"
    proof
      assume "prefix d (c # take p cs)"
      moreover have "prefix (c # take p cs) (c # cs)" by (simp add: take_is_prefix)
      ultimately show False using False prefix_order.trans by blast
    qed
    then show ?thesis using 2(1) [OF False p(1) 2(3)] p(2) by simp
  qed
qed (auto split: if_splits)

lemma split_str_total:
  assumes "d \<noteq> []"
  shows "\<exists>parts. split_str s d = Some parts \<and> parts \<noteq> [] \<and> join_str d parts = s \<and> (\<forall>p \<in> set parts. find_sub d p = None)"
proof (induction s rule: length_induct)
  case (1 s)
  show ?case
  proof (cases "find_sub d s")
    case None
    then show ?thesis by (subst split_str.simps) simp
  next
    case (Some pos)
    note f = find_sub_Some [OF Some]
    have "length (drop (pos + length d) s) < length s" using f assms by (cases s) auto
    with 1 obtain parts where p: "split_str (drop (pos + length d) s) d = Some parts" "parts \<noteq> []"
      "join_str d parts = drop (pos + length d) s" "\<forall>p \<in> set parts. find_sub d p = None" by blast
    have "join_str d (take pos s # parts) = s" using p(2,3) f by (cases parts) auto
    moreover have "find_sub d (take pos s) = None" by (rule find_sub_least [OF Some assms])
    ultimately show ?thesis using p Some by (subst split_str.simps) auto
  qed
qed

lemma find_sub_Nil [simp]: "find_sub [] s = Some 0"
  by (cases s) simp_all

lemma split_str_diverges: "split_str s d = Some r \<Longrightarrow> d \<noteq> []"
proof (rule split_str.raw_induct [where P = "\<lambda>s d r. d \<noteq> []"])
  fix split s d y
  assume IH: "\<And>s d y. split s d = Some y \<Longrightarrow> d \<noteq> []"
    and run: "(case find_sub d s of None \<Rightarrow> Some [s]
       | Some pos \<Rightarrow> Option.bind (split (drop (pos + length d) s) d) (\<lambda>parts. Some (take pos s # parts))) = Some y"
  show "d \<noteq> []"
  proof
    assume "d = []"
    then show False using run IH by (auto simp: bind_eq_Some_conv)
  qed
qed

section \<open>Integers as strings\<close>

lemma of_char_digit: "n < 10 \<Longrightarrow> (of_char (char_of (48 + n) :: char) :: nat) = 48 + n"
  by simp

lemma dec_nat_digits: "list_all is_digit_char (dec_nat n) \<and> dec_nat n \<noteq> []"
proof (induction n rule: dec_nat.induct)
  case (1 n)
  have d: "m < 10 \<Longrightarrow> is_digit_char (char_of (48 + m))" for m :: nat by (simp add: is_digit_char_def)
  show ?case
  proof (cases "n < 10")
    case True
    then have "dec_nat n = [char_of (48 + n)]" by (subst dec_nat.simps) simp
    then show ?thesis using d [OF True] by simp
  next
    case False
    then have "dec_nat n = dec_nat (n div 10) @ [char_of (48 + n mod 10)]" by (subst dec_nat.simps) simp
    then show ?thesis using 1 False d [of "n mod 10"] by simp
  qed
qed

lemma dec_value_snoc: "dec_value (ds @ [c]) = 10 * dec_value ds + (of_char c - 48)"
  by (simp add: dec_value_def)

lemma dec_value_nat: "dec_value (dec_nat n) = n"
proof (induction n rule: dec_nat.induct)
  case (1 n)
  show ?case
  proof (cases "n < 10")
    case True
    then show ?thesis by (subst dec_nat.simps) (simp add: dec_value_def)
  next
    case False
    then show ?thesis using 1 by (subst dec_nat.simps) (simp add: dec_value_snoc)
  qed
qed

lemma takeWhile_digits: "list_all is_digit_char ds \<Longrightarrow> r = [] \<or> \<not> is_digit_char (hd r) \<Longrightarrow>
    takeWhile is_digit_char (ds @ r) = ds \<and> dropWhile is_digit_char (ds @ r) = r"
  by (induction ds) (auto, (cases r; simp)+)

lemma digit_char_facts:
  assumes "is_digit_char c"
  shows "\<not> is_ws c" "c \<noteq> CHR ''-''" "c \<noteq> CHR ''+''" "c \<noteq> CHR '' ''" "c \<noteq> CHR ''.''"
  using assms by (auto simp: is_digit_char_def is_ws_def)

lemma read_int_string:
  assumes "lo \<le> i" "i \<le> hi" and r: "r = [] \<or> \<not> is_digit_char (hd r)"
  shows "read_int lo hi old (Some (int_string i @ r)) = (i, Some r)"
proof -
  let ?n = "nat \<bar>i\<bar>"
  obtain d ds where d: "dec_nat ?n = d # ds" using dec_nat_digits [of ?n] by (cases "dec_nat ?n") auto
  have dig: "list_all is_digit_char (d # ds)" using dec_nat_digits [of ?n] d by simp
  then have c: "is_digit_char d" by simp
  note tw = takeWhile_digits [OF dig r]
  have v: "dec_value (d # ds) = ?n" using dec_value_nat [of ?n] d by simp
  note f = digit_char_facts [OF c]
  show ?thesis
  proof (cases "i < 0")
    case True
    then have "int_string i = CHR ''-'' # d # ds" using d by (simp add: int_string_def)
    moreover have "\<not> is_ws (CHR ''-'')" by (simp add: is_ws_def)
    ultimately show ?thesis using tw v assms(1,2) True by (simp add: read_int_def Let_def)
  next
    case False
    then have "int_string i = d # ds" using d by (simp add: int_string_def)
    then show ?thesis using tw v assms(1,2) False f by (simp add: read_int_def Let_def)
  qed
qed

lemma no_space_split:
  assumes "list_all (\<lambda>c. c \<noteq> CHR '' '') s"
  shows "split_str s '' '' = Some [s]"
proof -
  have "find_sub '' '' s = None" using assms by (induction s) auto
  then show ?thesis by (subst split_str.simps) simp
qed

lemma int_string_no_space: "list_all (\<lambda>c. c \<noteq> CHR '' '') (int_string i)"
proof -
  have "list_all (\<lambda>c. c \<noteq> CHR '' '') (dec_nat n)" for n
    using dec_nat_digits [of n] digit_char_facts(4) by (auto simp: list_all_iff)
  then show ?thesis by (simp add: int_string_def)
qed

section \<open>Ranges of integers\<close>

lemma range_loop_up:
  "lo \<le> x \<Longrightarrow> e \<le> hi \<Longrightarrow> range_loop lo hi True e x = Inr ([x..e - 1], max x e)"
proof (induction lo hi "True" e x rule: range_loop.induct)
  case (1 lo hi e x)
  show ?case
  proof (cases "x < e")
    case True
    then have "range_loop lo hi True e (x + 1) = Inr ([x + 1..e - 1], max (x + 1) e)" using 1 by simp
    then show ?thesis using True 1(2,3) by (subst range_loop.simps) (simp add: upto_rec1)
  qed (subst range_loop.simps, simp)
qed

text \<open>Counting down from below the end never stops before the least number of the type.\<close>

lemma range_loop_down: "x < e \<Longrightarrow> lo \<le> x \<Longrightarrow> e \<le> hi \<Longrightarrow> range_loop lo hi False e x = Inl Signed_Overflow"
proof (induction lo hi "False" e x rule: range_loop.induct)
  case (1 lo hi e x)
  show ?case
  proof (cases "x - 1 < lo")
    case True
    then show ?thesis using 1(2-4) by (subst range_loop.simps) (simp add: Let_def)
  next
    case False
    then have "range_loop lo hi False e (x - 1) = Inl Signed_Overflow" using 1 by simp
    then show ?thesis using False 1(2-4) by (subst range_loop.simps) (simp add: Let_def)
  qed
qed

lemma many_loop_range:
  assumes "lo \<le> a" "a \<le> hi" "lo \<le> b" "b \<le> hi"
  shows "many_loop lo hi u x [int_string a @ ''..'' @ int_string b] =
    (if a < b then Inr [a..b - 1] else if b < a \<and> lo < a then Inr [a] else Inl Signed_Overflow)"
proof -
  have nd: "\<not> is_digit_char (CHR ''.'')" "\<not> is_ws (CHR ''.'')" by (simp_all add: is_digit_char_def is_ws_def)
  have ra: "read_int lo hi x (Some (int_string a @ ''..'' @ int_string b)) = (a, Some (''..'' @ int_string b))"
    by (rule read_int_string [OF assms(1,2)]) (use nd in simp)
  have rc: "read_char (Some (CHR ''.'' # r)) = (CHR ''.'', Some r)" for r using nd by (simp add: read_char_def)
  have rb: "read_int lo hi u (Some (int_string b)) = (b, Some [])" using read_int_string [OF assms(3,4), of "[]"] by simp
  show ?thesis
  proof (cases "a < b")
    case True
    have "range_loop lo hi True b (a + 1) = Inr ([a + 1..b - 1], max (a + 1) b)" by (rule range_loop_up) (use assms in auto)
    then show ?thesis using True assms ra rc rb by (simp add: upto_rec1 Let_def)
  next
    case F: False
    show ?thesis
    proof (cases "b < a \<and> lo < a")
      case True
      then have "range_loop lo hi False b (a - 1) = Inr ([], a - 1)" by (subst range_loop.simps) simp
      then show ?thesis using True F assms ra rc rb by (simp add: Let_def)
    next
      case G: False
      show ?thesis
      proof (cases "lo < a")
        case True
        then have e: "b = a" using F G assms by simp
        have "range_loop lo hi False a (a - 1) = Inl Signed_Overflow" by (intro range_loop_down) (use assms True in auto)
        then show ?thesis using assms ra rc rb [unfolded e] unfolding e by (simp add: Let_def)
      next
        case H: False
        then show ?thesis using F assms ra rc rb by (simp add: Let_def)
      qed
    qed
  qed
qed

section \<open>Properties\<close>

text \<open>
  C34. Printing keys with their values as arguments and parsing them again gives back the map, in which
  the first occurrence of a key counts, and the parser's string holds the keys only.
\<close>

theorem parse_rendered:
  assumes "args_ok kvs"
  shows "parse (prog # render_args kvs) clp_empty = (None, \<lparr>mProgramName = prog,
     mFullStr = concat (map (\<lambda>(k, _). ''-'' @ k @ '' '') kvs), mKeyValues = map_of kvs\<rparr>)"
  using parse_args_render [OF assms, of "clp_empty\<lparr>mProgramName := prog\<rparr>"]
  by (simp add: parse_def clp_empty_def map_add_def)

theorem parse_rendered_witness:
  "parse [''p'', ''-n'', ''5'', ''-7'', ''-v'', ''-n'', ''6''] clp_empty = (None, \<lparr>mProgramName = ''p'',
     mFullStr = ''-n -v -n '', mKeyValues = map_of [(''n'', [''5'', ''-7'']), (''v'', []), (''n'', [''6''])]\<rparr>)"
proof -
  have "args_ok [(''n'', [''5'', ''-7'']), (''v'', []), (''n'', [''6''])]"
    by (simp add: args_ok_def is_value_def is_digit_char_def)
  from parse_rendered [OF this, of "''p''"] show ?thesis by (simp add: render_args_def)
qed

text \<open>
  Parsing throws exactly when the first term after the program's name is not a flag.
\<close>

lemma parse_error_iff:
  "fst (parse (prog # args) s) = (if args = [] \<or> is_flag (hd args) then None else Some Parse_Error)"
  by (simp add: parse_def parse_args_error)

text \<open>
  Splitting a string returns exactly when the delimiter is not empty; then the parts contain no
  delimiter and joining them gives the string back.
\<close>

theorem split_returns:
  "(\<exists>parts. split_str s d = Some parts) = (d \<noteq> []) \<and> (\<forall>parts. split_str s d = Some parts \<longrightarrow>
     join_str d parts = s \<and> (\<forall>p \<in> set parts. find_sub d p = None))"
proof (cases "d = []")
  case False
  from split_str_total [OF this, of s] False show ?thesis by auto
qed (use split_str_diverges in blast)

theorem split_returns_witness: "split_str ''a b'' '' '' = Some [''a'', ''b''] \<and> join_str '' '' [''a'', ''b''] = ''a b''"
proof -
  have r: "split_str ''a b'' '' '' = Some [''a'', ''b'']"
    by (subst split_str.simps, simp, subst split_str.simps, simp)
  then show ?thesis using split_returns [of "''a b''" "'' ''"] by blast
qed

text \<open>
  An integer default of a key that has no value is what a query returns afterwards.
\<close>

theorem default_roundtrip:
  assumes "\<not> hasValue k s" and "lo \<le> i" and "i \<le> hi"
  shows "\<exists>s'. setDefault_int k i s = Some s' \<and> get_value (\<lambda>v. fst (read_int lo hi u (Some v))) k s' = Inr i"
proof -
  have r: "fst (read_int lo hi u (Some (int_string i))) = i" using read_int_string [OF assms(2,3), of "[]"] by simp
  show ?thesis
  proof (cases "mKeyValues s k")
    case None
    then show ?thesis using r assms(1)
      by (simp add: setDefault_int_def setDefault_def no_space_split [OF int_string_no_space] emplace_key_def get_value_def)
  next
    case (Some vs)
    then have "vs = []" using assms(1) by (simp add: hasValue_def)
    then show ?thesis using r assms(1) Some by (simp add: setDefault_int_def setDefault_def get_value_def)
  qed
qed

theorem default_roundtrip_witness:
  "\<exists>s'. setDefault_int ''n'' (- 12) clp_empty = Some s' \<and> get_value (\<lambda>v. fst (read_int (- 128) 127 0 (Some v))) ''n'' s' = Inr (- 12)"
  by (rule default_roundtrip) (simp_all add: hasValue_def clp_empty_def)



text \<open>
  A default with spaces is stored as several values if the key is absent, but as one value if the
  key was given without values.
\<close>

lemma default_split_differs:
  "map_option (\<lambda>s. mKeyValues s ''k'') (setDefault ''k'' ''1 2'' clp_empty) = Some (Some [''1'', ''2''])
   \<and> map_option (\<lambda>s. mKeyValues s ''k'') (setDefault ''k'' ''1 2'' (set_flag ''k'' clp_empty)) = Some (Some [''1 2''])"
proof -
  have "split_str ''1 2'' '' '' = Some [''1'', ''2'']"
    by (subst split_str.simps, simp, subst split_str.simps, simp)
  then show ?thesis by (simp add: setDefault_def set_flag_def emplace_key_def hasValue_def clp_empty_def)
qed

end
