(* ===== verification/Asio_Transfer.thy ===== *)
theory Asio_Transfer
  imports Error_Code
begin

text \<open>
  The transfers of \<^verbatim>\<open>coproto/Socket/AsioSocket.h\<close>: a coroutine starts a read or a write
  on a Boost.Asio socket and is suspended until it is done. Three threads meet at the awaiter: the
  initiating function that runs on the strand of the socket, the completion handler that Asio calls
  with the outcome, and the callback of the user's stop token. They take turns through atomic flags,
  and each access to one of them is a step here. Asio itself is not part of the model: it calls the
  handler of a started operation once, with some error code and number of bytes, at any time
  after the operation was started, and a cancellation signal reaches the operation if it is in flight.
\<close>

section \<open>Lifetimes\<close>

text \<open>
  \<^verbatim>\<open>AsioLifetime\<close> counts the locks held on an object. Releasing a lock reads the old count,
  and destroying a locked object terminates the program.
\<close>

definition lifetime_lock :: "u64 \<Rightarrow> u64" where
  "lifetime_lock n = n + 1"

definition lifetime_release :: "u64 \<Rightarrow> fault + u64" where
  "lifetime_release n = (if n = 0 then Inl Terminated else Inr (n - 1))"

definition lifetime_destroy :: "u64 \<Rightarrow> fault + unit" where
  "lifetime_destroy n = (if n \<noteq> 0 then Inl Terminated else Inr ())"

section \<open>The awaiter of a transfer\<close>

datatype asio_type = Asio_Send | Asio_Recv

text \<open>\<open>ao_Stop\<close>: the token can be asked to stop.\<close>

record asio_op =
  ao_Data :: "u8 list"
  ao_Bt :: nat
  ao_Type :: asio_type
  ao_Ec :: "error_code option"
  ao_Requested :: bool
  ao_Sync :: bool
  ao_Active :: u64
  ao_Handle :: "nat option"
  ao_Stop :: bool

record asio_state =
  as_SslLock :: bool
  as_OpCount :: u64

text \<open>
  The constructor. If the token was stopped before, the stop callback runs at once; its signal finds
  no operation.
\<close>

definition asio_awaiter :: "u8 list \<Rightarrow> asio_type \<Rightarrow> bool \<Rightarrow> bool \<Rightarrow> fault + asio_op" where
  "asio_awaiter xs ty stop early = checkR (xs \<noteq> []) Assertion
     (Inr \<lparr>ao_Data = xs, ao_Bt = 0, ao_Type = ty, ao_Ec = None, ao_Requested = (stop \<and> early), ao_Sync = False,
        ao_Active = 0, ao_Handle = None, ao_Stop = stop\<rparr>)"

definition asio_await_resume :: "asio_op \<Rightarrow> fault + error_code \<times> nat" where
  "asio_await_resume op = (case ao_Ec op of None \<Rightarrow> Inl Assertion | Some e \<Rightarrow> Inr (e, ao_Bt op))"

section \<open>The threads\<close>

datatype init_pc = I_New | I_Posted | I_Started | I_Checked | I_Unlocked | I_Done | I_Cancelled
datatype cb_pc = C_None | C_Flying | C_Stored | C_Unlocked | C_Logged | C_Won | C_Lost | C_Done
datatype stop_pc = S_None | S_Set | S_Done

text \<open>
  The awaiter and the state it shares with other transfers, where each thread is, whether a signal
  has reached the operation, and the coroutines resumed.
\<close>

record asio_run =
  ar_Op :: asio_op
  ar_State :: asio_state
  ar_Init :: init_pc
  ar_Cb :: cb_pc
  ar_Stopper :: stop_pc
  ar_Signal :: bool
  ar_Resumed :: "nat list"

definition asio_resume :: "asio_run \<Rightarrow> fault + asio_run" where
  "asio_resume r = (case ao_Handle (ar_Op r) of None \<Rightarrow> Inl Bad_Pointer
     | Some h \<Rightarrow> Inr (r\<lparr>ar_Resumed := ar_Resumed r @ [h]\<rparr>))"

text \<open>Two locks, on the shared state and on the awaiter, taken and released together.\<close>

definition take_locks :: "asio_run \<Rightarrow> asio_run" where
  "take_locks r = r\<lparr>ar_State := (ar_State r)\<lparr>as_OpCount := lifetime_lock (as_OpCount (ar_State r))\<rparr>,
     ar_Op := (ar_Op r)\<lparr>ao_Active := lifetime_lock (ao_Active (ar_Op r))\<rparr>\<rparr>"

definition release_locks :: "asio_run \<Rightarrow> fault + asio_run" where
  "release_locks r = bindR (lifetime_release (as_OpCount (ar_State r))) (\<lambda>n.
     bindR (lifetime_release (ao_Active (ar_Op r))) (\<lambda>m.
       Inr (r\<lparr>ar_State := (ar_State r)\<lparr>as_OpCount := n\<rparr>, ar_Op := (ar_Op r)\<lparr>ao_Active := m\<rparr>\<rparr>)))"

text \<open>\<^verbatim>\<open>mCancelSignal.emit\<close>.\<close>

definition emit_signal :: "asio_run \<Rightarrow> asio_run" where
  "emit_signal r = (if ar_Cb r = C_Flying then r\<lparr>ar_Signal := True\<rparr> else r)"

text \<open>
  \<^verbatim>\<open>await_suspend\<close> dispatches a function to the strand. The function gives up if a stop was
  requested; otherwise it starts the operation, whose handler holds locks of its own, under the flag
  that detects concurrent use of the stream.
\<close>

definition asio_await_suspend :: "nat \<Rightarrow> asio_run \<Rightarrow> fault + asio_run" where
  "asio_await_suspend h r = Inr ((take_locks (r\<lparr>ar_Op := (ar_Op r)\<lparr>ao_Handle := Some h\<rparr>\<rparr>))\<lparr>ar_Init := I_Posted\<rparr>)"

definition asio_dispatched :: "asio_run \<Rightarrow> fault + asio_run" where
  "asio_dispatched r = (if ao_Stop (ar_Op r) \<and> ao_Requested (ar_Op r)
     then bindR (release_locks (r\<lparr>ar_Op := (ar_Op r)\<lparr>ao_Ec := Some (make_error_code Operation_aborted)\<rparr>\<rparr>))
        (\<lambda>r. asio_resume (r\<lparr>ar_Init := I_Cancelled\<rparr>))
     else checkR (\<not> as_SslLock (ar_State r)) Terminated
        (Inr ((take_locks r)\<lparr>ar_Cb := C_Flying, ar_Init := I_Started\<rparr>)))"

definition asio_check_cancel :: "asio_run \<Rightarrow> fault + asio_run" where
  "asio_check_cancel r = Inr ((if ao_Stop (ar_Op r) \<and> ao_Requested (ar_Op r) then emit_signal r else r)\<lparr>ar_Init := I_Checked\<rparr>)"

definition asio_unlock :: "asio_run \<Rightarrow> fault + asio_run" where
  "asio_unlock r = bindR (release_locks r) (\<lambda>r. Inr (r\<lparr>ar_Init := I_Unlocked\<rparr>))"

text \<open>\<^verbatim>\<open>mSynchronousFlag.exchange(true)\<close>; whoever comes second resumes the coroutine.\<close>

definition asio_init_exchange :: "asio_run \<Rightarrow> fault + asio_run" where
  "asio_init_exchange r = (let r' = r\<lparr>ar_Op := (ar_Op r)\<lparr>ao_Sync := True\<rparr>, ar_Init := I_Done\<rparr> in
     if ao_Sync (ar_Op r) then asio_resume r' else Inr r')"

text \<open>
  \<^verbatim>\<open>callback\<close>. The macro \<^verbatim>\<open>COPROTO_ASIO_LOG\<close> is always defined, so the
  handler also formats the first eight bytes of the buffer before the exchange, and the error code
  after it. Resuming the coroutine may destroy the awaiter.
\<close>

definition asio_callback :: "error_code \<Rightarrow> error_code \<Rightarrow> nat \<Rightarrow> asio_run \<Rightarrow> fault + asio_run" where
  "asio_callback aborted ec n r = Inr (r\<lparr>ar_Op := (ar_Op r)\<lparr>ao_Bt := ao_Bt (ar_Op r) + n,
     ao_Ec := Some (if ec = aborted then make_error_code Operation_aborted else ec)\<rparr>, ar_Cb := C_Stored\<rparr>)"

definition asio_cb_unlock :: "asio_run \<Rightarrow> fault + asio_run" where
  "asio_cb_unlock r = bindR (release_locks r) (\<lambda>r. Inr (r\<lparr>ar_Cb := C_Unlocked\<rparr>))"

definition asio_cb_log :: "asio_run \<Rightarrow> fault + asio_run" where
  "asio_cb_log r = checkR (8 \<le> length (ao_Data (ar_Op r))) Bad_Pointer (Inr (r\<lparr>ar_Cb := C_Logged\<rparr>))"

definition asio_cb_exchange :: "asio_run \<Rightarrow> fault + asio_run" where
  "asio_cb_exchange r = Inr (r\<lparr>ar_Op := (ar_Op r)\<lparr>ao_Sync := True\<rparr>,
     ar_Cb := (if ao_Sync (ar_Op r) then C_Won else C_Lost)\<rparr>)"

definition asio_cb_report :: "asio_run \<Rightarrow> fault + asio_run" where
  "asio_cb_report r = checkR (ar_Resumed r = []) Bad_Pointer
     (let r' = r\<lparr>ar_Cb := C_Done\<rparr> in if ar_Cb r = C_Won then asio_resume r' else Inr r')"

text \<open>The callback of the stop token: set the flag, then emit the signal.\<close>

definition asio_stop_set :: "asio_run \<Rightarrow> fault + asio_run" where
  "asio_stop_set r = Inr (r\<lparr>ar_Op := (ar_Op r)\<lparr>ao_Requested := True\<rparr>, ar_Stopper := S_Set\<rparr>)"

definition asio_stop_emit :: "asio_run \<Rightarrow> fault + asio_run" where
  "asio_stop_emit r = Inr ((emit_signal r)\<lparr>ar_Stopper := S_Done\<rparr>)"

text \<open>\<^verbatim>\<open>Sock::close\<close>: closes the lower layer on the strand and resumes the caller.\<close>

definition asio_close :: "nat \<Rightarrow> asio_state \<Rightarrow> fault + nat \<times> asio_state" where
  "asio_close h s = bindR (lifetime_release (lifetime_lock (as_OpCount s))) (\<lambda>n. Inr (h, s\<lparr>as_OpCount := n\<rparr>))"

section \<open>Interleavings\<close>

datatype asio_act = Suspend_On nat | Dispatched | Check_Cancel | Unlock | Init_Exchange
  | Complete error_code nat | Cb_Unlock | Cb_Log | Cb_Exchange | Cb_Report | Stop_Set | Stop_Emit

fun asio_perform :: "error_code \<Rightarrow> asio_act \<Rightarrow> asio_run \<Rightarrow> fault + asio_run" where
  "asio_perform ab (Suspend_On h) r = asio_await_suspend h r"
| "asio_perform ab Dispatched r = asio_dispatched r"
| "asio_perform ab Check_Cancel r = asio_check_cancel r"
| "asio_perform ab Unlock r = asio_unlock r"
| "asio_perform ab Init_Exchange r = asio_init_exchange r"
| "asio_perform ab (Complete ec n) r = asio_callback ab ec n r"
| "asio_perform ab Cb_Unlock r = asio_cb_unlock r"
| "asio_perform ab Cb_Log r = asio_cb_log r"
| "asio_perform ab Cb_Exchange r = asio_cb_exchange r"
| "asio_perform ab Cb_Report r = asio_cb_report r"
| "asio_perform ab Stop_Set r = asio_stop_set r"
| "asio_perform ab Stop_Emit r = asio_stop_emit r"

text \<open>
  Which thread can go on. The destructor of the registration waits for a running stop callback, so
  that callback can finish after the coroutine was resumed.
\<close>

fun asio_enabled :: "asio_act \<Rightarrow> asio_run \<Rightarrow> bool" where
  "asio_enabled (Suspend_On h) r \<longleftrightarrow> ar_Init r = I_New"
| "asio_enabled Dispatched r \<longleftrightarrow> ar_Init r = I_Posted"
| "asio_enabled Check_Cancel r \<longleftrightarrow> ar_Init r = I_Started"
| "asio_enabled Unlock r \<longleftrightarrow> ar_Init r = I_Checked"
| "asio_enabled Init_Exchange r \<longleftrightarrow> ar_Init r = I_Unlocked"
| "asio_enabled (Complete ec n) r \<longleftrightarrow> ar_Cb r = C_Flying"
| "asio_enabled Cb_Unlock r \<longleftrightarrow> ar_Cb r = C_Stored"
| "asio_enabled Cb_Log r \<longleftrightarrow> ar_Cb r = C_Unlocked"
| "asio_enabled Cb_Exchange r \<longleftrightarrow> ar_Cb r = C_Logged"
| "asio_enabled Cb_Report r \<longleftrightarrow> ar_Cb r = C_Won \<or> ar_Cb r = C_Lost"
| "asio_enabled Stop_Set r \<longleftrightarrow> ar_Stopper r = S_None \<and> ao_Stop (ar_Op r)"
| "asio_enabled Stop_Emit r \<longleftrightarrow> ar_Stopper r = S_Set"

text \<open>
  The sockets that the library creates run on a strand: then the handler does not run while the
  initiating function does.
\<close>

fun on_strand :: "asio_act \<Rightarrow> asio_run \<Rightarrow> bool" where
  "on_strand (Complete ec n) r \<longleftrightarrow> ar_Init r = I_Done"
| "on_strand a r \<longleftrightarrow> True"

text \<open>\<open>n\<close> locks are held on the shared state by other transfers.\<close>

definition asio_start :: "u64 \<Rightarrow> asio_op \<Rightarrow> asio_run" where
  "asio_start n op = \<lparr>ar_Op = op, ar_State = \<lparr>as_SslLock = False, as_OpCount = n\<rparr>, ar_Init = I_New, ar_Cb = C_None,
     ar_Stopper = (if ao_Requested op then S_Done else S_None), ar_Signal = False, ar_Resumed = []\<rparr>"

inductive asio_reach :: "bool \<Rightarrow> error_code \<Rightarrow> u64 \<Rightarrow> asio_op \<Rightarrow> asio_run \<Rightarrow> bool" for strand ab n op where
  asio_reach_start: "asio_awaiter xs ty stop early = Inr op \<Longrightarrow> asio_reach strand ab n op (asio_start n op)"
| asio_reach_step: "asio_reach strand ab n op r \<Longrightarrow> asio_enabled a r \<Longrightarrow> strand \<longrightarrow> on_strand a r \<Longrightarrow>
     asio_perform ab a r = Inr r' \<Longrightarrow> asio_reach strand ab n op r'"

section \<open>Every transfer is completed once\<close>

definition init_locks :: "init_pc \<Rightarrow> nat" where
  "init_locks p = (if p \<in> {I_Posted, I_Started, I_Checked} then 1 else 0)"

definition cb_locks :: "cb_pc \<Rightarrow> nat" where
  "cb_locks c = (if c \<in> {C_Flying, C_Stored} then 1 else 0)"

text \<open>The last one has met the flag and resumed the coroutine.\<close>

definition asio_over :: "asio_run \<Rightarrow> bool" where
  "asio_over r \<longleftrightarrow> ar_Init r = I_Cancelled \<or> ar_Init r = I_Done \<and> (ar_Cb r = C_Done \<or> ar_Cb r = C_Lost)"

definition asio_inv :: "u64 \<Rightarrow> asio_run \<Rightarrow> bool" where
  "asio_inv n r \<longleftrightarrow> \<not> as_SslLock (ar_State r)
     \<and> as_OpCount (ar_State r) = n + of_nat (init_locks (ar_Init r) + cb_locks (ar_Cb r))
     \<and> ao_Active (ar_Op r) = of_nat (init_locks (ar_Init r) + cb_locks (ar_Cb r))
     \<and> (ar_Cb r = C_None \<longleftrightarrow> ar_Init r \<in> {I_New, I_Posted, I_Cancelled})
     \<and> (ao_Sync (ar_Op r) \<longleftrightarrow> ar_Init r = I_Done \<or> ar_Cb r \<in> {C_Won, C_Lost, C_Done}) \<and> (ar_Cb r = C_Won \<longrightarrow> ar_Init r = I_Done)
     \<and> (ar_Init r = I_New \<longleftrightarrow> ao_Handle (ar_Op r) = None)
     \<and> ar_Resumed r = (if asio_over r then [the (ao_Handle (ar_Op r))] else [])
     \<and> (ar_Cb r \<notin> {C_None, C_Flying} \<or> ar_Init r = I_Cancelled \<longrightarrow> ao_Ec (ar_Op r) \<noteq> None)
     \<and> (ao_Requested (ar_Op r) \<longleftrightarrow> ar_Stopper r \<noteq> S_None)
     \<and> (ao_Requested (ar_Op r) \<longrightarrow> ao_Stop (ar_Op r))
     \<and> (ar_Cb r = C_Flying \<and> ar_Init r \<in> {I_Checked, I_Unlocked, I_Done} \<and> ar_Stopper r = S_Done \<longrightarrow> ar_Signal r)"


lemma lifetime_release_ok:
  assumes "0 < k" and "unat n + k < 2 ^ 64"
  shows "lifetime_release (n + of_nat k) = Inr (n + of_nat (k - 1))"
proof -
  have "unat (n + of_nat k) = unat n + k" using assms(2) by (simp add: unat_word_ariths unat_of_nat)
  then have "n + of_nat k \<noteq> 0" using assms(1) by (metis add_is_0 neq0_conv unat_0)
  moreover have "n + of_nat k - 1 = n + of_nat (k - 1)" using assms(1) by (cases k) simp_all
  ultimately show ?thesis by (simp add: lifetime_release_def)
qed

lemma release_locks_ok:
  assumes "as_OpCount (ar_State r) = n + of_nat k" and "ao_Active (ar_Op r) = of_nat k" and "0 < k" and "k \<le> 2" and "unat n + 2 < 2 ^ 64"
  shows "release_locks r = Inr (r\<lparr>ar_State := (ar_State r)\<lparr>as_OpCount := n + of_nat (k - 1)\<rparr>,
     ar_Op := (ar_Op r)\<lparr>ao_Active := of_nat (k - 1)\<rparr>\<rparr>)"
proof -
  have "unat n + k < 2 ^ 64" "unat (0 :: u64) + k < 2 ^ 64" using assms(4,5) by simp_all
  from lifetime_release_ok [OF assms(3) this(1)] lifetime_release_ok [OF assms(3) this(2)] show ?thesis
    by (simp add: release_locks_def assms(1,2))
qed

lemma take_locks_fields [simp]:
  "ar_Init (take_locks r) = ar_Init r" "ar_Cb (take_locks r) = ar_Cb r" "ar_Stopper (take_locks r) = ar_Stopper r"
  "ar_Signal (take_locks r) = ar_Signal r" "ar_Resumed (take_locks r) = ar_Resumed r"
  "ar_State (take_locks r) = (ar_State r)\<lparr>as_OpCount := as_OpCount (ar_State r) + 1\<rparr>"
  "ar_Op (take_locks r) = (ar_Op r)\<lparr>ao_Active := ao_Active (ar_Op r) + 1\<rparr>"
  by (simp_all add: take_locks_def lifetime_lock_def)

lemma emit_signal_fields [simp]:
  "ar_Init (emit_signal r) = ar_Init r" "ar_Cb (emit_signal r) = ar_Cb r" "ar_Stopper (emit_signal r) = ar_Stopper r"
  "ar_Signal (emit_signal r) = (ar_Signal r \<or> ar_Cb r = C_Flying)" "ar_Resumed (emit_signal r) = ar_Resumed r"
  "ar_State (emit_signal r) = ar_State r" "ar_Op (emit_signal r) = ar_Op r"
  by (simp_all add: emit_signal_def)

lemma locks_le [simp]: "init_locks p + cb_locks c \<le> 2"
  by (simp add: init_locks_def cb_locks_def)

text \<open>The steps of the initiator, of the handler and of the stop callback.\<close>

lemma asio_init_step:
  assumes inv: "asio_inv n r" and n: "unat n + 2 < 2 ^ 64"
  shows "ar_Init r = I_New \<Longrightarrow> \<exists>r'. asio_await_suspend h r = Inr r' \<and> asio_inv n r'"
    and "ar_Init r = I_Posted \<Longrightarrow> \<exists>r'. asio_dispatched r = Inr r' \<and> asio_inv n r'"
    and "ar_Init r = I_Started \<Longrightarrow> \<exists>r'. asio_check_cancel r = Inr r' \<and> asio_inv n r'"
    and "ar_Init r = I_Checked \<Longrightarrow> \<exists>r'. asio_unlock r = Inr r' \<and> asio_inv n r'"
    and "ar_Init r = I_Unlocked \<Longrightarrow> \<exists>r'. asio_init_exchange r = Inr r' \<and> asio_inv n r'"
proof -
  show "ar_Init r = I_New \<Longrightarrow> \<exists>r'. asio_await_suspend h r = Inr r' \<and> asio_inv n r'"
    using inv by (simp add: asio_await_suspend_def asio_inv_def asio_over_def init_locks_def cb_locks_def)
  show "ar_Init r = I_Posted \<Longrightarrow> \<exists>r'. asio_dispatched r = Inr r' \<and> asio_inv n r'"
  proof -
    assume I: "ar_Init r = I_Posted"
    then have C: "ar_Cb r = C_None" using inv by (simp add: asio_inv_def)
    show ?thesis
    proof (cases "ao_Stop (ar_Op r) \<and> ao_Requested (ar_Op r)")
      case True
      let ?r = "r\<lparr>ar_Op := (ar_Op r)\<lparr>ao_Ec := Some (make_error_code Operation_aborted)\<rparr>\<rparr>"
      have "as_OpCount (ar_State ?r) = n + of_nat (init_locks I_Posted + cb_locks C_None)"
        "ao_Active (ar_Op ?r) = of_nat (init_locks I_Posted + cb_locks C_None)"
        using inv I C by (simp_all add: asio_inv_def)
      from release_locks_ok [OF this _ locks_le n]
      have rel: "release_locks ?r = Inr (?r\<lparr>ar_State := (ar_State r)\<lparr>as_OpCount := n\<rparr>, ar_Op := (ar_Op ?r)\<lparr>ao_Active := 0\<rparr>\<rparr>)"
        by (simp add: init_locks_def cb_locks_def)
      obtain h where h: "ao_Handle (ar_Op r) = Some h" using inv I by (auto simp: asio_inv_def)
      let ?t = "?r\<lparr>ar_State := (ar_State r)\<lparr>as_OpCount := n\<rparr>, ar_Op := (ar_Op ?r)\<lparr>ao_Active := 0\<rparr>,
        ar_Init := I_Cancelled, ar_Resumed := ar_Resumed r @ [h]\<rparr>"
      have "asio_dispatched r = Inr ?t" using True rel h by (simp add: asio_dispatched_def asio_resume_def)
      moreover have "asio_inv n ?t" using inv I C h by (simp add: asio_inv_def asio_over_def init_locks_def cb_locks_def)
      ultimately show ?thesis by blast
    next
      case False
      then show ?thesis using inv I C
        by (auto simp: asio_dispatched_def asio_inv_def asio_over_def init_locks_def cb_locks_def)
    qed
  qed
  show "ar_Init r = I_Started \<Longrightarrow> \<exists>r'. asio_check_cancel r = Inr r' \<and> asio_inv n r'"
    using inv by (auto simp: asio_check_cancel_def asio_inv_def asio_over_def init_locks_def)
  show "ar_Init r = I_Checked \<Longrightarrow> \<exists>r'. asio_unlock r = Inr r' \<and> asio_inv n r'"
  proof -
    assume I: "ar_Init r = I_Checked"
    have "as_OpCount (ar_State r) = n + of_nat (init_locks I_Checked + cb_locks (ar_Cb r))"
      "ao_Active (ar_Op r) = of_nat (init_locks I_Checked + cb_locks (ar_Cb r))"
      using inv I by (simp_all add: asio_inv_def)
    from release_locks_ok [OF this _ locks_le n] I inv show ?thesis
      by (simp add: asio_unlock_def asio_inv_def asio_over_def init_locks_def)
  qed
  show "ar_Init r = I_Unlocked \<Longrightarrow> \<exists>r'. asio_init_exchange r = Inr r' \<and> asio_inv n r'"
  proof -
    assume I: "ar_Init r = I_Unlocked"
    obtain x where x: "ao_Handle (ar_Op r) = Some x" using inv I by (auto simp: asio_inv_def)
    have won: "ar_Cb r \<noteq> C_Won" using inv I by (auto simp: asio_inv_def)
    have sync: "ao_Sync (ar_Op r) \<longleftrightarrow> ar_Cb r \<in> {C_Lost, C_Done}" using inv I won by (simp add: asio_inv_def)
    let ?t = "r\<lparr>ar_Op := (ar_Op r)\<lparr>ao_Sync := True\<rparr>, ar_Init := I_Done,
      ar_Resumed := ar_Resumed r @ (if ar_Cb r \<in> {C_Lost, C_Done} then [x] else [])\<rparr>"
    have "asio_init_exchange r = Inr ?t" using x sync by (simp add: asio_init_exchange_def asio_resume_def Let_def)
    moreover have "asio_inv n ?t" using inv I x won by (simp add: asio_inv_def asio_over_def init_locks_def)
    ultimately show ?thesis by blast
  qed
qed

lemma asio_cb_step:
  assumes inv: "asio_inv n r" and n: "unat n + 2 < 2 ^ 64"
  shows "ar_Cb r = C_Flying \<Longrightarrow> \<exists>r'. asio_callback ab ec k r = Inr r' \<and> asio_inv n r'"
    and "ar_Cb r = C_Stored \<Longrightarrow> \<exists>r'. asio_cb_unlock r = Inr r' \<and> asio_inv n r'"
    and "ar_Cb r = C_Unlocked \<Longrightarrow> 8 \<le> length (ao_Data (ar_Op r)) \<Longrightarrow> \<exists>r'. asio_cb_log r = Inr r' \<and> asio_inv n r'"
    and "ar_Cb r = C_Logged \<Longrightarrow> \<exists>r'. asio_cb_exchange r = Inr r' \<and> asio_inv n r'"
    and "ar_Cb r = C_Won \<or> ar_Cb r = C_Lost \<Longrightarrow> \<not> asio_over r \<Longrightarrow> \<exists>r'. asio_cb_report r = Inr r' \<and> asio_inv n r'"
proof -
  have h: "ao_Handle (ar_Op r) \<noteq> None" if "ar_Cb r \<noteq> C_None" using inv that by (auto simp: asio_inv_def)
  show "ar_Cb r = C_Flying \<Longrightarrow> \<exists>r'. asio_callback ab ec k r = Inr r' \<and> asio_inv n r'"
    using inv h by (simp add: asio_callback_def asio_inv_def asio_over_def cb_locks_def)
  show "ar_Cb r = C_Stored \<Longrightarrow> \<exists>r'. asio_cb_unlock r = Inr r' \<and> asio_inv n r'"
  proof -
    assume C: "ar_Cb r = C_Stored"
    have "as_OpCount (ar_State r) = n + of_nat (init_locks (ar_Init r) + cb_locks C_Stored)"
      "ao_Active (ar_Op r) = of_nat (init_locks (ar_Init r) + cb_locks C_Stored)"
      using inv C by (simp_all add: asio_inv_def)
    from release_locks_ok [OF this _ locks_le n] C inv h show ?thesis
      by (simp add: asio_cb_unlock_def asio_inv_def asio_over_def cb_locks_def)
  qed
  show "ar_Cb r = C_Unlocked \<Longrightarrow> 8 \<le> length (ao_Data (ar_Op r)) \<Longrightarrow> \<exists>r'. asio_cb_log r = Inr r' \<and> asio_inv n r'"
    using inv h by (simp add: asio_cb_log_def asio_inv_def asio_over_def cb_locks_def)
  show "ar_Cb r = C_Logged \<Longrightarrow> \<exists>r'. asio_cb_exchange r = Inr r' \<and> asio_inv n r'"
  proof -
    assume C: "ar_Cb r = C_Logged"
    have "ao_Sync (ar_Op r) \<longleftrightarrow> ar_Init r = I_Done" "ar_Init r \<noteq> I_Cancelled" using inv C by (simp_all add: asio_inv_def)
    then show ?thesis using inv C h by (simp add: asio_cb_exchange_def asio_inv_def asio_over_def cb_locks_def)
  qed
  show "ar_Cb r = C_Won \<or> ar_Cb r = C_Lost \<Longrightarrow> \<not> asio_over r \<Longrightarrow> \<exists>r'. asio_cb_report r = Inr r' \<and> asio_inv n r'"
  proof -
    assume C: "ar_Cb r = C_Won \<or> ar_Cb r = C_Lost" and over: "\<not> asio_over r"
    obtain x where x: "ao_Handle (ar_Op r) = Some x" using h C by auto
    have res: "ar_Resumed r = []" using inv over by (simp add: asio_inv_def)
    have "ar_Cb r = C_Won \<longrightarrow> ar_Init r = I_Done" using inv by (simp add: asio_inv_def)
    moreover have "ar_Cb r = C_Lost \<longrightarrow> ar_Init r \<noteq> I_Done" using over unfolding asio_over_def by blast
    ultimately have pcs: "ar_Cb r = C_Won \<longrightarrow> ar_Init r = I_Done" "ar_Cb r = C_Lost \<longrightarrow> ar_Init r \<noteq> I_Done" by simp_all
    let ?t = "r\<lparr>ar_Cb := C_Done, ar_Resumed := (if ar_Cb r = C_Won then [x] else [])\<rparr>"
    have "asio_cb_report r = Inr ?t" using x res by (simp add: asio_cb_report_def asio_resume_def Let_def)
    moreover have "asio_inv n ?t" using C inv pcs x by (elim disjE; simp add: asio_inv_def asio_over_def cb_locks_def)
    ultimately show ?thesis by blast
  qed
qed

lemma asio_stop_step:
  assumes inv: "asio_inv n r"
  shows "ar_Stopper r = S_None \<Longrightarrow> ao_Stop (ar_Op r) \<Longrightarrow> \<exists>r'. asio_stop_set r = Inr r' \<and> asio_inv n r'"
    and "ar_Stopper r = S_Set \<Longrightarrow> \<exists>r'. asio_stop_emit r = Inr r' \<and> asio_inv n r'"
  using inv by (auto simp: asio_stop_set_def asio_stop_emit_def asio_inv_def asio_over_def)

text \<open>What the log lines of the handler rely on.\<close>

definition log_safe :: "asio_act \<Rightarrow> asio_run \<Rightarrow> bool" where
  "log_safe a r \<longleftrightarrow> (a = Cb_Log \<longrightarrow> 8 \<le> length (ao_Data (ar_Op r))) \<and> (a = Cb_Report \<longrightarrow> \<not> asio_over r)"

lemma asio_step_ok:
  assumes inv: "asio_inv n r" and n: "unat n + 2 < 2 ^ 64" and en: "asio_enabled a r" and log: "log_safe a r"
  shows "\<exists>r'. asio_perform ab a r = Inr r' \<and> asio_inv n r'"
  using en log asio_init_step [OF inv n] asio_cb_step [OF inv n] asio_stop_step [OF inv]
  by (cases a) (simp_all add: log_safe_def)

lemma asio_perform_log:
  assumes inv: "asio_inv n r" and run: "asio_perform ab a r = Inr r'"
  shows "log_safe a r"
proof (cases a)
  case Cb_Report
  have "ar_Resumed r = []" using run Cb_Report by (simp add: asio_cb_report_def fault_simps)
  then show ?thesis using inv Cb_Report by (simp add: asio_inv_def log_safe_def split: if_splits)
next
  case Cb_Log
  then show ?thesis using run by (simp add: asio_cb_log_def fault_simps log_safe_def)
qed (simp_all add: log_safe_def)

lemma asio_strand_step:
  assumes "asio_perform ab a r = Inr r'" and "asio_enabled a r" and "on_strand a r" and "asio_inv n r"
    and "ar_Cb r \<notin> {C_None, C_Flying} \<longrightarrow> ar_Init r = I_Done \<and> ar_Cb r \<noteq> C_Lost"
  shows "ar_Cb r' \<notin> {C_None, C_Flying} \<longrightarrow> ar_Init r' = I_Done \<and> ar_Cb r' \<noteq> C_Lost"
proof -
  have "ao_Sync (ar_Op r)" if "ar_Init r = I_Done" using assms(4) that by (simp add: asio_inv_def)
  then show ?thesis using assms(1-3,5)
    by (cases a) (auto simp: asio_await_suspend_def asio_dispatched_def asio_check_cancel_def asio_unlock_def
      asio_init_exchange_def asio_callback_def asio_cb_unlock_def asio_cb_log_def asio_cb_exchange_def asio_cb_report_def
      asio_stop_set_def asio_stop_emit_def asio_resume_def release_locks_def Let_def fault_simps split: if_splits option.splits)
qed

lemma asio_reach_inv:
  assumes "asio_reach strand ab n op r" and n: "unat n + 2 < 2 ^ 64"
  shows "asio_inv n r \<and> (strand \<longrightarrow> ar_Cb r \<notin> {C_None, C_Flying} \<longrightarrow> ar_Init r = I_Done \<and> ar_Cb r \<noteq> C_Lost)"
  using assms(1)
proof (induction rule: asio_reach.induct)
  case (asio_reach_start xs ty stop early)
  then show ?case
    by (auto simp: asio_awaiter_def fault_simps asio_start_def asio_inv_def asio_over_def init_locks_def cb_locks_def)
next
  case (asio_reach_step r a r')
  have "log_safe a r" by (rule asio_perform_log [OF conjunct1 [OF asio_reach_step.IH] asio_reach_step.hyps(4)])
  from asio_step_ok [OF conjunct1 [OF asio_reach_step.IH] n asio_reach_step.hyps(2) this, of ab] asio_reach_step.hyps(4)
  have "asio_inv n r'" by simp
  then show ?case
    using asio_strand_step [OF asio_reach_step.hyps(4,2)] asio_reach_step.hyps(3) asio_reach_step.IH by blast
qed

text \<open>Until the transfer is over, the initiator or the handler can go on, or Asio owes the call of the handler.\<close>

definition asio_acts :: "nat \<Rightarrow> error_code \<Rightarrow> nat \<Rightarrow> asio_act list" where
  "asio_acts h ec k = [Suspend_On h, Dispatched, Check_Cancel, Unlock, Init_Exchange, Complete ec k, Cb_Unlock, Cb_Log, Cb_Exchange, Cb_Report]"

lemma asio_not_stuck:
  "asio_inv n r \<Longrightarrow> \<not> asio_over r \<Longrightarrow> \<exists>a \<in> set (asio_acts h ec k). asio_enabled a r"
  by (cases "ar_Init r"; cases "ar_Cb r") (simp_all add: asio_acts_def asio_inv_def asio_over_def)

lemma asio_over_facts:
  assumes inv: "asio_inv n r" and over: "asio_over r"
  shows "(\<exists>out. asio_await_resume (ar_Op r) = Inr out) \<and> lifetime_destroy (ao_Active (ar_Op r)) = Inr () \<and> as_OpCount (ar_State r) = n"
proof -
  have ec: "ar_Cb r \<notin> {C_None, C_Flying} \<or> ar_Init r = I_Cancelled \<longrightarrow> ao_Ec (ar_Op r) \<noteq> None"
    and none: "ar_Cb r = C_None \<longleftrightarrow> ar_Init r \<in> {I_New, I_Posted, I_Cancelled}"
    using inv unfolding asio_inv_def by (fast elim: conjE)+
  have "ao_Ec (ar_Op r) \<noteq> None" using ec over unfolding asio_over_def by (elim disjE conjE) simp_all
  moreover have "init_locks (ar_Init r) + cb_locks (ar_Cb r) = 0"
    using over none unfolding asio_over_def by (elim disjE conjE) (simp_all add: init_locks_def cb_locks_def)
  ultimately show ?thesis using inv by (auto simp: asio_inv_def asio_await_resume_def lifetime_destroy_def)
qed

text \<open>A run of given steps, as far as they are enabled.\<close>

fun asio_exec :: "error_code \<Rightarrow> asio_act list \<Rightarrow> asio_run \<Rightarrow> asio_run option" where
  "asio_exec ab [] r = Some r"
| "asio_exec ab (a # as) r = (if asio_enabled a r
     then (case asio_perform ab a r of Inl _ \<Rightarrow> None | Inr r' \<Rightarrow> asio_exec ab as r') else None)"

lemma asio_exec_reach: "asio_reach False ab n op r \<Longrightarrow> asio_exec ab as r = Some r' \<Longrightarrow> asio_reach False ab n op r'"
  by (induction as arbitrary: r) (auto split: if_splits sum.splits intro: asio_reach_step)


text \<open>A read of eight bytes that completes before the initiator is through, with a stop request in between.\<close>

definition demo_read :: asio_op where
  "demo_read = projr (asio_awaiter (replicate 8 0) Asio_Recv True False)"

definition demo_acts :: "asio_act list" where
  "demo_acts = [Suspend_On 7, Dispatched, Stop_Set, Complete no_error 8, Cb_Unlock, Check_Cancel, Cb_Log, Cb_Exchange, Cb_Report, Unlock, Init_Exchange]"


end
