(* ===== verification/Asio_Connect.thy ===== *)
theory Asio_Connect
  imports Asio_Transfer Io_Buffers
begin

text \<open>
  Accepting and connecting in \<^verbatim>\<open>coproto/Socket/AsioSocket.h\<close>. A plain connection is
  started by \<^verbatim>\<open>AsioConnect\<close>, which tries again after a growing delay when the peer refuses; a
  TLS connection is a plain one followed by a handshake, so three threads meet in a counter. As for the
  transfers, Asio calls the handler of a started operation once, with some error code.
\<close>

section \<open>Plain connections\<close>

datatype conn_pc = N_New | N_Started | N_Checked | N_Done
datatype handler_pc = K_None | K_Flying | K_Stored | K_Done

record conn =
  cn_Ec :: error_code
  cn_Requested :: bool
  cn_Sync :: bool
  cn_Started :: bool
  cn_Retry :: bool
  cn_Delay :: nat
  cn_Handle :: "nat option"
  cn_Stop :: bool

text \<open>\<open>cr_Timer\<close>: the retry timer runs; \<open>cr_Tries\<close> counts how often it has fired.\<close>

record conn_run =
  cr_Conn :: conn
  cr_Init :: conn_pc
  cr_Cb :: handler_pc
  cr_Timer :: bool
  cr_Stopper :: stop_pc
  cr_Signal :: bool
  cr_Resumed :: "nat list"
  cr_Tries :: nat

definition conn_new :: "bool \<Rightarrow> bool \<Rightarrow> conn" where
  "conn_new stop retry = \<lparr>cn_Ec = no_error, cn_Requested = False, cn_Sync = False, cn_Started = False,
     cn_Retry = retry, cn_Delay = 1, cn_Handle = None, cn_Stop = stop\<rparr>"

text \<open>The move constructor refuses a connection that was started.\<close>

definition conn_move :: "conn \<Rightarrow> fault + conn" where
  "conn_move c = (if cn_Started c then Inl Terminated
     else Inr (c\<lparr>cn_Requested := False, cn_Sync := False, cn_Started := False, cn_Delay := 1, cn_Handle := None\<rparr>))"

text \<open>\<^verbatim>\<open>await_ready\<close> registers the stop callback, which runs at once on a stopped token.\<close>

definition conn_await_ready :: "bool \<Rightarrow> conn \<Rightarrow> conn_run" where
  "conn_await_ready early c = \<lparr>cr_Conn = c\<lparr>cn_Started := True, cn_Requested := cn_Stop c \<and> early\<rparr>,
     cr_Init = N_New, cr_Cb = K_None, cr_Timer = False, cr_Stopper = (if cn_Stop c \<and> early then S_Done else S_None),
     cr_Signal = False, cr_Resumed = [], cr_Tries = 0\<rparr>"

text \<open>A signal reaches the connection attempt in flight, or the timer.\<close>

definition conn_emit :: "conn_run \<Rightarrow> conn_run" where
  "conn_emit r = (if cr_Cb r = K_Flying \<or> cr_Timer r then r\<lparr>cr_Signal := True\<rparr> else r)"

definition conn_await_suspend :: "nat \<Rightarrow> conn_run \<Rightarrow> fault + conn_run" where
  "conn_await_suspend h r = Inr (r\<lparr>cr_Conn := (cr_Conn r)\<lparr>cn_Handle := Some h\<rparr>, cr_Init := N_Started, cr_Cb := K_Flying,
     cr_Signal := False\<rparr>)"

definition conn_check_cancel :: "conn_run \<Rightarrow> fault + conn_run" where
  "conn_check_cancel r = Inr ((if cn_Requested (cr_Conn r) then conn_emit r else r)\<lparr>cr_Init := N_Checked\<rparr>)"

definition conn_retry :: "conn_run \<Rightarrow> conn_run" where
  "conn_retry r = (let r = r\<lparr>cr_Timer := True, cr_Signal := False\<rparr> in
     if cn_Stop (cr_Conn r) \<and> cn_Requested (cr_Conn r) then conn_emit r else r)"

text \<open>The exchange of the flag, and what the second one to come does.\<close>

definition conn_meet :: "error_code \<Rightarrow> conn_run \<Rightarrow> fault + conn_run" where
  "conn_meet refused r = (let c = cr_Conn r; r = r\<lparr>cr_Conn := c\<lparr>cn_Sync := True\<rparr>\<rparr> in
     if \<not> cn_Sync c then Inr r
     else if cn_Ec c = refused \<and> cn_Retry c \<and> \<not> cn_Requested c then Inr (conn_retry r)
     else (case cn_Handle c of None \<Rightarrow> Inl Bad_Pointer | Some h \<Rightarrow> Inr (r\<lparr>cr_Resumed := cr_Resumed r @ [h]\<rparr>)))"

definition conn_init_exchange :: "error_code \<Rightarrow> conn_run \<Rightarrow> fault + conn_run" where
  "conn_init_exchange refused r = conn_meet refused (r\<lparr>cr_Init := N_Done\<rparr>)"

definition conn_callback :: "error_code \<Rightarrow> conn_run \<Rightarrow> fault + conn_run" where
  "conn_callback ec r = Inr (r\<lparr>cr_Conn := (cr_Conn r)\<lparr>cn_Ec := ec\<rparr>, cr_Cb := K_Stored\<rparr>)"

definition conn_cb_exchange :: "error_code \<Rightarrow> conn_run \<Rightarrow> fault + conn_run" where
  "conn_cb_exchange refused r = conn_meet refused (r\<lparr>cr_Cb := K_Done\<rparr>)"

text \<open>The handler of the timer starts the next attempt, whatever the timer's own error code is.\<close>

definition conn_timer :: "conn_run \<Rightarrow> fault + conn_run" where
  "conn_timer r = (case cn_Handle (cr_Conn r) of None \<Rightarrow> Inl Bad_Pointer | Some h \<Rightarrow>
     conn_await_suspend h (r\<lparr>cr_Conn := (cr_Conn r)\<lparr>cn_Sync := False, cn_Delay := min (cn_Delay (cr_Conn r) * 2) 1000\<rparr>,
       cr_Timer := False, cr_Tries := cr_Tries r + 1\<rparr>))"

definition conn_stop_set :: "conn_run \<Rightarrow> fault + conn_run" where
  "conn_stop_set r = Inr (r\<lparr>cr_Conn := (cr_Conn r)\<lparr>cn_Requested := True\<rparr>, cr_Stopper := S_Set\<rparr>)"

definition conn_stop_emit :: "conn_run \<Rightarrow> fault + conn_run" where
  "conn_stop_emit r = Inr ((conn_emit r)\<lparr>cr_Stopper := S_Done\<rparr>)"

text \<open>\<^verbatim>\<open>await_resume\<close> throws the error; the socket itself is not modelled.\<close>

definition conn_await_resume :: "conn \<Rightarrow> exn + unit" where
  "conn_await_resume c = (if is_error (cn_Ec c) then Inl (sys_error (cn_Ec c)) else Inr ())"

datatype conn_act = Conn_Suspend nat | Conn_Check | Conn_Exchange | Conn_Complete error_code | Conn_Cb_Exchange
  | Conn_Timer | Conn_Stop_Set | Conn_Stop_Emit

fun conn_perform :: "error_code \<Rightarrow> conn_act \<Rightarrow> conn_run \<Rightarrow> fault + conn_run" where
  "conn_perform refused (Conn_Suspend h) r = conn_await_suspend h r"
| "conn_perform refused Conn_Check r = conn_check_cancel r"
| "conn_perform refused Conn_Exchange r = conn_init_exchange refused r"
| "conn_perform refused (Conn_Complete ec) r = conn_callback ec r"
| "conn_perform refused Conn_Cb_Exchange r = conn_cb_exchange refused r"
| "conn_perform refused Conn_Timer r = conn_timer r"
| "conn_perform refused Conn_Stop_Set r = conn_stop_set r"
| "conn_perform refused Conn_Stop_Emit r = conn_stop_emit r"

fun conn_enabled :: "conn_act \<Rightarrow> conn_run \<Rightarrow> bool" where
  "conn_enabled (Conn_Suspend h) r \<longleftrightarrow> cr_Init r = N_New"
| "conn_enabled Conn_Check r \<longleftrightarrow> cr_Init r = N_Started"
| "conn_enabled Conn_Exchange r \<longleftrightarrow> cr_Init r = N_Checked"
| "conn_enabled (Conn_Complete ec) r \<longleftrightarrow> cr_Cb r = K_Flying"
| "conn_enabled Conn_Cb_Exchange r \<longleftrightarrow> cr_Cb r = K_Stored"
| "conn_enabled Conn_Timer r \<longleftrightarrow> cr_Timer r"
| "conn_enabled Conn_Stop_Set r \<longleftrightarrow> cr_Stopper r = S_None \<and> cn_Stop (cr_Conn r)"
| "conn_enabled Conn_Stop_Emit r \<longleftrightarrow> cr_Stopper r = S_Set"

inductive conn_reach :: "error_code \<Rightarrow> bool \<Rightarrow> conn_run \<Rightarrow> bool" for refused retry where
  conn_reach_start: "conn_reach refused retry (conn_await_ready early (conn_new stop retry))"
| conn_reach_step: "conn_reach refused retry r \<Longrightarrow> conn_enabled a r \<Longrightarrow> conn_perform refused a r = Inr r' \<Longrightarrow> conn_reach refused retry r'"

section \<open>A connection attempt ends once\<close>

definition conn_inv :: "error_code \<Rightarrow> bool \<Rightarrow> conn_run \<Rightarrow> bool" where
  "conn_inv refused retry r \<longleftrightarrow> (cr_Init r = N_New \<longleftrightarrow> cr_Cb r = K_None) \<and> (cr_Init r \<noteq> N_New \<longrightarrow> cn_Handle (cr_Conn r) \<noteq> None)
     \<and> cn_Retry (cr_Conn r) = retry
     \<and> (cn_Sync (cr_Conn r) \<longleftrightarrow> cr_Init r = N_Done \<or> cr_Cb r = K_Done)
     \<and> (cr_Timer r \<longrightarrow> cr_Init r = N_Done \<and> cr_Cb r = K_Done)
     \<and> cr_Resumed r = (if cr_Init r = N_Done \<and> cr_Cb r = K_Done \<and> \<not> cr_Timer r then [the (cn_Handle (cr_Conn r))] else [])
     \<and> cn_Delay (cr_Conn r) = min (2 ^ cr_Tries r) 1000
     \<and> (cn_Requested (cr_Conn r) \<longleftrightarrow> cr_Stopper r \<noteq> S_None)
     \<and> (cr_Resumed r \<noteq> [] \<and> cn_Ec (cr_Conn r) = refused \<and> retry \<longrightarrow> cn_Requested (cr_Conn r))
     \<and> (cr_Cb r = K_Flying \<and> cr_Init r \<in> {N_Checked, N_Done} \<and> cr_Stopper r = S_Done \<longrightarrow> cr_Signal r)
     \<and> (cr_Timer r \<and> cr_Stopper r = S_Done \<longrightarrow> cr_Signal r)"

lemma conn_inv_start: "conn_inv refused retry (conn_await_ready early (conn_new stop retry))"
  by (simp add: conn_inv_def conn_await_ready_def conn_new_def)

lemma conn_emit_fields [simp]:
  "cr_Conn (conn_emit r) = cr_Conn r" "cr_Init (conn_emit r) = cr_Init r" "cr_Cb (conn_emit r) = cr_Cb r"
  "cr_Timer (conn_emit r) = cr_Timer r" "cr_Stopper (conn_emit r) = cr_Stopper r"
  "cr_Signal (conn_emit r) = (cr_Signal r \<or> cr_Cb r = K_Flying \<or> cr_Timer r)"
  "cr_Resumed (conn_emit r) = cr_Resumed r" "cr_Tries (conn_emit r) = cr_Tries r"
  by (simp_all add: conn_emit_def)

lemma conn_delay_step: "min (min (2 ^ k) 1000 * 2) 1000 = min (2 ^ Suc k) (1000 :: nat)"
  by (cases "2 ^ k \<le> (1000 :: nat)") (simp_all add: min_def)

lemma conn_invD:
  assumes "conn_inv refused retry r"
  shows "cr_Init r = N_New \<longleftrightarrow> cr_Cb r = K_None" and "cr_Init r \<noteq> N_New \<Longrightarrow> \<exists>h. cn_Handle (cr_Conn r) = Some h"
    and "cn_Retry (cr_Conn r) = retry"
    and "cn_Sync (cr_Conn r) \<longleftrightarrow> cr_Init r = N_Done \<or> cr_Cb r = K_Done"
    and "cr_Timer r \<longrightarrow> cr_Init r = N_Done \<and> cr_Cb r = K_Done"
    and "cr_Resumed r = (if cr_Init r = N_Done \<and> cr_Cb r = K_Done \<and> \<not> cr_Timer r then [the (cn_Handle (cr_Conn r))] else [])"
    and "cn_Delay (cr_Conn r) = min (2 ^ cr_Tries r) 1000"
    and "cn_Requested (cr_Conn r) \<longleftrightarrow> cr_Stopper r \<noteq> S_None"
    and "cr_Resumed r \<noteq> [] \<and> cn_Ec (cr_Conn r) = refused \<and> retry \<longrightarrow> cn_Requested (cr_Conn r)"
    and "cr_Cb r = K_Flying \<and> cr_Init r \<in> {N_Checked, N_Done} \<and> cr_Stopper r = S_Done \<longrightarrow> cr_Signal r"
  using assms unfolding conn_inv_def by (fast elim: conjE)+

lemma conn_meet_ok:
  assumes inv: "conn_inv refused retry r"
    and r': "r' = r\<lparr>cr_Init := N_Done\<rparr> \<and> cr_Init r = N_Checked \<or> r' = r\<lparr>cr_Cb := K_Done\<rparr> \<and> cr_Cb r = K_Stored"
  shows "\<exists>t. conn_meet refused r' = Inr t \<and> conn_inv refused retry t"
proof -
  note D = conn_invD [OF inv]
  have new: "cr_Init r \<noteq> N_New" using D(1) r' by (elim disjE conjE) simp_all
  obtain h where h: "cn_Handle (cr_Conn r) = Some h" using D(2) new by blast
  have fields: "cr_Conn r' = cr_Conn r" "cr_Tries r' = cr_Tries r" "cr_Stopper r' = cr_Stopper r"
    "cr_Timer r' = cr_Timer r" "cr_Resumed r' = cr_Resumed r"
    using r' by (elim disjE conjE, simp_all)+
  have idle: "\<not> cr_Timer r" "cr_Resumed r = []" using r' D(5,6) by (elim disjE conjE; simp)+
  have meet: "cn_Sync (cr_Conn r) \<longleftrightarrow> cr_Init r' = N_Done \<and> cr_Cb r' = K_Done" "cr_Init r' = N_Done \<or> cr_Cb r' = K_Done"
    using D(4) r' by (elim disjE conjE; simp)+
  have pcs: "cr_Init r' \<noteq> N_New" "cr_Cb r' \<noteq> K_None" using D(1) new r' by (elim disjE conjE; simp)+
  have sig: "cr_Cb r' = K_Flying \<and> cr_Init r' \<in> {N_Checked, N_Done} \<and> cr_Stopper r' = S_Done \<longrightarrow> cr_Signal r'"
    using D(10) r' by (elim disjE conjE; simp)
  note rest = D(3,7,8)
  show ?thesis
  proof (cases "cn_Sync (cr_Conn r)")
    case False
    let ?t = "r'\<lparr>cr_Conn := (cr_Conn r)\<lparr>cn_Sync := True\<rparr>\<rparr>"
    have "conn_meet refused r' = Inr ?t" using False fields by (simp add: conn_meet_def Let_def)
    moreover have "conn_inv refused retry ?t" using False fields idle meet pcs rest sig h by (simp add: conn_inv_def)
    ultimately show ?thesis by blast
  next
    case True
    note both = meet(1) [THEN iffD1, OF True]
    show ?thesis
    proof (cases "cn_Ec (cr_Conn r) = refused \<and> retry \<and> \<not> cn_Requested (cr_Conn r)")
      case retry: True
      let ?t = "r'\<lparr>cr_Conn := (cr_Conn r)\<lparr>cn_Sync := True\<rparr>, cr_Timer := True, cr_Signal := False\<rparr>"
      have "conn_meet refused r' = Inr ?t" using True retry fields rest by (simp add: conn_meet_def conn_retry_def Let_def)
      moreover have "conn_inv refused retry ?t" using retry fields idle both rest h by (simp add: conn_inv_def)
      ultimately show ?thesis by blast
    next
      case False
      let ?t = "r'\<lparr>cr_Conn := (cr_Conn r)\<lparr>cn_Sync := True\<rparr>, cr_Resumed := [h]\<rparr>"
      have "conn_meet refused r' = Inr ?t" using True False fields idle rest(1) h by (simp add: conn_meet_def Let_def) blast
      moreover have "conn_inv refused retry ?t" using False fields idle both rest h by (simp add: conn_inv_def)
      ultimately show ?thesis by blast
    qed
  qed
qed

lemma conn_step_ok:
  assumes inv: "conn_inv refused retry r" and en: "conn_enabled a r"
  shows "\<exists>r'. conn_perform refused a r = Inr r' \<and> conn_inv refused retry r'"
proof (cases a)
  case (Conn_Suspend h)
  then show ?thesis using inv en by (simp add: conn_await_suspend_def conn_inv_def)
next
  case Conn_Check
  then show ?thesis using inv en by (simp add: conn_check_cancel_def conn_inv_def)
next
  case Conn_Exchange
  then show ?thesis using conn_meet_ok [OF inv, of "r\<lparr>cr_Init := N_Done\<rparr>"] en by (simp add: conn_init_exchange_def)
next
  case (Conn_Complete ec)
  then show ?thesis using inv en by (simp add: conn_callback_def conn_inv_def)
next
  case Conn_Cb_Exchange
  then show ?thesis using conn_meet_ok [OF inv, of "r\<lparr>cr_Cb := K_Done\<rparr>"] en by (simp add: conn_cb_exchange_def)
next
  case Conn_Timer
  then obtain h where "cn_Handle (cr_Conn r) = Some h" using inv en by (auto simp: conn_inv_def)
  then show ?thesis using Conn_Timer inv en conn_delay_step [of "cr_Tries r"]
    by (simp add: conn_timer_def conn_await_suspend_def conn_inv_def)
next
  case Conn_Stop_Set
  then show ?thesis using inv en by (simp add: conn_stop_set_def conn_inv_def)
next
  case Conn_Stop_Emit
  then show ?thesis using inv en by (simp add: conn_stop_emit_def conn_inv_def)
qed

lemma conn_reach_inv: "conn_reach refused retry r \<Longrightarrow> conn_inv refused retry r"
proof (induction rule: conn_reach.induct)
  case (conn_reach_start early stop)
  show ?case by (rule conn_inv_start)
next
  case (conn_reach_step r a r')
  then show ?case using conn_step_ok [of refused retry r a] by auto
qed


definition conn_over :: "conn_run \<Rightarrow> bool" where
  "conn_over r \<longleftrightarrow> cr_Init r = N_Done \<and> cr_Cb r = K_Done \<and> \<not> cr_Timer r"

definition conn_acts :: "nat \<Rightarrow> error_code \<Rightarrow> conn_act list" where
  "conn_acts h ec = [Conn_Suspend h, Conn_Check, Conn_Exchange, Conn_Complete ec, Conn_Cb_Exchange, Conn_Timer]"

lemma conn_not_stuck:
  "conn_inv refused retry r \<Longrightarrow> \<not> conn_over r \<Longrightarrow> \<exists>a \<in> set (conn_acts h ec). conn_enabled a r"
  using conn_invD(1) [of refused retry r] by (cases "cr_Init r"; cases "cr_Cb r") (simp_all add: conn_acts_def conn_over_def)

fun conn_exec :: "error_code \<Rightarrow> conn_act list \<Rightarrow> conn_run \<Rightarrow> conn_run option" where
  "conn_exec refused [] r = Some r"
| "conn_exec refused (a # as) r = (if conn_enabled a r
     then (case conn_perform refused a r of Inl _ \<Rightarrow> None | Inr r' \<Rightarrow> conn_exec refused as r') else None)"

lemma conn_exec_reach: "conn_reach refused retry r \<Longrightarrow> conn_exec refused as r = Some r' \<Longrightarrow> conn_reach refused retry r'"
  by (induction as arbitrary: r) (auto split: if_splits sum.splits intro: conn_reach_step)

section \<open>TLS connections\<close>

text \<open>
  The initiator, the handler of the plain connection and the handler of the handshake count down from
  two; whoever finds the counter at zero resumes the coroutine. If the plain connection fails there is
  no handshake and its handler takes two steps at once. The client tries again when it is refused.
\<close>

datatype open_pc = O_None | O_Flying | O_Failed | O_Shaking | O_Checked | O_Done | O_Done_Failed

record tls =
  tl_Ec :: error_code
  tl_Requested :: bool
  tl_Flag :: int
  tl_Client :: bool
  tl_Retry :: bool
  tl_Delay :: nat
  tl_Handle :: "nat option"
  tl_Stop :: bool

record tls_run =
  tr_Tls :: tls
  tr_Init :: conn_pc
  tr_Open :: open_pc
  tr_Hs :: handler_pc
  tr_Timer :: bool
  tr_Stopper :: stop_pc
  tr_Signal :: bool
  tr_Resumed :: "nat list"

definition tls_new :: "bool \<Rightarrow> bool \<Rightarrow> bool \<Rightarrow> tls" where
  "tls_new client stop retry = \<lparr>tl_Ec = no_error, tl_Requested = False, tl_Flag = 0, tl_Client = client, tl_Retry = retry,
     tl_Delay = 1, tl_Handle = None, tl_Stop = stop\<rparr>"

text \<open>Registering the stop callback and setting the counter.\<close>

definition tls_ready :: "bool \<Rightarrow> tls \<Rightarrow> tls_run" where
  "tls_ready early t = \<lparr>tr_Tls = t\<lparr>tl_Requested := tl_Stop t \<and> early, tl_Flag := 2\<rparr>, tr_Init = N_New, tr_Open = O_None,
     tr_Hs = K_None, tr_Timer = False, tr_Stopper = (if tl_Stop t \<and> early then S_Done else S_None), tr_Signal = False, tr_Resumed = []\<rparr>"

definition tls_emit :: "tls_run \<Rightarrow> tls_run" where
  "tls_emit r = (if tr_Open r = O_Flying \<or> tr_Hs r = K_Flying \<or> tr_Timer r then r\<lparr>tr_Signal := True\<rparr> else r)"

definition tls_check :: "tls_run \<Rightarrow> tls_run" where
  "tls_check r = (if tl_Stop (tr_Tls r) \<and> tl_Requested (tr_Tls r) then tls_emit r else r)"

definition tls_await_suspend :: "nat \<Rightarrow> tls_run \<Rightarrow> fault + tls_run" where
  "tls_await_suspend h r = Inr (r\<lparr>tr_Tls := (tr_Tls r)\<lparr>tl_Handle := Some h\<rparr>, tr_Init := N_Started, tr_Open := O_Flying,
     tr_Hs := K_None, tr_Signal := False\<rparr>)"

definition tls_resume :: "tls_run \<Rightarrow> fault + tls_run" where
  "tls_resume r = (case tl_Handle (tr_Tls r) of None \<Rightarrow> Inl Bad_Pointer
     | Some h \<Rightarrow> Inr (r\<lparr>tr_Tls := (tr_Tls r)\<lparr>tl_Handle := (if tl_Client (tr_Tls r) then None else Some h)\<rparr>,
         tr_Resumed := tr_Resumed r @ [h]\<rparr>))"

definition tls_retry :: "tls_run \<Rightarrow> tls_run" where
  "tls_retry r = tls_check (r\<lparr>tr_Timer := True, tr_Signal := False\<rparr>)"

definition tls_open_end :: "error_code \<Rightarrow> tls_run \<Rightarrow> fault + tls_run" where
  "tls_open_end refused r = (if tl_Client (tr_Tls r) \<and> tl_Ec (tr_Tls r) = refused \<and> tl_Retry (tr_Tls r)
     then Inr (tls_retry r) else tls_resume r)"

definition tls_sub :: "int \<Rightarrow> tls_run \<Rightarrow> tls_run" where
  "tls_sub k r = r\<lparr>tr_Tls := (tr_Tls r)\<lparr>tl_Flag := tl_Flag (tr_Tls r) - k\<rparr>\<rparr>"

definition tls_init_check :: "tls_run \<Rightarrow> fault + tls_run" where
  "tls_init_check r = Inr ((tls_check r)\<lparr>tr_Init := N_Checked\<rparr>)"

definition tls_init_dec :: "tls_run \<Rightarrow> fault + tls_run" where
  "tls_init_dec r = (let r' = (tls_sub 1 r)\<lparr>tr_Init := N_Done\<rparr> in
     if tl_Flag (tr_Tls r) = 0 then tls_resume r' else Inr r')"

text \<open>The handler of the plain connection: store the code and, if there is no error, start the handshake.\<close>

definition tls_opened :: "error_code \<Rightarrow> tls_run \<Rightarrow> fault + tls_run" where
  "tls_opened ec r = (let r = r\<lparr>tr_Tls := (tr_Tls r)\<lparr>tl_Ec := ec\<rparr>\<rparr> in
     Inr (if is_error ec then r\<lparr>tr_Open := O_Failed\<rparr> else r\<lparr>tr_Open := O_Shaking, tr_Hs := K_Flying, tr_Signal := False\<rparr>))"

definition tls_failed :: "error_code \<Rightarrow> tls_run \<Rightarrow> fault + tls_run" where
  "tls_failed refused r = (let r' = (tls_sub 2 r)\<lparr>tr_Open := O_Done_Failed\<rparr> in
     if tl_Flag (tr_Tls r') < 0 then tls_open_end refused r' else Inr r')"

definition tls_open_check :: "tls_run \<Rightarrow> fault + tls_run" where
  "tls_open_check r = Inr ((tls_check r)\<lparr>tr_Open := O_Checked\<rparr>)"

definition tls_open_dec :: "error_code \<Rightarrow> tls_run \<Rightarrow> fault + tls_run" where
  "tls_open_dec refused r = (let r' = (tls_sub 1 r)\<lparr>tr_Open := O_Done\<rparr> in
     if tl_Flag (tr_Tls r) = 0 then tls_open_end refused r' else Inr r')"

definition tls_shaken :: "error_code \<Rightarrow> tls_run \<Rightarrow> fault + tls_run" where
  "tls_shaken ec r = Inr (r\<lparr>tr_Tls := (tr_Tls r)\<lparr>tl_Ec := ec\<rparr>, tr_Hs := K_Stored\<rparr>)"

definition tls_shaken_dec :: "tls_run \<Rightarrow> fault + tls_run" where
  "tls_shaken_dec r = (let r' = (tls_sub 1 r)\<lparr>tr_Hs := K_Done\<rparr> in
     if tl_Flag (tr_Tls r) = 0 then tls_resume r' else Inr r')"

definition tls_timer :: "tls_run \<Rightarrow> fault + tls_run" where
  "tls_timer r = (case tl_Handle (tr_Tls r) of None \<Rightarrow> Inl Bad_Pointer | Some h \<Rightarrow>
     tls_await_suspend h (r\<lparr>tr_Tls := (tr_Tls r)\<lparr>tl_Flag := 2, tl_Delay := min (tl_Delay (tr_Tls r) * 2) 1000\<rparr>, tr_Timer := False\<rparr>))"

definition tls_stop_set :: "tls_run \<Rightarrow> fault + tls_run" where
  "tls_stop_set r = Inr (r\<lparr>tr_Tls := (tr_Tls r)\<lparr>tl_Requested := True\<rparr>, tr_Stopper := S_Set\<rparr>)"

definition tls_stop_emit :: "tls_run \<Rightarrow> fault + tls_run" where
  "tls_stop_emit r = Inr ((tls_emit r)\<lparr>tr_Stopper := S_Done\<rparr>)"

datatype tls_act = Tls_Suspend nat | Tls_Check | Tls_Init_Dec | Tls_Opened error_code | Tls_Failed | Tls_Open_Check | Tls_Open_Dec
  | Tls_Shaken error_code | Tls_Shaken_Dec | Tls_Timer | Tls_Stop_Set | Tls_Stop_Emit

fun tls_perform :: "error_code \<Rightarrow> tls_act \<Rightarrow> tls_run \<Rightarrow> fault + tls_run" where
  "tls_perform refused (Tls_Suspend h) r = tls_await_suspend h r"
| "tls_perform refused Tls_Check r = tls_init_check r"
| "tls_perform refused Tls_Init_Dec r = tls_init_dec r"
| "tls_perform refused (Tls_Opened ec) r = tls_opened ec r"
| "tls_perform refused Tls_Failed r = tls_failed refused r"
| "tls_perform refused Tls_Open_Check r = tls_open_check r"
| "tls_perform refused Tls_Open_Dec r = tls_open_dec refused r"
| "tls_perform refused (Tls_Shaken ec) r = tls_shaken ec r"
| "tls_perform refused Tls_Shaken_Dec r = tls_shaken_dec r"
| "tls_perform refused Tls_Timer r = tls_timer r"
| "tls_perform refused Tls_Stop_Set r = tls_stop_set r"
| "tls_perform refused Tls_Stop_Emit r = tls_stop_emit r"

fun tls_enabled :: "tls_act \<Rightarrow> tls_run \<Rightarrow> bool" where
  "tls_enabled (Tls_Suspend h) r \<longleftrightarrow> tr_Init r = N_New"
| "tls_enabled Tls_Check r \<longleftrightarrow> tr_Init r = N_Started"
| "tls_enabled Tls_Init_Dec r \<longleftrightarrow> tr_Init r = N_Checked"
| "tls_enabled (Tls_Opened ec) r \<longleftrightarrow> tr_Open r = O_Flying"
| "tls_enabled Tls_Failed r \<longleftrightarrow> tr_Open r = O_Failed"
| "tls_enabled Tls_Open_Check r \<longleftrightarrow> tr_Open r = O_Shaking"
| "tls_enabled Tls_Open_Dec r \<longleftrightarrow> tr_Open r = O_Checked"
| "tls_enabled (Tls_Shaken ec) r \<longleftrightarrow> tr_Hs r = K_Flying"
| "tls_enabled Tls_Shaken_Dec r \<longleftrightarrow> tr_Hs r = K_Stored"
| "tls_enabled Tls_Timer r \<longleftrightarrow> tr_Timer r"
| "tls_enabled Tls_Stop_Set r \<longleftrightarrow> tr_Stopper r = S_None \<and> tl_Stop (tr_Tls r)"
| "tls_enabled Tls_Stop_Emit r \<longleftrightarrow> tr_Stopper r = S_Set"

inductive tls_reach :: "error_code \<Rightarrow> bool \<Rightarrow> bool \<Rightarrow> tls_run \<Rightarrow> bool" for refused client retry where
  tls_reach_start: "tls_reach refused client retry (tls_ready early (tls_new client stop retry))"
| tls_reach_step: "tls_reach refused client retry r \<Longrightarrow> tls_enabled a r \<Longrightarrow> tls_perform refused a r = Inr r' \<Longrightarrow> tls_reach refused client retry r'"

text \<open>How far the counter has come down.\<close>

definition arrivals :: "tls_run \<Rightarrow> int" where
  "arrivals r = (if tr_Init r = N_Done then 1 else 0) + (case tr_Open r of O_Done \<Rightarrow> 1 | O_Done_Failed \<Rightarrow> 2 | _ \<Rightarrow> 0)
     + (if tr_Hs r = K_Done then 1 else 0)"

definition tls_inv :: "error_code \<Rightarrow> bool \<Rightarrow> bool \<Rightarrow> tls_run \<Rightarrow> bool" where
  "tls_inv refused client retry r \<longleftrightarrow> tl_Flag (tr_Tls r) = 2 - arrivals r \<and> tl_Client (tr_Tls r) = client \<and> tl_Retry (tr_Tls r) = retry
     \<and> (tr_Init r = N_New \<longleftrightarrow> tr_Open r = O_None)
     \<and> (tr_Hs r = K_None \<longleftrightarrow> tr_Open r \<in> {O_None, O_Flying, O_Failed, O_Done_Failed})
     \<and> (arrivals r < 3 \<longrightarrow> \<not> tr_Timer r \<and> tr_Resumed r = [])
     \<and> (arrivals r = 3 \<longrightarrow> (if tr_Timer r then tr_Resumed r = [] else (\<exists>h. tr_Resumed r = [h])))
     \<and> (tr_Resumed r = [] \<and> tr_Init r \<noteq> N_New \<longrightarrow> tl_Handle (tr_Tls r) \<noteq> None)
     \<and> (tl_Requested (tr_Tls r) \<longrightarrow> tl_Stop (tr_Tls r))
     \<and> (tr_Timer r \<longrightarrow> client \<and> retry \<and> tl_Ec (tr_Tls r) = refused)"


lemma tls_invD:
  assumes "tls_inv refused client retry r"
  shows "tl_Flag (tr_Tls r) = 2 - arrivals r" and "tl_Client (tr_Tls r) = client" and "tl_Retry (tr_Tls r) = retry"
    and "tr_Init r = N_New \<longleftrightarrow> tr_Open r = O_None"
    and "tr_Hs r = K_None \<longleftrightarrow> tr_Open r \<in> {O_None, O_Flying, O_Failed, O_Done_Failed}"
    and "arrivals r < 3 \<longrightarrow> \<not> tr_Timer r \<and> tr_Resumed r = []"
    and "arrivals r = 3 \<longrightarrow> (if tr_Timer r then tr_Resumed r = [] else (\<exists>h. tr_Resumed r = [h]))"
    and "tr_Resumed r = [] \<and> tr_Init r \<noteq> N_New \<longrightarrow> tl_Handle (tr_Tls r) \<noteq> None"
    and "tl_Requested (tr_Tls r) \<longrightarrow> tl_Stop (tr_Tls r)"
    and "tr_Timer r \<longrightarrow> client \<and> retry \<and> tl_Ec (tr_Tls r) = refused"
  using assms unfolding tls_inv_def by (fast elim: conjE)+

lemma tls_emit_fields [simp]:
  "tr_Tls (tls_emit r) = tr_Tls r" "tr_Init (tls_emit r) = tr_Init r" "tr_Open (tls_emit r) = tr_Open r" "tr_Hs (tls_emit r) = tr_Hs r"
  "tr_Timer (tls_emit r) = tr_Timer r" "tr_Stopper (tls_emit r) = tr_Stopper r" "tr_Resumed (tls_emit r) = tr_Resumed r"
  by (simp_all add: tls_emit_def)

lemma tls_check_fields [simp]:
  "tr_Tls (tls_check r) = tr_Tls r" "tr_Init (tls_check r) = tr_Init r" "tr_Open (tls_check r) = tr_Open r" "tr_Hs (tls_check r) = tr_Hs r"
  "tr_Timer (tls_check r) = tr_Timer r" "tr_Stopper (tls_check r) = tr_Stopper r" "tr_Resumed (tls_check r) = tr_Resumed r"
  by (simp_all add: tls_check_def)

lemma arrivals_le:
  assumes "tls_inv refused client retry r"
  shows "arrivals r \<le> 3"
  using tls_invD(4,5) [OF assms] by (cases "tr_Open r"; cases "tr_Hs r"; cases "tr_Init r") (simp_all add: arrivals_def)

text \<open>One of the three comes down by \<open>k\<close>; the last one resumes or, where it may, tries again.\<close>

lemma tls_arrive:
  assumes inv: "tls_inv refused client retry r" and open_: "arrivals r < 3" and some: "tr_Init r \<noteq> N_New"
    and k: "arrivals r' = arrivals r + k" "arrivals r + k \<le> 3"
    and r': "tr_Tls r' = (tr_Tls r)\<lparr>tl_Flag := tl_Flag (tr_Tls r) - k\<rparr>" "tr_Timer r' = tr_Timer r" "tr_Resumed r' = tr_Resumed r"
    and pcs: "tr_Init r' = N_New \<longleftrightarrow> tr_Open r' = O_None"
      "tr_Hs r' = K_None \<longleftrightarrow> tr_Open r' \<in> {O_None, O_Flying, O_Failed, O_Done_Failed}"
  shows "arrivals r + k < 3 \<Longrightarrow> tls_inv refused client retry r'"
    and "arrivals r + k = 3 \<Longrightarrow> \<exists>t. tls_resume r' = Inr t \<and> tls_inv refused client retry t \<and> \<not> tr_Timer t"
    and "arrivals r + k = 3 \<Longrightarrow> \<exists>t. tls_open_end refused r' = Inr t \<and> tls_inv refused client retry t
       \<and> (tr_Timer t \<longleftrightarrow> client \<and> tl_Ec (tr_Tls r) = refused \<and> retry)"
proof -
  note D = tls_invD [OF inv]
  have idle: "\<not> tr_Timer r'" "tr_Resumed r' = []" using D(6) open_ r'(2,3) by simp_all
  obtain h where h: "tl_Handle (tr_Tls r) = Some h" using D(6,8) open_ some by auto
  have flag: "tl_Flag (tr_Tls r') = 2 - arrivals r'" using D(1) k(1) r'(1) by simp
  show "arrivals r + k < 3 \<Longrightarrow> tls_inv refused client retry r'"
    unfolding tls_inv_def using flag idle h D(2,3,9) r'(1) k pcs by simp
  have resume: "\<exists>t. tls_resume r' = Inr t \<and> tls_inv refused client retry t \<and> \<not> tr_Timer t" if 3: "arrivals r + k = 3"
  proof -
    let ?t = "r'\<lparr>tr_Tls := (tr_Tls r')\<lparr>tl_Handle := (if client then None else Some h)\<rparr>, tr_Resumed := [h]\<rparr>"
    have "tls_resume r' = Inr ?t" using h idle r'(1) D(2) by (simp add: tls_resume_def)
    moreover have "arrivals ?t = 3" using 3 k(1) by (simp add: arrivals_def)
    then have "tls_inv refused client retry ?t"
      unfolding tls_inv_def using flag idle D(2,3,9) r'(1) k 3 pcs by simp
    ultimately show ?thesis using idle by simp
  qed
  then show "arrivals r + k = 3 \<Longrightarrow> \<exists>t. tls_resume r' = Inr t \<and> tls_inv refused client retry t \<and> \<not> tr_Timer t" .
  assume 3: "arrivals r + k = 3"
  show "\<exists>t. tls_open_end refused r' = Inr t \<and> tls_inv refused client retry t
       \<and> (tr_Timer t \<longleftrightarrow> client \<and> tl_Ec (tr_Tls r) = refused \<and> retry)"
  proof (cases "client \<and> tl_Ec (tr_Tls r) = refused \<and> retry")
    case True
    have "tls_open_end refused r' = Inr (tls_retry r')" using True r'(1) D(2,3) by (simp add: tls_open_end_def)
    moreover have "arrivals (tls_retry r') = 3" using 3 k(1) by (simp add: arrivals_def tls_retry_def)
    then have "tls_inv refused client retry (tls_retry r')"
      unfolding tls_inv_def using flag idle h D(2,3,9) r'(1) k 3 pcs True by (simp add: tls_retry_def)
    ultimately show ?thesis using True by (simp add: tls_retry_def)
  next
    case False
    then have eq: "tls_open_end refused r' = tls_resume r'" using r'(1) D(2,3) by (auto simp: tls_open_end_def)
    show ?thesis unfolding eq using resume [OF 3] False by blast
  qed
qed


lemma tls_arrive_step:
  assumes "tls_inv refused client retry r" and "arrivals r < 3" and "tr_Init r \<noteq> N_New"
    and "arrivals r' = arrivals r + k" "arrivals r + k \<le> 3"
    and "tr_Tls r' = (tr_Tls r)\<lparr>tl_Flag := tl_Flag (tr_Tls r) - k\<rparr>" "tr_Timer r' = tr_Timer r" "tr_Resumed r' = tr_Resumed r"
    and "tr_Init r' = N_New \<longleftrightarrow> tr_Open r' = O_None"
      "tr_Hs r' = K_None \<longleftrightarrow> tr_Open r' \<in> {O_None, O_Flying, O_Failed, O_Done_Failed}"
  shows "\<exists>t. (if arrivals r + k = 3 then tls_resume r' else Inr r') = Inr t \<and> tls_inv refused client retry t"
    and "\<exists>t. (if arrivals r + k = 3 then tls_open_end refused r' else Inr r') = Inr t \<and> tls_inv refused client retry t"
  using tls_arrive [OF assms] assms(5) by (cases "arrivals r + k = 3"; auto)+

text \<open>Steps that change neither the counter nor who has arrived.\<close>

lemma tls_inv_quiet:
  assumes inv: "tls_inv refused client retry r"
    and "tr_Tls r' = tr_Tls r \<or> tr_Tls r' = (tr_Tls r)\<lparr>tl_Requested := True\<rparr> \<and> tl_Stop (tr_Tls r)"
    and "tr_Timer r' = tr_Timer r" "tr_Resumed r' = tr_Resumed r" "tr_Open r' = tr_Open r" "tr_Hs r' = tr_Hs r"
    and "tr_Init r' = tr_Init r \<or> tr_Init r \<in> {N_Started, N_Checked} \<and> tr_Init r' \<in> {N_Started, N_Checked}"
  shows "tls_inv refused client retry r'"
proof -
  note D = tls_invD [OF inv]
  have "arrivals r' = arrivals r" using assms(5-7) by (elim disjE) (auto simp: arrivals_def)
  moreover have "tr_Init r' = N_New \<longleftrightarrow> tr_Init r = N_New" using assms(7) by auto
  moreover have "tl_Flag (tr_Tls r') = tl_Flag (tr_Tls r)" "tl_Client (tr_Tls r') = tl_Client (tr_Tls r)"
    "tl_Retry (tr_Tls r') = tl_Retry (tr_Tls r)" "tl_Handle (tr_Tls r') = tl_Handle (tr_Tls r)"
    "tl_Ec (tr_Tls r') = tl_Ec (tr_Tls r)" "tl_Stop (tr_Tls r') = tl_Stop (tr_Tls r)"
    "tl_Requested (tr_Tls r') \<longrightarrow> tl_Stop (tr_Tls r)"
    using assms(2) D(9) by auto
  ultimately show ?thesis unfolding tls_inv_def using D assms(3-6) by (simp only:)
qed

text \<open>Storing an outcome before the handler of the plain connection or of the handshake is through.\<close>

lemma tls_inv_ec:
  assumes inv: "tls_inv refused client retry r" and "arrivals r < 3" and "tr_Init r \<noteq> N_New" and "arrivals r' = arrivals r"
    and "tr_Tls r' = (tr_Tls r)\<lparr>tl_Ec := ec\<rparr>" "tr_Timer r' = tr_Timer r" "tr_Resumed r' = tr_Resumed r" "tr_Init r' = tr_Init r"
    and "tr_Open r' \<noteq> O_None" "tr_Hs r' = K_None \<longleftrightarrow> tr_Open r' \<in> {O_None, O_Flying, O_Failed, O_Done_Failed}"
  shows "tls_inv refused client retry r'"
proof -
  note D = tls_invD [OF inv]
  have "\<not> tr_Timer r" "tr_Resumed r = []" using D(6) assms(2) by simp_all
  then show ?thesis unfolding tls_inv_def using D(1-3,8,9) assms by simp
qed

lemma tls_step_ok:
  assumes inv: "tls_inv refused client retry r" and en: "tls_enabled a r"
  shows "\<exists>r'. tls_perform refused a r = Inr r' \<and> tls_inv refused client retry r'"
proof -
  note D = tls_invD [OF inv]
  note quiet = tls_inv_quiet [OF inv]
  show ?thesis
  proof (cases a)
    case (Tls_Suspend h)
    then have pcs: "tr_Init r = N_New" "tr_Open r = O_None" "tr_Hs r = K_None" using en D(4,5) by simp_all
    then have "arrivals r = 0" by (simp add: arrivals_def)
    then show ?thesis using Tls_Suspend pcs D by (simp add: tls_await_suspend_def tls_inv_def arrivals_def)
  next
    case Tls_Check
    then show ?thesis using quiet [of "(tls_check r)\<lparr>tr_Init := N_Checked\<rparr>"] en by (simp add: tls_init_check_def)
  next
    case Tls_Init_Dec
    then have I: "tr_Init r = N_Checked" using en by simp
    let ?r' = "(tls_sub 1 r)\<lparr>tr_Init := N_Done\<rparr>"
    have k: "arrivals ?r' = arrivals r + 1" "arrivals r < 3" "arrivals r + 1 \<le> 3"
      using I D(5) by (cases "tr_Open r"; simp add: arrivals_def tls_sub_def)+
    have pcs: "tr_Open r \<noteq> O_None" using I D(4) by simp
    have "tl_Flag (tr_Tls r) = 0 \<longleftrightarrow> arrivals r + 1 = 3" using D(1) by auto
    moreover have "\<exists>t. (if arrivals r + 1 = 3 then tls_resume ((tls_sub 1 r)\<lparr>tr_Init := N_Done\<rparr>) else Inr ((tls_sub 1 r)\<lparr>tr_Init := N_Done\<rparr>)) = Inr t \<and> tls_inv refused client retry t"
      by (rule tls_arrive_step(1) [OF inv k(2) _ k(1,3)]) (use I pcs D(5) in \<open>simp_all add: tls_sub_def\<close>)
    ultimately show ?thesis unfolding Tls_Init_Dec by (simp only: tls_perform.simps tls_init_dec_def Let_def)
  next
    case Tls_Stop_Set
    then show ?thesis using quiet [of "r\<lparr>tr_Tls := (tr_Tls r)\<lparr>tl_Requested := True\<rparr>, tr_Stopper := S_Set\<rparr>"] en by (simp add: tls_stop_set_def)
  next
    case Tls_Stop_Emit
    then show ?thesis using quiet [of "(tls_emit r)\<lparr>tr_Stopper := S_Done\<rparr>"] by (simp add: tls_stop_emit_def)
  next
    case Tls_Timer
    then have T: "tr_Timer r" using en by simp
    then have 3: "arrivals r = 3" "tr_Resumed r = []" using D(6,7) arrivals_le [OF inv] by auto
    then have "tr_Init r \<noteq> N_New" using D(4,5) by (auto simp: arrivals_def split: if_splits open_pc.splits)
    then obtain h where "tl_Handle (tr_Tls r) = Some h" using D(8) 3 by blast
    then show ?thesis using Tls_Timer 3 D(2,3,9) by (simp add: tls_timer_def tls_await_suspend_def tls_inv_def arrivals_def)
  next
    case (Tls_Opened ec)
    then have O: "tr_Open r = O_Flying" "tr_Hs r = K_None" "tr_Init r \<noteq> N_New" using en D(4,5) by simp_all
    then have a: "arrivals r < 3" by (simp add: arrivals_def)
    show ?thesis
    proof (cases "is_error ec")
      case True
      then have "tls_inv refused client retry (r\<lparr>tr_Tls := (tr_Tls r)\<lparr>tl_Ec := ec\<rparr>, tr_Open := O_Failed\<rparr>)"
        using O by (intro tls_inv_ec [OF inv a O(3)]) (simp_all add: arrivals_def)
      then show ?thesis using Tls_Opened True by (simp add: tls_opened_def Let_def)
    next
      case False
      then have "tls_inv refused client retry (r\<lparr>tr_Tls := (tr_Tls r)\<lparr>tl_Ec := ec\<rparr>, tr_Open := O_Shaking, tr_Hs := K_Flying, tr_Signal := False\<rparr>)"
        using O by (intro tls_inv_ec [OF inv a O(3)]) (simp_all add: arrivals_def)
      then show ?thesis using Tls_Opened False by (simp add: tls_opened_def Let_def)
    qed
  next
    case Tls_Failed
    then have O: "tr_Open r = O_Failed" "tr_Hs r = K_None" "tr_Init r \<noteq> N_New" using en D(4,5) by simp_all
    then have k: "arrivals ((tls_sub 2 r)\<lparr>tr_Open := O_Done_Failed\<rparr>) = arrivals r + 2" "arrivals r < 3" "arrivals r + 2 \<le> 3"
      by (simp_all add: arrivals_def tls_sub_def)
    have flag: "tl_Flag (tr_Tls ((tls_sub 2 r)\<lparr>tr_Open := O_Done_Failed\<rparr>)) < 0 \<longleftrightarrow> arrivals r + 2 = 3"
      using D(1) k(3) by (auto simp: tls_sub_def)
    moreover have "\<exists>t. (if arrivals r + 2 = 3 then tls_open_end refused ((tls_sub 2 r)\<lparr>tr_Open := O_Done_Failed\<rparr>) else Inr ((tls_sub 2 r)\<lparr>tr_Open := O_Done_Failed\<rparr>)) = Inr t \<and> tls_inv refused client retry t"
      by (rule tls_arrive_step(2) [OF inv k(2) _ k(1,3)]) (use O in \<open>simp_all add: tls_sub_def\<close>)
    ultimately show ?thesis unfolding Tls_Failed by (simp only: tls_perform.simps tls_failed_def Let_def flag)
  next
    case Tls_Open_Check
    then have O: "tr_Open r = O_Shaking" "tr_Hs r \<noteq> K_None" "tr_Init r \<noteq> N_New" using en D(4,5) by simp_all
    let ?r' = "(tls_check r)\<lparr>tr_Open := O_Checked\<rparr>"
    have a: "arrivals r < 3" using O by (simp add: arrivals_def)
    have "tls_inv refused client retry ?r'"
      using O by (intro tls_inv_ec [OF inv a O(3), where ec = "tl_Ec (tr_Tls r)"]) (simp_all add: arrivals_def)
    then show ?thesis using Tls_Open_Check by (simp add: tls_open_check_def)
  next
    case Tls_Open_Dec
    then have O: "tr_Open r = O_Checked" "tr_Hs r \<noteq> K_None" "tr_Init r \<noteq> N_New" using en D(4,5) by simp_all
    then have k: "arrivals ((tls_sub 1 r)\<lparr>tr_Open := O_Done\<rparr>) = arrivals r + 1" "arrivals r < 3" "arrivals r + 1 \<le> 3"
      by (simp_all add: arrivals_def tls_sub_def)
    have "tl_Flag (tr_Tls r) = 0 \<longleftrightarrow> arrivals r + 1 = 3" using D(1) by auto
    moreover have "\<exists>t. (if arrivals r + 1 = 3 then tls_open_end refused ((tls_sub 1 r)\<lparr>tr_Open := O_Done\<rparr>) else Inr ((tls_sub 1 r)\<lparr>tr_Open := O_Done\<rparr>)) = Inr t \<and> tls_inv refused client retry t"
      by (rule tls_arrive_step(2) [OF inv k(2) _ k(1,3)]) (use O in \<open>simp_all add: tls_sub_def\<close>)
    ultimately show ?thesis unfolding Tls_Open_Dec by (simp only: tls_perform.simps tls_open_dec_def Let_def)
  next
    case (Tls_Shaken ec)
    then have O: "tr_Hs r = K_Flying" "tr_Open r \<notin> {O_None, O_Flying, O_Failed, O_Done_Failed}" "tr_Init r \<noteq> N_New"
      using en D(4,5) by auto
    have a: "arrivals r < 3" using O by (simp add: arrivals_def split: open_pc.splits)
    have "tls_inv refused client retry (r\<lparr>tr_Tls := (tr_Tls r)\<lparr>tl_Ec := ec\<rparr>, tr_Hs := K_Stored\<rparr>)"
      using O by (intro tls_inv_ec [OF inv a O(3)]) (simp_all add: arrivals_def)
    then show ?thesis using Tls_Shaken by (simp add: tls_shaken_def)
  next
    case Tls_Shaken_Dec
    then have O: "tr_Hs r = K_Stored" "tr_Open r \<notin> {O_None, O_Flying, O_Failed, O_Done_Failed}" "tr_Init r \<noteq> N_New"
      using en D(4,5) by auto
    then have k: "arrivals ((tls_sub 1 r)\<lparr>tr_Hs := K_Done\<rparr>) = arrivals r + 1" "arrivals r < 3" "arrivals r + 1 \<le> 3"
      by (simp_all add: arrivals_def tls_sub_def split: open_pc.splits)
    have "tl_Flag (tr_Tls r) = 0 \<longleftrightarrow> arrivals r + 1 = 3" using D(1) by auto
    moreover have "\<exists>t. (if arrivals r + 1 = 3 then tls_resume ((tls_sub 1 r)\<lparr>tr_Hs := K_Done\<rparr>) else Inr ((tls_sub 1 r)\<lparr>tr_Hs := K_Done\<rparr>)) = Inr t \<and> tls_inv refused client retry t"
      by (rule tls_arrive_step(1) [OF inv k(2) _ k(1,3)]) (use O D(4) in \<open>simp_all add: tls_sub_def\<close>)
    ultimately show ?thesis unfolding Tls_Shaken_Dec by (simp only: tls_perform.simps tls_shaken_dec_def Let_def)
  qed
qed


lemma tls_reach_inv: "tls_reach refused client retry r \<Longrightarrow> tls_inv refused client retry r"
proof (induction rule: tls_reach.induct)
  case (tls_reach_start early stop)
  show ?case by (simp add: tls_inv_def tls_ready_def tls_new_def arrivals_def)
next
  case (tls_reach_step r a r')
  then show ?case using tls_step_ok [of refused client retry r a] by auto
qed

definition tls_over :: "tls_run \<Rightarrow> bool" where
  "tls_over r \<longleftrightarrow> tr_Init r = N_Done \<and> (tr_Open r = O_Done_Failed \<or> tr_Open r = O_Done \<and> tr_Hs r = K_Done) \<and> \<not> tr_Timer r"

definition tls_acts :: "nat \<Rightarrow> error_code \<Rightarrow> tls_act list" where
  "tls_acts h ec = [Tls_Suspend h, Tls_Check, Tls_Init_Dec, Tls_Opened ec, Tls_Failed, Tls_Open_Check, Tls_Open_Dec,
     Tls_Shaken ec, Tls_Shaken_Dec, Tls_Timer]"

lemma tls_not_stuck:
  "tls_inv refused client retry r \<Longrightarrow> \<not> tls_over r \<Longrightarrow> \<exists>a \<in> set (tls_acts h ec). tls_enabled a r"
  using tls_invD(4,5) [of refused client retry r]
  by (cases "tr_Init r"; cases "tr_Open r"; cases "tr_Hs r") (simp_all add: tls_acts_def tls_over_def)

lemma tls_over_arrivals:
  assumes "tls_inv refused client retry r"
  shows "tls_over r \<longleftrightarrow> arrivals r = 3 \<and> \<not> tr_Timer r"
  using tls_invD(4,5) [OF assms]
  by (cases "tr_Init r"; cases "tr_Open r"; cases "tr_Hs r") (simp_all add: tls_over_def arrivals_def)

lemma tls_resumed:
  assumes inv: "tls_inv refused client retry r"
  shows "length (tr_Resumed r) = (if tls_over r then 1 else 0)"
  using tls_invD(6,7) [OF inv] tls_over_arrivals [OF inv] arrivals_le [OF inv] by (cases "arrivals r < 3") auto

text \<open>A refused connection whose handler comes before the initiator.\<close>

lemma tls_early_refusal:
  assumes inv: "tls_inv refused client retry r" and r: "tr_Open r = O_Failed" "tr_Init r = N_Checked"
  shows "\<exists>r1 r2. tls_failed refused r = Inr r1 \<and> tls_init_dec r1 = Inr r2 \<and> tls_over r2 \<and> tl_Ec (tr_Tls r2) = tl_Ec (tr_Tls r)"
proof -
  note D = tls_invD [OF inv]
  have hs: "tr_Hs r = K_None" using D(5) r(1) by simp
  have flag: "tl_Flag (tr_Tls r) = 2" using D(1) r hs by (simp add: arrivals_def)
  have "\<not> tr_Timer r" "tr_Resumed r = []" using D(6) r hs by (simp_all add: arrivals_def)
  moreover obtain h where "tl_Handle (tr_Tls r) = Some h" using D(8) r calculation by auto
  ultimately show ?thesis using flag r
    by (simp add: tls_failed_def tls_init_dec_def tls_sub_def tls_resume_def tls_over_def Let_def)
qed

fun tls_exec :: "error_code \<Rightarrow> tls_act list \<Rightarrow> tls_run \<Rightarrow> tls_run option" where
  "tls_exec refused [] r = Some r"
| "tls_exec refused (a # as) r = (if tls_enabled a r
     then (case tls_perform refused a r of Inl _ \<Rightarrow> None | Inr r' \<Rightarrow> tls_exec refused as r') else None)"

lemma tls_exec_reach: "tls_reach refused client retry r \<Longrightarrow> tls_exec refused as r = Some r' \<Longrightarrow> tls_reach refused client retry r'"
  by (induction as arbitrary: r) (auto split: if_splits sum.splits intro: tls_reach_step)

section \<open>The properties\<close>


text \<open>The first attempt is refused and the second one succeeds.\<close>

definition demo_connect :: "conn_act list" where
  "demo_connect = [Conn_Suspend 7, Conn_Complete (make_error_code IoError), Conn_Check, Conn_Cb_Exchange, Conn_Exchange,
     Conn_Timer, Conn_Check, Conn_Exchange, Conn_Complete no_error, Conn_Cb_Exchange]"


text \<open>
  C39. TLS: however the initiator, the handler of the plain connection and the handler of the handshake
  interleave, with errors at any point, the coroutine is resumed exactly once, after the last of them,
  and until then some thread can go on; no step fails. But a refusal that is handled before the
  initiator is through is not retried: the coroutine is resumed with the error.
\<close>

theorem tls_ends_once:
  assumes "tls_reach refused client retry r"
  shows "length (tr_Resumed r) = (if tls_over r then 1 else 0)
     \<and> (\<not> tls_over r \<longrightarrow> (\<exists>a \<in> set (tls_acts h ec). tls_enabled a r))
     \<and> (tls_enabled a r \<longrightarrow> (\<exists>r'. tls_perform refused a r = Inr r'))
     \<and> (tr_Timer r \<longrightarrow> client \<and> retry \<and> tl_Ec (tr_Tls r) = refused)
     \<and> (tr_Open r = O_Failed \<and> tr_Init r = N_Checked \<longrightarrow> (\<exists>r1 r2. tls_perform refused Tls_Failed r = Inr r1
          \<and> tls_perform refused Tls_Init_Dec r1 = Inr r2 \<and> tls_over r2 \<and> tl_Ec (tr_Tls r2) = tl_Ec (tr_Tls r)))"
proof -
  have inv: "tls_inv refused client retry r" by (rule tls_reach_inv [OF assms])
  have "\<not> tls_over r \<longrightarrow> (\<exists>a \<in> set (tls_acts h ec). tls_enabled a r)" using tls_not_stuck [OF inv, of h ec] by blast
  moreover have "tls_enabled a r \<longrightarrow> (\<exists>r'. tls_perform refused a r = Inr r')" using tls_step_ok [OF inv, of a] by blast
  moreover have "tr_Open r = O_Failed \<and> tr_Init r = N_Checked \<longrightarrow> (\<exists>r1 r2. tls_perform refused Tls_Failed r = Inr r1
          \<and> tls_perform refused Tls_Init_Dec r1 = Inr r2 \<and> tls_over r2 \<and> tl_Ec (tr_Tls r2) = tl_Ec (tr_Tls r))"
    using tls_early_refusal [OF inv] by simp
  ultimately show ?thesis using tls_resumed [OF inv] tls_invD(10) [OF inv] by (intro conjI)
qed

text \<open>A client whose connection is refused before the initiator has tested for a stop request.\<close>

definition demo_tls :: "tls_act list" where
  "demo_tls = [Tls_Suspend 7, Tls_Opened (make_error_code IoError), Tls_Check, Tls_Failed, Tls_Init_Dec]"

theorem tls_ends_once_witness:
  "\<exists>r. tls_exec (make_error_code IoError) demo_tls (tls_ready False (tls_new True False True)) = Some r
     \<and> tl_Ec (tr_Tls r) = make_error_code IoError \<and> length (tr_Resumed r) = 1"
proof -
  let ?x = "tls_exec (make_error_code IoError) demo_tls (tls_ready False (tls_new True False True))"
  have c: "(case ?x of None \<Rightarrow> False | Some r \<Rightarrow> tr_Init r = N_Done \<and> tr_Open r = O_Done_Failed \<and> \<not> tr_Timer r
      \<and> tl_Ec (tr_Tls r) = make_error_code IoError)"
    by code_simp
  then obtain r where r: "?x = Some r" by (cases ?x) (simp only: option.case, blast)
  then have over: "tls_over r" "tl_Ec (tr_Tls r) = make_error_code IoError"
    using c by (simp_all only: r option.case tls_over_def) simp_all
  have "tls_reach (make_error_code IoError) True True r" by (rule tls_exec_reach [OF tls_reach_start r])
  then have "length (tr_Resumed r) = 1" using tls_ends_once [of "make_error_code IoError" True True r] over by simp
  then show ?thesis using r over by blast
qed

end
