(* ===== verification/Asio_Accept.thy ===== *)
theory Asio_Accept
  imports Asio_Connect
begin

text \<open>
  The accepting side in \<^verbatim>\<open>coproto/Socket/AsioSocket.h\<close>: the awaiters of \<^verbatim>\<open>AsioAcceptor\<close> and
  \<^verbatim>\<open>AsioTlsAcceptor\<close>. The first one meets its handler in a flag if a stop is possible, and leaves
  all to the handler otherwise. The second one counts down with two handlers, and its runs are runs of
  the TLS connection of a party that never tries again.
\<close>

section \<open>Plain connections\<close>

record acc =
  ac_Ec :: error_code
  ac_Requested :: bool
  ac_Sync :: bool
  ac_Started :: bool
  ac_Stop :: bool

text \<open>\<open>ar_Handle\<close> is the coroutine that the handler has captured.\<close>

record acc_run =
  ar_Acc :: acc
  ar_Handle :: nat
  ar_Init :: conn_pc
  ar_Cb :: handler_pc
  ar_Stopper :: stop_pc
  ar_Signal :: bool
  ar_Resumed :: "nat list"

definition acc_new :: "bool \<Rightarrow> acc" where
  "acc_new stop = \<lparr>ac_Ec = no_error, ac_Requested = False, ac_Sync = False, ac_Started = False, ac_Stop = stop\<rparr>"

text \<open>The move constructor is meant to refuse an awaiter that was started, but nothing sets that flag.\<close>

definition acc_move :: "acc \<Rightarrow> fault + acc" where
  "acc_move a = (if ac_Started a then Inl Terminated
     else Inr (a\<lparr>ac_Requested := False, ac_Sync := False, ac_Started := False\<rparr>))"

text \<open>\<^verbatim>\<open>await_suspend\<close>: registering the stop callback, which runs at once on a stopped token.\<close>

definition acc_register :: "bool \<Rightarrow> nat \<Rightarrow> acc \<Rightarrow> fault + acc_run" where
  "acc_register early h a = checkR (\<not> (ac_Stop a \<and> ac_Requested a)) Assertion
     (Inr \<lparr>ar_Acc = a\<lparr>ac_Requested := ac_Stop a \<and> early\<rparr>, ar_Handle = h, ar_Init = N_New, ar_Cb = K_None,
        ar_Stopper = (if ac_Stop a \<and> early then S_Done else S_None), ar_Signal = False, ar_Resumed = []\<rparr>)"

text \<open>Starting the operation; without a stop token this is all that the initiator does.\<close>

definition acc_start :: "acc_run \<Rightarrow> fault + acc_run" where
  "acc_start r = Inr (r\<lparr>ar_Init := (if ac_Stop (ar_Acc r) then N_Started else N_Done), ar_Cb := K_Flying, ar_Signal := False\<rparr>)"

definition acc_emit :: "acc_run \<Rightarrow> acc_run" where
  "acc_emit r = (if ar_Cb r = K_Flying then r\<lparr>ar_Signal := True\<rparr> else r)"

definition acc_check_cancel :: "acc_run \<Rightarrow> fault + acc_run" where
  "acc_check_cancel r = Inr ((if ac_Requested (ar_Acc r) then acc_emit r else r)\<lparr>ar_Init := N_Checked\<rparr>)"

definition acc_resume :: "acc_run \<Rightarrow> acc_run" where
  "acc_resume r = r\<lparr>ar_Resumed := ar_Resumed r @ [ar_Handle r]\<rparr>"

definition acc_meet :: "acc_run \<Rightarrow> acc_run" where
  "acc_meet r = (let f = ac_Sync (ar_Acc r); r = r\<lparr>ar_Acc := (ar_Acc r)\<lparr>ac_Sync := True\<rparr>\<rparr> in if f then acc_resume r else r)"

definition acc_init_exchange :: "acc_run \<Rightarrow> fault + acc_run" where
  "acc_init_exchange r = Inr (acc_meet (r\<lparr>ar_Init := N_Done\<rparr>))"

definition acc_callback :: "error_code \<Rightarrow> acc_run \<Rightarrow> fault + acc_run" where
  "acc_callback ec r = Inr (r\<lparr>ar_Acc := (ar_Acc r)\<lparr>ac_Ec := ec\<rparr>, ar_Cb := K_Stored\<rparr>)"

definition acc_cb_exchange :: "acc_run \<Rightarrow> fault + acc_run" where
  "acc_cb_exchange r = (let r' = r\<lparr>ar_Cb := K_Done\<rparr> in Inr (if ac_Stop (ar_Acc r) then acc_meet r' else acc_resume r'))"

definition acc_stop_set :: "acc_run \<Rightarrow> fault + acc_run" where
  "acc_stop_set r = Inr (r\<lparr>ar_Acc := (ar_Acc r)\<lparr>ac_Requested := True\<rparr>, ar_Stopper := S_Set\<rparr>)"

definition acc_stop_emit :: "acc_run \<Rightarrow> fault + acc_run" where
  "acc_stop_emit r = Inr ((acc_emit r)\<lparr>ar_Stopper := S_Done\<rparr>)"

definition acc_await_resume :: "acc \<Rightarrow> exn + unit" where
  "acc_await_resume a = (if is_error (ac_Ec a) then Inl (sys_error (ac_Ec a)) else Inr ())"

datatype acc_act = Acc_Start | Acc_Check | Acc_Exchange | Acc_Complete error_code | Acc_Cb_Exchange | Acc_Stop_Set | Acc_Stop_Emit

fun acc_perform :: "acc_act \<Rightarrow> acc_run \<Rightarrow> fault + acc_run" where
  "acc_perform Acc_Start r = acc_start r"
| "acc_perform Acc_Check r = acc_check_cancel r"
| "acc_perform Acc_Exchange r = acc_init_exchange r"
| "acc_perform (Acc_Complete ec) r = acc_callback ec r"
| "acc_perform Acc_Cb_Exchange r = acc_cb_exchange r"
| "acc_perform Acc_Stop_Set r = acc_stop_set r"
| "acc_perform Acc_Stop_Emit r = acc_stop_emit r"

fun acc_enabled :: "acc_act \<Rightarrow> acc_run \<Rightarrow> bool" where
  "acc_enabled Acc_Start r \<longleftrightarrow> ar_Init r = N_New"
| "acc_enabled Acc_Check r \<longleftrightarrow> ar_Init r = N_Started"
| "acc_enabled Acc_Exchange r \<longleftrightarrow> ar_Init r = N_Checked"
| "acc_enabled (Acc_Complete ec) r \<longleftrightarrow> ar_Cb r = K_Flying"
| "acc_enabled Acc_Cb_Exchange r \<longleftrightarrow> ar_Cb r = K_Stored"
| "acc_enabled Acc_Stop_Set r \<longleftrightarrow> ar_Stopper r = S_None \<and> ac_Stop (ar_Acc r)"
| "acc_enabled Acc_Stop_Emit r \<longleftrightarrow> ar_Stopper r = S_Set"

inductive acc_reach :: "bool \<Rightarrow> nat \<Rightarrow> acc_run \<Rightarrow> bool" for stop h where
  acc_reach_start: "acc_register early h (acc_new stop) = Inr r \<Longrightarrow> acc_reach stop h r"
| acc_reach_step: "acc_reach stop h r \<Longrightarrow> acc_enabled a r \<Longrightarrow> acc_perform a r = Inr r' \<Longrightarrow> acc_reach stop h r'"

definition acc_over :: "acc_run \<Rightarrow> bool" where
  "acc_over r \<longleftrightarrow> ar_Init r = N_Done \<and> ar_Cb r = K_Done"

definition acc_inv :: "bool \<Rightarrow> nat \<Rightarrow> acc_run \<Rightarrow> bool" where
  "acc_inv stop h r \<longleftrightarrow> ac_Stop (ar_Acc r) = stop \<and> ar_Handle r = h \<and> \<not> ac_Started (ar_Acc r)
     \<and> (ar_Init r = N_New \<longleftrightarrow> ar_Cb r = K_None)
     \<and> (ac_Sync (ar_Acc r) \<longleftrightarrow> stop \<and> (ar_Init r = N_Done \<or> ar_Cb r = K_Done))
     \<and> (stop \<or> ar_Init r \<in> {N_New, N_Done})
     \<and> ar_Resumed r = (if acc_over r then [h] else [])
     \<and> (ac_Requested (ar_Acc r) \<longleftrightarrow> ar_Stopper r \<noteq> S_None) \<and> (ac_Requested (ar_Acc r) \<longrightarrow> stop)
     \<and> (ar_Cb r = K_Flying \<and> ar_Init r \<in> {N_Checked, N_Done} \<and> ar_Stopper r = S_Done \<longrightarrow> ar_Signal r)"

lemma acc_step_ok:
  assumes inv: "acc_inv stop h r" and en: "acc_enabled a r"
  shows "\<exists>r'. acc_perform a r = Inr r' \<and> acc_inv stop h r'"
  using assms
  by (cases a) (auto simp: acc_inv_def acc_over_def acc_start_def acc_check_cancel_def acc_emit_def acc_init_exchange_def acc_meet_def
      acc_resume_def acc_callback_def acc_cb_exchange_def acc_stop_set_def acc_stop_emit_def Let_def)

lemma acc_reach_inv: "acc_reach stop h r \<Longrightarrow> acc_inv stop h r"
proof (induction rule: acc_reach.induct)
  case (acc_reach_start early r)
  then show ?case by (auto simp: acc_register_def acc_new_def acc_inv_def acc_over_def split: if_splits)
next
  case (acc_reach_step r a r')
  then show ?case using acc_step_ok [of stop h r a] by auto
qed

definition acc_acts :: "error_code \<Rightarrow> acc_act list" where
  "acc_acts ec = [Acc_Start, Acc_Check, Acc_Exchange, Acc_Complete ec, Acc_Cb_Exchange]"

lemma acc_not_stuck: "acc_inv stop h r \<Longrightarrow> \<not> acc_over r \<Longrightarrow> \<exists>a \<in> set (acc_acts ec). acc_enabled a r"
  by (cases "ar_Init r"; cases "ar_Cb r") (auto simp: acc_inv_def acc_acts_def acc_over_def)

section \<open>TLS connections\<close>

record tacc =
  ta_Ec :: error_code
  ta_Requested :: bool
  ta_Flag :: int
  ta_Stop :: bool

record tacc_run =
  tar_Acc :: tacc
  tar_Handle :: nat
  tar_Init :: conn_pc
  tar_Open :: open_pc
  tar_Hs :: handler_pc
  tar_Stopper :: stop_pc
  tar_Signal :: bool
  tar_Resumed :: "nat list"

definition tacc_new :: "bool \<Rightarrow> tacc" where
  "tacc_new stop = \<lparr>ta_Ec = no_error, ta_Requested = False, ta_Flag = 0, ta_Stop = stop\<rparr>"

definition tacc_move :: "tacc \<Rightarrow> tacc" where
  "tacc_move a = (tacc_new (ta_Stop a))\<lparr>ta_Ec := ta_Ec a\<rparr>"

definition tacc_register :: "bool \<Rightarrow> nat \<Rightarrow> tacc \<Rightarrow> tacc_run" where
  "tacc_register early h a = \<lparr>tar_Acc = a\<lparr>ta_Requested := ta_Stop a \<and> early, ta_Flag := 2\<rparr>, tar_Handle = h, tar_Init = N_New,
     tar_Open = O_None, tar_Hs = K_None, tar_Stopper = (if ta_Stop a \<and> early then S_Done else S_None), tar_Signal = False, tar_Resumed = []\<rparr>"

definition tacc_start :: "tacc_run \<Rightarrow> fault + tacc_run" where
  "tacc_start r = Inr (r\<lparr>tar_Init := N_Started, tar_Open := O_Flying, tar_Signal := False\<rparr>)"

definition tacc_emit :: "tacc_run \<Rightarrow> tacc_run" where
  "tacc_emit r = (if tar_Open r = O_Flying \<or> tar_Hs r = K_Flying then r\<lparr>tar_Signal := True\<rparr> else r)"

definition tacc_check :: "tacc_run \<Rightarrow> tacc_run" where
  "tacc_check r = (if ta_Stop (tar_Acc r) \<and> ta_Requested (tar_Acc r) then tacc_emit r else r)"

definition tacc_resume :: "tacc_run \<Rightarrow> tacc_run" where
  "tacc_resume r = r\<lparr>tar_Resumed := tar_Resumed r @ [tar_Handle r]\<rparr>"

definition tacc_sub :: "int \<Rightarrow> tacc_run \<Rightarrow> tacc_run" where
  "tacc_sub k r = r\<lparr>tar_Acc := (tar_Acc r)\<lparr>ta_Flag := ta_Flag (tar_Acc r) - k\<rparr>\<rparr>"

text \<open>\<^verbatim>\<open>mSynchronousFlag--\<close> gives the old value.\<close>

definition tacc_dec :: "tacc_run \<Rightarrow> tacc_run" where
  "tacc_dec r = (if ta_Flag (tar_Acc r) = 0 then tacc_resume (tacc_sub 1 r) else tacc_sub 1 r)"

definition tacc_init_check :: "tacc_run \<Rightarrow> fault + tacc_run" where
  "tacc_init_check r = Inr ((tacc_check r)\<lparr>tar_Init := N_Checked\<rparr>)"

definition tacc_init_dec :: "tacc_run \<Rightarrow> fault + tacc_run" where
  "tacc_init_dec r = Inr (tacc_dec (r\<lparr>tar_Init := N_Done\<rparr>))"

definition tacc_accepted :: "error_code \<Rightarrow> tacc_run \<Rightarrow> fault + tacc_run" where
  "tacc_accepted ec r = (let r = r\<lparr>tar_Acc := (tar_Acc r)\<lparr>ta_Ec := ec\<rparr>\<rparr> in
     Inr (if is_error ec then r\<lparr>tar_Open := O_Failed\<rparr> else r\<lparr>tar_Open := O_Shaking, tar_Hs := K_Flying, tar_Signal := False\<rparr>))"

text \<open>\<^verbatim>\<open>mSynchronousFlag -= 2\<close> gives the new value.\<close>

definition tacc_failed :: "tacc_run \<Rightarrow> fault + tacc_run" where
  "tacc_failed r = (let r = (tacc_sub 2 r)\<lparr>tar_Open := O_Done_Failed\<rparr> in
     Inr (if ta_Flag (tar_Acc r) < 0 then tacc_resume r else r))"

definition tacc_open_check :: "tacc_run \<Rightarrow> fault + tacc_run" where
  "tacc_open_check r = Inr ((tacc_check r)\<lparr>tar_Open := O_Checked\<rparr>)"

definition tacc_open_dec :: "tacc_run \<Rightarrow> fault + tacc_run" where
  "tacc_open_dec r = Inr (tacc_dec (r\<lparr>tar_Open := O_Done\<rparr>))"

definition tacc_shaken :: "error_code \<Rightarrow> tacc_run \<Rightarrow> fault + tacc_run" where
  "tacc_shaken ec r = Inr (r\<lparr>tar_Acc := (tar_Acc r)\<lparr>ta_Ec := ec\<rparr>, tar_Hs := K_Stored\<rparr>)"

definition tacc_shaken_dec :: "tacc_run \<Rightarrow> fault + tacc_run" where
  "tacc_shaken_dec r = Inr (tacc_dec (r\<lparr>tar_Hs := K_Done\<rparr>))"

definition tacc_stop_set :: "tacc_run \<Rightarrow> fault + tacc_run" where
  "tacc_stop_set r = Inr (r\<lparr>tar_Acc := (tar_Acc r)\<lparr>ta_Requested := True\<rparr>, tar_Stopper := S_Set\<rparr>)"

definition tacc_stop_emit :: "tacc_run \<Rightarrow> fault + tacc_run" where
  "tacc_stop_emit r = Inr ((tacc_emit r)\<lparr>tar_Stopper := S_Done\<rparr>)"

definition tacc_await_resume :: "tacc \<Rightarrow> exn + unit" where
  "tacc_await_resume a = (if is_error (ta_Ec a) then Inl (sys_error (ta_Ec a)) else Inr ())"

datatype tacc_act = Ta_Start | Ta_Check | Ta_Init_Dec | Ta_Accepted error_code | Ta_Failed | Ta_Open_Check | Ta_Open_Dec
  | Ta_Shaken error_code | Ta_Shaken_Dec | Ta_Stop_Set | Ta_Stop_Emit

fun tacc_perform :: "tacc_act \<Rightarrow> tacc_run \<Rightarrow> fault + tacc_run" where
  "tacc_perform Ta_Start r = tacc_start r"
| "tacc_perform Ta_Check r = tacc_init_check r"
| "tacc_perform Ta_Init_Dec r = tacc_init_dec r"
| "tacc_perform (Ta_Accepted ec) r = tacc_accepted ec r"
| "tacc_perform Ta_Failed r = tacc_failed r"
| "tacc_perform Ta_Open_Check r = tacc_open_check r"
| "tacc_perform Ta_Open_Dec r = tacc_open_dec r"
| "tacc_perform (Ta_Shaken ec) r = tacc_shaken ec r"
| "tacc_perform Ta_Shaken_Dec r = tacc_shaken_dec r"
| "tacc_perform Ta_Stop_Set r = tacc_stop_set r"
| "tacc_perform Ta_Stop_Emit r = tacc_stop_emit r"

fun tacc_enabled :: "tacc_act \<Rightarrow> tacc_run \<Rightarrow> bool" where
  "tacc_enabled Ta_Start r \<longleftrightarrow> tar_Init r = N_New"
| "tacc_enabled Ta_Check r \<longleftrightarrow> tar_Init r = N_Started"
| "tacc_enabled Ta_Init_Dec r \<longleftrightarrow> tar_Init r = N_Checked"
| "tacc_enabled (Ta_Accepted ec) r \<longleftrightarrow> tar_Open r = O_Flying"
| "tacc_enabled Ta_Failed r \<longleftrightarrow> tar_Open r = O_Failed"
| "tacc_enabled Ta_Open_Check r \<longleftrightarrow> tar_Open r = O_Shaking"
| "tacc_enabled Ta_Open_Dec r \<longleftrightarrow> tar_Open r = O_Checked"
| "tacc_enabled (Ta_Shaken ec) r \<longleftrightarrow> tar_Hs r = K_Flying"
| "tacc_enabled Ta_Shaken_Dec r \<longleftrightarrow> tar_Hs r = K_Stored"
| "tacc_enabled Ta_Stop_Set r \<longleftrightarrow> tar_Stopper r = S_None \<and> ta_Stop (tar_Acc r)"
| "tacc_enabled Ta_Stop_Emit r \<longleftrightarrow> tar_Stopper r = S_Set"

inductive tacc_reach :: "bool \<Rightarrow> nat \<Rightarrow> tacc_run \<Rightarrow> bool" for stop h where
  tacc_reach_start: "tacc_reach stop h (tacc_register early h (tacc_new stop))"
| tacc_reach_step: "tacc_reach stop h r \<Longrightarrow> tacc_enabled a r \<Longrightarrow> tacc_perform a r = Inr r' \<Longrightarrow> tacc_reach stop h r'"

text \<open>The connection that a run of the acceptor is a run of.\<close>

definition as_tls :: "tacc_run \<Rightarrow> tls_run" where
  "as_tls r = \<lparr>tr_Tls = \<lparr>tl_Ec = ta_Ec (tar_Acc r), tl_Requested = ta_Requested (tar_Acc r), tl_Flag = ta_Flag (tar_Acc r),
       tl_Client = False, tl_Retry = False, tl_Delay = 1, tl_Handle = (if tar_Init r = N_New then None else Some (tar_Handle r)),
       tl_Stop = ta_Stop (tar_Acc r)\<rparr>,
     tr_Init = tar_Init r, tr_Open = tar_Open r, tr_Hs = tar_Hs r, tr_Timer = False, tr_Stopper = tar_Stopper r,
     tr_Signal = tar_Signal r, tr_Resumed = tar_Resumed r\<rparr>"

fun as_tls_act :: "nat \<Rightarrow> tacc_act \<Rightarrow> tls_act" where
  "as_tls_act h Ta_Start = Tls_Suspend h"
| "as_tls_act h Ta_Check = Tls_Check"
| "as_tls_act h Ta_Init_Dec = Tls_Init_Dec"
| "as_tls_act h (Ta_Accepted ec) = Tls_Opened ec"
| "as_tls_act h Ta_Failed = Tls_Failed"
| "as_tls_act h Ta_Open_Check = Tls_Open_Check"
| "as_tls_act h Ta_Open_Dec = Tls_Open_Dec"
| "as_tls_act h (Ta_Shaken ec) = Tls_Shaken ec"
| "as_tls_act h Ta_Shaken_Dec = Tls_Shaken_Dec"
| "as_tls_act h Ta_Stop_Set = Tls_Stop_Set"
| "as_tls_act h Ta_Stop_Emit = Tls_Stop_Emit"

text \<open>What the two runs share, and that nothing happens before the start.\<close>

definition tacc_ok :: "nat \<Rightarrow> tacc_run \<Rightarrow> bool" where
  "tacc_ok h r \<longleftrightarrow> tar_Handle r = h \<and> (tar_Init r = N_New \<longrightarrow> tar_Open r = O_None \<and> tar_Hs r = K_None)
     \<and> (tar_Open r \<in> {O_None, O_Flying, O_Failed} \<longrightarrow> tar_Hs r = K_None)"

lemma tacc_enabled_iff: "tacc_enabled a r \<longleftrightarrow> tls_enabled (as_tls_act h a) (as_tls r)"
  by (cases a) (simp_all add: as_tls_def)

lemmas tacc_defs = tacc_start_def tacc_init_check_def tacc_check_def tacc_emit_def tacc_init_dec_def tacc_dec_def tacc_sub_def
  tacc_resume_def tacc_accepted_def tacc_failed_def tacc_open_check_def tacc_open_dec_def tacc_shaken_def tacc_shaken_dec_def
  tacc_stop_set_def tacc_stop_emit_def

lemmas tls_defs = tls_await_suspend_def tls_init_check_def tls_check_def tls_emit_def tls_init_dec_def tls_sub_def tls_resume_def
  tls_opened_def tls_failed_def tls_open_end_def tls_open_check_def tls_open_dec_def tls_shaken_def tls_shaken_dec_def
  tls_stop_set_def tls_stop_emit_def

lemma tacc_step:
  assumes ok: "tacc_ok h r" and en: "tacc_enabled a r"
  shows "\<exists>r'. tacc_perform a r = Inr r' \<and> tls_perform refused (as_tls_act h a) (as_tls r) = Inr (as_tls r') \<and> tacc_ok h r'"
  using assms
  by (cases a) (auto simp: tacc_ok_def as_tls_def tacc_defs tls_defs Let_def)

lemma tacc_reach_tls: "tacc_reach stop h r \<Longrightarrow> tls_reach refused False False (as_tls r) \<and> tacc_ok h r"
proof (induction rule: tacc_reach.induct)
  case (tacc_reach_start early)
  have "as_tls (tacc_register early h (tacc_new stop)) = tls_ready early (tls_new False stop False)"
    by (simp add: as_tls_def tacc_register_def tacc_new_def tls_ready_def tls_new_def)
  then show ?case using tls_reach_start [of refused False False early stop] by (simp add: tacc_ok_def tacc_register_def)
next
  case (tacc_reach_step r a r')
  then show ?case using tacc_step [of h r a refused] tacc_enabled_iff [of a r h] tls_reach_step by (metis sum.inject(2))
qed

definition tacc_over :: "tacc_run \<Rightarrow> bool" where
  "tacc_over r \<longleftrightarrow> tar_Init r = N_Done \<and> (tar_Open r = O_Done_Failed \<or> tar_Open r = O_Done \<and> tar_Hs r = K_Done)"

lemma tacc_over_tls: "tls_over (as_tls r) \<longleftrightarrow> tacc_over r"
  by (simp add: tls_over_def tacc_over_def as_tls_def)

definition tacc_acts :: "error_code \<Rightarrow> tacc_act list" where
  "tacc_acts ec = [Ta_Start, Ta_Check, Ta_Init_Dec, Ta_Accepted ec, Ta_Failed, Ta_Open_Check, Ta_Open_Dec, Ta_Shaken ec, Ta_Shaken_Dec]"

lemma tacc_not_stuck: "tls_inv refused False False (as_tls r) \<Longrightarrow> \<not> tacc_over r \<Longrightarrow> \<exists>a \<in> set (tacc_acts ec). tacc_enabled a r"
  using tls_invD(4,5) [of refused False False "as_tls r"]
  by (cases "tar_Init r"; cases "tar_Open r"; cases "tar_Hs r") (simp_all add: tacc_acts_def tacc_over_def as_tls_def)

lemma tacc_resumed_handle: "tacc_reach stop h r \<Longrightarrow> set (tar_Resumed r) \<subseteq> {h}"
proof (induction rule: tacc_reach.induct)
  case (tacc_reach_start early)
  show ?case by (simp add: tacc_register_def)
next
  case (tacc_reach_step r a r')
  have "tar_Handle r = h" using tacc_reach_tls [OF tacc_reach_step(1)] by (simp add: tacc_ok_def)
  then show ?case using tacc_reach_step(3,4) by (cases a) (auto simp: tacc_defs Let_def split: if_splits)
qed

section \<open>What the connections give\<close>

text \<open>
  \<^verbatim>\<open>AsioTlsConnect\<close>: its move constructor moves the plain connection, whose \<^verbatim>\<open>mStarted\<close> is not set
  by the TLS awaiter, and \<^verbatim>\<open>await_resume\<close> throws the error of the connection or of the handshake.
\<close>

definition tls_move :: "tls \<Rightarrow> tls" where
  "tls_move t = t\<lparr>tl_Requested := False, tl_Flag := 0, tl_Delay := 1, tl_Handle := None\<rparr>"

definition tls_await_resume :: "tls \<Rightarrow> exn + unit" where
  "tls_await_resume t = (if is_error (tl_Ec t) then Inl (sys_error (tl_Ec t)) else Inr ())"

text \<open>
  The name in a certificate. \<^verbatim>\<open>find_last_of\<close> looks for one of the characters of its argument, not for
  the argument; \<^verbatim>\<open>npos + 1\<close> is 0.
\<close>

definition find_last_of :: "string \<Rightarrow> string \<Rightarrow> nat option" where
  "find_last_of cs s = (let k = length (takeWhile (\<lambda>c. c \<notin> set cs) (rev s)) in
     if k = length s then None else Some (length s - 1 - k))"

definition commonName :: "string \<Rightarrow> string" where
  "commonName full = (case find_last_of ''/CN='' full of None \<Rightarrow> full | Some i \<Rightarrow> drop (i + 1) full)"

lemma commonName_eq: "commonName full = rev (takeWhile (\<lambda>c. c \<notin> set ''/CN='') (rev full))"
proof -
  let ?k = "length (takeWhile (\<lambda>c. c \<notin> set ''/CN='') (rev full))"
  have k: "?k \<le> length full" by (metis length_rev length_takeWhile_le)
  have "rev (takeWhile (\<lambda>c. c \<notin> set ''/CN='') (rev full)) = rev (take ?k (rev full))"
    by (simp only: takeWhile_eq_take [symmetric])
  also have "\<dots> = drop (length full - ?k) full" by (simp add: take_rev)
  finally show ?thesis using k by (auto simp: commonName_def find_last_of_def Let_def Suc_diff_Suc simp del: list.set)
qed

text \<open>So a name with one of the letters C and N is cut off.\<close>

lemma commonName_cut: "commonName ''/O=lab/CN=alice'' = ''alice''" "commonName ''/O=lab/CN=CANDLE'' = ''DLE''"
  by code_simp+

section \<open>The property\<close>

text \<open>
  C37. Accepting: in every interleaving of the initiator, the handlers and the stop callback, for plain
  and for TLS connections and with errors at any point, the waiting coroutine is resumed exactly once,
  and that after all of them are through with the awaiter; until then some thread can go on, and no step
  fails. A stop request whose callback is through has been signalled to a plain accept in flight. Every
  run of the TLS acceptor is a run of a TLS connection that is never retried. The check that is meant
  to keep an awaiter from being moved after its start never fires.
\<close>

theorem accepts_end_once:
  "(acc_reach stop h r \<longrightarrow> ar_Resumed r = (if acc_over r then [h] else [])
      \<and> (\<not> acc_over r \<longrightarrow> (\<exists>a \<in> set (acc_acts ec). acc_enabled a r))
      \<and> (acc_enabled x r \<longrightarrow> (\<exists>r'. acc_perform x r = Inr r'))
      \<and> (ar_Stopper r = S_Done \<and> ar_Cb r = K_Flying \<and> ar_Init r \<noteq> N_Started \<longrightarrow> ar_Signal r)
      \<and> acc_move (ar_Acc r) \<noteq> Inl Terminated)
   \<and> (tacc_reach stop h t \<longrightarrow> tar_Resumed t = (if tacc_over t then [h] else [])
      \<and> (\<not> tacc_over t \<longrightarrow> (\<exists>a \<in> set (tacc_acts ec). tacc_enabled a t))
      \<and> (tacc_enabled y t \<longrightarrow> (\<exists>t'. tacc_perform y t = Inr t'))
      \<and> tls_reach refused False False (as_tls t))"
proof (intro conjI impI)
  assume reach: "acc_reach stop h r"
  note inv = acc_reach_inv [OF this]
  show "ar_Resumed r = (if acc_over r then [h] else [])" "acc_move (ar_Acc r) \<noteq> Inl Terminated"
    using inv by (simp_all add: acc_inv_def acc_move_def)
  show "\<not> acc_over r \<Longrightarrow> \<exists>a \<in> set (acc_acts ec). acc_enabled a r" using acc_not_stuck [OF inv] .
  show "acc_enabled x r \<Longrightarrow> \<exists>r'. acc_perform x r = Inr r'" using acc_step_ok [OF inv] by blast
  show "ar_Stopper r = S_Done \<and> ar_Cb r = K_Flying \<and> ar_Init r \<noteq> N_Started \<Longrightarrow> ar_Signal r"
    using inv by (cases "ar_Init r") (auto simp: acc_inv_def)
next
  assume reach: "tacc_reach stop h t"
  note tls = tacc_reach_tls [OF this, of refused]
  then show "tls_reach refused False False (as_tls t)" by blast
  note inv = tls_reach_inv [OF this]
  have "length (tar_Resumed t) = (if tacc_over t then 1 else 0)" using tls_resumed [OF inv] unfolding tacc_over_tls by (simp add: as_tls_def)
  then show "tar_Resumed t = (if tacc_over t then [h] else [])"
    using tacc_resumed_handle [OF reach] by (cases "tacc_over t") (auto simp: length_Suc_conv)
  show "\<not> tacc_over t \<Longrightarrow> \<exists>a \<in> set (tacc_acts ec). tacc_enabled a t" using tacc_not_stuck [OF inv] .
  show "tacc_enabled y t \<Longrightarrow> \<exists>t'. tacc_perform y t = Inr t'" using tacc_step [of h t y] tls by blast
qed

text \<open>The handler of a plain accept is faster than its initiator; a TLS handshake fails.\<close>

definition demo_accept :: "acc_act list" where
  "demo_accept = [Acc_Start, Acc_Complete no_error, Acc_Cb_Exchange, Acc_Check, Acc_Exchange]"

definition demo_tls_accept :: "tacc_act list" where
  "demo_tls_accept = [Ta_Start, Ta_Accepted no_error, Ta_Shaken (make_error_code IoError), Ta_Shaken_Dec, Ta_Check, Ta_Init_Dec,
     Ta_Open_Check, Ta_Open_Dec]"

fun acc_exec :: "acc_act list \<Rightarrow> acc_run \<Rightarrow> acc_run option" where
  "acc_exec [] r = Some r"
| "acc_exec (a # as) r = (if acc_enabled a r
     then (case acc_perform a r of Inl _ \<Rightarrow> None | Inr r' \<Rightarrow> acc_exec as r') else None)"

fun tacc_exec :: "tacc_act list \<Rightarrow> tacc_run \<Rightarrow> tacc_run option" where
  "tacc_exec [] r = Some r"
| "tacc_exec (a # as) r = (if tacc_enabled a r
     then (case tacc_perform a r of Inl _ \<Rightarrow> None | Inr r' \<Rightarrow> tacc_exec as r') else None)"

lemma acc_exec_reach: "acc_reach stop h r \<Longrightarrow> acc_exec as r = Some r' \<Longrightarrow> acc_reach stop h r'"
  by (induction as arbitrary: r) (auto split: if_splits sum.splits intro: acc_reach_step)

lemma tacc_exec_reach: "tacc_reach stop h r \<Longrightarrow> tacc_exec as r = Some r' \<Longrightarrow> tacc_reach stop h r'"
  by (induction as arbitrary: r) (auto split: if_splits sum.splits intro: tacc_reach_step)

theorem accepts_end_once_witness:
  "\<exists>r t. acc_exec demo_accept (projr (acc_register False 7 (acc_new True))) = Some r \<and> ar_Resumed r = [7]
     \<and> tacc_exec demo_tls_accept (tacc_register False 8 (tacc_new True)) = Some t \<and> tar_Resumed t = [8]"
proof -
  let ?x = "acc_exec demo_accept (projr (acc_register False 7 (acc_new True)))"
  let ?y = "tacc_exec demo_tls_accept (tacc_register False 8 (tacc_new True))"
  have cx: "(case ?x of None \<Rightarrow> False | Some r \<Rightarrow> ar_Init r = N_Done \<and> ar_Cb r = K_Done)" by code_simp
  have cy: "(case ?y of None \<Rightarrow> False | Some t \<Rightarrow> tar_Init t = N_Done \<and> tar_Open t = O_Done \<and> tar_Hs t = K_Done)" by code_simp
  obtain r where r: "?x = Some r" using cx by (cases ?x) (simp only: option.case, blast)
  obtain t where t: "?y = Some t" using cy by (cases ?y) (simp only: option.case, blast)
  have over: "acc_over r" "tacc_over t"
    using cx cy by (simp_all only: r t option.case acc_over_def tacc_over_def) simp_all
  have "acc_reach True 7 (projr (acc_register False 7 (acc_new True)))"
    by (rule acc_reach_start [of False]) (simp add: acc_register_def acc_new_def)
  from acc_exec_reach [OF this r] tacc_exec_reach [OF tacc_reach_start t] show ?thesis
    using accepts_end_once [of True 7 r] accepts_end_once [of True 8 _ _ _ t] over r t by simp
qed

end
