(* ===== verification/Inline_Poly.thy ===== *)
theory Inline_Poly
  imports Prelude
begin

text \<open>
  The two owners of objects of any type: \<^verbatim>\<open>InlinePoly\<close> of
  \<^verbatim>\<open>coproto/Common/InlinePoly.h\<close>, an interface pointer to an object that is stored inside,
  owned on the heap or borrowed, and \<^verbatim>\<open>AnyNoCopy\<close> of \<^verbatim>\<open>coproto/Proto/Operation.h\<close>,
  a buffer that remembers how to destroy what it holds. What the raw storage holds is modelled as a
  value with a tag, so reading it as something else is a fault. Constructor and destructor calls of
  the objects are counted. Whether an object fits into the storage and what is left of an object that
  was moved from are parameters.
\<close>

section \<open>Storage\<close>

text \<open>
  The bytes of \<^verbatim>\<open>mStorage\<close>: nothing readable, a controller with its object, or the flag
  that \<^verbatim>\<open>isOwning()\<close> places there. The pointer \<^verbatim>\<open>mData\<close> is null, points into the
  storage or to an address on the heap.
\<close>

datatype 'v storage = Raw | Ctl 'v | Owning bool
datatype data_ptr = Null | Self | Far nat

record 'v poly =
  ip_Storage :: "'v storage"
  ip_Data :: data_ptr

record 'v objects =
  ob_Polys :: "nat \<Rightarrow> 'v poly option"
  ob_Heap :: "nat \<Rightarrow> 'v option"
  ob_Made :: nat
  ob_Gone :: nat

definition poly_at :: "nat \<Rightarrow> 'v objects \<Rightarrow> fault + 'v poly" where
  "poly_at i w = (case ob_Polys w i of None \<Rightarrow> Inl Bad_Pointer | Some p \<Rightarrow> Inr p)"

definition put_poly :: "nat \<Rightarrow> 'v poly \<Rightarrow> 'v objects \<Rightarrow> 'v objects" where
  "put_poly i p w = w\<lparr>ob_Polys := (ob_Polys w)(i \<mapsto> p)\<rparr>"

definition heap_new :: "nat \<Rightarrow> 'v \<Rightarrow> 'v objects \<Rightarrow> 'v objects" where
  "heap_new a v w = w\<lparr>ob_Heap := (ob_Heap w)(a \<mapsto> v), ob_Made := ob_Made w + 1\<rparr>"

definition heap_delete :: "nat \<Rightarrow> 'v objects \<Rightarrow> fault + 'v objects" where
  "heap_delete a w = (case ob_Heap w a of None \<Rightarrow> Inl Bad_Pointer
     | Some v \<Rightarrow> Inr (w\<lparr>ob_Heap := (ob_Heap w)(a := None), ob_Gone := ob_Gone w + 1\<rparr>))"

section \<open>The operations of InlinePoly\<close>

definition poly_new :: "'v poly" where
  "poly_new = \<lparr>ip_Storage = Raw, ip_Data = Null\<rparr>"

definition isStoredInline :: "'v poly \<Rightarrow> bool" where
  "isStoredInline p \<longleftrightarrow> ip_Data p = Self"

text \<open>The virtual destructor of the controller, and reading the flag.\<close>

definition kill_controller :: "nat \<Rightarrow> 'v poly \<Rightarrow> 'v objects \<Rightarrow> fault + 'v objects" where
  "kill_controller i p w = (case ip_Storage p of
     Ctl v \<Rightarrow> Inr (put_poly i (p\<lparr>ip_Storage := Raw\<rparr>) (w\<lparr>ob_Gone := ob_Gone w + 1\<rparr>)) | _ \<Rightarrow> Inl Bad_Pointer)"

definition isOwning :: "'v poly \<Rightarrow> fault + bool" where
  "isOwning p = (case ip_Storage p of Owning b \<Rightarrow> Inr b | _ \<Rightarrow> Inl Bad_Pointer)"

definition set_data :: "nat \<Rightarrow> data_ptr \<Rightarrow> 'v objects \<Rightarrow> fault + 'v objects" where
  "set_data i d w = bindR (poly_at i w) (\<lambda>p. Inr (put_poly i (p\<lparr>ip_Data := d\<rparr>) w))"

definition destruct :: "nat \<Rightarrow> 'v objects \<Rightarrow> fault + 'v objects" where
  "destruct i w = bindR (poly_at i w) (\<lambda>p. bindR (if isStoredInline p then kill_controller i p w
     else (case ip_Data p of
         Far a \<Rightarrow> bindR (isOwning p) (\<lambda>b. if b then heap_delete a w else Inr w)
       | _ \<Rightarrow> Inr w))
     (set_data i Null))"

text \<open>\<open>a\<close> is the address that \<^verbatim>\<open>new\<close> returns.\<close>

definition poly_emplace :: "('v \<Rightarrow> bool) \<Rightarrow> nat \<Rightarrow> nat \<Rightarrow> 'v \<Rightarrow> 'v objects \<Rightarrow> fault + 'v objects" where
  "poly_emplace fits a i v w = bindR (destruct i w) (\<lambda>w.
     if fits v then Inr (put_poly i \<lparr>ip_Storage = Ctl v, ip_Data = Self\<rparr> (w\<lparr>ob_Made := ob_Made w + 1\<rparr>))
     else Inr (put_poly i \<lparr>ip_Storage = Owning True, ip_Data = Far a\<rparr> (heap_new a v w)))"

definition setBorrowed :: "nat \<Rightarrow> nat \<Rightarrow> 'v objects \<Rightarrow> fault + 'v objects" where
  "setBorrowed i a w = bindR (poly_at i w) (\<lambda>p. Inr (put_poly i \<lparr>ip_Storage = Owning False, ip_Data = Far a\<rparr> w))"

definition setOwned :: "nat \<Rightarrow> nat \<Rightarrow> 'v objects \<Rightarrow> fault + 'v objects" where
  "setOwned i a w = bindR (poly_at i w) (\<lambda>p. Inr (put_poly i \<lparr>ip_Storage = Owning True, ip_Data = Far a\<rparr> w))"

text \<open>
  \<^verbatim>\<open>moveTo\<close> constructs the object in the other place; the old one is left in its moved-from
  state. Copying the flag of an empty source copies an unreadable byte.
\<close>

definition moveTo :: "('v \<Rightarrow> bool) \<Rightarrow> ('v \<Rightarrow> 'v) \<Rightarrow> nat \<Rightarrow> nat \<Rightarrow> nat \<Rightarrow> 'v objects \<Rightarrow> fault + 'v objects" where
  "moveTo fits moved a i j w = bindR (poly_at j w) (\<lambda>m. case ip_Storage m of
     Ctl v \<Rightarrow> poly_emplace fits a i v (put_poly j (m\<lparr>ip_Storage := Ctl (moved v)\<rparr>) w) | _ \<Rightarrow> Inl Bad_Pointer)"

definition copy_flag :: "'v storage \<Rightarrow> 'v storage" where
  "copy_flag s = (case s of Owning b \<Rightarrow> Owning b | _ \<Rightarrow> Raw)"

definition poly_assign :: "('v \<Rightarrow> bool) \<Rightarrow> ('v \<Rightarrow> 'v) \<Rightarrow> nat \<Rightarrow> nat \<Rightarrow> nat \<Rightarrow> 'v objects \<Rightarrow> fault + 'v objects" where
  "poly_assign fits moved a i j w = bindR (destruct i w) (\<lambda>w. bindR (poly_at j w) (\<lambda>m.
     if isStoredInline m then bindR (moveTo fits moved a i j w) (\<lambda>w. bindR (destruct j w) (set_data j Null))
     else bindR (poly_at i w) (\<lambda>p. let w = put_poly i \<lparr>ip_Storage = copy_flag (ip_Storage m), ip_Data = ip_Data m\<rparr> w in
       bindR (poly_at j w) (\<lambda>m. Inr (put_poly j \<lparr>ip_Storage = Owning False, ip_Data = Null\<rparr> w)))))"

definition poly_get :: "nat \<Rightarrow> 'v objects \<Rightarrow> fault + 'v option" where
  "poly_get i w = bindR (poly_at i w) (\<lambda>p. case ip_Data p of Null \<Rightarrow> Inr None
     | Self \<Rightarrow> (case ip_Storage p of Ctl v \<Rightarrow> Inr (Some v) | _ \<Rightarrow> Inl Bad_Pointer)
     | Far a \<Rightarrow> (case ob_Heap w a of Some v \<Rightarrow> Inr (Some v) | None \<Rightarrow> Inl Bad_Pointer))"

text \<open>The constructors and the destructor.\<close>

definition poly_construct :: "nat \<Rightarrow> 'v objects \<Rightarrow> 'v objects" where
  "poly_construct i w = put_poly i poly_new w"

definition poly_construct_from :: "('v \<Rightarrow> bool) \<Rightarrow> nat \<Rightarrow> nat \<Rightarrow> 'v \<Rightarrow> 'v objects \<Rightarrow> fault + 'v objects" where
  "poly_construct_from fits a i v w = poly_emplace fits a i v (poly_construct i w)"

definition poly_construct_move :: "('v \<Rightarrow> bool) \<Rightarrow> ('v \<Rightarrow> 'v) \<Rightarrow> nat \<Rightarrow> nat \<Rightarrow> nat \<Rightarrow> 'v objects \<Rightarrow> fault + 'v objects" where
  "poly_construct_move fits moved a i j w = poly_assign fits moved a i j (poly_construct i w)"

definition poly_destroy :: "nat \<Rightarrow> 'v objects \<Rightarrow> fault + 'v objects" where
  "poly_destroy i w = bindR (destruct i w) (\<lambda>w. Inr (w\<lparr>ob_Polys := (ob_Polys w)(i := None)\<rparr>))"

section \<open>The discipline\<close>

definition owns :: "'v objects \<Rightarrow> nat \<Rightarrow> nat \<Rightarrow> bool" where
  "owns w i a \<longleftrightarrow> (\<exists>p. ob_Polys w i = Some p \<and> ip_Data p = Far a \<and> ip_Storage p = Owning True)"

datatype 'v poly_act = Construct nat | Construct_From nat nat 'v | Construct_Move nat nat nat | Emplace nat nat 'v
  | Assign nat nat nat | Borrow nat nat | Own nat nat | Destroy nat | User_New nat 'v | User_Delete nat

fun poly_perform :: "('v \<Rightarrow> bool) \<Rightarrow> ('v \<Rightarrow> 'v) \<Rightarrow> 'v poly_act \<Rightarrow> 'v objects \<Rightarrow> fault + 'v objects" where
  "poly_perform fits moved (Construct i) w = Inr (poly_construct i w)"
| "poly_perform fits moved (Construct_From a i v) w = poly_construct_from fits a i v w"
| "poly_perform fits moved (Construct_Move a i j) w = poly_construct_move fits moved a i j w"
| "poly_perform fits moved (Emplace a i v) w = poly_emplace fits a i v w"
| "poly_perform fits moved (Assign a i j) w = poly_assign fits moved a i j w"
| "poly_perform fits moved (Borrow i a) w = setBorrowed i a w"
| "poly_perform fits moved (Own i a) w = setOwned i a w"
| "poly_perform fits moved (Destroy i) w = poly_destroy i w"
| "poly_perform fits moved (User_New a v) w = Inr (heap_new a v w)"
| "poly_perform fits moved (User_Delete a) w = heap_delete a w"

text \<open>
  What users may do: \<^verbatim>\<open>setBorrowed\<close> and \<^verbatim>\<open>setOwned\<close> do not destroy what the pointer
  held before, so they are for empty pointers; nothing is owned twice or deleted by others.
\<close>

definition empty_poly :: "'v objects \<Rightarrow> nat \<Rightarrow> bool" where
  "empty_poly w i \<longleftrightarrow> (\<exists>p. ob_Polys w i = Some p \<and> ip_Data p = Null)"

fun poly_allowed :: "'v poly_act \<Rightarrow> 'v objects \<Rightarrow> bool" where
  "poly_allowed (Construct i) w \<longleftrightarrow> ob_Polys w i = None"
| "poly_allowed (Construct_From a i v) w \<longleftrightarrow> ob_Polys w i = None \<and> ob_Heap w a = None"
| "poly_allowed (Construct_Move a i j) w \<longleftrightarrow> ob_Polys w i = None \<and> ob_Polys w j \<noteq> None"
| "poly_allowed (Emplace a i v) w \<longleftrightarrow> ob_Polys w i \<noteq> None \<and> ob_Heap w a = None"
| "poly_allowed (Assign a i j) w \<longleftrightarrow> ob_Polys w i \<noteq> None \<and> ob_Polys w j \<noteq> None"
| "poly_allowed (Borrow i a) w \<longleftrightarrow> empty_poly w i"
| "poly_allowed (Own i a) w \<longleftrightarrow> empty_poly w i \<and> ob_Heap w a \<noteq> None \<and> (\<forall>k. \<not> owns w k a)"
| "poly_allowed (Destroy i) w \<longleftrightarrow> ob_Polys w i \<noteq> None"
| "poly_allowed (User_New a v) w \<longleftrightarrow> ob_Heap w a = None"
| "poly_allowed (User_Delete a) w \<longleftrightarrow> ob_Heap w a \<noteq> None \<and> (\<forall>k. \<not> owns w k a)"

definition objects_new :: "'v objects" where
  "objects_new = \<lparr>ob_Polys = (\<lambda>_. None), ob_Heap = (\<lambda>_. None), ob_Made = 0, ob_Gone = 0\<rparr>"

inductive poly_reach :: "('v \<Rightarrow> bool) \<Rightarrow> ('v \<Rightarrow> 'v) \<Rightarrow> 'v objects \<Rightarrow> bool" for fits moved where
  poly_reach_new: "poly_reach fits moved objects_new"
| poly_reach_step: "poly_reach fits moved w \<Longrightarrow> poly_allowed x w \<Longrightarrow> poly_perform fits moved x w = Inr w' \<Longrightarrow> poly_reach fits moved w'"

text \<open>The tag of the storage agrees with the pointer, and owners are the only ones.\<close>

fun poly_typed :: "('v \<Rightarrow> bool) \<Rightarrow> 'v poly \<Rightarrow> bool" where
  "poly_typed fits \<lparr>ip_Storage = s, ip_Data = d\<rparr> \<longleftrightarrow>
     (case d of Null \<Rightarrow> \<forall>v. s \<noteq> Ctl v | Self \<Rightarrow> \<exists>v. s = Ctl v \<and> fits v | Far a \<Rightarrow> \<exists>b. s = Owning b)"

definition inline_polys :: "'v objects \<Rightarrow> nat set" where
  "inline_polys w = {i. \<exists>p. ob_Polys w i = Some p \<and> ip_Data p = Self}"

definition objects_ok :: "('v \<Rightarrow> bool) \<Rightarrow> 'v objects \<Rightarrow> bool" where
  "objects_ok fits w \<longleftrightarrow> (\<forall>i p. ob_Polys w i = Some p \<longrightarrow> poly_typed fits p)
     \<and> (\<forall>i a. owns w i a \<longrightarrow> ob_Heap w a \<noteq> None \<and> (\<forall>k. owns w k a \<longrightarrow> k = i))
     \<and> finite (dom (ob_Polys w)) \<and> finite (dom (ob_Heap w))
     \<and> ob_Made w = ob_Gone w + card (inline_polys w) + card (dom (ob_Heap w))"


section \<open>Preservation\<close>

lemma poly_typedD:
  assumes "poly_typed fits p"
  shows "ip_Data p = Null \<Longrightarrow> \<forall>v. ip_Storage p \<noteq> Ctl v" and "ip_Data p = Self \<Longrightarrow> \<exists>v. ip_Storage p = Ctl v \<and> fits v"
    and "ip_Data p = Far a \<Longrightarrow> \<exists>b. ip_Storage p = Owning b"
  using assms by (cases p; simp)+

lemma put_poly_fields [simp]:
  "ob_Polys (put_poly i p w) = (ob_Polys w)(i \<mapsto> p)" "ob_Heap (put_poly i p w) = ob_Heap w"
  "ob_Made (put_poly i p w) = ob_Made w" "ob_Gone (put_poly i p w) = ob_Gone w"
  by (simp_all add: put_poly_def)

lemma heap_new_fields [simp]:
  "ob_Polys (heap_new a v w) = ob_Polys w" "ob_Heap (heap_new a v w) = (ob_Heap w)(a \<mapsto> v)"
  "ob_Made (heap_new a v w) = ob_Made w + 1" "ob_Gone (heap_new a v w) = ob_Gone w"
  by (simp_all add: heap_new_def)

lemma inline_polys_upd:
  "ob_Polys w' = (ob_Polys w)(i \<mapsto> p) \<Longrightarrow>
     inline_polys w' = (if ip_Data p = Self then insert i (inline_polys w) else inline_polys w - {i})"
  by (auto simp: inline_polys_def split: if_splits)

lemma owns_upd:
  "ob_Polys w' = (ob_Polys w)(i \<mapsto> p) \<Longrightarrow>
     owns w' k a \<longleftrightarrow> (if k = i then ip_Data p = Far a \<and> ip_Storage p = Owning True else owns w k a)"
  by (auto simp: owns_def)

lemma finite_inline: "finite (dom (ob_Polys w)) \<Longrightarrow> finite (inline_polys w)"
  by (rule rev_finite_subset) (auto simp: inline_polys_def)

lemma objects_okD:
  assumes "objects_ok fits w"
  shows "ob_Polys w i = Some p \<Longrightarrow> poly_typed fits p" and "owns w i a \<Longrightarrow> ob_Heap w a \<noteq> None"
    and "owns w i a \<Longrightarrow> owns w k a \<Longrightarrow> k = i" and "finite (dom (ob_Polys w))" "finite (dom (ob_Heap w))" "finite (inline_polys w)"
    and "ob_Made w = ob_Gone w + card (inline_polys w) + card (dom (ob_Heap w))"
  using assms finite_inline [of w] unfolding objects_ok_def by blast+

text \<open>One pointer changes; its object, and no other owner's, comes or goes with it.\<close>

lemma objects_ok_upd:
  assumes ok: "objects_ok fits w" and p: "ob_Polys w' = (ob_Polys w)(i \<mapsto> p)" and ty: "poly_typed fits p"
    and own: "\<And>a. ip_Data p = Far a \<Longrightarrow> ip_Storage p = Owning True \<Longrightarrow> ob_Heap w' a \<noteq> None \<and> (\<forall>k. k \<noteq> i \<longrightarrow> \<not> owns w k a)"
    and heap: "\<And>k a. k \<noteq> i \<Longrightarrow> owns w k a \<Longrightarrow> ob_Heap w' a \<noteq> None" and fin: "finite (dom (ob_Heap w'))"
    and count: "ob_Made w' = ob_Gone w' + card (inline_polys w') + card (dom (ob_Heap w'))"
  shows "objects_ok fits w'"
  unfolding objects_ok_def
proof (intro conjI allI impI)
  show "poly_typed fits q" if "ob_Polys w' k = Some q" for k q
    using that p ty objects_okD(1) [OF ok] by (auto split: if_splits)
  show "ob_Heap w' a \<noteq> None" if "owns w' k a" for k a
    using that own heap by (auto simp: owns_upd [OF p] split: if_splits)
  show "k' = k" if "owns w' k a" "owns w' k' a" for k k' a
    using that own objects_okD(3) [OF ok] by (auto simp: owns_upd [OF p] split: if_splits)
  show "finite (dom (ob_Polys w'))" using objects_okD(4) [OF ok] p by simp
qed (use fin count in simp_all)

lemma card_dom_upd:
  "finite (dom m) \<Longrightarrow> m a = None \<Longrightarrow> card (dom (m(a \<mapsto> v))) = Suc (card (dom m))"
  "finite (dom m) \<Longrightarrow> m a = Some v \<Longrightarrow> card (dom m) = Suc (card (dom (m(a := None))))"
proof -
  show "finite (dom m) \<Longrightarrow> m a = None \<Longrightarrow> card (dom (m(a \<mapsto> v))) = Suc (card (dom m))"
    by (simp add: domIff)
  assume f: "finite (dom m)" and a: "m a = Some v"
  have "dom (m(a := None)) = dom m - {a}" by auto
  then show "card (dom m) = Suc (card (dom (m(a := None))))"
    using f a card_Suc_Diff1 [of "dom m" a] by (simp add: domIff)
qed

text \<open>Destroying the object leaves an empty pointer.\<close>

lemma destruct_ok:
  assumes ok: "objects_ok fits w" and i: "ob_Polys w i = Some p"
  obtains w' p' where "destruct i w = Inr w'" "objects_ok fits w'" "ob_Polys w' = (ob_Polys w)(i \<mapsto> p')" "ip_Data p' = Null"
    "\<And>a. \<not> owns w i a \<Longrightarrow> ob_Heap w' a = ob_Heap w a"
proof -
  note ty = poly_typedD [OF objects_okD(1) [OF ok i]]
  have fin: "finite (inline_polys w)" "finite (dom (ob_Heap w))" by (rule objects_okD [OF ok])+
  have "\<exists>w' p'. destruct i w = Inr w' \<and> objects_ok fits w' \<and> ob_Polys w' = (ob_Polys w)(i \<mapsto> p') \<and> ip_Data p' = Null
      \<and> (\<forall>a. \<not> owns w i a \<longrightarrow> ob_Heap w' a = ob_Heap w a)"
  proof (cases "ip_Data p")
    case Null
    let ?p = "p\<lparr>ip_Data := Null\<rparr>"
    let ?w = "put_poly i ?p w"
    have n: "i \<notin> inline_polys w" using Null i by (simp add: inline_polys_def)
    have P: "ob_Polys ?w = (ob_Polys w)(i \<mapsto> ?p)" by simp
    have tyq: "poly_typed fits ?p" using ty(1) Null by (cases p) simp
    have "destruct i w = Inr ?w" using i Null by (simp add: destruct_def poly_at_def isStoredInline_def set_data_def)
    moreover have "objects_ok fits ?w"
      by (rule objects_ok_upd [OF ok P tyq]) (use n objects_okD [OF ok] inline_polys_upd [OF P] in \<open>simp_all\<close>)
    ultimately show ?thesis by (intro exI [of _ ?w] exI [of _ ?p]) simp
  next
    case Self
    let ?p = "\<lparr>ip_Storage = Raw, ip_Data = Null\<rparr>" and ?w0 = "w\<lparr>ob_Gone := ob_Gone w + 1\<rparr>"
    let ?w = "put_poly i ?p ?w0"
    obtain v where v: "p = \<lparr>ip_Storage = Ctl v, ip_Data = Self\<rparr>" using ty(2) Self by (cases p) auto
    have n: "i \<in> inline_polys w" using i Self by (simp add: inline_polys_def)
    have P: "ob_Polys ?w = (ob_Polys w)(i \<mapsto> ?p)" by simp
    have "destruct i w = Inr ?w"
      using i v by (simp add: destruct_def poly_at_def isStoredInline_def kill_controller_def set_data_def put_poly_def)
    moreover have "objects_ok fits ?w"
      by (rule objects_ok_upd [OF ok P])
        (use n fin objects_okD [OF ok] inline_polys_upd [OF P] card_Suc_Diff1 [OF fin(1) n] in \<open>simp_all\<close>)
    ultimately show ?thesis by (intro exI [of _ ?w] exI [of _ ?p]) simp
  next
    case (Far b)
    then obtain o' where o': "ip_Storage p = Owning o'" using ty(3) by blast
    let ?p = "p\<lparr>ip_Data := Null\<rparr>"
    have tyq: "poly_typed fits ?p" using o' by (cases p) simp
    have n: "i \<notin> inline_polys w" using i Far by (simp add: inline_polys_def)
    show ?thesis
    proof (cases o')
      case True
      then have own: "owns w i b" using i Far o' by (simp add: owns_def)
      then obtain v where v: "ob_Heap w b = Some v" using objects_okD(2) [OF ok] by blast
      let ?w = "put_poly i ?p (w\<lparr>ob_Heap := (ob_Heap w)(b := None), ob_Gone := ob_Gone w + 1\<rparr>)"
      have P: "ob_Polys ?w = (ob_Polys w)(i \<mapsto> ?p)" by simp
      have other: "k \<noteq> i \<Longrightarrow> owns w k a \<Longrightarrow> a \<noteq> b" for k a using objects_okD(3) [OF ok own] by blast
      have "destruct i w = Inr ?w"
        using i Far o' True v by (simp add: destruct_def poly_at_def isStoredInline_def isOwning_def heap_delete_def set_data_def put_poly_def)
      moreover have "objects_ok fits ?w"
        by (rule objects_ok_upd [OF ok P tyq])
          (use n fin other objects_okD [OF ok] inline_polys_upd [OF P] card_dom_upd(2) [OF fin(2) v] in \<open>simp_all\<close>)
      moreover have "\<not> owns w i a \<Longrightarrow> a \<noteq> b" for a using own by blast
      ultimately show ?thesis by (intro exI [of _ ?w] exI [of _ ?p]) auto
    next
      case False
      let ?w = "put_poly i ?p w"
      have P: "ob_Polys ?w = (ob_Polys w)(i \<mapsto> ?p)" by simp
      have "destruct i w = Inr ?w"
        using i Far o' False by (simp add: destruct_def poly_at_def isStoredInline_def isOwning_def set_data_def)
      moreover have "objects_ok fits ?w"
        by (rule objects_ok_upd [OF ok P tyq]) (use n fin objects_okD [OF ok] inline_polys_upd [OF P] in \<open>simp_all\<close>)
      ultimately show ?thesis by (intro exI [of _ ?w] exI [of _ ?p]) auto
    qed
  qed
  then show ?thesis using that by blast
qed


text \<open>What is put into an empty pointer.\<close>

lemma empty_inline: "ob_Polys w i = Some p \<Longrightarrow> ip_Data p = Null \<Longrightarrow> i \<notin> inline_polys w"
  by (simp add: inline_polys_def)

lemma place_inline:
  assumes ok: "objects_ok fits w" and i: "ob_Polys w i = Some p" "ip_Data p = Null" and v: "fits v"
  shows "objects_ok fits (put_poly i \<lparr>ip_Storage = Ctl v, ip_Data = Self\<rparr> (w\<lparr>ob_Made := ob_Made w + 1\<rparr>))"
proof -
  let ?p = "\<lparr>ip_Storage = Ctl v, ip_Data = Self\<rparr>" and ?w0 = "w\<lparr>ob_Made := ob_Made w + 1\<rparr>"
  have P: "ob_Polys (put_poly i ?p ?w0) = (ob_Polys w)(i \<mapsto> ?p)" by simp
  show ?thesis
    by (rule objects_ok_upd [OF ok P])
      (use v empty_inline [OF i] objects_okD [OF ok] inline_polys_upd [OF P] in \<open>simp_all\<close>)
qed

lemma place_heap:
  assumes ok: "objects_ok fits w" and i: "ob_Polys w i = Some p" "ip_Data p = Null" and a: "ob_Heap w a = None"
  shows "objects_ok fits (put_poly i \<lparr>ip_Storage = Owning True, ip_Data = Far a\<rparr> (heap_new a v w))"
proof -
  let ?p = "\<lparr>ip_Storage = Owning True, ip_Data = Far a\<rparr>"
  have P: "ob_Polys (put_poly i ?p (heap_new a v w)) = (ob_Polys w)(i \<mapsto> ?p)" by simp
  have free: "\<not> owns w k a" for k using objects_okD(2) [OF ok, of k a] a by auto
  show ?thesis
    by (rule objects_ok_upd [OF ok P])
      (use a free empty_inline [OF i] objects_okD [OF ok] inline_polys_upd [OF P] card_dom_upd(1) [OF objects_okD(5) [OF ok] a] in \<open>simp_all add: ex_bool_eq\<close>)
qed

lemma place_pointer:
  assumes ok: "objects_ok fits w" and i: "ob_Polys w i = Some p" "ip_Data p = Null"
    and own: "b \<Longrightarrow> ob_Heap w a \<noteq> None \<and> (\<forall>k. \<not> owns w k a)"
  shows "objects_ok fits (put_poly i \<lparr>ip_Storage = Owning b, ip_Data = Far a\<rparr> w)"
proof -
  let ?p = "\<lparr>ip_Storage = Owning b, ip_Data = Far a\<rparr>"
  have P: "ob_Polys (put_poly i ?p w) = (ob_Polys w)(i \<mapsto> ?p)" by simp
  show ?thesis
    by (rule objects_ok_upd [OF ok P]) (use own empty_inline [OF i] objects_okD [OF ok] inline_polys_upd [OF P] in \<open>simp_all\<close>)
qed

lemma place_null:
  assumes ok: "objects_ok fits w" and i: "ob_Polys w i = Some p" "ip_Data p \<noteq> Self" and p': "ip_Data p' = Null" "poly_typed fits p'"
  shows "objects_ok fits (put_poly i p' w)"
proof -
  have P: "ob_Polys (put_poly i p' w) = (ob_Polys w)(i \<mapsto> p')" by simp
  have "i \<notin> inline_polys w" using i by (simp add: inline_polys_def)
  then show ?thesis
    by (intro objects_ok_upd [OF ok P]) (use p' objects_okD [OF ok] inline_polys_upd [OF P] in \<open>simp_all\<close>)
qed

lemma poly_emplace_ok:
  assumes ok: "objects_ok fits w" and i: "ob_Polys w i = Some p" and a: "ob_Heap w a = None"
  shows "\<exists>w'. poly_emplace fits a i v w = Inr w' \<and> objects_ok fits w' \<and> poly_get i w' = Inr (Some v)"
proof -
  obtain w' p' where d: "destruct i w = Inr w'" "objects_ok fits w'" "ob_Polys w' = (ob_Polys w)(i \<mapsto> p')" "ip_Data p' = Null"
    and heap: "\<And>a. \<not> owns w i a \<Longrightarrow> ob_Heap w' a = ob_Heap w a"
    using destruct_ok [OF ok i] by blast
  have i': "ob_Polys w' i = Some p'" using d(3) by simp
  have a': "ob_Heap w' a = None" using heap objects_okD(2) [OF ok, of i a] a by metis
  show ?thesis
    using d(1) place_inline [OF d(2) i' d(4), of v] place_heap [OF d(2) i' d(4) a', of v]
    by (cases "fits v") (simp_all add: poly_emplace_def poly_get_def poly_at_def)
qed

text \<open>The move of an object from \<open>j\<close> to the empty pointer \<open>i\<close>.\<close>

lemma move_inline:
  assumes ok: "objects_ok fits w" and i: "ob_Polys w i = Some p" "ip_Data p = Null" and j: "ob_Polys w j = Some m" "ip_Data m = Self"
  shows "\<exists>w' v. bindR (moveTo fits moved a i j w) (\<lambda>w. bindR (destruct j w) (set_data j Null)) = Inr w'
     \<and> objects_ok fits w' \<and> ip_Storage m = Ctl v \<and> poly_get i w' = Inr (Some v) \<and> poly_get j w' = Inr None"
proof -
  have ij: "i \<noteq> j" using i j by auto
  obtain v where v: "m = \<lparr>ip_Storage = Ctl v, ip_Data = Self\<rparr>" "fits v"
    using poly_typedD(2) [OF objects_okD(1) [OF ok j(1)] j(2)] j(2) by (cases m) auto
  let ?w1 = "put_poly i \<lparr>ip_Storage = Ctl v, ip_Data = Self\<rparr> (w\<lparr>ob_Made := ob_Made w + 1\<rparr>)"
  have ok1: "objects_ok fits ?w1" by (rule place_inline [OF ok i v(2)])
  have j1: "ob_Polys ?w1 j = Some m" using ij j by simp
  let ?p = "\<lparr>ip_Storage = Raw, ip_Data = Null\<rparr>"
  let ?w = "put_poly j ?p (?w1\<lparr>ob_Gone := ob_Gone w + 1\<rparr>)"
  have P: "ob_Polys ?w = (ob_Polys ?w1)(j \<mapsto> ?p)" by simp
  have n: "j \<in> inline_polys ?w1" using j1 j(2) by (simp add: inline_polys_def)
  note fin = objects_okD(6) [OF ok1]
  have "objects_ok fits ?w"
    by (rule objects_ok_upd [OF ok1 P])
      (use n fin objects_okD [OF ok1] inline_polys_upd [OF P] card_Suc_Diff1 [OF fin n] in \<open>simp_all\<close>)
  moreover have "bindR (moveTo fits moved a i j w) (\<lambda>w. bindR (destruct j w) (set_data j Null)) = Inr ?w"
    using i j(1) ij v by (simp add: moveTo_def poly_at_def poly_emplace_def destruct_def isStoredInline_def set_data_def kill_controller_def
      put_poly_def fun_upd_twist)
  ultimately show ?thesis using v ij by (intro exI [of _ ?w] exI [of _ v]) (simp add: poly_get_def poly_at_def)
qed

lemma move_pointer:
  assumes ok: "objects_ok fits w" and i: "ob_Polys w i = Some p" "ip_Data p = Null" and j: "ob_Polys w j = Some m" "ip_Data m \<noteq> Self"
    and ij: "i \<noteq> j"
  shows "objects_ok fits (put_poly j \<lparr>ip_Storage = Owning False, ip_Data = Null\<rparr> (put_poly i \<lparr>ip_Storage = copy_flag (ip_Storage m), ip_Data = ip_Data m\<rparr> w))"
proof -
  let ?q = "\<lparr>ip_Storage = Owning False, ip_Data = Null\<rparr>" and ?r = "\<lparr>ip_Storage = copy_flag (ip_Storage m), ip_Data = ip_Data m\<rparr>"
  have ok1: "objects_ok fits (put_poly j ?q w)" by (rule place_null [OF ok j]) simp_all
  have i1: "ob_Polys (put_poly j ?q w) i = Some p" using i ij by simp
  have "objects_ok fits (put_poly i ?r (put_poly j ?q w))"
  proof (cases "ip_Data m")
    case Null
    then show ?thesis by (intro place_null [OF ok1 i1]) (simp_all add: i copy_flag_def split: storage.splits)
  next
    case (Far a)
    then obtain b where b: "ip_Storage m = Owning b" using poly_typedD(3) [OF objects_okD(1) [OF ok j(1)]] by blast
    have own: "b \<Longrightarrow> owns w j a" using j(1) Far b by (simp add: owns_def)
    then have "b \<Longrightarrow> ob_Heap (put_poly j ?q w) a \<noteq> None \<and> (\<forall>k. \<not> owns (put_poly j ?q w) k a)"
      using objects_okD(2,3) [OF ok] owns_upd [OF put_poly_fields(1), of j ?q w] by auto
    from place_pointer [OF ok1 i1 i(2) this] show ?thesis using Far b by (simp add: copy_flag_def)
  qed (use j in simp)
  then show ?thesis using ij by (simp add: put_poly_def fun_upd_twist)
qed

lemma poly_assign_ok:
  assumes ok: "objects_ok fits w" and i: "ob_Polys w i = Some p" and j: "ob_Polys w j = Some m"
  shows "\<exists>w'. poly_assign fits moved a i j w = Inr w' \<and> objects_ok fits w'
     \<and> (i \<noteq> j \<longrightarrow> (\<forall>b. owns w i b \<longrightarrow> ip_Data m \<noteq> Far b) \<longrightarrow> poly_get i w' = poly_get j w \<and> poly_get j w' = Inr None)
     \<and> (i = j \<longrightarrow> poly_get i w' = Inr None)"
proof -
  obtain w1 p' where d: "destruct i w = Inr w1" "objects_ok fits w1" "ob_Polys w1 = (ob_Polys w)(i \<mapsto> p')" "ip_Data p' = Null"
    and heap: "\<And>a. \<not> owns w i a \<Longrightarrow> ob_Heap w1 a = ob_Heap w a"
    using destruct_ok [OF ok i] by blast
  have i1: "ob_Polys w1 i = Some p'" using d(3) by simp
  show ?thesis
  proof (cases "i = j")
    case True
    let ?w = "put_poly j \<lparr>ip_Storage = Owning False, ip_Data = Null\<rparr> w1"
    have "poly_assign fits moved a i j w = Inr ?w"
      using d(1) i1 d(4) True by (simp add: poly_assign_def poly_at_def isStoredInline_def Let_def put_poly_def)
    moreover have "objects_ok fits ?w" using place_null [OF d(2) i1] d(4) True by simp
    ultimately show ?thesis using True by (simp add: poly_get_def poly_at_def)
  next
    case ij: False
    have j1: "ob_Polys w1 j = Some m" using d(3) ij j by simp
    show ?thesis
    proof (cases "ip_Data m = Self")
      case True
      from move_inline [OF d(2) i1 d(4) j1 True, of moved a] obtain w' v where
        w': "bindR (moveTo fits moved a i j w1) (\<lambda>w. bindR (destruct j w) (set_data j Null)) = Inr w'" "objects_ok fits w'"
        "ip_Storage m = Ctl v" "poly_get i w' = Inr (Some v)" "poly_get j w' = Inr None" by blast
      then have "poly_assign fits moved a i j w = Inr w'"
        using d(1) j1 True by (simp add: poly_assign_def poly_at_def isStoredInline_def)
      moreover have "poly_get j w = Inr (Some v)" using j True w'(3) by (simp add: poly_get_def poly_at_def)
      ultimately show ?thesis using w' ij by simp
    next
      case False
      let ?r = "\<lparr>ip_Storage = copy_flag (ip_Storage m), ip_Data = ip_Data m\<rparr>"
      let ?w = "put_poly j \<lparr>ip_Storage = Owning False, ip_Data = Null\<rparr> (put_poly i ?r w1)"
      have "poly_assign fits moved a i j w = Inr ?w"
        using d(1) i1 j1 ij False by (simp add: poly_assign_def poly_at_def isStoredInline_def Let_def)
      moreover have "objects_ok fits ?w" by (rule move_pointer [OF d(2) i1 d(4) j1 False ij])
      moreover have "poly_get i ?w = poly_get j w" if "\<forall>b. owns w i b \<longrightarrow> ip_Data m \<noteq> Far b"
      proof (cases "ip_Data m")
        case (Far b)
        then have "ob_Heap w1 b = ob_Heap w b" using that heap by blast
        then show ?thesis using Far j ij by (simp add: poly_get_def poly_at_def)
      qed (use j False ij in \<open>simp_all add: poly_get_def poly_at_def\<close>)
      ultimately show ?thesis using ij by (simp add: poly_get_def poly_at_def)
    qed
  qed
qed


lemma construct_ok:
  assumes ok: "objects_ok fits w" and i: "ob_Polys w i = None"
  shows "objects_ok fits (poly_construct i w)" and "ob_Polys (poly_construct i w) = (ob_Polys w)(i \<mapsto> poly_new)"
    and "ob_Heap (poly_construct i w) = ob_Heap w"
proof -
  have P: "ob_Polys (poly_construct i w) = (ob_Polys w)(i \<mapsto> poly_new)" by (simp add: poly_construct_def)
  have "i \<notin> inline_polys w" using i by (simp add: inline_polys_def)
  then show "objects_ok fits (poly_construct i w)"
    by (intro objects_ok_upd [OF ok P])
      (use objects_okD [OF ok] inline_polys_upd [OF P] in \<open>simp_all add: poly_construct_def poly_new_def\<close>)
qed (simp_all add: poly_construct_def)

lemma destroy_ok:
  assumes ok: "objects_ok fits w" and i: "ob_Polys w i = Some p"
  shows "\<exists>w'. poly_destroy i w = Inr w' \<and> objects_ok fits w'"
proof -
  obtain w1 p' where d: "destruct i w = Inr w1" "objects_ok fits w1" "ob_Polys w1 = (ob_Polys w)(i \<mapsto> p')" "ip_Data p' = Null"
    using destruct_ok [OF ok i] by blast
  let ?w = "w1\<lparr>ob_Polys := (ob_Polys w1)(i := None)\<rparr>"
  have i1: "ob_Polys w1 i = Some p'" using d(3) by simp
  have "inline_polys ?w = inline_polys w1" using i1 d(4) by (auto simp: inline_polys_def)
  moreover have "owns ?w k a \<longleftrightarrow> owns w1 k a" for k a using i1 d(4) by (auto simp: owns_def)
  ultimately have "objects_ok fits ?w" using d(2) unfolding objects_ok_def by auto
  then show ?thesis using d(1) by (simp add: poly_destroy_def)
qed

lemma user_ok:
  assumes ok: "objects_ok fits w"
  shows "ob_Heap w a = None \<Longrightarrow> objects_ok fits (heap_new a v w)"
    and "ob_Heap w a \<noteq> None \<Longrightarrow> \<forall>k. \<not> owns w k a \<Longrightarrow> \<exists>w'. heap_delete a w = Inr w' \<and> objects_ok fits w'"
proof -
  note D = objects_okD [OF ok]
  have own: "owns (heap_new a v w) = owns w" "inline_polys (heap_new a v w) = inline_polys w"
    by (auto simp: owns_def inline_polys_def fun_eq_iff)
  assume a: "ob_Heap w a = None"
  show "objects_ok fits (heap_new a v w)"
    unfolding objects_ok_def own using ok card_dom_upd(1) [OF D(5) a, of v] D(7) by (auto simp: objects_ok_def)
next
  note D = objects_okD [OF ok]
  assume "ob_Heap w a \<noteq> None" and free: "\<forall>k. \<not> owns w k a"
  then obtain v where v: "ob_Heap w a = Some v" by blast
  let ?w = "w\<lparr>ob_Heap := (ob_Heap w)(a := None), ob_Gone := ob_Gone w + 1\<rparr>"
  have own: "owns ?w = owns w" "inline_polys ?w = inline_polys w"
    by (auto simp: owns_def inline_polys_def fun_eq_iff)
  have "objects_ok fits ?w"
    unfolding objects_ok_def own
  proof (intro conjI allI impI)
    show "ob_Heap ?w b \<noteq> None" if "owns w i b" for i b using D(2) [OF that] free that by auto
    show "ob_Made ?w = ob_Gone ?w + card (inline_polys w) + card (dom (ob_Heap ?w))"
      using D(7) card_dom_upd(2) [OF D(5) v] by simp
  qed (use D in auto)
  then show "\<exists>w'. heap_delete a w = Inr w' \<and> objects_ok fits w'" using v by (simp add: heap_delete_def)
qed

lemma poly_step_ok:
  assumes ok: "objects_ok fits w" and x: "poly_allowed x w"
  shows "\<exists>w'. poly_perform fits moved x w = Inr w' \<and> objects_ok fits w'"
proof (cases x)
  case (Construct i)
  then show ?thesis using construct_ok(1) [OF ok] x by simp
next
  case (Construct_From a i v)
  then have "ob_Polys w i = None" "ob_Heap w a = None" using x by simp_all
  from poly_emplace_ok [OF construct_ok(1) [OF ok this(1)], of i poly_new a v] this construct_ok(2,3) [OF ok this(1)] Construct_From
  show ?thesis by (auto simp: poly_construct_from_def)
next
  case (Construct_Move a i j)
  then obtain m where m: "ob_Polys w i = None" "ob_Polys w j = Some m" using x by auto
  then have "ob_Polys (poly_construct i w) i = Some poly_new" "ob_Polys (poly_construct i w) j = Some m"
    using construct_ok(2) [OF ok m(1)] by auto
  from poly_assign_ok [OF construct_ok(1) [OF ok m(1)] this, of moved a] Construct_Move
  show ?thesis by (auto simp: poly_construct_move_def)
next
  case (Emplace a i v)
  then obtain p where "ob_Polys w i = Some p" "ob_Heap w a = None" using x by auto
  then show ?thesis using poly_emplace_ok [OF ok, of i p a v] Emplace by auto
next
  case (Assign a i j)
  then obtain p m where "ob_Polys w i = Some p" "ob_Polys w j = Some m" using x by auto
  from poly_assign_ok [OF ok this, of moved a] Assign show ?thesis by auto
next
  case (Borrow i a)
  then obtain p where "ob_Polys w i = Some p" "ip_Data p = Null" using x by (auto simp: empty_poly_def)
  then show ?thesis using place_pointer [OF ok, of i p False a] Borrow by (simp add: setBorrowed_def poly_at_def)
next
  case (Own i a)
  then obtain p where "ob_Polys w i = Some p" "ip_Data p = Null" "ob_Heap w a \<noteq> None" "\<forall>k. \<not> owns w k a"
    using x by (auto simp: empty_poly_def)
  then show ?thesis using place_pointer [OF ok, of i p True a] Own by (simp add: setOwned_def poly_at_def)
next
  case (Destroy i)
  then show ?thesis using destroy_ok [OF ok] x by auto
next
  case (User_New a v)
  then show ?thesis using user_ok(1) [OF ok] x by simp
next
  case (User_Delete a)
  then show ?thesis using user_ok(2) [OF ok] x by simp
qed

lemma poly_reach_ok: "poly_reach fits moved w \<Longrightarrow> objects_ok fits w"
proof (induction rule: poly_reach.induct)
  case poly_reach_new
  show ?case by (simp add: objects_ok_def objects_new_def inline_polys_def owns_def)
next
  case (poly_reach_step w x w')
  then show ?case using poly_step_ok [of fits w x moved] by auto
qed

section \<open>AnyNoCopy\<close>

text \<open>
  The deleter is chosen from the type of the object: none for a trivially destructible object in the
  storage, the destructor for another one, \<^verbatim>\<open>delete\<close> for an object that is too large.
\<close>

datatype 'v any_storage = An_Raw | An_Obj 'v | An_Ptr nat
datatype deleter = In_Place | On_Heap

record 'v any_box =
  an_Storage :: "'v any_storage"
  an_Deleter :: "deleter option"

definition any_new :: "'v any_box" where
  "any_new = \<lparr>an_Storage = An_Raw, an_Deleter = None\<rparr>"

definition getDeleter :: "('v \<Rightarrow> bool) \<Rightarrow> ('v \<Rightarrow> bool) \<Rightarrow> 'v \<Rightarrow> deleter option" where
  "getDeleter fits trivial v = (if \<not> fits v then Some On_Heap else if trivial v then None else Some In_Place)"

definition run_deleter :: "'v any_box \<Rightarrow> 'v objects \<Rightarrow> fault + 'v objects" where
  "run_deleter b w = (case an_Deleter b of None \<Rightarrow> Inr w
     | Some In_Place \<Rightarrow> (case an_Storage b of An_Obj v \<Rightarrow> Inr (w\<lparr>ob_Gone := ob_Gone w + 1\<rparr>) | _ \<Rightarrow> Inl Bad_Pointer)
     | Some On_Heap \<Rightarrow> (case an_Storage b of An_Ptr a \<Rightarrow> heap_delete a w | _ \<Rightarrow> Inl Bad_Pointer))"

definition any_emplace :: "('v \<Rightarrow> bool) \<Rightarrow> ('v \<Rightarrow> bool) \<Rightarrow> nat \<Rightarrow> 'v \<Rightarrow> 'v any_box \<Rightarrow> 'v objects \<Rightarrow> fault + 'v any_box \<times> 'v objects" where
  "any_emplace fits trivial a v b w = bindR (run_deleter b w) (\<lambda>w.
     if fits v then Inr (\<lparr>an_Storage = An_Obj v, an_Deleter = getDeleter fits trivial v\<rparr>, w\<lparr>ob_Made := ob_Made w + 1\<rparr>)
     else Inr (\<lparr>an_Storage = An_Ptr a, an_Deleter = getDeleter fits trivial v\<rparr>, heap_new a v w))"

text \<open>The objects that the box has to destroy, and what agrees when it is well typed.\<close>

definition any_typed :: "('v \<Rightarrow> bool) \<Rightarrow> ('v \<Rightarrow> bool) \<Rightarrow> 'v any_box \<Rightarrow> 'v objects \<Rightarrow> bool" where
  "any_typed fits trivial b w \<longleftrightarrow> (case an_Storage b of An_Raw \<Rightarrow> an_Deleter b = None
     | An_Obj v \<Rightarrow> fits v \<and> an_Deleter b = getDeleter fits trivial v
     | An_Ptr a \<Rightarrow> an_Deleter b = Some On_Heap \<and> (\<exists>v. ob_Heap w a = Some v \<and> \<not> fits v))"

text \<open>A well-typed box destroys its object once, unless that is trivial, and holds the new one.\<close>

lemma run_deleter_ok:
  assumes "any_typed fits trivial b w"
  shows "run_deleter b w = Inr (case an_Storage b of An_Raw \<Rightarrow> w
     | An_Obj v \<Rightarrow> if trivial v then w else w\<lparr>ob_Gone := ob_Gone w + 1\<rparr>
     | An_Ptr a \<Rightarrow> w\<lparr>ob_Heap := (ob_Heap w)(a := None), ob_Gone := ob_Gone w + 1\<rparr>)"
  using assms
  by (auto simp: any_typed_def run_deleter_def getDeleter_def heap_delete_def split: any_storage.splits)

lemma any_emplace_ok:
  assumes "any_typed fits trivial b w" "ob_Heap w a = None"
  shows "\<exists>w1 b' w'. run_deleter b w = Inr w1 \<and> any_emplace fits trivial a v b w = Inr (b', w') \<and> any_typed fits trivial b' w'
    \<and> ob_Made w' = ob_Made w1 + 1 \<and> ob_Gone w' = ob_Gone w1 \<and> ob_Polys w' = ob_Polys w"
proof -
  obtain w1 where w1: "run_deleter b w = Inr w1" "ob_Polys w1 = ob_Polys w"
    using run_deleter_ok [OF assms(1)] by (auto split: any_storage.splits)
  then show ?thesis by (cases "fits v") (simp_all add: any_emplace_def any_typed_def getDeleter_def)
qed

section \<open>The property\<close>

text \<open>
  C40. The pointers are typed: in every run of constructions, moves, releases and destructions that
  keeps to the users' obligations, the tag of each storage agrees with its pointer, so that no
  operation reads the storage as something that it does not hold, deletes an object twice or follows a
  pointer to a deleted object. Every object that was constructed is destroyed once or is still there. A
  move hands the object over and leaves the source empty; a move to itself destroys the object.
\<close>

theorem poly_typed_run:
  assumes reach: "poly_reach fits moved w" and x: "poly_allowed x w"
  shows "\<exists>w'. poly_perform fits moved x w = Inr w' \<and> poly_reach fits moved w'
     \<and> (\<forall>i p. ob_Polys w' i = Some p \<longrightarrow> poly_typed fits p) \<and> (\<forall>i a. owns w' i a \<longrightarrow> ob_Heap w' a \<noteq> None)
     \<and> ob_Made w' = ob_Gone w' + card (inline_polys w') + card (dom (ob_Heap w'))
     \<and> (\<forall>a i v. x = Emplace a i v \<longrightarrow> poly_get i w' = Inr (Some v))
     \<and> (\<forall>a i j. x = Assign a i j \<longrightarrow> i = j \<longrightarrow> poly_get i w' = Inr None)
     \<and> (\<forall>a i j m. x = Assign a i j \<longrightarrow> i \<noteq> j \<longrightarrow> ob_Polys w j = Some m \<longrightarrow> (\<forall>b. owns w i b \<longrightarrow> ip_Data m \<noteq> Far b)
          \<longrightarrow> poly_get i w' = poly_get j w \<and> poly_get j w' = Inr None)"
proof -
  have ok: "objects_ok fits w" by (rule poly_reach_ok [OF reach])
  from poly_step_ok [OF ok x] obtain w' where w': "poly_perform fits moved x w = Inr w'" "objects_ok fits w'" by blast
  have "poly_get i w' = Inr (Some v)" if "x = Emplace a i v" for a i v
    using poly_emplace_ok [OF ok, of i _ a v] w'(1) x that by fastforce
  moreover have "(i = j \<longrightarrow> poly_get i w' = Inr None) \<and> (\<forall>m. i \<noteq> j \<longrightarrow> ob_Polys w j = Some m \<longrightarrow> (\<forall>b. owns w i b \<longrightarrow> ip_Data m \<noteq> Far b)
          \<longrightarrow> poly_get i w' = poly_get j w \<and> poly_get j w' = Inr None)" if xa: "x = Assign a i j" for a i j
  proof -
    obtain p m where "ob_Polys w i = Some p" "ob_Polys w j = Some m" using x xa by auto
    from poly_assign_ok [OF ok this, of moved a] w'(1) xa \<open>ob_Polys w j = Some m\<close> show ?thesis by auto
  qed
  ultimately show ?thesis using w' objects_okD [OF w'(2)] poly_reach_step [OF reach x w'(1)]
    by (intro exI [of _ w'] conjI allI impI) simp_all
qed

theorem poly_typed_run_witness:
  "\<exists>w'. poly_perform (\<lambda>v. v < 10) id (Construct_From 0 1 (5 :: nat)) objects_new = Inr w'
     \<and> ob_Made w' = ob_Gone w' + card (inline_polys w') + card (dom (ob_Heap w'))"
proof -
  have "poly_allowed (Construct_From 0 1 (5 :: nat)) objects_new" by (simp add: objects_new_def)
  from poly_typed_run [OF poly_reach_new this, of "\<lambda>v. v < 10" id] show ?thesis by blast
qed

end
